(* ===== verification/Prelude.thy ===== *)
theory Prelude
  imports Main "HOL-Library.Sublist" "HOL-Library.Char_ord" "HOL-Library.List_Lexorder"
begin

text \<open>
  Shared vocabulary of the development: the theorem collections, the part of Go's
  \<open>strings\<close> and \<open>strconv\<close> packages the backend uses, and generic facts on lists and
  tables that the components share.

  Go strings are byte sequences and are modelled as \<open>string\<close> (a list of 8-bit
  characters).  Case folding and white space are those of the ASCII range: bytes above
  127 are left alone by \<open>to_lower\<close> and are never white space.
\<close>

named_theorems guard_simps \<open>rewrite rules that decide the guards of the handlers\<close>
named_theorems table_simps \<open>facts on tables: lookups, guarded updates, keys\<close>

section \<open>Strings\<close>

definition is_space :: "char \<Rightarrow> bool" where
  "is_space c \<longleftrightarrow> (of_char c :: nat) \<in> {9, 10, 11, 12, 13, 32}"

definition is_digit :: "char \<Rightarrow> bool" where
  "is_digit c \<longleftrightarrow> 48 \<le> (of_char c :: nat) \<and> (of_char c :: nat) \<le> 57"

definition lower_char :: "char \<Rightarrow> char" where
  "lower_char c =
     (if 65 \<le> (of_char c :: nat) \<and> (of_char c :: nat) \<le> 90
      then char_of ((of_char c :: nat) + 32) else c)"

definition to_lower :: "string \<Rightarrow> string" where
  "to_lower s = map lower_char s"

definition trim_right :: "string \<Rightarrow> string" where
  "trim_right s = rev (dropWhile is_space (rev s))"

definition trim_space :: "string \<Rightarrow> string" where
  "trim_space s = trim_right (dropWhile is_space s)"

fun contains :: "string \<Rightarrow> string \<Rightarrow> bool" where
  "contains [] p = (p = [])"
| "contains (c # s) p = (prefix p (c # s) \<or> contains s p)"

text \<open>\<open>split_at q s\<close> cuts \<open>s\<close> at every character satisfying \<open>q\<close> (\<open>strings.Split\<close> for a
  one-character separator); \<open>str_fields\<close> is \<open>strings.Fields\<close>.\<close>

fun split_at :: "(char \<Rightarrow> bool) \<Rightarrow> string \<Rightarrow> string list" where
  "split_at q [] = [[]]"
| "split_at q (c # s) =
     (if q c then [] # split_at q s
      else (case split_at q s of [] \<Rightarrow> [[c]] | w # ws \<Rightarrow> (c # w) # ws))"

definition str_fields :: "string \<Rightarrow> string list" where
  "str_fields s = filter (\<lambda>w. w \<noteq> []) (split_at is_space s)"

fun join :: "string \<Rightarrow> string list \<Rightarrow> string" where
  "join sep [] = []"
| "join sep [w] = w"
| "join sep (w # ws) = w @ sep @ join sep ws"

definition digit_char :: "nat \<Rightarrow> char" where
  "digit_char n = char_of (48 + n mod 10)"

fun itoa_nat :: "nat \<Rightarrow> string" where
  "itoa_nat n = (if n < 10 then [digit_char n] else itoa_nat (n div 10) @ [digit_char n])"

declare itoa_nat.simps [simp del]

definition itoa :: "int \<Rightarrow> string" where
  "itoa n = (if n < 0 then CHR ''-'' # itoa_nat (nat (- n)) else itoa_nat (nat n))"

text \<open>\<open>pad2\<close> and \<open>pad4\<close> are the zero-padded decimal fields of a formatted date.\<close>

definition pad :: "nat \<Rightarrow> string \<Rightarrow> string" where
  "pad w s = replicate (w - length s) (CHR ''0'') @ s"

subsection \<open>Facts on strings\<close>

lemma lower_char_idem [simp]: "lower_char (lower_char c) = lower_char c"
proof (cases "65 \<le> (of_char c :: nat) \<and> (of_char c :: nat) \<le> 90")
  case True
  then have "(of_char (char_of ((of_char c :: nat) + 32) :: char) :: nat) = of_char c + 32"
    by (simp add: take_bit_eq_mod)
  with True show ?thesis by (simp add: lower_char_def)
next
  case False
  then show ?thesis by (auto simp: lower_char_def)
qed

lemma to_lower_idem [simp]: "to_lower (to_lower s) = to_lower s"
  by (simp add: to_lower_def)

lemma contains_prefix: "prefix p s \<Longrightarrow> contains s p"
  by (cases s) auto

lemma contains_append_mid: "contains (a @ p @ b) p"
proof (induction a)
  case Nil
  show ?case by (simp add: contains_prefix)
next
  case (Cons c a)
  then show ?case by simp
qed

lemma contains_iff: "contains s p \<longleftrightarrow> (\<exists>a b. s = a @ p @ b)"
proof
  show "contains s p \<Longrightarrow> \<exists>a b. s = a @ p @ b"
  proof (induction s)
    case (Cons c s)
    show ?case
    proof (cases "prefix p (c # s)")
      case True
      then obtain b where "c # s = [] @ p @ b" by (auto elim: prefixE)
      then show ?thesis by blast
    next
      case False
      with Cons obtain a b where "c # s = (c # a) @ p @ b" by auto
      then show ?thesis by blast
    qed
  qed simp
qed (auto simp: contains_append_mid)

lemma split_at_nonempty [simp]: "split_at q s \<noteq> []"
  by (cases s) (auto split: list.splits)

lemma split_at_word: "\<forall>c \<in> set w. \<not> q c \<Longrightarrow> split_at q w = [w]"
  by (induction w) auto

lemma split_at_sep: "\<forall>c \<in> set w. \<not> q c \<Longrightarrow> q x \<Longrightarrow> split_at q (w @ x # s) = w # split_at q s"
  by (induction w) auto

lemma split_at_parts: "w \<in> set (split_at q s) \<Longrightarrow> \<forall>c \<in> set w. \<not> q c"
proof (induction s arbitrary: w)
  case (Cons c s)
  obtain v vs where v: "split_at q s = v # vs" by (cases "split_at q s") simp_all
  show ?case
  proof (cases "q c")
    case True
    with Cons.prems have "w = [] \<or> w \<in> set (split_at q s)" by simp
    with Cons.IH show ?thesis by auto
  next
    case False
    with Cons.prems v have "w = c # v \<or> w \<in> set vs" by simp
    with Cons.IH [of v] Cons.IH [of w] v False show ?thesis by auto
  qed
qed simp

lemma str_fields_join:
  "\<forall>w \<in> set ws. w \<noteq> [] \<and> (\<forall>c \<in> set w. \<not> is_space c) \<Longrightarrow> str_fields (join '' '' ws) = ws"
proof (induction ws rule: induct_list012)
  case 1
  show ?case by (simp add: str_fields_def)
next
  case (2 w)
  then show ?case by (simp add: str_fields_def split_at_word)
next
  case (3 v w ws)
  have "is_space (CHR '' '')" by (simp add: is_space_def)
  with 3 show ?case by (simp add: str_fields_def split_at_sep)
qed

lemma str_fields_words: "w \<in> set (str_fields s) \<Longrightarrow> w \<noteq> [] \<and> (\<forall>c \<in> set w. \<not> is_space c)"
  by (auto simp: str_fields_def dest: split_at_parts)

lemma of_digit_char [simp]: "(of_char (digit_char n) :: nat) = 48 + n mod 10"
proof -
  have "n mod 10 < 10" by simp
  then show ?thesis by (simp add: digit_char_def take_bit_eq_mod)
qed

lemma digit_char_inj: "digit_char a = digit_char b \<longleftrightarrow> a mod 10 = b mod 10"
  by (metis add_left_cancel of_digit_char digit_char_def)

lemma itoa_nat_nonempty [simp]: "itoa_nat n \<noteq> []"
  by (subst itoa_nat.simps) simp

lemma itoa_nat_digits: "\<forall>c \<in> set (itoa_nat n). is_digit c"
proof (induction n rule: itoa_nat.induct)
  case (1 n)
  have d: "is_digit (digit_char n)" using mod_less_divisor [of 10 n] by (simp add: is_digit_def)
  show ?case
    using "1.IH" d by (subst itoa_nat.simps) auto
qed

lemma itoa_nat_inj: "itoa_nat a = itoa_nat b \<Longrightarrow> a = b"
proof (induction a arbitrary: b rule: itoa_nat.induct)
  case (1 a)
  have last: "a mod 10 = b mod 10"
    using "1.prems" itoa_nat.simps [of a] itoa_nat.simps [of b]
    by (auto simp: digit_char_inj split: if_splits)
  show ?case
  proof (cases "a < 10")
    case True
    then have "itoa_nat b = [digit_char a]"
      using "1.prems" by (simp add: itoa_nat.simps [of a])
    then have "b < 10"
      using itoa_nat.simps [of b] itoa_nat_nonempty [of "b div 10"] by (auto split: if_splits)
    with True last show ?thesis by simp
  next
    case False
    then have eq: "itoa_nat (a div 10) @ [digit_char a] = itoa_nat b"
      using "1.prems" by (simp add: itoa_nat.simps [of a])
    then have nb: "\<not> b < 10"
      using itoa_nat.simps [of b] itoa_nat_nonempty [of "a div 10"] by (auto split: if_splits)
    then have "itoa_nat (a div 10) = itoa_nat (b div 10)"
      using eq itoa_nat.simps [of b] by simp
    with False have "a div 10 = b div 10" by (rule "1.IH")
    with last show ?thesis by (metis div_mult_mod_eq)
  qed
qed

section \<open>Lists and tables\<close>

text \<open>A table is a list of rows in insertion order.  \<open>find\<close> of the list library is a query
  for the first matching row; \<open>sort_key\<close> is the stable sort behind \<open>ORDER BY\<close> and
  \<open>sort.SliceStable\<close>.\<close>

definition update_where :: "('r \<Rightarrow> bool) \<Rightarrow> ('r \<Rightarrow> 'r) \<Rightarrow> 'r list \<Rightarrow> 'r list" where
  "update_where p f rs = map (\<lambda>r. if p r then f r else r) rs"

definition count_where :: "('r \<Rightarrow> bool) \<Rightarrow> 'r list \<Rightarrow> nat" where
  "count_where p rs = length (filter p rs)"

lemma update_where_length [table_simps, simp]: "length (update_where p f rs) = length rs"
  by (simp add: update_where_def)

lemma update_where_none [table_simps]: "(\<And>r. r \<in> set rs \<Longrightarrow> \<not> p r) \<Longrightarrow> update_where p f rs = rs"
  by (simp add: update_where_def map_idI)

lemma count_where_0 [table_simps]: "count_where p rs = 0 \<longleftrightarrow> (\<forall>r \<in> set rs. \<not> p r)"
  by (simp add: count_where_def filter_empty_conv)

lemma in_update_where:
  "r \<in> set (update_where p f rs) \<longleftrightarrow>
     (\<exists>r0 \<in> set rs. r = (if p r0 then f r0 else r0))"
  by (auto simp: update_where_def)

lemma map_update_where [table_simps]:
  "(\<And>r. r \<in> set rs \<Longrightarrow> p r \<Longrightarrow> k (f r) = k r) \<Longrightarrow> map k (update_where p f rs) = map k rs"
  by (auto simp: update_where_def)

lemma find_SomeD: "find p rs = Some r \<Longrightarrow> r \<in> set rs \<and> p r"
  by (induction rs) (auto split: if_splits)

lemma find_update_where:
  assumes "\<And>j. q (f j) = q j"
  shows "find q (update_where p f rs) = map_option (\<lambda>j. if p j then f j else j) (find q rs)"
  by (induction rs) (auto simp: update_where_def assms)

lemma find_append: "find p (xs @ ys) = (case find p xs of None \<Rightarrow> find p ys | Some x \<Rightarrow> Some x)"
  by (induction xs) auto

lemma ex_image_iff: "(\<exists>x \<in> A. f x = i) \<longleftrightarrow> i \<in> f ` A"
  by auto

lemma find_None_iff': "find p rs = None \<longleftrightarrow> (\<forall>r \<in> set rs. \<not> p r)"
  by (auto simp: find_None_iff)

lemma distinct_find:
  "distinct (map k rs) \<Longrightarrow> r \<in> set rs \<Longrightarrow> find (\<lambda>x. k x = k r) rs = Some r"
proof (induction rs)
  case (Cons a rs)
  then show ?case by (auto dest: image_eqI [of "k r" k r "set rs"])
qed simp

lemma list_all2_in: "list_all2 P xs ys \<Longrightarrow> x \<in> set xs \<Longrightarrow> \<exists>y \<in> set ys. P x y"
  by (induction rule: list_all2_induct) auto

lemma list_all2_in': "list_all2 P xs ys \<Longrightarrow> y \<in> set ys \<Longrightarrow> \<exists>x \<in> set xs. P x y"
  by (induction rule: list_all2_induct) auto

subsection \<open>A query's first and last row by an order\<close>

text \<open>\<open>first_by\<close> is \<open>ORDER BY key ASC LIMIT 1\<close> and \<open>last_by\<close> is \<open>ORDER BY key DESC LIMIT 1\<close>:
  \<open>None\<close> on an empty selection, which is Ent's NotFound.\<close>

fun first_by :: "('r \<Rightarrow> 'k::linorder) \<Rightarrow> 'r list \<Rightarrow> 'r option" where
  "first_by k [] = None"
| "first_by k (r # rs) =
     (case first_by k rs of None \<Rightarrow> Some r | Some b \<Rightarrow> if k r \<le> k b then Some r else Some b)"

fun last_by :: "('r \<Rightarrow> 'k::linorder) \<Rightarrow> 'r list \<Rightarrow> 'r option" where
  "last_by k [] = None"
| "last_by k (r # rs) =
     (case last_by k rs of None \<Rightarrow> Some r | Some b \<Rightarrow> if k b \<le> k r then Some r else Some b)"

lemma first_by_None [simp]: "first_by k rs = None \<longleftrightarrow> rs = []"
  by (cases rs) (auto split: option.splits)

lemma last_by_None [simp]: "last_by k rs = None \<longleftrightarrow> rs = []"
  by (cases rs) (auto split: option.splits)

lemma first_by_Some:
  "first_by k rs = Some r \<Longrightarrow> r \<in> set rs \<and> (\<forall>x \<in> set rs. k r \<le> k x)"
proof (induction rs arbitrary: r)
  case (Cons a rs)
  then show ?case by (cases "first_by k rs") (force split: if_splits)+
qed simp

lemma last_by_Some:
  "last_by k rs = Some r \<Longrightarrow> r \<in> set rs \<and> (\<forall>x \<in> set rs. k x \<le> k r)"
proof (induction rs arbitrary: r)
  case (Cons a rs)
  then show ?case by (cases "last_by k rs") (force split: if_splits)+
qed simp

section \<open>Insert-or-skip tables\<close>

text \<open>
  Several operations rest on \<open>INSERT ... ON CONFLICT DO NOTHING\<close> under a unique index:
  the ledger, the balance readings, the job runs.  The interface: \<open>ins\<close> adds a row or,
  when its key is taken, leaves the table alone and says so.  A batch of rows is inserted by
  \<open>ins_all\<close>, which counts the rows that were new.
\<close>

fun ins_all :: "('r \<Rightarrow> 't \<Rightarrow> 't \<times> bool) \<Rightarrow> 'r list \<Rightarrow> 't \<Rightarrow> 't \<times> nat" where
  "ins_all ins [] t = (t, 0)"
| "ins_all ins (r # rs) t =
     (case ins r t of (t1, fresh) \<Rightarrow>
        case ins_all ins rs t1 of (t2, n) \<Rightarrow> (t2, if fresh then Suc n else n))"

locale insert_or_skip =
  fixes key :: "'r \<Rightarrow> 'k"
    and keys :: "'t \<Rightarrow> 'k set"
    and ins :: "'r \<Rightarrow> 't \<Rightarrow> 't \<times> bool"
  assumes taken: "key r \<in> keys t \<Longrightarrow> ins r t = (t, False)"
    and free: "key r \<notin> keys t \<Longrightarrow> snd (ins r t) \<and> keys (fst (ins r t)) = insert (key r) (keys t)"
begin

lemma ins_keys: "keys (fst (ins r t)) = insert (key r) (keys t)"
  by (cases "key r \<in> keys t") (auto simp: taken free)

lemma ins_fresh: "snd (ins r t) \<longleftrightarrow> key r \<notin> keys t"
  by (cases "key r \<in> keys t") (auto simp: taken free)

lemma ins_twice: "ins r (fst (ins r t)) = (fst (ins r t), False)"
  by (rule taken) (simp add: ins_keys)

lemma all_keys: "keys (fst (ins_all ins rs t)) = keys t \<union> key ` set rs"
proof (induction rs arbitrary: t)
  case (Cons r rs)
  have "fst (ins_all ins (r # rs) t) = fst (ins_all ins rs (fst (ins r t)))"
    by (simp split: prod.splits)
  then show ?case by (auto simp: Cons.IH ins_keys)
qed simp

lemma all_taken: "key ` set rs \<subseteq> keys t \<Longrightarrow> ins_all ins rs t = (t, 0)"
  by (induction rs) (auto simp: taken)

lemma all_twice: "ins_all ins rs (fst (ins_all ins rs t)) = (fst (ins_all ins rs t), 0)"
  by (rule all_taken) (simp add: all_keys)

lemma all_count:
  "distinct (map key rs) \<Longrightarrow> snd (ins_all ins rs t) = length (filter (\<lambda>r. key r \<notin> keys t) rs)"
proof (induction rs arbitrary: t)
  case (Cons r rs)
  obtain t1 b where i: "ins r t = (t1, b)" by (cases "ins r t")
  have b: "b \<longleftrightarrow> key r \<notin> keys t" and k: "keys t1 = insert (key r) (keys t)"
    using ins_fresh [of r t] ins_keys [of r t] by (simp_all add: i)
  have "filter (\<lambda>x. key x \<notin> keys t1) rs = filter (\<lambda>x. key x \<notin> keys t) rs"
    using Cons.prems by (intro filter_cong) (auto simp: k image_iff)
  then show ?case
    using Cons.IH [of t1] Cons.prems b by (auto simp: i split: prod.splits)
qed simp

end

text \<open>Row ids come from the table: one above the largest.\<close>

definition fresh_id :: "nat list \<Rightarrow> nat" where
  "fresh_id ids = Suc (foldr max ids 0)"

lemma foldr_max_ge: "i \<in> set ids \<Longrightarrow> i \<le> foldr max ids (0::nat)"
  by (induction ids) auto

lemma fresh_id_new [simp]: "fresh_id ids \<notin> set ids"
  using foldr_max_ge [of "fresh_id ids" ids] by (auto simp: fresh_id_def)

end
