(* ===== verification/GoTime.thy ===== *)
theory GoTime
  imports Prelude
begin

text \<open>
  The part of Go's \<open>time\<close> package the backend uses.  An instant is a whole number of
  nanoseconds since the Unix epoch (\<open>time.Time\<close> without its location); a duration is a
  number of nanoseconds, and \<open>time.Time.Sub\<close> saturates at the 64-bit range as Go's does.
  \<open>go_date\<close> is \<open>time.Date\<close> in UTC, with Go's normalisation of out-of-range months and
  days; it is proved to be inverse to the civil date of a day number.
\<close>

type_synonym instant = int
type_synonym day = int
type_synonym duration = int

section \<open>Durations and instants\<close>

definition second_ns :: duration where "second_ns = 1000000000"
definition minute_ns :: duration where "minute_ns = 60 * second_ns"
definition hour_ns :: duration where "hour_ns = 3600 * second_ns"
definition day_ns :: duration where "day_ns = 24 * hour_ns"

lemma day_ns_val: "day_ns = 86400000000000"
  by (simp add: day_ns_def hour_ns_def second_ns_def)

lemma day_ns_pos [simp]: "0 < day_ns" "day_ns \<noteq> 0" "0 \<le> day_ns"
  by (simp_all add: day_ns_val)

text \<open>\<open>t.Sub u\<close>: the difference clamped to the range of a 64-bit duration.\<close>

definition max_duration :: duration where "max_duration = 2 ^ 63 - 1"
definition min_duration :: duration where "min_duration = - (2 ^ 63)"

definition time_sub :: "instant \<Rightarrow> instant \<Rightarrow> duration" where
  "time_sub t u = max min_duration (min max_duration (t - u))"

definition close_instants :: "instant \<Rightarrow> instant \<Rightarrow> bool" where
  "close_instants t u \<longleftrightarrow> \<bar>t - u\<bar> \<le> max_duration"

lemma time_sub_close [simp]: "close_instants t u \<Longrightarrow> time_sub t u = t - u"
  by (simp add: time_sub_def close_instants_def max_duration_def min_duration_def abs_if split: if_splits)

text \<open>Go's integer division truncates towards zero.\<close>

definition quot :: "int \<Rightarrow> int \<Rightarrow> int" where
  "quot a b = sgn a * sgn b * (\<bar>a\<bar> div \<bar>b\<bar>)"

definition rem :: "int \<Rightarrow> int \<Rightarrow> int" where
  "rem a b = a - b * quot a b"

lemma quot_exact: "0 < b \<Longrightarrow> quot (b * k) b = k"
  by (simp add: quot_def abs_mult sgn_mult sgn_mult_abs)

lemma quot_pos: "0 < b \<Longrightarrow> 0 \<le> a \<Longrightarrow> quot a b = a div b"
  by (auto simp: quot_def sgn_if)

lemma quot_neg: "0 < b \<Longrightarrow> a < 0 \<Longrightarrow> quot a b = - ((- a) div b)"
  by (auto simp: quot_def sgn_if)

section \<open>Civil dates\<close>

definition is_leap :: "int \<Rightarrow> bool" where
  "is_leap y \<longleftrightarrow> y mod 4 = 0 \<and> (y mod 100 \<noteq> 0 \<or> y mod 400 = 0)"

definition year_base :: "int \<Rightarrow> int" where
  "year_base x = 365 * x + x div 4 - x div 100 + x div 400"

text \<open>Day number of 1 January of year \<open>y\<close>; day 0 is 1 January 1970.\<close>

definition year_start :: "int \<Rightarrow> day" where
  "year_start y = year_base (y - 1) - 719162"

definition month_start :: "bool \<Rightarrow> int \<Rightarrow> int" where
  "month_start leap m =
     (let l = (if leap then 1 else 0) in
      if m \<le> 1 then 0 else if m = 2 then 31 else if m = 3 then 59 + l
      else if m = 4 then 90 + l else if m = 5 then 120 + l else if m = 6 then 151 + l
      else if m = 7 then 181 + l else if m = 8 then 212 + l else if m = 9 then 243 + l
      else if m = 10 then 273 + l else if m = 11 then 304 + l else if m = 12 then 334 + l
      else 365 + l)"

definition month_len :: "int \<Rightarrow> int \<Rightarrow> int" where
  "month_len y m = month_start (is_leap y) (m + 1) - month_start (is_leap y) m"

text \<open>\<open>time.Date(y, m, d, 0, 0, 0, 0, time.UTC)\<close> as a day number: the month is normalised
  into the year, the day overflows linearly.\<close>

definition go_date :: "int \<Rightarrow> int \<Rightarrow> int \<Rightarrow> day" where
  "go_date y m d =
     (let y' = y + (m - 1) div 12; m' = (m - 1) mod 12 + 1
      in year_start y' + month_start (is_leap y') m' + (d - 1))"

definition year_of :: "day \<Rightarrow> int" where
  "year_of n =
     (let k = n + 719162; x = k * 400 div 146097
      in if year_base (x + 1) \<le> k then x + 2 else x + 1)"

definition month_of_yday :: "bool \<Rightarrow> int \<Rightarrow> int" where
  "month_of_yday leap r =
     (if r < month_start leap 2 then 1 else if r < month_start leap 3 then 2
      else if r < month_start leap 4 then 3 else if r < month_start leap 5 then 4
      else if r < month_start leap 6 then 5 else if r < month_start leap 7 then 6
      else if r < month_start leap 8 then 7 else if r < month_start leap 9 then 8
      else if r < month_start leap 10 then 9 else if r < month_start leap 11 then 10
      else if r < month_start leap 12 then 11 else 12)"

definition month_of :: "day \<Rightarrow> int" where
  "month_of n = month_of_yday (is_leap (year_of n)) (n - year_start (year_of n))"

definition mday_of :: "day \<Rightarrow> int" where
  "mday_of n = n - year_start (year_of n) - month_start (is_leap (year_of n)) (month_of n) + 1"

text \<open>\<open>Weekday\<close>, Sunday 0; 1 January 1970 was a Thursday.\<close>

definition weekday :: "day \<Rightarrow> int" where
  "weekday n = (n + 4) mod 7"

definition valid_civil :: "int \<Rightarrow> int \<Rightarrow> int \<Rightarrow> bool" where
  "valid_civil y m d \<longleftrightarrow> 1 \<le> m \<and> m \<le> 12 \<and> 1 \<le> d \<and> d \<le> month_len y m"

subsection \<open>The calendar is correct\<close>

lemma year_base_bounds:
  "146097 * x - 699 \<le> 400 * year_base x" "400 * year_base x \<le> 146097 * x + 396"
proof -
  have gen: "400 * (365 * x + a - b + c) = 146097 * x - 100 * p + 4 * q - r"
    if "4 * a = x - p" "100 * b = x - q" "400 * c = x - r" for a b c p q r :: int
    using that by algebra
  have a: "4 * (x div 4) = x - x mod 4" and b: "100 * (x div 100) = x - x mod 100"
    and c: "400 * (x div 400) = x - x mod 400"
    by (simp_all add: minus_mod_eq_mult_div)
  have d: "0 \<le> x mod 4" "x mod 4 \<le> 3" "0 \<le> x mod 100" "x mod 100 \<le> 99"
    "0 \<le> x mod 400" "x mod 400 \<le> 399"
    using pos_mod_bound [of 4 x] pos_mod_bound [of 100 x] pos_mod_bound [of 400 x] by auto
  have e: "400 * year_base x = 146097 * x - 100 * (x mod 4) + 4 * (x mod 100) - x mod 400"
    unfolding year_base_def by (rule gen [OF a b c])
  show "146097 * x - 699 \<le> 400 * year_base x" using d unfolding e by linarith
  show "400 * year_base x \<le> 146097 * x + 396" using d unfolding e by linarith
qed

lemma div_pred:
  assumes "1 < (k::int)"
  shows "y div k - (y - 1) div k = (if y mod k = 0 then 1 else 0)"
proof (cases "y mod k = 0")
  case True
  have "y - 1 = k * (y div k - 1) + (k - 1)"
    using True mult_div_mod_eq [of k y] by (simp add: right_diff_distrib)
  then have "(y - 1) div k = y div k - 1"
    by (rule int_div_pos_eq) (use assms in auto)
  with True show ?thesis by simp
next
  case False
  then have r: "0 < y mod k" "y mod k < k" using assms pos_mod_sign [of k y] by (simp_all add: le_less)
  have "y - 1 = k * (y div k) + (y mod k - 1)"
    by simp
  then have "(y - 1) div k = y div k"
    by (rule int_div_pos_eq) (use r in linarith)+
  with False show ?thesis by simp
qed

lemma year_base_Suc: "year_base (y - 1 + 1) = year_base (y - 1) + 365 + (if is_leap y then 1 else 0)"
proof -
  have m: "y mod 400 = 0 \<Longrightarrow> y mod 100 = 0" "y mod 100 = 0 \<Longrightarrow> y mod 4 = 0" by presburger+
  have gen: "365 * y + a - b + c - (365 * (y - 1) + a' - b' + c') = 365 + (a - a') - (b - b') + (c - c')"
    for a b c a' b' c' :: int
    by simp
  have leap_gen: "365 + (if a then 1 else 0) - (if b then 1 else 0) + (if c then 1 else 0) =
      365 + (if a \<and> (\<not> b \<or> c) then 1 else (0::int))"
    if "c \<Longrightarrow> b" "b \<Longrightarrow> a" for a b c
    using that by (cases a; cases b; cases c) simp_all
  have e: "y - 1 + 1 = y" by simp
  have "year_base (y - 1 + 1) - year_base (y - 1) =
      365 + (y div 4 - (y - 1) div 4) - (y div 100 - (y - 1) div 100) + (y div 400 - (y - 1) div 400)"
    unfolding e year_base_def by (rule gen)
  also have "\<dots> = 365 + (if is_leap y then 1 else 0)"
    unfolding div_pred [of 4, simplified] div_pred [of 100, simplified] div_pred [of 400, simplified]
      is_leap_def
    by (rule leap_gen) (erule m)+
  finally show ?thesis by simp
qed

lemma year_start_Suc: "year_start (y + 1) = year_start y + 365 + (if is_leap y then 1 else 0)"
  using year_base_Suc [of y] by (simp add: year_start_def)

lemma year_of_bounds: "year_start (year_of n) \<le> n \<and> n < year_start (year_of n + 1)"
proof -
  define k where "k = n + 719162"
  define x where "x = k * 400 div 146097"
  have gen1: "146097 * q \<le> 400 * k" if "q * 146097 + r = k * 400" "0 \<le> r" for q r :: int
    using that by linarith
  have gen2: "400 * k < 146097 * (q + 1)" if "q * 146097 + r = k * 400" "r < 146097" for q r :: int
  proof -
    have "400 * k < 146097 * q + 146097" using that by linarith
    then show ?thesis by (simp only: distrib_left mult_1_right)
  qed
  have x: "146097 * x \<le> 400 * k" "400 * k < 146097 * (x + 1)"
    using gen1 [OF div_mult_mod_eq] gen2 [OF div_mult_mod_eq] unfolding x_def by simp_all
  have "400 * year_base x \<le> 400 * k + 396" using year_base_bounds(2) [of x] x by linarith
  then have lo: "year_base x \<le> k" by linarith
  have "146097 * (x + 2) - 699 \<le> 400 * year_base (x + 2)" by (rule year_base_bounds)
  then have hi: "k < year_base (x + 2)" using x unfolding distrib_left by linarith
  have a: "x + 2 + 1 - 1 = x + 2" "x + 2 - 1 = x + 1" "x + 1 + 1 - 1 = x + 1" "x + 1 - 1 = x" by simp_all
  show ?thesis
    using lo hi unfolding year_of_def Let_def year_start_def k_def [symmetric] x_def [symmetric]
    by (auto simp: a k_def)
qed

lemma year_start_mono: "y \<le> z \<Longrightarrow> year_start y \<le> year_start z"
proof -
  assume "y \<le> z"
  then obtain n :: nat where n: "z = y + int n" using zle_iff_zadd by auto
  have "year_start y \<le> year_start (y + int n)"
  proof (induction n)
    case (Suc n)
    moreover have "y + int (Suc n) = y + int n + 1" by simp
    ultimately show ?case using year_start_Suc [of "y + int n"] by (simp only:) simp
  qed simp
  with n show ?thesis by simp
qed

lemma year_of_unique: "year_start y \<le> n \<Longrightarrow> n < year_start (y + 1) \<Longrightarrow> year_of n = y"
  using year_of_bounds [of n] year_start_mono [of "year_of n + 1" y] year_start_mono [of "y + 1" "year_of n"]
  by linarith

lemma month_cases: "1 \<le> m \<Longrightarrow> m \<le> 12 \<Longrightarrow>
    m \<in> {1, 2, 3, 4, 5, 6, 7, 8, 9, 10, 11, 12 :: int}"
  by (simp only: insert_iff empty_iff) arith

lemma month_len_bounds: "1 \<le> m \<Longrightarrow> m \<le> 12 \<Longrightarrow> 28 \<le> month_len y m \<and> month_len y m \<le> 31"
  using month_cases [of m] by (auto simp: month_len_def month_start_def Let_def)

lemma month_of_yday_unique:
  "1 \<le> m \<Longrightarrow> m \<le> 12 \<Longrightarrow> month_start leap m \<le> r \<Longrightarrow> r < month_start leap (m + 1) \<Longrightarrow>
   month_of_yday leap r = m"
  using month_cases [of m] by (cases leap) (auto simp: month_of_yday_def month_start_def Let_def)

lemma month_of_yday_bounds:
  "0 \<le> r \<Longrightarrow> r < 365 + (if leap then 1 else 0) \<Longrightarrow>
   1 \<le> month_of_yday leap r \<and> month_of_yday leap r \<le> 12 \<and>
   month_start leap (month_of_yday leap r) \<le> r \<and> r < month_start leap (month_of_yday leap r + 1)"
  by (cases leap) (auto simp: month_of_yday_def month_start_def Let_def)

lemma yday_bounds: "0 \<le> n - year_start (year_of n) \<and>
    n - year_start (year_of n) < 365 + (if is_leap (year_of n) then 1 else 0)"
  using year_of_bounds [of n] year_start_Suc [of "year_of n"] by auto

lemma civil_valid: "valid_civil (year_of n) (month_of n) (mday_of n)"
  using month_of_yday_bounds [OF conjunct1 [OF yday_bounds] conjunct2 [OF yday_bounds], of n]
  by (auto simp: valid_civil_def month_of_def mday_of_def month_len_def)

lemma go_date_civil: "go_date (year_of n) (month_of n) (mday_of n) = n"
proof -
  have "(month_of n - 1) div 12 = 0" "(month_of n - 1) mod 12 = month_of n - 1"
    using civil_valid [of n] by (auto simp: valid_civil_def)
  then show ?thesis by (simp add: go_date_def mday_of_def)
qed

lemma civil_go_date:
  assumes "valid_civil y m d"
  shows "year_of (go_date y m d) = y" "month_of (go_date y m d) = m" "mday_of (go_date y m d) = d"
proof -
  let ?n = "go_date y m d"
  have v: "1 \<le> m" "m \<le> 12" "1 \<le> d" "d \<le> month_len y m"
    using assms by (auto simp: valid_civil_def)
  have "(m - 1) div 12 = 0" "(m - 1) mod 12 = m - 1" using v by auto
  then have n: "?n = year_start y + month_start (is_leap y) m + (d - 1)" by (simp add: go_date_def)
  have ms: "0 \<le> month_start (is_leap y) m"
    "month_start (is_leap y) (m + 1) \<le> 365 + (if is_leap y then 1 else 0)"
    using month_cases [OF v(1,2)] by (auto simp: month_start_def Let_def)
  show y: "year_of ?n = y"
    using v ms year_start_Suc [of y] by (intro year_of_unique) (auto simp: n month_len_def)
  show m: "month_of ?n = m"
    unfolding month_of_def y using v by (intro month_of_yday_unique) (auto simp: n month_len_def)
  show "mday_of ?n = d"
    unfolding mday_of_def y m by (simp add: n)
qed

lemma go_date_add_day: "go_date y m (d + k) = go_date y m d + k"
  by (simp add: go_date_def Let_def)

lemma go_date_month_shift: "go_date y (m + 12 * k) d = go_date (y + k) m d"
proof -
  have "m + 12 * k - 1 = (m - 1) + 12 * k" by simp
  then have "(m + 12 * k - 1) div 12 = (m - 1) div 12 + k" "(m + 12 * k - 1) mod 12 = (m - 1) mod 12"
    by (simp_all only: div_mult_self2 mod_mult_self2)
  then show ?thesis by (simp add: go_date_def algebra_simps)
qed

text \<open>The first day of a month, by the absolute month number \<open>12 * y + m\<close>.\<close>

definition month_first :: "int \<Rightarrow> day" where
  "month_first k = go_date (k div 12) (k mod 12 + 1) 1"

lemma go_date_month_first: "go_date y m d = month_first (12 * y + (m - 1)) + (d - 1)"
proof -
  have "(12 * y + (m - 1)) div 12 = y + (m - 1) div 12" "(12 * y + (m - 1)) mod 12 = (m - 1) mod 12"
    by simp_all
  then show ?thesis by (simp add: month_first_def go_date_def Let_def)
qed

definition month_number :: "day \<Rightarrow> int" where
  "month_number n = 12 * year_of n + (month_of n - 1)"

definition month_length :: "int \<Rightarrow> int" where
  "month_length k = month_len (k div 12) (k mod 12 + 1)"

lemma month_length_bounds: "28 \<le> month_length k" "month_length k \<le> 31"
  using month_len_bounds [of "k mod 12 + 1" "k div 12"] by (auto simp: month_length_def)

lemma month_first_Suc: "month_first (k + 1) = month_first k + month_length k"
proof (cases "k mod 12 = 11")
  case True
  then have eq: "k + 1 = 12 * (k div 12 + 1) + 0"
    using mult_div_mod_eq [of 12 k] unfolding distrib_left by linarith
  have a: "(k + 1) div 12 = k div 12 + 1" "(k + 1) mod 12 = 0"
    by (rule int_div_pos_eq [OF eq], simp, simp) (rule int_mod_pos_eq [OF eq], simp, simp)
  have "month_first (k + 1) = year_start (k div 12 + 1)"
    by (simp add: month_first_def a go_date_def month_start_def)
  then show ?thesis
    using True year_start_Suc [of "k div 12"]
    by (auto simp: month_first_def go_date_def month_length_def month_len_def month_start_def)
next
  case False
  have b: "0 \<le> k mod 12" "k mod 12 < 11" using False pos_mod_bound [of 12 k] by auto
  have eq: "k + 1 = 12 * (k div 12) + (k mod 12 + 1)" by simp
  have a: "(k + 1) div 12 = k div 12" "(k + 1) mod 12 = k mod 12 + 1"
    by (rule int_div_pos_eq [OF eq], use b in simp_all) (rule int_mod_pos_eq [OF eq], use b in auto)
  then have c: "(k mod 12 + 1) div 12 = 0" "(k mod 12 + 1) mod 12 = k mod 12 + 1" by auto
  have d: "k mod 12 + 1 - 1 = k mod 12" "k mod 12 + 1 + 1 - 1 = k mod 12 + 1" by simp_all
  have e: "month_first (k + 1) = year_start (k div 12) + month_start (is_leap (k div 12)) (k mod 12 + 1 + 1)"
    unfolding month_first_def a go_date_def Let_def d c by simp
  have f: "month_first k = year_start (k div 12) + month_start (is_leap (k div 12)) (k mod 12 + 1)"
    unfolding month_first_def go_date_def Let_def d by simp
  have gen: "A + B' = A + B + (B' - B)" for A B B' :: int by simp
  show ?thesis unfolding e f month_length_def month_len_def by (rule gen)
qed

lemma month_first_strict: "i < j \<Longrightarrow> month_first i + month_length i \<le> month_first j"
proof -
  assume "i < j"
  then obtain n :: nat where n: "j = i + 1 + int n" using zless_iff_Suc_zadd by auto
  have "month_first i + month_length i \<le> month_first (i + 1 + int n)"
  proof (induction n)
    case 0
    show ?case by (simp add: month_first_Suc)
  next
    case (Suc n)
    then show ?case
      using month_first_Suc [of "i + 1 + int n"] month_length_bounds(1) [of "i + 1 + int n"]
      by (simp add: algebra_simps)
  qed
  with n show ?thesis by simp
qed

lemma month_first_number: "month_first (month_number n) + (mday_of n - 1) = n"
  using go_date_civil [of n] by (simp add: go_date_month_first month_number_def)

lemma mday_bounds: "1 \<le> mday_of n" "mday_of n \<le> month_length (month_number n)"
proof -
  have v: "valid_civil (year_of n) (month_of n) (mday_of n)" by (rule civil_valid)
  then have "month_number n div 12 = year_of n" "month_number n mod 12 + 1 = month_of n"
    by (auto simp: month_number_def valid_civil_def)
  with v show "1 \<le> mday_of n" "mday_of n \<le> month_length (month_number n)"
    by (auto simp: valid_civil_def month_length_def)
qed

lemma month_number_unique:
  assumes "month_first k \<le> n" "n < month_first (k + 1)"
  shows "month_number n = k"
proof -
  have a: "month_first (month_number n) \<le> n" "n < month_first (month_number n + 1)"
    using month_first_number [of n] mday_bounds [of n] month_first_Suc [of "month_number n"] by auto
  have "\<not> month_number n < k"
    using month_first_strict [of "month_number n" k] a assms month_first_Suc [of "month_number n"] by auto
  moreover have "\<not> k < month_number n"
    using month_first_strict [of k "month_number n"] a assms month_first_Suc [of k] by auto
  ultimately show ?thesis by simp
qed

section \<open>Calendar operations on instants (UTC)\<close>

definition day_of :: "instant \<Rightarrow> day" where
  "day_of t = t div day_ns"

definition at_day :: "day \<Rightarrow> instant" where
  "at_day n = n * day_ns"

text \<open>\<open>t.AddDate(years, months, days)\<close> on a UTC time: the date fields are added and
  renormalised by \<open>time.Date\<close>, the time of day is kept.\<close>

definition add_date :: "instant \<Rightarrow> int \<Rightarrow> int \<Rightarrow> int \<Rightarrow> instant" where
  "add_date t y m d =
     (let n = day_of t
      in at_day (go_date (year_of n + y) (month_of n + m) (mday_of n + d)) + t mod day_ns)"

text \<open>\<open>t.Format("2006-01-02")\<close>; years are four digits, as in every stored date.\<close>

definition format_date :: "instant \<Rightarrow> string" where
  "format_date t =
     (let n = day_of t
      in pad 4 (itoa (year_of n)) @ ''-'' @ pad 2 (itoa (month_of n)) @ ''-'' @ pad 2 (itoa (mday_of n)))"

lemma at_day_simps [simp]:
  "day_of (at_day n) = n" "at_day n mod day_ns = 0"
  "at_day m = at_day n \<longleftrightarrow> m = n" "at_day m \<le> at_day n \<longleftrightarrow> m \<le> n" "at_day m < at_day n \<longleftrightarrow> m < n"
  by (simp_all add: at_day_def day_of_def)

lemma at_day_diff: "at_day m - at_day n = day_ns * (m - n)"
  by (simp add: at_day_def algebra_simps)

lemma at_day_of: "at_day (day_of t) \<le> t" "t < at_day (day_of t + 1)"
  using div_mult_mod_eq [of t day_ns] pos_mod_sign [OF day_ns_pos(1), of t]
    pos_mod_bound [OF day_ns_pos(1), of t]
  unfolding at_day_def day_of_def distrib_right by linarith+

lemma add_days: "add_date t 0 0 d = t + d * day_ns"
proof -
  have "at_day (day_of t + d) + t mod day_ns = t + d * day_ns"
    by (simp add: at_day_def day_of_def algebra_simps)
  then show ?thesis
    by (simp add: add_date_def go_date_add_day go_date_civil)
qed

lemma add_days_at_day [simp]: "add_date (at_day n) 0 0 d = at_day (n + d)"
  by (simp add: add_days at_day_def algebra_simps)

end
