(* ===== verification/FinanceDates.thy ===== *)
theory FinanceDates
  imports GoTime
begin

text \<open>
  \<open>internal/finance/date.go\<close> and \<open>internal/finance/window.go\<close>: the wire dates of the ingest
  payload and the sync window computed from an account's watermark.  \<open>time.Parse\<close> is
  modelled for the two layouts the code uses (RFC 3339 and \<open>2006-01-02\<close>), with its
  leniencies: a one-digit hour and a fractional second are accepted, an offset of up to 24
  hours and 60 minutes is accepted.
\<close>

section \<open>Parsing\<close>

definition digit_val :: "char \<Rightarrow> int" where
  "digit_val c = int (of_char c) - 48"

text \<open>\<open>getnum\<close>: one or two digits, exactly two when \<open>fixed\<close>.\<close>

definition getnum :: "bool \<Rightarrow> string \<Rightarrow> (int \<times> string) option" where
  "getnum fixed s =
     (case s of [] \<Rightarrow> None
      | a # s1 \<Rightarrow>
          if \<not> is_digit a then None
          else (case s1 of
                  b # s2 \<Rightarrow> if is_digit b then Some (10 * digit_val a + digit_val b, s2)
                            else if fixed then None else Some (digit_val a, s1)
                | [] \<Rightarrow> if fixed then None else Some (digit_val a, [])))"

definition getyear :: "string \<Rightarrow> (int \<times> string) option" where
  "getyear s =
     (case s of a # b # c # d # r \<Rightarrow>
        if is_digit a \<and> is_digit b \<and> is_digit c \<and> is_digit d
        then Some (1000 * digit_val a + 100 * digit_val b + 10 * digit_val c + digit_val d, r)
        else None
      | _ \<Rightarrow> None)"

definition expect :: "char \<Rightarrow> string \<Rightarrow> string option" where
  "expect c s = (case s of [] \<Rightarrow> None | a # r \<Rightarrow> if a = c then Some r else None)"

text \<open>The fraction of a second: a point or comma followed by digits, nine of them kept.\<close>

fun digits_val :: "int \<Rightarrow> string \<Rightarrow> int" where
  "digits_val acc [] = acc"
| "digits_val acc (c # s) = digits_val (10 * acc + digit_val c) s"

definition getfrac :: "string \<Rightarrow> int \<times> string" where
  "getfrac s =
     (case s of p # d # r \<Rightarrow>
        if (p = CHR ''.'' \<or> p = CHR '','') \<and> is_digit d
        then (let ds = take 9 (takeWhile is_digit (d # r))
              in (digits_val 0 ds * 10 ^ (9 - length ds), dropWhile is_digit (d # r)))
        else (0, s)
      | _ \<Rightarrow> (0, s))"

definition getzone :: "string \<Rightarrow> (int \<times> string) option" where
  "getzone s =
     (case s of [] \<Rightarrow> None
      | c # r \<Rightarrow>
          if c = CHR ''Z'' then Some (0, r)
          else Option.bind (getnum True r) (\<lambda>(hh, r1).
               Option.bind (expect (CHR '':'') r1) (\<lambda>r2.
               Option.bind (getnum True r2) (\<lambda>(mm, r3).
                 if 24 < hh \<or> 60 < mm then None
                 else if c = CHR ''+'' then Some ((hh * 60 + mm) * 60, r3)
                 else if c = CHR ''-'' then Some (- ((hh * 60 + mm) * 60), r3)
                 else None))))"

definition getdate :: "string \<Rightarrow> ((int \<times> int \<times> int) \<times> string) option" where
  "getdate s =
     Option.bind (getyear s) (\<lambda>(y, r1).
     Option.bind (expect (CHR ''-'') r1) (\<lambda>r2.
     Option.bind (getnum True r2) (\<lambda>(m, r3).
       if m < 1 \<or> 12 < m then None
       else Option.bind (expect (CHR ''-'') r3) (\<lambda>r4.
            Option.bind (getnum True r4) (\<lambda>(d, r5). Some ((y, m, d), r5))))))"

definition valid_day :: "int \<Rightarrow> int \<Rightarrow> int \<Rightarrow> bool" where
  "valid_day y m d \<longleftrightarrow> 1 \<le> d \<and> d \<le> month_len y m"

definition parse_rfc3339 :: "string \<Rightarrow> instant option" where
  "parse_rfc3339 s =
     Option.bind (getdate s) (\<lambda>((y, m, d), r1).
     Option.bind (expect (CHR ''T'') r1) (\<lambda>r2.
     Option.bind (getnum False r2) (\<lambda>(hh, r3).
       if 24 \<le> hh then None else
     Option.bind (expect (CHR '':'') r3) (\<lambda>r4.
     Option.bind (getnum True r4) (\<lambda>(mi, r5).
       if 60 \<le> mi then None else
     Option.bind (expect (CHR '':'') r5) (\<lambda>r6.
     Option.bind (getnum True r6) (\<lambda>(ss, r7).
       if 60 \<le> ss then None else
       (case getfrac r7 of (ns, r8) \<Rightarrow>
     Option.bind (getzone r8) (\<lambda>(off, r9).
       if r9 \<noteq> [] \<or> \<not> valid_day y m d then None
       else Some (at_day (go_date y m d) + hh * hour_ns + mi * minute_ns + ss * second_ns + ns
                  - off * second_ns))))))))))"

definition parse_dateonly :: "string \<Rightarrow> instant option" where
  "parse_dateonly s =
     Option.bind (getdate s) (\<lambda>((y, m, d), r).
       if r \<noteq> [] \<or> \<not> valid_day y m d then None else Some (at_day (go_date y m d)))"

section \<open>Dates of the payload\<close>

definition normalizeDate :: "instant \<Rightarrow> instant" where
  "normalizeDate t =
     (let n = day_of t in at_day (go_date (year_of n) (month_of n) (mday_of n)))"

definition parseDate :: "string \<Rightarrow> instant option" where
  "parseDate s0 =
     (let s = trim_space s0
      in case parse_rfc3339 s of Some t \<Rightarrow> Some (normalizeDate t)
         | None \<Rightarrow> (case parse_dateonly s of Some t \<Rightarrow> Some (normalizeDate t) | None \<Rightarrow> None))"

definition parseDateTime :: "string \<Rightarrow> instant option" where
  "parseDateTime s = parse_rfc3339 (trim_space s)"

section \<open>The sync window\<close>

record sync_window =
  win_from :: instant
  win_to :: instant
  win_backfill :: bool

definition ComputeWindow :: "instant option \<Rightarrow> instant \<Rightarrow> instant \<Rightarrow> int \<Rightarrow> sync_window" where
  "ComputeWindow watermark earliest today overlapDays =
     (case watermark of
        None \<Rightarrow> \<lparr>win_from = earliest, win_to = today, win_backfill = True\<rparr>
      | Some w \<Rightarrow> \<lparr>win_from = add_date w 0 0 (- overlapDays), win_to = today, win_backfill = False\<rparr>)"

section \<open>Facts\<close>

lemma normalizeDate_eq: "normalizeDate t = at_day (day_of t)"
  by (simp add: normalizeDate_def Let_def go_date_civil)

lemma normalizeDate_at_day [simp]: "normalizeDate (at_day n) = at_day n"
  by (simp add: normalizeDate_eq)

lemma normalizeDate_idem [simp]: "normalizeDate (normalizeDate t) = normalizeDate t"
  by (simp add: normalizeDate_eq)

lemma normalizeDate_mono: "t \<le> u \<Longrightarrow> normalizeDate t \<le> normalizeDate u"
  by (simp add: normalizeDate_eq day_of_def zdiv_mono1)

lemma normalizeDate_le: "normalizeDate t \<le> t"
  using at_day_of(1) by (simp add: normalizeDate_eq)

lemma normalizeDate_less: "t < normalizeDate t + day_ns"
  using at_day_of(2) [of t] by (simp add: normalizeDate_eq at_day_def algebra_simps)

text \<open>Every parsed payload date is a UTC midnight.\<close>

lemma parseDate_normal: "parseDate s = Some t \<Longrightarrow> normalizeDate t = t"
  by (auto simp: parseDate_def Let_def split: option.splits)

subsection \<open>A formatted date parses back\<close>

lemma digit_val_digit_char [simp]: "digit_val (digit_char n) = int (n mod 10)"
  by (simp add: digit_val_def)

lemma is_digit_digit_char [simp]: "is_digit (digit_char n)"
  using mod_less_divisor [of 10 n] by (simp add: is_digit_def)

lemma digit_char_0: "digit_char 0 = CHR ''0''"
  by code_simp

lemma itoa_nat_small: "n < 10 \<Longrightarrow> itoa_nat n = [digit_char n]"
  by (simp add: itoa_nat.simps [of n])

lemma itoa_nat_step: "10 \<le> n \<Longrightarrow> itoa_nat n = itoa_nat (n div 10) @ [digit_char n]"
  by (simp add: itoa_nat.simps [of n])

lemma pad2_digits: "n < 100 \<Longrightarrow> pad 2 (itoa (int n)) = [digit_char (n div 10), digit_char n]"
proof (cases "n < 10")
  case True
  then show ?thesis by (simp add: itoa_def pad_def itoa_nat_small digit_char_0)
next
  case False
  assume "n < 100"
  then have "n div 10 < 10" by simp
  with False show ?thesis by (simp add: itoa_def pad_def itoa_nat_small itoa_nat_step)
qed

lemma pad4_digits:
  assumes "n < 10000"
  shows "pad 4 (itoa (int n)) =
    [digit_char (n div 1000), digit_char (n div 100), digit_char (n div 10), digit_char n]"
proof -
  have d: "n div 10 div 10 = n div 100" "n div 100 div 10 = n div 1000" "n div 1000 < 10"
    using assms by (simp_all flip: div_mult2_eq)
  have r: "replicate 3 x = [x, x, x]" "replicate 2 x = [x, x]" for x :: char
    by (simp_all add: numeral_3_eq_3 numeral_2_eq_2)
  consider "n < 10" | "10 \<le> n" "n < 100" | "100 \<le> n" "n < 1000" | "1000 \<le> n" by linarith
  then show ?thesis
  proof cases
    case 1
    then have "n div 10 = 0" "n div 100 = 0" "n div 1000 = 0" by simp_all
    with 1 show ?thesis by (simp add: itoa_def pad_def itoa_nat_small digit_char_0 r)
  next
    case 2
    then have "n div 10 < 10" "n div 100 = 0" "n div 1000 = 0" by simp_all
    with 2 show ?thesis
      by (simp add: itoa_def pad_def itoa_nat_small itoa_nat_step digit_char_0 r)
  next
    case 3
    then have "10 \<le> n" "10 \<le> n div 10" by simp_all
    from this [THEN itoa_nat_step] have "itoa_nat n =
        itoa_nat (n div 100) @ [digit_char (n div 10), digit_char n]"
      unfolding d by simp
    moreover have "n div 100 < 10" "n div 1000 = 0" using 3 by simp_all
    ultimately show ?thesis by (simp add: itoa_def pad_def itoa_nat_small digit_char_0)
  next
    case 4
    then have "10 \<le> n" "10 \<le> n div 10" "10 \<le> n div 100" by simp_all
    from this [THEN itoa_nat_step] have "itoa_nat n =
        itoa_nat (n div 1000) @ [digit_char (n div 100), digit_char (n div 10), digit_char n]"
      unfolding d by simp
    with itoa_nat_small [OF d(3)] show ?thesis by (simp add: itoa_def pad_def)
  qed
qed

lemma digits4:
  "n < 10000 \<Longrightarrow> 1000 * (n div 1000 mod 10) + 100 * (n div 100 mod 10) + 10 * (n div 10 mod 10) + n mod 10 = (n::nat)"
proof -
  assume "n < 10000"
  then have "n div 1000 mod 10 = n div 1000" by simp
  moreover have "n div 10 div 10 = n div 100" "n div 100 div 10 = n div 1000"
    by (simp_all flip: div_mult2_eq)
  moreover note div_mult_mod_eq [of n 10] div_mult_mod_eq [of "n div 10" 10] div_mult_mod_eq [of "n div 100" 10]
  ultimately show ?thesis by linarith
qed

lemma getnum_pad2:
  assumes "0 \<le> n" "n < 100"
  shows "getnum True (pad 2 (itoa n) @ r) = Some (n, r)"
proof -
  obtain m where m: "n = int m" "m < 100" using assms nonneg_int_cases [of n] by auto
  then have "m div 10 mod 10 = m div 10" by simp
  then have "10 * int (m div 10 mod 10) + int (m mod 10) = int m"
    using div_mult_mod_eq [of m 10] by linarith
  then show ?thesis using m by (simp add: getnum_def pad2_digits)
qed

lemma getyear_pad4:
  assumes "0 \<le> n" "n < 10000"
  shows "getyear (pad 4 (itoa n) @ r) = Some (n, r)"
proof -
  obtain m where m: "n = int m" "m < 10000" using assms nonneg_int_cases [of n] by auto
  from digits4 [OF m(2)] have "1000 * int (m div 1000 mod 10) + 100 * int (m div 100 mod 10)
      + 10 * int (m div 10 mod 10) + int (m mod 10) = int m"
    by linarith
  then show ?thesis using m by (simp add: getyear_def pad4_digits)
qed

lemma getdate_format:
  assumes "0 \<le> year_of (day_of t)" "year_of (day_of t) < 10000"
  shows "getdate (format_date t) =
    Some ((year_of (day_of t), month_of (day_of t), mday_of (day_of t)), [])"
proof -
  have v: "1 \<le> month_of (day_of t)" "month_of (day_of t) \<le> 12" "1 \<le> mday_of (day_of t)"
    "mday_of (day_of t) \<le> 31"
    using civil_valid [of "day_of t"] month_len_bounds [of "month_of (day_of t)" "year_of (day_of t)"]
    by (auto simp: valid_civil_def)
  then show ?thesis
    using assms getnum_pad2 [of "mday_of (day_of t)" "[]"]
    by (simp add: getdate_def format_date_def Let_def getyear_pad4 getnum_pad2 expect_def)
qed

lemma format_date_nonspace: "c \<in> set (format_date t) \<Longrightarrow> \<not> is_space c"
proof -
  have d: "is_digit c \<Longrightarrow> \<not> is_space c" for c
    by (auto simp: is_digit_def is_space_def)
  have i: "c \<in> set (itoa_nat m) \<Longrightarrow> \<not> is_space c" for m
    using itoa_nat_digits d by blast
  have z: "\<not> is_space (CHR ''0'')" "\<not> is_space (CHR ''-'')" by (simp_all add: is_space_def)
  have p: "c \<in> set (pad w (itoa n)) \<Longrightarrow> \<not> is_space c" for w n
    using i z by (auto simp: pad_def itoa_def split: if_splits)
  show "c \<in> set (format_date t) \<Longrightarrow> \<not> is_space c"
    using p z by (auto simp: format_date_def Let_def)
qed

lemma trim_space_id: "(\<And>c. c \<in> set s \<Longrightarrow> \<not> is_space c) \<Longrightarrow> trim_space s = s"
proof -
  assume a: "\<And>c. c \<in> set s \<Longrightarrow> \<not> is_space c"
  have "dropWhile is_space s = s" using a by (cases s) auto
  moreover have "dropWhile is_space (rev s) = rev s" using a by (cases "rev s") (auto dest: arg_cong [where f = set])
  ultimately show ?thesis by (simp add: trim_space_def trim_right_def)
qed

lemma format_date_no_time: "getdate s = Some (ymd, []) \<Longrightarrow> parse_rfc3339 s = None"
  by (simp add: parse_rfc3339_def expect_def split: prod.splits)

lemma parse_formatted:
  assumes "0 \<le> year_of (day_of t)" "year_of (day_of t) < 10000"
  shows "trim_space (format_date t) = format_date t" "parse_rfc3339 (format_date t) = None"
    "parse_dateonly (format_date t) = Some (normalizeDate t)" "format_date t \<noteq> []"
proof -
  note g = getdate_format [OF assms]
  show "trim_space (format_date t) = format_date t"
    by (rule trim_space_id) (rule format_date_nonspace)
  show "parse_rfc3339 (format_date t) = None" by (rule format_date_no_time [OF g])
  have "valid_day (year_of (day_of t)) (month_of (day_of t)) (mday_of (day_of t))"
    using civil_valid [of "day_of t"] by (simp add: valid_day_def valid_civil_def)
  then show "parse_dateonly (format_date t) = Some (normalizeDate t)"
    by (simp add: parse_dateonly_def g go_date_civil normalizeDate_eq)
  show "format_date t \<noteq> []" by (simp add: format_date_def Let_def)
qed

text \<open>the canonical date text parses back.  For every instant in the years 0 to 9999,
  formatting its UTC date as YYYY-MM-DD and reading it as a payload date yields the UTC midnight
  of that day, with surrounding white space allowed by the trim.\<close>

theorem parse_format_date:
  assumes "0 \<le> year_of (day_of t)" "year_of (day_of t) < 10000"
  shows "parseDate (format_date t) = Some (normalizeDate t)"
  by (simp add: parseDate_def parse_formatted [OF assms])

theorem parse_format_date_witness:
  "parseDate (format_date (at_day 20000)) = Some (normalizeDate (at_day 20000))"
proof (rule parse_format_date)
  show "0 \<le> year_of (day_of (at_day 20000))" by code_simp
  show "year_of (day_of (at_day 20000)) < 10000" by code_simp
qed

end
