(* ===== verification/Float64.thy ===== *)
theory Float64
  imports Complex_Main "HOL-Library.Log_Nat" Prelude
begin

text \<open>
  Money is carried as \<open>float64\<close> throughout the backend.  A finite float is modelled by the
  rational it denotes; every arithmetic operation computes the exact result and rounds it to
  a 53-bit significand, ties to even, which is IEEE 754 binary64 addition, subtraction,
  multiplication and division.  Left out: the exponent range (no overflow to infinity, no
  subnormals), NaN and the sign of zero; JSON numbers never decode to NaN or infinity.

  Negation, absolute value and comparison are exact.  \<open>f64 q\<close> is the float nearest to the
  literal \<open>q\<close>.
\<close>

section \<open>Rounding\<close>

definition round_half_even :: "rat \<Rightarrow> int" where
  "round_half_even r =
     (let f = \<lfloor>r\<rfloor>; d = r - of_int f
      in if d < 1 / 2 then f else if 1 / 2 < d then f + 1 else if even f then f else f + 1)"

definition ilog2 :: "rat \<Rightarrow> int" where
  "ilog2 r =
     (case quotient_of r of (p, q) \<Rightarrow>
        let k = bitlen p - bitlen q in if 2 powi k \<le> r then k else k - 1)"

definition rnd64 :: "rat \<Rightarrow> rat" where
  "rnd64 x =
     (if x = 0 then 0
      else let u = 2 powi (ilog2 \<bar>x\<bar> - 52)
           in (if x < 0 then - (of_int (round_half_even (- x / u)) * u)
               else of_int (round_half_even (x / u)) * u))"

lemma round_half_even_error: "\<bar>of_int (round_half_even r) - r\<bar> \<le> 1 / 2"
proof -
  have f: "of_int \<lfloor>r\<rfloor> \<le> r" "r < of_int \<lfloor>r\<rfloor> + 1" by linarith+
  have gen: "\<bar>of_int (if r - of_int n < 1 / 2 then n else if 1 / 2 < r - of_int n then n + 1
      else if even n then n else n + 1) - r\<bar> \<le> 1 / 2"
    if "of_int n \<le> r" "r < of_int n + 1" for n
    using that by (auto simp: abs_if)
  show ?thesis unfolding round_half_even_def Let_def by (rule gen [OF f])
qed

lemma round_half_even_int [simp]: "round_half_even (of_int n) = n"
  by (simp add: round_half_even_def)

lemma round_half_even_nonneg: "0 \<le> r \<Longrightarrow> 0 \<le> round_half_even r"
  using round_half_even_error [of r] by (auto simp: round_half_even_def Let_def)

lemma ilog2_bounds:
  assumes "0 < r"
  shows "2 powi (ilog2 r) \<le> r" "r < 2 powi (ilog2 r + 1)"
proof -
  obtain p q where pq: "quotient_of r = (p, q)" by (cases "quotient_of r")
  have q: "0 < q" using quotient_of_denom_pos [OF pq] .
  have r: "r = of_int p / of_int q" using quotient_of_div [OF pq] .
  have p: "0 < p" using assms q unfolding r by (simp add: zero_less_divide_iff)
  have b: "(2::rat) powi (bitlen n - 1) \<le> of_int n \<and> of_int n < (2::rat) powi (bitlen n)" if "0 < n" for n
  proof -
    have bl: "2 ^ nat (bitlen n - 1) \<le> n" "n < 2 ^ nat (bitlen n)" "0 < bitlen n"
      using bitlen_bounds [OF that] bitlen_eq_zero_iff [of n] bitlen_nonneg [of n] that by auto
    from bl(1) have "(of_int (2 ^ nat (bitlen n - 1)) :: rat) \<le> of_int n" by (simp only: of_int_le_iff)
    moreover from bl(2) have "(of_int n :: rat) < of_int (2 ^ nat (bitlen n))" by (simp only: of_int_less_iff)
    ultimately show ?thesis using bl(3) by (simp add: power_int_def)
  qed
  let ?k = "bitlen p - bitlen q"
  have two: "(0::rat) < 2 powi a" for a by simp
  have hi: "r < 2 powi (?k + 1)"
  proof -
    have "of_int p < (2::rat) powi (bitlen p)" using b [OF p] by blast
    also have "(2::rat) powi (bitlen p) = 2 powi (?k + 1) * 2 powi (bitlen q - 1)"
      by (simp flip: power_int_add)
    also have "\<dots> \<le> 2 powi (?k + 1) * of_int q"
      using b [OF q] two by (intro mult_left_mono) auto
    finally show ?thesis using q unfolding r by (simp add: divide_less_eq)
  qed
  have lo: "2 powi (?k - 1) \<le> r"
  proof -
    have "(2::rat) powi (?k - 1) * of_int q \<le> 2 powi (?k - 1) * 2 powi (bitlen q)"
      using b [OF q] two by (intro mult_left_mono) auto
    also have "\<dots> = 2 powi (bitlen p - 1)" by (simp flip: power_int_add)
    also have "\<dots> \<le> of_int p" using b [OF p] by blast
    finally show ?thesis using q unfolding r by (simp add: le_divide_eq)
  qed
  show "2 powi (ilog2 r) \<le> r" "r < 2 powi (ilog2 r + 1)"
    using lo hi by (auto simp: ilog2_def pq Let_def)
qed

lemma rnd64_0 [simp]: "rnd64 0 = 0"
  by (simp add: rnd64_def)

lemma rnd64_minus [simp]: "rnd64 (- x) = - rnd64 x"
  by (auto simp: rnd64_def Let_def)

lemma rnd64_nonneg: "0 \<le> x \<Longrightarrow> 0 \<le> rnd64 x"
  by (auto simp: rnd64_def Let_def intro!: mult_nonneg_nonneg round_half_even_nonneg divide_nonneg_nonneg)

lemma rnd64_error_pos: "0 < x \<Longrightarrow> \<bar>rnd64 x - x\<bar> \<le> x / 2 ^ 53"
proof -
  assume x: "0 < x"
  define u :: rat where "u = 2 powi (ilog2 x - 52)"
  have u: "0 < u" by (simp add: u_def)
  have "u * 2 ^ 52 = 2 powi (ilog2 x)"
    by (simp add: u_def power_int_diff)
  then have ux: "u * 2 ^ 52 \<le> x" using ilog2_bounds(1) [OF x] by simp
  have "rnd64 x - x = u * (of_int (round_half_even (x / u)) - x / u)"
    using x u by (simp add: rnd64_def u_def Let_def algebra_simps)
  then have "\<bar>rnd64 x - x\<bar> = u * \<bar>of_int (round_half_even (x / u)) - x / u\<bar>"
    using u by (simp add: abs_mult)
  also have "\<dots> \<le> u * (1 / 2)"
    using u by (intro mult_left_mono round_half_even_error) auto
  also have "\<dots> \<le> x / 2 ^ 53" using ux by simp
  finally show ?thesis .
qed

lemma rnd64_error: "\<bar>rnd64 x - x\<bar> \<le> \<bar>x\<bar> / 2 ^ 53"
proof (cases "x < 0")
  case True
  then show ?thesis using rnd64_error_pos [of "- x"] by simp
next
  case False
  then show ?thesis using rnd64_error_pos [of x] by (cases "x = 0") auto
qed

lemma rnd64_exact_pos:
  assumes "0 < n" "n < 2 ^ 53"
  shows "rnd64 (of_int n) = of_int n"
proof -
  let ?x = "of_int n :: rat"
  have x: "0 < ?x" using assms by simp
  have "?x < 2 ^ 53" using assms(2) by (metis of_int_less_numeral_power_cancel_iff)
  then have "2 powi (ilog2 ?x) < (2::rat) powi 53"
    using ilog2_bounds(1) [OF x] by (simp add: power_int_def)
  then have e: "ilog2 ?x < 53" using power_int_strict_mono power_int_increasing [of 53 "ilog2 ?x" "2::rat"]
    by (metis linorder_not_le one_le_numeral)
  define m where "m = nat (52 - ilog2 ?x)"
  have em: "ilog2 ?x - 52 = - int m" using e by (simp add: m_def)
  have u: "(2::rat) powi (ilog2 ?x - 52) = 1 / 2 ^ m"
    unfolding em by (simp only: power_int_minus power_int_of_nat inverse_eq_divide)
  have "?x / (1 / 2 ^ m) = of_int (n * 2 ^ m)" by simp
  then have "round_half_even (?x / (1 / 2 ^ m)) = n * 2 ^ m" by (simp only: round_half_even_int)
  then show ?thesis using x by (simp add: rnd64_def u)
qed

lemma rnd64_exact: "\<bar>n\<bar> < 2 ^ 53 \<Longrightarrow> rnd64 (of_int n) = of_int n"
proof (cases "n = 0")
  case False
  assume n: "\<bar>n\<bar> < 2 ^ 53"
  show ?thesis
  proof (cases "0 < n")
    case True
    then have a: "\<bar>n\<bar> = n" by simp
    from True n [unfolded a] show ?thesis by (rule rnd64_exact_pos)
  next
    case neg: False
    with False have m: "0 < - n" and a: "\<bar>n\<bar> = - n" by simp_all
    from m n [unfolded a] have "rnd64 (of_int (- n)) = of_int (- n)" by (rule rnd64_exact_pos)
    then show ?thesis by (simp only: of_int_minus rnd64_minus neg_equal_iff_equal)
  qed
qed simp

section \<open>The type\<close>

datatype float64 = F64 (val: rat)

definition f64 :: "rat \<Rightarrow> float64" where
  "f64 q = F64 (rnd64 q)"

instantiation float64 :: "{zero, plus, minus, uminus, times, abs, linorder}"
begin

definition "0 = F64 0"
definition "a + b = F64 (rnd64 (val a + val b))"
definition "a - b = F64 (rnd64 (val a - val b))"
definition "- a = F64 (- val a)"
definition "a * b = F64 (rnd64 (val a * val b))"
definition "\<bar>a\<bar> = F64 \<bar>val a\<bar>"
definition "a \<le> b \<longleftrightarrow> val a \<le> val b"
definition "a < b \<longleftrightarrow> val a < val b"

instance
  by standard (auto simp: less_eq_float64_def less_float64_def float64.expand)

end

definition fdiv :: "float64 \<Rightarrow> float64 \<Rightarrow> float64" where
  "fdiv a b = F64 (rnd64 (val a / val b))"

lemmas float_defs = zero_float64_def plus_float64_def minus_float64_def uminus_float64_def
  times_float64_def abs_float64_def less_eq_float64_def less_float64_def f64_def fdiv_def

lemma val_simps [simp]:
  "val 0 = 0" "val (a + b) = rnd64 (val a + val b)" "val (a - b) = rnd64 (val a - val b)"
  "val (- a) = - val a" "val \<bar>a\<bar> = \<bar>val a\<bar>" "val (f64 q) = rnd64 q"
  "val (a * b) = rnd64 (val a * val b)" "val (fdiv a b) = rnd64 (val a / val b)"
  by (simp_all add: float_defs)

lemma val_order [simp]: "val a \<le> val b \<longleftrightarrow> a \<le> b" "val a < val b \<longleftrightarrow> a < b"
  by (simp_all add: float_defs)

lemma le_val: "a \<le> b \<longleftrightarrow> val a \<le> val b"
  by simp

lemma less_val: "a < b \<longleftrightarrow> val a < val b"
  by simp

lemma float_eq_iff: "a = b \<longleftrightarrow> val a = val b"
  by (auto intro: float64.expand)

lemma float_add_commute: "a + b = b + (a :: float64)"
  by (simp add: float_defs add.commute)

lemma float_minus_minus [simp]: "- (- a) = (a :: float64)"
  by (simp add: float_defs)

lemma float_abs_nonneg [simp]: "0 \<le> \<bar>a :: float64\<bar>"
  by (simp add: float_defs)

lemma float_neg_pos: "a < 0 \<longleftrightarrow> 0 < - (a :: float64)"
  by (simp add: float_defs)

lemma float_add_nonneg: "0 \<le> a \<Longrightarrow> 0 \<le> b \<Longrightarrow> 0 \<le> a + (b :: float64)"
  by (simp add: float_defs rnd64_nonneg)

section \<open>Formatting with two decimals\<close>

text \<open>\<open>fmt.Sprintf("%.2f", v)\<close>: the exact value rounded to hundredths, ties to even, the
  sign kept even when the digits are all zero.\<close>

definition format_2dp :: "float64 \<Rightarrow> string" where
  "format_2dp v =
     (let n = nat (round_half_even (100 * \<bar>val v\<bar>))
      in (if val v < 0 then ''-'' else []) @ itoa_nat (n div 100) @ ''.'' @ pad 2 (itoa_nat (n mod 100)))"

end
