(* ===== verification/Ledger.thy ===== *)
theory Ledger
  imports FinanceDates Float64
begin

text \<open>
  The finance tables (\<open>ent/schema\<close>: Account, Transaction, PendingTransaction,
  BalanceSnapshot) and the ingest wire payload (\<open>internal/finance/payload.go\<close>).  A table is
  a list of rows in insertion order; a unique index is a key function that stays distinct.
  A nullable JSON field (\<open>NullString\<close>, \<open>NullFloat\<close>) is an option: absent and null are both
  \<open>None\<close>.
\<close>

section \<open>Tables\<close>

datatype acct_type = Everyday | Savings | CreditCard | StepPay | Investment
datatype acct_class = Asset | Liability
datatype drawdown = Unset | Flexible | NoDrawdown | EmergencyOnly

record account =
  acc_id :: nat
  acc_source :: string
  acc_name :: string
  acc_masked :: string
  acc_type :: acct_type
  acc_class :: acct_class
  acc_currency :: string
  acc_product :: string
  acc_guessed :: bool
  acc_description :: string
  acc_drawdown :: drawdown
  acc_created :: instant
  acc_updated :: instant
  acc_watermark :: "instant option"

record snapshot =
  snap_id :: nat
  snap_account :: nat
  snap_balance :: float64
  snap_available :: "float64 option"
  snap_limit :: "float64 option"
  snap_as_of :: instant

record txn =
  txn_id :: nat
  txn_account :: nat
  txn_hash :: string
  txn_date :: instant
  txn_amount :: float64
  txn_raw :: string
  txn_desc :: string
  txn_merchant :: string
  txn_after :: "float64 option"

record pending =
  pend_id :: nat
  pend_account :: nat
  pend_date :: instant
  pend_amount :: float64
  pend_raw :: string
  pend_desc :: string
  pend_merchant :: string

record fin_db =
  accounts :: "account list"
  snapshots :: "snapshot list"
  txns :: "txn list"
  pendings :: "pending list"

text \<open>The unique indexes of the schema: accounts on (source, name), readings on (account,
  as_of), posted rows on the dedup hash; every table on its id.\<close>

definition db_ok :: "fin_db \<Rightarrow> bool" where
  "db_ok db \<longleftrightarrow>
     distinct (map acc_id (accounts db)) \<and>
     distinct (map (\<lambda>a. (acc_source a, acc_name a)) (accounts db)) \<and>
     distinct (map snap_id (snapshots db)) \<and>
     distinct (map (\<lambda>s. (snap_account s, snap_as_of s)) (snapshots db)) \<and>
     distinct (map txn_id (txns db)) \<and>
     distinct (map txn_hash (txns db)) \<and>
     distinct (map pend_id (pendings db))"

definition empty_db :: fin_db where
  "empty_db = \<lparr>accounts = [], snapshots = [], txns = [], pendings = []\<rparr>"

section \<open>The wire payload\<close>

record wire_balance =
  wb_balance :: float64
  wb_available :: "float64 option"
  wb_limit :: "float64 option"
  wb_as_of :: string

record wire_account =
  wa_masked :: "string option"
  wa_name :: string
  wa_type :: string
  wa_class :: string
  wa_currency :: string
  wa_product :: "string option"
  wa_guessed :: bool
  wa_balance :: "wire_balance option"

record posted_row =
  pr_account :: string
  pr_date :: string
  pr_amount :: float64
  pr_raw :: string
  pr_desc :: string
  pr_merchant :: "string option"
  pr_after :: "float64 option"

record pending_row =
  qr_account :: string
  qr_date :: string
  qr_amount :: float64
  qr_raw :: string
  qr_desc :: string
  qr_merchant :: "string option"

record wire_window =
  ww_from :: string
  ww_to :: string
  ww_account :: "string option"

record payload =
  pl_source :: string
  pl_window :: "wire_window option"
  pl_accounts :: "wire_account list"
  pl_posted :: "posted_row list"
  pl_pending :: "pending_row list"
  pl_expected :: "int option"
  pl_dry_run :: bool

text \<open>\<open>NullString.String()\<close>: null reads as the empty string.\<close>

definition null_string :: "string option \<Rightarrow> string" where
  "null_string s = (case s of None \<Rightarrow> [] | Some v \<Rightarrow> v)"

text \<open>The enum validators Ent runs on every write.\<close>

definition parse_type :: "string \<Rightarrow> acct_type option" where
  "parse_type s =
     (if s = ''everyday'' then Some Everyday else if s = ''savings'' then Some Savings
      else if s = ''credit_card'' then Some CreditCard else if s = ''steppay'' then Some StepPay
      else if s = ''investment'' then Some Investment else None)"

definition parse_class :: "string \<Rightarrow> acct_class option" where
  "parse_class s =
     (if s = ''asset'' then Some Asset else if s = ''liability'' then Some Liability else None)"

end
