(* ===== verification/DedupHash.thy ===== *)
theory DedupHash
  imports FinanceDates Float64 Sha256
begin

text \<open>
  \<open>internal/finance/hash.go\<close>: the idempotency key of a posted transaction.  The digest is a
  parameter \<open>H\<close> of the key and of everything built on it; the backend's digest is
  \<open>sha256_hex\<close>, and the pinned contract vector of \<open>hash_test.go\<close> is evaluated with it.
\<close>

definition money2dp :: "float64 \<Rightarrow> string" where
  "money2dp v = (let s = format_2dp v in if s = ''-0.00'' then ''0.00'' else s)"

definition balanceField :: "float64 option \<Rightarrow> string" where
  "balanceField v = (case v of None \<Rightarrow> [] | Some b \<Rightarrow> money2dp b)"

definition collapseWhitespace :: "string \<Rightarrow> string" where
  "collapseWhitespace s = join '' '' (str_fields s)"

definition canonicalFields ::
  "string \<Rightarrow> string \<Rightarrow> float64 \<Rightarrow> string \<Rightarrow> float64 option \<Rightarrow> string" where
  "canonicalFields account postedDate amount description balanceAfter =
     join ''|'' [trim_space account, postedDate, money2dp amount,
                 collapseWhitespace description, balanceField balanceAfter]"

definition DedupHash ::
  "(string \<Rightarrow> string) \<Rightarrow> string \<Rightarrow> string \<Rightarrow> float64 \<Rightarrow> string \<Rightarrow> float64 option \<Rightarrow> nat \<Rightarrow> string" where
  "DedupHash H account postedDate amount description balanceAfter occurrence =
     H (canonicalFields account postedDate amount description balanceAfter @ ''|'' @ itoa (int occurrence))"

section \<open>Separator-free pieces\<close>

lemma itoa_nat_no_bar: "CHR ''|'' \<notin> set (itoa_nat n)"
  using itoa_nat_digits [of n] by (auto simp: is_digit_def)

lemma format_2dp_no_bar: "CHR ''|'' \<notin> set (format_2dp v)"
  using itoa_nat_no_bar by (auto simp: format_2dp_def Let_def pad_def)

lemma money2dp_no_bar: "CHR ''|'' \<notin> set (money2dp v)"
  using format_2dp_no_bar [of v] by (simp add: money2dp_def Let_def)

lemma balanceField_no_bar: "CHR ''|'' \<notin> set (balanceField b)"
  using money2dp_no_bar by (auto simp: balanceField_def split: option.splits)

text \<open>Two strings with one separator each, equal as a whole, agree on both sides when the
  separator occurs in neither left part, or in neither right part.\<close>

lemma sep_left:
  "c \<notin> set a \<Longrightarrow> c \<notin> set b \<Longrightarrow> a @ c # x = b @ c # y \<Longrightarrow> a = b \<and> x = y"
proof (induction a arbitrary: b)
  case Nil
  then show ?case by (cases b) auto
next
  case (Cons d a)
  then show ?case by (cases b) auto
qed

lemma sep_right:
  assumes "c \<notin> set x" "c \<notin> set y" "a @ c # x = b @ c # y"
  shows "a = b \<and> x = y"
proof -
  have "rev x @ c # rev a = rev y @ c # rev b"
    using arg_cong [OF assms(3), of rev] by simp
  then show ?thesis using sep_left [of c "rev x" "rev y" "rev a" "rev b"] assms(1,2) by simp
qed

lemma occurrence_inj:
  "k @ ''|'' @ itoa (int i) = k' @ ''|'' @ itoa (int j) \<Longrightarrow> k = k' \<and> i = j"
  using sep_right [of "CHR ''|''" "itoa (int i)" "itoa (int j)" k k'] itoa_nat_no_bar
  by (auto simp: itoa_def dest: itoa_nat_inj)

lemma canonicalFields_eq:
  "canonicalFields a d m s b =
     trim_space a @ CHR ''|'' # d @ CHR ''|'' # money2dp m @ CHR ''|'' # collapseWhitespace s
       @ CHR ''|'' # balanceField b"
  by (simp add: canonicalFields_def)

lemma canonicalFields_parts:
  assumes "canonicalFields a d m s b = canonicalFields a' d' m' s' b'"
    and "CHR ''|'' \<notin> set (trim_space a)" "CHR ''|'' \<notin> set (trim_space a')"
    and "CHR ''|'' \<notin> set d" "CHR ''|'' \<notin> set d'"
  shows "trim_space a = trim_space a' \<and> d = d' \<and> money2dp m = money2dp m' \<and>
    collapseWhitespace s = collapseWhitespace s' \<and> balanceField b = balanceField b'"
proof -
  note eq = assms(1) [unfolded canonicalFields_eq]
  from sep_left [OF assms(2,3) eq] have 1: "trim_space a = trim_space a'"
    and e1: "d @ CHR ''|'' # money2dp m @ CHR ''|'' # collapseWhitespace s @ CHR ''|'' # balanceField b =
      d' @ CHR ''|'' # money2dp m' @ CHR ''|'' # collapseWhitespace s' @ CHR ''|'' # balanceField b'"
    by auto
  from sep_left [OF assms(4,5) e1] have 2: "d = d'"
    and e2: "money2dp m @ CHR ''|'' # collapseWhitespace s @ CHR ''|'' # balanceField b =
      money2dp m' @ CHR ''|'' # collapseWhitespace s' @ CHR ''|'' # balanceField b'"
    by auto
  from sep_left [OF money2dp_no_bar money2dp_no_bar e2] have 3: "money2dp m = money2dp m'"
    and e3: "collapseWhitespace s @ CHR ''|'' # balanceField b =
      collapseWhitespace s' @ CHR ''|'' # balanceField b'"
    by auto
  from sep_right [OF balanceField_no_bar balanceField_no_bar e3] 1 2 3 show ?thesis by simp
qed

lemma money2dp_nonempty: "money2dp v \<noteq> []"
  by (auto simp: money2dp_def format_2dp_def Let_def)

lemma balanceField_None_iff: "balanceField b = [] \<longleftrightarrow> b = None"
  by (auto simp: balanceField_def money2dp_nonempty split: option.splits)

lemma collapseWhitespace_words: "collapseWhitespace s = collapseWhitespace s' \<Longrightarrow> str_fields s = str_fields s'"
  unfolding collapseWhitespace_def using str_fields_join str_fields_words by metis

section \<open>Properties\<close>

lemma vector_fields:
  "money2dp (f64 (- 4210 / 100)) = ''-42.10''" "money2dp (f64 (195790 / 100)) = ''1957.90''"
proof -
  have a: "round_half_even (100 * \<bar>val (f64 (- 4210 / 100))\<bar>) = 4210" "val (f64 (- 4210 / 100)) < 0"
    by code_simp+
  have b: "round_half_even (100 * \<bar>val (f64 (195790 / 100))\<bar>) = 195790" "\<not> val (f64 (195790 / 100)) < 0"
    by code_simp+
  have d: "itoa_nat 42 = ''42''" "itoa_nat 10 = ''10''" "itoa_nat 1957 = ''1957''" "itoa_nat 90 = ''90''"
    by (simp_all add: itoa_nat.simps digit_char_def char_of_def bit_Suc_0_iff)
  have "money2dp v = ''-42.10''" if "round_half_even (100 * \<bar>val v\<bar>) = 4210" "val v < 0" for v
    using that d by (simp add: money2dp_def format_2dp_def pad_def)
  from this [OF a] show "money2dp (f64 (- 4210 / 100)) = ''-42.10''" .
  have "money2dp v = ''1957.90''" if "round_half_even (100 * \<bar>val v\<bar>) = 195790" "\<not> val v < 0" for v
    using that d by (simp add: money2dp_def format_2dp_def pad_def)
  from this [OF b] show "money2dp (f64 (195790 / 100)) = ''1957.90''" .
qed

text \<open>the dedup key identifies the row.  If the digest does not collide on the two keys and
  neither account nor date contains the separator, equal hashes mean the same account, date,
  amount to the cent, white-space-collapsed description, running balance (absent, or equal to the
  cent) and occurrence ordinal.\<close>

theorem dedup_hash_injective:
  assumes "inj_on H {canonicalFields a d m s b @ ''|'' @ itoa (int i),
                     canonicalFields a' d' m' s' b' @ ''|'' @ itoa (int j)}"
    and "CHR ''|'' \<notin> set (trim_space a)" "CHR ''|'' \<notin> set (trim_space a')"
    and "CHR ''|'' \<notin> set d" "CHR ''|'' \<notin> set d'"
    and "DedupHash H a d m s b i = DedupHash H a' d' m' s' b' j"
  shows "i = j \<and> trim_space a = trim_space a' \<and> d = d' \<and> money2dp m = money2dp m' \<and>
    str_fields s = str_fields s' \<and> (b = None \<longleftrightarrow> b' = None) \<and> balanceField b = balanceField b'"
proof -
  have "canonicalFields a d m s b @ ''|'' @ itoa (int i) = canonicalFields a' d' m' s' b' @ ''|'' @ itoa (int j)"
    using assms(6) unfolding DedupHash_def by (rule inj_onD [OF assms(1)]) simp_all
  from occurrence_inj [OF this] have i: "i = j"
    and c: "canonicalFields a d m s b = canonicalFields a' d' m' s' b'" by auto
  note parts = canonicalFields_parts [OF c assms(2-5)]
  then have "str_fields s = str_fields s'" by (auto intro: collapseWhitespace_words)
  with i parts show ?thesis by (metis balanceField_None_iff)
qed

theorem dedup_hash_injective_witness:
  "DedupHash (\<lambda>k. k) ''acc1'' ''2025-07-10'' (f64 5) ''A  B'' None 0 =
     DedupHash (\<lambda>k. k) '' acc1'' ''2025-07-10'' (f64 5) ''A B'' None 0 \<and>
   str_fields ''A  B'' = str_fields ''A B''"
proof -
  have e: "DedupHash (\<lambda>k. k) ''acc1'' ''2025-07-10'' (f64 5) ''A  B'' None 0 =
      DedupHash (\<lambda>k. k) '' acc1'' ''2025-07-10'' (f64 5) ''A B'' None 0"
    by code_simp
  have "CHR ''|'' \<notin> set (trim_space ''acc1'')" "CHR ''|'' \<notin> set (trim_space '' acc1'')"
    "CHR ''|'' \<notin> set ''2025-07-10''" by code_simp+
  from dedup_hash_injective [OF inj_on_id2 this(1,2,3,3) e] e show ?thesis by blast
qed

text \<open>The pinned contract vector of \<open>hash_test.go\<close>: with SHA-256 for the digest, the key of
  the fixture row is the hash the broker computes.\<close>

theorem dedup_hash_vector:
  "DedupHash sha256_hex ''acc1'' ''2025-07-10'' (f64 (- 4210 / 100)) ''SUPERMARKET''
     (Some (f64 (195790 / 100))) 0 =
   ''8771d9ed1e48fd125f056c81c89230625a2e63ad737248067ac1adf4667fc987''"
proof -
  have "canonicalFields ''acc1'' ''2025-07-10'' (f64 (- 4210 / 100)) ''SUPERMARKET''
     (Some (f64 (195790 / 100))) @ ''|'' @ itoa (int 0) =
   ''acc1|2025-07-10|-42.10|SUPERMARKET|1957.90|0''"
    unfolding canonicalFields_def balanceField_def option.case vector_fields by code_simp
  moreover have "sha256_hex ''acc1|2025-07-10|-42.10|SUPERMARKET|1957.90|0'' =
      ''8771d9ed1e48fd125f056c81c89230625a2e63ad737248067ac1adf4667fc987''"
    by code_simp
  ultimately show ?thesis unfolding DedupHash_def by (simp only:)
qed

end
