(* ===== verification/Ingest.thy ===== *)
theory Ingest
  imports Ledger DedupHash "HOL-Library.AList" "HOL-Library.Option_ord"
begin

text \<open>
  \<open>internal/finance/ingest.go\<close>: one scraped window landed into the ledger inside a single
  transaction.  \<open>Ingest H now db p\<close> returns the committed database, or the error and no
  database at all: every error path of the code rolls the transaction back, so the caller
  keeps \<open>db\<close> (\<open>ingest_db\<close>).  \<open>now\<close> is the clock, \<open>H\<close> the digest.

  Failures of the database itself (a lost connection, a failed commit) are not modelled: they
  roll back like every other error.  Row ids are the smallest above those in the table.
\<close>

section \<open>Results\<close>

record summary =
  sum_accounts :: nat
  sum_snapshots :: nat
  sum_inserted :: nat
  sum_skipped :: nat
  sum_pending_accounts :: nat
  sum_pending_rows :: nat
  sum_dry_run :: bool
  sum_received :: nat
  sum_expected :: "int option"
  sum_reconciled :: bool
  sum_expected_mismatch :: bool
  sum_collisions :: "nat list"

datatype ingest_error =
    InvalidAccount string
  | InvalidAsOf string
  | InvalidPostedDate string
  | InvalidPendingDate string
  | InvalidWindowTo
  | Unreconciled summary

type_synonym by_name = "(string \<times> account) list"

section \<open>Accounts\<close>

definition find_account :: "string \<Rightarrow> string \<Rightarrow> account list \<Rightarrow> account option" where
  "find_account source name accs =
     find (\<lambda>a. acc_source a = source \<and> acc_name a = name) accs"

definition upsertAccount ::
  "instant \<Rightarrow> string \<Rightarrow> wire_account \<Rightarrow> account list \<Rightarrow> ingest_error + (account list \<times> account)" where
  "upsertAccount now source a accs =
     (case (parse_type (wa_type a), parse_class (wa_class a)) of
        (Some ty, Some cl) \<Rightarrow>
          if source = [] \<or> wa_name a = [] then Inl (InvalidAccount (wa_name a))
          else
            let currency = (if wa_currency a = [] then ''AUD'' else wa_currency a);
                accs' =
                  (case find_account source (wa_name a) accs of
                     None \<Rightarrow> accs @ [\<lparr>acc_id = fresh_id (map acc_id accs), acc_source = source,
                       acc_name = wa_name a, acc_masked = null_string (wa_masked a), acc_type = ty,
                       acc_class = cl, acc_currency = currency,
                       acc_product = null_string (wa_product a), acc_guessed = wa_guessed a,
                       acc_description = [], acc_drawdown = Unset, acc_created = now,
                       acc_updated = now, acc_watermark = None\<rparr>]
                   | Some _ \<Rightarrow>
                       update_where (\<lambda>r. acc_source r = source \<and> acc_name r = wa_name a)
                         (\<lambda>r. r\<lparr>acc_masked := null_string (wa_masked a), acc_type := ty,
                           acc_class := cl, acc_currency := currency,
                           acc_product := null_string (wa_product a),
                           acc_guessed := wa_guessed a, acc_updated := now\<rparr>) accs)
            in (case find_account source (wa_name a) accs' of
                  None \<Rightarrow> Inl (InvalidAccount (wa_name a))
                | Some r \<Rightarrow> Inr (accs', r))
      | _ \<Rightarrow> Inl (InvalidAccount (wa_name a)))"

definition placeholderAccount ::
  "instant \<Rightarrow> string \<Rightarrow> string \<Rightarrow> account list \<Rightarrow> ingest_error + (account list \<times> account)" where
  "placeholderAccount now source name accs =
     (if source = [] \<or> name = [] then Inl (InvalidAccount name)
      else
        let accs' =
          (case find_account source name accs of
             Some _ \<Rightarrow> accs
           | None \<Rightarrow> accs @ [\<lparr>acc_id = fresh_id (map acc_id accs), acc_source = source,
               acc_name = name, acc_masked = [], acc_type = Everyday, acc_class = Asset,
               acc_currency = ''AUD'', acc_product = [], acc_guessed = True,
               acc_description = [], acc_drawdown = Unset, acc_created = now, acc_updated = now,
               acc_watermark = None\<rparr>])
        in (case find_account source name accs' of
              None \<Rightarrow> Inl (InvalidAccount name)
            | Some r \<Rightarrow> Inr (accs', r)))"

text \<open>Step 1: the declared accounts, each entered into the run's name map.\<close>

fun upsert_all ::
  "instant \<Rightarrow> string \<Rightarrow> wire_account list \<Rightarrow> account list \<times> by_name
    \<Rightarrow> ingest_error + (account list \<times> by_name)" where
  "upsert_all now source [] s = Inr s"
| "upsert_all now source (a # as) (accs, by) =
     (case upsertAccount now source a accs of
        Inl e \<Rightarrow> Inl e
      | Inr (accs', r) \<Rightarrow> upsert_all now source as (accs', AList.update (wa_name a) r by))"

definition resolve ::
  "instant \<Rightarrow> string \<Rightarrow> string \<Rightarrow> account list \<times> by_name
    \<Rightarrow> ingest_error + (account list \<times> by_name \<times> account)" where
  "resolve now source name s =
     (case s of (accs, by) \<Rightarrow>
       (case map_of by name of
          Some r \<Rightarrow> Inr (accs, by, r)
        | None \<Rightarrow>
            (case placeholderAccount now source name accs of
               Inl e \<Rightarrow> Inl e
             | Inr (accs', r) \<Rightarrow> Inr (accs', AList.update name r by, r))))"

section \<open>Balance readings\<close>

definition insert_snapshot :: "snapshot \<Rightarrow> snapshot list \<Rightarrow> snapshot list \<times> bool" where
  "insert_snapshot s ss =
     (if (snap_account s, snap_as_of s) \<in> set (map (\<lambda>r. (snap_account r, snap_as_of r)) ss)
      then (ss, False)
      else (ss @ [s\<lparr>snap_id := fresh_id (map snap_id ss)\<rparr>], True))"

text \<open>Step 2: one reading per declared account that carries a balance.\<close>

fun snapshot_rows :: "by_name \<Rightarrow> wire_account list \<Rightarrow> ingest_error + snapshot list" where
  "snapshot_rows by [] = Inr []"
| "snapshot_rows by (a # as) =
     (case wa_balance a of
        None \<Rightarrow> snapshot_rows by as
      | Some b \<Rightarrow>
          (case (parseDateTime (wb_as_of b), map_of by (wa_name a)) of
             (Some t, Some r) \<Rightarrow>
               (case snapshot_rows by as of
                  Inl e \<Rightarrow> Inl e
                | Inr rs \<Rightarrow> Inr (\<lparr>snap_id = 0, snap_account = acc_id r, snap_balance = wb_balance b,
                    snap_available = wb_available b, snap_limit = wb_limit b,
                    snap_as_of = t\<rparr> # rs))
           | _ \<Rightarrow> Inl (InvalidAsOf (wa_name a))))"

section \<open>Posted rows\<close>

definition insert_txn :: "txn \<Rightarrow> txn list \<Rightarrow> txn list \<times> bool" where
  "insert_txn t ts =
     (if txn_hash t \<in> set (map txn_hash ts) then (ts, False)
      else (ts @ [t\<lparr>txn_id := fresh_id (map txn_id ts)\<rparr>], True))"

definition row_key :: "posted_row \<Rightarrow> string" where
  "row_key row =
     canonicalFields (pr_account row) (pr_date row) (pr_amount row) (pr_desc row) (pr_after row)"

definition row_hash :: "(string \<Rightarrow> string) \<Rightarrow> posted_row \<Rightarrow> nat \<Rightarrow> string" where
  "row_hash H row occ =
     DedupHash H (pr_account row) (pr_date row) (pr_amount row) (pr_desc row) (pr_after row) occ"

record posted_state =
  ps_accounts :: "account list"
  ps_by :: by_name
  ps_txns :: "txn list"
  ps_occ :: "string \<Rightarrow> nat"
  ps_seen :: "string list"
  ps_collisions :: "nat list"
  ps_inserted :: nat
  ps_skipped :: nat

definition posted_step ::
  "(string \<Rightarrow> string) \<Rightarrow> instant \<Rightarrow> string \<Rightarrow> nat \<Rightarrow> posted_row \<Rightarrow> posted_state
    \<Rightarrow> ingest_error + posted_state" where
  "posted_step H now source i row st =
     (case resolve now source (pr_account row) (ps_accounts st, ps_by st) of
        Inl e \<Rightarrow> Inl e
      | Inr (accs, by, acc) \<Rightarrow>
          (case parseDate (pr_date row) of
             None \<Rightarrow> Inl (InvalidPostedDate (pr_account row))
           | Some d \<Rightarrow>
               let key = row_key row;
                   occ = ps_occ st key;
                   hash = row_hash H row occ;
                   coll = (if hash \<in> set (ps_seen st) then ps_collisions st @ [i] else ps_collisions st)
               in (case insert_txn
                     \<lparr>txn_id = 0, txn_account = acc_id acc, txn_hash = hash, txn_date = d,
                      txn_amount = pr_amount row, txn_raw = pr_raw row, txn_desc = pr_desc row,
                      txn_merchant = null_string (pr_merchant row), txn_after = pr_after row\<rparr>
                     (ps_txns st) of
                     (ts, fresh) \<Rightarrow>
                       Inr (st\<lparr>ps_accounts := accs, ps_by := by, ps_txns := ts,
                         ps_occ := (ps_occ st)(key := Suc occ), ps_seen := hash # ps_seen st,
                         ps_collisions := coll,
                         ps_inserted := (if fresh then Suc (ps_inserted st) else ps_inserted st),
                         ps_skipped := (if fresh then ps_skipped st else Suc (ps_skipped st))\<rparr>))))"

text \<open>Step 3.\<close>

fun posted_loop ::
  "(string \<Rightarrow> string) \<Rightarrow> instant \<Rightarrow> string \<Rightarrow> nat \<Rightarrow> posted_row list \<Rightarrow> posted_state
    \<Rightarrow> ingest_error + posted_state" where
  "posted_loop H now source i [] st = Inr st"
| "posted_loop H now source i (r # rs) st =
     (case posted_step H now source i r st of
        Inl e \<Rightarrow> Inl e
      | Inr st' \<Rightarrow> posted_loop H now source (Suc i) rs st')"

section \<open>The pending replace-set\<close>

definition pending_order :: "pending_row list \<Rightarrow> string list" where
  "pending_order rows = rev (remdups (rev (map qr_account rows)))"

definition insert_pending :: "pending \<Rightarrow> pending list \<Rightarrow> pending list" where
  "insert_pending r rs = rs @ [r\<lparr>pend_id := fresh_id (map pend_id rs)\<rparr>]"

fun insert_pendings ::
  "string \<Rightarrow> nat \<Rightarrow> pending_row list \<Rightarrow> pending list \<Rightarrow> ingest_error + pending list" where
  "insert_pendings name aid [] ps = Inr ps"
| "insert_pendings name aid (r # rs) ps =
     (case parseDate (qr_date r) of
        None \<Rightarrow> Inl (InvalidPendingDate name)
      | Some d \<Rightarrow> insert_pendings name aid rs
          (insert_pending \<lparr>pend_id = 0, pend_account = aid, pend_date = d,
             pend_amount = qr_amount r, pend_raw = qr_raw r, pend_desc = qr_desc r,
             pend_merchant = null_string (qr_merchant r)\<rparr> ps))"

text \<open>Step 4: each named account's pending rows are dropped and the payload's inserted.\<close>

fun pending_loop ::
  "instant \<Rightarrow> string \<Rightarrow> pending_row list \<Rightarrow> string list \<Rightarrow> account list \<times> by_name \<times> pending list
    \<Rightarrow> ingest_error + (account list \<times> by_name \<times> pending list)" where
  "pending_loop now source rows [] s = Inr s"
| "pending_loop now source rows (name # names) (accs, by, ps) =
     (case resolve now source name (accs, by) of
        Inl e \<Rightarrow> Inl e
      | Inr (accs', by', acc) \<Rightarrow>
          (case insert_pendings name (acc_id acc) (filter (\<lambda>r. qr_account r = name) rows)
                  (filter (\<lambda>p. pend_account p \<noteq> acc_id acc) ps) of
             Inl e \<Rightarrow> Inl e
           | Inr ps' \<Rightarrow> pending_loop now source rows names (accs', by', ps')))"

section \<open>Watermarks\<close>

text \<open>Step 6 for one target: the watermark only moves forward.  The comparison reads the row
  as it was loaded earlier in the run.\<close>

definition advance_watermark :: "instant \<Rightarrow> account \<Rightarrow> account list \<Rightarrow> account list" where
  "advance_watermark to acc accs =
     (if (case acc_watermark acc of None \<Rightarrow> True | Some w \<Rightarrow> w < to)
      then update_where (\<lambda>r. acc_id r = acc_id acc)
             (\<lambda>r. r\<lparr>acc_watermark := Some to\<rparr>) accs
      else accs)"

definition watermark_targets :: "payload \<Rightarrow> by_name \<Rightarrow> account list" where
  "watermark_targets p by =
     map snd (filter (\<lambda>(name, _). name \<in> set (map wa_name (pl_accounts p)) \<or>
                                  name \<in> set (map pr_account (pl_posted p))) by)"

definition watermark_step ::
  "instant \<Rightarrow> string \<Rightarrow> payload \<Rightarrow> account list \<times> by_name \<Rightarrow> ingest_error + account list" where
  "watermark_step now source p s =
     (case pl_window p of
        None \<Rightarrow> Inr (fst s)
      | Some w \<Rightarrow>
          if trim_space (ww_to w) = [] then Inr (fst s)
          else
            (case parseDate (ww_to w) of
               None \<Rightarrow> Inl InvalidWindowTo
             | Some to0 \<Rightarrow>
                 let to = min to0 (normalizeDate now);
                     name = null_string (ww_account w)
                 in if name \<noteq> []
                    then (case resolve now source name s of
                            Inl e \<Rightarrow> Inl e
                          | Inr (accs, by, acc) \<Rightarrow> Inr (advance_watermark to acc accs))
                    else Inr (fold (advance_watermark to) (watermark_targets p (snd s)) (fst s))))"

section \<open>The whole run\<close>

definition Ingest ::
  "(string \<Rightarrow> string) \<Rightarrow> instant \<Rightarrow> fin_db \<Rightarrow> payload \<Rightarrow> ingest_error + (fin_db \<times> summary)" where
  "Ingest H now db p =
     (let source = trim_space (pl_source p) in
      case upsert_all now source (pl_accounts p) (accounts db, []) of
        Inl e \<Rightarrow> Inl e
      | Inr (accs1, by1) \<Rightarrow>
      (case snapshot_rows by1 (pl_accounts p) of
         Inl e \<Rightarrow> Inl e
       | Inr rows \<Rightarrow>
      (case ins_all insert_snapshot rows (snapshots db) of (snaps, nsnap) \<Rightarrow>
      (case posted_loop H now source 0 (pl_posted p)
              \<lparr>ps_accounts = accs1, ps_by = by1, ps_txns = txns db, ps_occ = (\<lambda>_. 0),
               ps_seen = [], ps_collisions = [], ps_inserted = 0, ps_skipped = 0\<rparr> of
         Inl e \<Rightarrow> Inl e
       | Inr st \<Rightarrow>
      (case pending_loop now source (pl_pending p) (pending_order (pl_pending p))
              (ps_accounts st, ps_by st, pendings db) of
         Inl e \<Rightarrow> Inl e
       | Inr (accs2, by2, pend) \<Rightarrow>
      (let received = length (pl_posted p);
           mismatch = (case pl_expected p of None \<Rightarrow> False | Some e \<Rightarrow> e \<noteq> int received);
           reconciled = (\<not> mismatch \<and> ps_collisions st = []);
           sum = \<lparr>sum_accounts = length (pl_accounts p), sum_snapshots = nsnap,
             sum_inserted = ps_inserted st, sum_skipped = ps_skipped st,
             sum_pending_accounts = length (pending_order (pl_pending p)),
             sum_pending_rows = length (pl_pending p), sum_dry_run = pl_dry_run p,
             sum_received = received, sum_expected = pl_expected p, sum_reconciled = reconciled,
             sum_expected_mismatch = mismatch, sum_collisions = ps_collisions st\<rparr>
       in if pl_dry_run p then Inr (db, sum)
          else if \<not> reconciled then Inl (Unreconciled sum)
          else (case watermark_step now source p (accs2, by2) of
                  Inl e \<Rightarrow> Inl e
                | Inr accs3 \<Rightarrow>
                    Inr (\<lparr>accounts = accs3, snapshots = snaps, txns = ps_txns st,
                          pendings = pend\<rparr>, sum))))))))"

text \<open>The database after a run: an error leaves it as it was.\<close>

definition ingest_db :: "(string \<Rightarrow> string) \<Rightarrow> instant \<Rightarrow> fin_db \<Rightarrow> payload \<Rightarrow> fin_db" where
  "ingest_db H now db p = (case Ingest H now db p of Inl _ \<Rightarrow> db | Inr (db', _) \<Rightarrow> db')"

section \<open>How the account table evolves\<close>

text \<open>Steps 1 to 4 keep a stored account's identity, the columns the owner writes and its
  watermark.  The table keeps its rows in place and appends.\<close>

definition row_kept :: "account \<Rightarrow> account \<Rightarrow> bool" where
  "row_kept r r' \<longleftrightarrow>
     acc_id r' = acc_id r \<and> acc_source r' = acc_source r \<and> acc_name r' = acc_name r \<and>
     acc_description r' = acc_description r \<and> acc_drawdown r' = acc_drawdown r \<and>
     acc_created r' = acc_created r \<and> acc_watermark r' = acc_watermark r"

definition kept :: "account list \<Rightarrow> account list \<Rightarrow> bool" where
  "kept rs rs' \<longleftrightarrow> length rs \<le> length rs' \<and> (\<forall>i < length rs. row_kept (rs ! i) (rs' ! i))"

definition accs_ok :: "account list \<Rightarrow> bool" where
  "accs_ok accs \<longleftrightarrow> distinct (map acc_id accs) \<and> distinct (map (\<lambda>a. (acc_source a, acc_name a)) accs)"

definition by_ok :: "string \<Rightarrow> account list \<Rightarrow> by_name \<Rightarrow> bool" where
  "by_ok source accs by \<longleftrightarrow> distinct (map fst by) \<and>
     (\<forall>n a. map_of by n = Some a \<longrightarrow>
        a \<in> set accs \<and> acc_source a = source \<and> acc_name a = n \<and> source \<noteq> [] \<and> n \<noteq> [])"

lemma row_kept_refl [simp]: "row_kept r r"
  by (simp add: row_kept_def)

lemma row_kept_trans: "row_kept a b \<Longrightarrow> row_kept b c \<Longrightarrow> row_kept a c"
  by (auto simp: row_kept_def)

lemma kept_refl [simp]: "kept rs rs"
  by (simp add: kept_def)

lemma kept_trans: "kept a b \<Longrightarrow> kept b c \<Longrightarrow> kept a c"
  by (auto simp: kept_def intro: row_kept_trans)

lemma kept_append: "kept rs (rs @ xs)"
  by (simp add: kept_def nth_append)

lemma kept_update: "(\<And>r. r \<in> set rs \<Longrightarrow> q r \<Longrightarrow> row_kept r (f r)) \<Longrightarrow> kept rs (update_where q f rs)"
  by (auto simp: kept_def update_where_def)

lemma kept_row: "kept rs rs' \<Longrightarrow> r \<in> set rs \<Longrightarrow> \<exists>r' \<in> set rs'. row_kept r r'"
  by (metis in_set_conv_nth kept_def order.strict_trans2)

lemma find_first:
  "find P xs = Some x \<longleftrightarrow> (\<exists>i < length xs. P (xs ! i) \<and> xs ! i = x \<and> (\<forall>j < i. \<not> P (xs ! j)))"
  by (auto simp: find_Some_iff)

lemma find_account_kept:
  assumes "kept accs accs'" "find_account source n accs = Some r"
  shows "\<exists>r'. find_account source n accs' = Some r' \<and> row_kept r r'"
proof -
  from assms(2) obtain i where i: "i < length accs" "acc_source r = source" "acc_name r = n"
      "accs ! i = r" "\<forall>j < i. \<not> (acc_source (accs ! j) = source \<and> acc_name (accs ! j) = n)"
    by (auto simp: find_account_def find_first)
  have k: "row_kept (accs ! j) (accs' ! j)" if "j \<le> i" for j
    using assms(1) i(1) that by (auto simp: kept_def)
  have "find_account source n accs' = Some (accs' ! i)"
    unfolding find_account_def find_first
  proof (intro exI [of _ i] conjI allI impI)
    show "i < length accs'" using assms(1) i(1) by (auto simp: kept_def)
    show "acc_source (accs' ! i) = source" "acc_name (accs' ! i) = n"
      using k [of i] i by (auto simp: row_kept_def)
    show "\<not> (acc_source (accs' ! j) = source \<and> acc_name (accs' ! j) = n)" if "j < i" for j
      using k [of j] i that by (auto simp: row_kept_def)
  qed simp
  with k [of i] i show ?thesis by auto
qed

lemma find_account_in:
  "find_account source n accs = Some r \<Longrightarrow> r \<in> set accs \<and> acc_source r = source \<and> acc_name r = n"
  by (auto simp: find_account_def dest: find_SomeD)

lemma find_account_unique:
  assumes "accs_ok accs" "r \<in> set accs"
  shows "find_account (acc_source r) (acc_name r) accs = Some r"
  using distinct_find [of "\<lambda>a. (acc_source a, acc_name a)" accs r] assms
  by (simp add: accs_ok_def find_account_def)

lemma find_account_append:
  "find_account source n (xs @ [a]) =
     (case find_account source n xs of
        Some r \<Rightarrow> Some r
      | None \<Rightarrow> if acc_source a = source \<and> acc_name a = n then Some a else None)"
  by (induction xs) (auto simp: find_account_def)

lemma find_account_None:
  "find_account source n accs = None \<longleftrightarrow> (source, n) \<notin> (\<lambda>a. (acc_source a, acc_name a)) ` set accs"
  by (auto simp: find_account_def find_None_iff')

lemma accs_ok_append:
  assumes "accs_ok accs" "find_account (acc_source a) (acc_name a) accs = None"
    and "acc_id a = fresh_id (map acc_id accs)"
  shows "accs_ok (accs @ [a])"
  using assms fresh_id_new [of "map acc_id accs"] by (auto simp: accs_ok_def find_account_None simp del: fresh_id_new)

lemma accs_ok_update:
  assumes "accs_ok accs"
    and "\<And>r. acc_id (f r) = acc_id r \<and> acc_source (f r) = acc_source r \<and> acc_name (f r) = acc_name r"
  shows "accs_ok (update_where q f accs)"
  using assms by (simp add: accs_ok_def map_update_where)

section \<open>Resolving accounts\<close>

text \<open>\<open>wire_ok\<close>: what the row validators accept of a declared account.\<close>

definition wire_ok :: "string \<Rightarrow> wire_account \<Rightarrow> bool" where
  "wire_ok source a \<longleftrightarrow>
     source \<noteq> [] \<and> wa_name a \<noteq> [] \<and> parse_type (wa_type a) \<noteq> None \<and> parse_class (wa_class a) \<noteq> None"

definition set_wire :: "instant \<Rightarrow> wire_account \<Rightarrow> account \<Rightarrow> account" where
  "set_wire now a r =
     r\<lparr>acc_masked := null_string (wa_masked a), acc_type := the (parse_type (wa_type a)),
       acc_class := the (parse_class (wa_class a)),
       acc_currency := (if wa_currency a = [] then ''AUD'' else wa_currency a),
       acc_product := null_string (wa_product a), acc_guessed := wa_guessed a, acc_updated := now\<rparr>"

definition new_account :: "nat \<Rightarrow> string \<Rightarrow> string \<Rightarrow> instant \<Rightarrow> account" where
  "new_account i source name now =
     \<lparr>acc_id = i, acc_source = source, acc_name = name, acc_masked = [], acc_type = Everyday,
      acc_class = Asset, acc_currency = ''AUD'', acc_product = [], acc_guessed = True,
      acc_description = [], acc_drawdown = Unset, acc_created = now, acc_updated = now,
      acc_watermark = None\<rparr>"

lemma set_wire_simps [simp]:
  "acc_id (set_wire now a r) = acc_id r" "acc_source (set_wire now a r) = acc_source r"
  "acc_name (set_wire now a r) = acc_name r" "row_kept r (set_wire now a r)"
  by (simp_all add: set_wire_def row_kept_def)

lemma new_account_simps [simp]:
  "acc_id (new_account i s n now) = i" "acc_source (new_account i s n now) = s"
  "acc_name (new_account i s n now) = n"
  by (simp_all add: new_account_def)

lemma upsertAccount_eq:
  "upsertAccount now source a accs =
     (if wire_ok source a then
        (case find_account source (wa_name a) accs of
           None \<Rightarrow> let r = set_wire now a (new_account (fresh_id (map acc_id accs)) source (wa_name a) now)
                   in Inr (accs @ [r], r)
         | Some r \<Rightarrow> Inr (update_where (\<lambda>r. acc_source r = source \<and> acc_name r = wa_name a)
                           (set_wire now a) accs, set_wire now a r))
      else Inl (InvalidAccount (wa_name a)))"
proof (cases "wire_ok source a")
  case False
  then show ?thesis by (auto simp: upsertAccount_def wire_ok_def Let_def split: option.splits)
next
  case True
  then obtain ty cl where p: "parse_type (wa_type a) = Some ty" "parse_class (wa_class a) = Some cl"
    by (auto simp: wire_ok_def)
  define cur where "cur = (if wa_currency a = [] then ''AUD'' else wa_currency a)"
  have sw: "(\<lambda>r. r\<lparr>acc_masked := null_string (wa_masked a), acc_type := ty, acc_class := cl,
      acc_currency := cur, acc_product := null_string (wa_product a),
      acc_guessed := wa_guessed a, acc_updated := now\<rparr>) = set_wire now a"
    by (simp add: fun_eq_iff set_wire_def p cur_def)
  have new: "\<lparr>acc_id = i, acc_source = source, acc_name = wa_name a,
      acc_masked = null_string (wa_masked a), acc_type = ty, acc_class = cl, acc_currency = cur,
      acc_product = null_string (wa_product a), acc_guessed = wa_guessed a, acc_description = [],
      acc_drawdown = Unset, acc_created = now, acc_updated = now, acc_watermark = None\<rparr> =
      set_wire now a (new_account i source (wa_name a) now)" for i
    by (simp add: set_wire_def new_account_def p cur_def)
  have upd: "find_account source n (update_where (\<lambda>r. acc_source r = source \<and> acc_name r = n)
      (set_wire now a) accs) = map_option (set_wire now a) (find_account source n accs)" for n
    by (induction accs) (auto simp: find_account_def update_where_def)
  show ?thesis
    using True
    unfolding upsertAccount_def p option.case prod.case Let_def cur_def [symmetric]
    unfolding sw new
    by (auto simp: wire_ok_def upd find_account_append split: option.splits)
qed

lemma placeholderAccount_eq:
  "placeholderAccount now source name accs =
     (if source = [] \<or> name = [] then Inl (InvalidAccount name)
      else case find_account source name accs of
             Some r \<Rightarrow> Inr (accs, r)
           | None \<Rightarrow> let r = new_account (fresh_id (map acc_id accs)) source name now
                     in Inr (accs @ [r], r))"
  by (auto simp: placeholderAccount_def Let_def new_account_def find_account_append split: option.splits)

text \<open>What one step of account resolution guarantees, whichever operation performs it.\<close>

definition resolves ::
  "string \<Rightarrow> string \<Rightarrow> account list \<Rightarrow> account list \<Rightarrow> account \<Rightarrow> bool" where
  "resolves source name accs accs' r \<longleftrightarrow>
     kept accs accs' \<and> accs_ok accs' \<and> find_account source name accs' = Some r \<and>
     (\<forall>x \<in> set accs. (acc_source x, acc_name x) \<noteq> (source, name) \<longrightarrow> x \<in> set accs')"

lemma upsertAccount_resolves:
  assumes "accs_ok accs" "upsertAccount now source a accs = Inr (accs', r)"
  shows "resolves source (wa_name a) accs accs' r"
proof (cases "find_account source (wa_name a) accs")
  case None
  with assms show ?thesis
    by (auto simp: upsertAccount_eq Let_def resolves_def kept_append find_account_append
        intro!: accs_ok_append split: if_splits)
next
  case (Some x)
  let ?u = "update_where (\<lambda>r. acc_source r = source \<and> acc_name r = wa_name a) (set_wire now a) accs"
  from Some assms have e: "accs' = ?u" "r = set_wire now a x"
    by (auto simp: upsertAccount_eq split: if_splits)
  have ok: "accs_ok ?u" by (rule accs_ok_update [OF assms(1)]) simp
  have x: "x \<in> set accs" "acc_source x = source" "acc_name x = wa_name a"
    using find_account_in [OF Some] by auto
  then have "set_wire now a x \<in> set ?u" by (force simp: in_update_where)
  from find_account_unique [OF ok this] x
  have "find_account source (wa_name a) ?u = Some (set_wire now a x)" by simp
  with ok e show ?thesis
    by (auto simp: resolves_def in_update_where intro!: kept_update)
qed

lemma placeholderAccount_resolves:
  assumes "accs_ok accs" "placeholderAccount now source name accs = Inr (accs', r)"
  shows "resolves source name accs accs' r"
  using assms
  by (auto simp: placeholderAccount_eq Let_def resolves_def kept_append find_account_append
      intro!: accs_ok_append split: if_splits option.splits)

lemma by_ok_update:
  assumes "by_ok source accs by" "resolves source name accs accs' r" "source \<noteq> []" "name \<noteq> []"
  shows "by_ok source accs' (AList.update name r by)"
  using assms find_account_in [of source name accs' r]
  by (auto simp: by_ok_def resolves_def update_conv' distinct_update)

lemma resolve_cases:
  assumes "accs_ok accs" "by_ok source accs by" "resolve now source name (accs, by) = Inr (accs', by', r)"
  shows "resolves source name accs accs' r \<and> by_ok source accs' by' \<and> map_of by' = (map_of by)(name \<mapsto> r) \<and>
    source \<noteq> [] \<and> name \<noteq> []"
proof (cases "map_of by name")
  case None
  then obtain "by' = AList.update name r by" "placeholderAccount now source name accs = Inr (accs', r)"
    using assms(3) by (auto simp: resolve_def split: sum.splits)
  with placeholderAccount_resolves [OF assms(1)] by_ok_update [OF assms(2)] show ?thesis
    by (auto simp: update_conv' placeholderAccount_eq split: if_splits)
next
  case (Some x)
  then have e: "accs' = accs" "by' = by" "r = x" using assms(3) by (auto simp: resolve_def)
  from Some assms(2) have x: "x \<in> set accs" "acc_source x = source" "acc_name x = name"
      "source \<noteq> []" "name \<noteq> []"
    by (auto simp: by_ok_def)
  from find_account_unique [OF assms(1) x(1)] x have "find_account source name accs = Some x" by simp
  with e assms Some x show ?thesis by (auto simp: resolves_def fun_upd_idem)
qed

lemma resolve_total:
  "source \<noteq> [] \<Longrightarrow> name \<noteq> [] \<Longrightarrow> \<exists>accs' by' r. resolve now source name (accs, by) = Inr (accs', by', r)"
  by (cases "map_of by name")
     (auto simp: resolve_def placeholderAccount_eq Let_def split: option.splits)

lemma upsert_all_spec:
  assumes "accs_ok accs" "by_ok source accs by" "upsert_all now source as (accs, by) = Inr (accs', by')"
  shows "kept accs accs' \<and> accs_ok accs' \<and> by_ok source accs' by' \<and>
    dom (map_of by') = dom (map_of by) \<union> wa_name ` set as \<and> (\<forall>a \<in> set as. wire_ok source a)"
  using assms
proof (induction as arbitrary: accs "by")
  case (Cons a as)
  then obtain accs1 r where u: "upsertAccount now source a accs = Inr (accs1, r)"
      "upsert_all now source as (accs1, AList.update (wa_name a) r by) = Inr (accs', by')"
    by (auto split: sum.splits)
  from upsertAccount_resolves [OF Cons.prems(1) u(1)]
  have r: "resolves source (wa_name a) accs accs1 r" .
  from r have k: "kept accs accs1" "accs_ok accs1" by (auto simp: resolves_def)
  have w: "wire_ok source a" using u(1) by (auto simp: upsertAccount_eq split: if_splits)
  then have ne: "source \<noteq> []" "wa_name a \<noteq> []" by (auto simp: wire_ok_def)
  from Cons.IH [OF k(2) by_ok_update [OF Cons.prems(2) r ne] u(2)] k(1) w show ?case
    by (auto simp: update_conv' intro: kept_trans)
qed simp

lemma upsert_all_total:
  "\<forall>a \<in> set as. wire_ok source a \<Longrightarrow> \<exists>accs' by'. upsert_all now source as (accs, by) = Inr (accs', by')"
  by (induction as arbitrary: accs "by") (auto simp: upsertAccount_eq Let_def split: option.splits)

section \<open>The two insert-or-skip tables\<close>

definition snap_key :: "snapshot \<Rightarrow> nat \<times> instant" where
  "snap_key s = (snap_account s, snap_as_of s)"

definition snap_keys :: "snapshot list \<Rightarrow> (nat \<times> instant) set" where
  "snap_keys ss = snap_key ` set ss"

definition txn_keys :: "txn list \<Rightarrow> string set" where
  "txn_keys ts = txn_hash ` set ts"

interpretation readings: insert_or_skip snap_key snap_keys insert_snapshot
  by unfold_locales (auto simp: insert_snapshot_def snap_keys_def snap_key_def)

interpretation ledger: insert_or_skip txn_hash txn_keys insert_txn
  by unfold_locales (auto simp: insert_txn_def txn_keys_def)

lemma insert_snapshot_unique:
  "distinct (map snap_id ss) \<and> distinct (map snap_key ss) \<Longrightarrow>
   distinct (map snap_id (fst (insert_snapshot s ss))) \<and> distinct (map snap_key (fst (insert_snapshot s ss)))"
  using fresh_id_new [of "map snap_id ss"]
  by (auto simp: insert_snapshot_def snap_key_def simp del: fresh_id_new)

lemma insert_txn_unique:
  "distinct (map txn_id ts) \<and> distinct (map txn_hash ts) \<Longrightarrow>
   distinct (map txn_id (fst (insert_txn t ts))) \<and> distinct (map txn_hash (fst (insert_txn t ts)))"
  using fresh_id_new [of "map txn_id ts"] by (auto simp: insert_txn_def simp del: fresh_id_new)

lemma ins_all_induct:
  assumes "\<And>r t. P t \<Longrightarrow> P (fst (ins r t))" "P t"
  shows "P (fst (ins_all ins rs t))"
  using assms(2)
proof (induction rs arbitrary: t)
  case (Cons r rs)
  have "P (fst (ins_all ins rs (fst (ins r t))))" by (intro Cons.IH assms(1) Cons.prems)
  then show ?case by (auto split: prod.splits)
qed simp

lemma ins_all_snapshot_unique:
  assumes "distinct (map snap_id ss) \<and> distinct (map snap_key ss)"
  shows "distinct (map snap_id (fst (ins_all insert_snapshot rs ss))) \<and>
    distinct (map snap_key (fst (ins_all insert_snapshot rs ss)))"
  by (rule ins_all_induct [where P = "\<lambda>ss. distinct (map snap_id ss) \<and> distinct (map snap_key ss)"])
     (erule insert_snapshot_unique, rule assms)

lemma ins_all_txn_unique:
  assumes "distinct (map txn_id ts) \<and> distinct (map txn_hash ts)"
  shows "distinct (map txn_id (fst (ins_all insert_txn rs ts))) \<and>
    distinct (map txn_hash (fst (ins_all insert_txn rs ts)))"
  by (rule ins_all_induct [where P = "\<lambda>ts. distinct (map txn_id ts) \<and> distinct (map txn_hash ts)"])
     (erule insert_txn_unique, rule assms)

lemma insert_snapshot_prefix: "prefix ss (fst (insert_snapshot s ss))"
  by (simp add: insert_snapshot_def)

lemma insert_txn_prefix: "prefix ts (fst (insert_txn t ts))"
  by (simp add: insert_txn_def)

lemma ins_all_snapshot_prefix: "prefix ss (fst (ins_all insert_snapshot rs ss))"
  by (rule ins_all_induct [where P = "prefix ss"]) (auto intro: prefix_order.trans insert_snapshot_prefix)

lemma ins_all_txn_prefix: "prefix ts (fst (ins_all insert_txn rs ts))"
  by (rule ins_all_induct [where P = "prefix ts"]) (auto intro: prefix_order.trans insert_txn_prefix)

text \<open>The rows of step 2 depend on the account table only through the ids of the named accounts.\<close>

lemma snapshot_rows_transfer:
  assumes "snapshot_rows by as = Inr rs"
    and "\<And>n r. map_of by n = Some r \<Longrightarrow> \<exists>r'. map_of by' n = Some r' \<and> acc_id r' = acc_id r"
  shows "snapshot_rows by' as = Inr rs"
  using assms(1)
proof (induction as arbitrary: rs)
  case (Cons a as)
  show ?case
  proof (cases "wa_balance a")
    case (Some b)
    with Cons.prems obtain t r rs0 where p: "parseDateTime (wb_as_of b) = Some t"
        "map_of by (wa_name a) = Some r" "snapshot_rows by as = Inr rs0"
        and rs: "rs = \<lparr>snap_id = 0, snap_account = acc_id r, snap_balance = wb_balance b,
          snap_available = wb_available b, snap_limit = wb_limit b, snap_as_of = t\<rparr> # rs0"
      by (auto split: option.splits sum.splits)
    from assms(2) [OF p(2)] obtain r' where "map_of by' (wa_name a) = Some r'" "acc_id r' = acc_id r"
      by blast
    with p rs Some Cons.IH show ?thesis by simp
  qed (use Cons in simp)
qed simp

section \<open>Posted rows\<close>

text \<open>The hashes of a payload, in payload order: the \<open>k\<close>-th row with a given canonical key
  carries the ordinal \<open>k\<close>.  They do not depend on the database.\<close>

fun posted_hashes :: "(string \<Rightarrow> string) \<Rightarrow> posted_row list \<Rightarrow> (string \<Rightarrow> nat) \<Rightarrow> string list" where
  "posted_hashes H [] occ = []"
| "posted_hashes H (r # rs) occ =
     row_hash H r (occ (row_key r)) # posted_hashes H rs (occ(row_key r := Suc (occ (row_key r))))"

fun dup_at :: "nat \<Rightarrow> string list \<Rightarrow> string list \<Rightarrow> nat list" where
  "dup_at i [] seen = []"
| "dup_at i (h # hs) seen = (if h \<in> set seen then [i] else []) @ dup_at (Suc i) hs (h # seen)"

definition carries :: "posted_row \<Rightarrow> txn \<Rightarrow> bool" where
  "carries row t \<longleftrightarrow>
     parseDate (pr_date row) = Some (txn_date t) \<and> txn_amount t = pr_amount row \<and>
     txn_raw t = pr_raw row \<and> txn_desc t = pr_desc row \<and>
     txn_merchant t = null_string (pr_merchant row) \<and> txn_after t = pr_after row"

lemma posted_step_cases:
  assumes "posted_step H now source i row st = Inr st'"
  obtains accs "by" acc t where
    "resolve now source (pr_account row) (ps_accounts st, ps_by st) = Inr (accs, by, acc)"
    "carries row t" "txn_account t = acc_id acc" "txn_hash t = row_hash H row (ps_occ st (row_key row))"
    "st' = st\<lparr>ps_accounts := accs, ps_by := by, ps_txns := fst (insert_txn t (ps_txns st)),
       ps_occ := (ps_occ st)(row_key row := Suc (ps_occ st (row_key row))),
       ps_seen := txn_hash t # ps_seen st,
       ps_collisions := (if txn_hash t \<in> set (ps_seen st) then ps_collisions st @ [i] else ps_collisions st),
       ps_inserted := (if snd (insert_txn t (ps_txns st)) then Suc (ps_inserted st) else ps_inserted st),
       ps_skipped := (if snd (insert_txn t (ps_txns st)) then ps_skipped st else Suc (ps_skipped st))\<rparr>"
proof -
  from assms obtain accs "by" acc d where
    r: "resolve now source (pr_account row) (ps_accounts st, ps_by st) = Inr (accs, by, acc)"
    and d: "parseDate (pr_date row) = Some d"
    by (auto simp: posted_step_def split: sum.splits option.splits)
  let ?t = "\<lparr>txn_id = 0, txn_account = acc_id acc, txn_hash = row_hash H row (ps_occ st (row_key row)),
      txn_date = d, txn_amount = pr_amount row, txn_raw = pr_raw row, txn_desc = pr_desc row,
      txn_merchant = null_string (pr_merchant row), txn_after = pr_after row\<rparr>"
  show ?thesis
  proof (rule that [OF r, of ?t])
    show "carries row ?t" using d by (simp add: carries_def)
  qed (use assms r d in \<open>auto simp: posted_step_def Let_def split: prod.splits\<close>)
qed

text \<open>One step and the whole loop, seen as a batch insert of the rows the payload carries.\<close>

definition owned :: "string \<Rightarrow> account list \<Rightarrow> posted_row \<Rightarrow> txn \<Rightarrow> bool" where
  "owned source accs row t \<longleftrightarrow>
     source \<noteq> [] \<and> pr_account row \<noteq> [] \<and> carries row t \<and>
     (\<exists>a. find_account source (pr_account row) accs = Some a \<and> acc_id a = txn_account t)"

lemma owned_kept: "kept accs accs' \<Longrightarrow> owned source accs row t \<Longrightarrow> owned source accs' row t"
  using find_account_kept [of accs accs' source "pr_account row"]
  by (fastforce simp: owned_def row_kept_def)

lemma posted_loop_spec:
  assumes "accs_ok (ps_accounts st)" "by_ok source (ps_accounts st) (ps_by st)"
    and "posted_loop H now source i rows st = Inr st'"
  shows "kept (ps_accounts st) (ps_accounts st') \<and> accs_ok (ps_accounts st') \<and>
    by_ok source (ps_accounts st') (ps_by st') \<and>
    dom (map_of (ps_by st')) = dom (map_of (ps_by st)) \<union> pr_account ` set rows \<and>
    ps_collisions st' = ps_collisions st @ dup_at i (posted_hashes H rows (ps_occ st)) (ps_seen st) \<and>
    (\<exists>ts. list_all2 (owned source (ps_accounts st')) rows ts \<and>
       map txn_hash ts = posted_hashes H rows (ps_occ st) \<and>
       ps_txns st' = fst (ins_all insert_txn ts (ps_txns st)) \<and>
       ps_inserted st' = ps_inserted st + snd (ins_all insert_txn ts (ps_txns st)) \<and>
       ps_inserted st' + ps_skipped st' = ps_inserted st + ps_skipped st + length rows)"
  using assms
proof (induction rows arbitrary: i st)
  case (Cons row rows)
  then obtain s1 where s1: "posted_step H now source i row st = Inr s1"
      "posted_loop H now source (Suc i) rows s1 = Inr st'"
    by (auto split: sum.splits)
  from s1(1) obtain accs "by" acc t where
    r: "resolve now source (pr_account row) (ps_accounts st, ps_by st) = Inr (accs, by, acc)"
    and t: "carries row t" "txn_account t = acc_id acc"
      "txn_hash t = row_hash H row (ps_occ st (row_key row))"
    and e: "s1 = st\<lparr>ps_accounts := accs, ps_by := by, ps_txns := fst (insert_txn t (ps_txns st)),
       ps_occ := (ps_occ st)(row_key row := Suc (ps_occ st (row_key row))),
       ps_seen := txn_hash t # ps_seen st,
       ps_collisions := (if txn_hash t \<in> set (ps_seen st) then ps_collisions st @ [i] else ps_collisions st),
       ps_inserted := (if snd (insert_txn t (ps_txns st)) then Suc (ps_inserted st) else ps_inserted st),
       ps_skipped := (if snd (insert_txn t (ps_txns st)) then ps_skipped st else Suc (ps_skipped st))\<rparr>"
    by (rule posted_step_cases)
  note rc = resolve_cases [OF Cons.prems(1,2) r]
  then have o1: "accs_ok (ps_accounts s1)" "by_ok source (ps_accounts s1) (ps_by s1)"
    and k: "kept (ps_accounts st) (ps_accounts s1)"
    and f: "find_account source (pr_account row) (ps_accounts s1) = Some acc"
    by (auto simp: e resolves_def)
  from Cons.IH [OF o1 s1(2)] obtain ts where IH:
    "kept (ps_accounts s1) (ps_accounts st')" "accs_ok (ps_accounts st')"
    "by_ok source (ps_accounts st') (ps_by st')"
    "dom (map_of (ps_by st')) = dom (map_of (ps_by s1)) \<union> pr_account ` set rows"
    "ps_collisions st' = ps_collisions s1 @ dup_at (Suc i) (posted_hashes H rows (ps_occ s1)) (ps_seen s1)"
    "list_all2 (owned source (ps_accounts st')) rows ts"
    "map txn_hash ts = posted_hashes H rows (ps_occ s1)"
    "ps_txns st' = fst (ins_all insert_txn ts (ps_txns s1))"
    "ps_inserted st' = ps_inserted s1 + snd (ins_all insert_txn ts (ps_txns s1))"
    "ps_inserted st' + ps_skipped st' = ps_inserted s1 + ps_skipped s1 + length rows"
    by blast
  have "owned source (ps_accounts s1) row t"
    using f t rc by (auto simp: owned_def)
  then have ow: "owned source (ps_accounts st') row t" by (rule owned_kept [OF IH(1)])
  have all: "fst (ins_all insert_txn (t # ts) (ps_txns st)) = ps_txns st'"
    "ps_inserted st + snd (ins_all insert_txn (t # ts) (ps_txns st)) = ps_inserted st'"
    using IH(8,9) by (auto simp: e split: prod.splits)
  show ?case
  proof (intro conjI exI [of _ "t # ts"])
    show "kept (ps_accounts st) (ps_accounts st')" using k IH(1) by (rule kept_trans)
    show "dom (map_of (ps_by st')) = dom (map_of (ps_by st)) \<union> pr_account ` set (row # rows)"
      using IH(4) rc by (auto simp: e)
    show "ps_collisions st' =
      ps_collisions st @ dup_at i (posted_hashes H (row # rows) (ps_occ st)) (ps_seen st)"
      using IH(5) t(3) by (simp add: e)
    show "map txn_hash (t # ts) = posted_hashes H (row # rows) (ps_occ st)"
      using IH(7) t(3) by (simp add: e)
    show "ps_inserted st' + ps_skipped st' = ps_inserted st + ps_skipped st + length (row # rows)"
      using IH(10) by (simp add: e split: if_splits)
  qed (use IH ow all in simp_all)
qed simp

subsection \<open>The hashes of a payload\<close>

lemma row_hash_key: "row_hash H r k = H (row_key r @ ''|'' @ itoa (int k))"
  by (simp add: row_hash_def row_key_def DedupHash_def)

lemma itoa_int_inj [simp]: "itoa (int a) = itoa (int b) \<longleftrightarrow> a = b"
  by (auto simp: itoa_def dest: itoa_nat_inj)

text \<open>The keys of a payload: each canonical key with the ordinals below its multiplicity.\<close>

definition key_set :: "posted_row list \<Rightarrow> (string \<Rightarrow> nat) \<Rightarrow> string set" where
  "key_set rows occ =
     {key @ ''|'' @ itoa (int k) |key k.
        occ key \<le> k \<and> k < occ key + count_where (\<lambda>r. row_key r = key) rows}"

fun posted_keys :: "posted_row list \<Rightarrow> (string \<Rightarrow> nat) \<Rightarrow> string list" where
  "posted_keys [] occ = []"
| "posted_keys (r # rs) occ =
     (row_key r @ ''|'' @ itoa (int (occ (row_key r)))) #
       posted_keys rs (occ(row_key r := Suc (occ (row_key r))))"

lemma posted_hashes_map: "posted_hashes H rows occ = map H (posted_keys rows occ)"
  by (induction rows arbitrary: occ) (simp_all add: row_hash_key)

lemma key_set_mem:
  "key @ ''|'' @ itoa (int k) \<in> key_set rows occ \<longleftrightarrow>
     occ key \<le> k \<and> k < occ key + count_where (\<lambda>r. row_key r = key) rows"
  by (auto simp: key_set_def dest!: occurrence_inj [unfolded append.simps])

lemma key_set_Cons:
  "key_set (r # rows) occ =
     insert (row_key r @ ''|'' @ itoa (int (occ (row_key r))))
       (key_set rows (occ(row_key r := Suc (occ (row_key r)))))" (is "?L = ?R")
proof -
  have shape: "s \<in> key_set xs f \<Longrightarrow> \<exists>key k. s = key @ ''|'' @ itoa (int k)" for s xs f
    by (auto simp: key_set_def)
  have "key @ ''|'' @ itoa (int k) \<in> ?L \<longleftrightarrow> key @ ''|'' @ itoa (int k) \<in> ?R" for key k
    unfolding insert_iff key_set_mem
    by (cases "key = row_key r")
       (auto simp: count_where_def dest: occurrence_inj [unfolded append.simps])
  note eq = this
  show ?thesis
  proof (rule set_eqI)
    fix s
    show "s \<in> ?L \<longleftrightarrow> s \<in> ?R"
    proof (cases "\<exists>key k. s = key @ ''|'' @ itoa (int k)")
      case True
      then show ?thesis using eq by (elim exE) (simp only:)
    next
      case False
      then show ?thesis using shape [of s] by (metis insertE insertCI)
    qed
  qed
qed

lemma posted_keys_set: "set (posted_keys rows occ) = key_set rows occ"
proof (induction rows arbitrary: occ)
  case (Cons r rows)
  then show ?case by (simp only: posted_keys.simps list.set key_set_Cons)
qed (simp add: key_set_def count_where_def)

lemma posted_keys_distinct: "distinct (posted_keys rows occ)"
proof (induction rows arbitrary: occ)
  case (Cons r rows)
  have "row_key r @ ''|'' @ itoa (int (occ (row_key r)))
      \<notin> key_set rows (occ(row_key r := Suc (occ (row_key r))))"
    by (simp only: key_set_mem) simp
  with Cons show ?case by (simp add: posted_keys_set)
qed simp

lemma dup_at_none: "distinct hs \<Longrightarrow> set hs \<inter> set seen = {} \<Longrightarrow> dup_at i hs seen = []"
  by (induction hs arbitrary: i seen) auto

lemma dup_at_none_conv: "dup_at i hs seen = [] \<longleftrightarrow> distinct hs \<and> set hs \<inter> set seen = {}"
  by (induction hs arbitrary: i seen) auto

lemma no_collision:
  assumes "inj_on H (key_set rows (\<lambda>_. 0))"
  shows "dup_at i (posted_hashes H rows (\<lambda>_. 0)) [] = []"
  using assms
  by (subst posted_hashes_map)
     (simp add: dup_at_none_conv distinct_map posted_keys_distinct posted_keys_set)

section \<open>Pending rows\<close>

lemma pending_order_set [simp]: "set (pending_order rows) = qr_account ` set rows"
  by (simp add: pending_order_def)

lemma pending_order_distinct [simp]: "distinct (pending_order rows)"
  by (simp add: pending_order_def)

definition shows_pending :: "pending_row \<Rightarrow> pending \<Rightarrow> bool" where
  "shows_pending row q \<longleftrightarrow>
     parseDate (qr_date row) = Some (pend_date q) \<and> pend_amount q = qr_amount row \<and>
     pend_raw q = qr_raw row \<and> pend_desc q = qr_desc row \<and>
     pend_merchant q = null_string (qr_merchant row)"

lemma insert_pendings_spec:
  assumes "insert_pendings name aid rows ps = Inr ps'"
  shows "(\<exists>new. ps' = ps @ new \<and> list_all2 shows_pending rows new \<and> (\<forall>q \<in> set new. pend_account q = aid)) \<and>
    (distinct (map pend_id ps) \<longrightarrow> distinct (map pend_id ps'))"
  using assms
proof (induction rows arbitrary: ps)
  case (Cons r rows)
  then obtain d where d: "parseDate (qr_date r) = Some d" by (auto split: option.splits)
  let ?q = "\<lparr>pend_id = fresh_id (map pend_id ps), pend_account = aid, pend_date = d,
      pend_amount = qr_amount r, pend_raw = qr_raw r, pend_desc = qr_desc r,
      pend_merchant = null_string (qr_merchant r)\<rparr>"
  have step: "insert_pendings name aid rows (ps @ [?q]) = Inr ps'"
    using Cons.prems d by (simp add: insert_pending_def)
  from Cons.IH [OF this] obtain new where new: "ps' = ps @ ?q # new" "list_all2 shows_pending rows new"
      "\<forall>q \<in> set new. pend_account q = aid"
      "distinct (map pend_id (ps @ [?q])) \<longrightarrow> distinct (map pend_id ps')"
    by auto
  have "shows_pending r ?q" using d by (simp add: shows_pending_def)
  with new show ?case
    using fresh_id_new [of "map pend_id ps"]
    by (auto intro!: exI [of _ "?q # new"] simp del: fresh_id_new)
qed simp

lemma insert_pendings_total:
  "\<forall>r \<in> set rows. parseDate (qr_date r) \<noteq> None \<Longrightarrow> \<exists>ps'. insert_pendings name aid rows ps = Inr ps'"
  by (induction rows arbitrary: ps) auto

lemma posted_hashes_set: "set (posted_hashes H rows occ) = H ` key_set rows occ"
  by (simp add: posted_hashes_map [of H] posted_keys_set)

lemma other_account_id:
  assumes "accs_ok accs" "find_account s n accs = Some a" "find_account s m accs = Some b" "n \<noteq> m"
  shows "acc_id a \<noteq> acc_id b"
  using assms find_account_in [OF assms(2)] find_account_in [OF assms(3)]
  by (auto simp: accs_ok_def distinct_map inj_on_def)

lemma pending_loop_spec:
  assumes "accs_ok accs" "by_ok source accs by" "distinct names"
    and "pending_loop now source rows names (accs, by, ps) = Inr (accs', by', ps')"
  shows "kept accs accs' \<and> accs_ok accs' \<and> by_ok source accs' by' \<and>
    dom (map_of by') = dom (map_of by) \<union> set names \<and>
    (\<forall>r \<in> set rows. qr_account r \<in> set names \<longrightarrow> parseDate (qr_date r) \<noteq> None) \<and>
    (\<forall>n \<in> set names. source \<noteq> [] \<and> n \<noteq> []) \<and>
    (distinct (map pend_id ps) \<longrightarrow> distinct (map pend_id ps')) \<and>
    (\<forall>n \<in> set names. \<exists>a. find_account source n accs' = Some a \<and>
       list_all2 shows_pending (filter (\<lambda>r. qr_account r = n) rows)
         (filter (\<lambda>q. pend_account q = acc_id a) ps')) \<and>
    (\<forall>i. (\<forall>n \<in> set names. \<forall>a. find_account source n accs' = Some a \<longrightarrow> acc_id a \<noteq> i) \<longrightarrow>
       filter (\<lambda>q. pend_account q = i) ps' = filter (\<lambda>q. pend_account q = i) ps)"
  using assms
proof (induction names arbitrary: accs "by" ps)
  case (Cons n names)
  let ?mine = "filter (\<lambda>r. qr_account r = n) rows"
  from Cons.prems(4) obtain accs1 by1 a ps1 where
    r: "resolve now source n (accs, by) = Inr (accs1, by1, a)"
    and ins: "insert_pendings n (acc_id a) ?mine (filter (\<lambda>q. pend_account q \<noteq> acc_id a) ps) = Inr ps1"
    and rest: "pending_loop now source rows names (accs1, by1, ps1) = Inr (accs', by', ps')"
    by (auto split: sum.splits prod.splits)
  note rc = resolve_cases [OF Cons.prems(1,2) r]
  from insert_pendings_spec [OF ins] obtain new where
    new: "ps1 = filter (\<lambda>q. pend_account q \<noteq> acc_id a) ps @ new" "list_all2 shows_pending ?mine new"
      "\<forall>q \<in> set new. pend_account q = acc_id a"
    and ids: "distinct (map pend_id (filter (\<lambda>q. pend_account q \<noteq> acc_id a) ps)) \<longrightarrow> distinct (map pend_id ps1)"
    by blast
  have k1: "kept accs accs1" "accs_ok accs1" "by_ok source accs1 by1" "find_account source n accs1 = Some a"
    using rc by (auto simp: resolves_def)
  have nn: "distinct names" "n \<notin> set names" using Cons.prems(3) by auto
  note IH = Cons.IH [OF k1(2,3) nn(1) rest]
  from IH have k2: "kept accs1 accs'" "accs_ok accs'" by blast+
  from find_account_kept [OF k2(1) k1(4)] obtain a' where
    a': "find_account source n accs' = Some a'" "acc_id a' = acc_id a"
    by (auto simp: row_kept_def)
  have mine: "filter (\<lambda>q. pend_account q = acc_id a) ps1 = new"
    using new(1,3) by (simp add: filter_empty_conv filter_id_conv)
  have "\<forall>m \<in> set names. \<forall>b. find_account source m accs' = Some b \<longrightarrow> acc_id b \<noteq> acc_id a"
    using other_account_id [OF k2(2) _ a'(1)] a'(2) nn(2) by metis
  then have still: "filter (\<lambda>q. pend_account q = acc_id a) ps' = new"
    using IH mine by simp
  have dates: "\<forall>r \<in> set ?mine. parseDate (qr_date r) \<noteq> None"
    using list_all2_in [OF new(2)] by (auto simp: shows_pending_def)
  have others: "filter (\<lambda>q. pend_account q = i) ps' = filter (\<lambda>q. pend_account q = i) ps"
    if "\<forall>m \<in> set (n # names). \<forall>b. find_account source m accs' = Some b \<longrightarrow> acc_id b \<noteq> i" for i
  proof -
    have "acc_id a \<noteq> i" using that a' by auto
    then have "filter (\<lambda>q. pend_account q = i) ps1 = filter (\<lambda>q. pend_account q = i) ps"
      using new(1,3) by (auto simp: filter_empty_conv intro: filter_cong)
    then show ?thesis using IH that by simp
  qed
  have ids': "distinct (map pend_id ps) \<longrightarrow> distinct (map pend_id ps')"
  proof
    assume "distinct (map pend_id ps)"
    then have "distinct (map pend_id ps1)" using ids by (simp add: distinct_map_filter)
    with IH show "distinct (map pend_id ps')" by blast
  qed
  have dom': "dom (map_of by') = dom (map_of by) \<union> set (n # names)" using IH rc by auto
  have named: "\<forall>m \<in> set (n # names). \<exists>a. find_account source m accs' = Some a \<and>
       list_all2 shows_pending (filter (\<lambda>r. qr_account r = m) rows)
         (filter (\<lambda>q. pend_account q = acc_id a) ps')"
  proof
    fix m assume "m \<in> set (n # names)"
    then consider "m = n" | "m \<in> set names" by auto
    then show "\<exists>a. find_account source m accs' = Some a \<and>
       list_all2 shows_pending (filter (\<lambda>r. qr_account r = m) rows)
         (filter (\<lambda>q. pend_account q = acc_id a) ps')"
    proof cases
      case 1
      then show ?thesis using a' still new(2) by (intro exI [of _ a']) simp
    next
      case 2
      then show ?thesis using IH by blast
    qed
  qed
  have dates': "\<forall>r \<in> set rows. qr_account r \<in> set (n # names) \<longrightarrow> parseDate (qr_date r) \<noteq> None"
    using IH dates by simp
  have ne: "\<forall>m \<in> set (n # names). source \<noteq> [] \<and> m \<noteq> []" using IH rc by simp
  have k: "kept accs accs'" using k1(1) k2(1) by (rule kept_trans)
  have by': "by_ok source accs' by'" using IH by blast
  show ?case
    using k k2(2) by' dom' dates' ne ids' named others by blast
qed simp

lemma pending_loop_total:
  assumes "\<forall>n \<in> set names. source \<noteq> [] \<and> n \<noteq> []"
    and "\<forall>r \<in> set rows. parseDate (qr_date r) \<noteq> None"
  shows "\<exists>s'. pending_loop now source rows names (accs, by, ps) = Inr s'"
  using assms
proof (induction names arbitrary: accs "by" ps)
  case (Cons n names)
  then obtain accs1 by1 a where "resolve now source n (accs, by) = Inr (accs1, by1, a)"
    using resolve_total [of source n] by fastforce
  moreover obtain ps1 where "insert_pendings n (acc_id a) (filter (\<lambda>r. qr_account r = n) rows)
      (filter (\<lambda>q. pend_account q \<noteq> acc_id a) ps) = Inr ps1"
    using insert_pendings_total [of "filter (\<lambda>r. qr_account r = n) rows"] Cons.prems(2) by fastforce
  ultimately show ?case using Cons by simp
qed simp

section \<open>Watermarks\<close>

definition mark :: "instant \<Rightarrow> (account \<Rightarrow> bool) \<Rightarrow> account list \<Rightarrow> account list" where
  "mark to q accs =
     update_where q (\<lambda>r. r\<lparr>acc_watermark := max (acc_watermark r) (Some to)\<rparr>) accs"

text \<open>A loaded row is good enough to decide the guard: the stored row has its watermark still, or
  has been moved to \<open>to\<close> by an earlier target.\<close>

definition current :: "instant \<Rightarrow> account \<Rightarrow> account list \<Rightarrow> bool" where
  "current to a accs \<longleftrightarrow>
     (\<forall>r \<in> set accs. acc_id r = acc_id a \<longrightarrow>
        acc_watermark r = acc_watermark a \<or> acc_watermark r = Some to)"

lemma stale_less: "(case w of None \<Rightarrow> True | Some v \<Rightarrow> v < to) \<longleftrightarrow> w < Some (to::instant)"
  by (cases w) simp_all

lemma advance_watermark_mark:
  assumes "current to a accs"
  shows "advance_watermark to a accs = mark to (\<lambda>r. acc_id r = acc_id a) accs"
proof -
  have row0: "(if acc_watermark a < Some to then r\<lparr>acc_watermark := Some to\<rparr> else r) =
      r\<lparr>acc_watermark := max (acc_watermark r) (Some to)\<rparr>"
    if "r \<in> set accs" "acc_id r = acc_id a" for r
  proof -
    from assms that have "acc_watermark r = acc_watermark a \<or> acc_watermark r = Some to"
      by (auto simp: current_def)
    then show ?thesis by (cases r) (auto simp: max_def)
  qed
  have row: "(if acc_id r = acc_id a then r\<lparr>acc_watermark := max (acc_watermark r) (Some to)\<rparr> else r) =
      (if acc_watermark a < Some to \<and> acc_id r = acc_id a then r\<lparr>acc_watermark := Some to\<rparr> else r)"
    if "r \<in> set accs" for r
    by (cases "acc_id r = acc_id a") (simp_all only: row0 [OF that, symmetric] simp_thms if_True if_False)
  have "mark to (\<lambda>r. acc_id r = acc_id a) accs =
      map (\<lambda>r. if acc_watermark a < Some to \<and> acc_id r = acc_id a
                then r\<lparr>acc_watermark := Some to\<rparr> else r) accs"
    unfolding mark_def update_where_def by (rule map_cong [OF refl row])
  then show ?thesis
    by (simp add: advance_watermark_def stale_less update_where_def)
qed

lemma current_mark:
  assumes "current to a accs"
  shows "current to a (mark to q accs)"
  unfolding current_def
proof (intro ballI impI)
  fix r assume "r \<in> set (mark to q accs)" and id: "acc_id r = acc_id a"
  then obtain r0 where r0: "r0 \<in> set accs"
      "r = (if q r0 then r0\<lparr>acc_watermark := max (acc_watermark r0) (Some to)\<rparr> else r0)"
    by (auto simp: mark_def in_update_where)
  then have "acc_id r0 = acc_id a" "acc_watermark r = acc_watermark r0 \<or> acc_watermark r = Some to"
    using id by (auto simp: max_def split: if_splits)
  with assms r0(1) show "acc_watermark r = acc_watermark a \<or> acc_watermark r = Some to"
    by (auto simp: current_def)
qed

lemma mark_mark: "mark to q (mark to p accs) = mark to (\<lambda>r. p r \<or> q r) accs"
  if "\<And>r w. q (r\<lparr>acc_watermark := w\<rparr>) = q r"
  using that by (auto simp: mark_def update_where_def max_def)

lemma fold_advance:
  "\<forall>a \<in> set targets. current to a accs \<Longrightarrow>
   fold (advance_watermark to) targets accs = mark to (\<lambda>r. \<exists>a \<in> set targets. acc_id r = acc_id a) accs"
proof (induction targets arbitrary: accs)
  case Nil
  then show ?case by (simp add: mark_def update_where_def)
next
  case (Cons a targets)
  then have "\<forall>b \<in> set targets. current to b (mark to (\<lambda>r. acc_id r = acc_id a) accs)"
    by (auto intro: current_mark)
  from Cons.IH [OF this] Cons.prems show ?case
    by (simp add: advance_watermark_mark mark_mark disj_commute)
qed

lemma accs_ok_mark: "accs_ok accs \<Longrightarrow> accs_ok (mark to q accs)"
  unfolding mark_def by (rule accs_ok_update) simp_all

lemma loaded_current: "accs_ok accs \<Longrightarrow> a \<in> set accs \<Longrightarrow> current to a accs"
  by (auto simp: current_def accs_ok_def distinct_map inj_on_def)

text \<open>What step 6 means: the completeness mark a run records, and the accounts that get it.\<close>

definition window_mark :: "instant \<Rightarrow> payload \<Rightarrow> instant option" where
  "window_mark now p =
     (case pl_window p of
        None \<Rightarrow> None
      | Some w \<Rightarrow> if trim_space (ww_to w) = [] then None
                  else map_option (\<lambda>to. min to (normalizeDate now)) (parseDate (ww_to w)))"

definition scanned :: "payload \<Rightarrow> account \<Rightarrow> bool" where
  "scanned p r \<longleftrightarrow>
     acc_source r = trim_space (pl_source p) \<and>
     (case pl_window p of
        None \<Rightarrow> False
      | Some w \<Rightarrow> if null_string (ww_account w) \<noteq> [] then acc_name r = null_string (ww_account w)
                  else acc_name r \<in> wa_name ` set (pl_accounts p) \<union> pr_account ` set (pl_posted p))"

lemma targets_ids:
  assumes "accs_ok accs" "by_ok source accs by"
    and "wa_name ` set (pl_accounts p) \<union> pr_account ` set (pl_posted p) \<subseteq> dom (map_of by)"
    and "r \<in> set accs"
  shows "(\<exists>a \<in> set (watermark_targets p by). acc_id r = acc_id a) \<longleftrightarrow>
    acc_source r = source \<and> acc_name r \<in> wa_name ` set (pl_accounts p) \<union> pr_account ` set (pl_posted p)"
proof
  assume "\<exists>a \<in> set (watermark_targets p by). acc_id r = acc_id a"
  then obtain n a where a: "(n, a) \<in> set by" "acc_id r = acc_id a"
      "n \<in> wa_name ` set (pl_accounts p) \<union> pr_account ` set (pl_posted p)"
    by (auto simp: watermark_targets_def)
  then have "map_of by n = Some a" using assms(2) by (simp add: by_ok_def)
  with assms(2) have "a \<in> set accs" "acc_source a = source" "acc_name a = n" by (auto simp: by_ok_def)
  moreover from this(1) have "a = r" using assms(1,4) a(2) by (auto simp: accs_ok_def distinct_map inj_on_def)
  ultimately show "acc_source r = source \<and>
      acc_name r \<in> wa_name ` set (pl_accounts p) \<union> pr_account ` set (pl_posted p)"
    using a(3) by simp
next
  assume r: "acc_source r = source \<and>
    acc_name r \<in> wa_name ` set (pl_accounts p) \<union> pr_account ` set (pl_posted p)"
  with assms(3) obtain a where a: "map_of by (acc_name r) = Some a" by auto
  with assms(2) have "a \<in> set accs" "acc_source a = source" "acc_name a = acc_name r"
    by (auto simp: by_ok_def)
  with r have "a = r" using assms(1,4) by (auto simp: accs_ok_def distinct_map inj_on_def)
  moreover have "(acc_name r, a) \<in> set by" using a by (rule map_of_SomeD)
  ultimately show "\<exists>a \<in> set (watermark_targets p by). acc_id r = acc_id a"
    using r by (force simp: watermark_targets_def)
qed

lemma mark_cong: "(\<And>r. r \<in> set accs \<Longrightarrow> q r = q' r) \<Longrightarrow> mark to q accs = mark to q' accs"
  by (auto simp: mark_def update_where_def)

lemma watermark_targets_in:
  "by_ok source accs by \<Longrightarrow> a \<in> set (watermark_targets p by) \<Longrightarrow> a \<in> set accs"
  by (auto simp: watermark_targets_def by_ok_def)

lemma watermark_step_spec:
  assumes "accs_ok accs" "by_ok source accs by"
    and "wa_name ` set (pl_accounts p) \<union> pr_account ` set (pl_posted p) \<subseteq> dom (map_of by)"
    and "source = trim_space (pl_source p)"
    and "watermark_step now source p (accs, by) = Inr accs'"
  shows "(\<exists>accs1. kept accs accs1 \<and> accs_ok accs1 \<and>
      accs' = (case window_mark now p of None \<Rightarrow> accs1 | Some to \<Rightarrow> mark to (scanned p) accs1)) \<and>
    (\<forall>now2 accs2 by2. \<exists>r. watermark_step now2 source p (accs2, by2) = Inr r)"
proof (cases "window_mark now p")
  case None
  with assms(1,5) have "accs' = accs" "pl_window p = None \<or> (\<exists>w. pl_window p = Some w \<and> trim_space (ww_to w) = [])"
    by (auto simp: window_mark_def watermark_step_def split: option.splits if_splits)
  note e = this
  have "\<forall>now2 accs2 by2. \<exists>r. watermark_step now2 source p (accs2, by2) = Inr r"
    using e(2) by (auto simp: watermark_step_def)
  moreover have "kept accs accs \<and> accs_ok accs \<and>
      accs' = (case window_mark now p of None \<Rightarrow> accs | Some to \<Rightarrow> mark to (scanned p) accs)"
    using assms(1) e(1) None by simp
  ultimately show ?thesis by blast
next
  case (Some to)
  then obtain w to0 where w: "pl_window p = Some w" "trim_space (ww_to w) \<noteq> []"
      "parseDate (ww_to w) = Some to0" "to = min to0 (normalizeDate now)"
    by (auto simp: window_mark_def split: option.splits if_splits)
  show ?thesis
  proof (cases "null_string (ww_account w) = []")
    case True
    with w assms(5) have e: "accs' = fold (advance_watermark to) (watermark_targets p by) accs"
      by (simp add: watermark_step_def)
    have "\<forall>a \<in> set (watermark_targets p by). current to a accs"
      using loaded_current [OF assms(1)] watermark_targets_in [OF assms(2)] by blast
    from fold_advance [OF this] e
    have "accs' = mark to (\<lambda>r. \<exists>a \<in> set (watermark_targets p by). acc_id r = acc_id a) accs" by simp
    also have "\<dots> = mark to (scanned p) accs"
      using targets_ids [OF assms(1-3)] w(1) True assms(4)
      by (intro mark_cong) (simp add: scanned_def)
    finally have "kept accs accs \<and> accs_ok accs \<and>
        accs' = (case window_mark now p of None \<Rightarrow> accs | Some to \<Rightarrow> mark to (scanned p) accs)"
      using assms(1) Some by simp
    moreover have "\<forall>now2 accs2 by2. \<exists>r. watermark_step now2 source p (accs2, by2) = Inr r"
      using w True by (auto simp: watermark_step_def)
    ultimately show ?thesis by blast
  next
    case False
    with w assms(5) obtain accs1 by1 a where
      r: "resolve now source (null_string (ww_account w)) (accs, by) = Inr (accs1, by1, a)"
      and e: "accs' = advance_watermark to a accs1"
      by (auto simp: watermark_step_def Let_def split: sum.splits)
    note rc = resolve_cases [OF assms(1,2) r]
    then have k: "kept accs accs1" "accs_ok accs1"
        and f: "find_account source (null_string (ww_account w)) accs1 = Some a"
        and ne: "source \<noteq> []"
      by (auto simp: resolves_def)
    from find_account_in [OF f] have a: "a \<in> set accs1" "acc_source a = source"
        "acc_name a = null_string (ww_account w)"
      by auto
    have "accs' = mark to (\<lambda>r. acc_id r = acc_id a) accs1"
      using e advance_watermark_mark [OF loaded_current [OF k(2) a(1)]] by simp
    also have "\<dots> = mark to (scanned p) accs1"
    proof (rule mark_cong)
      fix r assume "r \<in> set accs1"
      then show "(acc_id r = acc_id a) = scanned p r"
        using k(2) a w(1) False assms(4)
        by (auto simp: scanned_def accs_ok_def distinct_map inj_on_def)
    qed
    finally have "accs' = mark to (scanned p) accs1" .
    moreover have "\<exists>r. watermark_step now2 source p (accs2, by2) = Inr r" for now2 accs2 by2
      using resolve_total [OF ne False, of now2 accs2 by2] w False
      by (auto simp: watermark_step_def)
    ultimately show ?thesis using k Some by auto
  qed
qed

section \<open>A committed run, step by step\<close>

definition init_posted :: "account list \<Rightarrow> by_name \<Rightarrow> fin_db \<Rightarrow> posted_state" where
  "init_posted accs by db =
     \<lparr>ps_accounts = accs, ps_by = by, ps_txns = txns db, ps_occ = (\<lambda>_. 0), ps_seen = [],
      ps_collisions = [], ps_inserted = 0, ps_skipped = 0\<rparr>"

lemma init_posted_simps [simp]:
  "ps_accounts (init_posted accs by db) = accs" "ps_by (init_posted accs by db) = by"
  "ps_txns (init_posted accs by db) = txns db" "ps_occ (init_posted accs by db) = (\<lambda>_. 0)"
  "ps_seen (init_posted accs by db) = []" "ps_collisions (init_posted accs by db) = []"
  "ps_inserted (init_posted accs by db) = 0" "ps_skipped (init_posted accs by db) = 0"
  by (simp_all add: init_posted_def)

definition mismatched :: "payload \<Rightarrow> bool" where
  "mismatched p \<longleftrightarrow> (case pl_expected p of None \<Rightarrow> False | Some e \<Rightarrow> e \<noteq> int (length (pl_posted p)))"

definition run_summary :: "payload \<Rightarrow> nat \<Rightarrow> posted_state \<Rightarrow> summary" where
  "run_summary p nsnap st =
     \<lparr>sum_accounts = length (pl_accounts p), sum_snapshots = nsnap,
      sum_inserted = ps_inserted st, sum_skipped = ps_skipped st,
      sum_pending_accounts = length (pending_order (pl_pending p)),
      sum_pending_rows = length (pl_pending p), sum_dry_run = pl_dry_run p,
      sum_received = length (pl_posted p), sum_expected = pl_expected p,
      sum_reconciled = (\<not> mismatched p \<and> ps_collisions st = []),
      sum_expected_mismatch = mismatched p, sum_collisions = ps_collisions st\<rparr>"

lemma run_summary_simps [simp]:
  "sum_inserted (run_summary p n st) = ps_inserted st" "sum_skipped (run_summary p n st) = ps_skipped st"
  "sum_snapshots (run_summary p n st) = n" "sum_received (run_summary p n st) = length (pl_posted p)"
  "sum_reconciled (run_summary p n st) = (\<not> mismatched p \<and> ps_collisions st = [])"
  by (simp_all add: run_summary_def)

text \<open>The intermediate results of the run.\<close>

definition ran ::
  "(string \<Rightarrow> string) \<Rightarrow> instant \<Rightarrow> fin_db \<Rightarrow> payload \<Rightarrow> by_name \<Rightarrow> snapshot list \<Rightarrow> posted_state
    \<Rightarrow> account list \<times> by_name \<times> pending list \<Rightarrow> bool" where
  "ran H now db p by1 rows st s4 \<longleftrightarrow>
     (\<exists>accs1. upsert_all now (trim_space (pl_source p)) (pl_accounts p) (accounts db, []) = Inr (accs1, by1) \<and>
       snapshot_rows by1 (pl_accounts p) = Inr rows \<and>
       posted_loop H now (trim_space (pl_source p)) 0 (pl_posted p) (init_posted accs1 by1 db) = Inr st \<and>
       pending_loop now (trim_space (pl_source p)) (pl_pending p) (pending_order (pl_pending p))
         (ps_accounts st, ps_by st, pendings db) = Inr s4)"

lemma Ingest_ran:
  assumes "ran H now db p by1 rows st (accs2, by2, pend)"
  shows "Ingest H now db p =
    (let sum = run_summary p (snd (ins_all insert_snapshot rows (snapshots db))) st in
     if pl_dry_run p then Inr (db, sum)
     else if mismatched p \<or> ps_collisions st \<noteq> [] then Inl (Unreconciled sum)
     else (case watermark_step now (trim_space (pl_source p)) p (accs2, by2) of
             Inl e \<Rightarrow> Inl e
           | Inr accs3 \<Rightarrow> Inr (\<lparr>accounts = accs3,
               snapshots = fst (ins_all insert_snapshot rows (snapshots db)),
               txns = ps_txns st, pendings = pend\<rparr>, sum)))"
proof -
  obtain snaps n where sn: "ins_all insert_snapshot rows (snapshots db) = (snaps, n)"
    by (cases "ins_all insert_snapshot rows (snapshots db)")
  show ?thesis
    using assms unfolding ran_def init_posted_def
    by (elim exE conjE)
       (simp add: Ingest_def Let_def sn run_summary_def mismatched_def
         split: sum.split)
qed

lemma Ingest_ran_ex:
  assumes "Ingest H now db p = Inr r"
  shows "\<exists>by1 rows st accs2 by2 pend. ran H now db p by1 rows st (accs2, by2, pend)"
  using assms
  by (auto simp: Ingest_def Let_def ran_def init_posted_def split: sum.splits prod.splits)

lemma Ingest_committed:
  assumes "Ingest H now db p = Inr (db', s)" "\<not> pl_dry_run p"
  obtains by1 rows st accs2 by2 pend accs3 where
    "ran H now db p by1 rows st (accs2, by2, pend)" "\<not> mismatched p" "ps_collisions st = []"
    "watermark_step now (trim_space (pl_source p)) p (accs2, by2) = Inr accs3"
    "db' = \<lparr>accounts = accs3, snapshots = fst (ins_all insert_snapshot rows (snapshots db)),
            txns = ps_txns st, pendings = pend\<rparr>"
    "s = run_summary p (snd (ins_all insert_snapshot rows (snapshots db))) st"
proof -
  from Ingest_ran_ex [OF assms(1)] obtain by1 rows st accs2 by2 pend where
    r: "ran H now db p by1 rows st (accs2, by2, pend)" by blast
  from assms show ?thesis
    unfolding Ingest_ran [OF r] Let_def
    by (auto split: if_splits sum.splits intro: that [OF r])
qed

subsection \<open>Ids of accounts through a run\<close>

definition id_of :: "string \<Rightarrow> account list \<Rightarrow> string \<Rightarrow> nat option" where
  "id_of source accs n = map_option acc_id (find_account source n accs)"

lemma id_of_kept: "kept accs accs' \<Longrightarrow> id_of source accs n = Some i \<Longrightarrow> id_of source accs' n = Some i"
  using find_account_kept [of accs accs' source n] by (fastforce simp: id_of_def row_kept_def)

lemma find_account_mark:
  "find_account s n (mark to q accs) =
     map_option (\<lambda>r. if q r then r\<lparr>acc_watermark := max (acc_watermark r) (Some to)\<rparr> else r)
       (find_account s n accs)"
  by (induction accs) (auto simp: find_account_def mark_def update_where_def)

lemma id_of_mark: "id_of s (mark to q accs) n = id_of s accs n"
  unfolding id_of_def find_account_mark by (cases "find_account s n accs") simp_all

lemma by_ok_id:
  assumes "accs_ok accs" "by_ok source accs by" "map_of by n = Some r"
  shows "id_of source accs n = Some (acc_id r)"
proof -
  from assms(2,3) have "r \<in> set accs" "acc_source r = source" "acc_name r = n" by (auto simp: by_ok_def)
  with find_account_unique [OF assms(1)] show ?thesis by (auto simp: id_of_def)
qed

lemma by_ok_Nil [simp]: "by_ok source accs []"
  by (simp add: by_ok_def)

lemma ran_accounts:
  assumes "accs_ok (accounts db)" "ran H now db p by1 rows st (accs2, by2, pend)"
  defines "source \<equiv> trim_space (pl_source p)"
  shows "kept (accounts db) accs2 \<and> accs_ok accs2 \<and> by_ok source accs2 by2 \<and>
    wa_name ` set (pl_accounts p) \<union> pr_account ` set (pl_posted p) \<subseteq> dom (map_of by2) \<and>
    (\<forall>a \<in> set (pl_accounts p). wire_ok source a) \<and>
    dom (map_of by1) = wa_name ` set (pl_accounts p) \<and>
    (\<forall>n r. map_of by1 n = Some r \<longrightarrow> id_of source accs2 n = Some (acc_id r))"
  (is "?A \<and> ?B \<and> ?C \<and> ?D \<and> ?E \<and> ?F \<and> ?G")
proof -
  from assms(2) obtain accs1 where
    u: "upsert_all now source (pl_accounts p) (accounts db, []) = Inr (accs1, by1)"
    and l: "posted_loop H now source 0 (pl_posted p) (init_posted accs1 by1 db) = Inr st"
    and q: "pending_loop now source (pl_pending p) (pending_order (pl_pending p))
         (ps_accounts st, ps_by st, pendings db) = Inr (accs2, by2, pend)"
    unfolding ran_def source_def by blast
  note U = upsert_all_spec [OF assms(1) by_ok_Nil u]
  then have i: "accs_ok (ps_accounts (init_posted accs1 by1 db))"
      "by_ok source (ps_accounts (init_posted accs1 by1 db)) (ps_by (init_posted accs1 by1 db))"
    by simp_all
  note L = posted_loop_spec [OF i l]
  then have j: "accs_ok (ps_accounts st)" "by_ok source (ps_accounts st) (ps_by st)" by blast+
  note Q = pending_loop_spec [OF j pending_order_distinct q]
  have k1: "kept (accounts db) accs1" using U by blast
  have k2: "kept accs1 (ps_accounts st)" using L by simp
  have k3: "kept (ps_accounts st) accs2" using Q by blast
  have ids: "id_of source accs2 n = Some (acc_id r)" if "map_of by1 n = Some r" for n r
    using U that by_ok_id [of accs1 source by1 n r] id_of_kept [OF kept_trans [OF k2 k3]] by blast
  have d: "wa_name ` set (pl_accounts p) \<union> pr_account ` set (pl_posted p) \<subseteq> dom (map_of by2)"
  proof -
    have "dom (map_of by2) = dom (map_of (ps_by st)) \<union> set (pending_order (pl_pending p))"
      using Q by blast
    moreover have "dom (map_of (ps_by st)) = dom (map_of by1) \<union> pr_account ` set (pl_posted p)"
      using L by simp
    moreover have "dom (map_of by1) = wa_name ` set (pl_accounts p)"
      using U by simp
    ultimately show ?thesis by auto
  qed
  from kept_trans [OF kept_trans [OF k1 k2] k3] have ?A .
  moreover have ?B ?C using Q by blast+
  moreover have ?E ?F using U by auto
  ultimately show ?thesis using d ids by blast
qed

lemma ran_posted:
  assumes "accs_ok (accounts db)" "ran H now db p by1 rows st (accs2, by2, pend)"
  defines "source \<equiv> trim_space (pl_source p)"
  shows "\<exists>ts. list_all2 (owned source accs2) (pl_posted p) ts \<and>
    map txn_hash ts = posted_hashes H (pl_posted p) (\<lambda>_. 0) \<and>
    ps_txns st = fst (ins_all insert_txn ts (txns db)) \<and>
    ps_inserted st = snd (ins_all insert_txn ts (txns db)) \<and>
    ps_inserted st + ps_skipped st = length (pl_posted p) \<and>
    ps_collisions st = dup_at 0 (posted_hashes H (pl_posted p) (\<lambda>_. 0)) []"
proof -
  from assms(2) obtain accs1 where
    u: "upsert_all now source (pl_accounts p) (accounts db, []) = Inr (accs1, by1)"
    and l: "posted_loop H now source 0 (pl_posted p) (init_posted accs1 by1 db) = Inr st"
    and q: "pending_loop now source (pl_pending p) (pending_order (pl_pending p))
         (ps_accounts st, ps_by st, pendings db) = Inr (accs2, by2, pend)"
    unfolding ran_def source_def by blast
  note U = upsert_all_spec [OF assms(1) by_ok_Nil u]
  then have i: "accs_ok (ps_accounts (init_posted accs1 by1 db))"
      "by_ok source (ps_accounts (init_posted accs1 by1 db)) (ps_by (init_posted accs1 by1 db))"
    by simp_all
  note L = posted_loop_spec [OF i l]
  then have j: "accs_ok (ps_accounts st)" "by_ok source (ps_accounts st) (ps_by st)" by blast+
  have k3: "kept (ps_accounts st) accs2" using pending_loop_spec [OF j pending_order_distinct q] by blast
  from L obtain ts where ts: "list_all2 (owned source (ps_accounts st)) (pl_posted p) ts"
    "map txn_hash ts = posted_hashes H (pl_posted p) (\<lambda>_. 0)"
    "ps_txns st = fst (ins_all insert_txn ts (txns db))"
    "ps_inserted st = snd (ins_all insert_txn ts (txns db))"
    "ps_inserted st + ps_skipped st = length (pl_posted p)" by auto
  have "list_all2 (owned source accs2) (pl_posted p) ts"
    by (rule list_all2_mono [OF ts(1)]) (rule owned_kept [OF k3])
  moreover have "ps_collisions st = dup_at 0 (posted_hashes H (pl_posted p) (\<lambda>_. 0)) []"
    using L by simp
  ultimately show ?thesis using ts(2-5) by blast
qed

lemma ran_pending:
  assumes "accs_ok (accounts db)" "ran H now db p by1 rows st (accs2, by2, pend)"
  shows "\<exists>accsp byp. accs_ok accsp \<and> by_ok (trim_space (pl_source p)) accsp byp \<and>
    pending_loop now (trim_space (pl_source p)) (pl_pending p) (pending_order (pl_pending p))
      (accsp, byp, pendings db) = Inr (accs2, by2, pend)"
proof -
  from assms(2) obtain accs1 where
    u: "upsert_all now (trim_space (pl_source p)) (pl_accounts p) (accounts db, []) = Inr (accs1, by1)"
    and l: "posted_loop H now (trim_space (pl_source p)) 0 (pl_posted p) (init_posted accs1 by1 db) = Inr st"
    and q: "pending_loop now (trim_space (pl_source p)) (pl_pending p) (pending_order (pl_pending p))
         (ps_accounts st, ps_by st, pendings db) = Inr (accs2, by2, pend)"
    unfolding ran_def by blast
  have "accs_ok (ps_accounts (init_posted accs1 by1 db))"
      "by_ok (trim_space (pl_source p)) (ps_accounts (init_posted accs1 by1 db)) (ps_by (init_posted accs1 by1 db))"
    using upsert_all_spec [OF assms(1) by_ok_Nil u] by simp_all
  from posted_loop_spec [OF this l] q show ?thesis by blast
qed

lemma posted_loop_total:
  assumes "source \<noteq> []" "\<forall>r \<in> set rows. pr_account r \<noteq> [] \<and> parseDate (pr_date r) \<noteq> None"
  shows "\<exists>st'. posted_loop H now source i rows st = Inr st'"
  using assms(2)
proof (induction rows arbitrary: i st)
  case (Cons r rows)
  then obtain accs "by" a where "resolve now source (pr_account r) (ps_accounts st, ps_by st) = Inr (accs, by, a)"
    using resolve_total [OF assms(1), of "pr_account r"] by fastforce
  with Cons.prems obtain st1 where "posted_step H now source i r st = Inr st1"
    by (auto simp: posted_step_def Let_def case_prod_beta)
  with Cons show ?case by auto
qed simp

text \<open>A second delivery of the same payload runs through, resolves the same accounts and presents
  the same rows.\<close>

lemma ran_again:
  assumes "accs_ok (accounts db)" "ran H now db p by1 rows st (accs2, by2, pend)"
    and "accs_ok (accounts db')"
    and "\<And>n i. id_of (trim_space (pl_source p)) accs2 n = Some i \<Longrightarrow>
           id_of (trim_space (pl_source p)) (accounts db') n = Some i"
  shows "\<exists>by1' st' s4. ran H now2 db' p by1' rows st' s4"
proof -
  let ?s = "trim_space (pl_source p)"
  note R = ran_accounts [OF assms(1,2)]
  have "\<forall>a \<in> set (pl_accounts p). wire_ok ?s a" using R by blast
  from upsert_all_total [OF this, of now2 "accounts db'" "[]"] obtain accs1' by1' where
    u: "upsert_all now2 ?s (pl_accounts p) (accounts db', []) = Inr (accs1', by1')"
    by blast
  note U = upsert_all_spec [OF assms(3) by_ok_Nil u]
  then have k: "kept (accounts db') accs1'" "accs_ok accs1'" "by_ok ?s accs1' by1'" by blast+
  have same: "\<exists>r'. map_of by1' n = Some r' \<and> acc_id r' = acc_id r" if n: "map_of by1 n = Some r" for n r
  proof -
    have "n \<in> wa_name ` set (pl_accounts p)" using R n by auto
    then obtain r' where r': "map_of by1' n = Some r'" using U by auto
    have "id_of ?s (accounts db') n = Some (acc_id r)" using R n assms(4) by blast
    then have "id_of ?s accs1' n = Some (acc_id r)" by (rule id_of_kept [OF k(1)])
    with by_ok_id [OF k(2,3) r'] r' show ?thesis by simp
  qed
  from assms(2) have "snapshot_rows by1 (pl_accounts p) = Inr rows" by (auto simp: ran_def)
  then have rows: "snapshot_rows by1' (pl_accounts p) = Inr rows" using same by (rule snapshot_rows_transfer)
  from ran_posted [OF assms(1,2)] obtain ts where
    ts: "list_all2 (owned ?s accs2) (pl_posted p) ts" by blast
  have "\<exists>st'. posted_loop H now2 ?s 0 (pl_posted p) (init_posted accs1' by1' db') = Inr st'"
  proof (cases "pl_posted p = []")
    case False
    then obtain r0 where "r0 \<in> set (pl_posted p)" by (cases "pl_posted p") auto
    with list_all2_in [OF ts] have "?s \<noteq> []" by (auto simp: owned_def)
    moreover have "\<forall>r \<in> set (pl_posted p). pr_account r \<noteq> [] \<and> parseDate (pr_date r) \<noteq> None"
      using list_all2_in [OF ts] by (auto simp: owned_def carries_def)
    ultimately show ?thesis by (rule posted_loop_total)
  qed simp
  then obtain st' where l: "posted_loop H now2 ?s 0 (pl_posted p) (init_posted accs1' by1' db') = Inr st'" ..
  from ran_pending [OF assms(1,2)] obtain accsp byp where
    q: "accs_ok accsp" "by_ok ?s accsp byp" "pending_loop now ?s (pl_pending p) (pending_order (pl_pending p))
      (accsp, byp, pendings db) = Inr (accs2, by2, pend)" by blast
  from pending_loop_spec [OF q(1,2) pending_order_distinct q(3)]
  have "\<forall>n \<in> set (pending_order (pl_pending p)). ?s \<noteq> [] \<and> n \<noteq> []"
       "\<forall>r \<in> set (pl_pending p). parseDate (qr_date r) \<noteq> None"
    by simp_all
  from pending_loop_total [OF this, of now2 "ps_accounts st'" "ps_by st'" "pendings db'"] obtain s4 where
    "pending_loop now2 ?s (pl_pending p) (pending_order (pl_pending p))
      (ps_accounts st', ps_by st', pendings db') = Inr s4" ..
  with u rows l show ?thesis unfolding ran_def by blast
qed

section \<open>The unique indexes\<close>

lemma db_ok_parts:
  "db_ok db \<longleftrightarrow> accs_ok (accounts db) \<and>
     (distinct (map snap_id (snapshots db)) \<and> distinct (map snap_key (snapshots db))) \<and>
     (distinct (map txn_id (txns db)) \<and> distinct (map txn_hash (txns db))) \<and>
     distinct (map pend_id (pendings db))"
  by (auto simp: db_ok_def accs_ok_def snap_key_def [abs_def])

lemma ran_watermark:
  assumes "accs_ok (accounts db)" "ran H now db p by1 rows st (accs2, by2, pend)"
    and "watermark_step now (trim_space (pl_source p)) p (accs2, by2) = Inr accs3"
  shows "(\<exists>accs. kept accs2 accs \<and> accs_ok accs \<and>
      accs3 = (case window_mark now p of None \<Rightarrow> accs | Some to \<Rightarrow> mark to (scanned p) accs)) \<and>
    (\<forall>now2 a b. \<exists>r. watermark_step now2 (trim_space (pl_source p)) p (a, b) = Inr r)"
proof -
  note R = ran_accounts [OF assms(1,2)]
  then have "accs_ok accs2" "by_ok (trim_space (pl_source p)) accs2 by2"
    "wa_name ` set (pl_accounts p) \<union> pr_account ` set (pl_posted p) \<subseteq> dom (map_of by2)"
    by blast+
  from watermark_step_spec [OF this refl assms(3)] show ?thesis .
qed

lemma marked_ok: "accs_ok accs \<Longrightarrow> accs_ok (case w of None \<Rightarrow> accs | Some to \<Rightarrow> mark to q accs)"
  by (simp add: accs_ok_mark split: option.split)

lemma committed_accounts:
  assumes "accs_ok (accounts db)" "Ingest H now db p = Inr (db', s)" "\<not> pl_dry_run p"
  shows "\<exists>accs. kept (accounts db) accs \<and> accs_ok accs \<and>
    accounts db' = (case window_mark now p of None \<Rightarrow> accs | Some to \<Rightarrow> mark to (scanned p) accs)"
  using assms(2,3)
proof (rule Ingest_committed)
  fix by1 rows st accs2 by2 pend accs3
  assume r: "ran H now db p by1 rows st (accs2, by2, pend)"
    and w: "watermark_step now (trim_space (pl_source p)) p (accs2, by2) = Inr accs3"
    and e: "db' = \<lparr>accounts = accs3, snapshots = fst (ins_all insert_snapshot rows (snapshots db)),
            txns = ps_txns st, pendings = pend\<rparr>"
  have "kept (accounts db) accs2" using ran_accounts [OF assms(1) r] by blast
  with ran_watermark [OF assms(1) r w] e show ?thesis by (auto intro: kept_trans)
qed

lemma committed_ok:
  assumes "db_ok db" "Ingest H now db p = Inr (db', s)"
  shows "db_ok db'"
proof (cases "pl_dry_run p")
  case True
  with assms show ?thesis
    using Ingest_ran_ex [OF assms(2)] by (auto simp: Ingest_ran Let_def)
next
  case False
  from assms have ok: "accs_ok (accounts db)" by (simp add: db_ok_parts)
  note I = assms(2)
  have accs: "accs_ok (accounts db')"
    using committed_accounts [OF ok I False] marked_ok by auto
  show ?thesis
    using I False
  proof (rule Ingest_committed)
    fix by1 rows st accs2 by2 pend accs3
    assume R: "ran H now db p by1 rows st (accs2, by2, pend)"
      and e: "db' = \<lparr>accounts = accs3, snapshots = fst (ins_all insert_snapshot rows (snapshots db)),
          txns = ps_txns st, pendings = pend\<rparr>"
    from ran_posted [OF ok R] obtain ts where "ps_txns st = fst (ins_all insert_txn ts (txns db))" by blast
    then have "distinct (map txn_id (ps_txns st)) \<and> distinct (map txn_hash (ps_txns st))"
      using assms(1) ins_all_txn_unique by (simp add: db_ok_parts)
    moreover have "distinct (map snap_id (snapshots db')) \<and> distinct (map snap_key (snapshots db'))"
      using assms(1) e ins_all_snapshot_unique by (simp add: db_ok_parts)
    moreover from ran_pending [OF ok R] obtain accsp byp where
      q: "accs_ok accsp" "by_ok (trim_space (pl_source p)) accsp byp"
         "pending_loop now (trim_space (pl_source p)) (pl_pending p) (pending_order (pl_pending p))
           (accsp, byp, pendings db) = Inr (accs2, by2, pend)" by blast
    have "distinct (map pend_id pend)"
      using pending_loop_spec [OF q(1,2) pending_order_distinct q(3)] assms(1) by (simp add: db_ok_parts)
    ultimately show "db_ok db'" using accs e by (simp add: db_ok_parts)
  qed
qed

lemma posted_loop_collisions:
  "posted_loop H now source i rows st = Inr st' \<Longrightarrow>
   ps_collisions st' = ps_collisions st @ dup_at i (posted_hashes H rows (ps_occ st)) (ps_seen st)"
proof (induction rows arbitrary: i st)
  case (Cons row rows)
  then obtain s1 where s1: "posted_step H now source i row st = Inr s1"
      "posted_loop H now source (Suc i) rows s1 = Inr st'"
    by (auto split: sum.splits)
  from s1(1) show ?case
    by (rule posted_step_cases) (use Cons.IH [OF s1(2)] in \<open>simp add: fun_upd_def\<close>)
qed simp

lemma ins_all_txn_new:
  "\<exists>new. fst (ins_all insert_txn ts t) = t @ new \<and> snd (ins_all insert_txn ts t) = length new \<and>
     (\<forall>x \<in> set new. \<exists>x0 \<in> set ts. x = x0\<lparr>txn_id := txn_id x\<rparr>)"
proof (induction ts arbitrary: t)
  case (Cons a ts)
  let ?t1 = "fst (insert_txn a t)"
  from Cons.IH [of ?t1] obtain new where new: "fst (ins_all insert_txn ts ?t1) = ?t1 @ new"
      "snd (ins_all insert_txn ts ?t1) = length new"
      "\<forall>x \<in> set new. \<exists>x0 \<in> set ts. x = x0\<lparr>txn_id := txn_id x\<rparr>" by blast
  have eq: "fst (ins_all insert_txn (a # ts) t) = fst (ins_all insert_txn ts ?t1)"
      "snd (ins_all insert_txn (a # ts) t) =
         (if snd (insert_txn a t) then Suc else id) (snd (ins_all insert_txn ts ?t1))"
    by (auto split: prod.splits)
  show ?case
  proof (cases "txn_hash a \<in> set (map txn_hash t)")
    case True
    then have "insert_txn a t = (t, False)" by (simp add: insert_txn_def)
    with new eq show ?thesis by auto
  next
    case False
    let ?a = "a\<lparr>txn_id := fresh_id (map txn_id t)\<rparr>"
    from False have i: "insert_txn a t = (t @ [?a], True)" by (simp add: insert_txn_def)
    have "?a = a\<lparr>txn_id := txn_id ?a\<rparr>" by simp
    with new eq i show ?thesis by (intro exI [of _ "?a # new"]) auto
  qed
qed simp

text \<open>Ids survive from the end of step 4 to the committed table.\<close>

lemma run_ids:
  assumes "accs_ok (accounts db)" "ran H now db p by1 rows st (accs2, by2, pend)"
    and "watermark_step now (trim_space (pl_source p)) p (accs2, by2) = Inr accs3"
    and "id_of s accs2 n = Some i"
  shows "id_of s accs3 n = Some i"
proof -
  from ran_watermark [OF assms(1-3)] obtain accs where a: "kept accs2 accs"
    "accs3 = (case window_mark now p of None \<Rightarrow> accs | Some to \<Rightarrow> mark to (scanned p) accs)"
    by blast
  with id_of_kept [OF a(1) assms(4)] show ?thesis by (simp add: id_of_mark split: option.split)
qed

lemma upsert_all_errors:
  "upsert_all now source as s = Inl e \<Longrightarrow> \<exists>n. e = InvalidAccount n"
  by (induction now source as s rule: upsert_all.induct)
     (auto simp: upsertAccount_eq Let_def split: sum.splits if_splits option.splits)

lemma resolve_errors: "resolve now source n s = Inl e \<Longrightarrow> e = InvalidAccount n"
  by (auto simp: resolve_def placeholderAccount_eq Let_def split: prod.splits option.splits sum.splits if_splits)

lemma snapshot_rows_errors: "snapshot_rows by as = Inl e \<Longrightarrow> \<exists>n. e = InvalidAsOf n"
  by (induction as) (auto split: option.splits sum.splits)

lemma posted_loop_errors:
  "posted_loop H now source i rows st = Inl e \<Longrightarrow> \<exists>n. e = InvalidAccount n \<or> e = InvalidPostedDate n"
proof (induction rows arbitrary: i st)
  case (Cons r rows)
  then show ?case
    by (cases "posted_step H now source i r st")
       (auto simp: posted_step_def Let_def split: sum.splits option.splits prod.splits dest: resolve_errors)
qed simp

lemma insert_pendings_errors: "insert_pendings n i rows ps = Inl e \<Longrightarrow> e = InvalidPendingDate n"
  by (induction rows arbitrary: ps) (auto split: option.splits)

lemma pending_loop_errors:
  "pending_loop now source rows names s = Inl e \<Longrightarrow> \<exists>n. e = InvalidAccount n \<or> e = InvalidPendingDate n"
  by (induction now source rows names s rule: pending_loop.induct)
     (auto split: sum.splits prod.splits dest: resolve_errors insert_pendings_errors)

lemma watermark_step_errors:
  "watermark_step now source p s = Inl e \<Longrightarrow> e = InvalidWindowTo \<or> (\<exists>n. e = InvalidAccount n)"
  by (auto simp: watermark_step_def Let_def split: option.splits if_splits sum.splits dest: resolve_errors)

lemma Ingest_unreconciled:
  assumes "Ingest H now db p = Inl (Unreconciled s)"
  obtains by1 rows st s4 where "ran H now db p by1 rows st s4"
    "mismatched p \<or> ps_collisions st \<noteq> []"
    "s = run_summary p (snd (ins_all insert_snapshot rows (snapshots db))) st"
proof -
  have "\<exists>by1 rows st accs2 by2 pend. ran H now db p by1 rows st (accs2, by2, pend)"
    using assms
    by (auto simp: Ingest_def Let_def ran_def init_posted_def split: sum.splits prod.splits
        dest: upsert_all_errors snapshot_rows_errors posted_loop_errors pending_loop_errors)
  then obtain by1 rows st accs2 by2 pend where r: "ran H now db p by1 rows st (accs2, by2, pend)" by blast
  from assms show ?thesis
    unfolding Ingest_ran [OF r] Let_def
    by (auto split: if_splits sum.splits dest: watermark_step_errors intro: that [OF r])
qed

lemma reingest:
  assumes "db_ok db" "Ingest H now db p = Inr (db1, s1)" "\<not> pl_dry_run p"
  shows "\<exists>db2 s2. Ingest H now2 db1 p = Inr (db2, s2) \<and> txns db2 = txns db1 \<and>
    snapshots db2 = snapshots db1 \<and> sum_inserted s2 = 0 \<and> sum_snapshots s2 = 0 \<and>
    sum_skipped s2 = length (pl_posted p)"
  using assms(2,3)
proof (rule Ingest_committed)
  fix by1 rows st accs2 by2 pend accs3
  assume R: "ran H now db p by1 rows st (accs2, by2, pend)" and m: "\<not> mismatched p"
    and c: "ps_collisions st = []"
    and w: "watermark_step now (trim_space (pl_source p)) p (accs2, by2) = Inr accs3"
    and e: "db1 = \<lparr>accounts = accs3, snapshots = fst (ins_all insert_snapshot rows (snapshots db)),
            txns = ps_txns st, pendings = pend\<rparr>"
  have ok: "accs_ok (accounts db)" using assms(1) by (simp add: db_ok_parts)
  from ran_watermark [OF ok R w] obtain accs where
    a: "kept accs2 accs" "accs_ok accs"
       "accs3 = (case window_mark now p of None \<Rightarrow> accs | Some to \<Rightarrow> mark to (scanned p) accs)"
    by blast
  have ok1: "accs_ok (accounts db1)" using a marked_ok e by simp
  have ids: "id_of (trim_space (pl_source p)) (accounts db1) n = Some i"
    if "id_of (trim_space (pl_source p)) accs2 n = Some i" for n i
    using id_of_kept [OF a(1) that] a(3) e by (simp add: id_of_mark split: option.split)
  from ran_again [OF ok R ok1 ids] obtain by1' st' accs2' by2' pend' where
    R': "ran H now2 db1 p by1' rows st' (accs2', by2', pend')" by (metis prod_cases3)
  from ran_posted [OF ok R] obtain ts where ts:
    "map txn_hash ts = posted_hashes H (pl_posted p) (\<lambda>_. 0)"
    "ps_txns st = fst (ins_all insert_txn ts (txns db))"
    "ps_collisions st = dup_at 0 (posted_hashes H (pl_posted p) (\<lambda>_. 0)) []" by blast
  from ran_posted [OF ok1 R'] obtain ts' where ts':
    "map txn_hash ts' = posted_hashes H (pl_posted p) (\<lambda>_. 0)"
    "ps_txns st' = fst (ins_all insert_txn ts' (txns db1))"
    "ps_inserted st' = snd (ins_all insert_txn ts' (txns db1))"
    "ps_inserted st' + ps_skipped st' = length (pl_posted p)"
    "ps_collisions st' = dup_at 0 (posted_hashes H (pl_posted p) (\<lambda>_. 0)) []" by blast
  have "txn_hash ` set ts' = txn_hash ` set ts" using ts(1) ts'(1) by (metis set_map)
  then have "txn_hash ` set ts' \<subseteq> txn_keys (txns db1)"
    using e ts(2) ledger.all_keys [of ts "txns db"] by simp
  then have l: "ins_all insert_txn ts' (txns db1) = (txns db1, 0)" by (rule ledger.all_taken)
  have s: "ins_all insert_snapshot rows (snapshots db1) = (snapshots db1, 0)"
    using e readings.all_twice [of rows "snapshots db"] by simp
  from ran_watermark [OF ok R w] obtain accs3' where
    "watermark_step now2 (trim_space (pl_source p)) p (accs2', by2') = Inr accs3'" by blast
  then show ?thesis
    using assms(3) m c ts(3) ts' l s by (simp add: Ingest_ran [OF R'] Let_def)
qed

section \<open>Properties\<close>

text \<open>A concrete run: one declared account with a reading, two identical posted rows and one
  pending row, with the identity for the digest.\<close>

definition ex_now :: instant where "ex_now = at_day (go_date 2025 7 20)"

definition ex_payload :: payload where
  "ex_payload = \<lparr>pl_source = '' CBA '',
     pl_window = Some \<lparr>ww_from = ''2025-07-01'', ww_to = ''2025-07-14'', ww_account = None\<rparr>,
     pl_accounts = [\<lparr>wa_masked = None, wa_name = ''Smart'', wa_type = ''everyday'', wa_class = ''asset'',
       wa_currency = [], wa_product = None, wa_guessed = False,
       wa_balance = Some \<lparr>wb_balance = f64 (195790 / 100), wb_available = None, wb_limit = None,
         wb_as_of = ''2025-07-14T09:00:00Z''\<rparr>\<rparr>],
     pl_posted = [\<lparr>pr_account = ''Smart'', pr_date = ''2025-07-10'', pr_amount = f64 (- 4210 / 100),
       pr_raw = ''-$42.10'', pr_desc = ''SUPERMARKET'', pr_merchant = None, pr_after = None\<rparr>,
       \<lparr>pr_account = ''Smart'', pr_date = ''2025-07-10'', pr_amount = f64 (- 4210 / 100),
       pr_raw = ''-$42.10'', pr_desc = ''SUPERMARKET'', pr_merchant = None, pr_after = None\<rparr>],
     pl_pending = [\<lparr>qr_account = ''Smart'', qr_date = ''2025-07-14'', qr_amount = f64 (- 5),
       qr_raw = ''-$5.00'', qr_desc = ''COFFEE'', qr_merchant = None\<rparr>],
     pl_expected = Some 2, pl_dry_run = False\<rparr>"

lemma ex_committed: "\<exists>db' s. Ingest (\<lambda>s. s) ex_now empty_db ex_payload = Inr (db', s)"
proof -
  have "case Ingest (\<lambda>s. s) ex_now empty_db ex_payload of Inl _ \<Rightarrow> False | Inr _ \<Rightarrow> True"
    by code_simp
  then show ?thesis by (auto split: sum.splits)
qed

lemma ex_facts: "db_ok empty_db" "\<not> pl_dry_run ex_payload" "txns empty_db = []"
  by (simp_all add: db_ok_def empty_db_def ex_payload_def)

lemma ex_again:
  "Ingest (\<lambda>s. s) ex_now empty_db ex_payload = Inr (db1, s1) \<Longrightarrow>
   \<exists>db2 s2. Ingest (\<lambda>s. s) ex_now db1 ex_payload = Inr (db2, s2)"
  using reingest [OF ex_facts(1) _ ex_facts(2)] by blast

lemma ex_accounts:
  assumes "Ingest (\<lambda>s. s) ex_now empty_db ex_payload = Inr (db1, s1)"
  shows "accounts db1 \<noteq> []"
  using assms ex_facts(2)
proof (rule Ingest_committed)
  fix by1 rows st accs2 by2 pend accs3
  assume R: "ran (\<lambda>s. s) ex_now empty_db ex_payload by1 rows st (accs2, by2, pend)"
    and w: "watermark_step ex_now (trim_space (pl_source ex_payload)) ex_payload (accs2, by2) = Inr accs3"
    and d: "db1 = \<lparr>accounts = accs3, snapshots = fst (ins_all insert_snapshot rows (snapshots empty_db)),
          txns = ps_txns st, pendings = pend\<rparr>"
  have ok: "accs_ok (accounts empty_db)" using ex_facts(1) by (simp add: db_ok_parts)
  have "''Smart'' \<in> dom (map_of by2)" "by_ok (trim_space (pl_source ex_payload)) accs2 by2"
    using ran_accounts [OF ok R] by (auto simp: ex_payload_def)
  then have "accs2 \<noteq> []" by (auto simp: by_ok_def)
  with ran_watermark [OF ok R w] d show "accounts db1 \<noteq> []"
    by (auto simp: kept_def mark_def update_where_def split: option.splits)
qed



text \<open>C1: ingest is idempotent.  Once a payload has been committed, delivering it again (at any
  later time) succeeds, adds no ledger row and no balance reading, and reports every posted row
  as a duplicate.\<close>

theorem ingest_idempotent:
  assumes "db_ok db" "Ingest H now db p = Inr (db1, s1)" "\<not> pl_dry_run p"
  shows "\<exists>db2 s2. Ingest H now2 db1 p = Inr (db2, s2) \<and> txns db2 = txns db1 \<and>
    snapshots db2 = snapshots db1 \<and> sum_inserted s2 = 0 \<and> sum_snapshots s2 = 0 \<and>
    sum_skipped s2 = length (pl_posted p)"
  using assms by (rule reingest)

theorem ingest_idempotent_witness:
  "\<exists>db1 s1 db2 s2. Ingest (\<lambda>s. s) ex_now empty_db ex_payload = Inr (db1, s1) \<and>
     Ingest (\<lambda>s. s) ex_now db1 ex_payload = Inr (db2, s2) \<and> txns db2 = txns db1 \<and> sum_skipped s2 = 2"
proof -
  from ex_committed obtain db1 s1 where e: "Ingest (\<lambda>s. s) ex_now empty_db ex_payload = Inr (db1, s1)"
    by blast
  have "length (pl_posted ex_payload) = 2" by (simp add: ex_payload_def)
  with e ingest_idempotent [OF ex_facts(1) e ex_facts(2), of ex_now] show ?thesis by auto
qed

text \<open>C3: a run changes the database only when it reconciled: it is not a dry run, the declared
  row count, when there is one, is the number of posted rows that arrived, and no two rows of the
  payload share a dedup hash.\<close>

theorem ingest_commits_only_reconciled:
  assumes "ingest_db H now db p \<noteq> db"
  shows "\<not> pl_dry_run p \<and> (\<forall>n. pl_expected p = Some n \<longrightarrow> n = int (length (pl_posted p))) \<and>
    distinct (posted_hashes H (pl_posted p) (\<lambda>_. 0))"
proof (cases "Ingest H now db p")
  case (Inl e)
  with assms show ?thesis by (simp add: ingest_db_def)
next
  case (Inr x)
  obtain db' s where I: "Ingest H now db p = Inr (db', s)" using Inr by (cases x) simp
  have dry: "\<not> pl_dry_run p"
    using assms Ingest_ran_ex [OF Inr] by (auto simp: ingest_db_def Ingest_ran Let_def)
  show ?thesis
    using I dry
  proof (rule Ingest_committed)
    fix by1 rows st accs2 by2 pend
    assume R: "ran H now db p by1 rows st (accs2, by2, pend)" and m: "\<not> mismatched p"
      and c: "ps_collisions st = []"
    have "ps_collisions st = dup_at 0 (posted_hashes H (pl_posted p) (\<lambda>_. 0)) []"
      using R by (auto simp: ran_def dest: posted_loop_collisions)
    with c have "distinct (posted_hashes H (pl_posted p) (\<lambda>_. 0))" by (simp add: dup_at_none_conv)
    with dry m show ?thesis by (auto simp: mismatched_def split: option.splits)
  qed
qed

theorem ingest_commits_only_reconciled_witness:
  "distinct (posted_hashes (\<lambda>s. s) (pl_posted ex_payload) (\<lambda>_. 0)) \<and>
   ingest_db (\<lambda>s. s) ex_now empty_db ex_payload \<noteq> empty_db"
proof -
  from ex_committed obtain db1 s1 where e: "Ingest (\<lambda>s. s) ex_now empty_db ex_payload = Inr (db1, s1)"
    by blast
  have "map_of [] n = None" for n :: string by simp
  from e ex_facts(2) have "accounts db1 \<noteq> []"
  proof (rule Ingest_committed)
    fix by1 rows st accs2 by2 pend accs3
    assume R: "ran (\<lambda>s. s) ex_now empty_db ex_payload by1 rows st (accs2, by2, pend)"
      and w: "watermark_step ex_now (trim_space (pl_source ex_payload)) ex_payload (accs2, by2) = Inr accs3"
      and d: "db1 = \<lparr>accounts = accs3, snapshots = fst (ins_all insert_snapshot rows (snapshots empty_db)),
            txns = ps_txns st, pendings = pend\<rparr>"
    have ok: "accs_ok (accounts empty_db)" using ex_facts(1) by (simp add: db_ok_parts)
    have "''Smart'' \<in> dom (map_of by2)" "by_ok (trim_space (pl_source ex_payload)) accs2 by2"
      using ran_accounts [OF ok R] by (auto simp: ex_payload_def)
    then have "accs2 \<noteq> []" by (auto simp: by_ok_def)
    with ran_watermark [OF ok R w] d show "accounts db1 \<noteq> []"
      by (auto simp: kept_def mark_def update_where_def split: option.splits)
  qed
  with e have "ingest_db (\<lambda>s. s) ex_now empty_db ex_payload \<noteq> empty_db"
    by (auto simp: ingest_db_def empty_db_def)
  with ingest_commits_only_reconciled [OF this] show ?thesis by blast
qed

text \<open>C4: the ledger is append-only, its hashes after a committed run are the old ones and those
  of the payload's rows (each canonical key with the ordinals below its multiplicity in the
  payload), every new row carries a posted row of the payload under that row's account, and the
  two tallies add up to the rows received.\<close>

theorem ingest_ledger:
  assumes "db_ok db" "Ingest H now db p = Inr (db', s)" "\<not> pl_dry_run p"
  shows "\<exists>new. txns db' = txns db @ new \<and>
    txn_keys (txns db') = txn_keys (txns db) \<union> H ` key_set (pl_posted p) (\<lambda>_. 0) \<and>
    (\<forall>t \<in> set new. \<exists>row \<in> set (pl_posted p). carries row t \<and>
       id_of (trim_space (pl_source p)) (accounts db') (pr_account row) = Some (txn_account t)) \<and>
    sum_inserted s = length new \<and> sum_inserted s + sum_skipped s = length (pl_posted p)"
  using assms(2,3)
proof (rule Ingest_committed)
  fix by1 rows st accs2 by2 pend accs3
  assume R: "ran H now db p by1 rows st (accs2, by2, pend)"
    and w: "watermark_step now (trim_space (pl_source p)) p (accs2, by2) = Inr accs3"
    and e: "db' = \<lparr>accounts = accs3, snapshots = fst (ins_all insert_snapshot rows (snapshots db)),
            txns = ps_txns st, pendings = pend\<rparr>"
    and s: "s = run_summary p (snd (ins_all insert_snapshot rows (snapshots db))) st"
  have ok: "accs_ok (accounts db)" using assms(1) by (simp add: db_ok_parts)
  from ran_posted [OF ok R] obtain ts where ts:
    "list_all2 (owned (trim_space (pl_source p)) accs2) (pl_posted p) ts"
    "map txn_hash ts = posted_hashes H (pl_posted p) (\<lambda>_. 0)"
    "ps_txns st = fst (ins_all insert_txn ts (txns db))"
    "ps_inserted st = snd (ins_all insert_txn ts (txns db))"
    "ps_inserted st + ps_skipped st = length (pl_posted p)" by blast
  obtain new where new: "txns db' = txns db @ new" "snd (ins_all insert_txn ts (txns db)) = length new"
    "\<forall>t \<in> set new. \<exists>t0 \<in> set ts. t = t0\<lparr>txn_id := txn_id t\<rparr>"
    using ins_all_txn_new [of ts "txns db"] e ts(3) by auto
  have "txn_hash ` set ts = H ` key_set (pl_posted p) (\<lambda>_. 0)"
    using ts(2) posted_hashes_set [of H "pl_posted p" "\<lambda>_. 0"] by (metis set_map)
  then have keys: "txn_keys (txns db') = txn_keys (txns db) \<union> H ` key_set (pl_posted p) (\<lambda>_. 0)"
    using e ts(3) by (simp add: ledger.all_keys)
  have "\<exists>row \<in> set (pl_posted p). carries row t \<and>
      id_of (trim_space (pl_source p)) (accounts db') (pr_account row) = Some (txn_account t)"
    if "t \<in> set new" for t
  proof -
    from new(3) that obtain t0 where t0: "t0 \<in> set ts" "t = t0\<lparr>txn_id := txn_id t\<rparr>" by blast
    from list_all2_in' [OF ts(1) t0(1)] obtain row where
      row: "row \<in> set (pl_posted p)" "owned (trim_space (pl_source p)) accs2 row t0" by blast
    have "txn_account t = txn_account t0" using t0(2) by (metis txn.select_convs(2) txn.surjective txn.update_convs(1))
    moreover have "carries row t = carries row t0"
      by (subst t0(2)) (simp add: carries_def)
    moreover have "id_of (trim_space (pl_source p)) accs2 (pr_account row) = Some (txn_account t0)"
      using row(2) by (auto simp: owned_def id_of_def)
    ultimately show ?thesis
      using row run_ids [OF ok R w] e by (auto simp: owned_def)
  qed
  with new keys s ts(4,5) show ?thesis by auto
qed

theorem ingest_ledger_witness:
  "\<exists>db' s. Ingest (\<lambda>s. s) ex_now empty_db ex_payload = Inr (db', s) \<and>
     txn_keys (txns db') = (\<lambda>s. s) ` key_set (pl_posted ex_payload) (\<lambda>_. 0)"
proof -
  from ex_committed obtain db1 s1 where e: "Ingest (\<lambda>s. s) ex_now empty_db ex_payload = Inr (db1, s1)"
    by blast
  have "txn_keys (txns empty_db) = {}" by (simp add: ex_facts txn_keys_def)
  with e ingest_ledger [OF ex_facts(1) e ex_facts(2)] show ?thesis by auto
qed

text \<open>C5: genuinely distinct rows never collapse.  If the digest does not collide on the keys of
  the payload, no run is refused for a collision, and a committed run whose keys are new to the
  ledger inserts one row per posted row, identical rows included.\<close>

theorem ingest_keeps_every_row:
  assumes "inj_on H (key_set (pl_posted p) (\<lambda>_. 0))"
  shows "distinct (posted_hashes H (pl_posted p) (\<lambda>_. 0)) \<and>
    (\<forall>s. Ingest H now db p = Inl (Unreconciled s) \<longrightarrow> sum_collisions s = [] \<and> sum_expected_mismatch s) \<and>
    (\<forall>db' s. db_ok db \<longrightarrow> \<not> pl_dry_run p \<longrightarrow> Ingest H now db p = Inr (db', s) \<longrightarrow>
       txn_keys (txns db) \<inter> H ` key_set (pl_posted p) (\<lambda>_. 0) = {} \<longrightarrow>
       sum_inserted s = length (pl_posted p))"
proof (intro conjI allI impI)
  from no_collision [OF assms, of 0] show d: "distinct (posted_hashes H (pl_posted p) (\<lambda>_. 0))"
    by (simp add: dup_at_none_conv)
  {
    fix s assume "Ingest H now db p = Inl (Unreconciled s)"
    then obtain by1 rows st s4 where R: "ran H now db p by1 rows st s4" and
      m: "mismatched p \<or> ps_collisions st \<noteq> []"
      and s: "s = run_summary p (snd (ins_all insert_snapshot rows (snapshots db))) st"
      by (rule Ingest_unreconciled)
    from R have "ps_collisions st = dup_at 0 (posted_hashes H (pl_posted p) (\<lambda>_. 0)) []"
      by (auto simp: ran_def dest: posted_loop_collisions)
    with no_collision [OF assms] m s show "sum_collisions s = []" "sum_expected_mismatch s"
      by (simp_all add: run_summary_def)
  next
    fix db' s
    assume ok: "db_ok db" and dry: "\<not> pl_dry_run p" and I: "Ingest H now db p = Inr (db', s)"
      and new: "txn_keys (txns db) \<inter> H ` key_set (pl_posted p) (\<lambda>_. 0) = {}"
    from I dry show "sum_inserted s = length (pl_posted p)"
    proof (rule Ingest_committed)
      fix by1 rows st accs2 by2 pend
      assume R: "ran H now db p by1 rows st (accs2, by2, pend)"
        and s: "s = run_summary p (snd (ins_all insert_snapshot rows (snapshots db))) st"
      have "accs_ok (accounts db)" using ok by (simp add: db_ok_parts)
      from ran_posted [OF this R] obtain ts where ts:
        "list_all2 (owned (trim_space (pl_source p)) accs2) (pl_posted p) ts"
        "map txn_hash ts = posted_hashes H (pl_posted p) (\<lambda>_. 0)"
        "ps_inserted st = snd (ins_all insert_txn ts (txns db))" by blast
      have "txn_hash ` set ts = H ` key_set (pl_posted p) (\<lambda>_. 0)"
        using ts(2) posted_hashes_set [of H "pl_posted p" "\<lambda>_. 0"] by (metis set_map)
      then have "txn_hash t \<notin> txn_keys (txns db)" if "t \<in> set ts" for t
        using new that by (metis IntI empty_iff imageI)
      then have "filter (\<lambda>t. txn_hash t \<notin> txn_keys (txns db)) ts = ts"
        by (simp add: filter_id_conv)
      with ledger.all_count [of ts "txns db"] ts(2) d have "ps_inserted st = length ts"
        using ts(3) by simp
      with s list_all2_lengthD [OF ts(1)] show "sum_inserted s = length (pl_posted p)" by simp
    qed
  }
qed

theorem ingest_keeps_every_row_witness:
  "\<exists>db' s. Ingest (\<lambda>s. s) ex_now empty_db ex_payload = Inr (db', s) \<and> sum_inserted s = 2"
proof -
  from ex_committed obtain db1 s1 where e: "Ingest (\<lambda>s. s) ex_now empty_db ex_payload = Inr (db1, s1)"
    by blast
  have "length (pl_posted ex_payload) = 2" by (simp add: ex_payload_def)
  with e ingest_keeps_every_row [OF inj_on_id2, of ex_payload ex_now empty_db] ex_facts
  show ?thesis by (simp add: txn_keys_def)
qed

text \<open>what the bank does not own survives.  Every stored account keeps its id, identity,
  description, drawdown policy and creation time through a run, and its completeness watermark
  becomes the window's end clamped to today exactly when the run scanned it (or it is the
  nominated account) and that moves it forward.\<close>

theorem ingest_account_columns:
  assumes "db_ok db" "Ingest H now db p = Inr (db', s)" "\<not> pl_dry_run p" "r \<in> set (accounts db)"
  shows "\<exists>r' \<in> set (accounts db').
    acc_id r' = acc_id r \<and> acc_source r' = acc_source r \<and> acc_name r' = acc_name r \<and>
    acc_description r' = acc_description r \<and> acc_drawdown r' = acc_drawdown r \<and>
    acc_created r' = acc_created r \<and>
    acc_watermark r' = (case window_mark now p of
                          None \<Rightarrow> acc_watermark r
                        | Some to \<Rightarrow> if scanned p r then max (acc_watermark r) (Some to)
                                     else acc_watermark r)"
proof -
  have ok: "accs_ok (accounts db)" using assms(1) by (simp add: db_ok_parts)
  from committed_accounts [OF ok assms(2,3)] obtain accs where
    a: "kept (accounts db) accs"
       "accounts db' = (case window_mark now p of None \<Rightarrow> accs | Some to \<Rightarrow> mark to (scanned p) accs)"
    by blast
  from kept_row [OF a(1) assms(4)] obtain r1 where r1: "r1 \<in> set accs" "row_kept r r1" by blast
  then have "acc_source r1 = acc_source r" "acc_name r1 = acc_name r" by (simp_all add: row_kept_def)
  then have sc: "scanned p r1 = scanned p r" unfolding scanned_def by (simp only:)
  show ?thesis
  proof (cases "window_mark now p")
    case None
    with a(2) r1 show ?thesis by (auto simp: row_kept_def)
  next
    case (Some to)
    let ?r = "if scanned p r1 then r1\<lparr>acc_watermark := max (acc_watermark r1) (Some to)\<rparr> else r1"
    have "?r \<in> set (accounts db')" using a(2) Some r1(1) by (auto simp: mark_def in_update_where)
    with r1(2) sc Some show ?thesis by (intro bexI [of _ ?r]) (auto simp: row_kept_def)
  qed
qed

theorem ingest_account_columns_witness:
  "\<exists>db1 s1 db2 s2. Ingest (\<lambda>s. s) ex_now empty_db ex_payload = Inr (db1, s1) \<and>
     Ingest (\<lambda>s. s) ex_now db1 ex_payload = Inr (db2, s2) \<and> accounts db1 \<noteq> [] \<and>
     (\<exists>r' \<in> set (accounts db2). acc_created r' = acc_created (hd (accounts db1)))"
proof -
  from ex_committed obtain db1 s1 where e: "Ingest (\<lambda>s. s) ex_now empty_db ex_payload = Inr (db1, s1)"
    by blast
  from ex_again [OF e] obtain db2 s2 where e2: "Ingest (\<lambda>s. s) ex_now db1 ex_payload = Inr (db2, s2)" by blast
  have ok: "db_ok db1" using committed_ok [OF ex_facts(1) e] .
  have ne: "accounts db1 \<noteq> []" by (rule ex_accounts [OF e])
  from ingest_account_columns [OF ok e2 ex_facts(2), of "hd (accounts db1)"] ne e e2 show ?thesis
    by auto
qed

text \<open>pending rows are a replace-set.  After a committed run every account named in the
  pending payload holds exactly the payload's rows for it, in payload order, and the pending rows
  of every other account are untouched.\<close>

theorem ingest_pending_replaced:
  assumes "db_ok db" "Ingest H now db p = Inr (db', s)" "\<not> pl_dry_run p"
  shows "(\<forall>n \<in> qr_account ` set (pl_pending p).
       \<exists>i. id_of (trim_space (pl_source p)) (accounts db') n = Some i \<and>
         list_all2 shows_pending (filter (\<lambda>r. qr_account r = n) (pl_pending p))
           (filter (\<lambda>q. pend_account q = i) (pendings db'))) \<and>
    (\<forall>i. Some i \<notin> id_of (trim_space (pl_source p)) (accounts db') ` qr_account ` set (pl_pending p) \<longrightarrow>
       filter (\<lambda>q. pend_account q = i) (pendings db') = filter (\<lambda>q. pend_account q = i) (pendings db))"
  using assms(2,3)
proof (rule Ingest_committed)
  fix by1 rows st accs2 by2 pend accs3
  assume R: "ran H now db p by1 rows st (accs2, by2, pend)"
    and w: "watermark_step now (trim_space (pl_source p)) p (accs2, by2) = Inr accs3"
    and e: "db' = \<lparr>accounts = accs3, snapshots = fst (ins_all insert_snapshot rows (snapshots db)),
            txns = ps_txns st, pendings = pend\<rparr>"
  let ?s = "trim_space (pl_source p)"
  have ok: "accs_ok (accounts db)" using assms(1) by (simp add: db_ok_parts)
  from ran_pending [OF ok R] obtain accsp byp where
    q: "accs_ok accsp" "by_ok ?s accsp byp"
       "pending_loop now ?s (pl_pending p) (pending_order (pl_pending p))
         (accsp, byp, pendings db) = Inr (accs2, by2, pend)" by blast
  note P = pending_loop_spec [OF q(1,2) pending_order_distinct q(3), unfolded pending_order_set]
  have ids: "id_of ?s (accounts db') n = Some (acc_id a)" if "find_account ?s n accs2 = Some a" for n a
    using run_ids [OF ok R w, of ?s n "acc_id a"] that e by (simp add: id_of_def)
  show ?thesis
  proof (intro conjI ballI allI impI)
    fix n assume "n \<in> qr_account ` set (pl_pending p)"
    with P obtain a where "find_account ?s n accs2 = Some a"
       "list_all2 shows_pending (filter (\<lambda>r. qr_account r = n) (pl_pending p))
         (filter (\<lambda>q. pend_account q = acc_id a) pend)" by blast
    with ids e show "\<exists>i. id_of ?s (accounts db') n = Some i \<and>
         list_all2 shows_pending (filter (\<lambda>r. qr_account r = n) (pl_pending p))
           (filter (\<lambda>q. pend_account q = i) (pendings db'))"
      by (intro exI [of _ "acc_id a"]) simp
  next
    fix i assume i: "Some i \<notin> id_of ?s (accounts db') ` qr_account ` set (pl_pending p)"
    have "\<forall>n \<in> qr_account ` set (pl_pending p). \<forall>a. find_account ?s n accs2 = Some a \<longrightarrow> acc_id a \<noteq> i"
    proof (intro ballI allI impI notI)
      fix n a assume "n \<in> qr_account ` set (pl_pending p)" "find_account ?s n accs2 = Some a" "acc_id a = i"
      with ids have "Some i \<in> id_of ?s (accounts db') ` qr_account ` set (pl_pending p)"
        by (metis imageI)
      with i show False ..
    qed
    with P e show "filter (\<lambda>q. pend_account q = i) (pendings db') =
        filter (\<lambda>q. pend_account q = i) (pendings db)"
      by simp
  qed
qed

theorem ingest_pending_replaced_witness:
  "\<exists>db' s i. Ingest (\<lambda>s. s) ex_now empty_db ex_payload = Inr (db', s) \<and>
     length (filter (\<lambda>q. pend_account q = i) (pendings db')) = 1"
proof -
  from ex_committed obtain db1 s1 where e: "Ingest (\<lambda>s. s) ex_now empty_db ex_payload = Inr (db1, s1)"
    by blast
  from ingest_pending_replaced [OF ex_facts(1) e ex_facts(2)] obtain i where
    "list_all2 shows_pending (filter (\<lambda>r. qr_account r = ''Smart'') (pl_pending ex_payload))
      (filter (\<lambda>q. pend_account q = i) (pendings db1))" by (auto simp: ex_payload_def)
  then have "length (filter (\<lambda>q. pend_account q = i) (pendings db1)) = 1"
    by (auto dest!: list_all2_lengthD simp: ex_payload_def)
  with e show ?thesis by blast
qed

end
