(* ===== verification/Cadence.thy ===== *)
theory Cadence
  imports FinanceDates
begin

text \<open>
  The occurrence generator of \<open>internal/finance/bills.go\<close>: due dates derived from a cadence and
  an anchor date, in both directions.  The generator is shown to be an instance of \<open>grid\<close>, a
  strictly increasing integer-indexed sequence with bounded steps, and the searches over it are
  specified against that.
\<close>

datatype cadence = Weekly | Fortnightly | Monthly | Quarterly | Annual

definition cadenceStep :: "cadence \<Rightarrow> int \<times> int" where
  "cadenceStep c =
     (case c of Weekly \<Rightarrow> (7, 0) | Fortnightly \<Rightarrow> (14, 0) | Quarterly \<Rightarrow> (0, 3)
      | Annual \<Rightarrow> (0, 12) | Monthly \<Rightarrow> (0, 1))"

definition daysInMonth :: "int \<Rightarrow> int \<Rightarrow> int" where
  "daysInMonth y m = mday_of (go_date y (m + 1) 0)"

definition addMonthsClamped :: "instant \<Rightarrow> int \<Rightarrow> instant" where
  "addMonthsClamped t n =
     (let u = day_of (normalizeDate t);
          first = day_of (add_date (at_day (go_date (year_of u) (month_of u) 1)) 0 n 0);
          last = daysInMonth (year_of first) (month_of first);
          day = (if mday_of u > last then last else mday_of u)
      in at_day (go_date (year_of first) (month_of first) day))"

definition occurrenceAt :: "instant \<Rightarrow> cadence \<Rightarrow> int \<Rightarrow> instant" where
  "occurrenceAt anchor c n =
     (let days = fst (cadenceStep c); months = snd (cadenceStep c)
      in if days > 0 then add_date (normalizeDate anchor) 0 0 (n * days)
        else addMonthsClamped anchor (n * months))"

definition ceilDiv :: "int \<Rightarrow> int \<Rightarrow> int" where
  "ceilDiv a b = (let q = quot a b in if rem a b > 0 then q + 1 else q)"

section \<open>Grids\<close>

locale grid =
  fixes occ :: "int \<Rightarrow> instant" and gap top :: int
  assumes gap_pos: "0 < gap"
    and step_lower: "occ n + gap \<le> occ (n + 1)"
    and step_upper: "occ (n + 1) \<le> occ n + top"
begin

lemma steps_lower: "occ n + int k * gap \<le> occ (n + int k)"
proof (induction k)
  case (Suc k)
  have "occ (n + int k) + gap \<le> occ (n + int (Suc k))"
    using step_lower [of "n + int k"] by (simp add: add.commute add.left_commute)
  with Suc show ?case by (simp add: algebra_simps)
qed simp

lemma mono_gap: "i < j \<Longrightarrow> occ i + gap \<le> occ j"
proof -
  assume "i < j"
  then obtain k where j: "j = i + int (Suc k)" using zless_iff_Suc_zadd by auto
  have "gap \<le> int (Suc k) * gap" using gap_pos by (simp add: algebra_simps)
  then have "occ i + gap \<le> occ i + int (Suc k) * gap" by (rule add_left_mono)
  also have "\<dots> \<le> occ j" unfolding j by (rule steps_lower)
  finally show ?thesis .
qed

lemma strict: "i < j \<Longrightarrow> occ i < occ j"
  using mono_gap [of i j] gap_pos by linarith

lemma less_iff: "occ i < occ j \<longleftrightarrow> i < j"
  using strict [of i j] strict [of j i] by (cases i j rule: linorder_cases) auto

lemma le_iff: "occ i \<le> occ j \<longleftrightarrow> i \<le> j"
  using less_iff [of j i] by linarith

lemma eq_iff: "occ i = occ j \<longleftrightarrow> i = j"
  using le_iff [of i j] le_iff [of j i] by auto

definition due :: "instant \<Rightarrow> int \<Rightarrow> bool" where
  "due d n \<longleftrightarrow> d \<le> occ n \<and> occ (n - 1) < d"

lemma due_least: "due d n \<Longrightarrow> k < n \<Longrightarrow> occ k < d"
  using le_iff [of k "n - 1"] by (auto simp: due_def)

lemma due_after: "due d n \<Longrightarrow> n \<le> k \<Longrightarrow> d \<le> occ k"
  using le_iff [of n k] by (auto simp: due_def)

lemma due_before_iff: "due d n \<Longrightarrow> occ k < d \<longleftrightarrow> k < n"
  using due_least [of d n k] due_after [of d n k] by linarith

lemma due_unique: "due d m \<Longrightarrow> due d n \<Longrightarrow> m = n"
  using due_before_iff [of d m "n - 1"] due_before_iff [of d n "m - 1"] by (auto simp: due_def)

lemma due_hit: "due d n \<Longrightarrow> occ k = d \<Longrightarrow> k = n"
  using due_before_iff [of d n k] due_after [of d n k] le_iff [of k n] by (auto simp: due_def)

lemma hit_iff: "due d n \<Longrightarrow> occ n = d \<longleftrightarrow> (\<exists>k. occ k = d)"
  using due_hit by blast

lemma last_on_or_before:
  assumes "due d n"
  shows "(if occ n \<le> d then occ n else occ (n - 1)) \<le> d"
    and "\<And>k. occ k \<le> d \<Longrightarrow> occ k \<le> (if occ n \<le> d then occ n else occ (n - 1))"
proof -
  show "(if occ n \<le> d then occ n else occ (n - 1)) \<le> d" using assms by (auto simp: due_def)
  fix k assume k: "occ k \<le> d"
  show "occ k \<le> (if occ n \<le> d then occ n else occ (n - 1))"
  proof (cases "occ k < d")
    case True
    then have "k \<le> n - 1" using due_before_iff [OF assms, of k] by linarith
    then have "occ k \<le> occ (n - 1)" "occ k \<le> occ n" by (simp_all add: le_iff)
    then show ?thesis by simp
  next
    case False
    with k have "occ k = d" by simp
    with due_hit [OF assms this] show ?thesis by simp
  qed
qed

lemma nearest:
  assumes "due d n"
  shows "\<bar>(if d - occ (n - 1) \<le> occ n - d then occ (n - 1) else occ n) - d\<bar> \<le> \<bar>occ k - d\<bar>"
proof (cases "k < n")
  case True
  then have "occ k \<le> occ (n - 1)" by (simp add: le_iff)
  with assms show ?thesis by (auto simp: due_def)
next
  case False
  then have "occ n \<le> occ k" by (simp add: le_iff)
  with assms show ?thesis by (auto simp: due_def)
qed

lemma due_close: "due d n \<Longrightarrow> d - occ (n - 1) \<le> top \<and> occ n - d \<le> top"
  using step_upper [of "n - 1"] by (auto simp: due_def)

lemma window:
  assumes "due from n"
  shows "from \<le> occ k \<and> occ k \<le> to \<longleftrightarrow> n \<le> k \<and> occ k \<le> to"
  using due_before_iff [OF assms, of k] by auto

lemma window_bound:
  assumes "due from n" "n \<le> k" "occ k \<le> to" "to - from < gap * m"
  shows "k < n + m"
proof (rule ccontr)
  assume "\<not> k < n + m"
  then have m: "n + m \<le> k" by simp
  from assms have "from \<le> to" using due_after [of "from" n k] by auto
  with assms(4) gap_pos have "0 < m" by (metis diff_ge_0_iff_ge le_less_trans zero_less_mult_pos)
  then obtain i where i: "m = int i" using zero_le_imp_eq_int [of m] by auto
  have "occ n + m * gap \<le> occ (n + m)" using steps_lower [of n i] i by simp
  moreover have "occ (n + m) \<le> occ k" using m by (simp add: le_iff)
  moreover have "from \<le> occ n" using assms(1) by (simp add: due_def)
  moreover have "m * gap = gap * m" by (rule mult.commute)
  ultimately show False using assms(3,4) by linarith
qed

end

section \<open>Occurrences form a grid\<close>

lemma mday_last: "daysInMonth y m = month_length (12 * y + (m - 1))"
proof -
  let ?k = "12 * y + (m - 1)"
  have e: "go_date y (m + 1) 0 = month_first (?k + 1) - 1"
    using go_date_month_first [of y "m + 1" 0] by (simp add: algebra_simps)
  have "month_number (month_first (?k + 1) - 1) = ?k"
    using month_first_Suc [of ?k] month_length_bounds(1) [of ?k]
    by (intro month_number_unique) auto
  with month_first_number [of "month_first (?k + 1) - 1"] month_first_Suc [of ?k] e
  show ?thesis by (simp add: daysInMonth_def)
qed

lemma month_first_civil:
  "month_number (month_first k) = k" "12 * year_of (month_first k) + (month_of (month_first k) - 1) = k"
proof -
  show "month_number (month_first k) = k"
    using month_first_Suc [of k] month_length_bounds(1) [of k] by (intro month_number_unique) auto
  then show "12 * year_of (month_first k) + (month_of (month_first k) - 1) = k"
    by (simp add: month_number_def)
qed

definition clamp_day :: "int \<Rightarrow> int \<Rightarrow> day" where
  "clamp_day k d = month_first k + (min d (month_length k) - 1)"

lemma addMonthsClamped_eq:
  "addMonthsClamped t n = at_day (clamp_day (month_number (day_of t) + n) (mday_of (day_of t)))"
proof -
  let ?u = "day_of t"
  let ?k = "month_number ?u + n"
  have f: "go_date (year_of ?u) (month_of ?u) 1 = month_first (month_number ?u)"
    using go_date_month_first [of "year_of ?u" "month_of ?u" 1] by (simp add: month_number_def)
  have d1: "mday_of (month_first j) = 1" for j
    using month_first_number [of "month_first j"] by (simp add: month_first_civil)
  have g: "go_date (year_of (month_first j)) (month_of (month_first j) + i) d = month_first (j + i) + (d - 1)" for i j d
    using go_date_month_first [of "year_of (month_first j)" "month_of (month_first j) + i" d]
      month_first_civil(2) [of j] by (simp add: algebra_simps)
  have first: "day_of (add_date (at_day (go_date (year_of ?u) (month_of ?u) 1)) 0 n 0) = month_first ?k"
    unfolding f by (simp add: add_date_def Let_def d1 g)
  have last: "daysInMonth (year_of (month_first ?k)) (month_of (month_first ?k)) = month_length ?k"
    by (simp only: mday_last month_first_civil)
  show ?thesis
    unfolding addMonthsClamped_def normalizeDate_eq at_day_simps Let_def first last
    using g [of ?k 0] by (simp add: clamp_day_def min_def)
qed

lemma clamp_day_step:
  assumes "1 \<le> d" "0 < j"
  shows "clamp_day k d + 28 \<le> clamp_day (k + j) d"
proof -
  have "month_first k + month_length k \<le> month_first (k + j)"
    using month_first_strict [of k "k + j"] assms by simp
  moreover have "month_length k - min d (month_length k) + min d (month_length (k + j)) \<ge> 28"
    using month_length_bounds [of k] month_length_bounds [of "k + j"] assms(1) by (auto simp: min_def)
  ultimately show ?thesis unfolding clamp_day_def by linarith
qed

lemma month_first_far: "month_first (k + int j) \<le> month_first k + 31 * int j"
proof (induction j)
  case (Suc j)
  have "month_first (k + int (Suc j)) = month_first (k + int j) + month_length (k + int j)"
    using month_first_Suc [of "k + int j"] by (simp add: algebra_simps)
  with Suc month_length_bounds(2) [of "k + int j"] show ?case by simp
qed simp

lemma clamp_day_far:
  assumes "1 \<le> d" "0 \<le> j" "j \<le> 12"
  shows "clamp_day (k + j) d \<le> clamp_day k d + 403"
proof -
  obtain i where i: "j = int i" using assms(2) zero_le_imp_eq_int by auto
  have "min d (month_length (k + j)) \<le> 31" "1 \<le> min d (month_length k)"
    using month_length_bounds [of "k + j"] month_length_bounds [of k] assms(1) by auto
  with month_first_far [of k i, folded i] assms(3) show ?thesis unfolding clamp_day_def by linarith
qed

lemma occurrence_day:
  "occurrenceAt anchor c n =
     at_day (case cadenceStep c of (days, months) \<Rightarrow>
               if days > 0 then day_of anchor + n * days
               else clamp_day (month_number (day_of anchor) + n * months) (mday_of (day_of anchor)))"
  by (auto simp: occurrenceAt_def Let_def addMonthsClamped_eq normalizeDate_eq split: prod.split)

lemma occurrence_step:
  "occurrenceAt anchor c n + 7 * day_ns \<le> occurrenceAt anchor c (n + 1)"
  "occurrenceAt anchor c (n + 1) \<le> occurrenceAt anchor c n + 403 * day_ns"
proof -
  have d: "1 \<le> mday_of (day_of anchor)" by (rule mday_bounds)
  obtain i where i: "\<And>n. occurrenceAt anchor c n = at_day (i n)" "i n + 7 \<le> i (n + 1)" "i (n + 1) \<le> i n + 403"
  proof (cases "fst (cadenceStep c) > 0")
    case True
    then have s: "cadenceStep c \<in> {(7, 0), (14, 0)}" by (cases c) (auto simp: cadenceStep_def)
    show ?thesis
      by (rule that [of "\<lambda>n. day_of anchor + n * fst (cadenceStep c)"])
         (use s in \<open>auto simp: occurrence_day algebra_simps\<close>)
  next
    case False
    then obtain m where m: "cadenceStep c = (0, m)" "0 < m" "m \<le> 12"
      by (cases c) (auto simp: cadenceStep_def)
    let ?i = "\<lambda>n. clamp_day (month_number (day_of anchor) + n * m) (mday_of (day_of anchor))"
    have e: "month_number (day_of anchor) + (n + 1) * m = (month_number (day_of anchor) + n * m) + m"
      by (simp add: algebra_simps)
    show ?thesis
    proof (rule that [of ?i])
      show "occurrenceAt anchor c n = at_day (?i n)" for n by (simp add: occurrence_day m(1))
      show "?i n + 7 \<le> ?i (n + 1)"
        unfolding e using clamp_day_step [OF d m(2), of "month_number (day_of anchor) + n * m"] by linarith
      show "?i (n + 1) \<le> ?i n + 403"
        unfolding e using clamp_day_far [OF d _ m(3)] m(2) by auto
    qed
  qed
  have "at_day (i n) + 7 * day_ns = at_day (i n + 7)" "at_day (i n) + 403 * day_ns = at_day (i n + 403)"
    by (simp_all add: at_day_def algebra_simps)
  with i show "occurrenceAt anchor c n + 7 * day_ns \<le> occurrenceAt anchor c (n + 1)"
    "occurrenceAt anchor c (n + 1) \<le> occurrenceAt anchor c n + 403 * day_ns"
    by (simp_all only: at_day_simps)
qed

interpretation occurrences: grid "occurrenceAt anchor c" "7 * day_ns" "403 * day_ns" for anchor c
  by unfold_locales (use occurrence_step in auto)

section \<open>Searching the grid\<close>

text \<open>The two loops of \<open>dueOrdinal\<close>; they end because the occurrences step by at least a week.\<close>

function walk_down :: "instant \<Rightarrow> cadence \<Rightarrow> instant \<Rightarrow> int \<Rightarrow> int" where
  "walk_down anchor c today n =
     (if \<not> occurrenceAt anchor c n < today then walk_down anchor c today (n - 1) else n)"
  by pat_completeness auto

termination
proof (relation "measure (\<lambda>(anchor, c, today, n). nat (occurrenceAt anchor c n - today + 1))")
  fix anchor c today n
  assume "\<not> occurrenceAt anchor c n < today"
  moreover have "occurrenceAt anchor c (n - 1) < occurrenceAt anchor c n" by (rule occurrences.strict) simp
  ultimately show "((anchor, c, today, n - 1), anchor, c, today, n)
      \<in> measure (\<lambda>(anchor, c, today, n). nat (occurrenceAt anchor c n - today + 1))" by simp
qed simp

function walk_up :: "instant \<Rightarrow> cadence \<Rightarrow> instant \<Rightarrow> int \<Rightarrow> int" where
  "walk_up anchor c today n =
     (if occurrenceAt anchor c n < today then walk_up anchor c today (n + 1) else n)"
  by pat_completeness auto

termination
proof (relation "measure (\<lambda>(anchor, c, today, n). nat (today - occurrenceAt anchor c n))")
  fix anchor c today n
  assume "occurrenceAt anchor c n < today"
  moreover have "occurrenceAt anchor c n < occurrenceAt anchor c (n + 1)" by (rule occurrences.strict) simp
  ultimately show "((anchor, c, today, n + 1), anchor, c, today, n)
      \<in> measure (\<lambda>(anchor, c, today, n). nat (today - occurrenceAt anchor c n))" by simp
qed simp

declare walk_down.simps [simp del] walk_up.simps [simp del]

definition dueOrdinal :: "instant \<Rightarrow> cadence \<Rightarrow> instant \<Rightarrow> int" where
  "dueOrdinal anchor0 c today0 =
     (let anchor = normalizeDate anchor0; today = normalizeDate today0;
          days = fst (cadenceStep c); months = snd (cadenceStep c)
      in   if days > 0 then ceilDiv (quot (time_sub today anchor) day_ns) days
           else let t = day_of today; a = day_of anchor;
                    monthsDiff = (year_of t - year_of a) * 12 + month_of t - month_of a
                in walk_up anchor c today (walk_down anchor c today (quot monthsDiff months)))"

definition nextDue :: "instant \<Rightarrow> cadence \<Rightarrow> instant \<Rightarrow> instant" where
  "nextDue anchor c today = occurrenceAt anchor c (dueOrdinal anchor c today)"

definition prevDue :: "instant \<Rightarrow> cadence \<Rightarrow> instant \<Rightarrow> instant" where
  "prevDue anchor c today = occurrenceAt anchor c (dueOrdinal anchor c today - 1)"

definition lastOccurrenceOnOrBefore :: "instant \<Rightarrow> cadence \<Rightarrow> instant \<Rightarrow> instant" where
  "lastOccurrenceOnOrBefore anchor c d0 =
     (let d = normalizeDate d0; n = dueOrdinal anchor c d; occ = occurrenceAt anchor c n
      in if \<not> occ > d then occ else occurrenceAt anchor c (n - 1))"

definition isOccurrence :: "instant \<Rightarrow> cadence \<Rightarrow> instant \<Rightarrow> bool" where
  "isOccurrence anchor c d0 =
     (let d = normalizeDate d0 in occurrenceAt anchor c (dueOrdinal anchor c d) = d)"

definition maxOccurrences :: int where
  "maxOccurrences = 10000"

function occurrences_loop :: "instant \<Rightarrow> cadence \<Rightarrow> instant \<Rightarrow> int \<Rightarrow> int \<Rightarrow> instant list" where
  "occurrences_loop anchor c to start i =
     (if i < maxOccurrences then
        (let occ = occurrenceAt anchor c (start + i)
         in if occ > to then [] else occ # occurrences_loop anchor c to start (i + 1))
      else [])"
  by pat_completeness auto

termination
  by (relation "measure (\<lambda>(anchor, c, to, start, i). nat (maxOccurrences - i))") auto

declare occurrences_loop.simps [simp del]

definition occurrencesBetween :: "instant \<Rightarrow> cadence \<Rightarrow> instant \<Rightarrow> instant \<Rightarrow> instant list" where
  "occurrencesBetween anchor c from0 to0 =
     (let from = normalizeDate from0; to = normalizeDate to0
      in if to < from then [] else occurrences_loop anchor c to (dueOrdinal anchor c from) 0)"

definition daysBetween :: "instant \<Rightarrow> instant \<Rightarrow> int" where
  "daysBetween a b = quot (time_sub (normalizeDate b) (normalizeDate a)) day_ns"

definition nearestOccurrence :: "instant \<Rightarrow> cadence \<Rightarrow> instant \<Rightarrow> instant" where
  "nearestOccurrence anchor c d0 =
     (let d = normalizeDate d0; next = nextDue anchor c d; prev = prevDue anchor c d
      in if daysBetween prev d \<le> daysBetween d next then prev else next)"

section \<open>The searches are correct\<close>

lemma normal_occurrence [simp]: "normalizeDate (occurrenceAt anchor c n) = occurrenceAt anchor c n"
  by (simp add: occurrence_day)

lemma occurrenceAt_normalize [simp]: "occurrenceAt (normalizeDate anchor) c n = occurrenceAt anchor c n"
  by (simp add: occurrence_day normalizeDate_eq split: prod.split)

lemma walk_down_spec: "occurrenceAt anchor c (walk_down anchor c today n) < today"
  by (induction anchor c today n rule: walk_down.induct) (subst walk_down.simps, simp)

lemma walk_up_spec:
  "occurrenceAt anchor c (n - 1) < today \<or> occurrenceAt anchor c n < today \<Longrightarrow>
   today \<le> occurrenceAt anchor c (walk_up anchor c today n) \<and>
   occurrenceAt anchor c (walk_up anchor c today n - 1) < today"
proof (induction anchor c today n rule: walk_up.induct)
  case (1 anchor c today n)
  show ?case
  proof (cases "occurrenceAt anchor c n < today")
    case True
    then have "walk_up anchor c today n = walk_up anchor c today (n + 1)" by (subst walk_up.simps) simp
    with 1 True show ?thesis by simp
  next
    case False
    then have "walk_up anchor c today n = n" by (subst walk_up.simps) simp
    with 1 False show ?thesis by auto
  qed
qed

lemma ceilDiv_spec:
  assumes "0 < b"
  shows "a \<le> ceilDiv a b * b \<and> (ceilDiv a b - 1) * b < a"
proof (cases "0 \<le> a")
  case True
  with assms have q: "quot a b = a div b" "rem a b = a mod b"
    by (simp_all add: quot_pos rem_def minus_mult_div_eq_mod)
  have gen: "a \<le> (if 0 < r then k + 1 else k) * b \<and> ((if 0 < r then k + 1 else k) - 1) * b < a"
    if "k * b + r = a" "0 \<le> r" "r < b" for k r
    using that by (auto simp: algebra_simps)
  show ?thesis unfolding ceilDiv_def Let_def q by (rule gen) (use assms in simp_all)
next
  case False
  let ?q = "(- a) div b" and ?r = "(- a) mod b"
  from False assms have q: "quot a b = - ?q" by (simp add: quot_neg)
  have gen: "(if a - b * - k > 0 then - k + 1 else - k) = - k \<and> a \<le> - k * b \<and> (- k - 1) * b < a"
    if "k * b + r = - a" "0 \<le> r" "r < b" for k r
    using that by (auto simp: algebra_simps)
  have "?q * b + ?r = - a" by (rule div_mult_mod_eq)
  from gen [OF this] assms show ?thesis unfolding ceilDiv_def Let_def rem_def q by simp
qed

text \<open>Day cadences subtract two instants, and \<open>Sub\<close> saturates after 292 years; month cadences
  have no such limit.\<close>

definition in_range :: "instant \<Rightarrow> cadence \<Rightarrow> instant \<Rightarrow> bool" where
  "in_range anchor c d \<longleftrightarrow>
     fst (cadenceStep c) = 0 \<or> close_instants (normalizeDate d) (normalizeDate anchor)"

lemma in_range_normalize [simp]: "in_range anchor c (normalizeDate d) = in_range anchor c d"
  by (simp add: in_range_def)

lemma sub_days:
  "close_instants (normalizeDate t) (normalizeDate u) \<Longrightarrow>
   quot (time_sub (normalizeDate t) (normalizeDate u)) day_ns = day_of t - day_of u"
  by (simp add: normalizeDate_eq at_day_diff quot_exact)

lemma dueOrdinal_normalize [simp]: "dueOrdinal anchor c (normalizeDate d) = dueOrdinal anchor c d"
  by (simp add: dueOrdinal_def)

lemma dueOrdinal_due:
  assumes "in_range anchor c d"
  shows "occurrences.due anchor c (normalizeDate d) (dueOrdinal anchor c d)"
proof (cases "fst (cadenceStep c) > 0")
  case True
  then obtain days where s: "cadenceStep c = (days, 0)" "0 < days" by (cases c) (auto simp: cadenceStep_def)
  with assms have cl: "close_instants (normalizeDate d) (normalizeDate anchor)" by (simp add: in_range_def)
  let ?n = "dueOrdinal anchor c d"
  have n: "?n = ceilDiv (day_of d - day_of anchor) days"
    using s sub_days [OF cl] by (simp add: dueOrdinal_def Let_def)
  from ceilDiv_spec [OF s(2), of "day_of d - day_of anchor"] n
  have "day_of d - day_of anchor \<le> ?n * days" "(?n - 1) * days < day_of d - day_of anchor" by simp_all
  with s show ?thesis by (simp add: occurrences.due_def occurrence_day normalizeDate_eq)
next
  case False
  then obtain m where s: "cadenceStep c = (0, m)" by (cases c) (auto simp: cadenceStep_def)
  let ?t = "normalizeDate d" and ?a = "normalizeDate anchor"
  obtain k where e: "dueOrdinal anchor c d = walk_up ?a c ?t (walk_down ?a c ?t k)"
    using s by (auto simp: dueOrdinal_def Let_def)
  have "occurrenceAt ?a c (walk_down ?a c ?t k) < ?t" by (rule walk_down_spec)
  with walk_up_spec [of ?a c "walk_down ?a c ?t k" ?t] show ?thesis
    unfolding occurrences.due_def e by simp
qed

lemma daysBetween_close:
  "close_instants (normalizeDate b) (normalizeDate a) \<Longrightarrow> daysBetween a b = day_of b - day_of a"
  unfolding daysBetween_def by (rule sub_days)

lemma close_within: "\<bar>t - u\<bar> \<le> 403 * day_ns \<Longrightarrow> close_instants t u"
proof -
  have "403 * day_ns \<le> max_duration" unfolding day_ns_val max_duration_def by simp
  then show "\<bar>t - u\<bar> \<le> 403 * day_ns \<Longrightarrow> close_instants t u" by (simp add: close_instants_def)
qed

lemma nextDue_normal: "nextDue anchor c (normalizeDate d) = nextDue anchor c d"
  by (simp add: nextDue_def)

lemma prevDue_normal: "prevDue anchor c (normalizeDate d) = prevDue anchor c d"
  by (simp add: prevDue_def)

lemma occurrences_loop_spec:
  "set (occurrences_loop anchor c t s i) =
     {occurrenceAt anchor c n |n. s + i \<le> n \<and> n < s + maxOccurrences \<and> occurrenceAt anchor c n \<le> t} \<and>
   sorted_wrt (<) (occurrences_loop anchor c t s i)"
proof (induction anchor c t s i rule: occurrences_loop.induct)
  case (1 anchor c t s i)
  show ?case
  proof (cases "i < maxOccurrences \<and> occurrenceAt anchor c (s + i) \<le> t")
    case True
    then have e: "occurrences_loop anchor c t s i =
        occurrenceAt anchor c (s + i) # occurrences_loop anchor c t s (i + 1)"
      by (subst occurrences_loop.simps) (simp add: Let_def)
    from True "1.IH" [OF _ refl] have IH: "set (occurrences_loop anchor c t s (i + 1)) =
        {occurrenceAt anchor c n |n. s + (i + 1) \<le> n \<and> n < s + maxOccurrences \<and> occurrenceAt anchor c n \<le> t}"
        "sorted_wrt (<) (occurrences_loop anchor c t s (i + 1))"
      by auto
    have step: "s + i \<le> n \<longleftrightarrow> n = s + i \<or> s + (i + 1) \<le> n" for n by auto
    have "set (occurrences_loop anchor c t s i) =
        {occurrenceAt anchor c n |n. s + i \<le> n \<and> n < s + maxOccurrences \<and> occurrenceAt anchor c n \<le> t}"
      unfolding e list.set IH(1) using True by (auto simp: step)
    moreover have "sorted_wrt (<) (occurrences_loop anchor c t s i)"
      unfolding e using IH by (auto simp: occurrences.less_iff)
    ultimately show ?thesis ..
  next
    case False
    then have e: "occurrences_loop anchor c t s i = []"
      by (subst occurrences_loop.simps) (auto simp: Let_def not_le)
    have "\<not> (s + i \<le> n \<and> n < s + maxOccurrences \<and> occurrenceAt anchor c n \<le> t)" for n
      using False occurrences.le_iff [of anchor c "s + i" n] by linarith
    then have "{occurrenceAt anchor c n |n. s + i \<le> n \<and> n < s + maxOccurrences \<and> occurrenceAt anchor c n \<le> t} = {}"
      by blast
    then show ?thesis unfolding e by (simp only: list.set sorted_wrt.simps)
  qed
qed

lemma isOccurrence_grid:
  "in_range anchor c d \<Longrightarrow> isOccurrence anchor c d \<longleftrightarrow> (\<exists>n. occurrenceAt anchor c n = normalizeDate d)"
  using occurrences.hit_iff [OF dueOrdinal_due] by (simp add: isOccurrence_def Let_def)

lemma nearestOccurrence_grid: "\<exists>n. nearestOccurrence anchor c d = occurrenceAt anchor c n"
  by (auto simp: nearestOccurrence_def Let_def nextDue_def prevDue_def)

lemma lastOccurrence_grid:
  assumes "in_range anchor c d"
  shows "(\<exists>n. lastOccurrenceOnOrBefore anchor c d = occurrenceAt anchor c n) \<and>
      lastOccurrenceOnOrBefore anchor c d \<le> normalizeDate d \<and>
      (\<forall>n. occurrenceAt anchor c n \<le> normalizeDate d \<longrightarrow>
         occurrenceAt anchor c n \<le> lastOccurrenceOnOrBefore anchor c d)"
proof -
  note D = dueOrdinal_due [OF assms]
  have e: "lastOccurrenceOnOrBefore anchor c d =
      (if occurrenceAt anchor c (dueOrdinal anchor c d) \<le> normalizeDate d
       then occurrenceAt anchor c (dueOrdinal anchor c d)
       else occurrenceAt anchor c (dueOrdinal anchor c d - 1))"
    by (simp add: lastOccurrenceOnOrBefore_def Let_def not_less)
  show ?thesis
    unfolding e using occurrences.last_on_or_before [OF D] by auto
qed

section \<open>Properties\<close>

text \<open>\<open>dueOrdinal\<close> is the least ordinal whose occurrence is on or after today, so \<open>nextDue\<close>
  is the earliest occurrence not before today and \<open>prevDue\<close> the latest one before it.  Both
  loops of the month cadences end; a day cadence needs today within 292 years of the anchor.\<close>

theorem due_ordinal_least:
  assumes "in_range anchor c today"
  shows "(\<forall>n. occurrenceAt anchor c n < normalizeDate today \<longleftrightarrow> n < dueOrdinal anchor c today) \<and>
    normalizeDate today \<le> nextDue anchor c today \<and> prevDue anchor c today < normalizeDate today"
  using occurrences.due_before_iff [OF dueOrdinal_due [OF assms]] dueOrdinal_due [OF assms]
  by (simp_all add: nextDue_def prevDue_def occurrences.due_def)

theorem due_ordinal_least_witness:
  "occurrenceAt (at_day 20484) Monthly 0 < normalizeDate (at_day 20500) \<longleftrightarrow>
     0 < dueOrdinal (at_day 20484) Monthly (at_day 20500)"
proof -
  have "in_range (at_day 20484) Monthly (at_day 20500)" by (simp add: in_range_def cadenceStep_def)
  from due_ordinal_least [OF this] show ?thesis by blast
qed

text \<open>month stepping is calendar stepping with the day clamped: \<open>n\<close> months after \<open>t\<close> lies in
  the \<open>n\<close>-th month after that of \<open>t\<close>, on the day of month of \<open>t\<close> or on the last day when
  that month is shorter, at UTC midnight; stepping twelve months at a time keeps the month.\<close>

theorem months_clamped:
  "month_number (day_of (addMonthsClamped t n)) = month_number (day_of t) + n \<and>
   mday_of (day_of (addMonthsClamped t n)) =
     min (mday_of (day_of t)) (month_length (month_number (day_of t) + n)) \<and>
   normalizeDate (addMonthsClamped t n) = addMonthsClamped t n"
proof -
  let ?k = "month_number (day_of t) + n" and ?d = "mday_of (day_of t)"
  have d: "1 \<le> ?d" by (rule mday_bounds)
  have k: "month_number (clamp_day ?k ?d) = ?k"
    using d month_length_bounds(1) [of ?k] month_first_Suc [of ?k]
    by (intro month_number_unique) (auto simp: clamp_day_def)
  have "mday_of (clamp_day ?k ?d) = min ?d (month_length ?k)"
    using month_first_number [of "clamp_day ?k ?d"] unfolding k by (simp add: clamp_day_def)
  with k show ?thesis by (simp add: addMonthsClamped_eq normalizeDate_eq)
qed

text \<open>\<open>occurrencesBetween\<close> lists exactly the occurrences of the inclusive window, oldest
  first and without repetition, for any window shorter than 10000 weeks (191 years), where the
  generation bound cannot cut it short.\<close>

theorem occurrences_between_exact:
  assumes "in_range anchor c from" "normalizeDate to - normalizeDate from < 7 * day_ns * maxOccurrences"
  shows "set (occurrencesBetween anchor c from to) =
    {occurrenceAt anchor c n |n. normalizeDate from \<le> occurrenceAt anchor c n \<and>
       occurrenceAt anchor c n \<le> normalizeDate to} \<and>
    sorted_wrt (<) (occurrencesBetween anchor c from to)"
proof (rule conjI)
  let ?f = "normalizeDate from" and ?t = "normalizeDate to" and ?s = "dueOrdinal anchor c from"
  note D = dueOrdinal_due [OF assms(1)]
  have loop: "set (occurrences_loop anchor c ?t ?s i) =
        {occurrenceAt anchor c n |n. ?s + i \<le> n \<and> n < ?s + maxOccurrences \<and> occurrenceAt anchor c n \<le> ?t} \<and>
      sorted_wrt (<) (occurrences_loop anchor c ?t ?s i)" for i
    by (rule occurrences_loop_spec)
  show "set (occurrencesBetween anchor c from to) =
    {occurrenceAt anchor c n |n. ?f \<le> occurrenceAt anchor c n \<and> occurrenceAt anchor c n \<le> ?t}"
  proof (cases "?t < ?f")
    case False
    have "n < ?s + maxOccurrences" if "?s \<le> n" "occurrenceAt anchor c n \<le> ?t" for n
      by (rule occurrences.window_bound [OF D that assms(2)])
    then have "?s \<le> n \<and> n < ?s + maxOccurrences \<and> occurrenceAt anchor c n \<le> ?t \<longleftrightarrow>
        ?f \<le> occurrenceAt anchor c n \<and> occurrenceAt anchor c n \<le> ?t" for n
      using occurrences.window [OF D, of n ?t] by blast
    with loop [of 0] False show ?thesis by (simp add: occurrencesBetween_def Let_def)
  qed (auto simp: occurrencesBetween_def Let_def)
  show "sorted_wrt (<) (occurrencesBetween anchor c from to)"
    using loop by (simp add: occurrencesBetween_def Let_def)
qed

theorem occurrences_between_exact_witness:
  "sorted_wrt (<) (occurrencesBetween (at_day 20484) Monthly (at_day 20400) (at_day 20700))"
proof (rule conjunct2 [OF occurrences_between_exact])
  show "in_range (at_day 20484) Monthly (at_day 20400)" by (simp add: in_range_def cadenceStep_def)
  show "normalizeDate (at_day 20700) - normalizeDate (at_day 20400) < 7 * day_ns * maxOccurrences"
    by (simp add: at_day_diff maxOccurrences_def)
qed

text \<open>the cycle a hand-made link is assigned to is a nearest one: no occurrence is closer to
  the posted date, and between two equally close cycles it is the earlier.\<close>

theorem nearest_occurrence:
  assumes "in_range anchor c d"
  shows "\<bar>nearestOccurrence anchor c d - normalizeDate d\<bar> \<le> \<bar>occurrenceAt anchor c k - normalizeDate d\<bar> \<and>
    (\<bar>occurrenceAt anchor c k - normalizeDate d\<bar> = \<bar>nearestOccurrence anchor c d - normalizeDate d\<bar>
      \<longrightarrow> nearestOccurrence anchor c d \<le> occurrenceAt anchor c k)"
proof (intro conjI impI)
  let ?d = "normalizeDate d" and ?n = "dueOrdinal anchor c d"
  note D = dueOrdinal_due [OF assms]
  have b: "\<bar>?d - occurrenceAt anchor c (?n - 1)\<bar> \<le> 403 * day_ns" "\<bar>occurrenceAt anchor c ?n - ?d\<bar> \<le> 403 * day_ns"
    using occurrences.due_close [OF D] D by (auto simp: occurrences.due_def)
  have db: "daysBetween (prevDue anchor c d) ?d = day_of ?d - day_of (prevDue anchor c d)"
      "daysBetween ?d (nextDue anchor c d) = day_of (nextDue anchor c d) - day_of ?d"
    using b by (simp_all add: daysBetween_close close_within prevDue_def nextDue_def)
  have m: "at_day (day_of (occurrenceAt anchor c k)) = occurrenceAt anchor c k" for k
    by (simp add: occurrence_day)
  have scale: "day_ns * x \<le> day_ns * y \<longleftrightarrow> x \<le> y" for x y :: int by simp
  have e: "day_of ?d - day_of (prevDue anchor c d) \<le> day_of (nextDue anchor c d) - day_of ?d \<longleftrightarrow>
      ?d - prevDue anchor c d \<le> nextDue anchor c d - ?d"
    unfolding scale [symmetric, of "day_of ?d - day_of (prevDue anchor c d)"] at_day_diff [symmetric]
    by (simp add: m prevDue_def nextDue_def normalizeDate_eq)
  have n: "nearestOccurrence anchor c d =
      (if ?d - occurrenceAt anchor c (?n - 1) \<le> occurrenceAt anchor c ?n - ?d
       then occurrenceAt anchor c (?n - 1) else occurrenceAt anchor c ?n)"
    using e unfolding nearestOccurrence_def Let_def prevDue_normal nextDue_normal db
    by (simp add: prevDue_def nextDue_def)
  show "\<bar>nearestOccurrence anchor c d - ?d\<bar> \<le> \<bar>occurrenceAt anchor c k - ?d\<bar>"
    unfolding n by (rule occurrences.nearest [OF D])
  assume k: "\<bar>occurrenceAt anchor c k - ?d\<bar> = \<bar>nearestOccurrence anchor c d - ?d\<bar>"
  show "nearestOccurrence anchor c d \<le> occurrenceAt anchor c k"
  proof (cases "?n - 1 \<le> k")
    case True
    then consider "k = ?n - 1" | "?n \<le> k" by linarith
    then show ?thesis
    proof cases
      case 1
      with k D n show ?thesis by (auto simp: occurrences.due_def split: if_splits)
    next
      case 2
      then have "occurrenceAt anchor c ?n \<le> occurrenceAt anchor c k" by (simp add: occurrences.le_iff)
      with D n show ?thesis by (auto simp: occurrences.due_def split: if_splits)
    qed
  next
    case False
    then have "occurrenceAt anchor c k < occurrenceAt anchor c (?n - 1)" by (simp add: occurrences.less_iff)
    with occurrences.nearest [OF D, of "?n - 1"] k n D show ?thesis
      by (auto simp: occurrences.due_def split: if_splits)
  qed
qed

theorem nearest_occurrence_witness:
  "\<bar>nearestOccurrence (at_day 20484) Monthly (at_day 20500) - normalizeDate (at_day 20500)\<bar> \<le>
     \<bar>occurrenceAt (at_day 20484) Monthly 1 - normalizeDate (at_day 20500)\<bar>"
  by (rule conjunct1 [OF nearest_occurrence]) (simp add: in_range_def cadenceStep_def)

text \<open>a date is accepted as a cycle exactly when it is an occurrence, and the cap of an ended
  bill is the latest occurrence on or before the end date.\<close>

theorem is_occurrence_iff:
  assumes "in_range anchor c d"
  shows "(isOccurrence anchor c d \<longleftrightarrow> (\<exists>n. occurrenceAt anchor c n = normalizeDate d)) \<and>
      (\<exists>n. lastOccurrenceOnOrBefore anchor c d = occurrenceAt anchor c n) \<and>
      lastOccurrenceOnOrBefore anchor c d \<le> normalizeDate d \<and>
      (\<forall>n. occurrenceAt anchor c n \<le> normalizeDate d \<longrightarrow>
         occurrenceAt anchor c n \<le> lastOccurrenceOnOrBefore anchor c d)"
  using isOccurrence_grid [OF assms] lastOccurrence_grid [OF assms] by blast

theorem is_occurrence_iff_witness:
  "isOccurrence (at_day 20484) Annual (at_day 20484) \<longleftrightarrow>
     (\<exists>n. occurrenceAt (at_day 20484) Annual n = normalizeDate (at_day 20484))"
  by (rule conjunct1 [OF is_occurrence_iff]) (simp add: in_range_def cadenceStep_def)

end
