(* ===== verification/Bills.thy ===== *)
theory Bills
  imports Cadence Ledger "HOL-Library.Product_Lexorder"
begin

text \<open>
  Recurring bills: \<open>internal/finance/bills.go\<close> over the RecurringBill and BillPayment tables.
  The derived view of a bill, the matching pass that settles cycles from the ledger, and the
  hand-made link.  The tables are passed explicitly: the ledger (\<open>fin_db\<close>), the bills and the
  payments.  \<open>today\<close> is the owner's calendar day, obtained from the clock by \<open>localToday\<close> over
  a time zone (the offset from UTC at an instant, a parameter: the zone database is not part of
  the repository).
\<close>

section \<open>Tables and views\<close>

datatype bill_status = Active | Paused | Ended
datatype pay_method = Auto | Manual

record bill =
  bill_id :: nat
  bill_name :: string
  bill_payee :: string
  bill_amount :: float64
  bill_currency :: string
  bill_cadence :: cadence
  bill_anchor :: instant
  bill_variable :: bool
  bill_tolerance :: float64
  bill_pattern :: string
  bill_window :: int
  bill_state :: bill_status
  bill_ended :: "instant option"
  bill_notes :: string
  bill_account :: "nat option"
  bill_created :: instant
  bill_updated :: instant

record payment =
  pay_id :: nat
  pay_bill :: nat
  pay_txn :: nat
  pay_occ :: instant
  pay_how :: pay_method

record bill_filter =
  bf_status :: string
  bf_within :: int
  bf_account :: nat

record bill_view =
  bv_id :: nat
  bv_name :: string
  bv_payee :: string
  bv_amount :: float64
  bv_currency :: string
  bv_cadence :: cadence
  bv_anchor :: instant
  bv_variable :: bool
  bv_tolerance :: float64
  bv_pattern :: string
  bv_window :: int
  bv_status :: bill_status
  bv_ended :: "instant option"
  bv_notes :: string
  bv_account :: nat
  bv_account_name :: string
  bv_created :: instant
  bv_updated :: instant
  bv_next_due :: instant
  bv_days :: int
  bv_last_date :: "instant option"
  bv_last_amount :: "float64 option"
  bv_overdue :: bool
  bv_auto :: bool
  bv_monthly :: float64

record bill_totals =
  bt_committed :: float64
  bt_monthly :: float64
  bt_count :: nat

record reconcile_options =
  ro_from :: "instant option"
  ro_to :: "instant option"

record reconcile_summary =
  rs_bills :: nat
  rs_cycles :: nat
  rs_compared :: nat
  rs_linked :: nat

datatype bill_error = BillNotFound | TxnNotFound | NotAnOccurrence | CycleAlreadyLinked | LinkConstraint

type_synonym zone = "instant \<Rightarrow> duration"

definition localToday :: "zone \<Rightarrow> instant \<Rightarrow> instant" where
  "localToday z now = (let n = day_of (now + z now) in at_day (go_date (year_of n) (month_of n) (mday_of n)))"

section \<open>Derived figures\<close>

definition cycleWindow ::
  "bill \<Rightarrow> instant option \<Rightarrow> reconcile_options \<Rightarrow> instant \<Rightarrow> instant list" where
  "cycleWindow b coverageFrom opts today =
     (let w = bill_window b;
          from0 = normalizeDate (bill_anchor b);
          from1 = (case coverageFrom of None \<Rightarrow> from0
                   | Some c \<Rightarrow> let lo = add_date (normalizeDate c) 0 0 (- w)
                              in if lo > from0 then lo else from0);
          from2 = (case ro_from opts of None \<Rightarrow> from1
                   | Some f \<Rightarrow> let lo = add_date (normalizeDate f) 0 0 (- w)
                              in if lo > from1 then lo else from1);
          to0 = add_date (normalizeDate today) 0 0 w;
          to1 = (case ro_to opts of None \<Rightarrow> to0
                 | Some t \<Rightarrow> let hi = add_date (normalizeDate t) 0 0 w
                            in if hi < to0 then hi else to0);
          to2 = (case bill_ended b of None \<Rightarrow> to1
                 | Some e0 \<Rightarrow> let e = normalizeDate e0 in if e < to1 then e else to1)
      in occurrencesBetween (bill_anchor b) (bill_cadence b) from2 to2)"

definition absInt :: "int \<Rightarrow> int" where
  "absInt n = (if n < 0 then - n else n)"

definition monthlyEquivalent :: "float64 \<Rightarrow> cadence \<Rightarrow> float64" where
  "monthlyEquivalent amount c =
     (case c of
        Weekly \<Rightarrow> fdiv (amount * f64 52) (f64 12)
      | Fortnightly \<Rightarrow> fdiv (amount * f64 26) (f64 12)
      | Quarterly \<Rightarrow> fdiv amount (f64 3)
      | Annual \<Rightarrow> fdiv amount (f64 12)
      | Monthly \<Rightarrow> amount)"

definition earliestPostedDate :: "txn list \<Rightarrow> instant option" where
  "earliestPostedDate ts = map_option (\<lambda>t. normalizeDate (txn_date t)) (first_by (\<lambda>t. (txn_date t, txn_id t)) ts)"

definition isOverdue ::
  "bill \<Rightarrow> payment list \<Rightarrow> instant option \<Rightarrow> instant \<Rightarrow> instant \<Rightarrow> bool" where
  "isOverdue b pays coverageFrom prev today =
     (if bill_state b \<noteq> Active then False
      else if trim_space (bill_pattern b) = [] then False
      else if prev < normalizeDate (bill_anchor b) then False
      else if (case bill_ended b of None \<Rightarrow> False | Some e \<Rightarrow> prev > normalizeDate e) then False
      else (case coverageFrom of
              None \<Rightarrow> False
            | Some c \<Rightarrow>
                if add_date prev 0 0 (bill_window b) < normalizeDate c then False
                else if \<not> today > add_date prev 0 0 (bill_window b) then False
                else count_where (\<lambda>p. pay_bill p = bill_id b \<and> pay_occ p = prev) pays = 0))"

definition billView ::
  "fin_db \<Rightarrow> payment list \<Rightarrow> bill \<Rightarrow> instant option \<Rightarrow> instant \<Rightarrow> bill_view" where
  "billView db pays b coverageFrom today =
     (let acc = Option.bind (bill_account b) (\<lambda>i. find (\<lambda>a. acc_id a = i) (accounts db));
          last = last_by (\<lambda>p. (pay_occ p, pay_id p)) (filter (\<lambda>p. pay_bill p = bill_id b) pays);
          paid = Option.bind last (\<lambda>p. find (\<lambda>t. txn_id t = pay_txn p) (txns db));
          prev = prevDue (bill_anchor b) (bill_cadence b) today;
          due0 = nextDue (bill_anchor b) (bill_cadence b) today;
          due1 = (case bill_ended b of None \<Rightarrow> due0
                  | Some e0 \<Rightarrow> let e = normalizeDate e0
                              in if due0 > e
                                 then lastOccurrenceOnOrBefore (bill_anchor b) (bill_cadence b) e
                                 else due0);
          overdue = isOverdue b pays coverageFrom prev today;
          due = (if overdue then prev else due1)
      in \<lparr>bv_id = bill_id b, bv_name = bill_name b, bv_payee = bill_payee b,
          bv_amount = bill_amount b, bv_currency = bill_currency b, bv_cadence = bill_cadence b,
          bv_anchor = normalizeDate (bill_anchor b), bv_variable = bill_variable b,
          bv_tolerance = bill_tolerance b, bv_pattern = bill_pattern b,
          bv_window = bill_window b, bv_status = bill_state b, bv_ended = bill_ended b,
          bv_notes = bill_notes b,
          bv_account = (case acc of None \<Rightarrow> 0 | Some a \<Rightarrow> acc_id a),
          bv_account_name = (case acc of None \<Rightarrow> [] | Some a \<Rightarrow> acc_name a),
          bv_created = bill_created b, bv_updated = bill_updated b,
          bv_next_due = due, bv_days = daysBetween today due,
          bv_last_date = map_option (\<lambda>t. normalizeDate (txn_date t)) paid,
          bv_last_amount = map_option (\<lambda>t. \<bar>txn_amount t\<bar>) paid,
          bv_overdue = overdue, bv_auto = (trim_space (bill_pattern b) \<noteq> []),
          bv_monthly = monthlyEquivalent (bill_amount b) (bill_cadence b)\<rparr>)"

definition billTotals :: "bill_view list \<Rightarrow> bill_totals" where
  "billTotals views =
     foldl (\<lambda>t v. if bv_status v \<noteq> Active then t
                  else t\<lparr>bt_committed := bt_committed t + bv_amount v,
                         bt_monthly := bt_monthly t + bv_monthly v\<rparr>)
       \<lparr>bt_committed = 0, bt_monthly = 0, bt_count = length views\<rparr> views"

text \<open>The status of a filter: \<open>Some None\<close> for every status, \<open>None\<close> for an invalid one.\<close>

definition parse_bill_status :: "string \<Rightarrow> bill_status option option" where
  "parse_bill_status s =
     (let st = to_lower (trim_space s) in
      if st = [] \<or> st = ''all'' then Some None
      else if st = ''active'' then Some (Some Active)
      else if st = ''paused'' then Some (Some Paused)
      else if st = ''ended'' then Some (Some Ended) else None)"

definition ListRecurringBills ::
  "fin_db \<Rightarrow> bill list \<Rightarrow> payment list \<Rightarrow> bill_filter \<Rightarrow> instant
    \<Rightarrow> string + (bill_view list \<times> bill_totals)" where
  "ListRecurringBills db bs pays f today =
     (case parse_bill_status (bf_status f) of
        None \<Rightarrow> Inl (bf_status f)
      | Some st \<Rightarrow>
          let sel = filter (\<lambda>b. (st = None \<or> st = Some (bill_state b)) \<and>
                              (bf_account f \<noteq> 0 \<longrightarrow> bill_account b = Some (bf_account f))) bs;
              ordered = sort_key bill_name sel;
              coverageFrom = earliestPostedDate (txns db);
              views = filter (\<lambda>v. \<not> (bf_within f > 0 \<and> \<not> bv_overdue v \<and>
                                  (bv_days v < 0 \<or> bv_days v > bf_within f)))
                        (map (\<lambda>b. billView db pays b coverageFrom today) ordered);
              out = sort_key (\<lambda>v. (bv_days v, bv_name v)) views
          in Inr (out, billTotals out))"

section \<open>Matching\<close>

record candidate =
  cand_txn :: txn
  cand_desc :: string
  cand_merch :: string
  cand_account :: nat
  cand_day :: instant

definition newCandidate :: "txn \<Rightarrow> candidate" where
  "newCandidate t =
     \<lparr>cand_txn = t, cand_desc = to_lower (txn_desc t), cand_merch = to_lower (txn_merchant t),
      cand_account = txn_account t, cand_day = normalizeDate (txn_date t)\<rparr>"

record bill_matcher =
  bm_bill :: bill
  bm_needle :: string
  bm_scope :: nat

definition newBillMatcher :: "bill \<Rightarrow> bill_matcher" where
  "newBillMatcher b =
     \<lparr>bm_bill = b, bm_needle = to_lower (trim_space (bill_pattern b)),
      bm_scope = (case bill_account b of None \<Rightarrow> 0 | Some a \<Rightarrow> a)\<rparr>"

definition matches :: "bill_matcher \<Rightarrow> candidate \<Rightarrow> instant \<Rightarrow> bool" where
  "matches m c occ =
     (if bm_needle m = [] then False
      else if \<not> contains (cand_desc c) (bm_needle m) \<and> \<not> contains (cand_merch c) (bm_needle m) then False
      else if bm_scope m \<noteq> 0 \<and> cand_account c \<noteq> bm_scope m then False
      else if \<not> bill_variable (bm_bill m) \<and>
              \<bar>\<bar>txn_amount (cand_txn c)\<bar> - bill_amount (bm_bill m)\<bar> >
                fdiv (bill_amount (bm_bill m) * bill_tolerance (bm_bill m)) (f64 100) then False
      else absInt (daysBetween occ (cand_day c)) \<le> bill_window (bm_bill m))"

record best =
  best_txn :: "txn option"
  best_gap :: int
  best_compared :: nat

definition best_step :: "bill_matcher \<Rightarrow> instant \<Rightarrow> nat list \<Rightarrow> int \<Rightarrow> best \<Rightarrow> candidate \<Rightarrow> best" where
  "best_step m occ used d s c =
     (if txn_id (cand_txn c) \<in> set used then s
      else let s1 = s\<lparr>best_compared := Suc (best_compared s)\<rparr>
           in if \<not> matches m c occ then s1
              else if best_txn s = None \<or> absInt d < best_gap s
                   then s1\<lparr>best_txn := Some (cand_txn c), best_gap := absInt d\<rparr> else s1)"

definition bestMatch ::
  "bill_matcher \<Rightarrow> (instant \<Rightarrow> candidate list) \<Rightarrow> instant \<Rightarrow> nat list \<Rightarrow> txn option \<times> nat" where
  "bestMatch m byDay occ used =
     (let w = bill_window (bm_bill m);
          r = foldl (\<lambda>s d. foldl (best_step m occ used d) s (byDay (add_date occ 0 0 d)))
                \<lparr>best_txn = None, best_gap = 0, best_compared = 0\<rparr> [- w..w]
      in (best_txn r, best_compared r))"

text \<open>The insert under the two unique indexes of BillPayment: \<open>None\<close> is a constraint error.\<close>

definition insert_payment :: "payment \<Rightarrow> payment list \<Rightarrow> payment list option" where
  "insert_payment p ps =
     (if \<exists>q \<in> set ps. pay_bill q = pay_bill p \<and> (pay_occ q = pay_occ p \<or> pay_txn q = pay_txn p)
      then None
      else Some (ps @ [p\<lparr>pay_id := fresh_id (map pay_id ps)\<rparr>]))"

definition existingPayments :: "payment list \<Rightarrow> nat \<Rightarrow> instant list \<times> nat list" where
  "existingPayments ps bid =
     (let rows = filter (\<lambda>p. pay_bill p = bid) ps
      in (map (\<lambda>p. normalizeDate (pay_occ p)) rows, map pay_txn rows))"

fun reconcile_cycles ::
  "bill_matcher \<Rightarrow> (instant \<Rightarrow> candidate list) \<Rightarrow> instant list
    \<Rightarrow> instant list \<times> nat list \<times> payment list \<times> reconcile_summary
    \<Rightarrow> payment list \<times> reconcile_summary" where
  "reconcile_cycles m byDay [] (settled, used, ps, tally) = (ps, tally)"
| "reconcile_cycles m byDay (occ # occs) (settled, used, ps, tally) =
     (if occ \<in> set settled then reconcile_cycles m byDay occs (settled, used, ps, tally)
      else case bestMatch m byDay occ used of (found, compared) \<Rightarrow>
        (let tally1 = tally\<lparr>rs_cycles := Suc (rs_cycles tally), rs_compared := rs_compared tally + compared\<rparr>
         in case found of
              None \<Rightarrow> reconcile_cycles m byDay occs (settled, used, ps, tally1)
            | Some t \<Rightarrow>
                (case insert_payment \<lparr>pay_id = 0, pay_bill = bill_id (bm_bill m), pay_txn = txn_id t,
                        pay_occ = occ, pay_how = Auto\<rparr> ps of
                   None \<Rightarrow> reconcile_cycles m byDay occs (occ # settled, txn_id t # used, ps, tally1)
                 | Some ps' \<Rightarrow> reconcile_cycles m byDay occs
                     (occ # settled, txn_id t # used, ps',
                      tally1\<lparr>rs_linked := Suc (rs_linked tally1)\<rparr>))))"

text \<open>The zero \<open>time.Time\<close>, which marks a bound not set yet.\<close>

definition zero_time :: instant where
  "zero_time = at_day (go_date 1 1 1)"

definition plan_bill ::
  "instant option \<Rightarrow> reconcile_options \<Rightarrow> instant \<Rightarrow> (bill \<times> instant list) list \<times> instant \<times> instant
    \<Rightarrow> bill \<Rightarrow> (bill \<times> instant list) list \<times> instant \<times> instant" where
  "plan_bill coverageFrom opts today s b =
     (case s of (bills, from, to) \<Rightarrow>
        if trim_space (bill_pattern b) = [] then s
        else let occs = cycleWindow b coverageFrom opts today
             in if occs = [] then s
                else let lo = add_date (hd occs) 0 0 (- bill_window b);
                         hi = add_date (List.last occs) 0 0 (bill_window b)
                     in (bills @ [(b, occs)],
                         if from = zero_time \<or> lo < from then lo else from,
                         if to = zero_time \<or> hi > to then hi else to))"

definition by_day :: "txn list \<Rightarrow> instant \<Rightarrow> candidate list" where
  "by_day rows d = filter (\<lambda>c. cand_day c = d) (map newCandidate rows)"

definition reconcile_bill ::
  "txn list \<Rightarrow> payment list \<times> reconcile_summary \<Rightarrow> bill \<times> instant list \<Rightarrow> payment list \<times> reconcile_summary" where
  "reconcile_bill rows s bo =
     (case (s, bo) of ((ps, tally), (b, occs)) \<Rightarrow>
        case existingPayments ps (bill_id b) of (settled, used) \<Rightarrow>
          reconcile_cycles (newBillMatcher b) (by_day rows) occs
            (settled, used, ps, tally\<lparr>rs_bills := Suc (rs_bills tally)\<rparr>))"

definition ReconcileBills ::
  "fin_db \<Rightarrow> bill list \<Rightarrow> reconcile_options \<Rightarrow> instant \<Rightarrow> payment list \<Rightarrow> payment list \<times> reconcile_summary" where
  "ReconcileBills db bs opts today ps =
     (let tally = \<lparr>rs_bills = 0, rs_cycles = 0, rs_compared = 0, rs_linked = 0\<rparr>;
          cands = sort_key bill_id (filter (\<lambda>b. bill_state b = Active \<or> bill_state b = Ended) bs)
      in case earliestPostedDate (txns db) of
           None \<Rightarrow> (ps, tally)
         | Some c \<Rightarrow>
             (case foldl (plan_bill (Some c) opts today) ([], zero_time, zero_time) cands of
                (plan, from, to) \<Rightarrow>
                  if plan = [] then (ps, tally)
                  else let rows = sort_key (\<lambda>t. (txn_date t, txn_id t))
                                    (filter (\<lambda>t. from \<le> txn_date t \<and> txn_date t \<le> to) (txns db))
                       in foldl (reconcile_bill rows) (ps, tally) plan))"

section \<open>The post-ingest range and the hand-made link\<close>

definition PostedDateRange :: "payload \<Rightarrow> (instant \<times> instant) option" where
  "PostedDateRange p =
     foldl (\<lambda>s row. case parseDate (pr_date row) of
              None \<Rightarrow> s
            | Some d \<Rightarrow> (case s of None \<Rightarrow> Some (d, d)
                        | Some (from, to) \<Rightarrow> Some (if d < from then d else from, if d > to then d else to)))
       None (pl_posted p)"

definition LinkBillPayment ::
  "fin_db \<Rightarrow> bill list \<Rightarrow> nat \<Rightarrow> nat \<Rightarrow> instant option \<Rightarrow> payment list
    \<Rightarrow> bill_error + (payment list \<times> payment)" where
  "LinkBillPayment db bs billID txnID occurrence ps =
     (case find (\<lambda>b. bill_id b = billID) bs of
        None \<Rightarrow> Inl BillNotFound
      | Some b \<Rightarrow>
      (case find (\<lambda>t. txn_id t = txnID) (txns db) of
         None \<Rightarrow> Inl TxnNotFound
       | Some t \<Rightarrow>
       (let occ = (case occurrence of
                     None \<Rightarrow> nearestOccurrence (bill_anchor b) (bill_cadence b) (txn_date t)
                   | Some d \<Rightarrow> normalizeDate d)
        in if occurrence \<noteq> None \<and> \<not> isOccurrence (bill_anchor b) (bill_cadence b) occ
           then Inl NotAnOccurrence
           else
             (let existing = find (\<lambda>p. pay_bill p = billID \<and> pay_occ p = occ) ps;
                  link = \<lparr>pay_id = 0, pay_bill = billID, pay_txn = txn_id t, pay_occ = occ, pay_how = Manual\<rparr>
              in case existing of
                   Some e \<Rightarrow>
                     if pay_how e = Manual then Inl CycleAlreadyLinked
                     else (case insert_payment link (filter (\<lambda>p. pay_id p \<noteq> pay_id e) ps) of
                             None \<Rightarrow> Inl LinkConstraint
                           | Some ps' \<Rightarrow> Inr (ps', List.last ps'))
                 | None \<Rightarrow>
                     (case insert_payment link ps of
                        None \<Rightarrow> Inl LinkConstraint
                      | Some ps' \<Rightarrow> Inr (ps', List.last ps'))))))"

section \<open>The best match\<close>

lemma foldl_nested:
  "foldl (\<lambda>s d. foldl (f d) s (g d)) s ds =
     foldl (\<lambda>s (d, c). f d s c) s (concat (map (\<lambda>d. map (Pair d) (g d)) ds))"
proof (induction ds arbitrary: s)
  case (Cons d ds)
  have "foldl (\<lambda>s (d, c). f d s c) s (map (Pair d) cs) = foldl (f d) s cs" for s cs
    by (induction cs arbitrary: s) simp_all
  with Cons show ?case by simp
qed simp

definition eligible :: "bill_matcher \<Rightarrow> instant \<Rightarrow> nat list \<Rightarrow> candidate \<Rightarrow> bool" where
  "eligible m occ used c \<longleftrightarrow> txn_id (cand_txn c) \<notin> set used \<and> matches m c occ"

definition offers :: "bill_matcher \<Rightarrow> (instant \<Rightarrow> candidate list) \<Rightarrow> instant \<Rightarrow> (int \<times> candidate) list" where
  "offers m byDay occ =
     concat (map (\<lambda>d. map (Pair d) (byDay (add_date occ 0 0 d))) [- bill_window (bm_bill m)..bill_window (bm_bill m)])"

text \<open>What the scan knows after the pairs \<open>L\<close>.\<close>

definition best_ok :: "bill_matcher \<Rightarrow> instant \<Rightarrow> nat list \<Rightarrow> (int \<times> candidate) list \<Rightarrow> best \<Rightarrow> bool" where
  "best_ok m occ used L s \<longleftrightarrow>
     (case best_txn s of
        None \<Rightarrow> \<forall>(d, c) \<in> set L. \<not> eligible m occ used c
      | Some t \<Rightarrow> (\<exists>d c. (d, c) \<in> set L \<and> eligible m occ used c \<and> cand_txn c = t \<and> best_gap s = \<bar>d\<bar>) \<and>
          (\<forall>(d, c) \<in> set L. eligible m occ used c \<longrightarrow> best_gap s \<le> \<bar>d\<bar>)) \<and>
     best_compared s = length (filter (\<lambda>(d, c). txn_id (cand_txn c) \<notin> set used) L)"

lemma absInt_abs [simp]: "absInt n = \<bar>n\<bar>"
  by (simp add: absInt_def)

lemma best_step_ok:
  assumes "best_ok m occ used L s"
  shows "best_ok m occ used (L @ [(d, c)]) (best_step m occ used d s c)"
proof (cases "eligible m occ used c")
  case True
  with assms show ?thesis
    by (fastforce simp: best_ok_def best_step_def Let_def eligible_def split: option.splits if_splits)
next
  case False
  with assms show ?thesis
    by (fastforce simp: best_ok_def best_step_def Let_def eligible_def split: option.splits if_splits)
qed

lemma scan_ok:
  "best_ok m occ used L s \<Longrightarrow>
   best_ok m occ used (L @ K) (foldl (\<lambda>s (d, c). best_step m occ used d s c) s K)"
proof (induction K arbitrary: L s)
  case (Cons dc K)
  obtain d c where dc: "dc = (d, c)" by (cases dc)
  from Cons.IH [OF best_step_ok [OF Cons.prems, of d c]] dc show ?case by simp
qed simp

lemma bestMatch_ok:
  "\<exists>s. bestMatch m byDay occ used = (best_txn s, best_compared s) \<and>
       best_ok m occ used (offers m byDay occ) s"
proof -
  let ?s0 = "\<lparr>best_txn = None, best_gap = 0, best_compared = 0\<rparr> :: best"
  have "best_ok m occ used [] ?s0" by (simp add: best_ok_def)
  from scan_ok [OF this, of "offers m byDay occ"] show ?thesis
    by (auto simp: bestMatch_def Let_def foldl_nested offers_def)
qed

lemma bestMatch_None:
  "fst (bestMatch m byDay occ used) = None \<longleftrightarrow>
     (\<forall>(d, c) \<in> set (offers m byDay occ). \<not> eligible m occ used c)"
proof -
  obtain s where s: "bestMatch m byDay occ used = (best_txn s, best_compared s)"
      "best_ok m occ used (offers m byDay occ) s"
    using bestMatch_ok by blast
  show ?thesis
  proof (cases "best_txn s")
    case None
    with s show ?thesis by (simp add: best_ok_def)
  next
    case (Some t)
    with s(2) obtain d c where "(d, c) \<in> set (offers m byDay occ)" "eligible m occ used c"
      by (auto simp: best_ok_def)
    with s(1) Some show ?thesis by auto
  qed
qed

lemma bestMatch_Some:
  assumes "bestMatch m byDay occ used = (Some t, n)"
  shows "\<exists>d c. (d, c) \<in> set (offers m byDay occ) \<and> eligible m occ used c \<and> cand_txn c = t \<and>
    (\<forall>(d', c') \<in> set (offers m byDay occ). eligible m occ used c' \<longrightarrow> \<bar>d\<bar> \<le> \<bar>d'\<bar>)"
  using bestMatch_ok [of m byDay occ used] assms by (fastforce simp: best_ok_def)

lemma offers_by_day:
  "(d, c) \<in> set (offers m (by_day rows) occ) \<Longrightarrow>
   \<exists>t \<in> set rows. c = newCandidate t \<and> normalizeDate (txn_date t) = add_date occ 0 0 d"
  by (auto simp: offers_def by_day_def newCandidate_def)

section \<open>The matching pass\<close>

definition pays_ok :: "payment list \<Rightarrow> bool" where
  "pays_ok ps \<longleftrightarrow> distinct (map pay_id ps) \<and> distinct (map (\<lambda>p. (pay_bill p, pay_occ p)) ps) \<and>
     distinct (map (\<lambda>p. (pay_bill p, pay_txn p)) ps)"

lemma insert_payment_Some:
  assumes "insert_payment p ps = Some ps'"
  shows "ps' = ps @ [p\<lparr>pay_id := fresh_id (map pay_id ps)\<rparr>]" and "pays_ok ps \<Longrightarrow> pays_ok ps'"
proof -
  show e: "ps' = ps @ [p\<lparr>pay_id := fresh_id (map pay_id ps)\<rparr>]"
    using assms by (simp add: insert_payment_def split: if_splits)
  have "\<forall>q \<in> set ps. \<not> (pay_bill q = pay_bill p \<and> (pay_occ q = pay_occ p \<or> pay_txn q = pay_txn p))"
    using assms by (auto simp: insert_payment_def split: if_splits)
  then show "pays_ok ps \<Longrightarrow> pays_ok ps'"
    using fresh_id_new [of "map pay_id ps"] unfolding e pays_ok_def by (auto simp del: fresh_id_new)
qed

text \<open>\<open>settled\<close> and \<open>used\<close> mirror the bill's payments; then the insert never conflicts.\<close>

definition mirrors :: "nat \<Rightarrow> payment list \<Rightarrow> instant list \<Rightarrow> nat list \<Rightarrow> bool" where
  "mirrors bid ps settled used \<longleftrightarrow>
     set settled = (\<lambda>p. normalizeDate (pay_occ p)) ` {p \<in> set ps. pay_bill p = bid} \<and>
     set used = pay_txn ` {p \<in> set ps. pay_bill p = bid}"

text \<open>A cycle the pass is done with: settled, or no unused row matches it.\<close>

definition stuck :: "bill_matcher \<Rightarrow> (instant \<Rightarrow> candidate list) \<Rightarrow> payment list \<Rightarrow> instant \<Rightarrow> bool" where
  "stuck m byDay ps occ \<longleftrightarrow>
     (\<exists>p \<in> set ps. pay_bill p = bill_id (bm_bill m) \<and> normalizeDate (pay_occ p) = occ) \<or>
     (\<forall>(d, c) \<in> set (offers m byDay occ). matches m c occ \<longrightarrow>
        (\<exists>p \<in> set ps. pay_bill p = bill_id (bm_bill m) \<and> pay_txn p = txn_id (cand_txn c)))"

lemma stuck_mono: "stuck m byDay ps occ \<Longrightarrow> set ps \<subseteq> set ps' \<Longrightarrow> stuck m byDay ps' occ"
  by (fastforce simp: stuck_def)

definition settles :: "bill_matcher \<Rightarrow> (instant \<Rightarrow> candidate list) \<Rightarrow> instant list \<Rightarrow> payment \<Rightarrow> bool" where
  "settles m byDay occs p \<longleftrightarrow>
     pay_how p = Auto \<and> pay_bill p = bill_id (bm_bill m) \<and> pay_occ p \<in> set occs \<and>
     (\<exists>(d, c) \<in> set (offers m byDay (pay_occ p)). matches m c (pay_occ p) \<and> pay_txn p = txn_id (cand_txn c))"

lemma existing_mirrors: "existingPayments ps bid = (settled, used) \<Longrightarrow> mirrors bid ps settled used"
  by (auto simp: existingPayments_def mirrors_def Let_def)

lemma reconcile_cycles_spec:
  assumes "\<forall>occ \<in> set occs. normalizeDate occ = occ"
    and "mirrors (bill_id (bm_bill m)) ps settled used"
    and "reconcile_cycles m byDay occs (settled, used, ps, tally) = (ps', tally')"
  shows "(\<exists>new. ps' = ps @ new \<and> (\<forall>p \<in> set new. settles m byDay occs p) \<and>
      rs_linked tally' = rs_linked tally + length new) \<and>
    (pays_ok ps \<longrightarrow> pays_ok ps') \<and> (\<forall>occ \<in> set occs. stuck m byDay ps' occ)"
  using assms
proof (induction occs arbitrary: settled used ps tally)
  case (Cons occ occs)
  let ?bid = "bill_id (bm_bill m)"
  have n: "\<forall>occ \<in> set occs. normalizeDate occ = occ" "normalizeDate occ = occ" using Cons.prems(1) by auto
  obtain found k where b: "bestMatch m byDay occ used = (found, k)" by (cases "bestMatch m byDay occ used")
  let ?t = "tally\<lparr>rs_cycles := Suc (rs_cycles tally), rs_compared := rs_compared tally + k\<rparr>"
  have weaken: "settles m byDay occs p \<Longrightarrow> settles m byDay (occ # occs) p" for p by (auto simp: settles_def)
  consider "occ \<in> set settled" | "occ \<notin> set settled" "found = None" | t where "occ \<notin> set settled" "found = Some t"
    by (cases found) auto
  then show ?case
  proof cases
    case 1
    then have s: "stuck m byDay ps occ" using Cons.prems(2) by (auto simp: mirrors_def stuck_def)
    from 1 Cons.prems(3) have "reconcile_cycles m byDay occs (settled, used, ps, tally) = (ps', tally')" by simp
    from Cons.IH [OF n(1) Cons.prems(2) this] s show ?thesis
      by (auto intro: weaken stuck_mono)
  next
    case 2
    then have s: "stuck m byDay ps occ"
      using bestMatch_None [of m byDay occ used] b Cons.prems(2)
      by (fastforce simp: mirrors_def stuck_def eligible_def)
    from 2 b Cons.prems(3) have "reconcile_cycles m byDay occs (settled, used, ps, ?t) = (ps', tally')" by simp
    from Cons.IH [OF n(1) Cons.prems(2) this] s show ?thesis
      by (auto intro: weaken stuck_mono)
  next
    case 3
    let ?p = "\<lparr>pay_id = 0, pay_bill = ?bid, pay_txn = txn_id t, pay_occ = occ, pay_how = Auto\<rparr>"
    let ?q = "?p\<lparr>pay_id := fresh_id (map pay_id ps)\<rparr>"
    from bestMatch_Some [of m byDay occ used t k] b 3 obtain d c where
      c: "(d, c) \<in> set (offers m byDay occ)" "eligible m occ used c" "cand_txn c = t" by auto
    have "\<not> (\<exists>q \<in> set ps. pay_bill q = pay_bill ?p \<and> (pay_occ q = pay_occ ?p \<or> pay_txn q = pay_txn ?p))"
      using Cons.prems(2) 3 c n(2) by (force simp: mirrors_def eligible_def)
    then have ins: "insert_payment ?p ps = Some (ps @ [?q])" by (simp add: insert_payment_def)
    have q: "settles m byDay (occ # occs) ?q" using c by (force simp: settles_def eligible_def)
    have s: "stuck m byDay (ps @ [?q]) occ" using n(2) by (auto simp: stuck_def)
    have "{p \<in> set (ps @ [?q]). pay_bill p = ?bid} = insert ?q {p \<in> set ps. pay_bill p = ?bid}" by auto
    then have m: "mirrors ?bid (ps @ [?q]) (occ # settled) (txn_id t # used)"
      using Cons.prems(2) n(2) by (simp add: mirrors_def)
    have r: "reconcile_cycles m byDay occs (occ # settled, txn_id t # used, ps @ [?q],
        ?t\<lparr>rs_linked := Suc (rs_linked ?t)\<rparr>) = (ps', tally')"
      using 3 b ins Cons.prems(3) by simp
    from Cons.IH [OF n(1) m r] obtain new where
      new: "ps' = (ps @ [?q]) @ new" "\<forall>p \<in> set new. settles m byDay occs p"
        "rs_linked tally' = Suc (rs_linked tally) + length new"
      and rest: "pays_ok (ps @ [?q]) \<longrightarrow> pays_ok ps'" "\<forall>occ \<in> set occs. stuck m byDay ps' occ"
      by auto
    have "pays_ok ps \<longrightarrow> pays_ok ps'" using rest(1) insert_payment_Some(2) [OF ins] by blast
    moreover have "stuck m byDay ps' occ" using s by (rule stuck_mono) (auto simp: new(1))
    moreover note new rest(2)
    ultimately show ?thesis using q by (auto intro: weaken intro!: exI [of _ "?q # new"])
  qed
qed simp

lemma reconcile_cycles_stuck:
  assumes "mirrors (bill_id (bm_bill m)) ps settled used" "\<forall>occ \<in> set occs. stuck m byDay ps occ"
  shows "\<exists>tally'. reconcile_cycles m byDay occs (settled, used, ps, tally) = (ps, tally') \<and>
    rs_linked tally' = rs_linked tally"
  using assms(2)
proof (induction occs arbitrary: tally)
  case (Cons occ occs)
  show ?case
  proof (cases "occ \<in> set settled")
    case True
    with Cons show ?thesis by simp
  next
    case False
    obtain found k where b: "bestMatch m byDay occ used = (found, k)" by (cases "bestMatch m byDay occ used")
    have st: "stuck m byDay ps occ" using Cons.prems by simp
    have "\<not> eligible m occ used c" if "(d, c) \<in> set (offers m byDay occ)" for d c
    proof
      assume e: "eligible m occ used c"
      have "\<not> (\<exists>p \<in> set ps. pay_bill p = bill_id (bm_bill m) \<and> normalizeDate (pay_occ p) = occ)"
        using False assms(1) by (auto simp: mirrors_def)
      with st that e obtain p where "p \<in> set ps" "pay_bill p = bill_id (bm_bill m)"
          "pay_txn p = txn_id (cand_txn c)"
        by (fastforce simp: stuck_def eligible_def)
      with assms(1) have "txn_id (cand_txn c) \<in> set used" by (force simp: mirrors_def)
      with e show False by (simp add: eligible_def)
    qed
    then have "\<forall>(d, c) \<in> set (offers m byDay occ). \<not> eligible m occ used c" by blast
    with bestMatch_None [of m byDay occ used] b have "found = None" by simp
    with b False Cons.prems Cons.IH [of "tally\<lparr>rs_cycles := Suc (rs_cycles tally), rs_compared := rs_compared tally + k\<rparr>"]
    show ?thesis by simp
  qed
qed simp

lemma bm_bill_new [simp]: "bm_bill (newBillMatcher b) = b"
  by (simp add: newBillMatcher_def)

lemma reconcile_plan_spec:
  assumes "\<forall>(b, occs) \<in> set plan. \<forall>occ \<in> set occs. normalizeDate occ = occ"
    and "foldl (reconcile_bill rows) (ps, tally) plan = (ps', tally')"
  shows "(\<exists>new. ps' = ps @ new \<and>
      (\<forall>p \<in> set new. \<exists>(b, occs) \<in> set plan. settles (newBillMatcher b) (by_day rows) occs p) \<and>
      rs_linked tally' = rs_linked tally + length new) \<and>
    (pays_ok ps \<longrightarrow> pays_ok ps') \<and>
    (\<forall>(b, occs) \<in> set plan. \<forall>occ \<in> set occs. stuck (newBillMatcher b) (by_day rows) ps' occ)"
  using assms
proof (induction plan arbitrary: ps tally)
  case (Cons bo plan)
  obtain b occs where bo: "bo = (b, occs)" by (cases bo)
  obtain settled used where ex: "existingPayments ps (bill_id b) = (settled, used)"
    by (cases "existingPayments ps (bill_id b)")
  obtain ps1 t1 where r: "reconcile_cycles (newBillMatcher b) (by_day rows) occs
      (settled, used, ps, tally\<lparr>rs_bills := Suc (rs_bills tally)\<rparr>) = (ps1, t1)"
    by fastforce
  have m: "mirrors (bill_id (bm_bill (newBillMatcher b))) ps settled used"
    using existing_mirrors [OF ex] by simp
  have n: "\<forall>occ \<in> set occs. normalizeDate occ = occ" using Cons.prems(1) bo by auto
  from reconcile_cycles_spec [OF n m r] obtain new where
    1: "ps1 = ps @ new" "\<forall>p \<in> set new. settles (newBillMatcher b) (by_day rows) occs p"
      "rs_linked t1 = rs_linked tally + length new" "pays_ok ps \<longrightarrow> pays_ok ps1"
      "\<forall>occ \<in> set occs. stuck (newBillMatcher b) (by_day rows) ps1 occ" by auto
  have "reconcile_bill rows (ps, tally) bo = (ps1, t1)" using bo ex r by (simp add: reconcile_bill_def)
  then have step: "foldl (reconcile_bill rows) (ps1, t1) plan = (ps', tally')" using Cons.prems(2) by simp
  have "\<forall>(b, occs) \<in> set plan. \<forall>occ \<in> set occs. normalizeDate occ = occ" using Cons.prems(1) by simp
  from Cons.IH [OF this step] obtain new2 where
    2: "ps' = ps1 @ new2"
      "\<forall>p \<in> set new2. \<exists>(b, occs) \<in> set plan. settles (newBillMatcher b) (by_day rows) occs p"
      "rs_linked tally' = rs_linked t1 + length new2" "pays_ok ps1 \<longrightarrow> pays_ok ps'"
      "\<forall>(b, occs) \<in> set plan. \<forall>occ \<in> set occs. stuck (newBillMatcher b) (by_day rows) ps' occ" by blast
  have st: "\<forall>occ \<in> set occs. stuck (newBillMatcher b) (by_day rows) ps' occ"
    using 1(5) 2(1) by (auto intro: stuck_mono)
  have "ps' = ps @ (new @ new2)" using 1(1) 2(1) by simp
  moreover have "\<forall>p \<in> set (new @ new2). \<exists>(b, occs) \<in> set (bo # plan).
      settles (newBillMatcher b) (by_day rows) occs p"
    using 1(2) 2(2) bo by auto
  ultimately show ?case using 1(3,4) 2(3-5) st bo by auto
qed simp

lemma reconcile_plan_stuck:
  assumes "\<forall>(b, occs) \<in> set plan. \<forall>occ \<in> set occs. stuck (newBillMatcher b) (by_day rows) ps occ"
  shows "\<exists>tally'. foldl (reconcile_bill rows) (ps, tally) plan = (ps, tally') \<and> rs_linked tally' = rs_linked tally"
  using assms
proof (induction plan arbitrary: tally)
  case (Cons bo plan)
  obtain b occs where bo: "bo = (b, occs)" by (cases bo)
  obtain settled used where ex: "existingPayments ps (bill_id b) = (settled, used)"
    by (cases "existingPayments ps (bill_id b)")
  have m: "mirrors (bill_id (bm_bill (newBillMatcher b))) ps settled used"
    using existing_mirrors [OF ex] by simp
  have "\<forall>occ \<in> set occs. stuck (newBillMatcher b) (by_day rows) ps occ" using Cons.prems bo by simp
  from reconcile_cycles_stuck [OF m this, of "tally\<lparr>rs_bills := Suc (rs_bills tally)\<rparr>"] obtain t1 where
    "reconcile_bill rows (ps, tally) bo = (ps, t1)" "rs_linked t1 = rs_linked tally"
    using bo ex by (auto simp: reconcile_bill_def)
  with Cons.prems Cons.IH [of t1] show ?case by simp
qed simp

lemma cycleWindow_occurrences:
  "occ \<in> set (cycleWindow b c opts today) \<Longrightarrow> \<exists>n. occ = occurrenceAt (bill_anchor b) (bill_cadence b) n"
  by (auto simp: cycleWindow_def occurrencesBetween_def Let_def occurrences_loop_spec split: if_splits)

lemma plan_members:
  assumes "foldl (plan_bill c opts today) s bs = (plan, from, to)"
  shows "\<forall>(b, occs) \<in> set plan. (b, occs) \<in> set (fst s) \<or>
    b \<in> set bs \<and> trim_space (bill_pattern b) \<noteq> [] \<and> occs = cycleWindow b c opts today"
  using assms
proof (induction bs arbitrary: s)
  case (Cons b bs)
  obtain bills f t where s: "s = (bills, f, t)" by (cases s)
  from Cons.IH [of "plan_bill c opts today s b"] Cons.prems
  have "\<forall>(b', occs) \<in> set plan. (b', occs) \<in> set (fst (plan_bill c opts today s b)) \<or>
    b' \<in> set bs \<and> trim_space (bill_pattern b') \<noteq> [] \<and> occs = cycleWindow b' c opts today" by simp
  moreover have "(b', occs) \<in> set (fst (plan_bill c opts today s b)) \<Longrightarrow>
      (b', occs) \<in> set (fst s) \<or> b' = b \<and> trim_space (bill_pattern b) \<noteq> [] \<and> occs = cycleWindow b c opts today"
    for b' occs
    by (auto simp: s plan_bill_def Let_def split: if_splits)
  ultimately show ?case by fastforce
qed auto

text \<open>The pass as a fold over a plan that does not depend on the payments.\<close>

lemma ReconcileBills_cases:
  obtains "\<And>ps. ReconcileBills db bs opts today ps = (ps, \<lparr>rs_bills = 0, rs_cycles = 0, rs_compared = 0, rs_linked = 0\<rparr>)"
  | plan rows where
    "\<And>ps. ReconcileBills db bs opts today ps =
       foldl (reconcile_bill rows) (ps, \<lparr>rs_bills = 0, rs_cycles = 0, rs_compared = 0, rs_linked = 0\<rparr>) plan"
    "set rows \<subseteq> set (txns db)"
    "\<forall>(b, occs) \<in> set plan. b \<in> set bs \<and> bill_state b \<noteq> Paused \<and> trim_space (bill_pattern b) \<noteq> [] \<and>
       (\<forall>occ \<in> set occs. \<exists>n. occ = occurrenceAt (bill_anchor b) (bill_cadence b) n)"
proof (cases "earliestPostedDate (txns db)")
  case None
  then show ?thesis by (intro that(1)) (simp add: ReconcileBills_def)
next
  case (Some c)
  define cands where "cands = sort_key bill_id (filter (\<lambda>b. bill_state b = Active \<or> bill_state b = Ended) bs)"
  obtain plan f t where p: "foldl (plan_bill (Some c) opts today) ([], zero_time, zero_time) cands = (plan, f, t)"
    by (cases "foldl (plan_bill (Some c) opts today) ([], zero_time, zero_time) cands")
  show ?thesis
  proof (cases "plan = []")
    case True
    with Some p show ?thesis by (intro that(1)) (simp add: ReconcileBills_def cands_def)
  next
    case False
    show ?thesis
    proof (rule that(2))
      show "ReconcileBills db bs opts today ps = foldl (reconcile_bill
          (sort_key (\<lambda>t. (txn_date t, txn_id t)) (filter (\<lambda>x. f \<le> txn_date x \<and> txn_date x \<le> t) (txns db))))
          (ps, \<lparr>rs_bills = 0, rs_cycles = 0, rs_compared = 0, rs_linked = 0\<rparr>) plan" for ps
        using Some p False by (simp add: ReconcileBills_def cands_def)
      show "set (sort_key (\<lambda>t. (txn_date t, txn_id t)) (filter (\<lambda>x. f \<le> txn_date x \<and> txn_date x \<le> t) (txns db)))
          \<subseteq> set (txns db)" by auto
      show "\<forall>(b, occs) \<in> set plan. b \<in> set bs \<and> bill_state b \<noteq> Paused \<and> trim_space (bill_pattern b) \<noteq> [] \<and>
         (\<forall>occ \<in> set occs. \<exists>n. occ = occurrenceAt (bill_anchor b) (bill_cadence b) n)"
        using plan_members [OF p] unfolding cands_def by (fastforce dest: cycleWindow_occurrences)
    qed
  qed
qed

section \<open>Properties\<close>

text \<open>A concrete bill: rent on the 31st, paid a day late.\<close>

definition ex_bill :: bill where
  "ex_bill = \<lparr>bill_id = 1, bill_name = ''Rent'', bill_payee = [], bill_amount = F64 2000,
     bill_currency = ''AUD'', bill_cadence = Monthly, bill_anchor = at_day (go_date 2026 1 31),
     bill_variable = False, bill_tolerance = F64 10, bill_pattern = ''rent'', bill_window = 2,
     bill_state = Active, bill_ended = None, bill_notes = [], bill_account = None,
     bill_created = 0, bill_updated = 0\<rparr>"

definition ex_rent_db :: fin_db where
  "ex_rent_db = empty_db\<lparr>txns := [\<lparr>txn_id = 7, txn_account = 1, txn_hash = ''h'',
     txn_date = at_day (go_date 2026 3 1), txn_amount = F64 (- 2000), txn_raw = [],
     txn_desc = ''RENT FEB'', txn_merchant = [], txn_after = None\<rparr>]\<rparr>"

definition ex_options :: reconcile_options where
  "ex_options = \<lparr>ro_from = None, ro_to = None\<rparr>"

definition ex_today :: instant where
  "ex_today = at_day (go_date 2026 3 5)"

lemma ex_best:
  "bestMatch (newBillMatcher ex_bill) (by_day (txns ex_rent_db)) (at_day (go_date 2026 2 28)) [] =
     (Some (hd (txns ex_rent_db)), 1)"
  by code_simp

lemma ex_reconcile:
  "ReconcileBills ex_rent_db [ex_bill] ex_options ex_today [] =
     ([\<lparr>pay_id = 1, pay_bill = 1, pay_txn = 7, pay_occ = at_day (go_date 2026 2 28), pay_how = Auto\<rparr>],
      \<lparr>rs_bills = 1, rs_cycles = 1, rs_compared = 1, rs_linked = 1\<rparr>)"
proof -
  let ?occ = "at_day (go_date 2026 2 28)"
  have c: "earliestPostedDate (txns ex_rent_db) = Some (at_day (go_date 2026 3 1))" by code_simp
  have p: "plan_bill (Some (at_day (go_date 2026 3 1))) ex_options ex_today ([], zero_time, zero_time) ex_bill =
      ([(ex_bill, [?occ])], at_day (go_date 2026 2 26), at_day (go_date 2026 3 2))" by code_simp
  have r: "filter (\<lambda>t. at_day (go_date 2026 2 26) \<le> txn_date t \<and> txn_date t \<le> at_day (go_date 2026 3 2))
      (txns ex_rent_db) = txns ex_rent_db"
    by code_simp
  have one: "sort_key k (txns ex_rent_db) = txns ex_rent_db" for k :: "txn \<Rightarrow> instant \<times> nat"
    by (simp add: ex_rent_db_def)
  have st: "bill_state ex_bill = Active" "bill_id ex_bill = 1" by (simp_all add: ex_bill_def)
  have t: "txn_id (hd (txns ex_rent_db)) = 7" by (simp add: ex_rent_db_def)
  show ?thesis
    by (simp add: ReconcileBills_def c st p r one reconcile_bill_def existingPayments_def ex_best t
        insert_payment_def fresh_id_def)
qed

lemma reconcile_adds:
  assumes "ReconcileBills db bs opts today ps = (ps', tally)"
  shows "(\<exists>new. ps' = ps @ new \<and> rs_linked tally = length new \<and>
      (\<forall>p \<in> set new. pay_how p = Auto \<and>
        (\<exists>b \<in> set bs. \<exists>t \<in> set (txns db). pay_bill p = bill_id b \<and> pay_txn p = txn_id t \<and>
           bill_state b \<noteq> Paused \<and> trim_space (bill_pattern b) \<noteq> [] \<and>
           (\<exists>n. pay_occ p = occurrenceAt (bill_anchor b) (bill_cadence b) n) \<and>
           matches (newBillMatcher b) (newCandidate t) (pay_occ p)))) \<and>
    (pays_ok ps \<longrightarrow> pays_ok ps')"
proof (rule ReconcileBills_cases [of db bs opts today])
  assume "\<And>ps. ReconcileBills db bs opts today ps = (ps, \<lparr>rs_bills = 0, rs_cycles = 0, rs_compared = 0, rs_linked = 0\<rparr>)"
  with assms show ?thesis by auto
next
  fix plan rows
  assume R: "\<And>ps. ReconcileBills db bs opts today ps =
       foldl (reconcile_bill rows) (ps, \<lparr>rs_bills = 0, rs_cycles = 0, rs_compared = 0, rs_linked = 0\<rparr>) plan"
    and rows: "set rows \<subseteq> set (txns db)"
    and plan: "\<forall>(b, occs) \<in> set plan. b \<in> set bs \<and> bill_state b \<noteq> Paused \<and> trim_space (bill_pattern b) \<noteq> [] \<and>
       (\<forall>occ \<in> set occs. \<exists>n. occ = occurrenceAt (bill_anchor b) (bill_cadence b) n)"
  have "\<forall>(b, occs) \<in> set plan. \<forall>occ \<in> set occs. normalizeDate occ = occ" using plan by fastforce
  from reconcile_plan_spec [OF this assms [unfolded R]] obtain new where
    new: "ps' = ps @ new" "rs_linked tally = length new" "pays_ok ps \<longrightarrow> pays_ok ps'"
      "\<forall>p \<in> set new. \<exists>(b, occs) \<in> set plan. settles (newBillMatcher b) (by_day rows) occs p"
    by auto
  have "pay_how p = Auto \<and>
        (\<exists>b \<in> set bs. \<exists>t \<in> set (txns db). pay_bill p = bill_id b \<and> pay_txn p = txn_id t \<and>
           bill_state b \<noteq> Paused \<and> trim_space (bill_pattern b) \<noteq> [] \<and>
           (\<exists>n. pay_occ p = occurrenceAt (bill_anchor b) (bill_cadence b) n) \<and>
           matches (newBillMatcher b) (newCandidate t) (pay_occ p))" if "p \<in> set new" for p
  proof -
    from new(4) that obtain b occs where b: "(b, occs) \<in> set plan" "settles (newBillMatcher b) (by_day rows) occs p"
      by blast
    from b(2) obtain d c where c: "(d, c) \<in> set (offers (newBillMatcher b) (by_day rows) (pay_occ p))"
        "matches (newBillMatcher b) c (pay_occ p)" "pay_txn p = txn_id (cand_txn c)"
      by (auto simp: settles_def)
    from offers_by_day [OF c(1)] obtain t where "t \<in> set rows" "c = newCandidate t" by blast
    moreover from this have "cand_txn c = t" by (simp add: newCandidate_def)
    ultimately show ?thesis using b c(2,3) plan rows by (fastforce simp: settles_def)
  qed
  with new show ?thesis by blast
qed

text \<open>C6: the matching pass only adds.  It keeps every payment that is there, hand-made or not,
  and each link it adds is automatic, belongs to an active or ended bill with a match pattern,
  settles an occurrence of that bill, and names a ledger row that satisfies the bill's match rule
  for it; the tally counts the links.  The unique indexes survive.\<close>

theorem reconcile_sound:
  assumes "ReconcileBills db bs opts today ps = (ps', tally)"
  shows "(\<exists>new. ps' = ps @ new \<and> rs_linked tally = length new \<and>
      (\<forall>p \<in> set new. pay_how p = Auto \<and>
        (\<exists>b \<in> set bs. \<exists>t \<in> set (txns db). pay_bill p = bill_id b \<and> pay_txn p = txn_id t \<and>
           bill_state b \<noteq> Paused \<and> trim_space (bill_pattern b) \<noteq> [] \<and>
           (\<exists>n. pay_occ p = occurrenceAt (bill_anchor b) (bill_cadence b) n) \<and>
           matches (newBillMatcher b) (newCandidate t) (pay_occ p)))) \<and>
    (pays_ok ps \<longrightarrow> pays_ok ps')"
  by (rule reconcile_adds [OF assms])

theorem reconcile_sound_witness: "\<exists>ps'. pays_ok ps' \<and> length ps' = 1 \<and>
    (\<exists>tally. ReconcileBills ex_rent_db [ex_bill] ex_options ex_today [] = (ps', tally))"
proof -
  have "pays_ok []" by (simp add: pays_ok_def)
  with reconcile_sound [OF ex_reconcile] show ?thesis using ex_reconcile by fastforce
qed

text \<open>C7: the pass is idempotent: run again with the same options on the same day it links
  nothing more.\<close>

theorem reconcile_idempotent:
  assumes "ReconcileBills db bs opts today ps = (ps1, tally1)"
  shows "\<exists>tally2. ReconcileBills db bs opts today ps1 = (ps1, tally2) \<and> rs_linked tally2 = 0"
proof (rule ReconcileBills_cases [of db bs opts today])
  assume "\<And>ps. ReconcileBills db bs opts today ps = (ps, \<lparr>rs_bills = 0, rs_cycles = 0, rs_compared = 0, rs_linked = 0\<rparr>)"
  with assms show ?thesis by auto
next
  fix plan rows
  assume R: "\<And>ps. ReconcileBills db bs opts today ps =
       foldl (reconcile_bill rows) (ps, \<lparr>rs_bills = 0, rs_cycles = 0, rs_compared = 0, rs_linked = 0\<rparr>) plan"
    and plan: "\<forall>(b, occs) \<in> set plan. b \<in> set bs \<and> bill_state b \<noteq> Paused \<and> trim_space (bill_pattern b) \<noteq> [] \<and>
       (\<forall>occ \<in> set occs. \<exists>n. occ = occurrenceAt (bill_anchor b) (bill_cadence b) n)"
  have "\<forall>(b, occs) \<in> set plan. \<forall>occ \<in> set occs. normalizeDate occ = occ" using plan by fastforce
  from reconcile_plan_spec [OF this assms [unfolded R]]
  have "\<forall>(b, occs) \<in> set plan. \<forall>occ \<in> set occs. stuck (newBillMatcher b) (by_day rows) ps1 occ" by blast
  from reconcile_plan_stuck [OF this, of "\<lparr>rs_bills = 0, rs_cycles = 0, rs_compared = 0, rs_linked = 0\<rparr>"]
  show ?thesis unfolding R by simp
qed

theorem reconcile_idempotent_witness:
  "\<exists>tally2. ReconcileBills ex_rent_db [ex_bill] ex_options ex_today
     [\<lparr>pay_id = 1, pay_bill = 1, pay_txn = 7, pay_occ = at_day (go_date 2026 2 28), pay_how = Auto\<rparr>] =
     ([\<lparr>pay_id = 1, pay_bill = 1, pay_txn = 7, pay_occ = at_day (go_date 2026 2 28), pay_how = Auto\<rparr>], tally2) \<and>
     rs_linked tally2 = 0"
  by (rule reconcile_idempotent [OF ex_reconcile])

text \<open>the chosen row is a best one.  The pass finds a row for a cycle exactly when an unused
  row posted within the match window satisfies the rule, and the row it takes is posted as close
  to the due date as any of them.\<close>

theorem best_match_optimal:
  "(fst (bestMatch m (by_day rows) occ used) = None \<longleftrightarrow>
      (\<forall>(d, c) \<in> set (offers m (by_day rows) occ). \<not> eligible m occ used c)) \<and>
   (\<forall>t n. bestMatch m (by_day rows) occ used = (Some t, n) \<longrightarrow>
      (\<exists>d. \<bar>d\<bar> \<le> bill_window (bm_bill m) \<and> t \<in> set rows \<and> txn_id t \<notin> set used \<and>
         matches m (newCandidate t) occ \<and> normalizeDate (txn_date t) = add_date occ 0 0 d \<and>
         (\<forall>(d', c') \<in> set (offers m (by_day rows) occ). eligible m occ used c' \<longrightarrow> \<bar>d\<bar> \<le> \<bar>d'\<bar>)))"
proof (intro conjI allI impI)
  show "fst (bestMatch m (by_day rows) occ used) = None \<longleftrightarrow>
      (\<forall>(d, c) \<in> set (offers m (by_day rows) occ). \<not> eligible m occ used c)"
    by (rule bestMatch_None)
  fix t n assume "bestMatch m (by_day rows) occ used = (Some t, n)"
  from bestMatch_Some [OF this] obtain d c where c:
    "(d, c) \<in> set (offers m (by_day rows) occ)" "eligible m occ used c" "cand_txn c = t"
    "\<forall>(d', c') \<in> set (offers m (by_day rows) occ). eligible m occ used c' \<longrightarrow> \<bar>d\<bar> \<le> \<bar>d'\<bar>" by blast
  from offers_by_day [OF c(1)] obtain t0 where t0: "t0 \<in> set rows" "c = newCandidate t0"
    "normalizeDate (txn_date t0) = add_date occ 0 0 d" by blast
  then have "t0 = t" using c(3) by (simp add: newCandidate_def)
  moreover have "\<bar>d\<bar> \<le> bill_window (bm_bill m)" using c(1) by (auto simp: offers_def)
  ultimately show "\<exists>d. \<bar>d\<bar> \<le> bill_window (bm_bill m) \<and> t \<in> set rows \<and> txn_id t \<notin> set used \<and>
         matches m (newCandidate t) occ \<and> normalizeDate (txn_date t) = add_date occ 0 0 d \<and>
         (\<forall>(d', c') \<in> set (offers m (by_day rows) occ). eligible m occ used c' \<longrightarrow> \<bar>d\<bar> \<le> \<bar>d'\<bar>)"
    using c t0 by (auto simp: eligible_def)
qed

theorem best_match_optimal_witness:
  "\<exists>d. \<bar>d\<bar> \<le> 2 \<and> at_day (go_date 2026 3 1) = add_date (at_day (go_date 2026 2 28)) 0 0 d"
proof -
  let ?t = "hd (txns ex_rent_db)"
  note b = ex_best
  have w: "bill_window (bm_bill (newBillMatcher ex_bill)) = 2" "normalizeDate (txn_date ?t) = at_day (go_date 2026 3 1)"
    by (simp_all add: ex_bill_def ex_rent_db_def)
  from best_match_optimal [of "newBillMatcher ex_bill" "txns ex_rent_db" "at_day (go_date 2026 2 28)" "[]"] b w
  show ?thesis by auto
qed

text \<open>The occurrence a hand-made link is for, and whether it is one.\<close>

lemma link_occurrence:
  assumes "occ = (case occurrence of None \<Rightarrow> nearestOccurrence anchor c date | Some d \<Rightarrow> normalizeDate d)"
    and "\<forall>d. occurrence = Some d \<longrightarrow> in_range anchor c d"
  shows "occurrence \<noteq> None \<and> \<not> isOccurrence anchor c occ \<Longrightarrow>
      \<exists>d. occurrence = Some d \<and> (\<forall>n. occurrenceAt anchor c n \<noteq> normalizeDate d)"
    and "\<not> (occurrence \<noteq> None \<and> \<not> isOccurrence anchor c occ) \<Longrightarrow> \<exists>n. occ = occurrenceAt anchor c n"
proof -
  have grid: "isOccurrence anchor c (normalizeDate d) \<longleftrightarrow> (\<exists>n. occurrenceAt anchor c n = normalizeDate d)"
    if "occurrence = Some d" for d
    using isOccurrence_grid [of anchor c "normalizeDate d"] assms(2) that by auto
  show "occurrence \<noteq> None \<and> \<not> isOccurrence anchor c occ \<Longrightarrow>
      \<exists>d. occurrence = Some d \<and> (\<forall>n. occurrenceAt anchor c n \<noteq> normalizeDate d)"
    using assms(1) grid by (auto split: option.splits)
  show "\<not> (occurrence \<noteq> None \<and> \<not> isOccurrence anchor c occ) \<Longrightarrow> \<exists>n. occ = occurrenceAt anchor c n"
    using assms(1) grid nearestOccurrence_grid [of anchor c date] by (cases occurrence) (auto, metis)
qed

text \<open>What \<open>LinkBillPayment\<close> does once the occurrence is settled: a manual link of the cycle refuses it, an
  automatic one makes room.\<close>

lemma LinkBillPayment_settled:
  assumes "find (\<lambda>b. bill_id b = billID) bs = Some b" "find (\<lambda>t. txn_id t = txnID) (txns db) = Some t" "pays_ok ps"
    and "occ = (case occurrence of
      None \<Rightarrow> nearestOccurrence (bill_anchor b) (bill_cadence b) (txn_date t) | Some d \<Rightarrow> normalizeDate d)"
    and "\<not> (occurrence \<noteq> None \<and> \<not> isOccurrence (bill_anchor b) (bill_cadence b) occ)"
  shows "LinkBillPayment db bs billID txnID occurrence ps =
    (if \<exists>q \<in> set ps. pay_bill q = billID \<and> pay_occ q = occ \<and> pay_how q = Manual then Inl CycleAlreadyLinked
     else case insert_payment \<lparr>pay_id = 0, pay_bill = billID, pay_txn = txnID, pay_occ = occ, pay_how = Manual\<rparr>
         (filter (\<lambda>q. \<not> (pay_bill q = billID \<and> pay_occ q = occ)) ps) of
       None \<Rightarrow> Inl LinkConstraint | Some ps' \<Rightarrow> Inr (ps', List.last ps'))"
proof -
  let ?of_cycle = "\<lambda>p. pay_bill p = billID \<and> pay_occ p = occ"
  have t: "txn_id t = txnID" using assms(2) by (auto dest: find_SomeD)
  show ?thesis
  proof (cases "find ?of_cycle ps")
    case None
    then have no: "\<forall>q \<in> set ps. \<not> ?of_cycle q" by (auto simp: find_None_iff')
    then have "filter (\<lambda>q. \<not> ?of_cycle q) ps = ps" by (simp add: filter_id_conv)
    then show ?thesis using no None assms(1,2,5) t by (auto simp: LinkBillPayment_def simp flip: assms(4))
  next
    case (Some e)
    then have e: "e \<in> set ps" "pay_bill e = billID" "pay_occ e = occ" by (auto dest: find_SomeD)
    have only: "q = e" if "q \<in> set ps" "?of_cycle q" for q
      using that e assms(3) by (auto simp: pays_ok_def distinct_map inj_on_def)
    have "inj_on pay_id (set ps)" using assms(3) by (simp add: pays_ok_def distinct_map)
    then have "pay_id q \<noteq> pay_id e \<longleftrightarrow> \<not> ?of_cycle q" if "q \<in> set ps" for q
      using only [OF that] inj_onD [OF _ _ that e(1)] e by blast
    then have rest: "filter (\<lambda>p. pay_id p \<noteq> pay_id e) ps = filter (\<lambda>q. \<not> ?of_cycle q) ps" by (auto intro: filter_cong)
    have manual: "(\<exists>q \<in> set ps. ?of_cycle q \<and> pay_how q = Manual) \<longleftrightarrow> pay_how e = Manual" using only e by blast
    show ?thesis unfolding conj_assoc [symmetric] manual
      using Some assms(1,2,5) t rest by (auto simp: LinkBillPayment_def simp flip: assms(4))
  qed
qed

lemma manual_link_inserted:
  assumes "pays_ok ps"
  shows "case insert_payment \<lparr>pay_id = 0, pay_bill = i, pay_txn = j, pay_occ = occ, pay_how = Manual\<rparr>
      (filter (\<lambda>q. \<not> (pay_bill q = i \<and> pay_occ q = occ)) ps) of
    None \<Rightarrow> \<exists>q \<in> set ps. pay_bill q = i \<and> pay_txn q = j
  | Some ps' \<Rightarrow> pay_how (List.last ps') = Manual \<and> pay_bill (List.last ps') = i \<and> pay_txn (List.last ps') = j \<and>
      pay_occ (List.last ps') = occ \<and> pays_ok ps' \<and>
      set ps' = insert (List.last ps') {q \<in> set ps. \<not> (pay_bill q = i \<and> pay_occ q = occ)}"
proof -
  let ?qs = "filter (\<lambda>q. \<not> (pay_bill q = i \<and> pay_occ q = occ)) ps"
  have qs: "pays_ok ?qs" using assms by (auto simp: pays_ok_def intro: distinct_map_filter)
  show ?thesis
  proof (cases "insert_payment \<lparr>pay_id = 0, pay_bill = i, pay_txn = j, pay_occ = occ, pay_how = Manual\<rparr> ?qs")
    case None
    then show ?thesis by (auto simp: insert_payment_def split: if_splits)
  next
    case (Some ps')
    with insert_payment_Some [OF Some] qs show ?thesis by auto
  qed
qed



text \<open>the reported due date and the overdue flag describe the same cycle.  An overdue bill is
  active and auto-matched and its reported date is its last occurrence before today, more than
  the match window ago, on or after the anchor, not after the end date and not settled by any
  payment.  A bill that is not overdue reports an occurrence on or after today, or, once ended,
  its last occurrence on or before the end date.\<close>

theorem bill_view_due:
  assumes "in_range (bill_anchor b) (bill_cadence b) today"
    and "\<forall>e. bill_ended b = Some e \<longrightarrow> in_range (bill_anchor b) (bill_cadence b) e"
  shows "let v = billView db pays b coverageFrom today in
    (\<exists>n. bv_next_due v = occurrenceAt (bill_anchor b) (bill_cadence b) n) \<and>
    (bv_overdue v \<longrightarrow> bill_state b = Active \<and> bv_auto v \<and> bv_next_due v < normalizeDate today \<and>
       add_date (bv_next_due v) 0 0 (bill_window b) < today \<and> normalizeDate (bill_anchor b) \<le> bv_next_due v \<and>
       (\<forall>e. bill_ended b = Some e \<longrightarrow> bv_next_due v \<le> normalizeDate e) \<and>
       (\<forall>p \<in> set pays. pay_bill p = bill_id b \<longrightarrow> pay_occ p \<noteq> bv_next_due v)) \<and>
    (\<not> bv_overdue v \<longrightarrow> normalizeDate today \<le> bv_next_due v \<or>
       (\<exists>e. bill_ended b = Some e \<and> bv_next_due v \<le> normalizeDate e \<and>
          (\<forall>n. occurrenceAt (bill_anchor b) (bill_cadence b) n \<le> normalizeDate e \<longrightarrow>
             occurrenceAt (bill_anchor b) (bill_cadence b) n \<le> bv_next_due v)))"
proof -
  note D = dueOrdinal_due [OF assms(1)]
  let ?v = "billView db pays b coverageFrom today"
  let ?prev = "prevDue (bill_anchor b) (bill_cadence b) today"
  have v: "bv_overdue ?v = isOverdue b pays coverageFrom ?prev today" "bv_auto ?v = (trim_space (bill_pattern b) \<noteq> [])"
    by (simp_all add: billView_def Let_def)
  show ?thesis
  proof (cases "isOverdue b pays coverageFrom ?prev today")
    case True
    then have n: "bv_next_due ?v = ?prev" by (simp add: billView_def Let_def)
    have "?prev < normalizeDate today" using D by (simp add: occurrences.due_def prevDue_def)
    moreover have "\<exists>n. ?prev = occurrenceAt (bill_anchor b) (bill_cadence b) n" by (auto simp: prevDue_def)
    ultimately show ?thesis
      using True unfolding v n Let_def
      by (auto simp: isOverdue_def count_where_0 split: if_splits option.splits)
  next
    case False
    let ?due = "nextDue (bill_anchor b) (bill_cadence b) today"
    have d: "normalizeDate today \<le> ?due" "\<exists>n. ?due = occurrenceAt (bill_anchor b) (bill_cadence b) n"
      using D by (auto simp: occurrences.due_def nextDue_def)
    show ?thesis
    proof (cases "\<exists>e. bill_ended b = Some e \<and> ?due > normalizeDate e")
      case True
      then obtain e where e: "bill_ended b = Some e" "?due > normalizeDate e" by blast
      with False have n: "bv_next_due ?v = lastOccurrenceOnOrBefore (bill_anchor b) (bill_cadence b) (normalizeDate e)"
        by (simp add: billView_def Let_def)
      have "in_range (bill_anchor b) (bill_cadence b) (normalizeDate e)" using assms(2) e(1) by simp
      note L = lastOccurrence_grid [OF this, simplified]
      show ?thesis unfolding Let_def v n using L False e(1) by auto
    next
      case no: False
      with False have n: "bv_next_due ?v = ?due"
        by (auto simp: billView_def Let_def split: option.splits)
      show ?thesis unfolding Let_def v n using d False by auto
    qed
  qed
qed

theorem bill_view_due_witness:
  "\<exists>n. bv_next_due (billView ex_rent_db [] ex_bill None ex_today) =
     occurrenceAt (bill_anchor ex_bill) (bill_cadence ex_bill) n"
proof -
  have "in_range (bill_anchor ex_bill) (bill_cadence ex_bill) ex_today" "bill_ended ex_bill = None"
    by (simp_all add: in_range_def ex_bill_def cadenceStep_def)
  with bill_view_due [of ex_bill ex_today ex_rent_db "[]" None] show ?thesis by (simp add: Let_def)
qed

text \<open>the list of commitments is exact and ordered.  A valid filter returns one view per
  bill of the requested status and account, most urgent first and then by name; with a horizon
  it keeps exactly the overdue ones and those due from today to the horizon.  An invalid status
  is refused.  The money totals are those of the active bills of the list, the count is all.\<close>

theorem list_bills_exact:
  "(parse_bill_status (bf_status f) = None \<longleftrightarrow> ListRecurringBills db bs pays f today = Inl (bf_status f)) \<and>
   (\<forall>st. parse_bill_status (bf_status f) = Some st \<longrightarrow>
     (\<exists>views. ListRecurringBills db bs pays f today = Inr (views, billTotals views) \<and>
       sorted (map (\<lambda>v. (bv_days v, bv_name v)) views) \<and>
       set views = {v. \<exists>b \<in> set bs. v = billView db pays b (earliestPostedDate (txns db)) today \<and>
         (st = None \<or> st = Some (bill_state b)) \<and> (bf_account f \<noteq> 0 \<longrightarrow> bill_account b = Some (bf_account f)) \<and>
         (bf_within f > 0 \<longrightarrow> bv_overdue v \<or> 0 \<le> bv_days v \<and> bv_days v \<le> bf_within f)} \<and>
       bt_count (billTotals views) = length views \<and>
       bt_committed (billTotals views) = bt_committed (billTotals (filter (\<lambda>v. bv_status v = Active) views))))"
proof -
  have tot: "foldl (\<lambda>t v. if bv_status v \<noteq> Active then t
                  else t\<lparr>bt_committed := bt_committed t + bv_amount v, bt_monthly := bt_monthly t + bv_monthly v\<rparr>)
       s views = foldl (\<lambda>t v. if bv_status v \<noteq> Active then t
                  else t\<lparr>bt_committed := bt_committed t + bv_amount v, bt_monthly := bt_monthly t + bv_monthly v\<rparr>)
       s (filter (\<lambda>v. bv_status v = Active) views)" for s views
    by (induction views arbitrary: s) simp_all
  have cnt: "bt_count (foldl (\<lambda>t v. if bv_status v \<noteq> Active then t
                  else t\<lparr>bt_committed := bt_committed t + bv_amount v, bt_monthly := bt_monthly t + bv_monthly v\<rparr>)
       s views) = bt_count s" for s views
    by (induction views arbitrary: s) simp_all
  have committed: "bt_committed (foldl (\<lambda>t v. if bv_status v \<noteq> Active then t
                  else t\<lparr>bt_committed := bt_committed t + bv_amount v, bt_monthly := bt_monthly t + bv_monthly v\<rparr>)
       s views) = bt_committed (foldl (\<lambda>t v. if bv_status v \<noteq> Active then t
                  else t\<lparr>bt_committed := bt_committed t + bv_amount v, bt_monthly := bt_monthly t + bv_monthly v\<rparr>)
       s' views)" if "bt_committed s = bt_committed s'" for s s' views
    using that by (induction views arbitrary: s s') simp_all
  have T: "bt_count (billTotals views) = length views"
    "bt_committed (billTotals views) = bt_committed (billTotals (filter (\<lambda>v. bv_status v = Active) views))" for views
    unfolding billTotals_def cnt by (simp, subst tot, rule committed, simp)
  show ?thesis
  proof (intro conjI allI impI)
    show "parse_bill_status (bf_status f) = None \<longleftrightarrow> ListRecurringBills db bs pays f today = Inl (bf_status f)"
      by (simp add: ListRecurringBills_def Let_def split: option.split)
  next
    fix st assume st: "parse_bill_status (bf_status f) = Some st"
    let ?view = "\<lambda>b. billView db pays b (earliestPostedDate (txns db)) today"
    let ?sel = "\<lambda>b. (st = None \<or> st = Some (bill_state b)) \<and>
      (bf_account f \<noteq> 0 \<longrightarrow> bill_account b = Some (bf_account f))"
    let ?keep = "\<lambda>v. \<not> (bf_within f > 0 \<and> \<not> bv_overdue v \<and> (bv_days v < 0 \<or> bv_days v > bf_within f))"
    define views where "views = sort_key (\<lambda>v. (bv_days v, bv_name v))
      (filter ?keep (map ?view (sort_key bill_name (filter ?sel bs))))"
    have L: "ListRecurringBills db bs pays f today = Inr (views, billTotals views)"
      by (simp add: ListRecurringBills_def st Let_def views_def)
    have s: "sorted (map (\<lambda>v. (bv_days v, bv_name v)) views)"
      unfolding views_def by (rule sorted_sort_key)
    have keep: "?keep v \<longleftrightarrow> (bf_within f > 0 \<longrightarrow> bv_overdue v \<or> 0 \<le> bv_days v \<and> bv_days v \<le> bf_within f)" for v
      by (auto simp: not_less)
    have "set views = {v. \<exists>b \<in> set bs. v = ?view b \<and> ?sel b \<and> ?keep v}"
      unfolding views_def set_sort set_filter set_map by blast
    then have m: "set views = {v. \<exists>b \<in> set bs. v = ?view b \<and>
         (st = None \<or> st = Some (bill_state b)) \<and> (bf_account f \<noteq> 0 \<longrightarrow> bill_account b = Some (bf_account f)) \<and>
         (bf_within f > 0 \<longrightarrow> bv_overdue v \<or> 0 \<le> bv_days v \<and> bv_days v \<le> bf_within f)}"
      unfolding keep by (simp only: conj_assoc)
    show "\<exists>views. ListRecurringBills db bs pays f today = Inr (views, billTotals views) \<and>
       sorted (map (\<lambda>v. (bv_days v, bv_name v)) views) \<and>
       set views = {v. \<exists>b \<in> set bs. v = billView db pays b (earliestPostedDate (txns db)) today \<and>
         (st = None \<or> st = Some (bill_state b)) \<and> (bf_account f \<noteq> 0 \<longrightarrow> bill_account b = Some (bf_account f)) \<and>
         (bf_within f > 0 \<longrightarrow> bv_overdue v \<or> 0 \<le> bv_days v \<and> bv_days v \<le> bf_within f)} \<and>
       bt_count (billTotals views) = length views \<and>
       bt_committed (billTotals views) = bt_committed (billTotals (filter (\<lambda>v. bv_status v = Active) views))"
      using L s m T by blast
  qed
qed

theorem list_bills_exact_witness:
  "\<exists>views. ListRecurringBills ex_rent_db [ex_bill] [] \<lparr>bf_status = '' Active'', bf_within = 0, bf_account = 0\<rparr> ex_today =
     Inr (views, billTotals views) \<and> views \<noteq> []"
proof -
  let ?f = "\<lparr>bf_status = '' Active'', bf_within = 0, bf_account = 0\<rparr>"
  have "parse_bill_status (bf_status ?f) = Some (Some Active)" by code_simp
  with conjunct2 [OF list_bills_exact, of ?f ex_rent_db "[ex_bill]" "[]" ex_today] obtain views where
    v: "ListRecurringBills ex_rent_db [ex_bill] [] ?f ex_today = Inr (views, billTotals views)"
    "set views = {v. \<exists>b \<in> set [ex_bill]. v = billView ex_rent_db [] b (earliestPostedDate (txns ex_rent_db)) ex_today \<and>
         (Some Active = None \<or> Some Active = Some (bill_state b)) \<and>
         (bf_account ?f \<noteq> 0 \<longrightarrow> bill_account b = Some (bf_account ?f)) \<and>
         (bf_within ?f > 0 \<longrightarrow> bv_overdue v \<or> 0 \<le> bv_days v \<and> bv_days v \<le> bf_within ?f)}" by blast
  have "set views \<noteq> {}" unfolding v(2) by (simp add: ex_bill_def)
  with v(1) show ?thesis by fastforce
qed

end
