(* ===== verification/Jobs.thy ===== *)
theory Jobs
  imports GoTime
begin

text \<open>
  The scheduler of \<open>internal/jobs\<close>: the registry of job kinds, the tables it works on (scheduled
  jobs, job runs, artifacts), one tick with its dedup insert under the unique (job, tick) index,
  and the maintenance sweeps.

  The cron library, the time zone database and the message queue are parameters (\<open>sched_env\<close>);
  so is the clock read by column defaults (\<open>e_wall\<close>, the \<open>time.Now\<close> behind \<open>created_at\<close>), which is
  not the tick's own \<open>now\<close>.  Failures of the database are not modelled, and the columns no
  operation here reads (\<open>stats\<close>, \<open>updated_at\<close>) are left out.
\<close>

section \<open>Tables\<close>

datatype stage = Scrape | Llm
datatype job_runner = RunnerServer | RunnerLocal | RunnerAny
datatype run_status = Queued | Running | Succeeded | Failed | Cancelled | AwaitingAck
datatype run_trigger = TriggerSchedule | TriggerManual
datatype storage = Inline | S3
datatype artifact_status = Pending | Claimed | Done | ArtifactFailed | Expired

text \<open>\<open>j_config\<close> is the decoded settings object: its keys and values as JSON text, in key order.\<close>

record sched_job =
  j_id :: nat
  j_key :: string
  j_name :: string
  j_stage :: stage
  j_enabled :: bool
  j_schedule :: string
  j_timezone :: string
  j_runner :: job_runner
  j_config :: "(string \<times> string) list"
  j_last_run_at :: "instant option"
  j_next_run_at :: "instant option"

record job_run =
  r_id :: nat
  r_job :: nat
  r_status :: run_status
  r_trigger :: run_trigger
  r_runner :: string
  r_scheduled_for :: instant
  r_started_at :: "instant option"
  r_claimable_at :: "instant option"
  r_finished_at :: "instant option"
  r_error :: string
  r_created_at :: instant

record artifact =
  a_id :: nat
  a_job :: nat
  a_produced_by :: nat
  a_consumed_by :: "nat option"
  a_label :: string
  a_storage :: storage
  a_content :: string
  a_s3_key :: string
  a_content_type :: string
  a_size_bytes :: int
  a_status :: artifact_status
  a_claimed_by :: string
  a_claimed_at :: "instant option"
  a_expires_at :: "instant option"

record queue_job =
  q_type :: string
  q_payload :: string
  q_run :: nat

datatype notification =
    NotifyRefresh nat string
  | NotifyRunStarted nat string string
  | NotifyRunFinished nat string string string

text \<open>\<open>d_queue\<close> is every message handed to the queue so far, \<open>d_notes\<close> every call of the notifier.\<close>

record jobs_db =
  d_jobs :: "sched_job list"
  d_runs :: "job_run list"
  d_artifacts :: "artifact list"
  d_queue :: "queue_job list"
  d_notes :: "notification list"

record ('c, 'l) sched_env =
  e_cron :: "string \<Rightarrow> 'c option"
  e_zone :: "string \<Rightarrow> 'l option"
  e_next :: "'c \<Rightarrow> 'l \<Rightarrow> instant \<Rightarrow> instant"
  e_configured :: bool
  e_enqueue_ok :: "queue_job \<Rightarrow> bool"
  e_notifier :: bool
  e_wall :: instant

datatype sched_error = ParseCron string | LoadZone string

fun status_name :: "run_status \<Rightarrow> string" where
  "status_name Queued = ''queued''"
| "status_name Running = ''running''"
| "status_name Succeeded = ''succeeded''"
| "status_name Failed = ''failed''"
| "status_name Cancelled = ''cancelled''"
| "status_name AwaitingAck = ''awaiting_ack''"

definition queuedRedriveAfter :: duration where "queuedRedriveAfter = 5 * minute_ns"
definition runningLease :: duration where "runningLease = 30 * minute_ns"
definition ackGatedRunningLease :: duration where "ackGatedRunningLease = 4 * hour_ns"
definition awaitingAckTTL :: duration where "awaitingAckTTL = 12 * hour_ns"

section \<open>The catalog of job kinds\<close>

record kind =
  k_key :: string
  k_name :: string
  k_stage :: string
  k_schedule :: string
  k_timezone :: string
  k_description :: string
  k_ack_gated :: bool

definition em_dash :: string where
  "em_dash = [CHR 0xE2, CHR 0x80, CHR 0x94]"

definition kinds :: "kind list" where
  "kinds =
    [ \<lparr>k_key = ''digest.scrape'', k_name = ''Digest '' @ em_dash @ '' scrape sources'',
       k_stage = ''scrape'', k_schedule = ''30 17 * * *'', k_timezone = ''UTC'',
       k_description = ''Fetch the active Sources on-box and persist one Artifact per source (never calls Anthropic).'',
       k_ack_gated = False\<rparr>,
      \<lparr>k_key = ''digest.llm'', k_name = ''Digest '' @ em_dash @ '' summarise'',
       k_stage = ''llm'', k_schedule = ''0 18 * * *'', k_timezone = ''UTC'',
       k_description = ''Assemble the pending scrape Artifacts and summarise them into the dated Digest.'',
       k_ack_gated = False\<rparr>,
      \<lparr>k_key = ''finance.sync'', k_name = ''Finance sync'',
       k_stage = ''scrape'', k_schedule = ''0 20 * * *'', k_timezone = ''UTC'',
       k_description = ''Plan a daily finance refresh window and hand it to the external finance source. Ack-gated: the run pauses for a one-off human approval before it becomes claimable (see ADR 0016).'',
       k_ack_gated = True\<rparr> ]"

definition Kinds :: "kind list" where
  "Kinds = kinds"

definition LookupKind :: "string \<Rightarrow> kind option" where
  "LookupKind key = find (\<lambda>k. k_key k = key) kinds"

definition ackGatedKeys :: "string list" where
  "ackGatedKeys = map k_key (filter k_ack_gated kinds)"

section \<open>Schedules\<close>

definition parseSchedule :: "('c, 'l) sched_env \<Rightarrow> string \<Rightarrow> string \<Rightarrow> sched_error + 'c \<times> 'l" where
  "parseSchedule e expr timezone =
     (case e_cron e expr of None \<Rightarrow> Inl (ParseCron expr)
      | Some c \<Rightarrow>
          (let tz = (if timezone = '''' then ''UTC'' else timezone)
           in case e_zone e tz of None \<Rightarrow> Inl (LoadZone tz) | Some l \<Rightarrow> Inr (c, l)))"

definition ValidateCron :: "('c, 'l) sched_env \<Rightarrow> string \<Rightarrow> bool" where
  "ValidateCron e expr \<longleftrightarrow> e_cron e expr \<noteq> None"

definition NextRun :: "('c, 'l) sched_env \<Rightarrow> string \<Rightarrow> string \<Rightarrow> instant \<Rightarrow> sched_error + instant" where
  "NextRun e expr timezone after =
     (case parseSchedule e expr timezone of Inl err \<Rightarrow> Inl err
      | Inr s \<Rightarrow> Inr (e_next e (fst s) (snd s) after))"

section \<open>Firing one job\<close>

definition marshal_config :: "(string \<times> string) list \<Rightarrow> string" where
  "marshal_config c = ''{'' @ join '','' (map (\<lambda>(k, v). k @ '':'' @ v) c) @ ''}''"

definition enqueueRun :: "('c, 'l) sched_env \<Rightarrow> sched_job \<Rightarrow> nat \<Rightarrow> jobs_db \<Rightarrow> jobs_db \<times> bool" where
  "enqueueRun e job runID db =
     (let body = (if j_config job \<noteq> [] then marshal_config (j_config job) else ''{}'');
          msg = \<lparr>q_type = j_key job, q_payload = body, q_run = runID\<rparr>
      in if e_enqueue_ok e msg then (db\<lparr>d_queue := d_queue db @ [msg]\<rparr>, True) else (db, False))"

definition notify :: "('c, 'l) sched_env \<Rightarrow> notification \<Rightarrow> jobs_db \<Rightarrow> jobs_db" where
  "notify e n db = (if e_notifier e then db\<lparr>d_notes := d_notes db @ [n]\<rparr> else db)"

text \<open>The insert under the unique \<open>(scheduled_for, job)\<close> index, \<open>ON CONFLICT DO NOTHING\<close>.\<close>

definition run_key :: "job_run \<Rightarrow> instant \<times> nat" where
  "run_key r = (r_scheduled_for r, r_job r)"

definition insert_run :: "job_run \<Rightarrow> job_run list \<Rightarrow> job_run list \<times> bool" where
  "insert_run r rs =
     (if run_key r \<in> set (map run_key rs) then (rs, False)
      else (rs @ [r\<lparr>r_id := fresh_id (map r_id rs)\<rparr>], True))"

definition new_run :: "instant \<Rightarrow> nat \<Rightarrow> run_status \<Rightarrow> run_trigger \<Rightarrow> instant \<Rightarrow> job_run" where
  "new_run wall job status trigger scheduledFor =
     \<lparr>r_id = 0, r_job = job, r_status = status, r_trigger = trigger, r_runner = '''',
      r_scheduled_for = scheduledFor, r_started_at = None, r_claimable_at = None,
      r_finished_at = None, r_error = '''', r_created_at = wall\<rparr>"

definition fire ::
  "('c, 'l) sched_env \<Rightarrow> sched_job \<Rightarrow> instant \<Rightarrow> instant \<Rightarrow> instant \<Rightarrow> run_status \<Rightarrow> jobs_db
     \<Rightarrow> (bool \<times> nat) \<times> jobs_db" where
  "fire e job scheduledFor nxt now initialStatus db =
     (let ins = insert_run (new_run (e_wall e) (j_id job) initialStatus TriggerSchedule scheduledFor) (d_runs db);
          fresh = snd ins;
          jobs = update_where (\<lambda>j. j_id j = j_id job)
                   (\<lambda>j. j\<lparr>j_next_run_at := Some nxt, j_last_run_at := Some now\<rparr>) (d_jobs db)
      in ((fresh, if fresh then r_id (last (fst ins)) else 0),
          db\<lparr>d_runs := fst ins, d_jobs := jobs\<rparr>))"

definition ack_gated :: "string \<Rightarrow> bool" where
  "ack_gated key = (case LookupKind key of Some k \<Rightarrow> k_ack_gated k | None \<Rightarrow> False)"

definition evaluate ::
  "('c, 'l) sched_env \<Rightarrow> instant \<Rightarrow> sched_job \<Rightarrow> jobs_db \<Rightarrow> sched_error + jobs_db" where
  "evaluate e now job db =
     (case parseSchedule e (j_schedule job) (j_timezone job) of Inl err \<Rightarrow> Inl err
      | Inr s \<Rightarrow>
         (let nxt = e_next e (fst s) (snd s) now
          in case j_next_run_at job of
               None \<Rightarrow> Inr (db\<lparr>d_jobs := update_where (\<lambda>j. j_id j = j_id job)
                              (\<lambda>j. j\<lparr>j_next_run_at := Some nxt\<rparr>) (d_jobs db)\<rparr>)
             | Some scheduledFor \<Rightarrow>
                 if now < scheduledFor then Inr db
                 else
                   (let ackGated = ack_gated (j_key job);
                        initialStatus = (if ackGated then AwaitingAck else Queued);
                        f = fire e job scheduledFor nxt now initialStatus db;
                        fresh = fst (fst f); runID = snd (fst f); db1 = snd f
                    in if \<not> fresh then Inr db1
                       else if ackGated then Inr (notify e (NotifyRefresh runID (j_name job)) db1)
                       else Inr (fst (enqueueRun e job runID db1)))))"

section \<open>Maintenance sweeps\<close>

text \<open>\<open>job_of\<close> follows a run's required job edge.\<close>

definition job_of :: "jobs_db \<Rightarrow> nat \<Rightarrow> sched_job option" where
  "job_of db i = find (\<lambda>j. j_id j = i) (d_jobs db)"

definition has_job :: "jobs_db \<Rightarrow> (sched_job \<Rightarrow> bool) \<Rightarrow> nat \<Rightarrow> bool" where
  "has_job db p i = (case job_of db i of Some j \<Rightarrow> p j | None \<Rightarrow> False)"

definition redriveQueued :: "('c, 'l) sched_env \<Rightarrow> instant \<Rightarrow> jobs_db \<Rightarrow> jobs_db" where
  "redriveQueued e now db =
     (let cutoff = now - queuedRedriveAfter;
          runs = filter (\<lambda>r. r_status r = Queued \<and> r_trigger r = TriggerSchedule \<and> r_created_at r < cutoff)
                   (d_runs db)
      in foldl (\<lambda>d r. case job_of db (r_job r) of None \<Rightarrow> d
                      | Some job \<Rightarrow> fst (enqueueRun e job (r_id r) d)) db runs)"

definition started_before :: "instant \<Rightarrow> job_run \<Rightarrow> bool" where
  "started_before cutoff r = (case r_started_at r of Some t \<Rightarrow> t < cutoff | None \<Rightarrow> False)"

definition close_run :: "run_status \<Rightarrow> string \<Rightarrow> instant \<Rightarrow> job_run \<Rightarrow> job_run" where
  "close_run to reason now r = r\<lparr>r_status := to, r_error := reason, r_finished_at := Some now\<rparr>"

definition close_one ::
  "('c, 'l) sched_env \<Rightarrow> jobs_db \<Rightarrow> run_status \<Rightarrow> run_status \<Rightarrow> string \<Rightarrow> instant
     \<Rightarrow> jobs_db \<times> nat \<Rightarrow> job_run \<Rightarrow> jobs_db \<times> nat" where
  "close_one e loaded frm to reason now st r =
     (let db = fst st;
          p = (\<lambda>x. r_id x = r_id r \<and> r_status x = frm);
          n = count_where p (d_runs db);
          name = (case job_of loaded (r_job r) of Some j \<Rightarrow> j_name j | None \<Rightarrow> '''')
      in if n = 0 then st
         else (notify e (NotifyRunFinished (r_id r) name (status_name to) reason)
                 (db\<lparr>d_runs := update_where p (close_run to reason now) (d_runs db)\<rparr>),
               Suc (snd st)))"

definition closeStuck ::
  "('c, 'l) sched_env \<Rightarrow> job_run list \<Rightarrow> run_status \<Rightarrow> run_status \<Rightarrow> string \<Rightarrow> instant
     \<Rightarrow> jobs_db \<Rightarrow> jobs_db \<times> nat" where
  "closeStuck e runs frm to reason now db =
     foldl (close_one e db frm to reason now) (db, 0) runs"

definition reap_msg :: string where "reap_msg = ''reaped: exceeded running lease''"
definition reap_gated_msg :: string where
  "reap_gated_msg = ''reaped: ack-gated run exceeded extended running lease''"
definition expire_msg :: string where "expire_msg = ''expired: awaiting approval past TTL''"

definition reap_ordinary :: "instant \<Rightarrow> jobs_db \<Rightarrow> job_run \<Rightarrow> bool" where
  "reap_ordinary now db r \<longleftrightarrow>
     r_status r = Running \<and> r_trigger r = TriggerSchedule \<and> started_before (now - runningLease) r \<and>
     (ackGatedKeys \<noteq> [] \<longrightarrow> has_job db (\<lambda>j. j_key j \<notin> set ackGatedKeys) (r_job r))"

definition reap_gated :: "instant \<Rightarrow> jobs_db \<Rightarrow> job_run \<Rightarrow> bool" where
  "reap_gated now db r \<longleftrightarrow>
     r_status r = Running \<and> started_before (now - ackGatedRunningLease) r \<and>
     has_job db (\<lambda>j. j_key j \<in> set ackGatedKeys) (r_job r)"

definition reapRunning :: "('c, 'l) sched_env \<Rightarrow> instant \<Rightarrow> jobs_db \<Rightarrow> jobs_db" where
  "reapRunning e now db =
     (let db1 = db\<lparr>d_runs := update_where (reap_ordinary now db) (close_run Failed reap_msg now) (d_runs db)\<rparr>
      in if ackGatedKeys = [] then db1
         else fst (closeStuck e (filter (reap_gated now db1) (d_runs db1)) Running Failed
                     reap_gated_msg now db1))"

definition unacked :: "instant \<Rightarrow> jobs_db \<Rightarrow> job_run \<Rightarrow> bool" where
  "unacked now db r \<longleftrightarrow>
     r_status r = AwaitingAck \<and> r_created_at r < now - awaitingAckTTL \<and>
     has_job db (\<lambda>j. j_key j \<in> set ackGatedKeys) (r_job r)"

definition expireAwaitingAck :: "('c, 'l) sched_env \<Rightarrow> instant \<Rightarrow> jobs_db \<Rightarrow> jobs_db" where
  "expireAwaitingAck e now db =
     (if ackGatedKeys = [] then db
      else fst (closeStuck e (filter (unacked now db) (d_runs db)) AwaitingAck Cancelled expire_msg now db))"

definition lapsed :: "instant \<Rightarrow> artifact \<Rightarrow> bool" where
  "lapsed now a \<longleftrightarrow>
     a_status a = Pending \<and> (case a_expires_at a of Some t \<Rightarrow> t < now | None \<Rightarrow> False)"

definition sweepArtifacts :: "instant \<Rightarrow> jobs_db \<Rightarrow> jobs_db" where
  "sweepArtifacts now db =
     db\<lparr>d_artifacts := update_where (lapsed now) (\<lambda>a. a\<lparr>a_status := Expired\<rparr>) (d_artifacts db)\<rparr>"

definition maintenance :: "('c, 'l) sched_env \<Rightarrow> instant \<Rightarrow> jobs_db \<Rightarrow> jobs_db" where
  "maintenance e now db =
     sweepArtifacts now (expireAwaitingAck e now (reapRunning e now (redriveQueued e now db)))"

section \<open>A tick\<close>

definition eval_job :: "('c, 'l) sched_env \<Rightarrow> instant \<Rightarrow> jobs_db \<Rightarrow> sched_job \<Rightarrow> jobs_db" where
  "eval_job e now db job = (case evaluate e now job db of Inl _ \<Rightarrow> db | Inr db1 \<Rightarrow> db1)"

definition tick :: "('c, 'l) sched_env \<Rightarrow> instant \<Rightarrow> jobs_db \<Rightarrow> jobs_db" where
  "tick e now db =
     (if \<not> e_configured e then db
      else maintenance e now (foldl (eval_job e now) db (filter j_enabled (d_jobs db))))"

definition RecoverOnce :: "('c, 'l) sched_env \<Rightarrow> jobs_db \<Rightarrow> jobs_db" where
  "RecoverOnce e db = (if \<not> e_configured e then db else maintenance e (e_wall e) db)"

section \<open>What each operation leaves alone\<close>

lemma ackGatedKeys_eq: "ackGatedKeys = [''finance.sync'']"
  by (simp add: ackGatedKeys_def kinds_def)

lemma ackGatedKeys_nonempty [simp]: "ackGatedKeys \<noteq> []"
  by (simp add: ackGatedKeys_eq)

lemma ack_gated_iff: "ack_gated key \<longleftrightarrow> key \<in> set ackGatedKeys"
  by (auto simp: ack_gated_def LookupKind_def kinds_def ackGatedKeys_eq)

lemma notify_fields [simp]:
  "d_jobs (notify e n db) = d_jobs db" "d_runs (notify e n db) = d_runs db"
  "d_artifacts (notify e n db) = d_artifacts db" "d_queue (notify e n db) = d_queue db"
  by (simp_all add: notify_def)

lemma enqueueRun_fields [simp]:
  "d_jobs (fst (enqueueRun e j i db)) = d_jobs db" "d_runs (fst (enqueueRun e j i db)) = d_runs db"
  "d_artifacts (fst (enqueueRun e j i db)) = d_artifacts db" "d_notes (fst (enqueueRun e j i db)) = d_notes db"
  by (simp_all add: enqueueRun_def Let_def)

lemma redrive_fold_fields:
  "d_jobs (foldl (\<lambda>d r. case job_of db (r_job r) of None \<Rightarrow> d
      | Some job \<Rightarrow> fst (enqueueRun e job (r_id r) d)) d rs) = d_jobs d"
  "d_runs (foldl (\<lambda>d r. case job_of db (r_job r) of None \<Rightarrow> d
      | Some job \<Rightarrow> fst (enqueueRun e job (r_id r) d)) d rs) = d_runs d"
  "d_artifacts (foldl (\<lambda>d r. case job_of db (r_job r) of None \<Rightarrow> d
      | Some job \<Rightarrow> fst (enqueueRun e job (r_id r) d)) d rs) = d_artifacts d"
  by (induction rs arbitrary: d) (auto split: option.splits)

lemma redriveQueued_fields [simp]:
  "d_jobs (redriveQueued e now db) = d_jobs db" "d_runs (redriveQueued e now db) = d_runs db"
  "d_artifacts (redriveQueued e now db) = d_artifacts db"
  by (simp_all add: redriveQueued_def Let_def redrive_fold_fields)

lemma closeStuck_fold_fields:
  "d_jobs (fst (foldl (close_one e l frm to m now) st rs)) = d_jobs (fst st)"
  "d_artifacts (fst (foldl (close_one e l frm to m now) st rs)) = d_artifacts (fst st)"
  "d_queue (fst (foldl (close_one e l frm to m now) st rs)) = d_queue (fst st)"
  by (induction rs arbitrary: st) (auto simp: close_one_def Let_def)

lemma closeStuck_fields [simp]:
  "d_jobs (fst (closeStuck e rs frm to m now db)) = d_jobs db"
  "d_artifacts (fst (closeStuck e rs frm to m now db)) = d_artifacts db"
  "d_queue (fst (closeStuck e rs frm to m now db)) = d_queue db"
  by (simp_all add: closeStuck_def closeStuck_fold_fields)

lemma reapRunning_fields [simp]:
  "d_jobs (reapRunning e now db) = d_jobs db" "d_artifacts (reapRunning e now db) = d_artifacts db"
  "d_queue (reapRunning e now db) = d_queue db"
  by (simp_all add: reapRunning_def Let_def)

lemma expireAwaitingAck_fields [simp]:
  "d_jobs (expireAwaitingAck e now db) = d_jobs db"
  "d_artifacts (expireAwaitingAck e now db) = d_artifacts db"
  "d_queue (expireAwaitingAck e now db) = d_queue db"
  by (simp_all add: expireAwaitingAck_def)

lemma sweepArtifacts_fields [simp]:
  "d_jobs (sweepArtifacts now db) = d_jobs db" "d_runs (sweepArtifacts now db) = d_runs db"
  "d_queue (sweepArtifacts now db) = d_queue db" "d_notes (sweepArtifacts now db) = d_notes db"
  by (simp_all add: sweepArtifacts_def)

lemma fire_fields [simp]:
  "d_artifacts (snd (fire e j t n now s db)) = d_artifacts db"
  "d_queue (snd (fire e j t n now s db)) = d_queue db" "d_notes (snd (fire e j t n now s db)) = d_notes db"
  by (simp_all add: fire_def Let_def)

section \<open>The invariant of the tables\<close>

definition row_ids :: "jobs_db \<Rightarrow> bool" where
  "row_ids db \<longleftrightarrow> distinct (map r_id (d_runs db)) \<and> distinct (map j_id (d_jobs db))"

definition jobs_inv :: "jobs_db \<Rightarrow> bool" where
  "jobs_inv db \<longleftrightarrow>
     row_ids db \<and> distinct (map run_key (d_runs db)) \<and> distinct (map j_key (d_jobs db)) \<and>
     (\<forall>r \<in> set (d_runs db). r_job r \<in> j_id ` set (d_jobs db))"

lemma has_job_find: "has_job db p i \<longleftrightarrow> (\<exists>j. job_of db i = Some j \<and> p j)"
  by (auto simp: has_job_def split: option.splits)

lemma job_of_SomeD: "job_of db i = Some j \<Longrightarrow> j \<in> set (d_jobs db) \<and> j_id j = i"
  unfolding job_of_def by (auto dest: find_SomeD)

lemma job_of_unique:
  assumes "jobs_inv db" "j \<in> set (d_jobs db)" "j_id j = i"
  shows "job_of db i = Some j"
  using distinct_find [of j_id "d_jobs db" j] assms by (auto simp: job_of_def jobs_inv_def row_ids_def)

section \<open>The sweeps, row by row\<close>

text \<open>What one pass of the sweeps does to a run.\<close>

definition sweep_run :: "instant \<Rightarrow> jobs_db \<Rightarrow> job_run \<Rightarrow> job_run" where
  "sweep_run now db r =
     (if reap_ordinary now db r then close_run Failed reap_msg now r
      else if reap_gated now db r then close_run Failed reap_gated_msg now r
      else if unacked now db r then close_run Cancelled expire_msg now r
      else r)"

lemma close_run_simps [simp]:
  "r_id (close_run to m now r) = r_id r" "r_job (close_run to m now r) = r_job r"
  "r_status (close_run to m now r) = to" "r_trigger (close_run to m now r) = r_trigger r"
  "r_scheduled_for (close_run to m now r) = r_scheduled_for r"
  "r_created_at (close_run to m now r) = r_created_at r"
  "r_started_at (close_run to m now r) = r_started_at r"
  "r_finished_at (close_run to m now r) = Some now" "r_error (close_run to m now r) = m"
  "r_claimable_at (close_run to m now r) = r_claimable_at r"
  "run_key (close_run to m now r) = run_key r"
  by (simp_all add: close_run_def run_key_def)

lemma started_before_close [simp]: "started_before c (close_run to m now r) = started_before c r"
  by (simp add: started_before_def)

lemma has_job_runs [simp]:
  "has_job (db\<lparr>d_runs := rs\<rparr>) = has_job db" "has_job (db\<lparr>d_queue := q\<rparr>) = has_job db"
  "job_of (db\<lparr>d_runs := rs\<rparr>) = job_of db" "job_of (db\<lparr>d_queue := q\<rparr>) = job_of db"
  by (auto simp: fun_eq_iff has_job_def job_of_def)

lemma has_job_cong: "d_jobs a = d_jobs b \<Longrightarrow> has_job a p i = has_job b p i"
  by (simp add: has_job_def job_of_def)

lemma update_where_update_where:
  assumes "\<And>r. p r \<Longrightarrow> \<not> q (f r)"
  shows "update_where q f (update_where p f rs) = update_where (\<lambda>r. p r \<or> q r) f rs"
  using assms by (auto simp: update_where_def)

lemma update_where_cong:
  "(\<And>r. r \<in> set rs \<Longrightarrow> p r = q r) \<Longrightarrow> update_where p f rs = update_where q f rs"
  by (auto simp: update_where_def)

lemma close_one_runs:
  "d_runs (fst (close_one e l frm to m now st r)) =
     update_where (\<lambda>x. r_id x = r_id r \<and> r_status x = frm) (close_run to m now) (d_runs (fst st))"
proof (cases "count_where (\<lambda>x. r_id x = r_id r \<and> r_status x = frm) (d_runs (fst st)) = 0")
  case True
  then have "update_where (\<lambda>x. r_id x = r_id r \<and> r_status x = frm) (close_run to m now) (d_runs (fst st)) =
      d_runs (fst st)"
    by (intro update_where_none) (auto simp: count_where_0)
  with True show ?thesis by (simp add: close_one_def Let_def)
qed (simp add: close_one_def Let_def)

lemma closeStuck_runs:
  assumes "to \<noteq> frm"
  shows "d_runs (fst (closeStuck e rs frm to m now db)) =
     update_where (\<lambda>x. r_id x \<in> r_id ` set rs \<and> r_status x = frm) (close_run to m now) (d_runs db)"
proof -
  have "d_runs (fst (foldl (close_one e l frm to m now) st rs)) =
      update_where (\<lambda>x. r_id x \<in> r_id ` set rs \<and> r_status x = frm) (close_run to m now) (d_runs (fst st))" for l st
  proof (induction rs arbitrary: st)
    case Nil
    show ?case by (simp add: update_where_def)
  next
    case (Cons r rs)
    have "d_runs (fst (foldl (close_one e l frm to m now) st (r # rs))) =
        update_where (\<lambda>x. r_id x \<in> r_id ` set rs \<and> r_status x = frm) (close_run to m now)
          (update_where (\<lambda>x. r_id x = r_id r \<and> r_status x = frm) (close_run to m now) (d_runs (fst st)))"
      by (simp add: Cons.IH close_one_runs)
    also have "\<dots> = update_where (\<lambda>x. (r_id x = r_id r \<and> r_status x = frm) \<or>
        (r_id x \<in> r_id ` set rs \<and> r_status x = frm)) (close_run to m now) (d_runs (fst st))"
      using assms by (intro update_where_update_where) simp
    also have "\<dots> = update_where (\<lambda>x. r_id x \<in> r_id ` set (r # rs) \<and> r_status x = frm)
        (close_run to m now) (d_runs (fst st))"
      by (intro update_where_cong) auto
    finally show ?case .
  qed
  then show ?thesis by (simp add: closeStuck_def)
qed

lemma closeStuck_query:
  assumes "distinct (map r_id (d_runs db))" "to \<noteq> frm" "\<And>r. q r \<Longrightarrow> r_status r = frm"
  shows "d_runs (fst (closeStuck e (filter q (d_runs db)) frm to m now db)) =
           update_where q (close_run to m now) (d_runs db)"
  unfolding closeStuck_runs [OF assms(2)]
proof (rule update_where_cong)
  fix r assume r: "r \<in> set (d_runs db)"
  have "x = r" if "x \<in> set (d_runs db)" "r_id x = r_id r" for x
    using that r assms(1) by (metis distinct_map inj_onD)
  then have "r_id r \<in> r_id ` set (filter q (d_runs db)) \<longleftrightarrow> q r"
    using r by (auto simp: image_iff)
  then show "(r_id r \<in> r_id ` set (filter q (d_runs db)) \<and> r_status r = frm) = q r"
    using assms(3) [of r] by blast
qed

lemma reapRunning_runs:
  assumes "distinct (map r_id (d_runs db))"
  shows "d_runs (reapRunning e now db) =
           map (\<lambda>r. if reap_ordinary now db r then close_run Failed reap_msg now r
                    else if reap_gated now db r then close_run Failed reap_gated_msg now r else r) (d_runs db)"
proof -
  let ?A = "update_where (reap_ordinary now db) (close_run Failed reap_msg now) (d_runs db)"
  let ?db1 = "db\<lparr>d_runs := ?A\<rparr>"
  have ids: "distinct (map r_id (d_runs ?db1))"
    using assms by (simp add: map_update_where)
  have g: "reap_gated now ?db1 = reap_gated now db" by (simp add: fun_eq_iff reap_gated_def)
  have "d_runs (reapRunning e now db) = update_where (reap_gated now db) (close_run Failed reap_gated_msg now) ?A"
    using closeStuck_query [OF ids, of Failed Running "reap_gated now db" e reap_gated_msg now]
    by (simp add: reapRunning_def Let_def g ackGatedKeys_nonempty) (simp add: reap_gated_def)
  also have "\<dots> = map (\<lambda>r. if reap_ordinary now db r then close_run Failed reap_msg now r
                    else if reap_gated now db r then close_run Failed reap_gated_msg now r else r) (d_runs db)"
    by (simp add: update_where_def) (simp add: reap_gated_def)
  finally show ?thesis .
qed

lemma maintenance_runs:
  assumes "distinct (map r_id (d_runs db))"
  shows "d_runs (maintenance e now db) = map (sweep_run now db) (d_runs db)"
proof -
  let ?db1 = "reapRunning e now (redriveQueued e now db)"
  have jobs: "has_job (redriveQueued e now db) = has_job db" "has_job ?db1 = has_job db"
    by (simp_all add: fun_eq_iff has_job_def job_of_def)
  have o: "reap_ordinary now (redriveQueued e now db) = reap_ordinary now db"
    and g: "reap_gated now (redriveQueued e now db) = reap_gated now db"
    and u: "unacked now ?db1 = unacked now db"
    by (simp_all add: fun_eq_iff reap_ordinary_def reap_gated_def unacked_def jobs)
  have r1: "d_runs ?db1 = map (\<lambda>r. if reap_ordinary now db r then close_run Failed reap_msg now r
        else if reap_gated now db r then close_run Failed reap_gated_msg now r else r) (d_runs db)"
    using reapRunning_runs [of "redriveQueued e now db" e now] assms by (simp add: o g)
  have "map r_id (d_runs ?db1) = map r_id (d_runs db)" by (simp add: r1)
  then have ids: "distinct (map r_id (d_runs ?db1))" using assms by simp
  have "d_runs (maintenance e now db) = update_where (unacked now db) (close_run Cancelled expire_msg now) (d_runs ?db1)"
    using closeStuck_query [OF ids, of Cancelled AwaitingAck "unacked now db" e expire_msg now]
    by (simp add: maintenance_def expireAwaitingAck_def u ackGatedKeys_nonempty) (simp add: unacked_def)
  also have "\<dots> = map (sweep_run now db) (d_runs db)"
    by (simp add: r1 update_where_def sweep_run_def) (simp add: unacked_def)
  finally show ?thesis .
qed

section \<open>The run table is an insert-or-skip table\<close>

interpretation job_runs: insert_or_skip run_key "\<lambda>rs. set (map run_key rs)" insert_run
  by unfold_locales (auto simp: insert_run_def run_key_def)

lemma insert_run_ids: "distinct (map r_id rs) \<Longrightarrow> distinct (map r_id (fst (insert_run r rs)))"
  using fresh_id_new [of "map r_id rs"] by (auto simp: insert_run_def)

lemma insert_run_keys: "distinct (map run_key rs) \<Longrightarrow> distinct (map run_key (fst (insert_run r rs)))"
  by (auto simp: insert_run_def run_key_def)

lemma insert_runs_keys:
  "distinct (map run_key rs) \<Longrightarrow> distinct (map run_key (fst (ins_all insert_run new rs)))"
proof (induction new arbitrary: rs)
  case (Cons r new)
  have "fst (ins_all insert_run (r # new) rs) = fst (ins_all insert_run new (fst (insert_run r rs)))"
    by (simp split: prod.splits)
  then show ?case using Cons insert_run_keys by simp
qed simp

lemma insert_runs_ids:
  "distinct (map r_id rs) \<Longrightarrow> distinct (map r_id (fst (ins_all insert_run new rs)))"
proof (induction new arbitrary: rs)
  case (Cons r new)
  have "fst (ins_all insert_run (r # new) rs) = fst (ins_all insert_run new (fst (insert_run r rs)))"
    by (simp split: prod.splits)
  then show ?case using Cons insert_run_ids by simp
qed simp

definition without_id :: "job_run \<Rightarrow> job_run" where
  "without_id r = r\<lparr>r_id := 0\<rparr>"

lemma insert_runs_rows:
  assumes "distinct (map run_key new)"
  shows "\<exists>ext. fst (ins_all insert_run new rs) = rs @ ext \<and>
           map without_id ext = map without_id (filter (\<lambda>r. run_key r \<notin> run_key ` set rs) new)"
  using assms
proof (induction new arbitrary: rs)
  case (Cons r new)
  have step: "fst (ins_all insert_run (r # new) rs) = fst (ins_all insert_run new (fst (insert_run r rs)))"
    by (simp split: prod.splits)
  show ?case
  proof (cases "run_key r \<in> run_key ` set rs")
    case True
    then have "fst (insert_run r rs) = rs" by (simp add: insert_run_def)
    with Cons.IH [of rs] Cons.prems True show ?thesis by (simp only: step) simp
  next
    case False
    let ?r = "r\<lparr>r_id := fresh_id (map r_id rs)\<rparr>"
    have i: "fst (insert_run r rs) = rs @ [?r]" using False by (simp add: insert_run_def)
    obtain ext where ext: "fst (ins_all insert_run new (rs @ [?r])) = (rs @ [?r]) @ ext"
      "map without_id ext = map without_id (filter (\<lambda>x. run_key x \<notin> run_key ` set (rs @ [?r])) new)"
      using Cons.IH [of "rs @ [?r]"] Cons.prems by auto
    have k: "run_key ?r = run_key r" by (simp add: run_key_def)
    have "filter (\<lambda>x. run_key x \<notin> run_key ` set (rs @ [?r])) new =
        filter (\<lambda>x. run_key x \<notin> run_key ` set rs) new"
      using Cons.prems by (intro filter_cong) (auto simp: k image_iff)
    then have "map without_id (?r # ext) =
        map without_id (filter (\<lambda>x. run_key x \<notin> run_key ` set rs) (r # new))"
      using ext(2) False by (simp add: without_id_def)
    then show ?thesis unfolding step i ext(1) by (intro exI [of _ "?r # ext"]) simp
  qed
qed simp

end
