(* ===== verification/Scheduler.thy ===== *)
theory Scheduler
  imports Jobs
begin

text \<open>
  Correctness of the tick of \<open>internal/jobs/scheduler.go\<close>, whose operations are in theory \<open>Jobs\<close>:
  what the evaluation pass does to each job, which runs it inserts, which messages it sends, and
  what the maintenance sweeps recover.
\<close>

section \<open>The evaluation pass\<close>

text \<open>What a pass does to one enabled job, and the run it inserts when the job is due.\<close>

definition due :: "('c, 'l) sched_env \<Rightarrow> instant \<Rightarrow> sched_job \<Rightarrow> bool" where
  "due e now j \<longleftrightarrow>
     (case parseSchedule e (j_schedule j) (j_timezone j) of Inl _ \<Rightarrow> False
      | Inr _ \<Rightarrow> (case j_next_run_at j of None \<Rightarrow> False | Some t \<Rightarrow> t \<le> now))"

definition advanced :: "('c, 'l) sched_env \<Rightarrow> instant \<Rightarrow> sched_job \<Rightarrow> sched_job" where
  "advanced e now j =
     (case NextRun e (j_schedule j) (j_timezone j) now of Inl _ \<Rightarrow> j
      | Inr nxt \<Rightarrow>
          (case j_next_run_at j of None \<Rightarrow> j\<lparr>j_next_run_at := Some nxt\<rparr>
           | Some t \<Rightarrow> if now < t then j
                       else j\<lparr>j_next_run_at := Some nxt, j_last_run_at := Some now\<rparr>))"

definition due_run :: "('c, 'l) sched_env \<Rightarrow> sched_job \<Rightarrow> job_run" where
  "due_run e j =
     new_run (e_wall e) (j_id j) (if ack_gated (j_key j) then AwaitingAck else Queued) TriggerSchedule
       (the (j_next_run_at j))"

lemma advanced_simps [simp]:
  "j_id (advanced e now j) = j_id j" "j_key (advanced e now j) = j_key j"
  "j_name (advanced e now j) = j_name j" "j_enabled (advanced e now j) = j_enabled j"
  "j_schedule (advanced e now j) = j_schedule j" "j_timezone (advanced e now j) = j_timezone j"
  "j_config (advanced e now j) = j_config j" "j_stage (advanced e now j) = j_stage j"
  "j_runner (advanced e now j) = j_runner j"
  by (auto simp: advanced_def split: sum.splits option.splits)

lemma eval_job_runs:
  "d_runs (eval_job e now db j) =
     (if due e now j then fst (insert_run (due_run e j) (d_runs db)) else d_runs db)"
  by (auto simp: eval_job_def evaluate_def due_def due_run_def fire_def Let_def split: sum.splits option.splits)

lemma eval_jobs_runs:
  "d_runs (foldl (eval_job e now) db js) =
     fst (ins_all insert_run (map (due_run e) (filter (due e now) js)) (d_runs db))"
proof (induction js arbitrary: db)
  case (Cons j js)
  show ?case by (simp add: Cons.IH eval_job_runs split: prod.splits)
qed simp

lemma eval_job_jobs:
  assumes "j \<in> set (d_jobs db)" "distinct (map j_id (d_jobs db))"
  shows "d_jobs (eval_job e now db j) = update_where (\<lambda>x. j_id x = j_id j) (advanced e now) (d_jobs db)"
proof -
  have same: "x = j" if "x \<in> set (d_jobs db)" "j_id x = j_id j" for x
    using that assms by (metis distinct_map inj_onD)
  have eq: "update_where (\<lambda>x. j_id x = j_id j) f (d_jobs db) = update_where (\<lambda>x. j_id x = j_id j) g (d_jobs db)"
    if "f j = g j" for f g
    using that same by (auto simp: update_where_def)
  have none: "d_jobs db = update_where (\<lambda>x. j_id x = j_id j) g (d_jobs db)" if "g j = j" for g
    unfolding update_where_def by (rule map_idI [symmetric]) (auto dest!: same simp: that)
  show ?thesis
    by (auto simp: eval_job_def evaluate_def fire_def Let_def NextRun_def advanced_def
        split: sum.splits option.splits intro!: eq none)
qed

lemma eval_jobs_jobs:
  assumes "set js \<subseteq> set (d_jobs db)" "distinct (map j_id js)" "distinct (map j_id (d_jobs db))"
  shows "d_jobs (foldl (eval_job e now) db js) =
           update_where (\<lambda>x. j_id x \<in> j_id ` set js) (advanced e now) (d_jobs db)"
  using assms
proof (induction js arbitrary: db)
  case Nil
  show ?case by (simp add: update_where_def)
next
  case (Cons j js)
  let ?u = "update_where (\<lambda>x. j_id x = j_id j) (advanced e now) (d_jobs db)"
  have u: "d_jobs (eval_job e now db j) = ?u"
    using Cons.prems by (intro eval_job_jobs) auto
  have sub: "set js \<subseteq> set ?u"
  proof
    fix x assume x: "x \<in> set js"
    then have "x \<in> set (d_jobs db)" using Cons.prems(1) by auto
    moreover have "j_id j \<notin> j_id ` set js" using Cons.prems(2) by simp
    then have "j_id x \<noteq> j_id j" using x by (metis image_eqI)
    ultimately show "x \<in> set ?u" unfolding in_update_where by (intro bexI [of _ x]) auto
  qed
  have dist: "distinct (map j_id ?u)" using Cons.prems by (simp add: map_update_where)
  have "d_jobs (foldl (eval_job e now) db (j # js)) =
      update_where (\<lambda>x. j_id x \<in> j_id ` set js) (advanced e now) ?u"
    using Cons.IH [of "eval_job e now db j"] Cons.prems sub dist by (simp add: u)
  also have "\<dots> = update_where (\<lambda>x. j_id x \<in> j_id ` set (j # js)) (advanced e now) (d_jobs db)"
    using Cons.prems by (auto simp: update_where_def)
  finally show ?case .
qed

section \<open>Messages\<close>

text \<open>The messages a step appends: each names a queued, scheduler-driven run and carries its
  job's key, and with a queue that accepts everything every new queued run gets one.\<close>

definition names_run :: "job_run list \<Rightarrow> sched_job list \<Rightarrow> queue_job \<Rightarrow> bool" where
  "names_run rs js m \<longleftrightarrow>
     (\<exists>r \<in> set rs. \<exists>j \<in> set js. r_id r = q_run m \<and> r_status r = Queued \<and>
        r_trigger r = TriggerSchedule \<and> r_job r = j_id j \<and> j_key j = q_type m)"

definition covers_new :: "('c, 'l) sched_env \<Rightarrow> job_run list \<Rightarrow> job_run list \<Rightarrow> queue_job list \<Rightarrow> bool" where
  "covers_new e old rs ms \<longleftrightarrow>
     ((\<forall>m. e_enqueue_ok e m) \<longrightarrow>
        (\<forall>r \<in> set rs. r_status r = Queued \<longrightarrow> r \<in> set old \<or> r_id r \<in> q_run ` set ms))"

lemma names_run_mono:
  "names_run rs js m \<Longrightarrow> set rs \<subseteq> set rs' \<Longrightarrow> set js \<subseteq> set js' \<Longrightarrow> names_run rs' js' m"
  unfolding names_run_def by blast

lemma eval_job_queue:
  "\<exists>ms. d_queue (eval_job e now db j) = d_queue db @ ms \<and>
        (\<forall>m \<in> set ms. names_run (d_runs (eval_job e now db j)) [j] m) \<and>
        covers_new e (d_runs db) (d_runs (eval_job e now db j)) ms"
proof (cases "due e now j \<and> run_key (due_run e j) \<notin> set (map run_key (d_runs db)) \<and> \<not> ack_gated (j_key j)")
  case True
  let ?r = "(due_run e j)\<lparr>r_id := fresh_id (map r_id (d_runs db))\<rparr>"
  let ?m = "\<lparr>q_type = j_key j,
     q_payload = (if j_config j \<noteq> [] then marshal_config (j_config j) else ''{}''), q_run = r_id ?r\<rparr>"
  have q: "d_queue (eval_job e now db j) = d_queue db @ (if e_enqueue_ok e ?m then [?m] else [])"
    using True by (auto simp: eval_job_def evaluate_def due_def due_run_def fire_def insert_run_def
        enqueueRun_def Let_def split: sum.splits option.splits)
  have rs: "d_runs (eval_job e now db j) = d_runs db @ [?r]"
    using True by (auto simp: eval_job_runs insert_run_def)
  have "names_run (d_runs (eval_job e now db j)) [j] ?m"
    using True unfolding names_run_def rs by (auto simp: due_run_def new_run_def)
  moreover have "covers_new e (d_runs db) (d_runs (eval_job e now db j)) (if e_enqueue_ok e ?m then [?m] else [])"
    unfolding covers_new_def rs by auto
  ultimately show ?thesis by (intro exI [of _ "if e_enqueue_ok e ?m then [?m] else []"] conjI q) auto
next
  case False
  then have "d_queue (eval_job e now db j) = d_queue db"
    by (auto simp: eval_job_def evaluate_def due_def due_run_def fire_def insert_run_def Let_def
        split: sum.splits option.splits)
  moreover have "covers_new e (d_runs db) (d_runs (eval_job e now db j)) []"
  proof (cases "due e now j \<and> run_key (due_run e j) \<notin> set (map run_key (d_runs db))")
    case fresh: True
    with False have "r_status (due_run e j) = AwaitingAck" by (simp add: due_run_def new_run_def)
    with fresh show ?thesis by (simp add: covers_new_def eval_job_runs insert_run_def)
  next
    case False
    then have "d_runs (eval_job e now db j) = d_runs db"
      by (cases "due e now j") (simp_all add: eval_job_runs insert_run_def)
    then show ?thesis by (simp add: covers_new_def)
  qed
  ultimately show ?thesis by (intro exI [of _ "[]"]) simp
qed

lemma eval_job_runs_mono: "set (d_runs db) \<subseteq> set (d_runs (eval_job e now db j))"
  by (auto simp: eval_job_runs insert_run_def)

lemma eval_jobs_runs_mono: "set (d_runs db) \<subseteq> set (d_runs (foldl (eval_job e now) db js))"
proof (induction js arbitrary: db)
  case (Cons j js)
  show ?case using eval_job_runs_mono [of db e now j] Cons.IH [of "eval_job e now db j"] by auto
qed simp

lemma eval_jobs_queue:
  "\<exists>ms. d_queue (foldl (eval_job e now) db js) = d_queue db @ ms \<and>
        (\<forall>m \<in> set ms. names_run (d_runs (foldl (eval_job e now) db js)) js m) \<and>
        covers_new e (d_runs db) (d_runs (foldl (eval_job e now) db js)) ms"
proof (induction js arbitrary: db)
  case Nil
  show ?case by (intro exI [of _ "[]"]) (auto simp: covers_new_def)
next
  case (Cons j js)
  let ?db1 = "eval_job e now db j"
  let ?db2 = "foldl (eval_job e now) ?db1 js"
  obtain ms1 where m1: "d_queue ?db1 = d_queue db @ ms1" "\<forall>m \<in> set ms1. names_run (d_runs ?db1) [j] m"
    "covers_new e (d_runs db) (d_runs ?db1) ms1"
    using eval_job_queue by metis
  obtain ms2 where m2: "d_queue ?db2 = d_queue ?db1 @ ms2" "\<forall>m \<in> set ms2. names_run (d_runs ?db2) js m"
    "covers_new e (d_runs ?db1) (d_runs ?db2) ms2"
    using Cons.IH by metis
  have sub: "set (d_runs ?db1) \<subseteq> set (d_runs ?db2)" by (rule eval_jobs_runs_mono)
  have "names_run (d_runs ?db2) (j # js) m" if "m \<in> set ms1" for m
    by (rule names_run_mono [OF _ sub]) (use that m1(2) in auto)
  moreover have "names_run (d_runs ?db2) (j # js) m" if "m \<in> set ms2" for m
    by (rule names_run_mono [OF _ subset_refl]) (use that m2(2) in auto)
  ultimately have "\<forall>m \<in> set (ms1 @ ms2). names_run (d_runs ?db2) (j # js) m" by auto
  moreover have "covers_new e (d_runs db) (d_runs ?db2) (ms1 @ ms2)"
    using m1(3) m2(3) unfolding covers_new_def by auto
  ultimately show ?case using m1(1) m2(1) by (intro exI [of _ "ms1 @ ms2"]) simp
qed

definition stranded :: "instant \<Rightarrow> job_run \<Rightarrow> bool" where
  "stranded now r \<longleftrightarrow>
     r_status r = Queued \<and> r_trigger r = TriggerSchedule \<and> r_created_at r < now - queuedRedriveAfter"

lemma redrive_queue:
  "\<exists>ms. d_queue (redriveQueued e now db) = d_queue db @ ms \<and>
        (\<forall>m \<in> set ms. names_run (d_runs db) (d_jobs db) m) \<and>
        ((\<forall>m. e_enqueue_ok e m) \<longrightarrow>
           (\<forall>r \<in> set (d_runs db). stranded now r \<and> r_job r \<in> j_id ` set (d_jobs db) \<longrightarrow>
              r_id r \<in> q_run ` set ms))"
proof -
  let ?f = "\<lambda>d r. case job_of db (r_job r) of None \<Rightarrow> d | Some job \<Rightarrow> fst (enqueueRun e job (r_id r) d)"
  have fold: "\<exists>ms. d_queue (foldl ?f d rs) = d_queue d @ ms \<and>
        (\<forall>m \<in> set ms. names_run rs (d_jobs db) m) \<and>
        ((\<forall>m. e_enqueue_ok e m) \<longrightarrow>
           (\<forall>r \<in> set rs. r_job r \<in> j_id ` set (d_jobs db) \<longrightarrow> r_id r \<in> q_run ` set ms))"
    if "\<forall>r \<in> set rs. r_status r = Queued \<and> r_trigger r = TriggerSchedule" for d rs
    using that
  proof (induction rs arbitrary: d)
    case (Cons r rs)
    obtain ms where ms: "d_queue (foldl ?f (?f d r) rs) = d_queue (?f d r) @ ms"
      "\<forall>m \<in> set ms. names_run rs (d_jobs db) m"
      "(\<forall>m. e_enqueue_ok e m) \<longrightarrow>
           (\<forall>r \<in> set rs. r_job r \<in> j_id ` set (d_jobs db) \<longrightarrow> r_id r \<in> q_run ` set ms)"
      using Cons.IH [of "?f d r"] Cons.prems by auto
    have mono: "\<forall>m \<in> set ms. names_run (r # rs) (d_jobs db) m"
      using ms(2) by (meson names_run_mono set_subset_Cons subset_refl)
    show ?case
    proof (cases "job_of db (r_job r)")
      case None
      then have "r_job r \<notin> j_id ` set (d_jobs db)"
        by (auto simp: job_of_def find_None_iff)
      with None ms mono show ?thesis by (intro exI [of _ ms]) auto
    next
      case (Some j)
      let ?m = "\<lparr>q_type = j_key j,
        q_payload = (if j_config j \<noteq> [] then marshal_config (j_config j) else ''{}''), q_run = r_id r\<rparr>"
      have q: "d_queue (?f d r) = d_queue d @ (if e_enqueue_ok e ?m then [?m] else [])"
        using Some by (simp add: enqueueRun_def Let_def)
      have "names_run (r # rs) (d_jobs db) ?m"
        using Cons.prems job_of_SomeD [OF Some]
        unfolding names_run_def by (intro bexI [of _ r] bexI [of _ j]) auto
      with ms mono q show ?thesis
        by (intro exI [of _ "(if e_enqueue_ok e ?m then [?m] else []) @ ms"]) auto
    qed
  qed simp
  let ?rs = "filter (\<lambda>r. r_status r = Queued \<and> r_trigger r = TriggerSchedule \<and>
      r_created_at r < now - queuedRedriveAfter) (d_runs db)"
  obtain ms where ms: "d_queue (foldl ?f db ?rs) = d_queue db @ ms"
    "\<forall>m \<in> set ms. names_run ?rs (d_jobs db) m"
    "(\<forall>m. e_enqueue_ok e m) \<longrightarrow>
       (\<forall>r \<in> set ?rs. r_job r \<in> j_id ` set (d_jobs db) \<longrightarrow> r_id r \<in> q_run ` set ms)"
    using fold [of ?rs db] by auto
  moreover have "\<forall>m \<in> set ms. names_run (d_runs db) (d_jobs db) m"
    using ms(2) by (meson names_run_mono filter_is_subset subset_refl)
  ultimately show ?thesis
    by (intro exI [of _ ms]) (auto simp: redriveQueued_def Let_def stranded_def)
qed

section \<open>The whole tick\<close>

definition evaluated :: "('c, 'l) sched_env \<Rightarrow> instant \<Rightarrow> jobs_db \<Rightarrow> jobs_db" where
  "evaluated e now db = foldl (eval_job e now) db (filter j_enabled (d_jobs db))"

definition new_due :: "('c, 'l) sched_env \<Rightarrow> instant \<Rightarrow> jobs_db \<Rightarrow> sched_job list" where
  "new_due e now db =
     filter (\<lambda>j. j_enabled j \<and> due e now j \<and> run_key (due_run e j) \<notin> run_key ` set (d_runs db)) (d_jobs db)"

lemma tick_configured: "e_configured e \<Longrightarrow> tick e now db = maintenance e now (evaluated e now db)"
  by (simp add: tick_def evaluated_def)

lemma evaluated_jobs:
  assumes "jobs_inv db"
  shows "d_jobs (evaluated e now db) = update_where j_enabled (advanced e now) (d_jobs db)"
proof -
  have ids: "distinct (map j_id (d_jobs db))" using assms by (simp add: jobs_inv_def row_ids_def)
  have "distinct (map j_id (filter j_enabled (d_jobs db)))" using ids by (rule distinct_map_filter)
  then have "d_jobs (evaluated e now db) =
      update_where (\<lambda>x. j_id x \<in> j_id ` set (filter j_enabled (d_jobs db))) (advanced e now) (d_jobs db)"
    unfolding evaluated_def using ids by (intro eval_jobs_jobs) auto
  also have "\<dots> = update_where j_enabled (advanced e now) (d_jobs db)"
  proof (rule update_where_cong)
    fix j assume j: "j \<in> set (d_jobs db)"
    have "x = j" if "x \<in> set (d_jobs db)" "j_id x = j_id j" for x
      using that j ids by (metis distinct_map inj_onD)
    then have "j_enabled j" if "x \<in> set (d_jobs db)" "j_enabled x" "j_id j = j_id x" for x
      using that by metis
    with j show "(j_id j \<in> j_id ` set (filter j_enabled (d_jobs db))) = j_enabled j"
      by auto
  qed
  finally show ?thesis .
qed

lemma due_run_keys:
  assumes "jobs_inv db"
  shows "distinct (map run_key (map (due_run e) (filter (due e now) (filter j_enabled (d_jobs db)))))"
proof -
  have "distinct (map j_id (filter (due e now) (filter j_enabled (d_jobs db))))"
    using assms by (intro distinct_map_filter) (simp add: jobs_inv_def row_ids_def)
  then have "distinct (map (snd \<circ> (run_key \<circ> due_run e)) (filter (due e now) (filter j_enabled (d_jobs db))))"
    by (simp add: comp_def due_run_def new_run_def run_key_def)
  then have "inj_on (snd \<circ> (run_key \<circ> due_run e)) (set (filter (due e now) (filter j_enabled (d_jobs db))))"
    and d: "distinct (filter (due e now) (filter j_enabled (d_jobs db)))"
    by (simp_all only: distinct_map)
  from this(1) have "inj_on (run_key \<circ> due_run e) (set (filter (due e now) (filter j_enabled (d_jobs db))))"
    by (rule inj_on_imageI2)
  with d show ?thesis by (simp only: distinct_map map_map)
qed

lemma evaluated_runs:
  assumes "jobs_inv db"
  shows "\<exists>ext. d_runs (evaluated e now db) = d_runs db @ ext \<and>
           map without_id ext = map (due_run e) (new_due e now db)"
proof -
  obtain ext where ext: "d_runs (evaluated e now db) = d_runs db @ ext"
    "map without_id ext = map without_id (filter (\<lambda>r. run_key r \<notin> run_key ` set (d_runs db))
        (map (due_run e) (filter (due e now) (filter j_enabled (d_jobs db)))))"
    using insert_runs_rows [OF due_run_keys [OF assms], of e now "d_runs db"]
    by (auto simp: evaluated_def eval_jobs_runs)
  have "without_id (due_run e j) = due_run e j" for j
    by (simp add: without_id_def due_run_def new_run_def)
  then have "map without_id ext = map (due_run e) (new_due e now db)"
    unfolding ext(2) filter_map new_due_def filter_filter by (simp add: comp_def conj_ac)
  with ext(1) show ?thesis by blast
qed

lemma evaluated_ids:
  "jobs_inv db \<Longrightarrow> distinct (map r_id (d_runs (evaluated e now db)))"
  unfolding evaluated_def eval_jobs_runs by (rule insert_runs_ids) (simp add: jobs_inv_def row_ids_def)

lemma evaluated_has_job:
  assumes "jobs_inv db" "\<And>j. p (advanced e now j) = p j"
  shows "has_job (evaluated e now db) p i = has_job db p i"
  unfolding has_job_def job_of_def evaluated_jobs [OF assms(1)]
  by (subst find_update_where) (auto simp: assms(2) split: option.splits)

lemma sweep_evaluated:
  assumes "jobs_inv db"
  shows "sweep_run now (evaluated e now db) = sweep_run now db"
  by (simp add: fun_eq_iff sweep_run_def reap_ordinary_def reap_gated_def unacked_def
      evaluated_has_job [OF assms])

lemma tick_runs:
  assumes "jobs_inv db" "e_configured e" "now \<le> e_wall e"
  shows "\<exists>ext. d_runs (tick e now db) = map (sweep_run now db) (d_runs db) @ ext \<and>
           map without_id ext = map (due_run e) (new_due e now db)"
proof -
  obtain ext where ext: "d_runs (evaluated e now db) = d_runs db @ ext"
    "map without_id ext = map (due_run e) (new_due e now db)"
    using evaluated_runs [OF assms(1)] by blast
  have "sweep_run now db r = r" if "r \<in> set ext" for r
  proof -
    have "without_id r \<in> due_run e ` set (new_due e now db)"
      using that arg_cong [OF ext(2), of set] by auto
    then obtain j where j: "without_id r = due_run e j" by blast
    have "r_status r = r_status (due_run e j)" "r_created_at r = r_created_at (due_run e j)"
      by (simp_all add: without_id_def flip: j)
    then have "r_status r \<noteq> Running" "r_created_at r = e_wall e"
      by (simp_all add: due_run_def new_run_def)
    then show ?thesis using assms(3)
      by (simp add: sweep_run_def reap_ordinary_def reap_gated_def unacked_def awaitingAckTTL_def
          hour_ns_def second_ns_def)
  qed
  then have "map (sweep_run now db) (d_runs db @ ext) = map (sweep_run now db) (d_runs db) @ ext"
    by (simp add: map_idI)
  moreover have "d_runs (tick e now db) = map (sweep_run now db) (d_runs (evaluated e now db))"
    using maintenance_runs [OF evaluated_ids [OF assms(1)], of e now e now]
    by (simp only: tick_configured [OF assms(2)] sweep_evaluated [OF assms(1)])
  ultimately have "d_runs (tick e now db) = map (sweep_run now db) (d_runs db) @ ext"
    by (simp only: ext(1))
  with ext(2) show ?thesis by blast
qed

lemma maintenance_jobs [simp]: "d_jobs (maintenance e now db) = d_jobs db"
  by (simp add: maintenance_def)

lemma eval_job_artifacts [simp]: "d_artifacts (eval_job e now db j) = d_artifacts db"
  by (auto simp: eval_job_def evaluate_def Let_def split: sum.splits option.splits)

lemma eval_jobs_artifacts [simp]: "d_artifacts (foldl (eval_job e now) db js) = d_artifacts db"
  by (induction js arbitrary: db) auto

lemma tick_artifacts:
  "e_configured e \<Longrightarrow> d_artifacts (tick e now db) =
     map (\<lambda>a. if lapsed now a then a\<lparr>a_status := Expired\<rparr> else a) (d_artifacts db)"
  by (simp add: tick_def maintenance_def sweepArtifacts_def update_where_def)

lemma tick_jobs:
  "jobs_inv db \<Longrightarrow> e_configured e \<Longrightarrow>
     d_jobs (tick e now db) = update_where j_enabled (advanced e now) (d_jobs db)"
  by (simp add: tick_configured evaluated_jobs)

text \<open>C9: One tick of the scheduler, exactly.  Each enabled job whose cron expression and time zone
  are valid has its pointer initialised or, when due, advanced past \<open>now\<close>; nothing else of it
  changes, and a job that cannot be parsed holds nothing up.  The run table gains one run for each
  enabled due job whose tick has no run yet, scheduled for the pointer that fired, created
  \<open>awaiting_ack\<close> for an ack-gated kind and \<open>queued\<close> otherwise; the runs already there change only as
  the sweeps say, and artifacts only expire, when pending and lapsed.\<close>

theorem tick_exact:
  assumes "jobs_inv db" "e_configured e" "now \<le> e_wall e"
  shows "d_jobs (tick e now db) = map (\<lambda>j. if j_enabled j then advanced e now j else j) (d_jobs db) \<and>
    (\<exists>ext. d_runs (tick e now db) = map (sweep_run now db) (d_runs db) @ ext \<and>
       map (\<lambda>r. (r_job r, r_scheduled_for r, r_status r, r_trigger r)) ext =
       map (\<lambda>j. (j_id j, the (j_next_run_at j),
                 if ack_gated (j_key j) then AwaitingAck else Queued, TriggerSchedule))
         (filter (\<lambda>j. j_enabled j \<and> due e now j \<and>
             (the (j_next_run_at j), j_id j) \<notin> run_key ` set (d_runs db)) (d_jobs db))) \<and>
    d_artifacts (tick e now db) =
      map (\<lambda>a. if lapsed now a then a\<lparr>a_status := Expired\<rparr> else a) (d_artifacts db)"
proof -
  obtain ext where ext: "d_runs (tick e now db) = map (sweep_run now db) (d_runs db) @ ext"
    "map without_id ext = map (due_run e) (new_due e now db)"
    using tick_runs [OF assms] by blast
  have "map (\<lambda>r. (r_job r, r_scheduled_for r, r_status r, r_trigger r)) ext =
      map (\<lambda>r. (r_job r, r_scheduled_for r, r_status r, r_trigger r)) (map without_id ext)"
    by (simp add: without_id_def)
  also have "\<dots> = map (\<lambda>j. (j_id j, the (j_next_run_at j),
                 if ack_gated (j_key j) then AwaitingAck else Queued, TriggerSchedule))
         (filter (\<lambda>j. j_enabled j \<and> due e now j \<and>
             (the (j_next_run_at j), j_id j) \<notin> run_key ` set (d_runs db)) (d_jobs db))"
    unfolding ext(2) new_due_def by (simp add: due_run_def new_run_def run_key_def)
  finally show ?thesis
    using ext(1) tick_jobs [OF assms(1,2)] tick_artifacts [OF assms(2)]
    by (auto simp: update_where_def)
qed

lemma sweep_run_simps [simp]:
  "r_id (sweep_run now db r) = r_id r" "r_job (sweep_run now db r) = r_job r"
  "run_key (sweep_run now db r) = run_key r" "r_trigger (sweep_run now db r) = r_trigger r"
  by (simp_all add: sweep_run_def)

lemma maintenance_inv:
  assumes "jobs_inv db"
  shows "jobs_inv (maintenance e now db)"
proof -
  have "d_runs (maintenance e now db) = map (sweep_run now db) (d_runs db)"
    using assms by (intro maintenance_runs) (simp add: jobs_inv_def row_ids_def)
  then show ?thesis using assms by (simp add: jobs_inv_def row_ids_def comp_def)
qed

lemma evaluated_inv:
  assumes "jobs_inv db"
  shows "jobs_inv (evaluated e now db)"
proof -
  obtain ext where ext: "d_runs (evaluated e now db) = d_runs db @ ext"
    "map without_id ext = map (due_run e) (new_due e now db)"
    using evaluated_runs [OF assms] by blast
  have "r_job r \<in> j_id ` set (d_jobs db)" if "r \<in> set ext" for r
  proof -
    have "without_id r \<in> due_run e ` set (new_due e now db)"
      using that arg_cong [OF ext(2), of set] by auto
    then obtain j where j: "without_id r = due_run e j" "j \<in> set (d_jobs db)"
      by (auto simp: new_due_def)
    have "r_job r = r_job (due_run e j)" by (simp add: without_id_def flip: j(1))
    with j(2) show ?thesis by (simp add: due_run_def new_run_def)
  qed
  moreover have "map j_id (d_jobs (evaluated e now db)) = map j_id (d_jobs db)"
    by (simp add: evaluated_jobs [OF assms] map_update_where)
  then have "j_id ` set (d_jobs (evaluated e now db)) = j_id ` set (d_jobs db)" by (metis set_map)
  ultimately have "\<forall>r \<in> set (d_runs (evaluated e now db)). r_job r \<in> j_id ` set (d_jobs (evaluated e now db))"
    using assms unfolding ext(1) jobs_inv_def by auto
  moreover have "distinct (map run_key (d_runs (evaluated e now db)))"
    unfolding evaluated_def eval_jobs_runs by (rule insert_runs_keys) (use assms in \<open>simp add: jobs_inv_def\<close>)
  ultimately show ?thesis
    using assms evaluated_ids [OF assms, of e now]
    by (simp add: jobs_inv_def row_ids_def evaluated_jobs [OF assms] map_update_where)
qed

lemma tick_inv: "jobs_inv db \<Longrightarrow> jobs_inv (tick e now db)"
  by (cases "e_configured e") (auto simp: tick_def evaluated_def [symmetric] maintenance_inv evaluated_inv)

lemma tick_messages:
  assumes "jobs_inv db" "e_configured e"
  shows "\<exists>ms. d_queue (tick e now db) = d_queue db @ ms \<and>
    (\<forall>m \<in> set ms. names_run (d_runs (tick e now db)) (d_jobs (tick e now db)) m) \<and>
    ((\<forall>m. e_enqueue_ok e m) \<longrightarrow>
       (\<forall>r \<in> set (d_runs (tick e now db)).
          r_status r = Queued \<and> (r \<notin> set (d_runs db) \<or> stranded now r) \<longrightarrow> r_id r \<in> q_run ` set ms))"
proof -
  let ?d = "evaluated e now db"
  have inv: "jobs_inv ?d" using assms(1) by (rule evaluated_inv)
  obtain ms1 where m1: "d_queue ?d = d_queue db @ ms1"
    "\<forall>m \<in> set ms1. names_run (d_runs ?d) (filter j_enabled (d_jobs db)) m"
    "covers_new e (d_runs db) (d_runs ?d) ms1"
    using eval_jobs_queue [of e now db "filter j_enabled (d_jobs db)"] by (auto simp: evaluated_def)
  obtain ms2 where m2: "d_queue (redriveQueued e now ?d) = d_queue ?d @ ms2"
    "\<forall>m \<in> set ms2. names_run (d_runs ?d) (d_jobs ?d) m"
    "(\<forall>m. e_enqueue_ok e m) \<longrightarrow>
       (\<forall>r \<in> set (d_runs ?d). stranded now r \<and> r_job r \<in> j_id ` set (d_jobs ?d) \<longrightarrow>
          r_id r \<in> q_run ` set ms2)"
    using redrive_queue by metis
  have q: "d_queue (tick e now db) = d_queue db @ (ms1 @ ms2)"
    by (simp add: tick_configured assms(2) maintenance_def m1(1) m2(1))
  have runs: "d_runs (tick e now db) = map (sweep_run now ?d) (d_runs ?d)"
    using inv by (simp add: tick_configured assms(2) maintenance_runs jobs_inv_def row_ids_def)
  have jobs: "d_jobs (tick e now db) = d_jobs ?d" by (simp add: tick_configured assms(2))
  have queued: "sweep_run now ?d r = r" if "r_status r = Queued" for r
    using that by (simp add: sweep_run_def reap_ordinary_def reap_gated_def unacked_def)
  have orig: "r \<in> set (d_runs ?d)" if "r \<in> set (d_runs (tick e now db))" "r_status r = Queued" for r
    using that by (auto simp: runs sweep_run_def split: if_splits)
  have n1: "names_run (d_runs ?d) (d_jobs ?d) m" if m: "m \<in> set ms1" for m
  proof -
    obtain r j where rj: "r \<in> set (d_runs ?d)" "j \<in> set (filter j_enabled (d_jobs db))" "r_id r = q_run m"
      "r_status r = Queued" "r_trigger r = TriggerSchedule" "r_job r = j_id j" "j_key j = q_type m"
      using m m1(2) by (auto simp: names_run_def)
    have "advanced e now j \<in> set (d_jobs ?d)"
      using rj(2) by (auto simp: evaluated_jobs [OF assms(1)] in_update_where)
    with rj show ?thesis
      unfolding names_run_def by (intro bexI [of _ r] bexI [of _ "advanced e now j"]) auto
  qed
  have named: "names_run (d_runs (tick e now db)) (d_jobs (tick e now db)) m" if "m \<in> set (ms1 @ ms2)" for m
  proof -
    have "names_run (d_runs ?d) (d_jobs ?d) m" using that n1 m2(2) by auto
    then obtain r j where rj: "r \<in> set (d_runs ?d)" "j \<in> set (d_jobs ?d)" "r_id r = q_run m"
      "r_status r = Queued" "r_trigger r = TriggerSchedule" "r_job r = j_id j" "j_key j = q_type m"
      by (auto simp: names_run_def)
    then have "r \<in> set (d_runs (tick e now db))" unfolding runs by (metis queued image_eqI set_map)
    with rj show ?thesis unfolding names_run_def jobs by blast
  qed
  have cov: "r_id r \<in> q_run ` set (ms1 @ ms2)"
    if "\<forall>m. e_enqueue_ok e m" "r \<in> set (d_runs (tick e now db))" "r_status r = Queued"
      "r \<notin> set (d_runs db) \<or> stranded now r" for r
  proof (cases "r \<in> set (d_runs db)")
    case True
    have "r_job r \<in> j_id ` set (d_jobs ?d)" using inv orig [OF that(2,3)] by (simp add: jobs_inv_def)
    with True m2(3) that orig show ?thesis by auto
  next
    case False
    with m1(3) that orig show ?thesis unfolding covers_new_def by auto
  qed
  show ?thesis
    using q named cov by (intro exI [of _ "ms1 @ ms2"]) blast
qed

text \<open>The queue after a tick.  Messages are only appended, and each new one names a queued,
  scheduler-driven run and carries the key of that run's job; so no message is ever sent for a run
  that awaits an approval.  If the queue accepts what it is given, every run the tick created as
  \<open>queued\<close> and every run stranded \<open>queued\<close> for longer than the re-drive threshold has a message.\<close>

theorem tick_queue:
  assumes "jobs_inv db" "e_configured e"
  shows "\<exists>ms. d_queue (tick e now db) = d_queue db @ ms \<and>
    (\<forall>m \<in> set ms. \<exists>r \<in> set (d_runs (tick e now db)). \<exists>j \<in> set (d_jobs (tick e now db)).
       r_id r = q_run m \<and> r_status r = Queued \<and> r_trigger r = TriggerSchedule \<and>
       r_job r = j_id j \<and> j_key j = q_type m) \<and>
    ((\<forall>m. e_enqueue_ok e m) \<longrightarrow>
       (\<forall>r \<in> set (d_runs (tick e now db)).
          r_status r = Queued \<and> (r \<notin> set (d_runs db) \<or> stranded now r) \<longrightarrow> r_id r \<in> q_run ` set ms))"
  using tick_messages [OF assms] unfolding names_run_def by blast


lemma sweep_run_id: "r_status r \<noteq> Running \<Longrightarrow> r_status r \<noteq> AwaitingAck \<Longrightarrow> sweep_run now db r = r"
  by (simp add: sweep_run_def reap_ordinary_def reap_gated_def unacked_def)

lemma sweep_run_status:
  "sweep_run now db r = r \<or> r_status (sweep_run now db r) = Failed \<or> r_status (sweep_run now db r) = Cancelled"
  by (simp add: sweep_run_def)

lemma sweep_run_again: "sweep_run now db (sweep_run now db r) = sweep_run now db r"
  using sweep_run_status [of now db r] sweep_run_id [of "sweep_run now db r" now db] by auto

lemma NextRun_cases:
  "NextRun e s z t = (case parseSchedule e s z of Inl err \<Rightarrow> Inl err | Inr (c, l) \<Rightarrow> Inr (e_next e c l t))"
  by (auto simp: NextRun_def split: sum.splits)

lemma advanced_again:
  assumes "\<And>c l t. t < e_next e c l t"
  shows "advanced e now (advanced e now j) = advanced e now j" "\<not> due e now (advanced e now j)"
proof -
  show "advanced e now (advanced e now j) = advanced e now j"
    using assms [of now] by (auto simp: advanced_def NextRun_cases split: sum.splits option.splits)
  show "\<not> due e now (advanced e now j)"
    using assms [of now] by (auto simp: advanced_def due_def NextRun_cases not_le split: sum.splits option.splits)
qed

text \<open>A double tick is harmless.  If every cron activation lies after the instant it is asked
  for, a second tick at the same instant inserts no run, moves no pointer and changes no run and no
  artifact: all it can do is send a stranded run's message once more.\<close>

theorem tick_twice:
  assumes "jobs_inv db" "e_configured e" "now \<le> e_wall e" "\<And>c l t. t < e_next e c l t"
  shows "d_jobs (tick e now (tick e now db)) = d_jobs (tick e now db) \<and>
    d_runs (tick e now (tick e now db)) = d_runs (tick e now db) \<and>
    d_artifacts (tick e now (tick e now db)) = d_artifacts (tick e now db)"
proof (intro conjI)
  let ?t = "tick e now db"
  have inv: "jobs_inv ?t" using assms(1) by (rule tick_inv)
  have jobs: "d_jobs ?t = update_where j_enabled (advanced e now) (d_jobs db)"
    using assms by (intro tick_jobs)
  show "d_jobs (tick e now ?t) = d_jobs ?t"
    unfolding tick_jobs [OF inv assms(2)] jobs
    by (auto simp: update_where_def advanced_again [OF assms(4)])
  show "d_artifacts (tick e now ?t) = d_artifacts ?t"
    unfolding tick_artifacts [OF assms(2)] by (auto simp: lapsed_def)
  have "new_due e now ?t = []"
    unfolding new_due_def filter_empty_conv jobs
    by (auto simp: in_update_where advanced_again [OF assms(4)])
  then obtain ext where "d_runs (tick e now ?t) = map (sweep_run now ?t) (d_runs ?t) @ ext" "map without_id ext = []"
    using tick_runs [OF inv assms(2,3)] by auto
  moreover have "sweep_run now ?t r = r" if r: "r \<in> set (d_runs ?t)" for r
  proof -
    obtain ext where ext: "d_runs ?t = map (sweep_run now db) (d_runs db) @ ext"
      "map without_id ext = map (due_run e) (new_due e now db)"
      using tick_runs [OF assms(1-3)] by blast
    have same: "has_job ?t p i = has_job db p i" if "\<And>j. p (advanced e now j) = p j" for p i
      using evaluated_has_job [OF assms(1), of p e now i] that
      by (simp add: tick_configured assms(2) has_job_cong [of "maintenance e now (evaluated e now db)" "evaluated e now db"])
    have sw: "sweep_run now ?t = sweep_run now db"
      by (simp add: fun_eq_iff sweep_run_def reap_ordinary_def reap_gated_def unacked_def same)
    consider r0 where "r = sweep_run now db r0" | "r \<in> set ext" using r by (auto simp: ext(1))
    then show ?thesis
    proof cases
      case (1 r0)
      then show ?thesis unfolding sw by (metis sweep_run_again)
    next
      case 2
      have "without_id r \<in> due_run e ` set (new_due e now db)"
        using 2 arg_cong [OF ext(2), of set] by auto
      then obtain j where j: "without_id r = due_run e j" by blast
      have "r_status r = r_status (due_run e j)" "r_created_at r = r_created_at (due_run e j)"
        by (simp_all add: without_id_def flip: j)
      then show ?thesis using assms(3)
        by (simp add: due_run_def new_run_def sweep_run_def reap_ordinary_def reap_gated_def unacked_def
            awaitingAckTTL_def hour_ns_def second_ns_def)
    qed
  qed
  ultimately show "d_runs (tick e now ?t) = d_runs ?t" by (simp add: map_idI)
qed

text \<open>The scheduler is inert without a queue, whatever is in the tables, and dormant when no
  job is enabled: a tick then creates no run, and with nothing to recover it changes nothing.\<close>

theorem tick_inert:
  "(\<not> e_configured e \<longrightarrow> tick e now db = db \<and> RecoverOnce e db = db) \<and>
   ((\<forall>j \<in> set (d_jobs db). \<not> j_enabled j) \<longrightarrow>
      d_jobs (tick e now db) = d_jobs db \<and>
      map r_id (d_runs (tick e now db)) = map r_id (d_runs db) \<and>
      (d_runs db = [] \<longrightarrow> d_artifacts db = [] \<longrightarrow> tick e now db = db))"
proof (intro conjI impI)
  assume off: "\<forall>j \<in> set (d_jobs db). \<not> j_enabled j"
  have nil: "filter j_enabled (d_jobs db) = []" using off by (simp add: filter_empty_conv)
  show "d_jobs (tick e now db) = d_jobs db" by (simp add: tick_def nil)
  have ids: "map r_id (update_where p (close_run to m now) rs) = map r_id rs" for p to m rs
    by (simp add: map_update_where)
  have "map r_id (d_runs (maintenance e now db)) = map r_id (d_runs db)"
    by (simp add: maintenance_def expireAwaitingAck_def reapRunning_def Let_def closeStuck_runs ids)
  then show "map r_id (d_runs (tick e now db)) = map r_id (d_runs db)" by (simp add: tick_def nil)
  assume "d_runs db = []" "d_artifacts db = []"
  then show "tick e now db = db"
    by (simp add: tick_def nil maintenance_def redriveQueued_def reapRunning_def expireAwaitingAck_def
        closeStuck_def sweepArtifacts_def update_where_def Let_def)
qed (simp_all add: tick_def RecoverOnce_def)

section \<open>A concrete pass\<close>

text \<open>Daily schedules of the catalog read as an offset into the UTC day.  At 21:00 two of the three
  jobs are due, the third cannot be parsed; a finance sync has been running since yesterday.\<close>

definition ex_hours :: "string \<Rightarrow> duration option" where
  "ex_hours s = (if s = ''0 20 * * *'' then Some (20 * hour_ns)
                 else if s = ''30 17 * * *'' then Some (17 * hour_ns + 30 * minute_ns) else None)"

definition ex_env :: "(duration, unit) sched_env" where
  "ex_env = \<lparr>e_cron = ex_hours, e_zone = (\<lambda>z. if z = ''UTC'' then Some () else None),
     e_next = (\<lambda>c _ t. ((t - c) div day_ns + 1) * day_ns + c), e_configured = True,
     e_enqueue_ok = (\<lambda>_. True), e_notifier = True, e_wall = 20000 * day_ns + 21 * hour_ns + 1\<rparr>"

definition ex_now :: instant where "ex_now = 20000 * day_ns + 21 * hour_ns"

definition ex_job :: "nat \<Rightarrow> string \<Rightarrow> string \<Rightarrow> instant \<Rightarrow> sched_job" where
  "ex_job i key sched nxt =
     \<lparr>j_id = i, j_key = key, j_name = key, j_stage = Scrape, j_enabled = True, j_schedule = sched,
      j_timezone = '''', j_runner = RunnerServer, j_config = [], j_last_run_at = None,
      j_next_run_at = Some nxt\<rparr>"

definition ex_stuck :: job_run where
  "ex_stuck = \<lparr>r_id = 7, r_job = 3, r_status = Running, r_trigger = TriggerManual, r_runner = ''home'',
     r_scheduled_for = 19999 * day_ns + 20 * hour_ns, r_started_at = Some (19999 * day_ns + 21 * hour_ns),
     r_claimable_at = Some (19999 * day_ns + 21 * hour_ns), r_finished_at = None, r_error = '''',
     r_created_at = 19999 * day_ns + 20 * hour_ns\<rparr>"

definition ex_art :: artifact where
  "ex_art = \<lparr>a_id = 1, a_job = 1, a_produced_by = 7, a_consumed_by = None, a_label = ''source:hn'',
     a_storage = Inline, a_content = ''x'', a_s3_key = '''', a_content_type = ''text/markdown'',
     a_size_bytes = 1, a_status = Pending, a_claimed_by = '''', a_claimed_at = None,
     a_expires_at = Some (20000 * day_ns)\<rparr>"

definition ex_db :: jobs_db where
  "ex_db = \<lparr>d_jobs = [ex_job 1 ''digest.scrape'' ''30 17 * * *'' (20000 * day_ns + 17 * hour_ns + 30 * minute_ns),
                       ex_job 2 ''digest.llm'' ''whenever'' (20000 * day_ns),
                       ex_job 3 ''finance.sync'' ''0 20 * * *'' (20000 * day_ns + 20 * hour_ns)],
     d_runs = [ex_stuck], d_artifacts = [ex_art], d_queue = [], d_notes = []\<rparr>"

lemma ex_hyps: "jobs_inv ex_db" "e_configured ex_env" "ex_now \<le> e_wall ex_env"
  by (code_simp, simp_all add: ex_env_def ex_now_def)

lemma ex_next_later: "t < e_next ex_env c l t"
proof -
  have "t - c < ((t - c) div day_ns + 1) * day_ns"
    using at_day_of(2) [of "t - c"] by (simp add: at_day_def day_of_def)
  then show ?thesis by (simp add: ex_env_def)
qed

lemma ex_due:
  "map (\<lambda>j. (j_id j, the (j_next_run_at j),
             if ack_gated (j_key j) then AwaitingAck else Queued, TriggerSchedule))
     (filter (\<lambda>j. j_enabled j \<and> due ex_env ex_now j \<and>
         (the (j_next_run_at j), j_id j) \<notin> run_key ` set (d_runs ex_db)) (d_jobs ex_db)) =
   [(1, 20000 * day_ns + 17 * hour_ns + 30 * minute_ns, Queued, TriggerSchedule),
    (3, 20000 * day_ns + 20 * hour_ns, AwaitingAck, TriggerSchedule)]"
  by code_simp

lemma ex_swept: "map (sweep_run ex_now ex_db) (d_runs ex_db) = [close_run Failed reap_gated_msg ex_now ex_stuck]"
  by code_simp

theorem tick_exact_witness:
  "\<exists>ext. d_runs (tick ex_env ex_now ex_db) = close_run Failed reap_gated_msg ex_now ex_stuck # ext \<and>
     map (\<lambda>r. (r_job r, r_scheduled_for r, r_status r, r_trigger r)) ext =
       [(1, 20000 * day_ns + 17 * hour_ns + 30 * minute_ns, Queued, TriggerSchedule),
        (3, 20000 * day_ns + 20 * hour_ns, AwaitingAck, TriggerSchedule)]"
  using tick_exact [OF ex_hyps] unfolding ex_due ex_swept by auto

lemma ex_ticked:
  "map (\<lambda>r. (r_id r, r_job r, r_status r)) (d_runs (tick ex_env ex_now ex_db)) =
     [(7, 3, Failed), (8, 1, Queued), (9, 3, AwaitingAck)]"
  "map (\<lambda>a. (a_id a, a_status a)) (d_artifacts (tick ex_env ex_now ex_db)) = [(1, Expired)]"
  "map j_id (d_jobs (tick ex_env ex_now ex_db)) = [1, 2, 3]"
  by code_simp+

theorem tick_queue_witness:
  "\<exists>ms. d_queue (tick ex_env ex_now ex_db) = d_queue ex_db @ ms \<and> 8 \<in> q_run ` set ms"
proof -
  have "e_enqueue_ok ex_env m" for m by (simp add: ex_env_def)
  moreover have "(8, 1, Queued) \<in> set (map (\<lambda>r. (r_id r, r_job r, r_status r)) (d_runs (tick ex_env ex_now ex_db)))"
    by (simp only: ex_ticked) simp
  then obtain r where "r \<in> set (d_runs (tick ex_env ex_now ex_db))" "r_id r = 8" "r_status r = Queued"
    by auto
  moreover have "r_id x = 7" if "x \<in> set (d_runs ex_db)" for x
    using that by (simp add: ex_db_def ex_stuck_def)
  ultimately show ?thesis using tick_queue [OF ex_hyps(1,2), of ex_now] by fastforce
qed


theorem tick_twice_witness:
  "d_runs (tick ex_env ex_now (tick ex_env ex_now ex_db)) = d_runs (tick ex_env ex_now ex_db)"
  using tick_twice [OF ex_hyps ex_next_later] by blast

theorem tick_inert_witness:
  "tick (ex_env\<lparr>e_configured := False\<rparr>) ex_now ex_db = ex_db"
  using tick_inert [of "ex_env\<lparr>e_configured := False\<rparr>" ex_now ex_db] by simp

end
