(* ===== verification/Auth.thy ===== *)
theory Auth
  imports GoTime Sha256
begin

text \<open>
  Identity and access, \<open>internal/auth\<close> and the gates of \<open>internal/api\<close>: roles, sign-in by provider
  subject, sliding sessions, the runners' bearer tokens, the request middleware and the login
  redirect.

  A token is stored as its SHA-256.  Random tokens, the clock and the identity provider are
  inputs: an operation that mints a token takes the raw token, one that reads the clock takes
  \<open>now\<close>, and the code exchange is a function from the authorization code to its outcome.
  Failures of the database other than constraint violations are not modelled.
\<close>

section \<open>Errors of the HTTP handlers\<close>

text \<open>A status code with its message; a handler returns an error or its output.\<close>

datatype http_error = Http int string

section \<open>Rows\<close>

datatype role = Member | Friend | Admin
datatype tier = TierFriend | TierAdmin

record user =
  u_id :: nat
  u_email :: string
  u_name :: string
  u_avatar :: string
  u_country :: string
  u_role :: role
  u_nickname :: "string option"
  u_greeted :: "role option"

record identity =
  i_id :: nat
  i_provider :: string
  i_sub :: string
  i_email :: string
  i_owner :: nat

record session =
  s_id :: nat
  s_token_hash :: string
  s_user_agent :: string
  s_expires_at :: instant
  s_owner :: nat

record api_token =
  t_id :: nat
  t_token_hash :: string
  t_name :: string
  t_runner :: string
  t_scope :: "string list"
  t_last_used_at :: "instant option"
  t_expires_at :: "instant option"
  t_owner :: nat

record grant =
  g_email :: string
  g_tier :: tier

text \<open>\<open>b_dependents\<close> are the owners of the other rows with a required user edge: WhatsApp templates,
  recipient lists and batches, OAuth codes and tokens.\<close>

record auth_db =
  b_users :: "user list"
  b_identities :: "identity list"
  b_sessions :: "session list"
  b_tokens :: "api_token list"
  b_grants :: "grant list"
  b_dependents :: "nat list"

record auth_config =
  c_client_id :: string
  c_client_secret :: string
  c_admin_emails :: "string list"
  c_friend_emails :: "string list"
  c_cookie_domain :: string
  c_cookie_secure :: bool
  c_frontend_url :: string

record service =
  v_configured :: bool
  v_client_id :: string
  v_admin_emails :: "string list"
  v_friend_emails :: "string list"
  v_cookie_domain :: string
  v_cookie_secure :: bool
  v_frontend_url :: string

datatype auth_error = EmailInUse string | Validation string | ForeignKey | NotFound

definition sessionDuration :: duration where "sessionDuration = 30 * 24 * hour_ns"
definition stateTTL :: duration where "stateTTL = 10 * minute_ns"
definition bumpThreshold :: duration where "bumpThreshold = hour_ns"

definition normalizeEmail :: "string \<Rightarrow> string" where
  "normalizeEmail e = to_lower (trim_space e)"

definition hashToken :: "string \<Rightarrow> string" where
  "hashToken raw = sha256_hex raw"

definition email_set :: "string list \<Rightarrow> string list" where
  "email_set es = remdups (filter (\<lambda>e. e \<noteq> '''') (map normalizeEmail es))"

definition New :: "auth_config \<Rightarrow> service" where
  "New cfg =
     \<lparr>v_configured = (c_client_id cfg \<noteq> '''' \<and> c_client_secret cfg \<noteq> ''''),
      v_client_id = c_client_id cfg,
      v_admin_emails = email_set (c_admin_emails cfg),
      v_friend_emails = email_set (c_friend_emails cfg),
      v_cookie_domain = c_cookie_domain cfg, v_cookie_secure = c_cookie_secure cfg,
      v_frontend_url = c_frontend_url cfg\<rparr>"

section \<open>Roles\<close>

fun roleRank :: "role \<Rightarrow> nat" where
  "roleRank Admin = 2"
| "roleRank Friend = 1"
| "roleRank Member = 0"

definition maxRole :: "role \<Rightarrow> role \<Rightarrow> role" where
  "maxRole a b = (if roleRank a \<ge> roleRank b then a else b)"

definition envTier :: "service \<Rightarrow> string \<Rightarrow> role" where
  "envTier s normalized =
     (if normalized \<in> set (v_admin_emails s) then Admin
      else if normalized \<in> set (v_friend_emails s) then Friend else Member)"

definition dbGrantTier :: "auth_db \<Rightarrow> string \<Rightarrow> role" where
  "dbGrantTier db normalized =
     (if normalized = '''' then Member
      else (case find (\<lambda>g. g_email g = normalized) (b_grants db) of None \<Rightarrow> Member
            | Some g \<Rightarrow> (case g_tier g of TierAdmin \<Rightarrow> Admin | TierFriend \<Rightarrow> Friend)))"

definition roleFor :: "service \<Rightarrow> auth_db \<Rightarrow> string \<Rightarrow> role" where
  "roleFor s db email =
     (let e = normalizeEmail email in maxRole (envTier s e) (dbGrantTier db e))"

definition RecomputeUserRole :: "service \<Rightarrow> string \<Rightarrow> auth_db \<Rightarrow> auth_db" where
  "RecomputeUserRole s email db =
     (let e = normalizeEmail email; role = roleFor s db e
      in db\<lparr>b_users := update_where (\<lambda>u. to_lower (u_email u) = to_lower e)
                         (\<lambda>u. u\<lparr>u_role := role\<rparr>) (b_users db)\<rparr>)"

section \<open>Sign-in\<close>

datatype claim_value = ClaimBool bool | ClaimString string | ClaimOther

record id_payload =
  p_subject :: string
  p_claims :: "(string \<times> claim_value) list"

record google_claims =
  gc_sub :: string
  gc_email :: string
  gc_name :: string
  gc_picture :: string

fun claimIsTrue :: "claim_value option \<Rightarrow> bool" where
  "claimIsTrue (Some (ClaimBool b)) = b"
| "claimIsTrue (Some (ClaimString s)) = (s = ''true'')"
| "claimIsTrue _ = False"

fun claim_string :: "claim_value option \<Rightarrow> string" where
  "claim_string (Some (ClaimString s)) = s"
| "claim_string _ = ''''"

definition parseClaims :: "id_payload \<Rightarrow> google_claims option" where
  "parseClaims p =
     (let cs = p_claims p; email = claim_string (map_of cs ''email'')
      in if p_subject p = '''' then None
         else if email = '''' \<or> \<not> claimIsTrue (map_of cs ''email_verified'') then None
         else Some \<lparr>gc_sub = p_subject p, gc_email = email,
                     gc_name = claim_string (map_of cs ''name''),
                     gc_picture = claim_string (map_of cs ''picture'')\<rparr>)"

definition providerGoogle :: string where "providerGoogle = ''google''"

definition user_by_id :: "auth_db \<Rightarrow> nat \<Rightarrow> user option" where
  "user_by_id db i = find (\<lambda>u. u_id u = i) (b_users db)"

text \<open>The sign-in of an identity that is known: refresh the owner, keep its email when the new one
  belongs to another account.\<close>

definition refreshed :: "role \<Rightarrow> google_claims \<Rightarrow> auth_db \<Rightarrow> user \<Rightarrow> user" where
  "refreshed role c db u =
     (let u1 = u\<lparr>u_name := gc_name c, u_avatar := gc_picture c, u_role := role\<rparr>;
          taken = (\<exists>x \<in> set (b_users db). u_email x = gc_email c \<and> u_id x \<noteq> u_id u)
      in if u_email u \<noteq> gc_email c \<and> \<not> taken then u1\<lparr>u_email := gc_email c\<rparr> else u1)"

definition refresh_login ::
  "role \<Rightarrow> google_claims \<Rightarrow> identity \<Rightarrow> user \<Rightarrow> auth_db \<Rightarrow> (auth_error + user) \<times> auth_db" where
  "refresh_login role c i owner db =
     (let u = refreshed role c db owner
      in if length (u_email u) > 254 then (Inl (Validation ''email''), db)
         else (Inr u,
               db\<lparr>b_users := update_where (\<lambda>x. u_id x = u_id owner) (\<lambda>_. u) (b_users db),
                  b_identities := update_where (\<lambda>x. i_id x = i_id i)
                     (\<lambda>x. x\<lparr>i_email := gc_email c\<rparr>) (b_identities db)\<rparr>))"

text \<open>A subject seen for the first time gets a user and an identity of its own.\<close>

definition first_login ::
  "role \<Rightarrow> google_claims \<Rightarrow> auth_db \<Rightarrow> (auth_error + user) \<times> auth_db" where
  "first_login role c db =
     (if gc_email c = '''' \<or> length (gc_email c) > 254 then (Inl (Validation ''email''), db)
      else if \<exists>x \<in> set (b_users db). u_email x = gc_email c then (Inl (EmailInUse (gc_email c)), db)
      else if gc_sub c = '''' then (Inl (Validation ''provider_sub''), db)
      else
        (let u = \<lparr>u_id = fresh_id (map u_id (b_users db)), u_email = gc_email c, u_name = gc_name c,
                  u_avatar = gc_picture c, u_country = ''61'', u_role = role, u_nickname = None,
                  u_greeted = None\<rparr>;
             i = \<lparr>i_id = fresh_id (map i_id (b_identities db)), i_provider = providerGoogle,
                  i_sub = gc_sub c, i_email = gc_email c, i_owner = u_id u\<rparr>
         in (Inr u, db\<lparr>b_users := b_users db @ [u], b_identities := b_identities db @ [i]\<rparr>)))"

definition is_login :: "google_claims \<Rightarrow> identity \<Rightarrow> bool" where
  "is_login c i \<longleftrightarrow> i_provider i = providerGoogle \<and> i_sub i = gc_sub c"

definition upsertUser ::
  "service \<Rightarrow> google_claims \<Rightarrow> auth_db \<Rightarrow> (auth_error + user) \<times> auth_db" where
  "upsertUser s c db =
     (let role = roleFor s db (gc_email c)
      in case find (is_login c) (b_identities db) of
           Some i \<Rightarrow>
             (case user_by_id db (i_owner i) of None \<Rightarrow> (Inl NotFound, db)
              | Some owner \<Rightarrow> refresh_login role c i owner db)
         | None \<Rightarrow> first_login role c db)"

section \<open>Sessions\<close>

definition createSession ::
  "string \<Rightarrow> instant \<Rightarrow> user \<Rightarrow> string \<Rightarrow> auth_db \<Rightarrow> (auth_error + unit) \<times> auth_db" where
  "createSession raw now u userAgent db =
     (if hashToken raw \<in> s_token_hash ` set (b_sessions db) then (Inl (Validation ''token_hash''), db)
      else (Inr (), db\<lparr>b_sessions := b_sessions db @
             [\<lparr>s_id = fresh_id (map s_id (b_sessions db)), s_token_hash = hashToken raw,
               s_user_agent = userAgent, s_expires_at = now + sessionDuration, s_owner = u_id u\<rparr>]\<rparr>))"

definition shouldBump :: "instant \<Rightarrow> instant \<Rightarrow> bool" where
  "shouldBump expiresAt now \<longleftrightarrow> time_sub expiresAt now < sessionDuration - bumpThreshold"

text \<open>Result: the user if the session is live, and whether its expiry was moved.\<close>

definition Authenticate ::
  "string \<Rightarrow> instant \<Rightarrow> auth_db \<Rightarrow> (user option \<times> bool) \<times> auth_db" where
  "Authenticate rawToken now db =
     (if rawToken = '''' then ((None, False), db)
      else (case find (\<lambda>s. s_token_hash s = hashToken rawToken) (b_sessions db) of
              None \<Rightarrow> ((None, False), db)
            | Some sess \<Rightarrow>
                if \<not> now < s_expires_at sess
                then ((None, False), db\<lparr>b_sessions := filter (\<lambda>x. s_id x \<noteq> s_id sess) (b_sessions db)\<rparr>)
                else if shouldBump (s_expires_at sess) now
                then ((user_by_id db (s_owner sess), True),
                      db\<lparr>b_sessions := update_where (\<lambda>x. s_id x = s_id sess)
                           (\<lambda>x. x\<lparr>s_expires_at := now + sessionDuration\<rparr>) (b_sessions db)\<rparr>)
                else ((user_by_id db (s_owner sess), False), db)))"

definition RevokeSession :: "string \<Rightarrow> auth_db \<Rightarrow> auth_db" where
  "RevokeSession rawToken db =
     (if rawToken = '''' then db
      else db\<lparr>b_sessions := filter (\<lambda>s. s_token_hash s \<noteq> hashToken rawToken) (b_sessions db)\<rparr>)"

definition RevokeAllForUser :: "nat \<Rightarrow> auth_db \<Rightarrow> auth_db" where
  "RevokeAllForUser userID db =
     db\<lparr>b_sessions := filter (\<lambda>s. s_owner s \<noteq> userID) (b_sessions db)\<rparr>"

definition IsSoleAdmin :: "user \<Rightarrow> auth_db \<Rightarrow> bool" where
  "IsSoleAdmin u db \<longleftrightarrow>
     u_role u = Admin \<and> count_where (\<lambda>x. u_role x = Admin) (b_users db) \<le> 1"

section \<open>Accounts\<close>

record profile_update =
  pu_country :: "string option"
  pu_nickname_set :: bool
  pu_nickname :: "string option"
  pu_ack_welcome :: bool

definition country_code_ok :: "string \<Rightarrow> bool" where
  "country_code_ok s \<longleftrightarrow> 1 \<le> length s \<and> length s \<le> 4 \<and> list_all is_digit s"

text \<open>The number of runes of a UTF-8 string: the bytes that do not continue a rune.\<close>

definition rune_start :: "char \<Rightarrow> bool" where
  "rune_start c \<longleftrightarrow> \<not> (128 \<le> (of_char c :: nat) \<and> (of_char c :: nat) < 192)"

definition rune_count :: "string \<Rightarrow> nat" where
  "rune_count s = length (filter rune_start s)"

definition profiled :: "profile_update \<Rightarrow> role \<Rightarrow> user \<Rightarrow> user" where
  "profiled upd role x =
     (let a = (case pu_country upd of Some c \<Rightarrow> x\<lparr>u_country := c\<rparr> | None \<Rightarrow> x);
          b = (if pu_nickname_set upd then a\<lparr>u_nickname := pu_nickname upd\<rparr> else a)
      in if pu_ack_welcome upd then b\<lparr>u_greeted := Some role\<rparr> else b)"

definition UpdateProfile ::
  "user \<Rightarrow> profile_update \<Rightarrow> auth_db \<Rightarrow> (auth_error + user) \<times> auth_db" where
  "UpdateProfile u upd db =
     (if (case pu_country upd of Some c \<Rightarrow> \<not> country_code_ok c | None \<Rightarrow> False)
      then (Inl (Validation ''default_country_code''), db)
      else if pu_nickname_set upd \<and> (case pu_nickname upd of Some n \<Rightarrow> rune_count n > 40 | None \<Rightarrow> False)
      then (Inl (Validation ''nickname''), db)
      else (case user_by_id db (u_id u) of None \<Rightarrow> (Inl NotFound, db)
            | Some row \<Rightarrow>
                (let row' = profiled upd (u_role u) row
                 in (Inr row', db\<lparr>b_users := update_where (\<lambda>x. u_id x = u_id u) (\<lambda>_. row') (b_users db)\<rparr>))))"

text \<open>The delete runs in one transaction: the user's sessions and identities go first, then the user.
  A row that still refers to the user (a required edge) makes the last step fail, and the
  transaction is rolled back.\<close>

definition DeleteUser :: "nat \<Rightarrow> auth_db \<Rightarrow> (auth_error + unit) \<times> auth_db" where
  "DeleteUser userID db =
     (if \<not> (\<exists>u \<in> set (b_users db). u_id u = userID) then (Inl NotFound, db)
      else if (\<exists>t \<in> set (b_tokens db). t_owner t = userID) \<or> userID \<in> set (b_dependents db)
      then (Inl ForeignKey, db)
      else (Inr (), db\<lparr>b_sessions := filter (\<lambda>s. s_owner s \<noteq> userID) (b_sessions db),
                       b_identities := filter (\<lambda>i. i_owner i \<noteq> userID) (b_identities db),
                       b_users := filter (\<lambda>u. u_id u \<noteq> userID) (b_users db)\<rparr>))"

section \<open>Bearer tokens\<close>

record bearer =
  br_user :: user
  br_runner :: string
  br_token_id :: nat
  br_scope :: "string list"

definition Allows :: "bearer \<Rightarrow> string \<Rightarrow> bool" where
  "Allows b jobKey \<longleftrightarrow> jobKey \<noteq> '''' \<and> list_ex (\<lambda>s. s = jobKey) (br_scope b)"

definition AuthenticateBearer :: "string \<Rightarrow> instant \<Rightarrow> auth_db \<Rightarrow> bearer option" where
  "AuthenticateBearer rawToken now db =
     (if rawToken = '''' then None
      else (case find (\<lambda>t. t_token_hash t = hashToken rawToken) (b_tokens db) of None \<Rightarrow> None
            | Some tok \<Rightarrow>
                if (case t_expires_at tok of Some e \<Rightarrow> \<not> now < e | None \<Rightarrow> False) then None
                else (case user_by_id db (t_owner tok) of None \<Rightarrow> None
                      | Some owner \<Rightarrow>
                          Some \<lparr>br_user = owner, br_runner = t_runner tok, br_token_id = t_id tok,
                                br_scope = t_scope tok\<rparr>)))"

definition MintApiToken ::
  "string \<Rightarrow> nat \<Rightarrow> string \<Rightarrow> string \<Rightarrow> string list \<Rightarrow> instant option \<Rightarrow> auth_db
     \<Rightarrow> (auth_error + api_token) \<times> auth_db" where
  "MintApiToken raw userID name runner scope expiresAt db =
     (if name = '''' \<or> runner = '''' then (Inl (Validation ''api token''), db)
      else if hashToken raw \<in> t_token_hash ` set (b_tokens db) then (Inl (Validation ''token_hash''), db)
      else if \<not> (\<exists>u \<in> set (b_users db). u_id u = userID) then (Inl ForeignKey, db)
      else (let tok = \<lparr>t_id = fresh_id (map t_id (b_tokens db)), t_token_hash = hashToken raw, t_name = name,
                       t_runner = runner, t_scope = scope, t_last_used_at = None,
                       t_expires_at = expiresAt, t_owner = userID\<rparr>
            in (Inr tok, db\<lparr>b_tokens := b_tokens db @ [tok]\<rparr>)))"

definition RevokeApiToken :: "nat \<Rightarrow> auth_db \<Rightarrow> auth_db" where
  "RevokeApiToken i db = db\<lparr>b_tokens := filter (\<lambda>t. t_id t \<noteq> i) (b_tokens db)\<rparr>"

definition TouchApiToken :: "nat \<Rightarrow> instant \<Rightarrow> auth_db \<Rightarrow> auth_db" where
  "TouchApiToken i now db =
     db\<lparr>b_tokens := update_where (\<lambda>t. t_id t = i) (\<lambda>t. t\<lparr>t_last_used_at := Some now\<rparr>) (b_tokens db)\<rparr>"

section \<open>Cookies\<close>

record cookie =
  k_cookie :: string
  k_value :: string
  k_domain :: string
  k_secure :: bool
  k_max_age :: int

definition buildCookie :: "service \<Rightarrow> string \<Rightarrow> string \<Rightarrow> int \<Rightarrow> bool \<Rightarrow> cookie" where
  "buildCookie s name value maxAge scoped =
     \<lparr>k_cookie = name, k_value = value,
      k_domain = (if scoped \<and> v_cookie_domain s \<noteq> '''' then v_cookie_domain s else ''''),
      k_secure = v_cookie_secure s, k_max_age = maxAge\<rparr>"

definition SessionCookie :: "service \<Rightarrow> string \<Rightarrow> cookie" where
  "SessionCookie s raw = buildCookie s ''session'' raw (sessionDuration div second_ns) True"
definition ClearSessionCookie :: "service \<Rightarrow> cookie" where
  "ClearSessionCookie s = buildCookie s ''session'' '''' (- 1) True"
definition StateCookie :: "service \<Rightarrow> string \<Rightarrow> cookie" where
  "StateCookie s state = buildCookie s ''oauth_state'' state (stateTTL div second_ns) False"
definition ClearStateCookie :: "service \<Rightarrow> cookie" where
  "ClearStateCookie s = buildCookie s ''oauth_state'' '''' (- 1) False"
definition ReturnToCookie :: "service \<Rightarrow> string \<Rightarrow> cookie" where
  "ReturnToCookie s path = buildCookie s ''oauth_return_to'' path (stateTTL div second_ns) False"
definition ClearReturnToCookie :: "service \<Rightarrow> cookie" where
  "ClearReturnToCookie s = buildCookie s ''oauth_return_to'' '''' (- 1) False"

section \<open>The request middleware\<close>

text \<open>The three context slots, the cookies the middleware adds to the response, and the tables.  A
  request is given by its session cookie, its \<open>Authorization\<close> header and the operation's id.\<close>

record request_ctx =
  x_user :: "user option"
  x_token :: string
  x_bearer :: "bearer option"

definition no_ctx :: request_ctx where
  "no_ctx = \<lparr>x_user = None, x_token = '''', x_bearer = None\<rparr>"

definition clearsSessionCookie :: "string option \<Rightarrow> bool" where
  "clearsSessionCookie oper =
     (case oper of None \<Rightarrow> False | Some i \<Rightarrow> i \<in> {''logout'', ''logout-all'', ''delete-account''})"

definition readBearer :: "string \<Rightarrow> string" where
  "readBearer h =
     (if h = '''' then ''''
      else if length h < 7 \<or> to_lower (take 7 h) \<noteq> ''bearer '' then ''''
      else trim_space (drop 7 h))"

definition Middleware ::
  "service \<Rightarrow> instant \<Rightarrow> string option \<Rightarrow> string \<Rightarrow> string \<Rightarrow> auth_db
     \<Rightarrow> (request_ctx \<times> cookie list) \<times> auth_db" where
  "Middleware s now oper raw header db =
     (if raw \<noteq> '''' then
        (let a = Authenticate raw now db; bumped = snd (fst a); db1 = snd a
         in case fst (fst a) of None \<Rightarrow> ((no_ctx, []), db1)
            | Some u \<Rightarrow>
                ((no_ctx\<lparr>x_user := Some u, x_token := raw\<rparr>,
                  if bumped \<and> \<not> clearsSessionCookie oper then [SessionCookie s raw] else []), db1))
      else if readBearer header \<noteq> '''' then
        (case AuthenticateBearer (readBearer header) now db of None \<Rightarrow> ((no_ctx, []), db)
         | Some b \<Rightarrow> ((no_ctx\<lparr>x_bearer := Some b\<rparr>, []), TouchApiToken (br_token_id b) now db))
      else ((no_ctx, []), db))"

section \<open>Gates\<close>

definition requireAdmin :: "request_ctx \<Rightarrow> http_error + user" where
  "requireAdmin ctx =
     (case x_user ctx of None \<Rightarrow> Inl (Http 401 ''authentication required'')
      | Some u \<Rightarrow> if u_role u \<noteq> Admin then Inl (Http 403 ''admin access required'') else Inr u)"

definition requireFriend :: "request_ctx \<Rightarrow> http_error + user" where
  "requireFriend ctx =
     (case x_user ctx of None \<Rightarrow> Inl (Http 401 ''authentication required'')
      | Some u \<Rightarrow> if u_role u \<noteq> Admin \<and> u_role u \<noteq> Friend
                 then Inl (Http 403 ''this tool is available to friends only'') else Inr u)"

definition requireBearer :: "request_ctx \<Rightarrow> string \<Rightarrow> http_error + bearer" where
  "requireBearer ctx jobKey =
     (case x_bearer ctx of None \<Rightarrow> Inl (Http 401 ''a valid bearer token is required'')
      | Some b \<Rightarrow> if \<not> Allows b jobKey
                 then Inl (Http 403 (''this token'' @ [CHR 0x27] @ ''s scope does not authorize that job'')) else Inr b)"

section \<open>The login redirect\<close>

text \<open>What \<open>url.Parse\<close> rejects in a string that starts with a single slash: a control character
  before the fragment, and a percent sign not followed by two hex digits in the path or the
  fragment (the query is kept as it is).  Such a string has no scheme and no host.\<close>

definition is_hex :: "char \<Rightarrow> bool" where
  "is_hex c \<longleftrightarrow> is_digit c \<or> (97 \<le> (of_char (lower_char c) :: nat) \<and> (of_char (lower_char c) :: nat) \<le> 102)"

fun percent_ok :: "string \<Rightarrow> bool" where
  "percent_ok [] = True"
| "percent_ok (c # s) =
     (if c = CHR ''%''
      then (case s of a # b # r \<Rightarrow> is_hex a \<and> is_hex b \<and> percent_ok s | _ \<Rightarrow> False)
      else percent_ok s)"

definition is_ctl :: "char \<Rightarrow> bool" where
  "is_ctl c \<longleftrightarrow> (of_char c :: nat) < 32 \<or> (of_char c :: nat) = 127"

definition url_rooted_ok :: "string \<Rightarrow> bool" where
  "url_rooted_ok p =
     (let u = takeWhile (\<lambda>c. c \<noteq> CHR ''#'') p; frag = drop (Suc (length u)) p;
          path = takeWhile (\<lambda>c. c \<noteq> CHR ''?'') u
      in list_all (\<lambda>c. \<not> is_ctl c) u \<and> percent_ok path \<and> percent_ok frag)"

definition safeInternalPath :: "string \<Rightarrow> bool" where
  "safeInternalPath p =
     (if p = '''' \<or> hd p \<noteq> CHR ''/'' then False
      else if prefix ''//'' p \<or> prefix (''/'' @ [CHR 0x5C]) p then False
      else url_rooted_ok p)"

datatype response = HttpError int string | Redirect string

text \<open>\<open>authURL\<close> is the provider's consent URL, \<open>return_to\<close> the query parameter.\<close>

definition LoginHandler ::
  "service \<Rightarrow> (string \<Rightarrow> string) \<Rightarrow> string \<Rightarrow> string \<Rightarrow> response \<times> cookie list" where
  "LoginHandler s authURL state return_to =
     (if \<not> v_configured s then (HttpError 503 ''auth not configured'', [])
      else (Redirect (authURL state),
            StateCookie s state # (if safeInternalPath return_to then [ReturnToCookie s return_to] else [])))"

text \<open>The outcome of the code exchange and the ID token's validation, which are the provider's.\<close>

datatype exchange_result = CodeRejected | ExchangeFailed | IdToken id_payload

record callback_request =
  q_state_cookie :: "string option"
  q_return_to_cookie :: "string option"
  q_state :: string
  q_code :: string
  q_user_agent :: string

definition CallbackHandler ::
  "service \<Rightarrow> (string \<Rightarrow> exchange_result) \<Rightarrow> string \<Rightarrow> instant \<Rightarrow> callback_request \<Rightarrow> auth_db
     \<Rightarrow> (response \<times> cookie list) \<times> auth_db" where
  "CallbackHandler s exchange raw now rq db =
     (if \<not> v_configured s then ((HttpError 503 ''auth not configured'', []), db)
      else
       (let returnTo = (case q_return_to_cookie rq of Some p \<Rightarrow> p | None \<Rightarrow> '''');
            cleared = ClearStateCookie s #
              (case q_return_to_cookie rq of Some _ \<Rightarrow> [ClearReturnToCookie s] | None \<Rightarrow> []);
            fail = (\<lambda>code msg. ((HttpError code msg, cleared), db))
        in if (case q_state_cookie rq of None \<Rightarrow> True | Some v \<Rightarrow> v = '''' \<or> v \<noteq> q_state rq)
           then fail 400 ''invalid oauth state''
           else if q_code rq = '''' then fail 400 ''missing authorization code''
           else
            (case exchange (q_code rq) of
               CodeRejected \<Rightarrow> fail 400 ''sign-in link expired or invalid, please try again''
             | ExchangeFailed \<Rightarrow> fail 502 ''sign-in failed''
             | IdToken p \<Rightarrow>
                 (case parseClaims p of None \<Rightarrow> fail 502 ''sign-in failed''
                  | Some c \<Rightarrow>
                      (let r = upsertUser s c db
                       in case fst r of
                            Inl (EmailInUse _) \<Rightarrow> fail 409 ''an account already exists for this email''
                          | Inl _ \<Rightarrow> fail 500 ''sign-in failed''
                          | Inr u \<Rightarrow>
                              (let cs = createSession raw now u (q_user_agent rq) (snd r);
                                   dest = (if safeInternalPath returnTo then returnTo else v_frontend_url s)
                               in case fst cs of
                                    Inl _ \<Rightarrow> ((HttpError 500 ''sign-in failed'', cleared), snd cs)
                                  | Inr _ \<Rightarrow> ((Redirect dest, cleared @ [SessionCookie s raw]), snd cs)))))))"

section \<open>Invariant\<close>

definition auth_inv :: "auth_db \<Rightarrow> bool" where
  "auth_inv db \<longleftrightarrow>
     distinct (map u_id (b_users db)) \<and> distinct (map u_email (b_users db)) \<and>
     distinct (map i_id (b_identities db)) \<and>
     distinct (map (\<lambda>i. (i_provider i, i_sub i)) (b_identities db)) \<and>
     distinct (map s_id (b_sessions db)) \<and> distinct (map s_token_hash (b_sessions db)) \<and>
     distinct (map t_id (b_tokens db)) \<and> distinct (map t_token_hash (b_tokens db)) \<and>
     (\<forall>i \<in> set (b_identities db). i_owner i \<in> u_id ` set (b_users db)) \<and>
     (\<forall>s \<in> set (b_sessions db). s_owner s \<in> u_id ` set (b_users db)) \<and>
     (\<forall>t \<in> set (b_tokens db). t_owner t \<in> u_id ` set (b_users db))"

lemma user_by_id_Some: "user_by_id db i = Some u \<Longrightarrow> u \<in> set (b_users db) \<and> u_id u = i"
  unfolding user_by_id_def by (auto dest: find_SomeD)

lemma user_by_id_unique:
  "auth_inv db \<Longrightarrow> u \<in> set (b_users db) \<Longrightarrow> user_by_id db (u_id u) = Some u"
  unfolding user_by_id_def auth_inv_def by (auto intro: distinct_find)

lemma user_by_id_ex: "i \<in> u_id ` set (b_users db) \<Longrightarrow> \<exists>u. user_by_id db i = Some u"
  by (cases "user_by_id db i") (auto simp: user_by_id_def find_None_iff)

section \<open>Roles\<close>

instantiation role :: linorder
begin

definition less_eq_role :: "role \<Rightarrow> role \<Rightarrow> bool" where
  "less_eq_role a b \<longleftrightarrow> roleRank a \<le> roleRank b"

definition less_role :: "role \<Rightarrow> role \<Rightarrow> bool" where
  "less_role a b \<longleftrightarrow> roleRank a < roleRank b"

instance
proof
  fix a b c :: role
  show "a < b \<longleftrightarrow> a \<le> b \<and> \<not> b \<le> a" "a \<le> a" "a \<le> b \<or> b \<le> a"
    by (auto simp: less_eq_role_def less_role_def)
  show "a \<le> b \<Longrightarrow> b \<le> c \<Longrightarrow> a \<le> c" by (simp add: less_eq_role_def)
  show "a \<le> b \<Longrightarrow> b \<le> a \<Longrightarrow> a = b" by (cases a; cases b) (simp_all add: less_eq_role_def)
qed

end

lemma maxRole_max: "maxRole a b = max a b"
  by (cases a; cases b) (simp_all add: maxRole_def max_def less_eq_role_def)

lemma Member_least [simp]: "Member \<le> r"
  by (cases r) (simp_all add: less_eq_role_def)

text \<open>A role is the greater of the two sources, for the order member, friend, admin: the
  allowlists are a floor that no grant and no revocation lowers, a grant can only raise, and a
  recomputation writes that role to exactly the users with the address, whatever its case.\<close>

theorem role_resolution:
  "roleFor s db email = max (envTier s (normalizeEmail email)) (dbGrantTier db (normalizeEmail email)) \<and>
   envTier s (normalizeEmail email) \<le> roleFor s (db\<lparr>b_grants := gs\<rparr>) email \<and>
   roleFor s (db\<lparr>b_grants := []\<rparr>) email = envTier s (normalizeEmail email) \<and>
   b_users (RecomputeUserRole s email db) =
     map (\<lambda>u. if to_lower (u_email u) = normalizeEmail email
              then u\<lparr>u_role := roleFor s db (normalizeEmail email)\<rparr> else u) (b_users db)"
proof (intro conjI)
  have r: "roleFor s d email = max (envTier s (normalizeEmail email)) (dbGrantTier d (normalizeEmail email))" for d
    by (simp add: roleFor_def maxRole_max Let_def)
  show "roleFor s db email = max (envTier s (normalizeEmail email)) (dbGrantTier db (normalizeEmail email))"
    by (rule r)
  show "envTier s (normalizeEmail email) \<le> roleFor s (db\<lparr>b_grants := gs\<rparr>) email" by (simp add: r)
  show "roleFor s (db\<lparr>b_grants := []\<rparr>) email = envTier s (normalizeEmail email)"
    by (simp add: r dbGrantTier_def)
  show "b_users (RecomputeUserRole s email db) =
     map (\<lambda>u. if to_lower (u_email u) = normalizeEmail email
              then u\<lparr>u_role := roleFor s db (normalizeEmail email)\<rparr> else u) (b_users db)"
    by (simp add: RecomputeUserRole_def Let_def update_where_def normalizeEmail_def)
qed

section \<open>Sign-in\<close>

lemma refreshed_simps [simp]:
  "u_id (refreshed role c db u) = u_id u" "u_role (refreshed role c db u) = role"
  "u_name (refreshed role c db u) = gc_name c" "u_nickname (refreshed role c db u) = u_nickname u"
  "u_country (refreshed role c db u) = u_country u" "u_greeted (refreshed role c db u) = u_greeted u"
  by (simp_all add: refreshed_def Let_def)

lemma refreshed_email:
  "u_email (refreshed role c db u) = u_email u \<or>
   u_email (refreshed role c db u) = gc_email c \<and> (\<forall>x \<in> set (b_users db). u_id x \<noteq> u_id u \<longrightarrow> u_email x \<noteq> gc_email c)"
  by (auto simp: refreshed_def Let_def)

lemma find_login:
  assumes "auth_inv db" "i \<in> set (b_identities db)" "is_login c i"
  shows "find (is_login c) (b_identities db) = Some i"
proof -
  have "find (\<lambda>x. (i_provider x, i_sub x) = (i_provider i, i_sub i)) (b_identities db) = Some i"
    using assms(1,2) by (intro distinct_find) (simp_all add: auth_inv_def)
  moreover have "is_login c = (\<lambda>x. (i_provider x, i_sub x) = (i_provider i, i_sub i))"
    using assms(3) by (simp add: fun_eq_iff is_login_def)
  ultimately show ?thesis by simp
qed

lemma replace_user_inv:
  assumes "auth_inv db" "u0 \<in> set (b_users db)" "u_id u = u_id u0"
    and "\<forall>x \<in> set (b_users db). u_id x \<noteq> u_id u0 \<longrightarrow> u_email x \<noteq> u_email u"
  shows "distinct (map u_email (update_where (\<lambda>x. u_id x = u_id u0) (\<lambda>_. u) (b_users db)))"
proof -
  let ?g = "\<lambda>x. if u_id x = u_id u0 then u else x"
  have inj: "inj_on u_id (set (b_users db))" and dl: "distinct (b_users db)"
    and inje: "inj_on u_email (set (b_users db))"
    using assms(1) by (simp_all add: auth_inv_def distinct_map)
  have "inj_on (u_email \<circ> ?g) (set (b_users db))"
  proof (rule inj_onI)
    fix x y assume xy: "x \<in> set (b_users db)" "y \<in> set (b_users db)" "(u_email \<circ> ?g) x = (u_email \<circ> ?g) y"
    show "x = y"
    proof (cases "u_id x = u_id u0"; cases "u_id y = u_id u0")
      assume "u_id x = u_id u0" "u_id y = u_id u0"
      then show ?thesis using inj xy(1,2) by (metis inj_onD)
    next
      assume "u_id x \<noteq> u_id u0" "u_id y \<noteq> u_id u0"
      then show ?thesis using inje xy by (auto dest: inj_onD)
    qed (use xy assms(4) in \<open>auto dest: sym\<close>)
  qed
  with dl show ?thesis by (simp add: update_where_def distinct_map)
qed

lemma update_users_ids:
  "u_id u = u_id u0 \<Longrightarrow> map u_id (update_where (\<lambda>x. u_id x = u_id u0) (\<lambda>_. u) us) = map u_id us"
  by (simp add: update_where_def)

lemma refresh_login_cases:
  obtains "fst (refresh_login role c i u0 db) = Inl (Validation ''email'')" "snd (refresh_login role c i u0 db) = db"
  | u where "u = refreshed role c db u0" "fst (refresh_login role c i u0 db) = Inr u"
    "b_users (snd (refresh_login role c i u0 db)) = update_where (\<lambda>x. u_id x = u_id u0) (\<lambda>_. u) (b_users db)"
    "b_identities (snd (refresh_login role c i u0 db)) =
       update_where (\<lambda>x. i_id x = i_id i) (\<lambda>x. x\<lparr>i_email := gc_email c\<rparr>) (b_identities db)"
    "b_sessions (snd (refresh_login role c i u0 db)) = b_sessions db"
    "b_tokens (snd (refresh_login role c i u0 db)) = b_tokens db"
  by (cases "length (u_email (refreshed role c db u0)) > 254")
    (simp_all add: refresh_login_def Let_def)

lemma refresh_login_inv:
  assumes "auth_inv db" "u0 \<in> set (b_users db)"
  shows "auth_inv (snd (refresh_login role c i u0 db))"
proof (cases rule: refresh_login_cases [of role c i u0 db])
  case 1
  with assms show ?thesis by simp
next
  case (2 u)
  let ?us = "update_where (\<lambda>x. u_id x = u_id u0) (\<lambda>_. u) (b_users db)"
  let ?is = "update_where (\<lambda>x. i_id x = i_id i) (\<lambda>x. x\<lparr>i_email := gc_email c\<rparr>) (b_identities db)"
  have id: "u_id u = u_id u0" by (simp add: 2(1))
  have "inj_on u_email (set (b_users db))" using assms(1) by (simp add: auth_inv_def distinct_map)
  then have other: "u_email x \<noteq> u_email u0" if "x \<in> set (b_users db)" "u_id x \<noteq> u_id u0" for x
    using that assms(2) by (metis inj_onD)
  have e: "\<forall>x \<in> set (b_users db). u_id x \<noteq> u_id u0 \<longrightarrow> u_email x \<noteq> u_email u"
    using refreshed_email [of role c db u0] other unfolding 2(1) by metis
  have emails: "distinct (map u_email ?us)" by (rule replace_user_inv [OF assms id e])
  have ids: "map u_id ?us = map u_id (b_users db)" using id by (rule update_users_ids)
  then have idset: "u_id ` set ?us = u_id ` set (b_users db)" by (metis set_map)
  have is1: "map i_id ?is = map i_id (b_identities db)"
    and is2: "map (\<lambda>i. (i_provider i, i_sub i)) ?is = map (\<lambda>i. (i_provider i, i_sub i)) (b_identities db)"
    and is3: "map i_owner ?is = map i_owner (b_identities db)"
    by (simp_all add: map_update_where)
  have "i_owner ` set ?is = i_owner ` set (b_identities db)" using is3 by (metis set_map)
  moreover have "i_owner ` set (b_identities db) \<subseteq> u_id ` set (b_users db)"
    using assms(1) by (auto simp: auth_inv_def)
  ultimately have own: "\<forall>j \<in> set ?is. i_owner j \<in> u_id ` set ?us" unfolding idset by blast
  show ?thesis
    using assms(1) emails own
    unfolding auth_inv_def 2(3-6) ids is1 is2 idset by simp
qed

lemma first_login_cases:
  obtains e where "fst (first_login role c db) = Inl e" "snd (first_login role c db) = db"
    "\<forall>m. e = EmailInUse m \<longrightarrow> m = gc_email c \<and> m \<in> u_email ` set (b_users db)"
  | u i where "fst (first_login role c db) = Inr u" "u_id u = fresh_id (map u_id (b_users db))"
    "u_email u = gc_email c" "u_role u = role" "gc_email c \<notin> u_email ` set (b_users db)"
    "snd (first_login role c db) = db\<lparr>b_users := b_users db @ [u], b_identities := b_identities db @ [i]\<rparr>"
    "is_login c i" "i_owner i = u_id u" "i_id i = fresh_id (map i_id (b_identities db))"
proof (cases "gc_email c = '''' \<or> length (gc_email c) > 254")
  case True
  then show ?thesis using that(1) by (auto simp: first_login_def)
next
  case long: False
  show ?thesis
  proof (cases "\<exists>x \<in> set (b_users db). u_email x = gc_email c")
    case True
    then have "gc_email c \<in> u_email ` set (b_users db)" by (metis image_eqI)
    then show ?thesis
      by (intro that(1) [of "EmailInUse (gc_email c)"]) (use long True in \<open>simp_all add: first_login_def\<close>)
  next
    case free: False
    show ?thesis
    proof (cases "gc_sub c = ''''")
      case True
      then show ?thesis using that(1) [of "Validation ''provider_sub''"] long free by (auto simp: first_login_def)
    next
      case False
      let ?u = "\<lparr>u_id = fresh_id (map u_id (b_users db)), u_email = gc_email c, u_name = gc_name c,
                  u_avatar = gc_picture c, u_country = ''61'', u_role = role, u_nickname = None,
                  u_greeted = None\<rparr>"
      let ?i = "\<lparr>i_id = fresh_id (map i_id (b_identities db)), i_provider = providerGoogle,
                  i_sub = gc_sub c, i_email = gc_email c, i_owner = u_id ?u\<rparr>"
      have f: "first_login role c db =
          (Inr ?u, db\<lparr>b_users := b_users db @ [?u], b_identities := b_identities db @ [?i]\<rparr>)"
        using long free False by (simp add: first_login_def Let_def)
      show ?thesis by (rule that(2) [of ?u ?i]) (use free in \<open>auto simp: f is_login_def\<close>)
    qed
  qed
qed

lemma first_login_inv:
  assumes "auth_inv db" "find (is_login c) (b_identities db) = None"
  shows "auth_inv (snd (first_login role c db))"
proof (cases rule: first_login_cases [of role c db])
  case (1 e)
  with assms show ?thesis by simp
next
  case (2 u i)
  have "(i_provider i, i_sub i) \<noteq> (i_provider j, i_sub j)" if "j \<in> set (b_identities db)" for j
  proof
    assume "(i_provider i, i_sub i) = (i_provider j, i_sub j)"
    with 2(7) have "is_login c j" by (simp add: is_login_def)
    with assms(2) that show False by (auto simp: find_None_iff)
  qed
  then have "(i_provider i, i_sub i) \<notin> (\<lambda>i. (i_provider i, i_sub i)) ` set (b_identities db)" by blast
  moreover have "u_id u \<notin> u_id ` set (b_users db)" "i_id i \<notin> i_id ` set (b_identities db)"
    using fresh_id_new [of "map u_id (b_users db)"] fresh_id_new [of "map i_id (b_identities db)"]
    by (simp_all add: 2)
  ultimately show ?thesis
    using assms(1) 2(3,5,8) unfolding 2(6) auth_inv_def by auto
qed

lemma upsert_inv: "auth_inv db \<Longrightarrow> auth_inv (snd (upsertUser s c db))"
  using first_login_inv [of db c] refresh_login_inv [of db] user_by_id_Some [of db]
  by (auto simp: upsertUser_def Let_def split: option.splits)

lemma upsert_known:
  assumes "auth_inv db" "i \<in> set (b_identities db)" "is_login c i"
  obtains u0 where "u0 \<in> set (b_users db)" "u_id u0 = i_owner i"
    "upsertUser s c db = refresh_login (roleFor s db (gc_email c)) c i u0 db"
proof -
  obtain u0 where u0: "user_by_id db (i_owner i) = Some u0"
    using assms(1,2) user_by_id_ex [of "i_owner i" db] by (auto simp: auth_inv_def)
  show ?thesis
    using that [of u0] user_by_id_Some [OF u0]
    by (simp add: upsertUser_def find_login [OF assms] u0 Let_def)
qed

lemma known_same_user:
  assumes "auth_inv db" "i \<in> set (b_identities db)" "is_login c i" "fst (upsertUser s c db) = Inr u"
  shows "u_id u = i_owner i"
proof -
  obtain u0 where u0: "u_id u0 = i_owner i"
    "upsertUser s c db = refresh_login (roleFor s db (gc_email c)) c i u0 db"
    using upsert_known [OF assms(1-3)] by metis
  show ?thesis
    by (cases rule: refresh_login_cases [of "roleFor s db (gc_email c)" c i u0 db])
      (use assms(4) u0 in auto)
qed

text \<open>After a sign-in the same subject stays the same user.\<close>

lemma sign_in_again:
  assumes "auth_inv db'" "i \<in> set (b_identities db')" "is_login c i"
  shows "\<forall>s' c' u'. gc_sub c' = gc_sub c \<longrightarrow> fst (upsertUser s' c' db') = Inr u' \<longrightarrow> u_id u' = i_owner i"
proof (intro allI impI)
  fix s' c' u' assume c': "gc_sub c' = gc_sub c" "fst (upsertUser s' c' db') = Inr u'"
  show "u_id u' = i_owner i" by (rule known_same_user [OF assms(1,2) _ c'(2)]) (use c'(1) assms(3) in \<open>simp add: is_login_def\<close>)
qed

lemma sign_in_known:
  assumes "auth_inv db" "i \<in> set (b_identities db)" "is_login c i" "upsertUser s c db = (Inr u, db')"
  shows "u_role u = roleFor s db (gc_email c)" "u \<in> set (b_users db')" "u_id u = i_owner i"
    "\<forall>x \<in> set (b_users db). u_id x \<noteq> u_id u \<longrightarrow> x \<in> set (b_users db')"
    "map u_id (b_users db') = map u_id (b_users db)" "i\<lparr>i_email := gc_email c\<rparr> \<in> set (b_identities db')"
proof -
  obtain u0 where u0: "u0 \<in> set (b_users db)" "u_id u0 = i_owner i"
    "upsertUser s c db = refresh_login (roleFor s db (gc_email c)) c i u0 db"
    using upsert_known [OF assms(1-3)] by metis
  have "u_role u = roleFor s db (gc_email c) \<and> u \<in> set (b_users db') \<and> u_id u = i_owner i \<and>
      (\<forall>x \<in> set (b_users db). u_id x \<noteq> u_id u \<longrightarrow> x \<in> set (b_users db')) \<and>
      map u_id (b_users db') = map u_id (b_users db) \<and> i\<lparr>i_email := gc_email c\<rparr> \<in> set (b_identities db')"
  proof (cases rule: refresh_login_cases [of "roleFor s db (gc_email c)" c i u0 db])
    case (2 v)
    have u: "u = v" and db': "db' = snd (refresh_login (roleFor s db (gc_email c)) c i u0 db)"
      using 2(2) assms(4) u0(3) by simp_all
    have id: "u_id v = u_id u0" and role: "u_role v = roleFor s db (gc_email c)" by (simp_all add: 2(1))
    have "map u_id (b_users db') = map u_id (b_users db)" unfolding db' 2(3) using id by (rule update_users_ids)
    moreover have "v \<in> set (b_users db')" "\<forall>x \<in> set (b_users db). u_id x \<noteq> u_id v \<longrightarrow> x \<in> set (b_users db')"
      using u0(1) by (auto simp: db' 2(3) id in_update_where)
    moreover have "i\<lparr>i_email := gc_email c\<rparr> \<in> set (b_identities db')" using assms(2) by (auto simp: db' 2(4) in_update_where)
    ultimately show ?thesis using role id u0(2) unfolding u by simp
  qed (use assms(4) u0(3) in simp)
  then show "u_role u = roleFor s db (gc_email c)" "u \<in> set (b_users db')" "u_id u = i_owner i"
    "\<forall>x \<in> set (b_users db). u_id x \<noteq> u_id u \<longrightarrow> x \<in> set (b_users db')"
    "map u_id (b_users db') = map u_id (b_users db)" "i\<lparr>i_email := gc_email c\<rparr> \<in> set (b_identities db')" by blast+
qed

text \<open>C11: Sign-in.  The provider's subject decides the account, never the email: a known subject
  signs in as its owner, whatever address the provider sends, an unknown one gets an account of its
  own, and an address that another account holds is an error that changes nothing.  A successful
  sign-in sets the role from the two sources, touches no other account, keeps every unique index
  and reference, and every later sign-in with the subject is the same account.\<close>

theorem sign_in:
  assumes "auth_inv db" "upsertUser s c db = (res, db')"
  shows "auth_inv db' \<and>
    (case res of
       Inr u \<Rightarrow>
         u_role u = roleFor s db (gc_email c) \<and> u \<in> set (b_users db') \<and>
         (\<forall>x \<in> set (b_users db). u_id x \<noteq> u_id u \<longrightarrow> x \<in> set (b_users db')) \<and>
         (if \<exists>i \<in> set (b_identities db). is_login c i
          then (\<exists>i \<in> set (b_identities db). is_login c i \<and> i_owner i = u_id u) \<and>
               map u_id (b_users db') = map u_id (b_users db)
          else u_id u \<notin> u_id ` set (b_users db) \<and> gc_email c \<notin> u_email ` set (b_users db) \<and>
               b_users db' = b_users db @ [u]) \<and>
         (\<forall>s' c' u'. gc_sub c' = gc_sub c \<longrightarrow> fst (upsertUser s' c' db') = Inr u' \<longrightarrow> u_id u' = u_id u)
     | Inl e \<Rightarrow>
         db' = db \<and>
         (\<forall>m. e = EmailInUse m \<longrightarrow> m = gc_email c \<and> m \<in> u_email ` set (b_users db) \<and>
            \<not> (\<exists>i \<in> set (b_identities db). is_login c i)))"
proof -
  have inv: "auth_inv db'" using upsert_inv [OF assms(1), of s c] assms(2) by simp
  show ?thesis
  proof (cases "\<exists>i \<in> set (b_identities db). is_login c i")
    case True
    then obtain i where i: "i \<in> set (b_identities db)" "is_login c i" by blast
    show ?thesis
    proof (cases res)
      case (Inl e)
      obtain u0 where "upsertUser s c db = refresh_login (roleFor s db (gc_email c)) c i u0 db"
        using upsert_known [OF assms(1) i] by metis
      then have "db' = db \<and> e = Validation ''email''"
        using Inl assms(2) by (simp add: refresh_login_def Let_def split: if_splits)
      with Inl assms(1) show ?thesis by simp
    next
      case (Inr u)
      note known = sign_in_known [OF assms(1) i assms(2) [unfolded Inr]]
      have "is_login c (i\<lparr>i_email := gc_email c\<rparr>)" using i(2) by (simp add: is_login_def)
      from sign_in_again [OF inv known(6) this] show ?thesis using True i inv known(1-5) Inr by auto
    qed
  next
    case False
    then have "find (is_login c) (b_identities db) = None" by (auto simp: find_None_iff)
    then have up: "upsertUser s c db = first_login (roleFor s db (gc_email c)) c db" by (simp add: upsertUser_def Let_def)
    show ?thesis
    proof (cases rule: first_login_cases [of "roleFor s db (gc_email c)" c db])
      case (1 e)
      then show ?thesis using assms up False by simp
    next
      case (2 u i)
      have res: "res = Inr u" and db': "db' = db\<lparr>b_users := b_users db @ [u], b_identities := b_identities db @ [i]\<rparr>"
        using 2 assms(2) up by simp_all
      have "u_id u \<notin> u_id ` set (b_users db)" using fresh_id_new [of "map u_id (b_users db)"] by (simp add: 2(2))
      with sign_in_again [OF inv _ 2(7)] show ?thesis using False inv 2(4,5,8) unfolding res by (simp add: db')
    qed
  qed
qed

section \<open>Sessions\<close>

lemma find_session:
  "auth_inv db \<Longrightarrow> x \<in> set (b_sessions db) \<Longrightarrow> s_token_hash x = h \<Longrightarrow>
     find (\<lambda>s. s_token_hash s = h) (b_sessions db) = Some x"
  using distinct_find [of s_token_hash "b_sessions db" x] by (auto simp: auth_inv_def)

lemma Authenticate_inv: "auth_inv db \<Longrightarrow> auth_inv (snd (Authenticate raw now db))"
  by (auto simp: Authenticate_def auth_inv_def Let_def distinct_map_filter map_update_where in_update_where
      split: option.splits)

text \<open>The session a token names is one, and its row is told from the others by its id.\<close>

lemma session_of_token:
  assumes "auth_inv db" "find (\<lambda>s. s_token_hash s = hashToken raw) (b_sessions db) = Some x"
  shows "x \<in> set (b_sessions db)" "s_token_hash x = hashToken raw"
    "y \<in> set (b_sessions db) \<Longrightarrow> s_token_hash y = hashToken raw \<longleftrightarrow> y = x"
    "y \<in> set (b_sessions db) \<Longrightarrow> s_id y = s_id x \<longleftrightarrow> y = x"
    "\<exists>u. user_by_id db (s_owner x) = Some u \<and> (\<forall>v. v \<in> set (b_users db) \<and> u_id v = s_owner x \<longleftrightarrow> v = u)"
proof -
  show x: "x \<in> set (b_sessions db)" "s_token_hash x = hashToken raw" using find_SomeD [OF assms(2)] by auto
  show "y \<in> set (b_sessions db) \<Longrightarrow> s_token_hash y = hashToken raw \<longleftrightarrow> y = x"
    using find_session [OF assms(1), of y "hashToken raw"] x assms(2) by auto
  have "inj_on s_id (set (b_sessions db))" using assms(1) by (simp add: auth_inv_def distinct_map)
  then show "y \<in> set (b_sessions db) \<Longrightarrow> s_id y = s_id x \<longleftrightarrow> y = x" using x(1) by (auto dest: inj_onD)
  obtain u where u: "user_by_id db (s_owner x) = Some u"
    using assms(1) x(1) user_by_id_ex [of "s_owner x" db] by (auto simp: auth_inv_def)
  with user_by_id_Some [OF u] user_by_id_unique [OF assms(1)]
  show "\<exists>u. user_by_id db (s_owner x) = Some u \<and> (\<forall>v. v \<in> set (b_users db) \<and> u_id v = s_owner x \<longleftrightarrow> v = u)"
    by (intro exI [of _ u]) fastforce
qed

lemma Authenticate_found:
  assumes "auth_inv db" "find (\<lambda>s. s_token_hash s = hashToken raw) (b_sessions db) = Some x" "raw \<noteq> ''''"
    and "Authenticate raw now db = ((res, bumped), db')"
  shows "res = (if now < s_expires_at x then user_by_id db (s_owner x) else None)"
    "bumped \<longleftrightarrow> now < s_expires_at x \<and> shouldBump (s_expires_at x) now"
    "b_users db' = b_users db" "b_tokens db' = b_tokens db"
    "y \<in> set (b_sessions db') \<longleftrightarrow> y \<in> set (b_sessions db) \<and> y \<noteq> x \<or>
      now < s_expires_at x \<and> y = (if bumped then x\<lparr>s_expires_at := now + sessionDuration\<rparr> else x)"
proof -
  show r: "res = (if now < s_expires_at x then user_by_id db (s_owner x) else None)"
    and b: "bumped \<longleftrightarrow> now < s_expires_at x \<and> shouldBump (s_expires_at x) now"
    and "b_users db' = b_users db" "b_tokens db' = b_tokens db"
    using assms(2-4) by (auto simp: Authenticate_def split: if_splits)
  note key = session_of_token [OF assms(1,2)]
  have "b_sessions db' =
      (if \<not> now < s_expires_at x then filter (\<lambda>y. s_id y \<noteq> s_id x) (b_sessions db)
       else if bumped then update_where (\<lambda>y. s_id y = s_id x) (\<lambda>y. y\<lparr>s_expires_at := now + sessionDuration\<rparr>) (b_sessions db)
       else b_sessions db)"
    using assms(2-4) by (auto simp: Authenticate_def split: if_splits)
  then show "y \<in> set (b_sessions db') \<longleftrightarrow> y \<in> set (b_sessions db) \<and> y \<noteq> x \<or>
      now < s_expires_at x \<and> y = (if bumped then x\<lparr>s_expires_at := now + sessionDuration\<rparr> else x)"
    using key(1,4) b by (auto simp: in_update_where)
qed

text \<open>C12: Session resolution.  A request is signed in exactly when its token is not empty and its
  hash is that of a session that has not expired, and then as the session's owner; the session's
  expiry moves to thirty days from now exactly when more than the threshold of its window has
  passed, an expired session is deleted, and no other session, user or token changes.\<close>

theorem authenticate_exact:
  assumes "auth_inv db" "Authenticate raw now db = ((res, bumped), db')"
  shows "(\<forall>u. res = Some u \<longleftrightarrow>
       raw \<noteq> '''' \<and> u \<in> set (b_users db) \<and>
       (\<exists>x \<in> set (b_sessions db). s_token_hash x = hashToken raw \<and> now < s_expires_at x \<and> s_owner x = u_id u)) \<and>
    (bumped \<longleftrightarrow> raw \<noteq> '''' \<and> (\<exists>x \<in> set (b_sessions db). s_token_hash x = hashToken raw \<and>
       now < s_expires_at x \<and> time_sub (s_expires_at x) now < sessionDuration - bumpThreshold)) \<and>
    (\<forall>y. y \<in> set (b_sessions db') \<longleftrightarrow>
       (\<exists>x \<in> set (b_sessions db).
          if raw = '''' \<or> s_token_hash x \<noteq> hashToken raw then y = x
          else now < s_expires_at x \<and>
               y = (if bumped then x\<lparr>s_expires_at := now + sessionDuration\<rparr> else x))) \<and>
    b_users db' = b_users db \<and> b_tokens db' = b_tokens db \<and> auth_inv db'"
proof (cases "raw = '''' \<or> find (\<lambda>s. s_token_hash s = hashToken raw) (b_sessions db) = None")
  case True
  then have "res = None" "\<not> bumped" "db' = db" using assms(2) by (auto simp: Authenticate_def split: if_splits)
  with True assms(1) show ?thesis by (auto simp: find_None_iff)
next
  case False
  then obtain x where raw: "raw \<noteq> ''''" and x: "find (\<lambda>s. s_token_hash s = hashToken raw) (b_sessions db) = Some x" by blast
  note key = session_of_token [OF assms(1) x] and found = Authenticate_found [OF assms(1) x raw assms(2)]
  obtain o' where o': "user_by_id db (s_owner x) = Some o'" "\<And>v. v \<in> set (b_users db) \<and> s_owner x = u_id v \<longleftrightarrow> o' = v"
    using key(5) by metis
  have one: "(\<exists>y \<in> set (b_sessions db). s_token_hash y = hashToken raw \<and> P y) \<longleftrightarrow> P x" for P
    using key(1-3) by blast
  show ?thesis
  proof (intro conjI allI)
    fix u show "res = Some u \<longleftrightarrow> raw \<noteq> '''' \<and> u \<in> set (b_users db) \<and>
       (\<exists>x \<in> set (b_sessions db). s_token_hash x = hashToken raw \<and> now < s_expires_at x \<and> s_owner x = u_id u)"
      unfolding one found(1) using raw o' by auto
  next
    show "bumped \<longleftrightarrow> raw \<noteq> '''' \<and> (\<exists>x \<in> set (b_sessions db). s_token_hash x = hashToken raw \<and>
       now < s_expires_at x \<and> time_sub (s_expires_at x) now < sessionDuration - bumpThreshold)"
      unfolding one found(2) using raw by (simp add: shouldBump_def)
  next
    fix y show "y \<in> set (b_sessions db') \<longleftrightarrow> (\<exists>x \<in> set (b_sessions db).
          if raw = '''' \<or> s_token_hash x \<noteq> hashToken raw then y = x
          else now < s_expires_at x \<and> y = (if bumped then x\<lparr>s_expires_at := now + sessionDuration\<rparr> else x))"
      unfolding found(5) using raw key(1-3) by (auto split: if_splits)
  qed (use found(3,4) Authenticate_inv [OF assms(1), of raw now] assms(2) in simp_all)
qed

section \<open>Bearer tokens\<close>

lemma find_token:
  "auth_inv db \<Longrightarrow> t \<in> set (b_tokens db) \<Longrightarrow> t_token_hash t = h \<Longrightarrow>
     find (\<lambda>t. t_token_hash t = h) (b_tokens db) = Some t"
  using distinct_find [of t_token_hash "b_tokens db" t] by (auto simp: auth_inv_def)

lemma TouchApiToken_inv: "auth_inv db \<Longrightarrow> auth_inv (TouchApiToken i now db)"
  by (auto simp: TouchApiToken_def auth_inv_def map_update_where in_update_where)

lemma RevokeApiToken_inv: "auth_inv db \<Longrightarrow> auth_inv (RevokeApiToken i db)"
  by (auto simp: RevokeApiToken_def auth_inv_def distinct_map_filter)

lemma MintApiToken_inv: "auth_inv db \<Longrightarrow> auth_inv (snd (MintApiToken raw u n r sc e db))"
  using fresh_id_new [of "map t_id (b_tokens db)"]
  by (auto simp: MintApiToken_def auth_inv_def Let_def)

text \<open>The life of a bearer token.  A minted token authenticates, as its runner, its owner and with
  exactly its scope, until its expiry and not from it on; it authorizes a job precisely when its
  scope names the job's key, so an empty scope and an empty key authorize nothing; touching the
  token does not change that, and once revoked it authenticates nothing, while every other token
  is as before.\<close>

theorem bearer_lifecycle:
  assumes "auth_inv db" "raw \<noteq> ''''" "MintApiToken raw owner name runner scope expiry db = (Inr tok, db')"
  shows "auth_inv db' \<and>
    (\<forall>now. AuthenticateBearer raw now (TouchApiToken (t_id tok) seen db') = AuthenticateBearer raw now db') \<and>
    (\<forall>now. (case AuthenticateBearer raw now db' of
        Some b \<Rightarrow> (\<forall>e. expiry = Some e \<longrightarrow> now < e) \<and> br_runner b = runner \<and> u_id (br_user b) = owner \<and>
                  br_token_id b = t_id tok \<and> (\<forall>key. Allows b key \<longleftrightarrow> key \<noteq> '''' \<and> key \<in> set scope)
      | None \<Rightarrow> (\<exists>e. expiry = Some e \<and> e \<le> now))) \<and>
    (\<forall>now. AuthenticateBearer raw now (RevokeApiToken (t_id tok) db') = None) \<and>
    (\<forall>other now. hashToken other \<noteq> hashToken raw \<longrightarrow>
       AuthenticateBearer other now db' = AuthenticateBearer other now db \<and>
       AuthenticateBearer other now (RevokeApiToken (t_id tok) db') = AuthenticateBearer other now db)"
proof -
  have inv: "auth_inv db'" using MintApiToken_inv [OF assms(1), of raw owner name runner scope expiry] assms(3) by simp
  have tok: "t_token_hash tok = hashToken raw" "t_runner tok = runner" "t_scope tok = scope"
    "t_expires_at tok = expiry" "t_owner tok = owner" "t_id tok = fresh_id (map t_id (b_tokens db))"
    and d: "db' = db\<lparr>b_tokens := b_tokens db @ [tok]\<rparr>"
    and own: "\<exists>u \<in> set (b_users db). u_id u = owner" and fresh: "hashToken raw \<notin> t_token_hash ` set (b_tokens db)"
    using assms(3) by (auto simp: MintApiToken_def Let_def split: if_splits)
  have "owner \<in> u_id ` set (b_users db)" using own by (metis image_eqI)
  then obtain u where u1: "user_by_id db owner = Some u" using user_by_id_ex by blast
  note u = u1 conjunct2 [OF user_by_id_Some [OF u1]]
  have users: "user_by_id db' i = user_by_id db i" for i by (simp add: d user_by_id_def)
  have found: "find (\<lambda>t. t_token_hash t = hashToken raw) (b_tokens db') = Some tok"
    by (rule find_token [OF inv]) (simp_all add: d tok)
  have new: "t_id t \<noteq> t_id tok" if "t \<in> set (b_tokens db)" for t
    using fresh_id_new [of "map t_id (b_tokens db)"] that unfolding tok(6) by (metis image_eqI set_map)
  have auth: "AuthenticateBearer raw now db' =
      (if case expiry of Some e \<Rightarrow> \<not> now < e | None \<Rightarrow> False then None
       else Some \<lparr>br_user = u, br_runner = runner, br_token_id = t_id tok, br_scope = scope\<rparr>)" for now
    using assms(2) by (simp add: AuthenticateBearer_def found tok users u)
  have touch: "AuthenticateBearer raw now (TouchApiToken (t_id tok) seen db') = AuthenticateBearer raw now db'" for now
  proof -
    let ?t = "tok\<lparr>t_last_used_at := Some seen\<rparr>"
    have "find (\<lambda>t. t_token_hash t = hashToken raw) (b_tokens (TouchApiToken (t_id tok) seen db')) = Some ?t"
      by (rule find_token [OF TouchApiToken_inv [OF inv]])
        (auto simp: TouchApiToken_def in_update_where d tok)
    moreover have "user_by_id (TouchApiToken i now db') = user_by_id db'" for i now
      by (simp add: fun_eq_iff TouchApiToken_def user_by_id_def)
    ultimately show ?thesis using assms(2) by (simp add: AuthenticateBearer_def found tok users u)
  qed
  have rev: "b_tokens (RevokeApiToken (t_id tok) db') = b_tokens db"
    using new by (auto simp: RevokeApiToken_def d intro: filter_True)
  have revu: "user_by_id (RevokeApiToken i db') = user_by_id db" for i
    by (simp add: fun_eq_iff RevokeApiToken_def d user_by_id_def)
  have gone: "AuthenticateBearer raw now (RevokeApiToken (t_id tok) db') = None" for now
  proof -
    have "find (\<lambda>t. t_token_hash t = hashToken raw) (b_tokens db) = None"
      using fresh by (auto simp: find_None_iff image_iff)
    then show ?thesis using assms(2) by (simp add: AuthenticateBearer_def rev)
  qed
  have other: "AuthenticateBearer o' now db' = AuthenticateBearer o' now db \<and>
      AuthenticateBearer o' now (RevokeApiToken (t_id tok) db') = AuthenticateBearer o' now db"
    if "hashToken o' \<noteq> hashToken raw" for o' now
  proof -
    have "find (\<lambda>t. t_token_hash t = hashToken o') (b_tokens db @ [tok]) =
        find (\<lambda>t. t_token_hash t = hashToken o') (b_tokens db)"
      using that by (auto simp: find_append tok split: option.splits)
    then have f: "find (\<lambda>t. t_token_hash t = hashToken o') (b_tokens db') =
        find (\<lambda>t. t_token_hash t = hashToken o') (b_tokens db)"
      by (simp add: d)
    show ?thesis unfolding AuthenticateBearer_def f rev revu users by simp
  qed
  show ?thesis
    using inv touch gone other
    by (auto simp: auth Allows_def list_ex_iff u(2) not_less split: option.splits)
qed

section \<open>Requests\<close>

text \<open>A runner's token opens the work interface and nothing else.  Whatever a request carries, it
  holds at most one identity: a bearer identity only without a session cookie, and then the admin
  and friend gates refuse it, while the work gate lets a request through only on a bearer identity
  whose scope names the job.  The admin and friend gates accept exactly the owner of a live session
  with the role, as stored when the request arrived.\<close>

theorem request_gates:
  assumes "auth_inv db" "Middleware s now oper raw header db = ((ctx, cookies), db')"
  shows "(x_bearer ctx \<noteq> None \<longrightarrow> x_user ctx = None \<and> raw = '''') \<and>
    (\<forall>b key. requireBearer ctx key = Inr b \<longleftrightarrow>
       raw = '''' \<and> AuthenticateBearer (readBearer header) now db = Some b \<and> key \<noteq> '''' \<and> key \<in> set (br_scope b)) \<and>
    (\<forall>u. requireAdmin ctx = Inr u \<longleftrightarrow> fst (fst (Authenticate raw now db)) = Some u \<and> u_role u = Admin) \<and>
    (\<forall>u. requireFriend ctx = Inr u \<longleftrightarrow> fst (fst (Authenticate raw now db)) = Some u \<and> Friend \<le> u_role u) \<and>
    auth_inv db' \<and> b_users db' = b_users db"
proof -
  have fr: "Friend \<le> u_role u \<longleftrightarrow> u_role u = Admin \<or> u_role u = Friend" for u :: user
    by (cases "u_role u") (simp_all add: less_eq_role_def)
  have none: "fst (fst (Authenticate '''' now db)) = None" by (simp add: Authenticate_def)
  have users: "b_users (snd (Authenticate raw now db)) = b_users db"
    by (auto simp: Authenticate_def Let_def split: option.splits)
  have empty: "AuthenticateBearer '''' now db = None" by (simp add: AuthenticateBearer_def)
  show ?thesis
  proof (cases "raw = ''''")
    case True
    show ?thesis
    proof (cases "AuthenticateBearer (readBearer header) now db")
      case None
      then have "ctx = no_ctx" "db' = db"
        using assms(2) True by (auto simp: Middleware_def Let_def split: if_splits)
      with None True none assms(1) show ?thesis
        by (auto simp: no_ctx_def requireBearer_def requireAdmin_def requireFriend_def)
    next
      case (Some b)
      then have "readBearer header \<noteq> ''''" using empty by auto
      then have "ctx = no_ctx\<lparr>x_bearer := Some b\<rparr>" "db' = TouchApiToken (br_token_id b) now db"
        using assms(2) True Some by (auto simp: Middleware_def)
      with Some True none TouchApiToken_inv [OF assms(1)] show ?thesis
        by (auto simp: no_ctx_def requireBearer_def requireAdmin_def requireFriend_def Allows_def
            list_ex_iff TouchApiToken_def)
    qed
  next
    case False
    then have d: "db' = snd (Authenticate raw now db)"
      and c: "x_user ctx = fst (fst (Authenticate raw now db))" "x_bearer ctx = None"
      using assms(2) by (auto simp: Middleware_def Let_def no_ctx_def split: option.splits)
    have ad: "requireAdmin ctx = Inr u \<longleftrightarrow> fst (fst (Authenticate raw now db)) = Some u \<and> u_role u = Admin" for u
      by (auto simp: requireAdmin_def c split: option.splits)
    have fd: "requireFriend ctx = Inr u \<longleftrightarrow> fst (fst (Authenticate raw now db)) = Some u \<and> Friend \<le> u_role u" for u
      unfolding fr by (auto simp: requireFriend_def c split: option.splits)
    have bd: "requireBearer ctx key \<noteq> Inr b" for key b by (simp add: requireBearer_def c)
    show ?thesis
      using False users Authenticate_inv [OF assms(1), of raw now] by (simp add: d c ad fd bd)
  qed
qed

section \<open>The login round trip\<close>

text \<open>How a browser reads a \<open>Location\<close>: it drops tabs and line breaks, takes a backslash for a slash,
  and leaves the origin when two slashes come first or a scheme does.\<close>

definition browser_reads :: "string \<Rightarrow> string" where
  "browser_reads p = filter (\<lambda>c. (of_char c :: nat) \<notin> {9, 10, 13}) p"

definition is_slash :: "char \<Rightarrow> bool" where
  "is_slash c \<longleftrightarrow> c = CHR ''/'' \<or> c = CHR 0x5C"

definition same_origin_path :: "string \<Rightarrow> bool" where
  "same_origin_path p \<longleftrightarrow>
     (case browser_reads p of c # q \<Rightarrow> c = CHR ''/'' \<and> (case q of d # _ \<Rightarrow> \<not> is_slash d | [] \<Rightarrow> True)
      | [] \<Rightarrow> False)"

lemma safe_same_origin:
  assumes "safeInternalPath p"
  shows "same_origin_path p"
proof -
  obtain q where p: "p = CHR ''/'' # q" and slashes: "\<not> prefix ''//'' p" "\<not> prefix (''/'' @ [CHR 0x5C]) p"
    and ok: "url_rooted_ok p"
    using assms by (cases p) (auto simp: safeInternalPath_def split: if_splits)
  have r: "browser_reads p = CHR ''/'' # browser_reads q" by (simp add: p browser_reads_def)
  show ?thesis
  proof (cases q)
    case Nil
    then show ?thesis by (simp add: same_origin_path_def r) (simp add: browser_reads_def)
  next
    case (Cons d q')
    have d: "\<not> is_slash d" using slashes by (auto simp: p Cons is_slash_def)
    have "(of_char d :: nat) \<notin> {9, 10, 13}"
    proof (cases "d = CHR ''#''")
      case False
      then have "d \<in> set (takeWhile (\<lambda>c. c \<noteq> CHR ''#'') p)" by (simp add: p Cons)
      then have "\<not> is_ctl d" using ok by (auto simp: url_rooted_ok_def Let_def list_all_iff)
      then show ?thesis by (auto simp: is_ctl_def)
    qed simp
    then have "browser_reads q = d # browser_reads q'" by (simp add: browser_reads_def Cons)
    with d show ?thesis by (simp add: same_origin_path_def r)
  qed
qed

text \<open>The sign-in callback.  It signs nobody in unless the state of the query is the non-empty
  state of the cookie, a code was given, and the provider's token for that code has a subject and a
  verified email; then exactly one session is added, for the account of that subject, and the
  browser goes to the front end or to a path of this origin, whatever the return cookie holds.
  Every other outcome is an error that adds no session, and every answer of a configured service
  expires the single-use state cookie.\<close>

theorem callback_safe:
  assumes "auth_inv db" "CallbackHandler s exchange raw now rq db = ((resp, cookies), db')"
  shows "(v_configured s \<longrightarrow> ClearStateCookie s \<in> set cookies) \<and>
    (case resp of
       Redirect dest \<Rightarrow>
         (\<exists>st p c u. q_state_cookie rq = Some st \<and> st \<noteq> '''' \<and> st = q_state rq \<and> q_code rq \<noteq> '''' \<and>
            exchange (q_code rq) = IdToken p \<and> p_subject p \<noteq> '''' \<and>
            claimIsTrue (map_of (p_claims p) ''email_verified'') \<and>
            gc_sub c = p_subject p \<and> gc_email c \<noteq> '''' \<and> fst (upsertUser s c db) = Inr u \<and>
            b_users db' = b_users (snd (upsertUser s c db)) \<and> SessionCookie s raw \<in> set cookies \<and>
            (\<exists>x. b_sessions db' = b_sessions db @ [x] \<and> s_token_hash x = hashToken raw \<and>
                 s_owner x = u_id u \<and> s_expires_at x = now + sessionDuration)) \<and>
         (dest = v_frontend_url s \<or> same_origin_path dest)
     | HttpError code msg \<Rightarrow>
         b_sessions db' = b_sessions db \<and> code \<in> {400, 409, 500, 502, 503})"
proof -
  have sess: "b_sessions (snd (upsertUser s c db)) = b_sessions db" for c
    by (auto simp: upsertUser_def Let_def refresh_login_def first_login_def split: option.splits)
  show ?thesis
  proof (cases resp)
    case (HttpError code msg)
    with assms(2) sess show ?thesis
      by (auto simp: CallbackHandler_def createSession_def Let_def
          split: if_splits option.splits exchange_result.splits sum.splits auth_error.splits)
  next
    case (Redirect dest)
    then have conf: "v_configured s" using assms(2)
      by (cases "v_configured s") (simp_all add: CallbackHandler_def)
    obtain st where st: "q_state_cookie rq = Some st" "st \<noteq> ''''" "st = q_state rq"
      using assms(2) Redirect conf by (cases "q_state_cookie rq") (auto simp: CallbackHandler_def Let_def split: if_splits)
    have code: "q_code rq \<noteq> ''''" using assms(2) Redirect conf st by (auto simp: CallbackHandler_def)
    obtain p where p: "exchange (q_code rq) = IdToken p"
      using assms(2) Redirect conf st code by (cases "exchange (q_code rq)") (auto simp: CallbackHandler_def)
    obtain c where c: "parseClaims p = Some c"
      using assms(2) Redirect conf st code p by (cases "parseClaims p") (auto simp: CallbackHandler_def)
    obtain u where u: "fst (upsertUser s c db) = Inr u"
      using assms(2) Redirect conf st code p c
      by (cases "fst (upsertUser s c db)") (auto simp: CallbackHandler_def Let_def split: auth_error.splits)
    have new: "hashToken raw \<notin> s_token_hash ` set (b_sessions (snd (upsertUser s c db)))"
      using assms(2) Redirect conf st code p c u
      by (auto simp: CallbackHandler_def Let_def createSession_def split: if_splits)
    have d: "db' = snd (createSession raw now u (q_user_agent rq) (snd (upsertUser s c db)))"
      and ck: "ClearStateCookie s \<in> set cookies" "SessionCookie s raw \<in> set cookies"
      and dest: "dest = v_frontend_url s \<or> safeInternalPath dest"
      using assms(2) Redirect conf st code p c u new
      by (auto simp: CallbackHandler_def Let_def createSession_def split: if_splits)
    have cl: "p_subject p \<noteq> ''''" "claimIsTrue (map_of (p_claims p) ''email_verified'')"
      "gc_sub c = p_subject p" "gc_email c \<noteq> ''''"
      using c by (auto simp: parseClaims_def Let_def split: if_splits)
    have "\<exists>x. b_sessions db' = b_sessions db @ [x] \<and> s_token_hash x = hashToken raw \<and>
                 s_owner x = u_id u \<and> s_expires_at x = now + sessionDuration"
      "b_users db' = b_users (snd (upsertUser s c db))"
      using new by (simp_all add: d createSession_def sess)
    with st code p cl u ck dest safe_same_origin show ?thesis unfolding Redirect response.case by blast
  qed
qed

section \<open>Deleting an account\<close>

text \<open>Deleting an account removes the user with all its sessions and identities and nothing else,
  or changes nothing.  It fails exactly when there is no such user or when a row of another table
  that needs its owner still refers to it: an account that owns a runner token cannot be deleted.\<close>

theorem delete_user:
  assumes "auth_inv db" "DeleteUser i db = (res, db')"
  shows "auth_inv db' \<and>
    (case res of
       Inr _ \<Rightarrow> i \<in> u_id ` set (b_users db) \<and>
         set (b_users db') = {u \<in> set (b_users db). u_id u \<noteq> i} \<and>
         set (b_sessions db') = {s \<in> set (b_sessions db). s_owner s \<noteq> i} \<and>
         set (b_identities db') = {d \<in> set (b_identities db). i_owner d \<noteq> i} \<and>
         b_tokens db' = b_tokens db \<and> b_grants db' = b_grants db
     | Inl e \<Rightarrow> db' = db \<and>
         (if i \<in> u_id ` set (b_users db)
          then e = ForeignKey \<and> (i \<in> t_owner ` set (b_tokens db) \<or> i \<in> set (b_dependents db))
          else e = NotFound))"
proof -
  have del: "DeleteUser i db =
      (if i \<notin> u_id ` set (b_users db) then (Inl NotFound, db)
       else if i \<in> t_owner ` set (b_tokens db) \<or> i \<in> set (b_dependents db) then (Inl ForeignKey, db)
       else (Inr (), db\<lparr>b_sessions := filter (\<lambda>s. s_owner s \<noteq> i) (b_sessions db),
                        b_identities := filter (\<lambda>x. i_owner x \<noteq> i) (b_identities db),
                        b_users := filter (\<lambda>u. u_id u \<noteq> i) (b_users db)\<rparr>))"
    by (simp only: DeleteUser_def ex_image_iff)
  consider "i \<notin> u_id ` set (b_users db)" | "i \<in> u_id ` set (b_users db)" "i \<in> t_owner ` set (b_tokens db) \<or> i \<in> set (b_dependents db)"
    | "i \<in> u_id ` set (b_users db)" "i \<notin> t_owner ` set (b_tokens db)" "i \<notin> set (b_dependents db)"
    by blast
  then show ?thesis
  proof cases
    case 1
    then have "res = Inl NotFound" "db' = db" using assms(2) by (simp_all add: del)
    with 1 assms(1) show ?thesis by simp
  next
    case 2
    then have "res = Inl ForeignKey" "db' = db" using assms(2) by (simp_all add: del)
    with 2 assms(1) show ?thesis by simp
  next
    case 3
    then have r: "res = Inr ()" and d: "db' = db\<lparr>b_sessions := filter (\<lambda>s. s_owner s \<noteq> i) (b_sessions db),
        b_identities := filter (\<lambda>x. i_owner x \<noteq> i) (b_identities db),
        b_users := filter (\<lambda>u. u_id u \<noteq> i) (b_users db)\<rparr>"
      using assms(2) by (simp_all add: del)
    have ids: "u_id ` {u \<in> set (b_users db). u_id u \<noteq> i} = u_id ` set (b_users db) - {i}" by auto
    have "\<forall>t \<in> set (b_tokens db). t_owner t \<noteq> i" using 3(2) by auto
    then have "auth_inv db'"
      using assms(1) unfolding auth_inv_def d by (simp add: distinct_map_filter ids)
    with 3 show ?thesis by (simp add: r d)
  qed
qed

section \<open>Concrete runs\<close>

definition ex_user :: "nat \<Rightarrow> string \<Rightarrow> role \<Rightarrow> user" where
  "ex_user i email r = \<lparr>u_id = i, u_email = email, u_name = '''', u_avatar = '''', u_country = ''61'',
     u_role = r, u_nickname = None, u_greeted = None\<rparr>"

definition ex_token :: api_token where
  "ex_token = \<lparr>t_id = 4, t_token_hash = hashToken ''runner-secret'', t_name = ''laptop'', t_runner = ''laptop'',
     t_scope = [''digest.llm''], t_last_used_at = None, t_expires_at = None, t_owner = 1\<rparr>"

definition ex_session :: session where
  "ex_session = \<lparr>s_id = 9, s_token_hash = hashToken ''cookie'', s_user_agent = ''ua'',
     s_expires_at = 100 * day_ns, s_owner = 1\<rparr>"

definition ex_auth :: auth_db where
  "ex_auth = \<lparr>b_users = [ex_user 1 ''a@x.org'' Admin, ex_user 2 ''b@x.org'' Member],
     b_identities = [\<lparr>i_id = 1, i_provider = ''google'', i_sub = ''sub-1'', i_email = ''a@x.org'', i_owner = 1\<rparr>],
     b_sessions = [ex_session], b_tokens = [ex_token],
     b_grants = [\<lparr>g_email = ''c@x.org'', g_tier = TierFriend\<rparr>], b_dependents = []\<rparr>"

definition ex_service :: service where
  "ex_service = New \<lparr>c_client_id = ''id'', c_client_secret = ''s'', c_admin_emails = ['' A@x.org''],
     c_friend_emails = [], c_cookie_domain = '''', c_cookie_secure = True, c_frontend_url = ''https://x.org''\<rparr>"

definition ex_claims :: "string \<Rightarrow> string \<Rightarrow> google_claims" where
  "ex_claims sub email = \<lparr>gc_sub = sub, gc_email = email, gc_name = ''N'', gc_picture = ''''\<rparr>"

lemmas ex_auth_defs = ex_auth_def ex_user_def ex_token_def ex_session_def ex_claims_def providerGoogle_def

lemma ex_auth_inv: "auth_inv ex_auth"
  by (simp add: auth_inv_def ex_auth_defs)

lemma ex_roles:
  "roleFor ex_service ex_auth ''b@x.org'' = Member" "roleFor ex_service ex_auth ''C@x.org'' = Friend"
  "roleFor ex_service ex_auth ''a@x.org'' = Admin"
proof -
  have n: "normalizeEmail ''b@x.org'' = ''b@x.org''" "normalizeEmail ''C@x.org'' = ''c@x.org''"
    "normalizeEmail ''a@x.org'' = ''a@x.org''" "normalizeEmail '' A@x.org'' = ''a@x.org''"
    by code_simp+
  show "roleFor ex_service ex_auth ''b@x.org'' = Member" "roleFor ex_service ex_auth ''C@x.org'' = Friend"
    "roleFor ex_service ex_auth ''a@x.org'' = Admin"
    by (simp_all add: roleFor_def n envTier_def dbGrantTier_def ex_service_def New_def email_set_def ex_auth_def
        maxRole_def Let_def)
qed

text \<open>The owner of \<open>sub-1\<close> arrives with an address that belongs to user 2, and keeps its own.\<close>

lemma ex_sign_in:
  "fst (upsertUser ex_service (ex_claims ''sub-1'' ''b@x.org'') ex_auth) =
     Inr ((ex_user 1 ''a@x.org'' Member)\<lparr>u_name := ''N''\<rparr>)"
  using ex_roles(1)
  by (simp add: upsertUser_def is_login_def refresh_login_def refreshed_def user_by_id_def ex_auth_defs
      Let_def)

theorem sign_in_witness:
  "u_role (ex_user 1 ''a@x.org'' Member) = roleFor ex_service ex_auth ''b@x.org'' \<and>
   map u_id (b_users (snd (upsertUser ex_service (ex_claims ''sub-1'' ''b@x.org'') ex_auth))) = [1, 2]"
proof -
  have known: "\<exists>i \<in> set (b_identities ex_auth). is_login (ex_claims ''sub-1'' ''b@x.org'') i"
    by (simp add: is_login_def ex_auth_defs)
  have "upsertUser ex_service (ex_claims ''sub-1'' ''b@x.org'') ex_auth =
      (Inr ((ex_user 1 ''a@x.org'' Member)\<lparr>u_name := ''N''\<rparr>),
       snd (upsertUser ex_service (ex_claims ''sub-1'' ''b@x.org'') ex_auth))"
    unfolding ex_sign_in [symmetric] by simp
  from sign_in [OF ex_auth_inv this] known show ?thesis
    by (simp add: ex_auth_defs)
qed

theorem authenticate_exact_witness:
  "fst (fst (Authenticate ''cookie'' (80 * day_ns) ex_auth)) = Some (ex_user 1 ''a@x.org'' Admin) \<and>
   snd (fst (Authenticate ''cookie'' (80 * day_ns) ex_auth)) \<and>
   fst (fst (Authenticate ''cookie'' (100 * day_ns) ex_auth)) = None"
proof -
  have a: "Authenticate raw now ex_auth =
      ((fst (fst (Authenticate raw now ex_auth)), snd (fst (Authenticate raw now ex_auth))),
       snd (Authenticate raw now ex_auth))" for raw now
    by simp
  have s: "b_sessions ex_auth = [ex_session]" "ex_user 1 ''a@x.org'' Admin \<in> set (b_users ex_auth)"
    by (simp_all add: ex_auth_def)
  have u: "s_owner ex_session = u_id (ex_user 1 ''a@x.org'' Admin)" by (simp add: ex_auth_defs)
  have t: "s_token_hash ex_session = hashToken ''cookie''" "s_expires_at ex_session = 100 * day_ns"
    by (simp_all add: ex_session_def)
  have d: "(80::int) * day_ns < 100 * day_ns"
    "time_sub (100 * day_ns) (80 * day_ns) < sessionDuration - bumpThreshold"
    by (simp_all add: day_ns_val) (simp add: time_sub_def max_duration_def min_duration_def sessionDuration_def
        bumpThreshold_def hour_ns_def second_ns_def)
  note e = authenticate_exact [OF ex_auth_inv a]
  have "fst (fst (Authenticate ''cookie'' (80 * day_ns) ex_auth)) = Some (ex_user 1 ''a@x.org'' Admin)"
    using conjunct1 [OF e, rule_format, of "''cookie''" "80 * day_ns" "ex_user 1 ''a@x.org'' Admin"] s u t d(1) by simp
  moreover have "snd (fst (Authenticate ''cookie'' (80 * day_ns) ex_auth))"
    using conjunct1 [OF conjunct2 [OF e], of "''cookie''" "80 * day_ns"] s(1) t d by simp
  moreover have "fst (fst (Authenticate ''cookie'' (100 * day_ns) ex_auth)) \<noteq> Some u" for u
    using conjunct1 [OF e, rule_format, of "''cookie''" "100 * day_ns" u] s(1) t by simp
  ultimately show ?thesis by auto
qed

definition ex_minted :: api_token where
  "ex_minted = \<lparr>t_id = 1, t_token_hash = hashToken ''second-secret'', t_name = ''home'', t_runner = ''home-finance'',
     t_scope = [''finance.sync''], t_last_used_at = None, t_expires_at = Some (50 * day_ns), t_owner = 2\<rparr>"

theorem bearer_lifecycle_witness:
  "(case AuthenticateBearer ''second-secret'' (49 * day_ns) (ex_auth\<lparr>b_tokens := [ex_minted]\<rparr>) of
      Some b \<Rightarrow> Allows b ''finance.sync'' \<and> \<not> Allows b ''digest.llm''
    | None \<Rightarrow> False)"
proof -
  have inv: "auth_inv (ex_auth\<lparr>b_tokens := []\<rparr>)" by (simp add: auth_inv_def ex_auth_defs)
  have "MintApiToken ''second-secret'' 2 ''home'' ''home-finance'' [''finance.sync''] (Some (50 * day_ns))
        (ex_auth\<lparr>b_tokens := []\<rparr>) = (Inr ex_minted, ex_auth\<lparr>b_tokens := [ex_minted]\<rparr>)"
    by (simp add: MintApiToken_def ex_auth_defs ex_minted_def fresh_id_def Let_def)
  note b = bearer_lifecycle [OF inv _ this, of 0]
  have "''second-secret'' \<noteq> ''''" by simp
  from spec [OF conjunct1 [OF conjunct2 [OF conjunct2 [OF b [OF this]]]], of "49 * day_ns"] show ?thesis
    by (cases "AuthenticateBearer ''second-secret'' (49 * day_ns) (ex_auth\<lparr>b_tokens := [ex_minted]\<rparr>)")
      simp_all
qed

theorem request_gates_witness:
  "requireAdmin (fst (fst (Middleware ex_service 0 None ''cookie'' ''Bearer runner-secret'' ex_auth))) =
     Inr (ex_user 1 ''a@x.org'' Admin) \<and>
   (\<exists>b. requireBearer (fst (fst (Middleware ex_service 0 None '''' ''Bearer runner-secret'' ex_auth))) ''digest.llm'' = Inr b)"
proof -
  have m: "Middleware ex_service 0 None raw h ex_auth =
      ((fst (fst (Middleware ex_service 0 None raw h ex_auth)), snd (fst (Middleware ex_service 0 None raw h ex_auth))),
       snd (Middleware ex_service 0 None raw h ex_auth))" for raw h
    by simp
  note g = request_gates [OF ex_auth_inv m]
  have a: "fst (fst (Authenticate ''cookie'' 0 ex_auth)) = Some (ex_user 1 ''a@x.org'' Admin)"
    by (simp add: Authenticate_def ex_auth_defs user_by_id_def day_ns_val shouldBump_def time_sub_def
        max_duration_def min_duration_def sessionDuration_def bumpThreshold_def hour_ns_def second_ns_def)
  have h: "readBearer ''Bearer runner-secret'' = ''runner-secret''" by code_simp
  let ?b = "\<lparr>br_user = ex_user 1 ''a@x.org'' Admin, br_runner = ''laptop'', br_token_id = 4, br_scope = [''digest.llm'']\<rparr>"
  have b: "AuthenticateBearer ''runner-secret'' 0 ex_auth = Some ?b"
    by (simp add: AuthenticateBearer_def ex_auth_defs user_by_id_def)
  have "requireAdmin (fst (fst (Middleware ex_service 0 None ''cookie'' ''Bearer runner-secret'' ex_auth))) =
     Inr (ex_user 1 ''a@x.org'' Admin)"
    using g [of "''cookie''" "''Bearer runner-secret''"] a by (simp add: ex_user_def)
  moreover have "requireBearer (fst (fst (Middleware ex_service 0 None '''' ''Bearer runner-secret'' ex_auth))) ''digest.llm'' = Inr ?b"
    using g [of "''''" "''Bearer runner-secret''"] b by (simp add: h)
  ultimately show ?thesis by blast
qed

definition ex_rq :: callback_request where
  "ex_rq = \<lparr>q_state_cookie = Some ''st'', q_return_to_cookie = Some ''//evil.example'', q_state = ''st'',
     q_code = ''code'', q_user_agent = ''ua''\<rparr>"

definition ex_exchange :: "string \<Rightarrow> exchange_result" where
  "ex_exchange code = (if code = ''code'' then IdToken \<lparr>p_subject = ''sub-1'',
     p_claims = [(''email'', ClaimString ''b@x.org''), (''email_verified'', ClaimBool True), (''name'', ClaimString ''N'')]\<rparr>
     else CodeRejected)"

theorem callback_safe_witness:
  "\<exists>cookies db'. CallbackHandler ex_service ex_exchange ''fresh'' 0 ex_rq (ex_auth\<lparr>b_sessions := []\<rparr>) =
      ((Redirect ''https://x.org'', cookies), db') \<and> SessionCookie ex_service ''fresh'' \<in> set cookies"
proof -
  let ?db = "ex_auth\<lparr>b_sessions := []\<rparr>"
  have inv: "auth_inv ?db" by (simp add: auth_inv_def ex_auth_defs)
  have c: "parseClaims \<lparr>p_subject = ''sub-1'', p_claims = [(''email'', ClaimString ''b@x.org''),
      (''email_verified'', ClaimBool True), (''name'', ClaimString ''N'')]\<rparr> = Some (ex_claims ''sub-1'' ''b@x.org'')"
    by (simp add: parseClaims_def ex_claims_def)
  have role: "roleFor ex_service ?db e = roleFor ex_service ex_auth e" for e
    by (simp add: roleFor_def dbGrantTier_def Let_def)
  have u: "\<exists>u. fst (upsertUser ex_service (ex_claims ''sub-1'' ''b@x.org'') ?db) = Inr u"
    and s: "b_sessions (snd (upsertUser ex_service (ex_claims ''sub-1'' ''b@x.org'') ?db)) = []"
    by (simp_all add: upsertUser_def is_login_def refresh_login_def refreshed_def user_by_id_def ex_auth_defs Let_def)
  have v: "v_configured ex_service" "v_frontend_url ex_service = ''https://x.org''"
    by (simp_all add: ex_service_def New_def)
  have p: "\<not> safeInternalPath ''//evil.example''" by code_simp
  obtain cookies db' where r: "CallbackHandler ex_service ex_exchange ''fresh'' 0 ex_rq ?db =
      ((Redirect ''https://x.org'', cookies), db')"
    using u by (auto simp: CallbackHandler_def ex_rq_def ex_exchange_def c s v p createSession_def Let_def)
  with callback_safe [OF inv r] show ?thesis by auto
qed

text \<open>The admin of the example owns a runner token, so the deletion fails; user 2 can go.\<close>

theorem delete_user_witness:
  "fst (DeleteUser 1 ex_auth) = Inl ForeignKey \<and> fst (DeleteUser 2 ex_auth) = Inr () \<and>
   auth_inv (snd (DeleteUser 2 ex_auth))"
proof -
  have d: "DeleteUser i ex_auth = (fst (DeleteUser i ex_auth), snd (DeleteUser i ex_auth))" for i by simp
  have "fst (DeleteUser 1 ex_auth) = Inl ForeignKey" "fst (DeleteUser 2 ex_auth) = Inr ()"
    by (simp_all add: DeleteUser_def ex_auth_defs)
  with delete_user [OF ex_auth_inv d, of 2] show ?thesis by blast
qed

end
