(* ===== verification/FinanceSync.thy ===== *)
theory FinanceSync
  imports Jobs Auth Ledger "HOL-Library.Product_Lexorder" "HOL-Library.Multiset"
begin

text \<open>
  The finance sync seam, \<open>internal/api/finance_sync.go\<close>: a runner claims an approved run and gets the
  windows to fetch, the approval itself, and the report that closes the run.

  A handler takes the request's context (theory \<open>Auth\<close>), its input and the clock, and returns an HTTP
  error or its output with the tables it leaves.  The claim's rows are ordered by byte-wise account
  name.  A claim runs in one transaction, so a claimer that loses the race sees the run already
  leased: the sequence of claims is the model of concurrent ones.
\<close>

section \<open>Exclusive leases\<close>

text \<open>The claim of a row is a conditional update, \<open>UPDATE ... SET ... WHERE free\<close>.  The one law:
  a row that was taken is not free.\<close>

locale exclusive_lease =
  fixes free :: "'r \<Rightarrow> bool" and grab :: "'r \<Rightarrow> 'r"
  assumes used_up: "free r \<Longrightarrow> \<not> free (grab r)"
begin

lemma not_free: "r \<in> set (update_where free grab rs) \<Longrightarrow> \<not> free r"
proof -
  assume "r \<in> set (update_where free grab rs)"
  then obtain r0 where "r = (if free r0 then grab r0 else r0)" by (auto simp: in_update_where)
  then show "\<not> free r" by (cases "free r0") (simp_all add: used_up)
qed

lemma none_left: "count_where free (update_where free grab rs) = 0"
  unfolding count_where_0 by (blast dest: not_free)

lemma second_claim: "update_where free grab (update_where free grab rs) = update_where free grab rs"
  by (rule update_where_none) (rule not_free)

lemma taken_count: "count_where free rs = 0 \<longleftrightarrow> update_where free grab rs = rs"
proof
  assume "update_where free grab rs = rs"
  then have "\<not> free r" if "r \<in> set rs" for r
    using none_left [of rs] that by (simp add: count_where_0)
  then show "count_where free rs = 0" by (simp add: count_where_0)
qed (auto simp: count_where_0 intro: update_where_none)

lemma others_kept: "r \<in> set rs \<Longrightarrow> \<not> free r \<Longrightarrow> r \<in> set (update_where free grab rs)"
  by (auto simp: in_update_where)

end

section \<open>The handlers\<close>

record sync_env =
  y_database :: bool
  y_backfill_years :: int
  y_overlap_days :: int
  y_ack_token :: string
  y_notifier :: bool

definition financeScope :: string where "financeScope = ''finance.sync''"
definition defaultFinanceSource :: string where "defaultFinanceSource = ''commbank''"

record window_dto =
  w_account :: string
  w_from :: string
  w_to :: string
  w_backfill :: bool

record claim_output =
  co_claimed :: bool
  co_run_id :: nat
  co_windows :: "window_dto list"

definition no_claim :: claim_output where
  "no_claim = \<lparr>co_claimed = False, co_run_id = 0, co_windows = []\<rparr>"

definition claimable_run :: "jobs_db \<Rightarrow> job_run \<Rightarrow> bool" where
  "claimable_run db r \<longleftrightarrow>
     has_job db (\<lambda>j. j_key j = financeScope) (r_job r) \<and> r_status r = AwaitingAck \<and> r_claimable_at r \<noteq> None"

definition lease_run :: "instant \<Rightarrow> string \<Rightarrow> job_run \<Rightarrow> job_run" where
  "lease_run now runner r = r\<lparr>r_status := Running, r_started_at := Some now, r_runner := runner\<rparr>"

definition jobDisplayName :: "sched_job option \<Rightarrow> string" where
  "jobDisplayName job =
     (case job of None \<Rightarrow> ''Finance sync'' | Some j \<Rightarrow> if j_name j = '''' then ''Finance sync'' else j_name j)"

definition notifyRunStarted ::
  "sync_env \<Rightarrow> nat \<Rightarrow> sched_job option \<Rightarrow> string \<Rightarrow> jobs_db \<Rightarrow> jobs_db" where
  "notifyRunStarted e runID job runner db =
     (if \<not> y_notifier e then db
      else db\<lparr>d_notes := d_notes db @ [NotifyRunStarted runID (jobDisplayName job) runner]\<rparr>)"

definition notifyRunFinished ::
  "sync_env \<Rightarrow> nat \<Rightarrow> sched_job option \<Rightarrow> string \<Rightarrow> string \<Rightarrow> jobs_db \<Rightarrow> jobs_db" where
  "notifyRunFinished e runID job status detail db =
     (if \<not> y_notifier e then db
      else db\<lparr>d_notes := d_notes db @ [NotifyRunFinished runID (jobDisplayName job) status detail]\<rparr>)"

definition sync_windows :: "sync_env \<Rightarrow> string \<Rightarrow> instant \<Rightarrow> account list \<Rightarrow> window_dto list" where
  "sync_windows e source now accts =
     (let today = at_day (day_of now);
          years = (if y_backfill_years e \<le> 0 then 8 else y_backfill_years e);
          earliest = add_date today (- years) 0 0
      in map (\<lambda>a. let w = ComputeWindow (acc_watermark a) earliest today (y_overlap_days e)
                  in \<lparr>w_account = acc_name a, w_from = format_date (win_from w),
                      w_to = format_date (win_to w), w_backfill = win_backfill w\<rparr>)
           (sort_key acc_name (filter (\<lambda>a. acc_source a = source) accts)))"

definition claimFinanceSync ::
  "sync_env \<Rightarrow> request_ctx \<Rightarrow> string \<Rightarrow> instant \<Rightarrow> account list \<Rightarrow> jobs_db
     \<Rightarrow> (http_error + claim_output) \<times> jobs_db" where
  "claimFinanceSync e ctx src now accts db =
     (case requireBearer ctx financeScope of Inl err \<Rightarrow> (Inl err, db)
      | Inr b \<Rightarrow>
         if \<not> y_database e then (Inl (Http 503 ''finance sync is not available''), db)
         else
          (let source = (if trim_space src = '''' then defaultFinanceSource else trim_space src)
           in case first_by (\<lambda>r. (the (r_claimable_at r), r_id r)) (filter (claimable_run db) (d_runs db)) of
                None \<Rightarrow> (Inr no_claim, db)
              | Some run \<Rightarrow>
                 (let p = (\<lambda>r. r_id r = r_id run \<and> r_status r = AwaitingAck)
                  in if count_where p (d_runs db) = 0 then (Inr no_claim, db)
                     else (Inr \<lparr>co_claimed = True, co_run_id = r_id run,
                                co_windows = sync_windows e source now accts\<rparr>,
                           notifyRunStarted e (r_id run) (job_of db (r_job run)) (br_runner b)
                             (db\<lparr>d_runs := update_where p (lease_run now (br_runner b)) (d_runs db)\<rparr>)))))"

text \<open>The approval is gated by the shared token alone; its constant-time comparison is equality.\<close>

definition ackFinanceSync ::
  "sync_env \<Rightarrow> nat \<Rightarrow> string \<Rightarrow> instant \<Rightarrow> jobs_db \<Rightarrow> (http_error + bool) \<times> jobs_db" where
  "ackFinanceSync e runID token now db =
     (if y_ack_token e = '''' then (Inl (Http 401 ''ack endpoint is not configured''), db)
      else if token \<noteq> y_ack_token e then (Inl (Http 401 ''invalid ack token''), db)
      else if \<not> y_database e then (Inl (Http 503 ''finance sync is not available''), db)
      else (case find (\<lambda>r. r_id r = runID) (d_runs db) of
              None \<Rightarrow> (Inl (Http 404 ''run not found''), db)
            | Some run \<Rightarrow>
                if \<not> has_job db (\<lambda>j. j_key j = financeScope) (r_job run)
                then (Inl (Http 404 ''run not found''), db)
                else if r_status run = AwaitingAck
                then (Inr True, db\<lparr>d_runs := update_where (\<lambda>r. r_id r = r_id run)
                                  (\<lambda>r. r\<lparr>r_claimable_at := Some now\<rparr>) (d_runs db)\<rparr>)
                else (Inr True, db)))"

text \<open>\<open>truncateRunes\<close> counts runes: the prefix of \<open>s\<close> before its (n+1)-th rune, and an ellipsis.\<close>

fun take_runes :: "nat \<Rightarrow> string \<Rightarrow> string" where
  "take_runes n [] = []"
| "take_runes n (c # s) =
     (if rune_start c then (case n of 0 \<Rightarrow> [] | Suc k \<Rightarrow> c # take_runes k s) else c # take_runes n s)"

definition ellipsis :: string where "ellipsis = [CHR 0xE2, CHR 0x80, CHR 0xA6]"

definition truncateRunes :: "string \<Rightarrow> nat \<Rightarrow> string" where
  "truncateRunes s n = (if rune_count s \<le> n then s else take_runes n s @ ellipsis)"

definition notifyDetailMaxRunes :: nat where "notifyDetailMaxRunes = 300"

definition finish_run :: "run_status \<Rightarrow> string \<Rightarrow> string \<Rightarrow> instant \<Rightarrow> job_run \<Rightarrow> job_run" where
  "finish_run target runner reason now r =
     (let r1 = r\<lparr>r_status := target, r_finished_at := Some now, r_runner := runner\<rparr>
      in if reason \<noteq> '''' then r1\<lparr>r_error := reason\<rparr> else r1)"

definition completeFinanceSync ::
  "sync_env \<Rightarrow> request_ctx \<Rightarrow> nat \<Rightarrow> string \<Rightarrow> string \<Rightarrow> instant \<Rightarrow> jobs_db
     \<Rightarrow> (http_error + bool) \<times> jobs_db" where
  "completeFinanceSync e ctx runID status err now db =
     (case requireBearer ctx financeScope of Inl x \<Rightarrow> (Inl x, db)
      | Inr b \<Rightarrow>
         if \<not> y_database e then (Inl (Http 503 ''finance sync is not available''), db)
         else if runID = 0 then (Inl (Http 422 ''run_id is required''), db)
         else if status \<noteq> ''succeeded'' \<and> status \<noteq> ''failed''
         then (Inl (Http 422 ''status must be succeeded or failed''), db)
         else
          (let target = (if status = ''succeeded'' then Succeeded else Failed)
           in case find (\<lambda>r. r_id r = runID) (d_runs db) of
                None \<Rightarrow> (Inl (Http 404 ''run not found''), db)
              | Some run \<Rightarrow>
                  if \<not> has_job db (\<lambda>j. j_key j = financeScope) (r_job run)
                  then (Inl (Http 403 ''run does not belong to the finance sync job''), db)
                  else if r_status run \<noteq> Running
                  then (if r_status run = target then (Inr True, db)
                        else (Inl (Http 409 ''run is not in a completable state (only a claimed, running run can be completed)''), db))
                  else
                   (let reason = (if target = Failed then trim_space err else '''')
                    in (Inr True,
                        notifyRunFinished e (r_id run) (job_of db (r_job run)) (status_name target)
                          (truncateRunes reason notifyDetailMaxRunes)
                          (db\<lparr>d_runs := update_where (\<lambda>r. r_id r = r_id run)
                                (finish_run target (br_runner b) reason now) (d_runs db)\<rparr>)))))"

section \<open>The claim\<close>

text \<open>The lease of one run, as the claim takes it.\<close>

interpretation run_lease: exclusive_lease "\<lambda>r. r_id r = i \<and> r_status r = AwaitingAck" "lease_run now runner"
  for i now runner
  by unfold_locales (simp add: lease_run_def)

lemma lease_run_simps [simp]:
  "r_id (lease_run now b r) = r_id r" "r_job (lease_run now b r) = r_job r"
  "r_status (lease_run now b r) = Running" "run_key (lease_run now b r) = run_key r"
  "r_claimable_at (lease_run now b r) = r_claimable_at r" "r_started_at (lease_run now b r) = Some now"
  by (simp_all add: lease_run_def run_key_def)

lemma notify_sync_fields [simp]:
  "d_runs (notifyRunStarted e i j b db) = d_runs db" "d_jobs (notifyRunStarted e i j b db) = d_jobs db"
  "d_artifacts (notifyRunStarted e i j b db) = d_artifacts db" "d_queue (notifyRunStarted e i j b db) = d_queue db"
  "d_runs (notifyRunFinished e i j s b db) = d_runs db" "d_jobs (notifyRunFinished e i j s b db) = d_jobs db"
  "d_artifacts (notifyRunFinished e i j s b db) = d_artifacts db" "d_queue (notifyRunFinished e i j s b db) = d_queue db"
  by (simp_all add: notifyRunStarted_def notifyRunFinished_def)

lemma claim_cases:
  assumes "claimFinanceSync e ctx src now accts db = (res, db')"
  obtains err where "res = Inl err" "db' = db"
  | "res = Inr no_claim" "db' = db" "\<not> (\<exists>r \<in> set (d_runs db). claimable_run db r)"
  | r b where "r \<in> set (d_runs db)" "claimable_run db r" "requireBearer ctx financeScope = Inr b"
    "\<forall>x \<in> set (d_runs db). claimable_run db x \<longrightarrow>
       (the (r_claimable_at r), r_id r) \<le> (the (r_claimable_at x), r_id x)"
    "res = Inr \<lparr>co_claimed = True, co_run_id = r_id r,
       co_windows = sync_windows e (if trim_space src = '''' then defaultFinanceSource else trim_space src) now accts\<rparr>"
    "d_runs db' = update_where (\<lambda>x. r_id x = r_id r \<and> r_status x = AwaitingAck) (lease_run now (br_runner b)) (d_runs db)"
    "d_jobs db' = d_jobs db" "d_artifacts db' = d_artifacts db" "d_queue db' = d_queue db"
proof (cases "requireBearer ctx financeScope")
  case (Inl err)
  then show ?thesis using assms that(1) by (auto simp: claimFinanceSync_def)
next
  case (Inr b)
  show ?thesis
  proof (cases "y_database e")
    case False
    then show ?thesis using assms that(1) Inr by (auto simp: claimFinanceSync_def)
  next
    case db: True
    let ?q = "first_by (\<lambda>r. (the (r_claimable_at r), r_id r)) (filter (claimable_run db) (d_runs db))"
    show ?thesis
    proof (cases ?q)
      case None
      then show ?thesis using assms that(2) Inr db by (auto simp: claimFinanceSync_def Let_def filter_empty_conv)
    next
      case (Some r)
      have r: "r \<in> set (d_runs db)" "claimable_run db r"
        "\<forall>x \<in> set (d_runs db). claimable_run db x \<longrightarrow>
          (the (r_claimable_at r), r_id r) \<le> (the (r_claimable_at x), r_id x)"
        using first_by_Some [OF Some] by auto
      then have n: "count_where (\<lambda>x. r_id x = r_id r \<and> r_status x = AwaitingAck) (d_runs db) \<noteq> 0"
        by (auto simp: count_where_0 claimable_run_def)
      have res: "res = Inr \<lparr>co_claimed = True, co_run_id = r_id r,
         co_windows = sync_windows e (if trim_space src = '''' then defaultFinanceSource else trim_space src) now accts\<rparr>"
        and d: "db' = notifyRunStarted e (r_id r) (job_of db (r_job r)) (br_runner b)
          (db\<lparr>d_runs := update_where (\<lambda>x. r_id x = r_id r \<and> r_status x = AwaitingAck) (lease_run now (br_runner b)) (d_runs db)\<rparr>)"
        using assms Inr db n by (simp_all add: claimFinanceSync_def Let_def Some)
      show ?thesis by (rule that(3) [OF r(1,2) Inr r(3) res]) (simp_all add: d)
    qed
  qed
qed

text \<open>C13: A claim is exclusive.  Only a runner whose scope names the finance sync claims, and only a run
  that was approved and is not yet claimed: the one approved first.  The claim moves that run alone
  to \<open>running\<close> under the runner's name; no later claim, by whoever and whenever, gets the same run;
  the windows cover the accounts of the source, each once, by name; and a request that claims
  nothing changes nothing.\<close>

theorem claim_exclusive:
  assumes "jobs_inv db" "claimFinanceSync e ctx src now accts db = (res, db')"
  shows "case res of
      Inl _ \<Rightarrow> db' = db
    | Inr out \<Rightarrow>
        if \<not> co_claimed out then db' = db \<and> \<not> (\<exists>r \<in> set (d_runs db). claimable_run db r)
        else
          (\<exists>r b. r \<in> set (d_runs db) \<and> r_id r = co_run_id out \<and> claimable_run db r \<and>
             x_bearer ctx = Some b \<and> financeScope \<in> set (br_scope b) \<and>
             (\<forall>x \<in> set (d_runs db). claimable_run db x \<longrightarrow> the (r_claimable_at r) \<le> the (r_claimable_at x)) \<and>
             d_runs db' = map (\<lambda>x. if x = r then lease_run now (br_runner b) x else x) (d_runs db)) \<and>
          (\<forall>e' ctx' src' now' accts' out' db''.
             claimFinanceSync e' ctx' src' now' accts' db' = (Inr out', db'') \<longrightarrow> co_claimed out' \<longrightarrow>
             co_run_id out' \<noteq> co_run_id out) \<and>
          mset (map w_account (co_windows out)) =
            mset (map acc_name (filter (\<lambda>a. acc_source a =
              (if trim_space src = '''' then defaultFinanceSource else trim_space src)) accts))"
proof (cases rule: claim_cases [OF assms(2)])
  case (1 err)
  then show ?thesis by simp
next
  case 2
  then show ?thesis by (simp add: no_claim_def)
next
  case (3 r b)
  have ids: "distinct (map r_id (d_runs db))" using assms(1) by (simp add: jobs_inv_def row_ids_def)
  have same: "x = r" if "x \<in> set (d_runs db)" "r_id x = r_id r" for x
    using ids that 3(1) by (metis distinct_map inj_onD)
  have aw: "r_status r = AwaitingAck" using 3(2) by (simp add: claimable_run_def)
  have runs: "d_runs db' = map (\<lambda>x. if x = r then lease_run now (br_runner b) x else x) (d_runs db)"
    unfolding 3(6) update_where_def using same aw by (intro map_cong) auto
  have br: "x_bearer ctx = Some b" "financeScope \<in> set (br_scope b)"
    using 3(3) by (auto simp: requireBearer_def Allows_def list_ex_iff split: option.splits if_splits)
  have oldest: "the (r_claimable_at r) \<le> the (r_claimable_at x)" if "x \<in> set (d_runs db)" "claimable_run db x" for x
    using 3(4) that by (force simp: less_eq_prod_def)
  have later: "co_run_id out' \<noteq> r_id r"
    if "claimFinanceSync e' ctx' src' now' accts' db' = (Inr out', db'')" "co_claimed out'"
    for e' ctx' src' now' accts' out' db''
  proof (cases rule: claim_cases [OF that(1)])
    case (3 x c)
    have "\<not> (r_id x = r_id r \<and> r_status x = AwaitingAck)"
      by (rule run_lease.not_free) (use 3(1) \<open>d_runs db' = update_where _ _ _\<close> in simp)
    with 3(2,5) show ?thesis by (auto simp: claimable_run_def)
  qed (use that(2) in \<open>auto simp: no_claim_def\<close>)
  have "mset (map w_account (sync_windows e s now accts)) = mset (map acc_name (filter (\<lambda>a. acc_source a = s) accts))" for s
    by (simp add: sync_windows_def Let_def comp_def)
  then show ?thesis
    unfolding 3(5) sum.case using 3(1,2) br runs oldest later by auto
qed

section \<open>Approval and completion\<close>

lemma find_run:
  assumes "jobs_inv db" "r \<in> set (d_runs db)"
  shows "find (\<lambda>x. r_id x = r_id r) (d_runs db) = Some r"
  using assms distinct_find [of r_id "d_runs db" r] by (simp add: jobs_inv_def row_ids_def)

lemma finish_run_simps [simp]:
  "r_id (finish_run t b m now r) = r_id r" "r_job (finish_run t b m now r) = r_job r"
  "r_status (finish_run t b m now r) = t" "run_key (finish_run t b m now r) = run_key r"
  "r_finished_at (finish_run t b m now r) = Some now" "r_claimable_at (finish_run t b m now r) = r_claimable_at r"
  by (simp_all add: finish_run_def Let_def run_key_def)

lemma ack_cases:
  assumes "ackFinanceSync e i token now db = (res, db')"
  obtains err where "res = Inl err" "db' = db"
  | r where "res = Inr True" "y_ack_token e \<noteq> ''''" "token = y_ack_token e" "find (\<lambda>r. r_id r = i) (d_runs db) = Some r"
    "has_job db (\<lambda>j. j_key j = financeScope) (r_job r)" "r_status r \<noteq> AwaitingAck" "db' = db"
  | r where "res = Inr True" "y_ack_token e \<noteq> ''''" "token = y_ack_token e" "find (\<lambda>r. r_id r = i) (d_runs db) = Some r"
    "has_job db (\<lambda>j. j_key j = financeScope) (r_job r)" "r_status r = AwaitingAck"
    "db' = db\<lparr>d_runs := update_where (\<lambda>x. r_id x = r_id r) (\<lambda>x. x\<lparr>r_claimable_at := Some now\<rparr>) (d_runs db)\<rparr>"
proof (cases "y_ack_token e \<noteq> '''' \<and> token = y_ack_token e \<and> y_database e")
  case False
  then show ?thesis using assms that(1) by (auto simp: ackFinanceSync_def split: if_splits)
next
  case ok: True
  show ?thesis
  proof (cases "find (\<lambda>r. r_id r = i) (d_runs db)")
    case None
    then show ?thesis using assms that(1) ok by (auto simp: ackFinanceSync_def)
  next
    case (Some r)
    then have "(res, db') =
        (if \<not> has_job db (\<lambda>j. j_key j = financeScope) (r_job r) then (Inl (Http 404 ''run not found''), db)
         else if r_status r = AwaitingAck
         then (Inr True, db\<lparr>d_runs := update_where (\<lambda>x. r_id x = r_id r) (\<lambda>x. x\<lparr>r_claimable_at := Some now\<rparr>) (d_runs db)\<rparr>)
         else (Inr True, db))"
      using assms ok by (simp add: ackFinanceSync_def)
    then show ?thesis using ok Some that by (metis prod.inject)
  qed
qed

lemma complete_cases:
  assumes "completeFinanceSync e ctx i status err now db = (res, db')"
  obtains x where "res = Inl x" "db' = db"
  | r b where "requireBearer ctx financeScope = Inr b" "res = Inr True" "find (\<lambda>r. r_id r = i) (d_runs db) = Some r"
    "has_job db (\<lambda>j. j_key j = financeScope) (r_job r)" "y_database e" "i \<noteq> 0"
    "status = ''succeeded'' \<or> status = ''failed''"
    "r_status r = (if status = ''succeeded'' then Succeeded else Failed)" "db' = db"
  | r b where "requireBearer ctx financeScope = Inr b" "res = Inr True" "find (\<lambda>r. r_id r = i) (d_runs db) = Some r"
    "has_job db (\<lambda>j. j_key j = financeScope) (r_job r)" "y_database e" "i \<noteq> 0"
    "status = ''succeeded'' \<or> status = ''failed''" "r_status r = Running"
    "d_runs db' = update_where (\<lambda>x. r_id x = r_id r)
       (finish_run (if status = ''succeeded'' then Succeeded else Failed) (br_runner b)
          (if status = ''succeeded'' then '''' else trim_space err) now) (d_runs db)"
    "d_jobs db' = d_jobs db" "d_artifacts db' = d_artifacts db" "d_queue db' = d_queue db"
proof (cases "requireBearer ctx financeScope")
  case (Inl x)
  then show ?thesis using assms that(1) by (auto simp: completeFinanceSync_def)
next
  case (Inr b)
  show ?thesis
  proof (cases "y_database e \<and> i \<noteq> 0 \<and> (status = ''succeeded'' \<or> status = ''failed'')")
    case False
    then show ?thesis using assms that(1) Inr by (auto simp: completeFinanceSync_def split: if_splits)
  next
    case ok: True
    show ?thesis
    proof (cases "find (\<lambda>r. r_id r = i) (d_runs db)")
      case None
      then show ?thesis using assms that(1) Inr ok by (auto simp: completeFinanceSync_def)
    next
      case (Some r)
      show ?thesis
      proof (cases "has_job db (\<lambda>j. j_key j = financeScope) (r_job r)")
        case False
        then show ?thesis using assms that(1) Inr ok Some by (auto simp: completeFinanceSync_def)
      next
        case job: True
        have neq: "(if status = ''succeeded'' then Succeeded else Failed) = Failed \<longleftrightarrow> status \<noteq> ''succeeded''" by simp
        show ?thesis
        proof (cases "r_status r = Running")
          case True
          then have "res = Inr True" "db' = notifyRunFinished e (r_id r) (job_of db (r_job r))
              (status_name (if status = ''succeeded'' then Succeeded else Failed))
              (truncateRunes (if status = ''succeeded'' then '''' else trim_space err) notifyDetailMaxRunes)
              (db\<lparr>d_runs := update_where (\<lambda>x. r_id x = r_id r)
                 (finish_run (if status = ''succeeded'' then Succeeded else Failed) (br_runner b)
                    (if status = ''succeeded'' then '''' else trim_space err) now) (d_runs db)\<rparr>)"
            using assms Inr ok Some job by (auto simp: completeFinanceSync_def Let_def)
          then show ?thesis using that(3) Inr ok Some job True by simp
        next
          case False
          then have r: "(res, db') = (if r_status r = (if status = ''succeeded'' then Succeeded else Failed) then (Inr True, db)
              else (Inl (Http 409 ''run is not in a completable state (only a claimed, running run can be completed)''), db))"
            using assms Inr ok Some job by (auto simp: completeFinanceSync_def Let_def)
          show ?thesis
          proof (cases "r_status r = (if status = ''succeeded'' then Succeeded else Failed)")
            case True
            have "res = Inr True" "db' = db" using r unfolding if_P [OF True] by blast+
            then show ?thesis using that(2) Inr ok Some job True by blast
          next
            case False
            have "db' = db" "\<exists>x. res = Inl x" using r unfolding if_not_P [OF False] by blast+
            then show ?thesis using that(1) by blast
          qed
        qed
      qed
    qed
  qed
qed

text \<open>Closing a run.  A report is accepted only from a runner with the scope, for a finance run that
  is \<open>running\<close>, or that already has the reported outcome; then the run has that outcome, carries a
  reason only when it failed, and every other run is as before.  In any other state, and on every
  malformed request, nothing changes.  Repeating the report, however often, is answered the same
  and changes nothing, so the outcome is announced once.\<close>

theorem complete_sync:
  assumes "jobs_inv db" "completeFinanceSync e ctx i status err now db = (res, db')"
  shows "case res of
      Inl _ \<Rightarrow> db' = db
    | Inr _ \<Rightarrow>
        (\<exists>r target. r \<in> set (d_runs db) \<and> r_id r = i \<and> has_job db (\<lambda>j. j_key j = financeScope) (r_job r) \<and>
           target = (if status = ''succeeded'' then Succeeded else Failed) \<and>
           (if r_status r = Running
            then (\<exists>r'. d_runs db' = map (\<lambda>x. if x = r then r' else x) (d_runs db) \<and> r_status r' = target \<and>
                   r_finished_at r' = Some now \<and> r_claimable_at r' = r_claimable_at r \<and>
                   r_error r' = (if target = Failed \<and> trim_space err \<noteq> '''' then trim_space err else r_error r))
            else r_status r = target \<and> db' = db)) \<and>
        (\<forall>now'. completeFinanceSync e ctx i status err now' db' = (Inr True, db'))"
proof (cases rule: complete_cases [OF assms(2)])
  case (1 x)
  then show ?thesis by simp
next
  case (2 r b)
  have r: "r \<in> set (d_runs db)" "r_id r = i" using find_SomeD [OF 2(3)] by auto
  have "completeFinanceSync e ctx i status err now' db = (Inr True, db)" for now'
    using 2 by (auto simp: completeFinanceSync_def)
  with 2 r show ?thesis by auto
next
  case (3 r b)
  let ?t = "if status = ''succeeded'' then Succeeded else Failed"
  let ?f = "finish_run ?t (br_runner b) (if status = ''succeeded'' then '''' else trim_space err) now"
  have r: "r \<in> set (d_runs db)" "r_id r = i" using find_SomeD [OF 3(3)] by auto
  have ids: "distinct (map r_id (d_runs db))" using assms(1) by (simp add: jobs_inv_def row_ids_def)
  have same: "x = r" if "x \<in> set (d_runs db)" "r_id x = r_id r" for x
    using ids that r(1) by (metis distinct_map inj_onD)
  have runs: "d_runs db' = map (\<lambda>x. if x = r then ?f r else x) (d_runs db)"
    unfolding 3(9) update_where_def using same by (intro map_cong) auto
  have find': "find (\<lambda>x. r_id x = i) (d_runs db') = Some (?f r)"
  proof -
    have "find (\<lambda>x. r_id x = i) (d_runs db') = map_option (\<lambda>x. if r_id x = r_id r then ?f x else x)
        (find (\<lambda>x. r_id x = i) (d_runs db))"
      unfolding 3(9) by (rule find_update_where) simp
    then show ?thesis by (simp add: 3(3))
  qed
  have job': "has_job db' (\<lambda>j. j_key j = financeScope) (r_job (?f r))"
    using 3(4) by (simp add: has_job_def job_of_def 3(10))
  have again: "completeFinanceSync e ctx i status err now' db' = (Inr True, db')" for now'
    using 3(1,5-7) job' by (auto simp: completeFinanceSync_def find')
  have "r_error (?f r) = (if ?t = Failed \<and> trim_space err \<noteq> '''' then trim_space err else r_error r)"
    by (simp add: finish_run_def Let_def)
  moreover have "r_finished_at (?f r) = Some now" "r_claimable_at (?f r) = r_claimable_at r" "r_status (?f r) = ?t"
    by simp_all
  ultimately have "\<exists>r'. d_runs db' = map (\<lambda>x. if x = r then r' else x) (d_runs db) \<and> r_status r' = ?t \<and>
                   r_finished_at r' = Some now \<and> r_claimable_at r' = r_claimable_at r \<and>
                   r_error r' = (if ?t = Failed \<and> trim_space err \<noteq> '''' then trim_space err else r_error r)"
    using runs by (intro exI [of _ "?f r"] conjI)
  then have "if r_status r = Running
      then \<exists>r'. d_runs db' = map (\<lambda>x. if x = r then r' else x) (d_runs db) \<and> r_status r' = ?t \<and>
                   r_finished_at r' = Some now \<and> r_claimable_at r' = r_claimable_at r \<and>
                   r_error r' = (if ?t = Failed \<and> trim_space err \<noteq> '''' then trim_space err else r_error r)
      else r_status r = ?t \<and> db' = db"
    unfolding if_P [OF 3(8)] .
  with r 3(4) again show ?thesis
    unfolding 3(2) sum.case by (intro conjI allI exI [of _ r] exI [of _ ?t]) (rule refl | assumption | rule again)+
qed

section \<open>A concrete claim\<close>

definition ex_sync :: sync_env where
  "ex_sync = \<lparr>y_database = True, y_backfill_years = 0, y_overlap_days = 7, y_ack_token = ''tap'', y_notifier = True\<rparr>"

definition ex_ctx :: request_ctx where
  "ex_ctx = no_ctx\<lparr>x_bearer := Some \<lparr>br_user = ex_user 1 ''a@x.org'' Admin, br_runner = ''home'',
     br_token_id = 3, br_scope = [''finance.sync'']\<rparr>\<rparr>"

definition ex_run :: "nat \<Rightarrow> instant \<Rightarrow> run_status \<Rightarrow> instant option \<Rightarrow> job_run" where
  "ex_run i t st claimable = \<lparr>r_id = i, r_job = 3, r_status = st, r_trigger = TriggerSchedule, r_runner = '''',
     r_scheduled_for = t, r_started_at = None, r_claimable_at = claimable, r_finished_at = None,
     r_error = '''', r_created_at = t\<rparr>"

definition ex_sync_db :: jobs_db where
  "ex_sync_db = \<lparr>d_jobs = [\<lparr>j_id = 3, j_key = ''finance.sync'', j_name = ''Finance sync'', j_stage = Scrape,
       j_enabled = True, j_schedule = ''0 20 * * *'', j_timezone = ''UTC'', j_runner = RunnerServer, j_config = [],
       j_last_run_at = None, j_next_run_at = None\<rparr>],
     d_runs = [ex_run 1 10 AwaitingAck None, ex_run 2 20 AwaitingAck (Some 25), ex_run 3 30 Running (Some 31)],
     d_artifacts = [], d_queue = [], d_notes = []\<rparr>"

lemmas ex_sync_defs = ex_sync_def ex_ctx_def ex_run_def ex_sync_db_def

lemma ex_sync_inv: "jobs_inv ex_sync_db"
  by (simp add: jobs_inv_def row_ids_def run_key_def ex_sync_defs)

lemma ex_gate: "requireBearer ex_ctx financeScope = Inr \<lparr>br_user = ex_user 1 ''a@x.org'' Admin,
     br_runner = ''home'', br_token_id = 3, br_scope = [''finance.sync'']\<rparr>"
  by (simp add: requireBearer_def Allows_def ex_ctx_def financeScope_def)

lemma ex_claimable: "filter (claimable_run ex_sync_db) (d_runs ex_sync_db) = [ex_run 2 20 AwaitingAck (Some 25)]"
  by (simp add: claimable_run_def has_job_def job_of_def financeScope_def ex_sync_defs)

theorem claim_exclusive_witness:
  "\<exists>out. fst (claimFinanceSync ex_sync ex_ctx '' '' 40 [] ex_sync_db) = Inr out \<and> co_claimed out \<and> co_run_id out = 2 \<and>
     (\<forall>e' ctx' src' now' accts' out' db''.
        claimFinanceSync e' ctx' src' now' accts' (snd (claimFinanceSync ex_sync ex_ctx '' '' 40 [] ex_sync_db)) = (Inr out', db'') \<longrightarrow>
        co_claimed out' \<longrightarrow> co_run_id out' \<noteq> 2)"
proof -
  let ?c = "claimFinanceSync ex_sync ex_ctx '' '' 40 [] ex_sync_db"
  have "count_where (\<lambda>r. r_id r = 2 \<and> r_status r = AwaitingAck) (d_runs ex_sync_db) \<noteq> 0"
    by (simp add: count_where_def ex_sync_defs)
  moreover have "r_id (ex_run i t st c) = i" for i t st c by (simp add: ex_run_def)
  moreover have "y_database ex_sync" by (simp add: ex_sync_def)
  ultimately have "fst ?c = Inr \<lparr>co_claimed = True, co_run_id = 2,
      co_windows = sync_windows ex_sync defaultFinanceSource 40 []\<rparr>"
    by (simp add: claimFinanceSync_def ex_gate ex_claimable Let_def trim_space_def trim_right_def is_space_def)
  then obtain out where o': "fst ?c = Inr out" "co_claimed out" "co_run_id out = 2" by simp
  then have "?c = (Inr out, snd ?c)" by (metis prod.collapse)
  from claim_exclusive [OF ex_sync_inv this] o' show ?thesis by auto
qed

theorem complete_sync_witness:
  "\<exists>db'. completeFinanceSync ex_sync ex_ctx 3 ''failed'' '' no network '' 90 ex_sync_db = (Inr True, db') \<and>
     completeFinanceSync ex_sync ex_ctx 3 ''failed'' '' no network '' 95 db' = (Inr True, db')"
proof -
  let ?c = "completeFinanceSync ex_sync ex_ctx 3 ''failed'' '' no network '' 90 ex_sync_db"
  have "find (\<lambda>r. r_id r = 3) (d_runs ex_sync_db) = Some (ex_run 3 30 Running (Some 31))"
    "has_job ex_sync_db (\<lambda>j. j_key j = financeScope) (r_job (ex_run 3 30 Running (Some 31)))"
    "r_status (ex_run 3 30 Running (Some 31)) = Running" "y_database ex_sync"
    by (simp_all add: has_job_def job_of_def financeScope_def ex_sync_defs)
  then have "fst ?c = Inr True" by (simp add: completeFinanceSync_def ex_gate Let_def)
  then have c: "?c = (Inr True, snd ?c)" by (metis prod.collapse)
  with complete_sync [OF ex_sync_inv c] show ?thesis by auto
qed

end
