(* ===== verification/WorkApi.thy ===== *)
theory WorkApi
  imports FinanceSync
begin

text \<open>
  The external runners' work interface, \<open>internal/api/work.go\<close>, with the digest write behind it
  (\<open>internal/digest/result.go\<close> and \<open>date.go\<close>): a runner leases a run's artifacts, and posts the result
  back.

  Object storage is a parameter (\<open>work_env\<close>): presigning and reading an object may fail.  Each
  handler runs in one transaction, so an error leaves the tables as they were.  Ids are natural
  numbers; a negative id in a request names nothing.
\<close>

section \<open>Digests\<close>

datatype digest_status = DigestPending | DigestCompleted | DigestFailed

record digest_row =
  dg_date :: instant
  dg_status :: digest_status
  dg_content :: string
  dg_model :: string
  dg_batch_id :: string
  dg_error :: string

record digest_result =
  dr_date :: string
  dr_status :: digest_status
  dr_content :: string
  dr_model :: string
  dr_batch_id :: string
  dr_error :: string

definition DigestParseDate :: "instant \<Rightarrow> string \<Rightarrow> instant option" where
  "DigestParseDate now s0 =
     (let s = trim_space s0
      in if s = '''' then Some (normalizeDate now)
         else (case parse_rfc3339 s of Some t \<Rightarrow> Some (normalizeDate t)
               | None \<Rightarrow> (case parse_dateonly s of Some t \<Rightarrow> Some (normalizeDate t) | None \<Rightarrow> None)))"

text \<open>Insert unless the date has a row; insert or overwrite the date's row.\<close>

definition insert_digest :: "digest_row \<Rightarrow> digest_row list \<Rightarrow> digest_row list \<times> bool" where
  "insert_digest d ds = (if dg_date d \<in> set (map dg_date ds) then (ds, False) else (ds @ [d], True))"

definition upsert_digest :: "digest_row \<Rightarrow> digest_row list \<Rightarrow> digest_row list" where
  "upsert_digest d ds =
     (if dg_date d \<in> set (map dg_date ds) then update_where (\<lambda>x. dg_date x = dg_date d) (\<lambda>_. d) ds
      else ds @ [d])"

definition Persist :: "instant \<Rightarrow> digest_result \<Rightarrow> digest_row list \<Rightarrow> digest_row list option" where
  "Persist now r ds =
     (case DigestParseDate now (dr_date r) of None \<Rightarrow> None
      | Some d0 \<Rightarrow>
         (let day = normalizeDate d0
          in case dr_status r of
               DigestPending \<Rightarrow>
                 Some (fst (insert_digest \<lparr>dg_date = day, dg_status = DigestPending, dg_content = '''',
                   dg_model = dr_model r, dg_batch_id = dr_batch_id r, dg_error = ''''\<rparr> ds))
             | DigestFailed \<Rightarrow>
                 Some (fst (insert_digest \<lparr>dg_date = day, dg_status = DigestFailed, dg_content = '''',
                   dg_model = '''', dg_batch_id = '''', dg_error = dr_error r\<rparr> ds))
             | DigestCompleted \<Rightarrow>
                 Some (upsert_digest \<lparr>dg_date = day, dg_status = DigestCompleted, dg_content = dr_content r,
                   dg_model = dr_model r, dg_batch_id = '''', dg_error = ''''\<rparr> ds)))"

section \<open>The claim\<close>

definition workLeaseTTL :: duration where "workLeaseTTL = 10 * minute_ns"
definition workResultPrefix :: string where "workResultPrefix = ''work-results/''"

record work_env =
  k_database :: bool
  k_storage :: bool
  k_presign_get :: "string \<Rightarrow> string option"
  k_presign_put :: "string \<Rightarrow> string \<Rightarrow> string option"
  k_get_object :: "string \<Rightarrow> string option"

definition claimableArtifacts :: "jobs_db \<Rightarrow> string \<Rightarrow> instant \<Rightarrow> artifact \<Rightarrow> bool" where
  "claimableArtifacts db jobKey now a \<longleftrightarrow>
     has_job db (\<lambda>j. j_key j = jobKey \<and> (j_runner j = RunnerLocal \<or> j_runner j = RunnerAny)) (a_job a) \<and>
     (a_status a = Pending \<or>
      a_status a = Claimed \<and> (case a_expires_at a of Some t \<Rightarrow> t \<le> now | None \<Rightarrow> False))"

record claimed_dto =
  cd_id :: nat
  cd_label :: string
  cd_content_type :: string
  cd_size :: int
  cd_content :: string
  cd_url :: string

record work_claim =
  wc_claimed :: bool
  wc_job :: string
  wc_run :: nat
  wc_date :: string
  wc_lease_seconds :: int
  wc_artifacts :: "claimed_dto list"

definition no_work :: work_claim where
  "no_work = \<lparr>wc_claimed = False, wc_job = '''', wc_run = 0, wc_date = '''', wc_lease_seconds = 0, wc_artifacts = []\<rparr>"

definition claim_artifact :: "string \<Rightarrow> instant \<Rightarrow> artifact \<Rightarrow> artifact" where
  "claim_artifact runner now a =
     a\<lparr>a_status := Claimed, a_claimed_by := runner, a_claimed_at := Some now,
       a_expires_at := Some (now + workLeaseTTL)\<rparr>"

text \<open>The payload of one artifact: inline bytes, or a presigned URL for an S3 object.\<close>

definition claimed_payload :: "work_env \<Rightarrow> artifact \<Rightarrow> http_error + claimed_dto" where
  "claimed_payload e a =
     (let dto = \<lparr>cd_id = a_id a, cd_label = a_label a, cd_content_type = a_content_type a,
                 cd_size = a_size_bytes a, cd_content = '''', cd_url = ''''\<rparr>
      in case a_storage a of
           Inline \<Rightarrow> Inr (dto\<lparr>cd_content := a_content a\<rparr>)
         | S3 \<Rightarrow>
             if \<not> k_storage e then Inl (Http 503 ''object storage is not available for an S3-backed artifact'')
             else (case k_presign_get e (a_s3_key a) of
                     None \<Rightarrow> Inl (Http 500 ''failed to presign artifact download'')
                   | Some url \<Rightarrow> Inr (dto\<lparr>cd_url := url\<rparr>)))"

fun claimed_payloads :: "work_env \<Rightarrow> artifact list \<Rightarrow> http_error + claimed_dto list" where
  "claimed_payloads e [] = Inr []"
| "claimed_payloads e (a # as) =
     (case claimed_payload e a of Inl x \<Rightarrow> Inl x
      | Inr d \<Rightarrow> (case claimed_payloads e as of Inl x \<Rightarrow> Inl x | Inr ds \<Rightarrow> Inr (d # ds)))"

text \<open>The lease is committed before the payload is built.\<close>

definition claimWork ::
  "work_env \<Rightarrow> request_ctx \<Rightarrow> string \<Rightarrow> instant \<Rightarrow> jobs_db \<Rightarrow> (http_error + work_claim) \<times> jobs_db" where
  "claimWork e ctx job now db =
     (case requireBearer ctx job of Inl err \<Rightarrow> (Inl err, db)
      | Inr b \<Rightarrow>
         if \<not> k_database e then (Inl (Http 503 ''work API is not available''), db)
         else
          (case first_by a_id (filter (claimableArtifacts db job now) (d_artifacts db)) of
             None \<Rightarrow> (Inr no_work, db)
           | Some a \<Rightarrow>
              (case find (\<lambda>r. r_id r = a_produced_by a) (d_runs db) of
                 None \<Rightarrow> (Inl (Http 500 ''claimable artifact has no producing run''), db)
               | Some run \<Rightarrow>
                  (let p = (\<lambda>x. claimableArtifacts db job now x \<and> a_produced_by x = r_id run)
                   in if count_where p (d_artifacts db) = 0 then (Inr no_work, db)
                      else
                       (let db1 = db\<lparr>d_artifacts := update_where p (claim_artifact (br_runner b) now) (d_artifacts db)\<rparr>;
                            claimed = sort_key a_id (filter (\<lambda>x. a_produced_by x = r_id run \<and> a_status x = Claimed \<and>
                                        a_claimed_by x = br_runner b) (d_artifacts db1))
                        in case claimed_payloads e claimed of
                             Inl x \<Rightarrow> (Inl x, db1)
                           | Inr dtos \<Rightarrow>
                               (Inr \<lparr>wc_claimed = True, wc_job = job, wc_run = r_id run,
                                     wc_date = format_date (r_scheduled_for run),
                                     wc_lease_seconds = workLeaseTTL div second_ns, wc_artifacts = dtos\<rparr>, db1))))))"

section \<open>The report\<close>

record complete_input =
  in_job :: string
  in_run :: nat
  in_artifacts :: "nat list"
  in_status :: string
  in_error :: string
  in_content :: string
  in_content_key :: string
  in_upload_type :: string

datatype complete_output = Completed | UploadTicket string string string

text \<open>The check of one artifact reference against the run and the runner.\<close>

definition check_artifact ::
  "jobs_db \<Rightarrow> job_run \<Rightarrow> string \<Rightarrow> instant \<Rightarrow> nat \<Rightarrow> http_error option" where
  "check_artifact db run runner now wantID =
     (case find (\<lambda>a. a_id a = wantID) (d_artifacts db) of
        None \<Rightarrow> Some (Http 403 ''an artifact does not belong to the claimed run'')
      | Some a \<Rightarrow>
          if a_produced_by a \<noteq> r_id run
          then Some (Http 403 ''an artifact does not belong to the claimed run'')
          else if a_claimed_by a \<noteq> runner
          then (let leaseLive = (case a_expires_at a of None \<Rightarrow> True | Some t \<Rightarrow> now < t)
                in if a_status a = Claimed \<and> leaseLive
                   then Some (Http 409 ''an artifact is claimed by another runner with a live lease'')
                   else Some (Http 403 ''an artifact was not claimed by this runner''))
          else None)"

fun check_artifacts ::
  "jobs_db \<Rightarrow> job_run \<Rightarrow> string \<Rightarrow> instant \<Rightarrow> nat list \<Rightarrow> http_error option" where
  "check_artifacts db run runner now [] = None"
| "check_artifacts db run runner now (i # is) =
     (case check_artifact db run runner now i of Some x \<Rightarrow> Some x
      | None \<Rightarrow> check_artifacts db run runner now is)"

definition result_content :: "work_env \<Rightarrow> complete_input \<Rightarrow> http_error + string" where
  "result_content e inp =
     (if in_content inp = '''' \<and> in_content_key inp \<noteq> '''' then
        (if \<not> prefix workResultPrefix (in_content_key inp)
         then Inl (Http 403 ''content_key must be a server-issued work-results key'')
         else if \<not> k_storage e then Inl (Http 503 ''object storage is not available'')
         else (case k_get_object e (in_content_key inp) of
                 None \<Rightarrow> Inl (Http 500 ''failed to read uploaded result'') | Some c \<Rightarrow> Inr c))
      else Inr (in_content inp))"

definition digest_of :: "bool \<Rightarrow> string \<Rightarrow> complete_input \<Rightarrow> job_run \<Rightarrow> digest_result" where
  "digest_of failed content inp run =
     (let day = format_date (normalizeDate (r_scheduled_for run))
      in if failed
         then \<lparr>dr_date = day, dr_status = DigestFailed, dr_content = '''', dr_model = '''', dr_batch_id = '''',
               dr_error = in_error inp\<rparr>
         else \<lparr>dr_date = day, dr_status = DigestCompleted, dr_content = content, dr_model = '''', dr_batch_id = '''',
               dr_error = ''''\<rparr>)"

definition work_done :: "nat \<Rightarrow> string \<Rightarrow> artifact \<Rightarrow> bool" where
  "work_done runID runner a \<longleftrightarrow> a_produced_by a = runID \<and> a_claimed_by a = runner \<and> a_status a = Claimed"

definition close_work ::
  "bool \<Rightarrow> string \<Rightarrow> complete_input \<Rightarrow> instant \<Rightarrow> job_run \<Rightarrow> jobs_db \<Rightarrow> jobs_db" where
  "close_work failed runner inp now run db =
     db\<lparr>d_artifacts := update_where (work_done (r_id run) runner)
          (\<lambda>a. a\<lparr>a_status := Done, a_consumed_by := Some (r_id run)\<rparr>) (d_artifacts db),
        d_runs := update_where (\<lambda>r. r_id r = r_id run)
          (finish_run (if failed then Failed else Succeeded) runner (if failed then in_error inp else '''') now)
          (d_runs db)\<rparr>"

definition completeWork ::
  "work_env \<Rightarrow> request_ctx \<Rightarrow> complete_input \<Rightarrow> string \<Rightarrow> instant \<Rightarrow> jobs_db \<times> digest_row list
     \<Rightarrow> (http_error + complete_output) \<times> (jobs_db \<times> digest_row list)" where
  "completeWork e ctx inp keyID now st =
     (case requireBearer ctx (in_job inp) of Inl err \<Rightarrow> (Inl err, st)
      | Inr b \<Rightarrow>
       if \<not> k_database e then (Inl (Http 503 ''work API is not available''), st)
       else if in_upload_type inp \<noteq> '''' \<and> in_content inp = '''' \<and> in_content_key inp = '''' then
         (if \<not> k_storage e then (Inl (Http 503 ''object storage is not available''), st)
          else
           (let ct = to_lower (trim_space (in_upload_type inp));
                key = workResultPrefix @ itoa_nat (in_run inp) @ ''-'' @ keyID
            in case k_presign_put e key ct of
                 None \<Rightarrow> (Inl (Http 500 ''failed to presign upload''), st)
               | Some url \<Rightarrow> (Inr (UploadTicket url key ct), st)))
       else if in_run inp = 0 then (Inl (Http 422 ''job_run_id is required to finalize a claim''), st)
       else
        (case result_content e inp of Inl x \<Rightarrow> (Inl x, st)
         | Inr content \<Rightarrow>
          (let db = fst st; failed = (in_status inp = ''failed'')
           in case find (\<lambda>r. r_id r = in_run inp) (d_runs db) of
                None \<Rightarrow> (Inl (Http 404 ''job run not found''), st)
              | Some run \<Rightarrow>
                 (case job_of db (r_job run) of
                    None \<Rightarrow> (Inl (Http 403 ''job run does not belong to the scoped job''), st)
                  | Some job \<Rightarrow>
                     if j_key job \<noteq> in_job inp
                     then (Inl (Http 403 ''job run does not belong to the scoped job''), st)
                     else
                      (case check_artifacts db run (br_runner b) now (in_artifacts inp) of
                         Some x \<Rightarrow> (Inl x, st)
                       | None \<Rightarrow>
                          if count_where (\<lambda>a. a_produced_by a = r_id run \<and> a_claimed_by a = br_runner b)
                               (d_artifacts db) = 0
                          then (Inl (Http 403 ''this runner did not claim that run''), st)
                          else
                           (case (if j_stage job = Llm \<and> (content \<noteq> '''' \<or> failed)
                                  then Persist now (digest_of failed content inp run) (snd st)
                                  else Some (snd st)) of
                              None \<Rightarrow> (Inl (Http 500 ''failed to persist result''), st)
                            | Some ds \<Rightarrow> (Inr Completed, (close_work failed (br_runner b) inp now run db, ds))))))))"

section \<open>Leases on artifacts\<close>

lemma claim_artifact_simps [simp]:
  "a_id (claim_artifact b now a) = a_id a" "a_job (claim_artifact b now a) = a_job a"
  "a_produced_by (claim_artifact b now a) = a_produced_by a" "a_status (claim_artifact b now a) = Claimed"
  "a_claimed_by (claim_artifact b now a) = b" "a_expires_at (claim_artifact b now a) = Some (now + workLeaseTTL)"
  by (simp_all add: claim_artifact_def)

lemma workLeaseTTL_pos: "0 < workLeaseTTL"
  by (simp add: workLeaseTTL_def minute_ns_def second_ns_def)

interpretation work_lease: exclusive_lease
    "\<lambda>a. claimableArtifacts db job now a \<and> a_produced_by a = run" "claim_artifact runner now"
  for db job now run runner
  using workLeaseTTL_pos by unfold_locales (simp add: claimableArtifacts_def)

lemma claimableArtifacts_cong:
  "d_jobs db = d_jobs db' \<Longrightarrow> claimableArtifacts db = claimableArtifacts db'"
  by (intro ext) (simp add: claimableArtifacts_def has_job_cong [of db db'])

lemma claimWork_cases:
  assumes "claimWork e ctx job now db = (res, db')"
  obtains x where "res = Inl x" "db' = db"
  | "res = Inr no_work" "db' = db"
  | a run b where "requireBearer ctx job = Inr b" "a \<in> set (d_artifacts db)" "claimableArtifacts db job now a"
    "\<forall>x \<in> set (d_artifacts db). claimableArtifacts db job now x \<longrightarrow> a_id a \<le> a_id x"
    "run \<in> set (d_runs db)" "r_id run = a_produced_by a"
    "db' = db\<lparr>d_artifacts := update_where (\<lambda>x. claimableArtifacts db job now x \<and> a_produced_by x = r_id run)
             (claim_artifact (br_runner b) now) (d_artifacts db)\<rparr>"
    "(\<exists>x. res = Inl x) \<or> (\<exists>out. res = Inr out \<and> wc_claimed out \<and> wc_run out = r_id run \<and>
       claimed_payloads e (sort_key a_id (filter (\<lambda>x. a_produced_by x = r_id run \<and> a_status x = Claimed \<and>
         a_claimed_by x = br_runner b) (d_artifacts db'))) = Inr (wc_artifacts out))"
proof (cases "requireBearer ctx job")
  case (Inl x)
  then show ?thesis using assms that(1) by (auto simp: claimWork_def)
next
  case (Inr b)
  show ?thesis
  proof (cases "k_database e")
    case False
    then show ?thesis using assms that(1) Inr by (auto simp: claimWork_def)
  next
    case dbok: True
    show ?thesis
    proof (cases "first_by a_id (filter (claimableArtifacts db job now) (d_artifacts db))")
      case None
      then show ?thesis using assms that(2) Inr dbok by (auto simp: claimWork_def)
    next
      case (Some a)
      have a: "a \<in> set (d_artifacts db)" "claimableArtifacts db job now a"
        "\<forall>x \<in> set (d_artifacts db). claimableArtifacts db job now x \<longrightarrow> a_id a \<le> a_id x"
        using first_by_Some [OF Some] by auto
      show ?thesis
      proof (cases "find (\<lambda>r. r_id r = a_produced_by a) (d_runs db)")
        case None
        then show ?thesis using assms that(1) Inr dbok Some by (auto simp: claimWork_def)
      next
        case run: (Some run)
        have r: "run \<in> set (d_runs db)" "r_id run = a_produced_by a" using find_SomeD [OF run] by auto
        let ?p = "\<lambda>x. claimableArtifacts db job now x \<and> a_produced_by x = r_id run"
        let ?db1 = "db\<lparr>d_artifacts := update_where ?p (claim_artifact (br_runner b) now) (d_artifacts db)\<rparr>"
        let ?c = "claimed_payloads e (sort_key a_id (filter (\<lambda>x. a_produced_by x = r_id run \<and> a_status x = Claimed \<and>
           a_claimed_by x = br_runner b) (d_artifacts ?db1)))"
        have n: "count_where ?p (d_artifacts db) \<noteq> 0" using a(1,2) r(2) by (auto simp: count_where_0)
        have w: "claimWork e ctx job now db =
            (case ?c of Inl x \<Rightarrow> (Inl x, ?db1)
             | Inr dtos \<Rightarrow>
                 (Inr \<lparr>wc_claimed = True, wc_job = job, wc_run = r_id run,
                       wc_date = format_date (r_scheduled_for run),
                       wc_lease_seconds = workLeaseTTL div second_ns, wc_artifacts = dtos\<rparr>, ?db1))"
          using Inr dbok n by (simp add: claimWork_def Some run Let_def)
        show ?thesis
          by (rule that(3) [OF Inr a r]; cases ?c) (use assms w in \<open>simp_all, auto\<close>)
      qed
    qed
  qed
qed

text \<open>A lease holds against every claim before its end, and ends then.\<close>

lemma lease_holds:
  assumes "claimWork e ctx job now db = (res, db')" "x \<in> set (d_artifacts db)" "a_expires_at x = Some end_of_lease"
    and "a_status x = Claimed" "now < end_of_lease"
  shows "x \<in> set (d_artifacts db')"
proof (cases rule: claimWork_cases [OF assms(1)])
  case (3 y run' b')
  have "\<not> claimableArtifacts db job now x" using assms(3-5) by (simp add: claimableArtifacts_def)
  then show ?thesis unfolding 3(7) using assms(2) by (auto intro: work_lease.others_kept)
qed (use assms(2) in simp_all)

lemma lease_ends:
  assumes "a_expires_at x = Some end_of_lease" "a_status x = Claimed" "end_of_lease \<le> now"
    and "has_job db (\<lambda>j. j_key j = job \<and> j_runner j \<noteq> RunnerServer) (a_job x)"
  shows "claimableArtifacts (db\<lparr>d_artifacts := as\<rparr>) job now x"
proof -
  have "(\<lambda>j. j_key j = job \<and> j_runner j \<noteq> RunnerServer) =
      (\<lambda>j::sched_job. j_key j = job \<and> (j_runner j = RunnerLocal \<or> j_runner j = RunnerAny))"
    by (intro ext) (metis job_runner.exhaust job_runner.distinct)
  then show ?thesis using assms by (simp add: claimableArtifacts_def has_job_def job_of_def)
qed

text \<open>C14: A lease on work is exclusive for its whole term, and ends.  A claim takes only artifacts of
  jobs the runner's scope names and that are not bound to the server, and of one run, all that are
  free; nothing else changes.  While the lease lasts no claim, by whoever, touches the artifacts it
  took; from the moment it lapses each of them is free again, so a runner that died strands
  nothing.\<close>

theorem claim_work_exclusive:
  assumes "claimWork e ctx job now db = (Inr out, db')" "wc_claimed out"
  shows "(\<exists>b. x_bearer ctx = Some b \<and> job \<in> set (br_scope b) \<and>
      d_artifacts db' = map (\<lambda>a. if claimableArtifacts db job now a \<and> a_produced_by a = wc_run out
        then claim_artifact (br_runner b) now a else a) (d_artifacts db)) \<and>
    (\<exists>a \<in> set (d_artifacts db). claimableArtifacts db job now a \<and> a_produced_by a = wc_run out) \<and>
    d_runs db' = d_runs db \<and> d_jobs db' = d_jobs db \<and>
    (\<forall>a \<in> set (d_artifacts db'). a_expires_at a = Some (now + workLeaseTTL) \<and> a_status a = Claimed \<longrightarrow>
       (\<forall>e' ctx' job' now' res db''. now' < now + workLeaseTTL \<longrightarrow>
          claimWork e' ctx' job' now' db' = (res, db'') \<longrightarrow> a \<in> set (d_artifacts db'')) \<and>
       (\<forall>now' \<ge> now + workLeaseTTL.
          has_job db (\<lambda>j. j_key j = job \<and> j_runner j \<noteq> RunnerServer) (a_job a) \<longrightarrow>
          claimableArtifacts db' job now' a))"
proof -
  obtain a b and run :: job_run where c: "requireBearer ctx job = Inr b" "a \<in> set (d_artifacts db)" "claimableArtifacts db job now a"
    "r_id run = a_produced_by a"
    and db': "db' = db\<lparr>d_artifacts := update_where (\<lambda>x. claimableArtifacts db job now x \<and> a_produced_by x = r_id run)
             (claim_artifact (br_runner b) now) (d_artifacts db)\<rparr>"
    and out: "wc_run out = r_id run"
  proof (cases rule: claimWork_cases [OF assms(1)])
    case (3 a run b)
    have "wc_run out = r_id run" using 3(8) by auto
    then show ?thesis by (rule that [OF 3(1-3,6,7)])
  qed (use assms(2) in \<open>auto simp: no_work_def\<close>)
  have br: "x_bearer ctx = Some b" "job \<in> set (br_scope b)"
    using c(1) by (auto simp: requireBearer_def Allows_def list_ex_iff split: option.splits if_splits)
  show ?thesis
  proof (intro conjI ballI impI allI)
    show "\<exists>b. x_bearer ctx = Some b \<and> job \<in> set (br_scope b) \<and>
      d_artifacts db' = map (\<lambda>a. if claimableArtifacts db job now a \<and> a_produced_by a = wc_run out
        then claim_artifact (br_runner b) now a else a) (d_artifacts db)"
      using br by (intro exI [of _ b]) (simp add: db' update_where_def out)
    show "\<exists>a \<in> set (d_artifacts db). claimableArtifacts db job now a \<and> a_produced_by a = wc_run out"
      using c(2-4) out by (intro bexI [of _ a]) simp_all
  qed (auto simp: db' intro: lease_ends elim: lease_holds)
qed

section \<open>The digest write\<close>

interpretation digests: insert_or_skip dg_date "\<lambda>ds. set (map dg_date ds)" insert_digest
  by unfold_locales (auto simp: insert_digest_def)

lemma upsert_digest_rows:
  "x \<in> set (upsert_digest d ds) \<longleftrightarrow> x = d \<or> x \<in> set ds \<and> dg_date x \<noteq> dg_date d"
  unfolding upsert_digest_def by (auto simp: in_update_where image_iff)

lemma upsert_digest_dates: "distinct (map dg_date ds) \<Longrightarrow> distinct (map dg_date (upsert_digest d ds))"
proof -
  have "map dg_date (update_where (\<lambda>x. dg_date x = dg_date d) (\<lambda>_. d) ds) = map dg_date ds"
    by (simp add: update_where_def)
  then show "distinct (map dg_date ds) \<Longrightarrow> distinct (map dg_date (upsert_digest d ds))"
    by (auto simp: upsert_digest_def)
qed

lemma insert_digest_rows: "x \<in> set ds \<Longrightarrow> x \<in> set (fst (insert_digest d ds))"
  by (simp add: insert_digest_def)

lemma insert_digest_dates: "distinct (map dg_date ds) \<Longrightarrow> distinct (map dg_date (fst (insert_digest d ds)))"
  by (auto simp: insert_digest_def)

lemma digest_day:
  assumes "0 \<le> year_of (day_of t)" "year_of (day_of t) < 10000"
  shows "DigestParseDate now (format_date (normalizeDate t)) = Some (normalizeDate t)"
proof -
  have d: "day_of (normalizeDate t) = day_of t" by (simp add: normalizeDate_eq)
  show ?thesis using assms parse_formatted [of "normalizeDate t"] by (simp add: DigestParseDate_def d Let_def)
qed

text \<open>A completed digest survives every write, and a write touches one day.\<close>

lemma Persist_safe:
  assumes "Persist now r ds = Some ds'" "DigestParseDate now (dr_date r) = Some day" "normalizeDate day = day"
  shows "distinct (map dg_date ds) \<longrightarrow> distinct (map dg_date ds')"
    and "x \<in> set ds \<Longrightarrow> dg_date x \<noteq> day \<Longrightarrow> x \<in> set ds'"
    and "x \<in> set ds' \<Longrightarrow> dg_date x \<noteq> day \<Longrightarrow> x \<in> set ds"
    and "x \<in> set ds \<Longrightarrow> dg_status x = DigestCompleted \<Longrightarrow>
           \<exists>y \<in> set ds'. dg_date y = dg_date x \<and> dg_status y = DigestCompleted"
    and "dr_status r = DigestCompleted \<Longrightarrow>
           \<exists>y \<in> set ds'. dg_date y = day \<and> dg_status y = DigestCompleted \<and> dg_content y = dr_content r"
proof -
  consider d where "ds' = fst (insert_digest d ds)" "dg_date d = day" "dr_status r \<noteq> DigestCompleted"
    | d where "ds' = upsert_digest d ds" "dg_date d = day" "dg_status d = DigestCompleted"
      "dg_content d = dr_content r"
    using assms by (cases "dr_status r") (auto simp: Persist_def Let_def)
  note cs = this
  show "distinct (map dg_date ds) \<longrightarrow> distinct (map dg_date ds')"
    using cs by cases (auto intro: insert_digest_dates upsert_digest_dates)
  show "x \<in> set ds \<Longrightarrow> dg_date x \<noteq> day \<Longrightarrow> x \<in> set ds'"
    using cs by cases (auto simp: insert_digest_rows upsert_digest_rows)
  show "x \<in> set ds' \<Longrightarrow> dg_date x \<noteq> day \<Longrightarrow> x \<in> set ds"
    using cs by cases (auto simp: insert_digest_def upsert_digest_rows split: if_splits)
  show "x \<in> set ds \<Longrightarrow> dg_status x = DigestCompleted \<Longrightarrow>
      \<exists>y \<in> set ds'. dg_date y = dg_date x \<and> dg_status y = DigestCompleted"
    using cs
  proof cases
    case (2 d)
    then show "x \<in> set ds \<Longrightarrow> dg_status x = DigestCompleted \<Longrightarrow>
        \<exists>y \<in> set ds'. dg_date y = dg_date x \<and> dg_status y = DigestCompleted"
      by (cases "dg_date x = day") (auto simp: upsert_digest_rows)
  qed (auto simp: insert_digest_rows)
  show "dr_status r = DigestCompleted \<Longrightarrow>
      \<exists>y \<in> set ds'. dg_date y = day \<and> dg_status y = DigestCompleted \<and> dg_content y = dr_content r"
    using cs by cases (auto simp: upsert_digest_rows)
qed

lemma check_artifacts_None:
  "check_artifacts db run b now is = None \<Longrightarrow> i \<in> set is \<Longrightarrow>
     \<exists>a \<in> set (d_artifacts db). a_id a = i \<and> a_produced_by a = r_id run \<and> a_claimed_by a = b"
proof (induction "is")
  case (Cons k ks)
  have "\<exists>a \<in> set (d_artifacts db). a_id a = k \<and> a_produced_by a = r_id run \<and> a_claimed_by a = b"
    using Cons.prems(1)
    by (auto simp: check_artifact_def Let_def dest!: find_SomeD split: option.splits if_splits)
  with Cons show ?case by (auto split: option.splits)
qed simp

lemma complete_work_cases:
  assumes "completeWork e ctx inp keyID now (db, ds) = (res, st')"
  obtains x where "res = Inl x" "st' = (db, ds)"
  | url key ct where "res = Inr (UploadTicket url key ct)" "st' = (db, ds)" "prefix workResultPrefix key"
  | b run job content ds' where "requireBearer ctx (in_job inp) = Inr b" "res = Inr Completed"
    "run \<in> set (d_runs db)" "r_id run = in_run inp" "job_of db (r_job run) = Some job" "j_key job = in_job inp"
    "result_content e inp = Inr content"
    "check_artifacts db run (br_runner b) now (in_artifacts inp) = None"
    "\<exists>a \<in> set (d_artifacts db). a_produced_by a = r_id run \<and> a_claimed_by a = br_runner b"
    "(if j_stage job = Llm \<and> (content \<noteq> '''' \<or> in_status inp = ''failed'')
      then Persist now (digest_of (in_status inp = ''failed'') content inp run) ds else Some ds) = Some ds'"
    "st' = (close_work (in_status inp = ''failed'') (br_runner b) inp now run db, ds')"
proof (cases "requireBearer ctx (in_job inp)")
  case (Inl x)
  then show ?thesis using assms that(1) by (auto simp: completeWork_def)
next
  case (Inr b)
  show ?thesis
  proof (cases "k_database e \<and> \<not> (in_upload_type inp \<noteq> '''' \<and> in_content inp = '''' \<and> in_content_key inp = '''') \<and> in_run inp \<noteq> 0")
    case False
    then show ?thesis
      using assms that(1,2) Inr by (auto simp: completeWork_def Let_def split: if_splits option.splits)
  next
    case ok: True
    show ?thesis
    proof (cases "result_content e inp")
      case (Inl x)
      then show ?thesis using assms that(1) Inr ok by (auto simp: completeWork_def)
    next
      case content: (Inr content)
      show ?thesis
      proof (cases "find (\<lambda>r. r_id r = in_run inp) (d_runs db)")
        case None
        then show ?thesis using assms that(1) Inr ok content by (auto simp: completeWork_def)
      next
        case run: (Some run)
        show ?thesis
        proof (cases "job_of db (r_job run)")
          case None
          then show ?thesis using assms that(1) Inr ok content run by (auto simp: completeWork_def)
        next
          case job: (Some job)
          have r: "run \<in> set (d_runs db)" "r_id run = in_run inp" using find_SomeD [OF run] by auto
          let ?held = "count_where (\<lambda>a. a_produced_by a = r_id run \<and> a_claimed_by a = br_runner b) (d_artifacts db)"
          define P where "P = (if j_stage job = Llm \<and> (content \<noteq> '''' \<or> in_status inp = ''failed'')
            then Persist now (digest_of (in_status inp = ''failed'') content inp run) ds else Some ds)"
          have w: "completeWork e ctx inp keyID now (db, ds) =
              (if j_key job \<noteq> in_job inp
               then (Inl (Http 403 ''job run does not belong to the scoped job''), (db, ds))
               else (case check_artifacts db run (br_runner b) now (in_artifacts inp) of
                  Some x \<Rightarrow> (Inl x, (db, ds))
                | None \<Rightarrow>
                    if ?held = 0 then (Inl (Http 403 ''this runner did not claim that run''), (db, ds))
                    else (case P of None \<Rightarrow> (Inl (Http 500 ''failed to persist result''), (db, ds))
                          | Some ds' \<Rightarrow> (Inr Completed,
                              (close_work (in_status inp = ''failed'') (br_runner b) inp now run db, ds')))))"
          proof -
            have kd: "k_database e = True" "(in_run inp = 0) = False"
              and nu: "(in_upload_type inp \<noteq> '''' \<and> in_content inp = '''' \<and> in_content_key inp = '''') = False"
              using ok by blast+
            show ?thesis
              unfolding completeWork_def P_def Inr kd nu content
              by (simp only: run job Let_def sum.case option.case fst_conv snd_conv if_True if_False simp_thms content)
          qed
          consider "j_key job \<noteq> in_job inp" | x where "check_artifacts db run (br_runner b) now (in_artifacts inp) = Some x"
            | "?held = 0" | "P = None"
            | ds' where "j_key job = in_job inp" "check_artifacts db run (br_runner b) now (in_artifacts inp) = None"
              "?held \<noteq> 0" "P = Some ds'"
            by (cases "check_artifacts db run (br_runner b) now (in_artifacts inp)"; cases P) auto
          then show ?thesis
          proof cases
            case (5 ds')
            have "res = Inr Completed" "st' = (close_work (in_status inp = ''failed'') (br_runner b) inp now run db, ds')"
              using assms w 5 by simp_all
            moreover have "\<exists>a \<in> set (d_artifacts db). a_produced_by a = r_id run \<and> a_claimed_by a = br_runner b"
              using 5(3) by (simp add: count_where_0)
            ultimately show ?thesis using that(3) Inr r job 5 content unfolding P_def by blast
          qed (use assms w that(1) in \<open>auto split: option.splits if_splits\<close>)
        qed
      qed
    qed
  qed
qed

text \<open>A report is bound to what its runner holds.  It succeeds only for a run of a job the token's
  scope names, of which the runner holds an artifact, and only if every artifact it names is one the
  runner holds of that run; it then closes that run alone under the runner's name, marks done
  exactly the artifacts of the run the runner holds a lease on, and writes the digest of the run's
  own scheduled day, of a summarising job only, never turning a completed digest into anything
  else.  A request for an upload ticket gets a key under the server's prefix and changes nothing;
  a refused report changes nothing.\<close>

theorem complete_work:
  assumes "jobs_inv db" "distinct (map dg_date ds)"
    and "\<forall>r \<in> set (d_runs db). 0 \<le> year_of (day_of (r_scheduled_for r)) \<and> year_of (day_of (r_scheduled_for r)) < 10000"
    and "completeWork e ctx inp keyID now (db, ds) = (res, (db', ds'))"
  shows "case res of
      Inl _ \<Rightarrow> db' = db \<and> ds' = ds
    | Inr (UploadTicket url key ct) \<Rightarrow> db' = db \<and> ds' = ds \<and> prefix workResultPrefix key
    | Inr Completed \<Rightarrow>
        distinct (map dg_date ds') \<and>
        (\<exists>b run job. x_bearer ctx = Some b \<and> in_job inp \<in> set (br_scope b) \<and>
           run \<in> set (d_runs db) \<and> r_id run = in_run inp \<and> job \<in> set (d_jobs db) \<and> j_id job = r_job run \<and>
           j_key job = in_job inp \<and>
           (\<exists>a \<in> set (d_artifacts db). a_produced_by a = r_id run \<and> a_claimed_by a = br_runner b) \<and>
           (\<forall>i \<in> set (in_artifacts inp). \<exists>a \<in> set (d_artifacts db).
              a_id a = i \<and> a_produced_by a = r_id run \<and> a_claimed_by a = br_runner b) \<and>
           d_runs db' = map (\<lambda>r. if r = run
             then finish_run (if in_status inp = ''failed'' then Failed else Succeeded) (br_runner b)
                    (if in_status inp = ''failed'' then in_error inp else '''') now r else r) (d_runs db) \<and>
           d_artifacts db' = map (\<lambda>a. if a_produced_by a = r_id run \<and> a_claimed_by a = br_runner b \<and> a_status a = Claimed
             then a\<lparr>a_status := Done, a_consumed_by := Some (r_id run)\<rparr> else a) (d_artifacts db) \<and>
           (j_stage job \<noteq> Llm \<longrightarrow> ds' = ds) \<and>
           (\<forall>d. dg_date d \<noteq> normalizeDate (r_scheduled_for run) \<longrightarrow> (d \<in> set ds' \<longleftrightarrow> d \<in> set ds)) \<and>
           (\<forall>d \<in> set ds. dg_status d = DigestCompleted \<longrightarrow>
              (\<exists>d' \<in> set ds'. dg_date d' = dg_date d \<and> dg_status d' = DigestCompleted)))"
proof (cases rule: complete_work_cases [OF assms(4)])
  case (1 x)
  then show ?thesis by simp
next
  case (2 url key ct)
  then show ?thesis by simp
next
  case (3 b run job content ds0)
  let ?failed = "in_status inp = ''failed''"
  have db': "db' = close_work ?failed (br_runner b) inp now run db" and ds': "ds' = ds0"
    using 3(11) by simp_all
  have ids: "distinct (map r_id (d_runs db))" using assms(1) by (simp add: jobs_inv_def row_ids_def)
  have same: "x = run" if "x \<in> set (d_runs db)" "r_id x = r_id run" for x
    using ids that 3(3) by (metis distinct_map inj_onD)
  have runs: "d_runs db' = map (\<lambda>r. if r = run
      then finish_run (if ?failed then Failed else Succeeded) (br_runner b)
             (if ?failed then in_error inp else '''') now r else r) (d_runs db)"
    unfolding db' close_work_def update_where_def using same by auto
  have arts: "d_artifacts db' = map (\<lambda>a. if a_produced_by a = r_id run \<and> a_claimed_by a = br_runner b \<and> a_status a = Claimed
      then a\<lparr>a_status := Done, a_consumed_by := Some (r_id run)\<rparr> else a) (d_artifacts db)"
    by (simp add: db' close_work_def update_where_def work_done_def)
  have br: "x_bearer ctx = Some b" "in_job inp \<in> set (br_scope b)"
    using 3(1) by (auto simp: requireBearer_def Allows_def list_ex_iff split: option.splits if_splits)
  have job: "job \<in> set (d_jobs db)" "j_id job = r_job run" using job_of_SomeD [OF 3(5)] by auto
  have day: "DigestParseDate now (dr_date (digest_of ?failed content inp run)) = Some (normalizeDate (r_scheduled_for run))"
    using digest_day assms(3) 3(3) by (simp add: digest_of_def Let_def)
  have dig: "distinct (map dg_date ds') \<and>
      (\<forall>d. dg_date d \<noteq> normalizeDate (r_scheduled_for run) \<longrightarrow> (d \<in> set ds' \<longleftrightarrow> d \<in> set ds)) \<and>
      (\<forall>d \<in> set ds. dg_status d = DigestCompleted \<longrightarrow>
         (\<exists>d' \<in> set ds'. dg_date d' = dg_date d \<and> dg_status d' = DigestCompleted)) \<and>
      (j_stage job \<noteq> Llm \<longrightarrow> ds' = ds)"
  proof (cases "j_stage job = Llm \<and> (content \<noteq> '''' \<or> ?failed)")
    case True
    then have p: "Persist now (digest_of ?failed content inp run) ds = Some ds'" using 3(10) unfolding ds' by argo
    note safe = Persist_safe [OF p day normalizeDate_idem]
    show ?thesis using safe(1) assms(2) safe(2,3,4) True by metis
  next
    case False
    then have "ds' = ds" using 3(10) unfolding ds' by auto
    then show ?thesis using assms(2) by blast
  qed
  have refs: "\<forall>i \<in> set (in_artifacts inp). \<exists>a \<in> set (d_artifacts db).
      a_id a = i \<and> a_produced_by a = r_id run \<and> a_claimed_by a = br_runner b"
    using check_artifacts_None [OF 3(8)] by blast
  show ?thesis
    unfolding 3(2) sum.case complete_output.case
    using dig br 3(3,4) job 3(6,9) refs runs arts by blast
qed

section \<open>Concrete runs\<close>

definition ex_work :: work_env where
  "ex_work = \<lparr>k_database = True, k_storage = False, k_presign_get = (\<lambda>_. None), k_presign_put = (\<lambda>_ _. None),
     k_get_object = (\<lambda>_. None)\<rparr>"

definition ex_wctx :: request_ctx where
  "ex_wctx = no_ctx\<lparr>x_bearer := Some \<lparr>br_user = ex_user 1 ''a@x.org'' Admin, br_runner = ''laptop'',
     br_token_id = 4, br_scope = [''digest.llm'']\<rparr>\<rparr>"

definition ex_artifact :: "artifact_status \<Rightarrow> string \<Rightarrow> instant option \<Rightarrow> artifact" where
  "ex_artifact st by until = \<lparr>a_id = 5, a_job = 2, a_produced_by = 8, a_consumed_by = None, a_label = ''source:hn'',
     a_storage = Inline, a_content = ''text'', a_s3_key = '''', a_content_type = ''text/markdown'', a_size_bytes = 4,
     a_status = st, a_claimed_by = by, a_claimed_at = None, a_expires_at = until\<rparr>"

definition ex_work_run :: "run_status \<Rightarrow> job_run" where
  "ex_work_run st = \<lparr>r_id = 8, r_job = 2, r_status = st, r_trigger = TriggerSchedule, r_runner = '''',
     r_scheduled_for = 0, r_started_at = None, r_claimable_at = None, r_finished_at = None, r_error = '''',
     r_created_at = 0\<rparr>"

definition ex_work_db :: "run_status \<Rightarrow> artifact \<Rightarrow> jobs_db" where
  "ex_work_db st a = \<lparr>d_jobs = [\<lparr>j_id = 2, j_key = ''digest.llm'', j_name = ''D'', j_stage = Llm, j_enabled = True,
       j_schedule = ''0 18 * * *'', j_timezone = ''UTC'', j_runner = RunnerAny, j_config = [],
       j_last_run_at = None, j_next_run_at = None\<rparr>],
     d_runs = [ex_work_run st], d_artifacts = [a], d_queue = [], d_notes = []\<rparr>"

definition ex_input :: "string \<Rightarrow> string \<Rightarrow> complete_input" where
  "ex_input status content = \<lparr>in_job = ''digest.llm'', in_run = 8, in_artifacts = [5], in_status = status, in_error = '''',
     in_content = content, in_content_key = '''', in_upload_type = ''''\<rparr>"

lemmas ex_work_defs = ex_work_def ex_wctx_def ex_artifact_def ex_work_run_def ex_work_db_def ex_input_def

lemma ex_work_inv: "jobs_inv (ex_work_db st a)"
  by (simp add: jobs_inv_def row_ids_def ex_work_defs)

theorem claim_work_exclusive_witness:
  "\<exists>out db'. claimWork ex_work ex_wctx ''digest.llm'' 7 (ex_work_db Succeeded (ex_artifact Pending '''' None)) = (Inr out, db') \<and>
     wc_claimed out \<and>
     (\<forall>e' ctx' job' res db''. claimWork e' ctx' job' 8 db' = (res, db'') \<longrightarrow>
        claim_artifact ''laptop'' 7 (ex_artifact Pending '''' None) \<in> set (d_artifacts db''))"
proof -
  let ?a = "ex_artifact Pending '''' None"
  let ?c = "claimWork ex_work ex_wctx ''digest.llm'' 7 (ex_work_db Succeeded ?a)"
  have v: "(case fst ?c of Inr out \<Rightarrow> wc_claimed out | Inl _ \<Rightarrow> False)"
    "d_artifacts (snd ?c) = [claim_artifact ''laptop'' 7 ?a]"
    by code_simp+
  then obtain out where o': "fst ?c = Inr out" "wc_claimed out" by (cases "fst ?c") auto
  then have c: "?c = (Inr out, snd ?c)" by (metis prod.collapse)
  have t: "(8::instant) < 7 + workLeaseTTL" by (simp add: workLeaseTTL_def minute_ns_def second_ns_def)
  from claim_work_exclusive [OF c o'(2)] have "\<forall>a \<in> set (d_artifacts (snd ?c)).
      a_expires_at a = Some (7 + workLeaseTTL) \<and> a_status a = Claimed \<longrightarrow>
      (\<forall>e' ctx' job' now' res db''. now' < 7 + workLeaseTTL \<longrightarrow>
          claimWork e' ctx' job' now' (snd ?c) = (res, db'') \<longrightarrow> a \<in> set (d_artifacts db''))"
    by blast
  then have "\<forall>e' ctx' job' res db''. claimWork e' ctx' job' 8 (snd ?c) = (res, db'') \<longrightarrow>
        claim_artifact ''laptop'' 7 ?a \<in> set (d_artifacts db'')"
    unfolding v(2) by simp (use t in blast)
  with c o' show ?thesis by blast
qed

lemma ex_completed:
  "fst (completeWork ex_work ex_wctx (ex_input ''completed'' ''summary'') '''' 9
     (ex_work_db Running (ex_artifact Claimed ''laptop'' (Some 100)), [])) = Inr Completed"
  by code_simp

theorem complete_work_witness:
  "\<exists>db' ds'. completeWork ex_work ex_wctx (ex_input ''completed'' ''summary'') '''' 9
     (ex_work_db Running (ex_artifact Claimed ''laptop'' (Some 100)), []) = (Inr Completed, (db', ds')) \<and>
     distinct (map dg_date ds') \<and> length (d_runs db') = 1"
proof -
  let ?db = "ex_work_db Running (ex_artifact Claimed ''laptop'' (Some 100))"
  let ?c = "completeWork ex_work ex_wctx (ex_input ''completed'' ''summary'') '''' 9 (?db, [])"
  have c: "?c = (Inr Completed, (fst (snd ?c), snd (snd ?c)))"
    using ex_completed by (metis prod.collapse)
  have y: "\<forall>r \<in> set (d_runs ?db). 0 \<le> year_of (day_of (r_scheduled_for r)) \<and> year_of (day_of (r_scheduled_for r)) < 10000"
    by code_simp
  have l: "length (d_runs ?db) = 1" by (simp add: ex_work_db_def)
  have d: "distinct (map dg_date [])" by simp
  note t = complete_work [OF ex_work_inv d y c, unfolded sum.case complete_output.case]
  have "length (d_runs (fst (snd ?c))) = 1" using t l by (elim conjE exE) (simp only: length_map)
  with c conjunct1 [OF t] show ?thesis by blast
qed

text \<open>A second report by the same runner is not the same terminal state: \<open>completeWork\<close> has no guard on the
  run's status, so a run that succeeded can be turned into a failed one.\<close>

lemma recomplete_flips:
  "map r_status (d_runs (fst (snd (completeWork ex_work ex_wctx (ex_input ''failed'' '''') '''' 10
     (snd (completeWork ex_work ex_wctx (ex_input ''completed'' ''summary'') '''' 9
        (ex_work_db Running (ex_artifact Claimed ''laptop'' (Some 100)), []))))))) = [Failed]"
  by code_simp

end
