(* ===== verification/AdminJobs.thy ===== *)
theory AdminJobs
  imports Scheduler WorkApi
begin

text \<open>
  The producers and consumers of job runs beside the scheduler: the admin's job handlers of
  \<open>internal/api/admin_jobs.go\<close> (register, edit, list runs, force-start) and the worker's run
  lifecycle of \<open>cmd/worker/main.go\<close>.

  Handlers return table rows; the rendering of rows as JSON objects is not modelled, and of an error
  text that quotes another error only the fixed part is kept.  The worker's handlers of the message
  types are parameters, so is what they do to the tables.
\<close>

section \<open>Registering and editing jobs\<close>

record create_job_input =
  cj_key :: string
  cj_name :: string
  cj_schedule :: string
  cj_timezone :: string
  cj_runner :: string
  cj_config :: "(string \<times> string) list"
  cj_enabled :: bool

record update_job_input =
  uj_id :: nat
  uj_enabled :: "bool option"
  uj_schedule :: "string option"
  uj_timezone :: "string option"
  uj_runner :: "string option"

definition runner_of :: "string \<Rightarrow> job_runner option" where
  "runner_of s =
     (if s = ''server'' then Some RunnerServer else if s = ''local'' then Some RunnerLocal
      else if s = ''any'' then Some RunnerAny else None)"

definition stage_of :: "string \<Rightarrow> stage" where
  "stage_of s = (if s = ''llm'' then Llm else Scrape)"

definition next_or_none :: "('c, 'l) sched_env \<Rightarrow> string \<Rightarrow> string \<Rightarrow> instant \<Rightarrow> instant option" where
  "next_or_none e expr tz now = (case NextRun e expr tz now of Inr t \<Rightarrow> Some t | Inl _ \<Rightarrow> None)"

definition createJob ::
  "('c, 'l) sched_env \<Rightarrow> request_ctx \<Rightarrow> create_job_input \<Rightarrow> instant \<Rightarrow> jobs_db
     \<Rightarrow> (http_error + sched_job) \<times> jobs_db" where
  "createJob e ctx inp now db =
     (case requireAdmin ctx of Inl err \<Rightarrow> (Inl err, db)
      | Inr _ \<Rightarrow>
       (case LookupKind (trim_space (cj_key inp)) of
          None \<Rightarrow> (Inl (Http 422 ''unknown job key: must be one of the registered job kinds (see GET /api/admin/job-kinds)''), db)
        | Some kd \<Rightarrow>
           if \<not> ValidateCron e (cj_schedule inp) then (Inl (Http 422 ''invalid cron schedule''), db)
           else
            (let tz = (if trim_space (cj_timezone inp) = '''' then ''UTC'' else trim_space (cj_timezone inp))
             in if e_zone e tz = None then (Inl (Http 422 ''invalid timezone''), db)
                else
                 (case runner_of (if trim_space (cj_runner inp) = '''' then ''server'' else trim_space (cj_runner inp)) of
                    None \<Rightarrow> (Inl (Http 422 ''runner must be server, local or any''), db)
                  | Some rn \<Rightarrow>
                     if trim_space (cj_name inp) = '''' \<or> cj_schedule inp = '''' then (Inl (Http 500 ''failed to create job''), db)
                     else if k_key kd \<in> j_key ` set (d_jobs db)
                     then (Inl (Http 409 ''a job with that key already exists''), db)
                     else
                      (let job = \<lparr>j_id = fresh_id (map j_id (d_jobs db)), j_key = k_key kd,
                             j_name = trim_space (cj_name inp), j_stage = stage_of (k_stage kd),
                             j_enabled = cj_enabled inp, j_schedule = cj_schedule inp, j_timezone = tz,
                             j_runner = rn, j_config = cj_config inp, j_last_run_at = None,
                             j_next_run_at = (if cj_enabled inp then next_or_none e (cj_schedule inp) tz now else None)\<rparr>
                       in (Inr job, db\<lparr>d_jobs := d_jobs db @ [job]\<rparr>))))))"

text \<open>The pointer after an edit: cleared for a disabled job, recomputed when the schedule changed, the job
  was switched on or had none, and kept otherwise.\<close>

definition updated_job :: "('c, 'l) sched_env \<Rightarrow> update_job_input \<Rightarrow> job_runner \<Rightarrow> string \<Rightarrow> instant \<Rightarrow> sched_job \<Rightarrow> sched_job" where
  "updated_job e inp rn tz now job =
     (let sched = (case uj_schedule inp of Some s \<Rightarrow> s | None \<Rightarrow> j_schedule job);
          en = (case uj_enabled inp of Some b \<Rightarrow> b | None \<Rightarrow> j_enabled job);
          scheduleChanged = (uj_schedule inp \<noteq> None \<or> uj_timezone inp \<noteq> None);
          recompute = (scheduleChanged \<or> uj_enabled inp = Some True \<or> j_next_run_at job = None);
          nxt = (if \<not> en then None else if recompute then next_or_none e sched tz now else j_next_run_at job)
      in job\<lparr>j_schedule := sched, j_timezone := tz, j_runner := rn, j_enabled := en, j_next_run_at := nxt\<rparr>)"

definition updateJob ::
  "('c, 'l) sched_env \<Rightarrow> request_ctx \<Rightarrow> update_job_input \<Rightarrow> instant \<Rightarrow> jobs_db
     \<Rightarrow> (http_error + sched_job) \<times> jobs_db" where
  "updateJob e ctx inp now db =
     (case requireAdmin ctx of Inl err \<Rightarrow> (Inl err, db)
      | Inr _ \<Rightarrow>
       (case job_of db (uj_id inp) of None \<Rightarrow> (Inl (Http 404 ''job not found''), db)
        | Some job \<Rightarrow>
           if (case uj_schedule inp of Some s \<Rightarrow> \<not> ValidateCron e s | None \<Rightarrow> False)
           then (Inl (Http 422 ''invalid cron schedule''), db)
           else
            (let tz = (case uj_timezone inp of
                         Some z \<Rightarrow> (if trim_space z = '''' then ''UTC'' else trim_space z) | None \<Rightarrow> j_timezone job)
             in if uj_timezone inp \<noteq> None \<and> e_zone e tz = None then (Inl (Http 422 ''invalid timezone''), db)
                else
                 (case (case uj_runner inp of Some s \<Rightarrow> runner_of s | None \<Rightarrow> Some (j_runner job)) of
                    None \<Rightarrow> (Inl (Http 422 ''runner must be server, local or any''), db)
                  | Some rn \<Rightarrow>
                     if uj_schedule inp = Some '''' then (Inl (Http 500 ''failed to update job''), db)
                     else
                     (let job' = updated_job e inp rn tz now job
                      in (Inr job', db\<lparr>d_jobs := update_where (\<lambda>j. j_id j = j_id job) (\<lambda>_. job') (d_jobs db)\<rparr>))))))"

text \<open>The newest run's status; of runs created at the same instant the table's first counts.\<close>

definition latestRunStatus :: "jobs_db \<Rightarrow> nat \<Rightarrow> run_status option" where
  "latestRunStatus db i =
     map_option r_status (first_by (\<lambda>r. - r_created_at r) (filter (\<lambda>r. r_job r = i) (d_runs db)))"

definition listJobs :: "request_ctx \<Rightarrow> jobs_db \<Rightarrow> http_error + (sched_job \<times> run_status option) list" where
  "listJobs ctx db =
     (case requireAdmin ctx of Inl err \<Rightarrow> Inl err
      | Inr _ \<Rightarrow> Inr (map (\<lambda>j. (j, latestRunStatus db (j_id j))) (sort_key j_key (d_jobs db))))"

definition listJobKinds :: "request_ctx \<Rightarrow> http_error + kind list" where
  "listJobKinds ctx = (case requireAdmin ctx of Inl err \<Rightarrow> Inl err | Inr _ \<Rightarrow> Inr Kinds)"

definition listJobRuns ::
  "request_ctx \<Rightarrow> nat \<Rightarrow> nat \<Rightarrow> nat \<Rightarrow> jobs_db \<Rightarrow> http_error + job_run list \<times> nat" where
  "listJobRuns ctx i cnt offset db =
     (case requireAdmin ctx of Inl err \<Rightarrow> Inl err
      | Inr _ \<Rightarrow>
         if \<not> (\<exists>j \<in> set (d_jobs db). j_id j = i) then Inl (Http 404 ''job not found'')
         else (let base = filter (\<lambda>r. r_job r = i) (d_runs db)
               in Inr (take cnt (drop offset (sort_key (\<lambda>r. - r_created_at r) base)), length base)))"

section \<open>Force-starting a run\<close>

definition active_run :: "nat \<Rightarrow> job_run \<Rightarrow> bool" where
  "active_run i r \<longleftrightarrow> r_job r = i \<and> r_status r \<in> {Queued, Running, AwaitingAck}"

datatype start_output = NotStarted string | Started job_run string

text \<open>\<open>e_wall\<close> is the insert's clock, \<open>now\<close> the tick of the run.\<close>

definition startJobRun ::
  "('c, 'l) sched_env \<Rightarrow> request_ctx \<Rightarrow> nat \<Rightarrow> instant \<Rightarrow> jobs_db \<Rightarrow> (http_error + start_output) \<times> jobs_db" where
  "startJobRun e ctx i now db =
     (case requireAdmin ctx of Inl err \<Rightarrow> (Inl err, db)
      | Inr _ \<Rightarrow>
       (case job_of db i of None \<Rightarrow> (Inl (Http 404 ''job not found''), db)
        | Some job \<Rightarrow>
           if \<exists>r \<in> set (d_runs db). active_run (j_id job) r
           then (Inl (Http 409 ''a run for this job is already queued, running or awaiting approval''), db)
           else if ack_gated (j_key job) then
             (let ins = insert_run (new_run (e_wall e) (j_id job) AwaitingAck TriggerManual now) (d_runs db);
                  run = last (fst ins)
              in if \<not> snd ins then (Inl (Http 409 ''a run for this tick already exists''), db)
                 else (Inr (Started run (''awaiting approval '' @ em_dash @ '' tap the notification to approve the refresh'')),
                       notify e (NotifyRefresh (r_id run) (j_name job)) (db\<lparr>d_runs := fst ins\<rparr>)))
           else if \<not> e_configured e
           then (Inr (NotStarted ''no worker is running locally; a run cannot be started here''), db)
           else
             (let ins = insert_run (new_run (e_wall e) (j_id job) Queued TriggerManual now) (d_runs db);
                  run = last (fst ins)
              in if \<not> snd ins then (Inl (Http 409 ''a run for this tick already exists''), db)
                 else
                  (let enq = enqueueRun e job (r_id run) (db\<lparr>d_runs := fst ins\<rparr>)
                   in if snd enq then (Inr (Started run ''''), fst enq)
                      else (Inl (Http 500 ''failed to enqueue run''),
                            db\<lparr>d_runs := update_where (\<lambda>r. r_id r = r_id run)
                                 (close_run Failed ''enqueue failed'' (e_wall e)) (fst ins)\<rparr>)))))"

section \<open>The worker\<close>

datatype handle_error = ErrNoHandler | HandlerError string

definition handle_error_text :: "handle_error \<Rightarrow> string" where
  "handle_error_text err = (case err of ErrNoHandler \<Rightarrow> ''no handler for job type'' | HandlerError s \<Rightarrow> s)"

text \<open>\<open>hs\<close> holds the handlers by message type; the ack-gated type is answered without any work.\<close>

definition handle ::
  "(string \<Rightarrow> queue_job \<Rightarrow> jobs_db \<Rightarrow> string option \<times> jobs_db) \<Rightarrow> queue_job \<Rightarrow> jobs_db
     \<Rightarrow> handle_error option \<times> jobs_db" where
  "handle hs m db =
     (if q_type m \<in> {''contact.notify'', ''digest.build'', ''digest.collect'', ''digest.scrape'', ''digest.llm''}
      then map_prod (map_option HandlerError) id (hs (q_type m) m db)
      else if q_type m = ''finance.sync'' then (None, db)
      else (Some ErrNoHandler, db))"

definition finishRun :: "nat \<Rightarrow> run_status \<Rightarrow> string \<Rightarrow> instant \<Rightarrow> jobs_db \<Rightarrow> jobs_db" where
  "finishRun runID status errText now db =
     db\<lparr>d_runs := update_where (\<lambda>r. r_id r = runID)
          (\<lambda>r. let r1 = r\<lparr>r_status := status, r_finished_at := Some now\<rparr>
               in if errText \<noteq> '''' then r1\<lparr>r_error := errText\<rparr> else r1) (d_runs db)\<rparr>"

definition worker_claim :: "nat \<Rightarrow> instant \<Rightarrow> jobs_db \<Rightarrow> jobs_db \<times> bool" where
  "worker_claim runID now db =
     (let p = (\<lambda>r. r_id r = runID \<and> r_status r = Queued)
      in (db\<lparr>d_runs := update_where p (\<lambda>r. r\<lparr>r_status := Running, r_started_at := Some now\<rparr>) (d_runs db)\<rparr>,
          count_where p (d_runs db) \<noteq> 0))"

text \<open>The result says whether the job was run and whether the message was acknowledged.\<close>

definition processScheduled ::
  "(string \<Rightarrow> queue_job \<Rightarrow> jobs_db \<Rightarrow> string option \<times> jobs_db) \<Rightarrow> queue_job \<Rightarrow> instant \<Rightarrow> instant \<Rightarrow> jobs_db
     \<Rightarrow> jobs_db \<times> bool \<times> bool" where
  "processScheduled hs m now later db =
     (let c = worker_claim (q_run m) now db
      in if \<not> snd c then (db, False, True)
         else
          (let h = handle hs m (fst c)
           in case fst h of
                Some err \<Rightarrow> (finishRun (q_run m) Failed (handle_error_text err) later (snd h), True, True)
              | None \<Rightarrow> (finishRun (q_run m) Succeeded '''' later (snd h), True, True)))"

definition process_message ::
  "(string \<Rightarrow> queue_job \<Rightarrow> jobs_db \<Rightarrow> string option \<times> jobs_db) \<Rightarrow> queue_job \<Rightarrow> instant \<Rightarrow> instant \<Rightarrow> jobs_db
     \<Rightarrow> jobs_db \<times> bool \<times> bool" where
  "process_message hs m now later db =
     (if q_run m = 0
      then (let h = handle hs m db in (snd h, True, fst h = None \<or> fst h = Some ErrNoHandler))
      else processScheduled hs m now later db)"

section \<open>What the handlers do\<close>

lemma worker_simps [simp]:
  "d_jobs (finishRun i st m now db) = d_jobs db" "d_jobs (fst (worker_claim i now db)) = d_jobs db"
  "d_artifacts (finishRun i st m now db) = d_artifacts db" "d_artifacts (fst (worker_claim i now db)) = d_artifacts db"
  by (simp_all add: finishRun_def worker_claim_def Let_def)

lemma new_run_simps [simp]:
  "r_job (new_run w j st tr t) = j" "r_status (new_run w j st tr t) = st" "r_trigger (new_run w j st tr t) = tr"
  "r_claimable_at (new_run w j st tr t) = None" "r_scheduled_for (new_run w j st tr t) = t"
  "r_started_at (new_run w j st tr t) = None" "r_finished_at (new_run w j st tr t) = None"
  "run_key (new_run w j st tr t) = (t, j)"
  by (simp_all add: new_run_def run_key_def)

lemma run_key_id [simp]: "run_key (r\<lparr>r_id := i\<rparr>) = run_key r"
  by (simp add: run_key_def)

text \<open>The row a force-start adds.\<close>

definition manual_run :: "('c, 'l) sched_env \<Rightarrow> jobs_db \<Rightarrow> run_status \<Rightarrow> nat \<Rightarrow> instant \<Rightarrow> job_run" where
  "manual_run e db st i now =
     (new_run (e_wall e) i st TriggerManual now)\<lparr>r_id := fresh_id (map r_id (d_runs db))\<rparr>"

lemma manual_run_simps [simp]:
  "r_id (manual_run e db st i now) = fresh_id (map r_id (d_runs db))" "r_job (manual_run e db st i now) = i"
  "r_status (manual_run e db st i now) = st" "r_trigger (manual_run e db st i now) = TriggerManual"
  "r_claimable_at (manual_run e db st i now) = None" "run_key (manual_run e db st i now) = (now, i)"
  by (simp_all add: manual_run_def)

lemma start_cases:
  assumes "startJobRun e ctx i now db = (res, db')"
  obtains err where "res = Inl err" "db' = db"
  | m where "res = Inr (NotStarted m)" "db' = db" "\<not> e_configured e"
  | job m where "res = Inr (Started (manual_run e db AwaitingAck i now) m)" "job_of db i = Some job" "ack_gated (j_key job)"
    "\<not> (\<exists>r \<in> set (d_runs db). active_run i r)" "(now, i) \<notin> run_key ` set (d_runs db)"
    "d_runs db' = d_runs db @ [manual_run e db AwaitingAck i now]" "d_jobs db' = d_jobs db"
    "d_artifacts db' = d_artifacts db" "d_queue db' = d_queue db"
  | job m where "res = Inr (Started (manual_run e db Queued i now) '''')" "job_of db i = Some job" "\<not> ack_gated (j_key job)"
    "\<not> (\<exists>r \<in> set (d_runs db). active_run i r)" "(now, i) \<notin> run_key ` set (d_runs db)"
    "d_runs db' = d_runs db @ [manual_run e db Queued i now]" "d_jobs db' = d_jobs db"
    "d_artifacts db' = d_artifacts db" "d_queue db' = d_queue db @ [m]" "q_type m = j_key job"
    "q_run m = fresh_id (map r_id (d_runs db))"
  | job where "res = Inl (Http 500 ''failed to enqueue run'')" "job_of db i = Some job" "\<not> ack_gated (j_key job)"
    "\<not> (\<exists>r \<in> set (d_runs db). active_run i r)" "(now, i) \<notin> run_key ` set (d_runs db)"
    "d_runs db' = d_runs db @ [close_run Failed ''enqueue failed'' (e_wall e) (manual_run e db Queued i now)]"
    "d_jobs db' = d_jobs db" "d_artifacts db' = d_artifacts db" "d_queue db' = d_queue db"
proof (cases "requireAdmin ctx")
  case (Inl err)
  then show ?thesis using assms that(1) by (auto simp: startJobRun_def)
next
  case (Inr u)
  show ?thesis
  proof (cases "job_of db i")
    case None
    then show ?thesis using assms that(1) Inr by (auto simp: startJobRun_def)
  next
    case (Some job)
    have ji: "j_id job = i" using job_of_SomeD [OF Some] by simp
    show ?thesis
    proof (cases "(\<exists>r \<in> set (d_runs db). active_run i r) \<or> (now, i) \<in> run_key ` set (d_runs db)")
      case True
      then show ?thesis
        using assms that(1,2) Inr Some ji by (auto simp: startJobRun_def insert_run_def Let_def split: if_splits)
    next
      case False
      then have none: "\<not> (\<exists>r \<in> set (d_runs db). active_run i r)" and key: "(now, i) \<notin> run_key ` set (d_runs db)" by auto
      have ins: "insert_run (new_run (e_wall e) i st TriggerManual now) (d_runs db) =
          (d_runs db @ [manual_run e db st i now], True)" for st
        using key by (simp add: insert_run_def manual_run_def)
      have other: "update_where (\<lambda>r. r_id r = fresh_id (map r_id (d_runs db))) f (d_runs db) = d_runs db" for f
        by (rule update_where_none) (metis fresh_id_new image_eqI list.set_map)
      note start = startJobRun_def Inr Some ji none ins
      consider "ack_gated (j_key job)" | "\<not> ack_gated (j_key job)" "\<not> e_configured e"
        | "\<not> ack_gated (j_key job)" "e_configured e" by blast
      then show ?thesis
      proof cases
        case 1
        then show ?thesis using assms Some none key by (intro that(3)) (auto simp: start Let_def)
      next
        case 2
        then show ?thesis using assms that(2) by (auto simp: start Let_def)
      next
        case 3
        show ?thesis
        proof (cases "snd (enqueueRun e job (fresh_id (map r_id (d_runs db))) (db\<lparr>d_runs := d_runs db @ [manual_run e db Queued i now]\<rparr>))")
          case True
          then show ?thesis using assms 3 Some none key
            by (intro that(4) [where m = "\<lparr>q_type = j_key job,
                  q_payload = (if j_config job \<noteq> [] then marshal_config (j_config job) else ''{}''),
                  q_run = fresh_id (map r_id (d_runs db))\<rparr>"])
              (auto simp: start enqueueRun_def Let_def split: if_splits)
        next
          case False
          then have "res = Inl (Http 500 ''failed to enqueue run'')"
            "db' = db\<lparr>d_runs := update_where (\<lambda>r. r_id r = fresh_id (map r_id (d_runs db)))
               (close_run Failed ''enqueue failed'' (e_wall e)) (d_runs db @ [manual_run e db Queued i now])\<rparr>"
            using assms 3 by (auto simp: start Let_def)
          moreover have "update_where (\<lambda>r. r_id r = fresh_id (map r_id (d_runs db)))
               (close_run Failed ''enqueue failed'' (e_wall e)) (d_runs db @ [manual_run e db Queued i now]) =
             d_runs db @ [close_run Failed ''enqueue failed'' (e_wall e) (manual_run e db Queued i now)]"
            using other by (simp add: update_where_def)
          ultimately show ?thesis using Some none key 3 by (intro that(5)) simp_all
        qed
      qed
    qed
  qed
qed

lemma append_run_inv:
  assumes "jobs_inv db" "r_id r \<notin> set (map r_id (d_runs db))" "run_key r \<notin> run_key ` set (d_runs db)"
    "r_job r \<in> j_id ` set (d_jobs db)" "d_runs db' = d_runs db @ [r]" "d_jobs db' = d_jobs db"
  shows "jobs_inv db'"
  using assms by (auto simp: jobs_inv_def row_ids_def)

lemma manual_run_inv:
  assumes "jobs_inv db" "job_of db i = Some job" "(now, i) \<notin> run_key ` set (d_runs db)" "d_jobs db' = d_jobs db"
    "d_runs db' = d_runs db @ [r]" "r_id r = fresh_id (map r_id (d_runs db))" "run_key r = (now, i)" "r_job r = i"
  shows "jobs_inv db'"
proof (rule append_run_inv [OF assms(1) _ _ _ assms(5,4)])
  show "r_id r \<notin> set (map r_id (d_runs db))" unfolding assms(6) by (rule fresh_id_new)
qed (use assms(3,7,8) job_of_SomeD [OF assms(2)] in \<open>auto intro: rev_image_eqI\<close>)

lemma start_inv:
  assumes "jobs_inv db" "startJobRun e ctx i now db = (res, db')"
  shows "jobs_inv db'"
proof (cases rule: start_cases [OF assms(2)])
  case (3 job m)
  show ?thesis by (rule manual_run_inv [OF assms(1) 3(2,5,7,6)]) simp_all
next
  case (4 job m)
  show ?thesis by (rule manual_run_inv [OF assms(1) 4(2,5,7,6)]) simp_all
next
  case (5 job)
  show ?thesis by (rule manual_run_inv [OF assms(1) 5(2,5,7,6)]) simp_all
qed (use assms(1) in simp_all)

text \<open>A forced run never piles up on one in flight.  A run is started only when no run of the job is
  queued, running or awaiting approval; it is one new row, manual, of that job.  For an ack-gated
  kind it awaits approval, unapproved, and nothing is sent to the worker; for any other kind it is
  queued and exactly one message, routed to the job and naming the run, is sent.  Without a worker,
  and on every refusal but one, nothing changes; when the send fails, the new run is closed as failed
  and no run is left queued.\<close>

theorem start_run:
  assumes "jobs_inv db" "startJobRun e ctx i now db = (res, db')"
  shows "jobs_inv db' \<and> d_jobs db' = d_jobs db \<and>
    (case res of
      Inr (Started run m) \<Rightarrow>
        (\<exists>job \<in> set (d_jobs db). j_id job = i \<and> r_job run = i \<and> r_trigger run = TriggerManual \<and>
           filter (active_run i) (d_runs db) = [] \<and> filter (active_run i) (d_runs db') = [run] \<and>
           d_runs db' = d_runs db @ [run] \<and> r_claimable_at run = None \<and>
           (if ack_gated (j_key job) then r_status run = AwaitingAck \<and> d_queue db' = d_queue db
            else r_status run = Queued \<and>
              (\<exists>msg. d_queue db' = d_queue db @ [msg] \<and> q_run msg = r_id run \<and> q_type msg = j_key job)))
    | Inr (NotStarted m) \<Rightarrow> db' = db \<and> \<not> e_configured e
    | Inl err \<Rightarrow> db' = db \<or>
        (\<exists>run. d_runs db' = d_runs db @ [run] \<and> r_status run = Failed \<and> d_queue db' = d_queue db \<and>
           filter (active_run i) (d_runs db') = []))"
proof -
  have none: "filter (active_run i) rs = []" if "\<not> (\<exists>r \<in> set rs. active_run i r)" for rs
    using that by (simp add: filter_empty_conv)
  have case_ok: ?thesis if "d_jobs db' = d_jobs db" "case res of
      Inr (Started run m) \<Rightarrow>
        (\<exists>job \<in> set (d_jobs db). j_id job = i \<and> r_job run = i \<and> r_trigger run = TriggerManual \<and>
           filter (active_run i) (d_runs db) = [] \<and> filter (active_run i) (d_runs db') = [run] \<and>
           d_runs db' = d_runs db @ [run] \<and> r_claimable_at run = None \<and>
           (if ack_gated (j_key job) then r_status run = AwaitingAck \<and> d_queue db' = d_queue db
            else r_status run = Queued \<and>
              (\<exists>msg. d_queue db' = d_queue db @ [msg] \<and> q_run msg = r_id run \<and> q_type msg = j_key job)))
    | Inr (NotStarted m) \<Rightarrow> db' = db \<and> \<not> e_configured e
    | Inl err \<Rightarrow> db' = db \<or>
        (\<exists>run. d_runs db' = d_runs db @ [run] \<and> r_status run = Failed \<and> d_queue db' = d_queue db \<and>
           filter (active_run i) (d_runs db') = [])"
    using start_inv [OF assms] that by blast
  show ?thesis
  proof (cases rule: start_cases [OF assms(2)])
    case (3 job m)
    show ?thesis
      by (rule case_ok [OF 3(7)])
        (use 3 none [OF 3(4)] job_of_SomeD [OF 3(2)] in \<open>auto simp: active_run_def intro!: bexI [of _ job]\<close>)
  next
    case (4 job m)
    show ?thesis
      by (rule case_ok [OF 4(7)])
        (use 4 none [OF 4(4)] job_of_SomeD [OF 4(2)] in \<open>auto simp: active_run_def intro!: bexI [of _ job]\<close>)
  next
    case (5 job)
    show ?thesis
      by (rule case_ok [OF 5(7)]) (use 5 none [OF 5(4)] in \<open>auto simp: active_run_def\<close>)
  qed (rule case_ok; simp)+
qed

lemma create_cases:
  assumes "createJob e ctx inp now db = (res, db')"
  obtains err where "res = Inl err" "db' = db"
  | job where "res = Inr job" "db' = db\<lparr>d_jobs := d_jobs db @ [job]\<rparr>" "j_id job = fresh_id (map j_id (d_jobs db))"
    "j_key job \<notin> j_key ` set (d_jobs db)" "LookupKind (j_key job) \<noteq> None" "ValidateCron e (j_schedule job)"
    "e_zone e (j_timezone job) \<noteq> None" "j_name job \<noteq> ''''"
    "j_next_run_at job = (if j_enabled job then next_or_none e (j_schedule job) (j_timezone job) now else None)"
proof -
  have key: "\<exists>y. LookupKind (k_key kd) = Some y" if "LookupKind k = Some kd" for k kd
    using that find_SomeD [of "\<lambda>x. k_key x = k" kinds kd] by (auto simp: LookupKind_def)
  show ?thesis
    using assms that
    by (auto simp: createJob_def Let_def split: sum.splits option.splits if_splits dest: key)
qed

lemma create_inv:
  assumes "jobs_inv db" "createJob e ctx inp now db = (res, db')"
  shows "jobs_inv db'"
proof (cases rule: create_cases [OF assms(2)])
  case (2 job)
  have "j_id job \<notin> set (map j_id (d_jobs db))" unfolding 2(3) by (rule fresh_id_new)
  with 2(2,4) assms(1) show ?thesis by (auto simp: jobs_inv_def row_ids_def)
qed (use assms(1) in simp)

lemma updated_job_simps [simp]:
  "j_id (updated_job e inp rn tz now job) = j_id job" "j_key (updated_job e inp rn tz now job) = j_key job"
  "j_name (updated_job e inp rn tz now job) = j_name job" "j_stage (updated_job e inp rn tz now job) = j_stage job"
  "j_config (updated_job e inp rn tz now job) = j_config job"
  "j_last_run_at (updated_job e inp rn tz now job) = j_last_run_at job"
  by (simp_all add: updated_job_def Let_def)

lemma update_cases:
  assumes "updateJob e ctx inp now db = (res, db')"
  obtains err where "res = Inl err" "db' = db"
  | job rn tz where "res = Inr (updated_job e inp rn tz now job)" "job_of db (uj_id inp) = Some job"
    "db' = db\<lparr>d_jobs := update_where (\<lambda>j. j_id j = j_id job) (\<lambda>_. updated_job e inp rn tz now job) (d_jobs db)\<rparr>"
    "\<forall>s. uj_schedule inp = Some s \<longrightarrow> ValidateCron e s"
    "if uj_timezone inp = None then tz = j_timezone job else e_zone e tz \<noteq> None"
proof (cases "requireAdmin ctx")
  case (Inl err)
  then show ?thesis using assms that(1) by (auto simp: updateJob_def)
next
  case (Inr u)
  show ?thesis
  proof (cases "job_of db (uj_id inp)")
    case None
    then show ?thesis using assms that(1) Inr by (auto simp: updateJob_def)
  next
    case (Some job)
    show ?thesis
    proof (cases "\<forall>s. uj_schedule inp = Some s \<longrightarrow> ValidateCron e s")
      case False
      then have "case uj_schedule inp of Some s \<Rightarrow> \<not> ValidateCron e s | None \<Rightarrow> False" by auto
      then show ?thesis using assms that(1) Inr Some by (auto simp: updateJob_def)
    next
      case cron: True
      then have c: "\<not> (case uj_schedule inp of Some s \<Rightarrow> \<not> ValidateCron e s | None \<Rightarrow> False)"
        by (simp split: option.split)
      define tz where "tz = (case uj_timezone inp of
          Some z \<Rightarrow> (if trim_space z = '''' then ''UTC'' else trim_space z) | None \<Rightarrow> j_timezone job)"
      have u: "updateJob e ctx inp now db =
          (if uj_timezone inp \<noteq> None \<and> e_zone e tz = None then (Inl (Http 422 ''invalid timezone''), db)
           else
            (case (case uj_runner inp of Some s \<Rightarrow> runner_of s | None \<Rightarrow> Some (j_runner job)) of
               None \<Rightarrow> (Inl (Http 422 ''runner must be server, local or any''), db)
             | Some rn \<Rightarrow>
                if uj_schedule inp = Some '''' then (Inl (Http 500 ''failed to update job''), db)
                else (Inr (updated_job e inp rn tz now job),
                      db\<lparr>d_jobs := update_where (\<lambda>j. j_id j = j_id job) (\<lambda>_. updated_job e inp rn tz now job) (d_jobs db)\<rparr>)))"
        unfolding updateJob_def Inr sum.case Some option.case if_not_P [OF c] Let_def tz_def by (rule refl)
      have z: "if uj_timezone inp = None then tz = j_timezone job else e_zone e tz \<noteq> None"
        if "\<not> (uj_timezone inp \<noteq> None \<and> e_zone e tz = None)"
        using that by (cases "uj_timezone inp") (simp_all add: tz_def)
      show ?thesis
        using assms that(1) that(2) [OF _ Some _ cron z] unfolding u by (auto split: if_splits option.splits)
    qed
  qed
qed

lemma update_inv:
  assumes "jobs_inv db" "updateJob e ctx inp now db = (res, db')"
  shows "jobs_inv db' \<and> map j_id (d_jobs db') = map j_id (d_jobs db) \<and> map j_key (d_jobs db') = map j_key (d_jobs db) \<and>
    d_runs db' = d_runs db"
proof (cases rule: update_cases [OF assms(2)])
  case (2 job rn tz)
  have same: "x = job" if "x \<in> set (d_jobs db)" "j_id x = j_id job" for x
    using that job_of_SomeD [OF 2(2)] assms(1) unfolding jobs_inv_def row_ids_def by (metis distinct_map inj_onD)
  then have k: "map j_id (d_jobs db') = map j_id (d_jobs db)" "map j_key (d_jobs db') = map j_key (d_jobs db)"
    "d_runs db' = d_runs db" unfolding 2(3) by (auto simp: update_where_def)
  then have "j_id ` set (d_jobs db') = j_id ` set (d_jobs db)" by (metis list.set_map)
  then show ?thesis using assms(1) k by (simp add: jobs_inv_def row_ids_def)
qed (use assms(1) in simp)

text \<open>Editing a job keeps its next-run pointer consistent.  The edit touches that job alone, and of it
  neither key, name, stage nor history; a schedule or zone it sets is valid.  Afterwards a disabled
  job has no pointer.  An enabled job has either its old pointer, or the instant the ticker itself
  would compute for the new schedule and zone: so an edit never makes a job due by itself, and one that
  touches only the runner of an enabled job does not skip a run that is due.\<close>

theorem update_job:
  assumes "jobs_inv db" "updateJob e ctx inp now db = (res, db')"
  shows "jobs_inv db' \<and> d_runs db' = d_runs db \<and>
    (case res of Inl _ \<Rightarrow> db' = db
     | Inr job' \<Rightarrow>
        (\<exists>job \<in> set (d_jobs db). j_id job = uj_id inp \<and>
           d_jobs db' = map (\<lambda>j. if j = job then job' else j) (d_jobs db) \<and>
           (j_id job', j_key job', j_name job', j_stage job', j_config job', j_last_run_at job') =
             (j_id job, j_key job, j_name job, j_stage job, j_config job, j_last_run_at job) \<and>
           j_schedule job' = case_option (j_schedule job) id (uj_schedule inp) \<and>
           j_enabled job' = case_option (j_enabled job) id (uj_enabled inp) \<and>
           (uj_schedule inp \<noteq> None \<longrightarrow> ValidateCron e (j_schedule job')) \<and>
           (if uj_timezone inp = None then j_timezone job' = j_timezone job else e_zone e (j_timezone job') \<noteq> None) \<and>
           (if \<not> j_enabled job' then j_next_run_at job' = None
            else if uj_schedule inp = None \<and> uj_timezone inp = None \<and> uj_enabled inp = None \<and> j_next_run_at job \<noteq> None
            then j_next_run_at job' = j_next_run_at job
            else j_next_run_at job' \<in> {j_next_run_at job,
                   (case NextRun e (j_schedule job') (j_timezone job') now of Inr t \<Rightarrow> Some t | Inl _ \<Rightarrow> None)})))"
proof -
  note inv = update_inv [OF assms]
  show ?thesis
  proof (cases rule: update_cases [OF assms(2)])
    case (2 job rn tz)
    have same: "x = job" if "x \<in> set (d_jobs db)" "j_id x = j_id job" for x
      using that job_of_SomeD [OF 2(2)] assms(1) unfolding jobs_inv_def row_ids_def by (metis distinct_map inj_onD)
    have rows: "d_jobs db' = map (\<lambda>j. if j = job then updated_job e inp rn tz now job else j) (d_jobs db)"
      unfolding 2(3) using same by (auto simp: update_where_def)
    show ?thesis
      unfolding 2(1) sum.case
      by (intro conjI bexI [of _ job] conjunct1 [OF inv] rows)
        (use inv 2 job_of_SomeD [OF 2(2)] in
          \<open>auto simp: updated_job_def next_or_none_def Let_def split: option.splits if_splits sum.splits\<close>)
  qed (use inv in simp)
qed

section \<open>Concrete requests\<close>

definition ex_admin :: request_ctx where
  "ex_admin = no_ctx\<lparr>x_user := Some (ex_user 1 ''a@x.org'' Admin)\<rparr>"

definition ex_patch :: update_job_input where
  "ex_patch = \<lparr>uj_id = 2, uj_enabled = None, uj_schedule = Some ''0 20 * * *'', uj_timezone = None, uj_runner = Some ''any''\<rparr>"

lemma ex_started: "(case fst (startJobRun ex_env ex_admin 1 ex_now ex_db) of Inr (Started run m) \<Rightarrow> r_status run = Queued | _ \<Rightarrow> False)"
  by code_simp

theorem start_run_witness:
  "\<exists>run m msg. fst (startJobRun ex_env ex_admin 1 ex_now ex_db) = Inr (Started run m) \<and>
     r_status run = Queued \<and> d_queue (snd (startJobRun ex_env ex_admin 1 ex_now ex_db)) = [msg] \<and> q_run msg = r_id run"
proof -
  let ?c = "startJobRun ex_env ex_admin 1 ex_now ex_db"
  obtain run m where o': "fst ?c = Inr (Started run m)" "r_status run = Queued"
    using ex_started by (auto split: sum.splits start_output.splits)
  then have c: "?c = (Inr (Started run m), snd ?c)" by (metis prod.collapse)
  have q: "d_queue ex_db = []" by (simp add: ex_db_def)
  have "\<exists>job :: sched_job. (if ack_gated (j_key job) then r_status run = AwaitingAck \<and> d_queue (snd ?c) = d_queue ex_db
      else r_status run = Queued \<and>
        (\<exists>msg. d_queue (snd ?c) = d_queue ex_db @ [msg] \<and> q_run msg = r_id run \<and> q_type msg = j_key job))"
    using start_run [OF ex_hyps(1) c, unfolded sum.case start_output.case] by (elim conjE bexE) (rule exI)
  then have "\<exists>msg. d_queue (snd ?c) = [msg] \<and> q_run msg = r_id run"
    using o'(2) q by (auto split: if_splits)
  with o' show ?thesis by blast
qed

lemma ex_updated: "(case fst (updateJob ex_env ex_admin ex_patch ex_now ex_db) of Inr j \<Rightarrow> j_enabled j | Inl _ \<Rightarrow> False)"
  by code_simp

theorem update_job_witness:
  "\<exists>j. fst (updateJob ex_env ex_admin ex_patch ex_now ex_db) = Inr j \<and>
     j_schedule j = ''0 20 * * *'' \<and> ValidateCron ex_env (j_schedule j)"
proof -
  let ?c = "updateJob ex_env ex_admin ex_patch ex_now ex_db"
  obtain j where o': "fst ?c = Inr j" using ex_updated by (auto split: sum.splits)
  then have c: "?c = (Inr j, snd ?c)" by (metis prod.collapse)
  have s: "uj_schedule ex_patch = Some ''0 20 * * *''" by (simp add: ex_patch_def)
  show ?thesis using update_job [OF ex_hyps(1) c] o' s by auto
qed

end
