(* ===== verification/DigestBuild.thy ===== *)
theory DigestBuild
  imports AdminJobs
begin

text \<open>
  The digest pipeline of \<open>internal/digest\<close> and its handlers in \<open>cmd/worker/main.go\<close>: the client of
  the summarising API (\<open>anthropic.go\<close>), the monolithic build (\<open>builder.go\<close>), the two-stage split
  into scrape and summarise (\<open>stages.go\<close>), and the collection of batches (\<open>collect.go\<close>).

  Parameters (\<open>digest_env\<close>): the HTTP transport, as the reply to a request; the JSON decoders of the
  replies; object storage; the Fargate launcher; and \<open>g_text\<close>, the rendering of an error.  Request
  bodies are kept as values instead of JSON.  Log lines and token counts are not modelled.
\<close>

section \<open>Errors, requests and replies\<close>

datatype digest_error =
    NotConfigured | AllFailed nat | EmptyDoc | NoStore string nat | StoreFailed
  | ApiTransport | ApiStatus int string | ApiDecode | Refused | NoText string | NoBatchId
  | FetchTransport | FetchStatus int | LineTooLong
  | NoRun nat | NoProducer nat | PersistFailed string | NeedsRunId | TaskFailed | NoResult

record message_reply =
  mr_model :: string
  mr_stop_reason :: string
  mr_content :: "(string \<times> string) list"

record batch_status =
  bs_id :: string
  bs_processing_status :: string
  bs_results_url :: string

record result_line =
  rl_custom_id :: string
  rl_type :: string
  rl_message :: "message_reply option"

text \<open>An authenticated call: one message, the creation of a one-request batch, or a read.\<close>

datatype api_call =
    PostMessage string string
  | PostBatch string string string
  | GetBatch string
  | GetResults string

record digest_env =
  g_api_key :: string
  g_model :: string
  g_do :: "api_call \<Rightarrow> (int \<times> string) option"
  g_decode_message :: "string \<Rightarrow> message_reply option"
  g_decode_status :: "string \<Rightarrow> batch_status option"
  g_decode_line :: "string \<Rightarrow> result_line option"
  g_http_get :: "string \<Rightarrow> (int \<times> string) option"
  g_store :: bool
  g_put :: "string \<Rightarrow> string \<Rightarrow> bool"
  g_get :: "string \<Rightarrow> string option"
  g_text :: "digest_error \<Rightarrow> string"

record digest_summary =
  su_text :: string
  su_model :: string
  su_truncated :: bool

definition nl :: string where "nl = [CHR 0x0A]"

section \<open>The client of the summarising API\<close>

definition Configured :: "digest_env \<Rightarrow> bool" where
  "Configured e \<longleftrightarrow> g_api_key e \<noteq> ''''"

definition parseSummary :: "message_reply \<Rightarrow> digest_error + digest_summary" where
  "parseSummary out =
     (if mr_stop_reason out = ''refusal'' then Inl Refused
      else
       (let txt = concat (map snd (filter (\<lambda>c. fst c = ''text'') (mr_content out)))
        in if txt = '''' then Inl (NoText (mr_stop_reason out))
           else Inr \<lparr>su_text = txt, su_model = mr_model out, su_truncated = (mr_stop_reason out = ''max_tokens'')\<rparr>))"

definition Summarize :: "digest_env \<Rightarrow> string \<Rightarrow> string \<Rightarrow> digest_error + digest_summary" where
  "Summarize e system user =
     (if \<not> Configured e then Inl NotConfigured
      else
       (case g_do e (PostMessage system user) of
          None \<Rightarrow> Inl ApiTransport
        | Some (status, body) \<Rightarrow>
            if status \<noteq> 200 then Inl (ApiStatus status (trim_space (take 2048 body)))
            else (case g_decode_message e body of None \<Rightarrow> Inl ApiDecode | Some out \<Rightarrow> parseSummary out)))"

definition SubmitBatch :: "digest_env \<Rightarrow> string \<Rightarrow> string \<Rightarrow> string \<Rightarrow> digest_error + string" where
  "SubmitBatch e system user customID =
     (if \<not> Configured e then Inl NotConfigured
      else
       (case g_do e (PostBatch system user customID) of
          None \<Rightarrow> Inl ApiTransport
        | Some (status, body) \<Rightarrow>
            if status \<noteq> 200 then Inl (ApiStatus status (trim_space (take 2048 body)))
            else
             (case g_decode_status e body of
                None \<Rightarrow> Inl ApiDecode
              | Some out \<Rightarrow> if bs_id out = '''' then Inl NoBatchId else Inr (bs_id out))))"

datatype batch_outcome = BatchProcessing | BatchSucceeded digest_summary | BatchFailed string

text \<open>The scanner stops with an error at a line of 4 MiB or more.\<close>

definition maxLineBytes :: nat where "maxLineBytes = 4 * 1024 * 1024"

fun scan_results ::
  "digest_env \<Rightarrow> string \<Rightarrow> string \<Rightarrow> string list \<Rightarrow> digest_error + batch_outcome" where
  "scan_results e batchID customID [] =
     Inr (BatchFailed (''no result for custom_id \"'' @ customID @ ''\" in batch '' @ batchID))"
| "scan_results e batchID customID (raw # lines) =
     (if maxLineBytes \<le> length raw then Inl LineTooLong
      else
       (let line = trim_space raw
        in if line = '''' then scan_results e batchID customID lines
           else
            (case g_decode_line e line of
               None \<Rightarrow> Inl ApiDecode
             | Some rl \<Rightarrow>
                 if rl_custom_id rl \<noteq> customID then scan_results e batchID customID lines
                 else if rl_type rl \<noteq> ''succeeded'' then Inr (BatchFailed (''batch request '' @ rl_type rl))
                 else
                  (case rl_message rl of
                     None \<Rightarrow> Inr (BatchFailed ''succeeded result carried no message'')
                   | Some msg \<Rightarrow>
                      (case parseSummary msg of
                         Inl err \<Rightarrow> Inr (BatchFailed (g_text e err))
                       | Inr s \<Rightarrow> Inr (BatchSucceeded s))))))"

definition CollectBatch :: "digest_env \<Rightarrow> string \<Rightarrow> string \<Rightarrow> digest_error + batch_outcome" where
  "CollectBatch e batchID customID =
     (if \<not> Configured e then Inl NotConfigured
      else
       (case g_do e (GetBatch batchID) of
          None \<Rightarrow> Inl ApiTransport
        | Some (status, body) \<Rightarrow>
            if status = 404 then Inr (BatchFailed (''batch '' @ batchID @ '' not found (status 404)''))
            else if status \<noteq> 200 then Inl (ApiStatus status (trim_space (take 2048 body)))
            else
             (case g_decode_status e body of
                None \<Rightarrow> Inl ApiDecode
              | Some st \<Rightarrow>
                  if bs_processing_status st \<noteq> ''ended'' then Inr BatchProcessing
                  else if bs_results_url st = '''' then Inr (BatchFailed ''batch ended with no results_url'')
                  else
                   (case g_do e (GetResults (bs_results_url st)) of
                      None \<Rightarrow> Inl ApiTransport
                    | Some (rstatus, rbody) \<Rightarrow>
                        if rstatus \<noteq> 200 then Inl (ApiStatus rstatus (trim_space (take 2048 rbody)))
                        else scan_results e batchID customID (split_at (\<lambda>c. c = CHR 0x0A) rbody)))))"

section \<open>Fetching the sources\<close>

record source_row =
  src_id :: nat
  src_name :: string
  src_url :: string
  src_type :: string
  src_active :: bool

record source_input =
  si_name :: string
  si_url :: string
  si_type :: string

definition ActiveSourceInputs :: "source_row list \<Rightarrow> source_input list" where
  "ActiveSourceInputs rows =
     map (\<lambda>s. \<lparr>si_name = src_name s, si_url = src_url s, si_type = src_type s\<rparr>)
       (sort_key src_id (filter src_active rows))"

definition maxSourceBytes :: nat where "maxSourceBytes = 200 * 1024"

definition Fetch :: "digest_env \<Rightarrow> string \<Rightarrow> digest_error + string" where
  "Fetch e url =
     (case g_http_get e url of
        None \<Rightarrow> Inl FetchTransport
      | Some (status, body) \<Rightarrow>
          if status < 200 \<or> 300 \<le> status then Inl (FetchStatus status)
          else Inr (trim_space (take maxSourceBytes body)))"

definition SourceSection :: "string \<Rightarrow> string \<Rightarrow> string \<Rightarrow> string \<Rightarrow> string" where
  "SourceSection name typ url content =
     ''## Source: '' @ name @ '' ('' @ typ @ '', '' @ url @ '')'' @ nl @ nl @ content @ nl @ nl"

fun document_parts :: "digest_env \<Rightarrow> source_input list \<Rightarrow> string \<times> nat \<times> string list" where
  "document_parts e [] = ('''', 0, [])"
| "document_parts e (s # ss) =
     (let (doc, fetched, failures) = document_parts e ss
      in case Fetch e (si_url s) of
           Inl err \<Rightarrow>
             (doc, fetched, (''- '' @ si_name s @ '' ('' @ si_url s @ ''): '' @ g_text e err) # failures)
         | Inr content \<Rightarrow>
             (SourceSection (si_name s) (si_type s) (si_url s) content @ doc, Suc fetched, failures))"

definition buildDocument :: "digest_env \<Rightarrow> source_input list \<Rightarrow> string \<times> nat \<times> string list" where
  "buildDocument e sources =
     (let (doc, fetched, failures) = document_parts e sources
      in (if failures \<noteq> []
          then doc @ ''## Sources that could not be fetched'' @ nl @ nl @ join nl failures @ nl
          else doc, fetched, failures))"
section \<open>The monolithic build\<close>

definition systemPrompt :: string where
  "systemPrompt = ''You are a concise briefing writer. You are given the raw '' @
     ''contents of several public sources. Produce a single well-structured Markdown '' @
     ''digest of what is notable across them today: group by source with short '' @
     ''headings, use bullet points, keep it skimmable, and do not invent facts that '' @
     ''are not present in the provided material.''"

definition failed_result :: "digest_env \<Rightarrow> instant \<Rightarrow> digest_error \<Rightarrow> digest_result" where
  "failed_result e date err =
     \<lparr>dr_date = format_date (normalizeDate date), dr_status = DigestFailed, dr_content = '''',
      dr_model = '''', dr_batch_id = '''', dr_error = g_text e err\<rparr>"

definition completed_result :: "instant \<Rightarrow> digest_summary \<Rightarrow> digest_result" where
  "completed_result date s =
     \<lparr>dr_date = format_date (normalizeDate date), dr_status = DigestCompleted, dr_content = su_text s,
      dr_model = su_model s, dr_batch_id = '''', dr_error = ''''\<rparr>"

definition pending_result :: "digest_env \<Rightarrow> instant \<Rightarrow> string \<Rightarrow> digest_result" where
  "pending_result e date batchID =
     \<lparr>dr_date = format_date (normalizeDate date), dr_status = DigestPending, dr_content = '''',
      dr_model = g_model e, dr_batch_id = batchID, dr_error = ''''\<rparr>"

definition Build ::
  "digest_env \<Rightarrow> instant \<Rightarrow> source_input list \<Rightarrow> digest_result option \<times> digest_error option" where
  "Build e date sources =
     (if \<not> Configured e then (None, Some NotConfigured)
      else
       (let (doc, fetched, failures) = buildDocument e sources
        in if fetched = 0
           then (let runErr = AllFailed (length sources) in (Some (failed_result e date runErr), Some runErr))
           else
            (case Summarize e systemPrompt doc of
               Inl err \<Rightarrow> (Some (failed_result e date err), Some err)
             | Inr s \<Rightarrow> (Some (completed_result date s), None))))"

definition Submit ::
  "digest_env \<Rightarrow> instant \<Rightarrow> source_input list \<Rightarrow> digest_result option \<times> digest_error option" where
  "Submit e date sources =
     (if \<not> Configured e then (None, Some NotConfigured)
      else
       (let (doc, fetched, failures) = buildDocument e sources
        in if fetched = 0
           then (let runErr = AllFailed (length sources) in (Some (failed_result e date runErr), Some runErr))
           else
            (case SubmitBatch e systemPrompt doc (format_date (normalizeDate date)) of
               Inl err \<Rightarrow> (Some (failed_result e date err), Some err)
             | Inr batchID \<Rightarrow> (Some (pending_result e date batchID), None))))"

definition SubmitAssembled ::
  "digest_env \<Rightarrow> instant \<Rightarrow> string \<Rightarrow> digest_result option \<times> digest_error option" where
  "SubmitAssembled e date doc =
     (if \<not> Configured e then (None, Some NotConfigured)
      else if trim_space doc = '''' then (Some (failed_result e date EmptyDoc), Some EmptyDoc)
      else
       (case SubmitBatch e systemPrompt doc (format_date (normalizeDate date)) of
          Inl err \<Rightarrow> (Some (failed_result e date err), Some err)
        | Inr batchID \<Rightarrow> (Some (pending_result e date batchID), None)))"

definition BuildAssembled ::
  "digest_env \<Rightarrow> instant \<Rightarrow> string \<Rightarrow> digest_result option \<times> digest_error option" where
  "BuildAssembled e date doc =
     (if \<not> Configured e then (None, Some NotConfigured)
      else if trim_space doc = '''' then (Some (failed_result e date EmptyDoc), Some EmptyDoc)
      else
       (case Summarize e systemPrompt doc of
          Inl err \<Rightarrow> (Some (failed_result e date err), Some err)
        | Inr s \<Rightarrow> (Some (completed_result date s), None)))"

text \<open>A result is persisted before the build's own error is reported.\<close>

definition persist_result ::
  "instant \<Rightarrow> digest_result option \<times> digest_error option \<Rightarrow> digest_row list
     \<Rightarrow> digest_error option \<times> digest_row list" where
  "persist_result now r ds =
     (case fst r of
        None \<Rightarrow> (snd r, ds)
      | Some res \<Rightarrow>
         (case Persist now res ds of
            None \<Rightarrow> (Some (PersistFailed (dr_date res)), ds) | Some ds1 \<Rightarrow> (snd r, ds1)))"

definition Run ::
  "digest_env \<Rightarrow> instant \<Rightarrow> instant \<Rightarrow> source_row list \<Rightarrow> digest_row list
     \<Rightarrow> digest_error option \<times> digest_row list" where
  "Run e now date srcs ds =
     (if \<not> Configured e then (Some NotConfigured, ds)
      else
       (let sources = ActiveSourceInputs srcs
        in if sources = [] then (None, ds)
           else persist_result now (Build e date sources) ds))"

section \<open>The two stages\<close>

definition ArtifactInlineMaxBytes :: nat where "ArtifactInlineMaxBytes = 256 * 1024"
definition artifactTTL :: duration where "artifactTTL = 7 * 24 * hour_ns"
definition scrapeLabelPrefix :: string where "scrapeLabelPrefix = ''source:''"
definition artifactS3Prefix :: string where "artifactS3Prefix = ''digest-artifacts/''"

definition sanitizeLabel :: "string \<Rightarrow> string" where
  "sanitizeLabel label = map (\<lambda>c. if c = CHR '':'' \<or> c = CHR '' '' \<or> c = CHR ''/'' then CHR ''-'' else c) label"

definition source_artifact :: "artifact \<Rightarrow> bool" where
  "source_artifact a \<longleftrightarrow> prefix scrapeLabelPrefix (a_label a) \<and> a_status a = Pending"

definition writeArtifact ::
  "digest_env \<Rightarrow> nat \<Rightarrow> nat \<Rightarrow> string \<Rightarrow> string \<Rightarrow> instant \<Rightarrow> artifact list \<Rightarrow> digest_error + artifact list" where
  "writeArtifact e jobID runID label content expires as =
     (let a = \<lparr>a_id = fresh_id (map a_id as), a_job = jobID, a_produced_by = runID, a_consumed_by = None,
               a_label = label, a_storage = Inline, a_content = content, a_s3_key = '''',
               a_content_type = ''text/markdown'', a_size_bytes = int (length content), a_status = Pending,
               a_claimed_by = '''', a_claimed_at = None, a_expires_at = Some expires\<rparr>
      in if length content \<le> ArtifactInlineMaxBytes then Inr (as @ [a])
         else if \<not> g_store e then Inl (NoStore label (length content))
         else
          (let key = artifactS3Prefix @ itoa_nat runID @ ''-'' @ sanitizeLabel label @ ''.md''
           in if \<not> g_put e key content then Inl StoreFailed
              else Inr (as @ [a\<lparr>a_storage := S3, a_content := '''', a_s3_key := key\<rparr>])))"

fun write_artifacts ::
  "digest_env \<Rightarrow> nat \<Rightarrow> nat \<Rightarrow> (string \<times> string) list \<Rightarrow> instant \<Rightarrow> artifact list \<Rightarrow> digest_error + artifact list" where
  "write_artifacts e jobID runID [] expires as = Inr as"
| "write_artifacts e jobID runID ((label, content) # secs) expires as =
     (case writeArtifact e jobID runID label content expires as of
        Inl err \<Rightarrow> Inl err | Inr as1 \<Rightarrow> write_artifacts e jobID runID secs expires as1)"

fun scrape_sections :: "digest_env \<Rightarrow> source_input list \<Rightarrow> (string \<times> string) list" where
  "scrape_sections e [] = []"
| "scrape_sections e (s # ss) =
     (case Fetch e (si_url s) of
        Inl _ \<Rightarrow> scrape_sections e ss
      | Inr content \<Rightarrow>
          (scrapeLabelPrefix @ si_name s, SourceSection (si_name s) (si_type s) (si_url s) content)
            # scrape_sections e ss)"

definition run_job :: "jobs_db \<Rightarrow> nat \<Rightarrow> sched_job option" where
  "run_job db runID =
     (case find (\<lambda>r. r_id r = runID) (d_runs db) of None \<Rightarrow> None | Some r \<Rightarrow> job_of db (r_job r))"

definition ScrapeStage ::
  "digest_env \<Rightarrow> nat \<Rightarrow> instant \<Rightarrow> source_row list \<Rightarrow> jobs_db \<Rightarrow> digest_error option \<times> jobs_db" where
  "ScrapeStage e runID now srcs db =
     (case run_job db runID of None \<Rightarrow> (Some (NoRun runID), db)
      | Some job \<Rightarrow>
        (let sources = ActiveSourceInputs srcs
         in if sources = [] then (None, db)
            else
             (let sections = scrape_sections e sources
              in if sections = [] then (Some (AllFailed (length sources)), db)
                 else
                  (let kept = filter (\<lambda>a. \<not> (a_produced_by a = runID \<and> source_artifact a)) (d_artifacts db)
                   in case write_artifacts e (j_id job) runID sections (now + artifactTTL) kept of
                        Inl err \<Rightarrow> (Some err, db)
                      | Inr as \<Rightarrow> (None, db\<lparr>d_artifacts := as\<rparr>)))))"

fun assemble_text :: "digest_env \<Rightarrow> artifact list \<Rightarrow> digest_error + string" where
  "assemble_text e [] = Inr ''''"
| "assemble_text e (a # as) =
     (case (case a_storage a of
              Inline \<Rightarrow> Inr (a_content a)
            | S3 \<Rightarrow> if \<not> g_store e then Inl (NoStore (a_label a) (a_id a))
                    else (case g_get e (a_s3_key a) of None \<Rightarrow> Inl StoreFailed | Some c \<Rightarrow> Inr c)) of
        Inl err \<Rightarrow> Inl err
      | Inr content \<Rightarrow>
         (case assemble_text e as of
            Inl err \<Rightarrow> Inl err
          | Inr doc \<Rightarrow> Inr (content @ (if suffix nl content then '''' else nl @ nl) @ doc)))"

definition AssembleFromArtifacts :: "digest_env \<Rightarrow> jobs_db \<Rightarrow> digest_error + string \<times> nat list" where
  "AssembleFromArtifacts e db =
     (case last_by a_id (filter source_artifact (d_artifacts db)) of
        None \<Rightarrow> Inr ('''', [])
      | Some newest \<Rightarrow>
         if \<not> (\<exists>r \<in> set (d_runs db). r_id r = a_produced_by newest) then Inl (NoProducer (a_id newest))
         else
          (let as = sort_key a_id (filter (\<lambda>a. source_artifact a \<and> a_produced_by a = a_produced_by newest) (d_artifacts db))
           in case assemble_text e as of Inl err \<Rightarrow> Inl err | Inr doc \<Rightarrow> Inr (doc, map a_id as)))"

definition MarkConsumed :: "nat list \<Rightarrow> nat \<Rightarrow> jobs_db \<Rightarrow> jobs_db" where
  "MarkConsumed ids runID db =
     (if ids = [] then db
      else db\<lparr>d_artifacts := update_where (\<lambda>a. a_id a \<in> set ids)
                (\<lambda>a. a\<lparr>a_status := Done, a_consumed_by := Some runID\<rparr>) (d_artifacts db)\<rparr>)"

definition LlmLocal ::
  "digest_env \<Rightarrow> nat \<Rightarrow> instant \<Rightarrow> instant \<Rightarrow> jobs_db \<times> digest_row list
     \<Rightarrow> digest_error option \<times> (jobs_db \<times> digest_row list)" where
  "LlmLocal e runID now date st =
     (if \<not> Configured e then (Some NotConfigured, st)
      else
       (case AssembleFromArtifacts e (fst st) of
          Inl err \<Rightarrow> (Some err, st)
        | Inr (doc, ids) \<Rightarrow>
            if ids = [] then (None, st)
            else
             (case persist_result now (BuildAssembled e date doc) (snd st) of
                (Some err, ds) \<Rightarrow> (Some err, (fst st, ds))
              | (None, ds) \<Rightarrow> (None, (MarkConsumed ids runID (fst st), ds)))))"

section \<open>Collecting batches\<close>

text \<open>One pending row: the batch is polled with the row's day as its request id.\<close>

definition fail_pending :: "string \<Rightarrow> digest_row \<Rightarrow> digest_row" where
  "fail_pending reason d = d\<lparr>dg_status := DigestFailed, dg_error := reason, dg_batch_id := ''''\<rparr>"

definition collect_one :: "digest_env \<Rightarrow> instant \<Rightarrow> digest_row list \<Rightarrow> digest_row \<Rightarrow> digest_row list" where
  "collect_one e now ds d =
     (let day = format_date (dg_date d)
      in case CollectBatch e (dg_batch_id d) day of
           Inl _ \<Rightarrow> ds
         | Inr BatchProcessing \<Rightarrow> ds
         | Inr (BatchSucceeded s) \<Rightarrow>
             (case Persist now \<lparr>dr_date = day, dr_status = DigestCompleted, dr_content = su_text s,
                      dr_model = su_model s, dr_batch_id = '''', dr_error = ''''\<rparr> ds of
                None \<Rightarrow> ds | Some ds1 \<Rightarrow> ds1)
         | Inr (BatchFailed reason) \<Rightarrow>
             update_where (\<lambda>x. dg_date x = dg_date d \<and> dg_status x = DigestPending) (fail_pending reason) ds)"

definition in_flight :: "digest_row \<Rightarrow> bool" where
  "in_flight d \<longleftrightarrow> dg_status d = DigestPending \<and> dg_batch_id d \<noteq> ''''"

definition Collect :: "digest_env \<Rightarrow> instant \<Rightarrow> digest_row list \<Rightarrow> digest_row list" where
  "Collect e now ds =
     (if \<not> Configured e then ds else foldl (collect_one e now) ds (filter in_flight ds))"

section \<open>The worker's handlers\<close>

text \<open>The off-box paths: \<open>task\<close> is what the launched task did, the error of its exit and the result it left
  in object storage, if any.\<close>

definition runDigestFargate ::
  "(source_input list \<Rightarrow> digest_error option \<times> digest_result option) \<Rightarrow> instant \<Rightarrow> source_row list
     \<Rightarrow> digest_row list \<Rightarrow> digest_error option \<times> digest_row list" where
  "runDigestFargate task now srcs ds =
     (let sources = ActiveSourceInputs srcs
      in if sources = [] then (None, ds)
         else
          (case task sources of
             (Some runErr, result) \<Rightarrow>
               (Some runErr, (case result of None \<Rightarrow> ds
                              | Some r \<Rightarrow> (case Persist now r ds of None \<Rightarrow> ds | Some ds1 \<Rightarrow> ds1)))
           | (None, None) \<Rightarrow> (Some NoResult, ds)
           | (None, Some r) \<Rightarrow>
               (case Persist now r ds of None \<Rightarrow> (Some (PersistFailed (dr_date r)), ds) | Some ds1 \<Rightarrow> (None, ds1))))"

definition runDigestLlmFargate ::
  "digest_env \<Rightarrow> (string \<Rightarrow> digest_error option \<times> digest_result option) \<Rightarrow> nat \<Rightarrow> instant \<Rightarrow> jobs_db \<times> digest_row list
     \<Rightarrow> digest_error option \<times> (jobs_db \<times> digest_row list)" where
  "runDigestLlmFargate e task runID now st =
     (case AssembleFromArtifacts e (fst st) of
        Inl err \<Rightarrow> (Some err, st)
      | Inr (doc, ids) \<Rightarrow>
          if ids = [] then (None, st)
          else if \<not> g_put e ''doc'' doc then (Some StoreFailed, st)
          else
           (case task doc of
              (Some runErr, result) \<Rightarrow>
                (Some runErr, (fst st, (case result of None \<Rightarrow> snd st
                               | Some r \<Rightarrow> (case Persist now r (snd st) of None \<Rightarrow> snd st | Some ds1 \<Rightarrow> ds1))))
            | (None, None) \<Rightarrow> (Some NoResult, st)
            | (None, Some r) \<Rightarrow>
                (case Persist now r (snd st) of
                   None \<Rightarrow> (Some (PersistFailed (dr_date r)), st)
                 | Some ds1 \<Rightarrow> (None, (MarkConsumed ids runID (fst st), ds1)))))"

record digest_mode =
  dm_fargate :: bool
  dm_launcher :: bool

definition ack_unconfigured :: "digest_error option \<times> 'a \<Rightarrow> digest_error option \<times> 'a" where
  "ack_unconfigured r = (if fst r = Some NotConfigured then (None, snd r) else r)"

definition handleDigestScrape ::
  "digest_env \<Rightarrow> nat \<Rightarrow> instant \<Rightarrow> source_row list \<Rightarrow> jobs_db \<Rightarrow> digest_error option \<times> jobs_db" where
  "handleDigestScrape e runID now srcs db =
     (if runID = 0 then (Some NeedsRunId, db) else ScrapeStage e runID now srcs db)"

definition handleDigestLlm ::
  "digest_env \<Rightarrow> digest_mode \<Rightarrow> (string \<Rightarrow> digest_error option \<times> digest_result option) \<Rightarrow> nat \<Rightarrow> instant
     \<Rightarrow> jobs_db \<times> digest_row list \<Rightarrow> digest_error option \<times> (jobs_db \<times> digest_row list)" where
  "handleDigestLlm e mode task runID now st =
     (if runID = 0 then (Some NeedsRunId, st)
      else
       (case find (\<lambda>r. r_id r = runID) (d_runs (fst st)) of
          None \<Rightarrow> (Some (NoRun runID), st)
        | Some run \<Rightarrow>
           (let day = normalizeDate (r_scheduled_for run);
                external = (case job_of (fst st) (r_job run) of None \<Rightarrow> False | Some j \<Rightarrow> j_runner j \<noteq> RunnerServer)
            in if external then (None, st)
               else if dm_fargate mode
               then (if \<not> dm_launcher mode then (None, st) else runDigestLlmFargate e task runID now st)
               else ack_unconfigured (LlmLocal e runID now day st))))"

definition handleDigestBuild ::
  "digest_env \<Rightarrow> digest_mode \<Rightarrow> (source_input list \<Rightarrow> digest_error option \<times> digest_result option)
     \<Rightarrow> string option \<Rightarrow> instant \<Rightarrow> source_row list \<Rightarrow> digest_row list \<Rightarrow> digest_error option \<times> digest_row list" where
  "handleDigestBuild e mode task payload_date now srcs ds =
     (case payload_date of None \<Rightarrow> (None, ds)
      | Some s \<Rightarrow>
        (case DigestParseDate now s of None \<Rightarrow> (None, ds)
         | Some date \<Rightarrow>
             if dm_fargate mode
             then (if \<not> dm_launcher mode then (None, ds) else runDigestFargate task now srcs ds)
             else ack_unconfigured (Run e now date srcs ds)))"

definition handleDigestCollect :: "digest_env \<Rightarrow> instant \<Rightarrow> digest_row list \<Rightarrow> digest_row list" where
  "handleDigestCollect e now ds = Collect e now ds"

text \<open>The launched task: its exit error and the result object it leaves.\<close>

datatype task_input = DocKey string | Sources "source_input list"

definition buildResult ::
  "digest_env \<Rightarrow> task_input \<Rightarrow> instant \<Rightarrow> digest_result option \<times> digest_error option" where
  "buildResult e inp date =
     (case inp of
        DocKey k \<Rightarrow> (case g_get e k of None \<Rightarrow> (None, Some StoreFailed) | Some doc \<Rightarrow> SubmitAssembled e date doc)
      | Sources ss \<Rightarrow> (if ss = [] then (None, None) else Submit e date ss))"

definition digest_task ::
  "digest_env \<Rightarrow> bool \<Rightarrow> instant \<Rightarrow> task_input \<Rightarrow> digest_error option \<times> digest_result option" where
  "digest_task e put_ok date inp =
     (let (result, buildErr) = buildResult e inp date
      in if buildErr = Some NotConfigured then (None, None)
         else
          (case result of
             None \<Rightarrow> (buildErr, None)
           | Some r \<Rightarrow> if \<not> put_ok then (Some StoreFailed, None) else (buildErr, Some r)))"

section \<open>What a scrape writes\<close>

text \<open>The row a section becomes.\<close>

definition scraped_as :: "nat \<Rightarrow> nat \<Rightarrow> instant \<Rightarrow> string \<times> string \<Rightarrow> artifact \<Rightarrow> bool" where
  "scraped_as jobID runID expires sec a \<longleftrightarrow>
     a_job a = jobID \<and> a_produced_by a = runID \<and> a_label a = fst sec \<and> a_status a = Pending \<and>
     a_expires_at a = Some expires \<and> a_consumed_by a = None \<and> a_size_bytes a = int (length (snd sec)) \<and>
     (if length (snd sec) \<le> ArtifactInlineMaxBytes then a_storage a = Inline \<and> a_content a = snd sec
      else a_storage a = S3 \<and> a_s3_key a = artifactS3Prefix @ itoa_nat runID @ ''-'' @ sanitizeLabel (fst sec) @ ''.md'')"

lemma less_fresh_id: "i \<in> set ids \<Longrightarrow> i < fresh_id ids"
  using foldr_max_ge [of i ids] by (simp add: fresh_id_def)

lemma write_artifact_row:
  assumes "writeArtifact e j i label content ex as = Inr as'"
  shows "\<exists>a. as' = as @ [a] \<and> a_id a = fresh_id (map a_id as) \<and> scraped_as j i ex (label, content) a"
  using assms by (auto simp: writeArtifact_def Let_def scraped_as_def split: if_splits)

lemma write_artifacts_rows:
  "write_artifacts e j i secs ex as = Inr as' \<Longrightarrow>
     \<exists>ext. as' = as @ ext \<and> list_all2 (scraped_as j i ex) secs ext \<and> sorted_wrt (<) (map a_id ext) \<and>
       (\<forall>a \<in> set as. \<forall>x \<in> set ext. a_id a < a_id x)"
proof (induction e j i secs ex as rule: write_artifacts.induct)
  case (2 e j i label content secs ex as)
  then obtain as1 where as1: "writeArtifact e j i label content ex as = Inr as1"
    "write_artifacts e j i secs ex as1 = Inr as'"
    by (auto split: sum.splits)
  obtain a where a: "as1 = as @ [a]" "a_id a = fresh_id (map a_id as)" "scraped_as j i ex (label, content) a"
    using write_artifact_row [OF as1(1)] by blast
  obtain ext where ext: "as' = as1 @ ext" "list_all2 (scraped_as j i ex) secs ext" "sorted_wrt (<) (map a_id ext)"
    "\<forall>a \<in> set as1. \<forall>x \<in> set ext. a_id a < a_id x"
    using "2.IH" [OF as1] by blast
  have "a_id x < a_id a" if "x \<in> set as" for x
    unfolding a(2) by (rule less_fresh_id) (use that in simp)
  with a ext show ?case by (intro exI [of _ "a # ext"]) auto
qed simp

lemma write_artifacts_inline:
  "(\<And>s. s \<in> set secs \<Longrightarrow> length (snd s) \<le> ArtifactInlineMaxBytes) \<Longrightarrow> \<exists>as'. write_artifacts e j i secs ex as = Inr as'"
  by (induction e j i secs ex as rule: write_artifacts.induct) (fastforce simp: writeArtifact_def Let_def)+

lemma trim_space_length: "length (trim_space s) \<le> length s"
proof -
  have "length (trim_right t) \<le> length t" for t
    by (metis trim_right_def length_dropWhile_le length_rev)
  then show ?thesis unfolding trim_space_def by (meson length_dropWhile_le le_trans)
qed

lemma Fetch_length: "Fetch e url = Inr c \<Longrightarrow> length c \<le> maxSourceBytes"
  by (auto simp: Fetch_def split: option.splits if_splits intro!: order_trans [OF trim_space_length])

text \<open>Every section fits inline: the fetcher's cap, and the widths of the name, address and type columns.\<close>

definition source_ok :: "source_row \<Rightarrow> bool" where
  "source_ok s \<longleftrightarrow> length (src_name s) \<le> 120 \<and> length (src_url s) \<le> 2048 \<and> src_type s \<in> {''rss'', ''web''}"

lemma active_input:
  assumes "s \<in> set (ActiveSourceInputs srcs)"
  shows "\<exists>r \<in> set srcs. src_active r \<and> si_name s = src_name r \<and> si_url s = src_url r \<and> si_type s = src_type r"
  using assms by (auto simp: ActiveSourceInputs_def)

lemma section_bound:
  assumes "Fetch e url = Inr c" "length name \<le> 120" "length url \<le> 2048" "length typ \<le> 3"
  shows "length (SourceSection name typ url c) \<le> ArtifactInlineMaxBytes"
  using Fetch_length [OF assms(1)] assms(2-4)
  by (simp add: SourceSection_def nl_def ArtifactInlineMaxBytes_def maxSourceBytes_def)

lemma sections_inline:
  assumes "\<And>s. s \<in> set ss \<Longrightarrow> length (si_name s) \<le> 120 \<and> length (si_url s) \<le> 2048 \<and> length (si_type s) \<le> 3"
    "x \<in> set (scrape_sections e ss)"
  shows "length (snd x) \<le> ArtifactInlineMaxBytes"
  using assms
proof (induction ss)
  case (Cons s ss)
  show ?case
  proof (cases "Fetch e (si_url s)")
    case (Inl err)
    then show ?thesis using Cons by auto
  next
    case (Inr c)
    then show ?thesis using Cons section_bound [OF Inr, of "si_name s" "si_type s"] by auto
  qed
qed simp

text \<open>The rows a scrape of the run replaces.\<close>

definition superseded :: "nat \<Rightarrow> artifact \<Rightarrow> bool" where
  "superseded runID a \<longleftrightarrow> a_produced_by a = runID \<and> source_artifact a"

lemma scrape_cases:
  assumes "ScrapeStage e i now srcs db = (err, db')"
  obtains x where "err = Some x" "db' = db"
  | "err = None" "ActiveSourceInputs srcs = []" "db' = db"
  | job as where "err = None" "ActiveSourceInputs srcs \<noteq> []" "run_job db i = Some job"
    "scrape_sections e (ActiveSourceInputs srcs) \<noteq> []"
    "write_artifacts e (j_id job) i (scrape_sections e (ActiveSourceInputs srcs)) (now + artifactTTL)
       (filter (\<lambda>a. \<not> superseded i a) (d_artifacts db)) = Inr as"
    "db' = db\<lparr>d_artifacts := as\<rparr>"
proof (cases "run_job db i")
  case None
  then show ?thesis using assms that(1) by (auto simp: ScrapeStage_def)
next
  case (Some job)
  let ?ss = "ActiveSourceInputs srcs"
  let ?w = "write_artifacts e (j_id job) i (scrape_sections e ?ss) (now + artifactTTL)
       (filter (\<lambda>a. \<not> superseded i a) (d_artifacts db))"
  have s: "ScrapeStage e i now srcs db =
      (if ?ss = [] then (None, db)
       else if scrape_sections e ?ss = [] then (Some (AllFailed (length ?ss)), db)
       else (case ?w of Inl err \<Rightarrow> (Some err, db) | Inr as \<Rightarrow> (None, db\<lparr>d_artifacts := as\<rparr>)))"
    by (simp add: ScrapeStage_def Some Let_def superseded_def)
  consider "?ss = []" | "?ss \<noteq> []" "scrape_sections e ?ss = []" | x where "?ss \<noteq> []" "scrape_sections e ?ss \<noteq> []" "?w = Inl x"
    | as where "?ss \<noteq> []" "scrape_sections e ?ss \<noteq> []" "?w = Inr as"
    by (cases ?w) blast+
  then show ?thesis
  proof cases
    case 1
    then show ?thesis using assms s that(2) by simp
  next
    case 2
    then show ?thesis using assms s that(1) by auto
  next
    case (3 x)
    then show ?thesis using assms s that(1) by auto
  next
    case (4 as)
    then show ?thesis using assms s that(3) [OF _ _ Some] by simp
  qed
qed

lemma section_labels: "x \<in> set (scrape_sections e ss) \<Longrightarrow> prefix scrapeLabelPrefix (fst x)"
  by (induction ss) (auto split: sum.splits)

lemma scraped_superseded:
  "list_all2 (scraped_as j i ex) (scrape_sections e ss) ext \<Longrightarrow> filter (superseded i) ext = ext"
proof -
  assume l: "list_all2 (scraped_as j i ex) (scrape_sections e ss) ext"
  have "superseded i a" if a: "a \<in> set ext" for a
  proof -
    obtain x where x: "x \<in> set (scrape_sections e ss)" "scraped_as j i ex x a"
      using list_all2_in' [OF l a] by blast
    show ?thesis using x(2) section_labels [OF x(1)] by (simp add: scraped_as_def superseded_def source_artifact_def)
  qed
  then show "filter (superseded i) ext = ext" by simp
qed

text \<open>The scrape stage is all or nothing and does not stack.  On an error, in particular when every
  fetch failed or a write did, the tables are as before.  Otherwise the run's still-pending source
  artifacts are replaced by one pending artifact per source that could be fetched, in the order of
  the sources, each with that source's section, owned by the run's own job; no other row moves.
  Every section is stored inline.  A repetition of the scrape for the same run leaves as many of its
  artifacts, with the same contents.\<close>

theorem scrape_exact:
  assumes "ScrapeStage e i now srcs db = (err, db')" "\<forall>s \<in> set srcs. source_ok s"
  shows "d_jobs db' = d_jobs db \<and> d_runs db' = d_runs db \<and> d_queue db' = d_queue db \<and>
    (err \<noteq> None \<or> ActiveSourceInputs srcs = [] \<longrightarrow> db' = db) \<and>
    (err = None \<and> ActiveSourceInputs srcs \<noteq> [] \<longrightarrow>
       (\<exists>job ext. run_job db i = Some job \<and> ext \<noteq> [] \<and>
          d_artifacts db' = filter (\<lambda>a. \<not> superseded i a) (d_artifacts db) @ ext \<and>
          map (\<lambda>a. (a_label a, a_content a)) ext = scrape_sections e (ActiveSourceInputs srcs) \<and>
          (\<forall>a \<in> set ext. superseded i a \<and> a_job a = j_id job \<and> a_storage a = Inline \<and>
             a_expires_at a = Some (now + artifactTTL)) \<and>
          filter (superseded i) (d_artifacts db') = ext)) \<and>
    (\<forall>now' db''. err = None \<longrightarrow> ScrapeStage e i now' srcs db' = (None, db'') \<longrightarrow>
       map (\<lambda>a. (a_label a, a_content a)) (filter (superseded i) (d_artifacts db'')) =
       map (\<lambda>a. (a_label a, a_content a)) (filter (superseded i) (d_artifacts db')))"
proof -
  let ?ss = "ActiveSourceInputs srcs"
  have fits: "length (snd x) \<le> ArtifactInlineMaxBytes" if "x \<in> set (scrape_sections e ?ss)" for x
    using assms(2) active_input by (intro sections_inline [OF _ that]) (fastforce simp: source_ok_def)
  have rows: "\<exists>ext. run_job d i = Some job \<and> ext \<noteq> [] \<and>
          d_artifacts d' = filter (\<lambda>a. \<not> superseded i a) (d_artifacts d) @ ext \<and>
          map (\<lambda>a. (a_label a, a_content a)) ext = scrape_sections e ?ss \<and>
          (\<forall>a \<in> set ext. superseded i a \<and> a_job a = j_id job \<and> a_storage a = Inline \<and>
             a_expires_at a = Some (t + artifactTTL)) \<and>
          filter (superseded i) (d_artifacts d') = ext"
    if d: "run_job d i = Some job" "scrape_sections e ?ss \<noteq> []" "d' = d\<lparr>d_artifacts := as\<rparr>"
      "write_artifacts e (j_id job) i (scrape_sections e ?ss) (t + artifactTTL)
        (filter (\<lambda>a. \<not> superseded i a) (d_artifacts d)) = Inr as" for d d' job as t
  proof -
    obtain ext where ext: "as = filter (\<lambda>a. \<not> superseded i a) (d_artifacts d) @ ext"
      "list_all2 (scraped_as (j_id job) i (t + artifactTTL)) (scrape_sections e ?ss) ext"
      using write_artifacts_rows [OF d(4)] by blast
    have s: "scraped_as (j_id job) i (t + artifactTTL) (scrape_sections e ?ss ! k) (ext ! k)"
      "length (snd (scrape_sections e ?ss ! k)) \<le> ArtifactInlineMaxBytes" if "k < length ext" for k
      using ext(2) that fits by (auto simp: list_all2_conv_all_nth)
    have len: "length ext = length (scrape_sections e ?ss)" using ext(2) by (simp add: list_all2_lengthD)
    have m: "map (\<lambda>a. (a_label a, a_content a)) ext = scrape_sections e ?ss"
      by (rule nth_equalityI) (use s len in \<open>auto simp: scraped_as_def prod_eq_iff\<close>)
    have own: "filter (superseded i) ext = ext" by (rule scraped_superseded [OF ext(2)])
    have "superseded i a \<and> a_job a = j_id job \<and> a_storage a = Inline \<and> a_expires_at a = Some (t + artifactTTL)"
      if "a \<in> set ext" for a
      using that own s by (auto simp: in_set_conv_nth scraped_as_def filter_id_conv)
    moreover have "filter (superseded i) (d_artifacts d') = ext" by (simp add: d(3) ext(1) own)
    moreover have "ext \<noteq> []" using len d(2) by auto
    ultimately show ?thesis using d(1,3) ext(1) m by (intro exI [of _ ext]) auto
  qed
  have again: "map (\<lambda>a. (a_label a, a_content a)) (filter (superseded i) (d_artifacts db'')) = scrape_sections e ?ss"
    if "ScrapeStage e i now' srcs d = (None, db'')" "?ss \<noteq> []" for now' d db''
  proof (cases rule: scrape_cases [OF that(1)])
    case (3 job as)
    then show ?thesis using rows [of d job db'' as now'] by auto
  qed (use that(2) in simp_all)
  show ?thesis
  proof (cases rule: scrape_cases [OF assms(1)])
    case (3 job as)
    then show ?thesis using rows [of db job db' as now] again assms(1) by auto
  next
    case 2
    then have "db'' = db'" if "ScrapeStage e i now' srcs db' = (None, db'')" for now' db''
      by (cases rule: scrape_cases [OF that]) (use 2 in simp_all)
    with 2 show ?thesis by auto
  qed auto
qed

section \<open>The two stages against the monolithic build\<close>

lemma document_all_fetched:
  "(\<And>s. s \<in> set ss \<Longrightarrow> \<exists>c. Fetch e (si_url s) = Inr c) \<Longrightarrow>
     document_parts e ss = (concat (map snd (scrape_sections e ss)), length ss, []) \<and>
     (ss \<noteq> [] \<longrightarrow> scrape_sections e ss \<noteq> [])"
proof (induction ss)
  case (Cons s ss)
  then obtain c where "Fetch e (si_url s) = Inr c" by auto
  with Cons show ?case by simp
qed simp

lemma section_ends: "x \<in> set (scrape_sections e ss) \<Longrightarrow> suffix nl (snd x)"
  by (induction ss) (auto split: sum.splits simp: SourceSection_def nl_def suffix_def)

lemma assemble_inline:
  "(\<And>a. a \<in> set as \<Longrightarrow> a_storage a = Inline \<and> suffix nl (a_content a)) \<Longrightarrow>
     assemble_text e as = Inr (concat (map a_content as))"
  by (induction as) auto

lemma assemble_own:
  assumes "d_artifacts db = old @ ext" "ext \<noteq> []" "filter (superseded i) old = []" "\<And>a. a \<in> set ext \<Longrightarrow> superseded i a"
    and "sorted_wrt (<) (map a_id ext)" "\<And>a x. a \<in> set old \<Longrightarrow> x \<in> set ext \<Longrightarrow> a_id a < a_id x"
    and "\<exists>r \<in> set (d_runs db). r_id r = i"
  shows "AssembleFromArtifacts e db =
    (case assemble_text e ext of Inl err \<Rightarrow> Inl err | Inr doc \<Rightarrow> Inr (doc, map a_id ext))"
proof -
  obtain n where n: "last_by a_id (filter source_artifact (d_artifacts db)) = Some n"
    using assms(1,2,4) by (cases "last_by a_id (filter source_artifact (d_artifacts db))")
      (auto simp: superseded_def filter_empty_conv neq_Nil_conv)
  have n': "n \<in> set (d_artifacts db)" "source_artifact n"
    "\<And>x. x \<in> set (d_artifacts db) \<Longrightarrow> source_artifact x \<Longrightarrow> a_id x \<le> a_id n"
    using last_by_Some [OF n] by auto
  obtain x where x: "x \<in> set ext" using assms(2) by (cases ext) auto
  have "n \<notin> set old"
  proof
    assume "n \<in> set old"
    then have "a_id n < a_id x" using assms(6) x by blast
    moreover have "a_id x \<le> a_id n" using n'(3) [of x] assms(1,4) x by (simp add: superseded_def)
    ultimately show False by simp
  qed
  then have p: "a_produced_by n = i" using n'(1) assms(1,4) by (auto simp: superseded_def)
  have "filter (\<lambda>a. source_artifact a \<and> a_produced_by a = i) (d_artifacts db) = ext"
    using assms(1,3,4) by (auto simp: superseded_def filter_empty_conv)
  moreover have "sort_key a_id ext = ext"
    using assms(5) by (intro sort_key_id_if_sorted) (simp add: strict_sorted_iff)
  ultimately show ?thesis using assms(7) by (simp add: AssembleFromArtifacts_def n p)
qed

lemma trim_space_first: "\<not> is_space c \<Longrightarrow> trim_space (c # s) \<noteq> ''''"
  by (simp add: trim_space_def trim_right_def dropWhile_eq_Nil_conv)

lemma document_not_blank:
  assumes "scrape_sections e ss \<noteq> []"
  shows "trim_space (concat (map snd (scrape_sections e ss))) \<noteq> ''''"
proof -
  have "\<exists>t. snd x = CHR ''#'' # t" if "x \<in> set (scrape_sections e ss)" for x
    using that by (induction ss) (auto split: sum.splits simp: SourceSection_def)
  moreover obtain x xs where "scrape_sections e ss = x # xs" using assms by (cases "scrape_sections e ss") auto
  ultimately obtain t where "concat (map snd (scrape_sections e ss)) = CHR ''#'' # t"
    by (metis append_Cons concat.simps(2) list.set_intros(1) list.simps(9))
  then show ?thesis using trim_space_first [of "CHR ''#''" t] by (simp add: is_space_def)
qed

lemma run_job_run: "run_job db i = Some job \<Longrightarrow> \<exists>r \<in> set (d_runs db). r_id r = i"
  unfolding run_job_def by (auto split: option.splits dest!: find_SomeD)

lemma sources_fetched:
  assumes "ActiveSourceInputs srcs \<noteq> []" "\<forall>s \<in> set srcs. src_active s \<longrightarrow> (\<exists>c. Fetch e (src_url s) = Inr c)"
  shows "document_parts e (ActiveSourceInputs srcs) =
      (concat (map snd (scrape_sections e (ActiveSourceInputs srcs))), length (ActiveSourceInputs srcs), [])"
    "scrape_sections e (ActiveSourceInputs srcs) \<noteq> []"
proof -
  have "\<exists>c. Fetch e (si_url s) = Inr c" if "s \<in> set (ActiveSourceInputs srcs)" for s
    using active_input [OF that] assms(2) by auto
  with document_all_fetched [of "ActiveSourceInputs srcs" e] assms(1)
  show "document_parts e (ActiveSourceInputs srcs) =
      (concat (map snd (scrape_sections e (ActiveSourceInputs srcs))), length (ActiveSourceInputs srcs), [])"
    "scrape_sections e (ActiveSourceInputs srcs) \<noteq> []" by blast+
qed

lemma staged_rows:
  assumes "run_job db i = Some job" "ActiveSourceInputs srcs \<noteq> []" "\<forall>s \<in> set srcs. source_ok s"
    and "\<forall>s \<in> set srcs. src_active s \<longrightarrow> (\<exists>c. Fetch e (src_url s) = Inr c)"
  obtains ext db1 where
    "ScrapeStage e i now srcs db = (None, db1)" "db1 = db\<lparr>d_artifacts := filter (\<lambda>a. \<not> superseded i a) (d_artifacts db) @ ext\<rparr>"
    "ext \<noteq> []" "\<forall>a \<in> set ext. superseded i a" "\<forall>a \<in> set (d_artifacts db). \<not> superseded i a \<longrightarrow> (\<forall>x \<in> set ext. a_id a < a_id x)"
    "AssembleFromArtifacts e db1 = Inr (concat (map snd (scrape_sections e (ActiveSourceInputs srcs))), map a_id ext)"
proof -
  let ?ss = "ActiveSourceInputs srcs"
  let ?secs = "scrape_sections e ?ss"
  let ?old = "filter (\<lambda>a. \<not> superseded i a) (d_artifacts db)"
  have ne: "?secs \<noteq> []" by (rule sources_fetched(2) [OF assms(2,4)])
  have fits: "length (snd x) \<le> ArtifactInlineMaxBytes" if "x \<in> set ?secs" for x
    using assms(3) active_input by (intro sections_inline [OF _ that]) (fastforce simp: source_ok_def)
  obtain as where as: "write_artifacts e (j_id job) i ?secs (now + artifactTTL) ?old = Inr as"
    using write_artifacts_inline fits by blast
  obtain ext where ext: "as = ?old @ ext" "list_all2 (scraped_as (j_id job) i (now + artifactTTL)) ?secs ext"
    "sorted_wrt (<) (map a_id ext)" "\<forall>a \<in> set ?old. \<forall>x \<in> set ext. a_id a < a_id x"
    using write_artifacts_rows [OF as] by blast
  let ?db1 = "db\<lparr>d_artifacts := ?old @ ext\<rparr>"
  have "ScrapeStage e i now srcs db = (None, ?db1)"
    using as assms(1,2) ne ext(1) by (simp add: ScrapeStage_def superseded_def)
  moreover have own: "\<forall>a \<in> set ext. superseded i a"
    using scraped_superseded [OF ext(2)] by (simp add: filter_id_conv)
  moreover have row: "a_content a = snd x \<and> a_storage a = Inline"
    if "x \<in> set ?secs" "scraped_as (j_id job) i (now + artifactTTL) x a" for x a
    using that fits [OF that(1)] by (simp add: scraped_as_def)
  have "map a_content ext = map snd ?secs"
    by (rule nth_equalityI) (use ext(2) row in \<open>auto simp: list_all2_conv_all_nth\<close>)
  moreover have "\<forall>a \<in> set ext. a_storage a = Inline \<and> suffix nl (a_content a)"
    using list_all2_in' [OF ext(2)] row section_ends by metis
  moreover have ext_ne: "ext \<noteq> []" using ext(2) ne by auto
  moreover have "AssembleFromArtifacts e ?db1 =
      (case assemble_text e ext of Inl err \<Rightarrow> Inl err | Inr doc \<Rightarrow> Inr (doc, map a_id ext))"
    using ext ext_ne own run_job_run [OF assms(1)] by (intro assemble_own [where old = ?old]) auto
  ultimately show thesis using ext(4) assemble_inline [of ext e] by (intro that [of ?db1 ext]) auto
qed


section \<open>What summarising consumes\<close>

lemma assemble_picks:
  assumes "AssembleFromArtifacts e db = Inr (doc, ids)" "ids \<noteq> []"
  shows "\<exists>p. (\<exists>r \<in> set (d_runs db). r_id r = p) \<and>
    ids = map a_id (sort_key a_id (filter (superseded p) (d_artifacts db))) \<and>
    (\<forall>a \<in> set (d_artifacts db). source_artifact a \<longrightarrow> (\<exists>i \<in> set ids. a_id a \<le> i))"
proof -
  obtain n where n: "last_by a_id (filter source_artifact (d_artifacts db)) = Some n"
    using assms by (cases "last_by a_id (filter source_artifact (d_artifacts db))") (auto simp: AssembleFromArtifacts_def)
  have n': "n \<in> set (d_artifacts db)" "source_artifact n"
    "\<forall>x \<in> set (d_artifacts db). source_artifact x \<longrightarrow> a_id x \<le> a_id n"
    using last_by_Some [OF n] by auto
  have "(\<lambda>a. source_artifact a \<and> a_produced_by a = a_produced_by n) = superseded (a_produced_by n)"
    by (auto simp: superseded_def)
  then have "(\<exists>r \<in> set (d_runs db). r_id r = a_produced_by n) \<and>
    ids = map a_id (sort_key a_id (filter (superseded (a_produced_by n)) (d_artifacts db)))"
    using assms(1) n by (auto simp: AssembleFromArtifacts_def Let_def split: if_splits sum.splits)
  moreover have "superseded (a_produced_by n) n" using n'(2) by (simp add: superseded_def)
  ultimately show ?thesis using n' by (intro exI [of _ "a_produced_by n"]) auto
qed

lemma build_assembled_date:
  "BuildAssembled e date doc = (Some r, err) \<Longrightarrow> dr_date r = format_date (normalizeDate date) \<and>
     (err = None \<longrightarrow> dr_status r = DigestCompleted)"
  by (auto simp: BuildAssembled_def failed_result_def completed_result_def split: if_splits sum.splits)

lemma build_assembled_none: "BuildAssembled e date doc = (None, err) \<Longrightarrow> err = Some NotConfigured"
  by (auto simp: BuildAssembled_def split: if_splits sum.splits)

lemma persist_result_cases:
  assumes "persist_result now r ds = (err, ds')"
  obtains "fst r = None" "err = snd r" "ds' = ds"
  | x where "fst r = Some x" "Persist now x ds = None" "err = Some (PersistFailed (dr_date x))" "ds' = ds"
  | x where "fst r = Some x" "Persist now x ds = Some ds'" "err = snd r"
  using assms that by (auto simp: persist_result_def split: option.splits)

text \<open>What a digest consumes is one scrape run's artifacts, that of the newest artifact.\<close>

lemma consumed_run:
  assumes "AssembleFromArtifacts e db = Inr (doc, ids)" "ids \<noteq> []"
  shows "\<exists>p. (\<exists>a \<in> set (d_artifacts db). superseded p a \<and>
      (\<forall>x \<in> set (d_artifacts db). source_artifact x \<longrightarrow> a_id x \<le> a_id a)) \<and>
    d_artifacts (MarkConsumed ids j db) = map (\<lambda>a. if a_id a \<in> a_id ` {x \<in> set (d_artifacts db). superseded p x}
      then a\<lparr>a_status := Done, a_consumed_by := Some j\<rparr> else a) (d_artifacts db)"
proof -
  obtain p where ids: "ids = map a_id (sort_key a_id (filter (superseded p) (d_artifacts db)))"
    "\<forall>a \<in> set (d_artifacts db). source_artifact a \<longrightarrow> (\<exists>i \<in> set ids. a_id a \<le> i)"
    using assemble_picks [OF assms] by blast
  have set: "set ids = a_id ` {x \<in> set (d_artifacts db). superseded p x}" by (simp add: ids(1))
  have "Max (set ids) \<in> set ids" using assms(2) by simp
  then obtain y where y: "y \<in> set (d_artifacts db)" "superseded p y" "a_id y = Max (set ids)" unfolding set by auto
  have "a_id x \<le> a_id y" if "x \<in> set (d_artifacts db)" "source_artifact x" for x
    using ids(2) that unfolding y(3) by (meson List.finite_set Max.coboundedI le_trans)
  with y(1,2) assms(2) show ?thesis
    by (intro exI [of _ p] conjI bexI [of _ y]) (auto simp: MarkConsumed_def update_where_def set)
qed

lemma digest_filed:
  assumes "persist_result now (BuildAssembled e date doc) ds = (err, ds')" "distinct (map dg_date ds)"
    and "0 \<le> year_of (day_of date)" "year_of (day_of date) < 10000"
  shows "distinct (map dg_date ds')" "\<forall>d. dg_date d \<noteq> normalizeDate date \<longrightarrow> (d \<in> set ds' \<longleftrightarrow> d \<in> set ds)"
    "\<forall>d \<in> set ds. dg_status d = DigestCompleted \<longrightarrow> (\<exists>d' \<in> set ds'. dg_date d' = dg_date d \<and> dg_status d' = DigestCompleted)"
    "err = None \<longrightarrow> (\<exists>d \<in> set ds'. dg_date d = normalizeDate date \<and> dg_status d = DigestCompleted)"
proof -
  have "distinct (map dg_date ds') \<and> (\<forall>d. dg_date d \<noteq> normalizeDate date \<longrightarrow> (d \<in> set ds' \<longleftrightarrow> d \<in> set ds)) \<and>
    (\<forall>d \<in> set ds. dg_status d = DigestCompleted \<longrightarrow> (\<exists>d' \<in> set ds'. dg_date d' = dg_date d \<and> dg_status d' = DigestCompleted)) \<and>
    (err = None \<longrightarrow> (\<exists>d \<in> set ds'. dg_date d = normalizeDate date \<and> dg_status d = DigestCompleted))"
    (is ?filed)
  proof (cases rule: persist_result_cases [OF assms(1)])
    case 1
    then have "err = Some NotConfigured" using build_assembled_none by (metis prod.collapse)
    with 1 assms(2) show ?thesis by auto
  next
    case (2 x)
    with assms(2) show ?thesis by auto
  next
    case (3 x)
    have x: "dr_date x = format_date (normalizeDate date)" "err = None \<longrightarrow> dr_status x = DigestCompleted"
      using build_assembled_date [of e date doc x "snd (BuildAssembled e date doc)"] 3(1,3) by (metis prod.collapse)+
    have "DigestParseDate now (dr_date x) = Some (normalizeDate date)" unfolding x(1) by (rule digest_day [OF assms(3,4)])
    note safe = Persist_safe [OF 3(2) this normalizeDate_idem]
    show ?thesis using safe assms(2) x(2) by blast
  qed
  then show "distinct (map dg_date ds')" "\<forall>d. dg_date d \<noteq> normalizeDate date \<longrightarrow> (d \<in> set ds' \<longleftrightarrow> d \<in> set ds)"
    "\<forall>d \<in> set ds. dg_status d = DigestCompleted \<longrightarrow> (\<exists>d' \<in> set ds'. dg_date d' = dg_date d \<and> dg_status d' = DigestCompleted)"
    "err = None \<longrightarrow> (\<exists>d \<in> set ds'. dg_date d = normalizeDate date \<and> dg_status d = DigestCompleted)" by blast+
qed


section \<open>What collecting does\<close>

text \<open>The outcome of one row.\<close>

definition collected :: "digest_env \<Rightarrow> digest_row \<Rightarrow> digest_row" where
  "collected e d =
     (if \<not> in_flight d then d
      else
       (case CollectBatch e (dg_batch_id d) (format_date (dg_date d)) of
          Inr (BatchSucceeded s) \<Rightarrow>
            \<lparr>dg_date = dg_date d, dg_status = DigestCompleted, dg_content = su_text s, dg_model = su_model s,
             dg_batch_id = '''', dg_error = ''''\<rparr>
        | Inr (BatchFailed reason) \<Rightarrow> fail_pending reason d
        | _ \<Rightarrow> d))"

lemma collected_date [simp]: "dg_date (collected e d) = dg_date d"
  by (auto simp: collected_def fail_pending_def split: sum.splits batch_outcome.splits)

lemma collected_done: "\<not> in_flight d \<Longrightarrow> collected e d = d"
  by (simp add: collected_def)

definition day_row :: "digest_row \<Rightarrow> bool" where
  "day_row d \<longleftrightarrow> normalizeDate (dg_date d) = dg_date d \<and> 0 \<le> year_of (day_of (dg_date d)) \<and> year_of (day_of (dg_date d)) < 10000"

lemma collect_one_row:
  assumes "d \<in> set ds" "in_flight d" "distinct (map dg_date ds)" "day_row d"
  shows "collect_one e now ds d = map (\<lambda>x. if x = d then collected e x else x) ds"
proof -
  have same: "x = d" if "x \<in> set ds" "dg_date x = dg_date d" for x
    using that assms(1,3) by (metis distinct_map inj_onD)
  have one: "update_where (\<lambda>x. dg_date x = dg_date d) f ds = map (\<lambda>x. if x = d then f d else x) ds" for f
    using same by (auto simp: update_where_def)
  have day: "DigestParseDate now (format_date (dg_date d)) = Some (dg_date d)"
    using digest_day [of "dg_date d" now] assms(4) by (simp add: day_row_def)
  consider "\<And>x. CollectBatch e (dg_batch_id d) (format_date (dg_date d)) \<noteq> Inr (BatchSucceeded x)"
      "\<And>x. CollectBatch e (dg_batch_id d) (format_date (dg_date d)) \<noteq> Inr (BatchFailed x)"
    | s where "CollectBatch e (dg_batch_id d) (format_date (dg_date d)) = Inr (BatchSucceeded s)"
    | r where "CollectBatch e (dg_batch_id d) (format_date (dg_date d)) = Inr (BatchFailed r)"
    by blast
  then show ?thesis
  proof cases
    case 1
    have "collect_one e now ds d = ds" "collected e d = d"
      using 1 assms(2) by (auto simp: collect_one_def collected_def Let_def split: sum.splits batch_outcome.splits)
    then show ?thesis by (auto intro: map_idI [symmetric])
  next
    case (2 s)
    have "dg_date d \<in> dg_date ` set ds" using assms(1) by simp
    then have "collect_one e now ds d = update_where (\<lambda>x. dg_date x = dg_date d)
        (\<lambda>_. \<lparr>dg_date = dg_date d, dg_status = DigestCompleted, dg_content = su_text s, dg_model = su_model s,
             dg_batch_id = '''', dg_error = ''''\<rparr>) ds"
      using 2 assms(4) by (simp add: collect_one_def Persist_def day day_row_def upsert_digest_def Let_def)
    also have "\<dots> = map (\<lambda>x. if x = d then collected e x else x) ds"
      using 2 assms(2) unfolding one by (auto simp: collected_def)
    finally show ?thesis .
  next
    case (3 r)
    have "collect_one e now ds d = update_where (\<lambda>x. dg_date x = dg_date d \<and> dg_status x = DigestPending) (fail_pending r) ds"
      using 3 by (simp add: collect_one_def)
    also have "\<dots> = map (\<lambda>x. if x = d then collected e x else x) ds"
      using 3 assms(2) same by (auto simp: collected_def update_where_def in_flight_def)
    finally show ?thesis .
  qed
qed

lemma collect_fold:
  assumes "set ps \<subseteq> set ds" "distinct (map dg_date ps)" "distinct (map dg_date ds)" "\<forall>d \<in> set ps. in_flight d \<and> day_row d"
  shows "foldl (collect_one e now) ds ps = map (\<lambda>x. if x \<in> set ps then collected e x else x) ds"
  using assms
proof (induction ps arbitrary: ds)
  case (Cons p ps)
  let ?d1 = "map (\<lambda>x. if x = p then collected e x else x) ds"
  have step: "collect_one e now ds p = ?d1" using Cons.prems by (intro collect_one_row) auto
  have p: "p \<notin> set ps" "collected e p \<notin> set ps"
    using Cons.prems(2) collected_date [of e p] by (auto simp: image_iff)
  have dates: "map dg_date ?d1 = map dg_date ds" by simp
  have "foldl (collect_one e now) ?d1 ps = map (\<lambda>x. if x \<in> set ps then collected e x else x) ?d1"
  proof (rule Cons.IH)
    show "distinct (map dg_date ?d1)" unfolding dates by (rule Cons.prems(3))
  qed (use Cons.prems p in \<open>auto simp: image_iff split: if_splits\<close>)
  also have "\<dots> = map (\<lambda>x. if x \<in> set (p # ps) then collected e x else x) ds"
    using p by auto
  finally show ?case by (simp add: step)
qed simp

text \<open>Collecting settles each pending day by its own batch.  Every row whose batch is in flight ends
  completed with the batch's summary, or failed with its reason, or, when the batch is still
  processing or the poll fails in transit, unchanged; every other row is unchanged.  A settled row is
  no longer polled: a second sweep changes only rows still in flight.\<close>

theorem collect_sweep:
  assumes "Configured e" "distinct (map dg_date ds)" "\<forall>d \<in> set ds. in_flight d \<longrightarrow> day_row d"
  shows "Collect e now ds = map (collected e) ds \<and>
    (\<forall>d \<in> set ds. in_flight d \<longrightarrow>
       (case CollectBatch e (dg_batch_id d) (format_date (dg_date d)) of
          Inr (BatchSucceeded s) \<Rightarrow> dg_status (collected e d) = DigestCompleted \<and> dg_content (collected e d) = su_text s \<and>
            \<not> in_flight (collected e d)
        | Inr (BatchFailed reason) \<Rightarrow> dg_status (collected e d) = DigestFailed \<and> dg_error (collected e d) = reason \<and>
            \<not> in_flight (collected e d)
        | _ \<Rightarrow> collected e d = d)) \<and>
    (\<forall>d \<in> set ds. \<not> in_flight d \<longrightarrow> collected e d = d) \<and>
    Collect e now (Collect e now ds) = Collect e now ds"
proof -
  have sweep: "Collect e now xs = map (collected e) xs"
    if "distinct (map dg_date xs)" "\<forall>d \<in> set xs. in_flight d \<longrightarrow> day_row d" for xs
  proof -
    have "foldl (collect_one e now) xs (filter in_flight xs) =
        map (\<lambda>x. if x \<in> set (filter in_flight xs) then collected e x else x) xs"
      using that by (intro collect_fold distinct_map_filter) auto
    then show ?thesis using assms(1) by (auto simp: Collect_def collected_done)
  qed
  have flight: "in_flight d" if "in_flight (collected e d)" for d
    using that by (cases "in_flight d") (simp_all add: collected_done)
  have settled: "case CollectBatch e (dg_batch_id d) (format_date (dg_date d)) of
          Inr (BatchSucceeded s) \<Rightarrow> dg_status (collected e d) = DigestCompleted \<and> dg_content (collected e d) = su_text s \<and>
            \<not> in_flight (collected e d)
        | Inr (BatchFailed reason) \<Rightarrow> dg_status (collected e d) = DigestFailed \<and> dg_error (collected e d) = reason \<and>
            \<not> in_flight (collected e d)
        | _ \<Rightarrow> collected e d = d" if "in_flight d" for d
    using that by (auto simp: collected_def fail_pending_def in_flight_def split: sum.splits batch_outcome.splits)
  have twice: "collected e (collected e d) = collected e d" for d
    by (auto simp: collected_def fail_pending_def in_flight_def split: sum.splits batch_outcome.splits)
  have one: "Collect e now ds = map (collected e) ds" using assms(2,3) by (rule sweep)
  have "Collect e now (map (collected e) ds) = map (collected e) (map (collected e) ds)"
    using assms(2,3) flight by (intro sweep) (auto simp: comp_def day_row_def)
  then have "Collect e now (Collect e now ds) = Collect e now ds" by (simp add: one twice)
  with one settled collected_done show ?thesis by (intro conjI) blast+
qed

section \<open>Where the off-box path falls short\<close>

text \<open>The task exits cleanly without a result when no API key is set; the worker reports that as an error,
  and the message is redelivered, instead of acknowledging it as the task's comment says.\<close>

lemma unconfigured_task_is_redelivered:
  assumes "\<not> Configured e" "ActiveSourceInputs srcs \<noteq> []"
  shows "runDigestFargate (\<lambda>ss. digest_task e ok date (Sources ss)) now srcs ds = (Some NoResult, ds)"
  using assms by (simp add: runDigestFargate_def digest_task_def buildResult_def Submit_def)

text \<open>In batch mode a day that failed stays failed: a later run submits a new batch, but the pending row
  that would track it is not written over the failed one, so the batch is never collected.\<close>

lemma failed_day_stays_failed:
  assumes "d \<in> set ds" "dg_date d = normalizeDate date" "dg_status d = DigestFailed"
    and "ActiveSourceInputs srcs \<noteq> []" "Submit e date (ActiveSourceInputs srcs) = (Some (pending_result e date batch), None)"
    and "0 \<le> year_of (day_of date)" "year_of (day_of date) < 10000"
  shows "runDigestFargate (\<lambda>ss. digest_task e True date (Sources ss)) now srcs ds = (None, ds)" "\<not> in_flight d"
proof -
  have day: "DigestParseDate now (format_date (normalizeDate date)) = Some (normalizeDate date)"
    by (rule digest_day [OF assms(6,7)])
  have "normalizeDate date \<in> dg_date ` set ds" using assms(1,2) by (metis image_eqI)
  then show "runDigestFargate (\<lambda>ss. digest_task e True date (Sources ss)) now srcs ds = (None, ds)"
    using assms(4,5) by (simp add: runDigestFargate_def digest_task_def buildResult_def Persist_def pending_result_def
        day insert_digest_def Let_def)
  show "\<not> in_flight d" using assms(3) by (simp add: in_flight_def)
qed

section \<open>A concrete pipeline\<close>

definition ex_digest_env :: digest_env where
  "ex_digest_env = \<lparr>g_api_key = ''k'', g_model = ''m'', g_do = (\<lambda>c. Some (200, ''r'')),
     g_decode_message = (\<lambda>_. Some \<lparr>mr_model = ''m'', mr_stop_reason = ''end_turn'', mr_content = [(''text'', ''News'')]\<rparr>),
     g_decode_status = (\<lambda>_. Some \<lparr>bs_id = ''b'', bs_processing_status = ''ended'', bs_results_url = ''u''\<rparr>),
     g_decode_line = (\<lambda>_. Some \<lparr>rl_custom_id = ''1970-01-01'', rl_type = ''succeeded'',
        rl_message = Some \<lparr>mr_model = ''m'', mr_stop_reason = ''end_turn'', mr_content = [(''text'', ''News'')]\<rparr>\<rparr>),
     g_http_get = (\<lambda>_. Some (200, ''body'')), g_store = False, g_put = (\<lambda>_ _. False), g_get = (\<lambda>_. None),
     g_text = (\<lambda>_. ''error'')\<rparr>"

definition ex_sources :: "source_row list" where
  "ex_sources = [\<lparr>src_id = 2, src_name = ''b'', src_url = ''http://b'', src_type = ''web'', src_active = True\<rparr>,
                 \<lparr>src_id = 1, src_name = ''a'', src_url = ''http://a'', src_type = ''rss'', src_active = True\<rparr>]"

definition ex_digest_db :: jobs_db where
  "ex_digest_db = ex_work_db Running (ex_artifact Pending '''' None)"

lemmas ex_digest_defs = ex_digest_env_def ex_sources_def ex_digest_db_def

lemma ex_sources_ok: "\<forall>s \<in> set ex_sources. source_ok s"
  by code_simp

lemma ex_fetched: "\<forall>s \<in> set ex_sources. src_active s \<longrightarrow> (\<exists>c. Fetch ex_digest_env (src_url s) = Inr c)"
  by (simp add: ex_sources_def Fetch_def ex_digest_env_def)

lemma ex_run_job: "\<exists>job. run_job ex_digest_db 8 = Some job"
  by (simp add: run_job_def job_of_def ex_digest_db_def ex_work_db_def ex_work_run_def)

lemma ex_active: "ActiveSourceInputs ex_sources \<noteq> []"
  by (simp add: ActiveSourceInputs_def ex_sources_def)

lemma ex_configured: "Configured ex_digest_env"
  by (simp add: Configured_def ex_digest_env_def)

lemma scrape_succeeds:
  assumes "run_job db i = Some job" "ActiveSourceInputs srcs \<noteq> []" "\<forall>s \<in> set srcs. source_ok s"
    and "\<forall>s \<in> set srcs. src_active s \<longrightarrow> (\<exists>c. Fetch e (src_url s) = Inr c)"
  shows "\<exists>db1. ScrapeStage e i now srcs db = (None, db1)"
proof -
  let ?ss = "ActiveSourceInputs srcs"
  have f: "\<exists>c. Fetch e (si_url s) = Inr c" if "s \<in> set ?ss" for s
    using active_input [OF that] assms(4) by auto
  then have ne: "scrape_sections e ?ss \<noteq> []" using document_all_fetched [of ?ss e] assms(2) by blast
  have fits: "length (snd x) \<le> ArtifactInlineMaxBytes" if "x \<in> set (scrape_sections e ?ss)" for x
    using assms(3) active_input by (intro sections_inline [OF _ that]) (fastforce simp: source_ok_def)
  then obtain as where "write_artifacts e (j_id job) i (scrape_sections e ?ss) (now + artifactTTL)
      (filter (\<lambda>a. \<not> superseded i a) (d_artifacts db)) = Inr as"
    using write_artifacts_inline by blast
  with assms(1,2) ne show ?thesis by (simp add: ScrapeStage_def superseded_def)
qed


theorem scrape_exact_witness:
  "\<exists>db'. ScrapeStage ex_digest_env 8 0 ex_sources ex_digest_db = (None, db') \<and>
     (\<exists>ext. map (\<lambda>a. (a_label a, a_content a)) ext = scrape_sections ex_digest_env (ActiveSourceInputs ex_sources) \<and>
        filter (superseded 8) (d_artifacts db') = ext)"
proof -
  let ?c = "ScrapeStage ex_digest_env 8 0 ex_sources ex_digest_db"
  have c: "?c = (None, snd ?c)"
    using ex_run_job scrape_succeeds [OF _ ex_active ex_sources_ok ex_fetched] by (metis prod.collapse fst_conv)
  show ?thesis using c scrape_exact [OF c ex_sources_ok] ex_active by blast
qed


definition ex_rows :: "digest_row list" where
  "ex_rows = [\<lparr>dg_date = 0, dg_status = DigestPending, dg_content = '''', dg_model = ''m'', dg_batch_id = ''b'', dg_error = ''''\<rparr>,
              \<lparr>dg_date = day_ns, dg_status = DigestPending, dg_content = '''', dg_model = ''m'', dg_batch_id = ''b'', dg_error = ''''\<rparr>]"

theorem collect_sweep_witness:
  "Collect ex_digest_env 5 ex_rows = map (collected ex_digest_env) ex_rows \<and>
     map dg_status (Collect ex_digest_env 5 ex_rows) = [DigestCompleted, DigestFailed]"
proof -
  have one: "normalizeDate day_ns = day_ns" using normalizeDate_at_day [of 1] by (simp add: at_day_def)
  have zero: "normalizeDate 0 = 0" using normalizeDate_at_day [of 0] by (simp add: at_day_def)
  have y: "0 \<le> year_of (day_of day_ns)" "year_of (day_of day_ns) < 10000" "0 \<le> year_of (day_of 0)"
    "year_of (day_of 0) < 10000" by code_simp+
  have r: "day_row x" if "dg_date x = 0 \<or> dg_date x = day_ns" for x
    unfolding day_row_def using that one zero y by metis
  have "dg_date x = 0 \<or> dg_date x = day_ns" if "x \<in> set ex_rows" for x
    using that by (auto simp: ex_rows_def)
  then have d: "\<forall>d \<in> set ex_rows. in_flight d \<longrightarrow> day_row d" using r by blast
  have k: "distinct (map dg_date ex_rows)" by (simp add: ex_rows_def day_ns_def hour_ns_def minute_ns_def second_ns_def)
  have f: "format_date 0 = ''1970-01-01''" "format_date day_ns = ''1970-01-02''" by code_simp+
  have "CollectBatch ex_digest_env ''b'' ''1970-01-01'' =
      Inr (BatchSucceeded \<lparr>su_text = ''News'', su_model = ''m'', su_truncated = False\<rparr>)"
    "\<exists>m. CollectBatch ex_digest_env ''b'' ''1970-01-02'' = Inr (BatchFailed m)"
    by (simp_all add: CollectBatch_def Configured_def ex_digest_env_def maxLineBytes_def parseSummary_def trim_space_def
        trim_right_def is_space_def)
  then have "map dg_status (map (collected ex_digest_env) ex_rows) = [DigestCompleted, DigestFailed]"
    by (auto simp: ex_rows_def collected_def in_flight_def f fail_pending_def)
  with collect_sweep [OF ex_configured k d, of 5] show ?thesis by simp
qed

end
