(* ===== verification/Lifecycle.thy ===== *)
theory Lifecycle
  imports DigestBuild
begin

text \<open>
  The whole scheduling system as a state machine: the ticker and its recovery pass
  (\<open>internal/jobs\<close>), the admin's handlers, the finance sync seam, the work interface and the worker with
  its digest handlers, interleaved in any order.

  Two levels.  The concrete one (\<open>sys_step\<close>) takes one whole operation of the code per step, on the
  tables the operations share; what was started, claimed and approved is logged beside them.  The
  abstract one (\<open>run_move\<close>) is the life of one run.  Every concrete step moves every run only along
  the abstract machine; safety of the runs is read off there.
\<close>

section \<open>The life of one run\<close>

text \<open>What closing a run may change.\<close>

definition closes :: "job_run \<Rightarrow> job_run \<Rightarrow> bool" where
  "closes r r' \<longleftrightarrow>
     r_status r' \<in> {Succeeded, Failed} \<and> r_finished_at r' \<noteq> None \<and> r_id r' = r_id r \<and> r_job r' = r_job r \<and>
     run_key r' = run_key r \<and> r_claimable_at r' = r_claimable_at r"

text \<open>\<open>g\<close> says whether the run's job is of an ack-gated kind, \<open>A\<close> which runs were approved by the token
  holder.  A gated run waits, is approved, leased, and settled once; any other run is queued, picked
  up by the worker and settled, and may be settled again by a late report.\<close>

inductive run_move :: "nat set \<Rightarrow> bool \<Rightarrow> job_run \<Rightarrow> job_run \<Rightarrow> bool" for A where
  approve: "r_status r = AwaitingAck \<Longrightarrow> r_id r \<in> A \<Longrightarrow> run_move A True r (r\<lparr>r_claimable_at := Some t\<rparr>)"
| lease: "r_status r = AwaitingAck \<Longrightarrow> r_claimable_at r \<noteq> None \<Longrightarrow> run_move A True r (lease_run t runner r)"
| lapse: "r_status r = AwaitingAck \<Longrightarrow> run_move A True r (close_run Cancelled m t r)"
| pick_up: "r_status r = Queued \<Longrightarrow> run_move A False r (r\<lparr>r_status := Running, r_started_at := Some t\<rparr>)"
| refuse: "r_status r = Queued \<Longrightarrow> run_move A False r (close_run Failed m t r)"
| settle: "r_status r = Running \<Longrightarrow> closes r r' \<Longrightarrow> run_move A g r r'"
| resettle: "r_status r \<in> {Succeeded, Failed} \<Longrightarrow> closes r r' \<Longrightarrow> run_move A False r r'"

inductive_cases from_gated: "run_move A True r r'"
inductive_cases from_ungated: "run_move A False r r'"

definition initial :: "bool \<Rightarrow> job_run \<Rightarrow> bool" where
  "initial g r \<longleftrightarrow>
     r_status r = (if g then AwaitingAck else Queued) \<and> r_claimable_at r = None \<and> r_started_at r = None \<and>
     r_finished_at r = None"

definition run_moves :: "nat set \<Rightarrow> bool \<Rightarrow> job_run \<Rightarrow> job_run \<Rightarrow> bool" where
  "run_moves A g = (run_move A g)\<^sup>*\<^sup>*"

lemma run_moves_refl [simp, intro]: "run_moves A g r r"
  by (simp add: run_moves_def)

lemma run_moves_one: "run_move A g r r' \<Longrightarrow> run_moves A g r r'"
  unfolding run_moves_def by (rule r_into_rtranclp)

lemma run_moves_trans: "run_moves A g r r' \<Longrightarrow> run_moves A g r' r'' \<Longrightarrow> run_moves A g r r''"
  unfolding run_moves_def by (rule rtranclp_trans)

lemma run_moves_mono: "run_moves A g r r' \<Longrightarrow> A \<subseteq> B \<Longrightarrow> run_moves B g r r'"
proof -
  assume sub: "A \<subseteq> B"
  have "run_move B g x y" if "run_move A g x y" for x y
    using that by (induction rule: run_move.induct) (use sub in \<open>blast intro: run_move.intros\<close>)+
  then show "run_moves A g r r' \<Longrightarrow> run_moves B g r r'"
    using rtranclp_mono [of "run_move A g" "run_move B g"] unfolding run_moves_def by blast
qed

lemma run_move_frame: "run_move A g r r' \<Longrightarrow> r_id r' = r_id r \<and> r_job r' = r_job r \<and> run_key r' = run_key r"
  by (induction rule: run_move.induct) (auto simp: closes_def run_key_def lease_run_def)

text \<open>What holds of every run: a gated run is never queued, and claimable before it runs; any other run
  is never approved, awaited or cancelled.\<close>

definition row_ok :: "bool \<Rightarrow> job_run \<Rightarrow> bool" where
  "row_ok g r \<longleftrightarrow>
     (if g then r_status r \<noteq> Queued \<and> (r_status r \<in> {Running, Succeeded, Failed} \<longrightarrow> r_claimable_at r \<noteq> None)
      else r_status r \<notin> {AwaitingAck, Cancelled} \<and> r_claimable_at r = None)"

lemma initial_ok: "initial g r \<Longrightarrow> row_ok g r"
  by (auto simp: initial_def row_ok_def)

lemma run_move_ok: "run_move A g r r' \<Longrightarrow> row_ok g r \<Longrightarrow> row_ok g r'"
  by (induction rule: run_move.induct) (auto simp: row_ok_def closes_def)

lemma run_move_claimable:
  "run_move A g r r' \<Longrightarrow> r_claimable_at r' \<noteq> None \<Longrightarrow> r_claimable_at r \<noteq> None \<or> r_id r \<in> A"
  by (induction rule: run_move.induct) (auto simp: closes_def)

lemma run_move_approved: "run_move A g r r' \<Longrightarrow> r_claimable_at r \<noteq> None \<Longrightarrow> r_claimable_at r' \<noteq> None"
  by (induction rule: run_move.induct) (auto simp: closes_def)

text \<open>No way back: a run that was started, leased or settled stays so.\<close>

definition stage_no :: "job_run \<Rightarrow> nat" where
  "stage_no r = (case r_status r of Queued \<Rightarrow> 0 | AwaitingAck \<Rightarrow> 0 | Running \<Rightarrow> 1 | _ \<Rightarrow> 2)"

lemma run_move_forward: "run_move A g r r' \<Longrightarrow> stage_no r \<le> stage_no r'"
  by (induction rule: run_move.induct) (auto simp: stage_no_def closes_def split: run_status.splits)

text \<open>Once settled, a gated run never changes.\<close>

lemma run_move_final: "run_move A True r r' \<Longrightarrow> stage_no r < 2"
  by (auto elim!: from_gated simp: stage_no_def)

lemma run_moves_induct:
  assumes "run_moves A g r r'" "P r" "\<And>x y. P x \<Longrightarrow> run_move A g x y \<Longrightarrow> P y"
  shows "P r'"
  using assms(1) unfolding run_moves_def by (induction rule: rtranclp_induct) (auto intro: assms(2,3))

lemma run_moves_frame:
  assumes "run_moves A g r r'"
  shows "r_id r' = r_id r" "r_job r' = r_job r" "run_key r' = run_key r"
proof -
  have "r_id r' = r_id r \<and> r_job r' = r_job r \<and> run_key r' = run_key r"
    using assms by (rule run_moves_induct) (auto dest: run_move_frame)
  then show "r_id r' = r_id r" "r_job r' = r_job r" "run_key r' = run_key r" by simp_all
qed

lemma run_moves_ok: "run_moves A g r r' \<Longrightarrow> row_ok g r \<Longrightarrow> row_ok g r'"
  by (erule run_moves_induct) (auto intro: run_move_ok)

lemma run_moves_claimable:
  assumes "run_moves A g r r'" "r_claimable_at r' \<noteq> None"
  shows "r_claimable_at r \<noteq> None \<or> r_id r \<in> A"
proof -
  have "r_id r' = r_id r \<and> (r_claimable_at r' \<noteq> None \<longrightarrow> r_claimable_at r \<noteq> None \<or> r_id r \<in> A)"
    using assms(1) by (rule run_moves_induct) (auto dest: run_move_frame run_move_claimable)
  with assms(2) show ?thesis by blast
qed

lemma run_moves_approved: "run_moves A g r r' \<Longrightarrow> r_claimable_at r \<noteq> None \<Longrightarrow> r_claimable_at r' \<noteq> None"
  by (erule run_moves_induct) (auto dest: run_move_approved)

lemma run_moves_forward: "run_moves A g r r' \<Longrightarrow> stage_no r \<le> stage_no r'"
  by (erule run_moves_induct) (auto dest: run_move_forward intro: le_trans)

lemma run_moves_final:
  assumes "run_moves A True r r'" "stage_no r = 2"
  shows "r' = r"
  using assms(1) by (rule run_moves_induct) (use assms(2) run_move_final in force)+

section \<open>How an operation may change the tables\<close>

definition key_of :: "jobs_db \<Rightarrow> nat \<Rightarrow> string option" where
  "key_of db i = map_option j_key (job_of db i)"

definition is_gated :: "jobs_db \<Rightarrow> job_run \<Rightarrow> bool" where
  "is_gated db r \<longleftrightarrow> (case key_of db (r_job r) of Some k \<Rightarrow> ack_gated k | None \<Rightarrow> False)"

lemma has_job_key: "has_job db (\<lambda>j. j_key j = k) i \<longleftrightarrow> key_of db i = Some k"
  by (auto simp: has_job_find key_of_def)

lemma key_of_job: "jobs_inv db \<Longrightarrow> j \<in> set (d_jobs db) \<Longrightarrow> key_of db (j_id j) = Some (j_key j)"
  by (simp add: key_of_def job_of_unique)

lemma key_of_cong: "d_jobs a = d_jobs b \<Longrightarrow> key_of a = key_of b"
  by (simp add: fun_eq_iff key_of_def job_of_def)

lemma gated_sync: "key_of db (r_job r) = Some financeScope \<Longrightarrow> is_gated db r"
  by (simp add: is_gated_def ack_gated_iff ackGatedKeys_eq financeScope_def)

definition born :: "nat set \<Rightarrow> bool \<Rightarrow> job_run \<Rightarrow> bool" where
  "born A g r \<longleftrightarrow> (\<exists>r0. initial g r0 \<and> run_moves A g r0 r)"

lemma born_ok: "born A g r \<Longrightarrow> row_ok g r"
  unfolding born_def by (blast intro: initial_ok run_moves_ok)

lemma born_initial: "initial g r \<Longrightarrow> born A g r"
  unfolding born_def by blast

definition keys_kept :: "jobs_db \<Rightarrow> jobs_db \<Rightarrow> bool" where
  "keys_kept db db' \<longleftrightarrow> (\<forall>j \<in> set (d_jobs db). \<exists>j' \<in> set (d_jobs db'). j_id j' = j_id j \<and> j_key j' = j_key j)"

text \<open>Every run moves along its own life, new runs are born as such, no run and no job goes away, and a
  job keeps its key.\<close>

definition evolves :: "nat set \<Rightarrow> jobs_db \<Rightarrow> jobs_db \<Rightarrow> bool" where
  "evolves A db db' \<longleftrightarrow>
     jobs_inv db' \<and> keys_kept db db' \<and>
     (\<exists>f ext. d_runs db' = map f (d_runs db) @ ext \<and>
        (\<forall>r \<in> set (d_runs db). run_moves A (is_gated db r) r (f r)) \<and>
        (\<forall>r \<in> set ext. born A (is_gated db' r) r))"

lemma kept_key:
  assumes "jobs_inv db" "jobs_inv db'" "keys_kept db db'" "key_of db i = Some k"
  shows "key_of db' i = Some k"
proof -
  obtain j where j: "j \<in> set (d_jobs db)" "j_id j = i" "j_key j = k"
    using assms(4) by (auto simp: key_of_def dest: job_of_SomeD)
  then obtain j' where "j' \<in> set (d_jobs db')" "j_id j' = i" "j_key j' = k"
    using assms(3) by (force simp: keys_kept_def)
  with key_of_job [OF assms(2)] show ?thesis by blast
qed

lemma run_key_of: "jobs_inv db \<Longrightarrow> r \<in> set (d_runs db) \<Longrightarrow> \<exists>k. key_of db (r_job r) = Some k"
  unfolding jobs_inv_def by (metis imageE jobs_inv_def key_of_job)

lemma kept_gated:
  assumes "jobs_inv db" "jobs_inv db'" "keys_kept db db'" "r \<in> set (d_runs db)" "r_job r' = r_job r"
  shows "is_gated db' r' = is_gated db r"
proof -
  obtain k where "key_of db (r_job r) = Some k" using run_key_of [OF assms(1,4)] by blast
  with kept_key [OF assms(1-3)] assms(5) show ?thesis by (simp add: is_gated_def)
qed

lemma keys_kept_refl: "d_jobs db' = d_jobs db \<Longrightarrow> keys_kept db db'"
  by (auto simp: keys_kept_def)

lemma keys_kept_trans: "keys_kept a b \<Longrightarrow> keys_kept b c \<Longrightarrow> keys_kept a c"
  unfolding keys_kept_def by metis

lemma evolves_same:
  assumes "jobs_inv db'" "keys_kept db db'" "d_runs db' = d_runs db"
  shows "evolves A db db'"
  unfolding evolves_def using assms by (intro conjI exI [of _ id] exI [of _ "[]"]) auto

lemma evolves_refl: "jobs_inv db \<Longrightarrow> evolves A db db"
  by (rule evolves_same) (simp_all add: keys_kept_refl)

lemma evolves_map:
  assumes "jobs_inv db" "d_jobs db' = d_jobs db" "d_runs db' = map f (d_runs db)"
    and "\<And>r. r \<in> set (d_runs db) \<Longrightarrow> run_moves A (is_gated db r) r (f r)"
  shows "evolves A db db'"
proof -
  note frame = run_moves_frame [OF assms(4)]
  have "map r_id (d_runs db') = map r_id (d_runs db)" "map run_key (d_runs db') = map run_key (d_runs db)"
    using frame by (auto simp: assms(3))
  moreover have "r_job ` set (d_runs db') = r_job ` set (d_runs db)"
    unfolding assms(3) set_map image_image by (rule image_cong [OF refl]) (rule frame(2))
  ultimately have "jobs_inv db'" using assms(1,2) unfolding jobs_inv_def row_ids_def
    by (simp add: image_subset_iff [symmetric])
  then show ?thesis
    unfolding evolves_def
    by (intro conjI exI [of _ f] exI [of _ "[]"]) (simp_all add: keys_kept_refl [OF assms(2)] assms(3,4))
qed

lemma evolves_update:
  assumes "jobs_inv db" "d_jobs db' = d_jobs db" "d_runs db' = update_where p f (d_runs db)"
    and "\<And>r. r \<in> set (d_runs db) \<Longrightarrow> p r \<Longrightarrow> run_move A (is_gated db r) r (f r)"
  shows "evolves A db db'"
  by (rule evolves_map [OF assms(1,2) assms(3) [unfolded update_where_def]]) (simp add: assms(4) run_moves_one)

lemma evolves_grow:
  assumes "jobs_inv db'" "keys_kept db db'" "d_runs db' = d_runs db @ ext"
    "\<And>r. r \<in> set ext \<Longrightarrow> born A (is_gated db' r) r"
  shows "evolves A db db'"
  unfolding evolves_def by (intro conjI exI [of _ id] exI [of _ ext]) (simp_all add: assms)

lemma evolves_trans:
  assumes "jobs_inv a" "evolves A a b" "evolves A b c"
  shows "evolves A a c"
proof -
  obtain f ext where b: "jobs_inv b" "keys_kept a b" "d_runs b = map f (d_runs a) @ ext"
    "\<forall>r \<in> set (d_runs a). run_moves A (is_gated a r) r (f r)" "\<forall>r \<in> set ext. born A (is_gated b r) r"
    using assms(2) by (auto simp: evolves_def)
  obtain g ext' where c: "jobs_inv c" "keys_kept b c" "d_runs c = map g (d_runs b) @ ext'"
    "\<forall>r \<in> set (d_runs b). run_moves A (is_gated b r) r (g r)" "\<forall>r \<in> set ext'. born A (is_gated c r) r"
    using assms(3) by (auto simp: evolves_def)
  have m: "run_moves A (is_gated a r) r (g (f r))" if r: "r \<in> set (d_runs a)" for r
  proof -
    have m: "run_moves A (is_gated a r) r (f r)" using b(4) r by blast
    have "is_gated b (f r) = is_gated a r"
      using kept_gated [OF assms(1) b(1,2) r] run_moves_frame(2) [OF m] by blast
    moreover have "run_moves A (is_gated b (f r)) (f r) (g (f r))" using c(4) r by (simp add: b(3))
    ultimately show ?thesis using m by (auto intro: run_moves_trans)
  qed
  have e: "born A (is_gated c (g r)) (g r)" if r: "r \<in> set ext" for r
  proof -
    have rb: "r \<in> set (d_runs b)" using r by (simp add: b(3))
    then have m: "run_moves A (is_gated b r) r (g r)" using c(4) by blast
    have gc: "is_gated c (g r) = is_gated b r"
      using kept_gated [OF b(1) c(1,2) rb] run_moves_frame(2) [OF m] by blast
    obtain r0 where "initial (is_gated b r) r0" "run_moves A (is_gated b r) r0 r"
      using bspec [OF b(5) r] unfolding born_def by blast
    with run_moves_trans [OF _ m] gc show ?thesis unfolding born_def by auto
  qed
  show ?thesis
    unfolding evolves_def
  proof (intro conjI exI [of _ "g \<circ> f"] exI [of _ "map g ext @ ext'"])
    show "d_runs c = map (g \<circ> f) (d_runs a) @ map g ext @ ext'" by (simp only: c(3) b(3) map_append map_map append_assoc)
    show "\<forall>r \<in> set (d_runs a). run_moves A (is_gated a r) r ((g \<circ> f) r)" using m by simp
    show "\<forall>r \<in> set (map g ext @ ext'). born A (is_gated c r) r"
    proof
      fix r assume "r \<in> set (map g ext @ ext')"
      then consider x where "x \<in> set ext" "r = g x" | "r \<in> set ext'" by auto
      then show "born A (is_gated c r) r" by cases (simp_all only: e bspec [OF c(5)])
    qed
  qed (rule c(1) keys_kept_trans [OF b(2) c(2)])+
qed

lemma evolves_mono: "evolves A a b \<Longrightarrow> A \<subseteq> B \<Longrightarrow> evolves B a b"
  unfolding evolves_def born_def by (meson run_moves_mono)

section \<open>Every operation moves runs along their life\<close>

lemma close_run_closes:
  "st \<in> {Succeeded, Failed} \<Longrightarrow> closes r (close_run st m t r)"
  by (auto simp: closes_def run_key_def close_run_def)

lemma finish_run_closes: "st \<in> {Succeeded, Failed} \<Longrightarrow> closes r (finish_run st b m t r)"
  by (auto simp: closes_def)

lemma sweep_moves:
  assumes "jobs_inv db" "r \<in> set (d_runs db)"
  shows "run_moves A (is_gated db r) r (sweep_run now db r)"
proof -
  have "is_gated db r" if "unacked now db r"
    using that by (auto simp: unacked_def is_gated_def key_of_def has_job_find ack_gated_iff)
  then show ?thesis
    by (auto simp: sweep_run_def reap_ordinary_def reap_gated_def unacked_def
        intro!: run_moves_one run_move.intros close_run_closes)
qed

lemma maintenance_evolves:
  assumes "jobs_inv db"
  shows "evolves A db (maintenance e now db)"
proof (rule evolves_map [OF assms])
  show "d_runs (maintenance e now db) = map (sweep_run now db) (d_runs db)"
    using assms by (intro maintenance_runs) (simp add: jobs_inv_def row_ids_def)
qed (simp_all add: sweep_moves [OF assms])

lemma keys_kept_map:
  assumes "d_jobs db' = map f (d_jobs db)" "\<And>j. j_id (f j) = j_id j" "\<And>j. j_key (f j) = j_key j"
  shows "keys_kept db db'"
  unfolding keys_kept_def assms(1) using assms(2,3) by auto

lemma evaluated_evolves:
  assumes "jobs_inv db"
  shows "evolves A db (evaluated e now db)"
proof -
  let ?d = "evaluated e now db"
  have inv: "jobs_inv ?d" by (rule evaluated_inv [OF assms])
  have kept: "keys_kept db ?d"
    by (rule keys_kept_map [where f = "\<lambda>j. if j_enabled j then advanced e now j else j"])
      (simp_all add: evaluated_jobs [OF assms] update_where_def)
  obtain ext where ext: "d_runs ?d = d_runs db @ ext" "map without_id ext = map (due_run e) (new_due e now db)"
    using evaluated_runs [OF assms] by blast
  have "born A (is_gated ?d r) r" if r: "r \<in> set ext" for r
  proof -
    have "without_id r \<in> due_run e ` set (new_due e now db)"
      using r arg_cong [OF ext(2), of set] by auto
    then obtain j where j: "without_id r = due_run e j" "j \<in> set (d_jobs db)" by (auto simp: new_due_def)
    have f: "r_status r = r_status (due_run e j)" "r_claimable_at r = r_claimable_at (due_run e j)"
      "r_started_at r = r_started_at (due_run e j)" "r_finished_at r = r_finished_at (due_run e j)"
      "r_job r = r_job (due_run e j)"
      by (simp_all add: without_id_def flip: j(1))
    have "key_of ?d (r_job r) = Some (j_key j)"
      using kept_key [OF assms inv kept key_of_job [OF assms j(2)]] f(5) by (simp add: due_run_def)
    then have "initial (is_gated ?d r) r"
      using f by (simp add: initial_def is_gated_def due_run_def)
    then show ?thesis by (rule born_initial)
  qed
  then show ?thesis by (rule evolves_grow [OF inv kept ext(1)])
qed

lemma tick_evolves:
  assumes "jobs_inv db"
  shows "evolves A db (tick e now db)"
proof (cases "e_configured e")
  case True
  then show ?thesis
    using evolves_trans [OF assms evaluated_evolves [OF assms] maintenance_evolves [OF evaluated_inv [OF assms]]]
    by (simp add: tick_configured)
qed (simp add: tick_def evolves_refl assms)

lemma recover_evolves: "jobs_inv db \<Longrightarrow> evolves A db (RecoverOnce e db)"
  by (simp add: RecoverOnce_def evolves_refl maintenance_evolves)

lemma create_evolves:
  assumes "jobs_inv db" "createJob e ctx inp now db = (res, db')"
  shows "evolves A db db'"
proof (rule evolves_same [OF create_inv [OF assms]])
  show "keys_kept db db'" "d_runs db' = d_runs db"
    by (cases rule: create_cases [OF assms(2)]; auto simp: keys_kept_def)+
qed

lemma update_evolves:
  assumes "jobs_inv db" "updateJob e ctx inp now db = (res, db')"
  shows "evolves A db db'"
proof (rule evolves_same)
  show "keys_kept db db'"
  proof (cases rule: update_cases [OF assms(2)])
    case (2 job rn tz)
    have same: "x = job" if "x \<in> set (d_jobs db)" "j_id x = j_id job" for x
      using that job_of_SomeD [OF 2(2)] assms(1) unfolding jobs_inv_def row_ids_def by (metis distinct_map inj_onD)
    show ?thesis
      unfolding keys_kept_def
    proof
      fix j assume j: "j \<in> set (d_jobs db)"
      let ?j = "if j_id j = j_id job then updated_job e inp rn tz now job else j"
      have "?j \<in> set (d_jobs db')" using j unfolding 2(3) update_where_def by simp
      moreover have "j_id ?j = j_id j \<and> j_key ?j = j_key j" using same [OF j] by auto
      ultimately show "\<exists>j' \<in> set (d_jobs db'). j_id j' = j_id j \<and> j_key j' = j_key j" by blast
    qed
  qed (simp add: keys_kept_refl)
qed (use update_inv [OF assms] in simp_all)

lemma start_evolves:
  assumes "jobs_inv db" "startJobRun e ctx i now db = (res, db')"
  shows "evolves A db db'"
proof -
  note inv = start_inv [OF assms]
  have key: "is_gated db' r = ack_gated (j_key job)"
    if "job_of db i = Some job" "d_jobs db' = d_jobs db" "r_job r = i" for job r
    using that key_of_cong [OF that(2)] by (simp add: is_gated_def key_of_def)
  have init: "initial g (manual_run e db (if g then AwaitingAck else Queued) i now)" for g
    by (simp add: initial_def manual_run_def)
  have add: ?thesis
    if "d_jobs db' = d_jobs db" "d_runs db' = d_runs db @ [r]" "born A (is_gated db' r) r" for r
    by (rule evolves_grow [OF inv keys_kept_refl [OF that(1)] that(2)]) (use that(3) in simp)
  show ?thesis
  proof (cases rule: start_cases [OF assms(2)])
    case (3 job m)
    show ?thesis by (rule add [OF 3(7,6)]) (use init [of True] in \<open>simp add: key [OF 3(2,7)] 3(3) born_initial\<close>)
  next
    case (4 job m)
    show ?thesis by (rule add [OF 4(7,6)]) (use init [of False] in \<open>simp add: key [OF 4(2,7)] 4(3) born_initial\<close>)
  next
    case (5 job)
    let ?r = "manual_run e db Queued i now"
    have "run_moves A False ?r (close_run Failed ''enqueue failed'' (e_wall e) ?r)"
      by (intro run_moves_one run_move.refuse) simp
    then have "born A False (close_run Failed ''enqueue failed'' (e_wall e) ?r)"
      unfolding born_def using init [of False] by auto
    then show ?thesis by (intro add [OF 5(7,6)]) (simp add: key [OF 5(2,7)] 5(3))
  qed (use evolves_refl [OF assms(1)] in simp_all)
qed

lemma unique_run:
  "jobs_inv db \<Longrightarrow> r \<in> set (d_runs db) \<Longrightarrow> r' \<in> set (d_runs db) \<Longrightarrow> r_id r' = r_id r \<Longrightarrow> r' = r"
  unfolding jobs_inv_def row_ids_def by (metis distinct_map inj_onD)

lemma evolves_one:
  assumes "jobs_inv db" "d_jobs db' = d_jobs db" "r0 \<in> set (d_runs db)"
    "d_runs db' = update_where (\<lambda>r. r_id r = r_id r0) f (d_runs db)" "run_move A (is_gated db r0) r0 (f r0)"
  shows "evolves A db db'"
proof (rule evolves_update [OF assms(1,2,4)])
  fix r assume "r \<in> set (d_runs db)" "r_id r = r_id r0"
  then have "r = r0" using unique_run [OF assms(1,3)] by blast
  with assms(5) show "run_move A (is_gated db r) r (f r)" by simp
qed

lemma has_sync_gated: "has_job db (\<lambda>j. j_key j = financeScope) (r_job r) \<Longrightarrow> is_gated db r"
  unfolding has_job_key by (rule gated_sync)

lemma claim_evolves:
  assumes "jobs_inv db" "claimFinanceSync e ctx src now accts db = (res, db')"
  shows "evolves A db db'"
proof (cases rule: claim_cases [OF assms(2)])
  case (3 r b)
  show ?thesis
  proof (rule evolves_update [OF assms(1) 3(7,6)])
    fix x assume x: "x \<in> set (d_runs db)" "r_id x = r_id r \<and> r_status x = AwaitingAck"
    then have "x = r" using unique_run [OF assms(1) 3(1)] by blast
    then show "run_move A (is_gated db x) x (lease_run now (br_runner b) x)"
      using 3(2) has_sync_gated [of db r] by (simp add: claimable_run_def run_move.lease)
  qed
qed (use evolves_refl [OF assms(1)] in simp_all)

lemma ack_evolves:
  assumes "jobs_inv db" "ackFinanceSync e i token now db = (res, db')"
  shows "evolves (if res = Inr True then insert i A else A) db db'"
proof (cases rule: ack_cases [OF assms(2)])
  case (3 r)
  have r: "r \<in> set (d_runs db)" "r_id r = i" using find_SomeD [OF 3(4)] by auto
  show ?thesis
    by (rule evolves_one [OF assms(1) _ r(1)])
      (use 3 r in \<open>auto simp: has_sync_gated intro: run_move.approve\<close>)
qed (use evolves_refl [OF assms(1)] in simp_all)

lemma complete_evolves:
  assumes "jobs_inv db" "completeFinanceSync e ctx i status err now db = (res, db')"
  shows "evolves A db db'"
proof (cases rule: complete_cases [OF assms(2)])
  case (3 r b)
  have r: "r \<in> set (d_runs db)" using find_SomeD [OF 3(3)] by auto
  show ?thesis
    by (rule evolves_one [OF assms(1) 3(10) r 3(9)]) (rule run_move.settle [OF 3(8) finish_run_closes], simp)
qed (use evolves_refl [OF assms(1)] in simp_all)

lemma claim_work_evolves:
  assumes "jobs_inv db" "claimWork e ctx job now db = (res, db')"
  shows "evolves A db db'"
  by (cases rule: claimWork_cases [OF assms(2)]; intro evolves_same)
    (use assms(1) in \<open>simp_all add: keys_kept_refl jobs_inv_def row_ids_def\<close>)

text \<open>A run of an ordinary kind that was picked up can be closed, and closed again.\<close>

lemma close_moves:
  assumes "row_ok False r" "stage_no r \<noteq> 0" "closes r r'"
  shows "run_move A False r r'"
proof -
  have "r_status r = Running \<or> r_status r \<in> {Succeeded, Failed}"
    using assms(1,2) by (cases "r_status r") (auto simp: row_ok_def stage_no_def)
  then show ?thesis using assms(3) by (auto intro: run_move.settle run_move.resettle)
qed

lemma complete_work_evolves:
  assumes "jobs_inv db" "completeWork e ctx inp keyID now (db, ds) = (res, (db', ds'))"
    and "\<And>a r. a \<in> set (d_artifacts db) \<Longrightarrow> r \<in> set (d_runs db) \<Longrightarrow> r_id r = a_produced_by a \<Longrightarrow>
      \<not> is_gated db r \<and> row_ok False r \<and> stage_no r \<noteq> 0"
  shows "evolves A db db'"
proof (cases rule: complete_work_cases [OF assms(2)])
  case (3 b run job content dd)
  obtain a where a: "a \<in> set (d_artifacts db)" "a_produced_by a = r_id run" using 3(9) by blast
  have ok: "\<not> is_gated db run" "row_ok False run" "stage_no run \<noteq> 0"
    using assms(3) [OF a(1) 3(3)] a(2) by simp_all
  have "closes run (finish_run (if in_status inp = ''failed'' then Failed else Succeeded) (br_runner b)
      (if in_status inp = ''failed'' then in_error inp else '''') now run)"
    by (rule finish_run_closes) simp
  from close_moves [OF ok(2,3) this]
  show ?thesis
    by (intro evolves_one [OF assms(1) _ 3(3)]) (use 3(11) ok(1) in \<open>simp_all add: close_work_def\<close>)
qed (use evolves_refl [OF assms(1)] in simp_all)

lemma worker_claim_evolves:
  assumes "jobs_inv db" "\<And>r. r \<in> set (d_runs db) \<Longrightarrow> row_ok (is_gated db r) r"
  shows "evolves A db (fst (worker_claim i now db))"
proof (rule evolves_update [OF assms(1)])
  show "d_runs (fst (worker_claim i now db)) = update_where (\<lambda>r. r_id r = i \<and> r_status r = Queued)
      (\<lambda>r. r\<lparr>r_status := Running, r_started_at := Some now\<rparr>) (d_runs db)"
    by (simp add: worker_claim_def Let_def)
  fix r assume r: "r \<in> set (d_runs db)" "r_id r = i \<and> r_status r = Queued"
  then have "\<not> is_gated db r" using assms(2) [OF r(1)] by (auto simp: row_ok_def split: if_splits)
  with r show "run_move A (is_gated db r) r (r\<lparr>r_status := Running, r_started_at := Some now\<rparr>)"
    by (simp add: run_move.pick_up)
qed simp

lemma finish_evolves:
  assumes "jobs_inv db" "st \<in> {Succeeded, Failed}"
    "\<And>r. r \<in> set (d_runs db) \<Longrightarrow> r_id r = i \<Longrightarrow> \<not> is_gated db r \<and> row_ok False r \<and> stage_no r \<noteq> 0"
  shows "evolves A db (finishRun i st m now db)"
proof (rule evolves_update [OF assms(1)])
  show "d_runs (finishRun i st m now db) = update_where (\<lambda>r. r_id r = i)
      (\<lambda>r. let r1 = r\<lparr>r_status := st, r_finished_at := Some now\<rparr>
           in if m \<noteq> '''' then r1\<lparr>r_error := m\<rparr> else r1) (d_runs db)"
    by (simp add: finishRun_def)
  fix r assume r: "r \<in> set (d_runs db)" "r_id r = i"
  show "run_move A (is_gated db r) r (let r1 = r\<lparr>r_status := st, r_finished_at := Some now\<rparr>
           in if m \<noteq> '''' then r1\<lparr>r_error := m\<rparr> else r1)"
    using assms(3) [OF r] assms(2) by (auto intro!: close_moves simp: closes_def Let_def run_key_def)
qed simp

section \<open>The system\<close>

text \<open>The tables, the digests, and what happened so far: the runs the worker picked up, the runs a runner
  leased through the finance sync, and the runs whose approval was accepted.\<close>

record sys =
  s_db :: jobs_db
  s_digests :: "digest_row list"
  s_started :: "nat list"
  s_claims :: "nat list"
  s_acks :: "nat list"

text \<open>One operation per step.  \<open>lib\<close> fixes what the cron and time zone libraries answer; clock and queue
  vary from step to step.  A message stays deliverable, so every redelivery is a behaviour; the
  worker's pick-up, work and closing are steps of their own, so anything may happen in between.\<close>

inductive sys_step :: "('c, 'l) sched_env \<Rightarrow> sys \<Rightarrow> sys \<Rightarrow> bool" for lib where
  ticks: "e = lib\<lparr>e_wall := w, e_enqueue_ok := q\<rparr> \<Longrightarrow>
    sys_step lib S (S\<lparr>s_db := tick e now (s_db S)\<rparr>)"
| recovers: "e = lib\<lparr>e_wall := w, e_enqueue_ok := q\<rparr> \<Longrightarrow>
    sys_step lib S (S\<lparr>s_db := RecoverOnce e (s_db S)\<rparr>)"
| creates: "createJob lib ctx cinp now (s_db S) = (res, db') \<Longrightarrow> sys_step lib S (S\<lparr>s_db := db'\<rparr>)"
| updates: "updateJob lib ctx uinp now (s_db S) = (res, db') \<Longrightarrow> sys_step lib S (S\<lparr>s_db := db'\<rparr>)"
| starts: "e = lib\<lparr>e_wall := w, e_enqueue_ok := q\<rparr> \<Longrightarrow> startJobRun e ctx i now (s_db S) = (sres, db') \<Longrightarrow>
    sys_step lib S (S\<lparr>s_db := db'\<rparr>)"
| acks: "ackFinanceSync y i token now (s_db S) = (ares, db') \<Longrightarrow>
    sys_step lib S (S\<lparr>s_db := db', s_acks := (if ares = Inr True then i # s_acks S else s_acks S)\<rparr>)"
| claims: "claimFinanceSync y ctx src now accts (s_db S) = (cres, db') \<Longrightarrow>
    sys_step lib S (S\<lparr>s_db := db', s_claims := (case cres of Inl _ \<Rightarrow> s_claims S
      | Inr out \<Rightarrow> if co_claimed out then co_run_id out # s_claims S else s_claims S)\<rparr>)"
| completes: "completeFinanceSync y ctx i status err now (s_db S) = (ares, db') \<Longrightarrow>
    sys_step lib S (S\<lparr>s_db := db'\<rparr>)"
| claims_work: "claimWork k ctx key now (s_db S) = (wres, db') \<Longrightarrow> sys_step lib S (S\<lparr>s_db := db'\<rparr>)"
| completes_work: "completeWork k ctx winp keyID now (s_db S, s_digests S) = (ores, (db', ds')) \<Longrightarrow>
    sys_step lib S (S\<lparr>s_db := db', s_digests := ds'\<rparr>)"
| picks_up: "m \<in> set (d_queue (s_db S)) \<Longrightarrow> q_run m \<noteq> 0 \<Longrightarrow> worker_claim (q_run m) now (s_db S) = (db', True) \<Longrightarrow>
    sys_step lib S (S\<lparr>s_db := db', s_started := q_run m # s_started S\<rparr>)"
| scrapes: "m \<in> set (d_queue (s_db S)) \<Longrightarrow> q_run m \<in> set (s_started S) \<Longrightarrow> q_type m = ''digest.scrape'' \<Longrightarrow>
    handleDigestScrape g (q_run m) now srcs (s_db S) = (derr, db') \<Longrightarrow> sys_step lib S (S\<lparr>s_db := db'\<rparr>)"
| summarizes: "m \<in> set (d_queue (s_db S)) \<Longrightarrow> q_run m \<in> set (s_started S) \<Longrightarrow> q_type m = ''digest.llm'' \<Longrightarrow>
    handleDigestLlm g mode task (q_run m) now (s_db S, s_digests S) = (derr, (db', ds')) \<Longrightarrow>
    sys_step lib S (S\<lparr>s_db := db', s_digests := ds'\<rparr>)"
| builds: "handleDigestBuild g mode btask payload now srcs (s_digests S) = (derr, ds') \<Longrightarrow>
    sys_step lib S (S\<lparr>s_digests := ds'\<rparr>)"
| collects: "sys_step lib S (S\<lparr>s_digests := handleDigestCollect g now (s_digests S)\<rparr>)"
| finishes: "i \<in> set (s_started S) \<Longrightarrow> st \<in> {Succeeded, Failed} \<Longrightarrow>
    sys_step lib S (S\<lparr>s_db := finishRun i st m now (s_db S)\<rparr>)"

inductive reachable :: "('c, 'l) sched_env \<Rightarrow> sys \<Rightarrow> bool" for lib where
  boot: "jobs_inv db \<Longrightarrow> d_runs db = [] \<Longrightarrow> d_artifacts db = [] \<Longrightarrow> d_queue db = [] \<Longrightarrow>
    reachable lib \<lparr>s_db = db, s_digests = ds, s_started = [], s_claims = [], s_acks = []\<rparr>"
| step: "reachable lib S \<Longrightarrow> sys_step lib S S' \<Longrightarrow> reachable lib S'"

section \<open>The invariant\<close>

definition msg_ok :: "jobs_db \<Rightarrow> queue_job \<Rightarrow> bool" where
  "msg_ok db m \<longleftrightarrow>
     (\<exists>r \<in> set (d_runs db). r_id r = q_run m \<and> key_of db (r_job r) = Some (q_type m) \<and> \<not> ack_gated (q_type m))"

text \<open>The run \<open>i\<close> is past its start, of a gated kind and approved, or of another kind.\<close>

definition begun :: "bool \<Rightarrow> jobs_db \<Rightarrow> nat \<Rightarrow> bool" where
  "begun g db i \<longleftrightarrow> (\<exists>r \<in> set (d_runs db). r_id r = i \<and> is_gated db r = g \<and> stage_no r \<noteq> 0 \<and>
       (g \<longrightarrow> r_claimable_at r \<noteq> None))"

definition made_by :: "nat set \<Rightarrow> jobs_db \<Rightarrow> artifact \<Rightarrow> bool" where
  "made_by started db a \<longleftrightarrow> a_produced_by a \<in> started \<and> key_of db (a_job a) = Some ''digest.scrape''"

definition sys_inv :: "sys \<Rightarrow> bool" where
  "sys_inv S \<longleftrightarrow>
     (let db = s_db S
      in jobs_inv db \<and>
         (\<forall>r \<in> set (d_runs db). row_ok (is_gated db r) r \<and> (r_claimable_at r \<noteq> None \<longrightarrow> r_id r \<in> set (s_acks S))) \<and>
         (\<forall>m \<in> set (d_queue db). msg_ok db m) \<and>
         distinct (s_started S) \<and> (\<forall>i \<in> set (s_started S). begun False db i) \<and>
         distinct (s_claims S) \<and> (\<forall>i \<in> set (s_claims S). begun True db i) \<and>
         (\<forall>a \<in> set (d_artifacts db). made_by (set (s_started S)) db a))"

lemma sys_invD:
  assumes "sys_inv S"
  shows "jobs_inv (s_db S)" "r \<in> set (d_runs (s_db S)) \<Longrightarrow> row_ok (is_gated (s_db S) r) r"
    "r \<in> set (d_runs (s_db S)) \<Longrightarrow> r_claimable_at r \<noteq> None \<Longrightarrow> r_id r \<in> set (s_acks S)"
    "m \<in> set (d_queue (s_db S)) \<Longrightarrow> msg_ok (s_db S) m"
    "distinct (s_started S)" "i \<in> set (s_started S) \<Longrightarrow> begun False (s_db S) i"
    "distinct (s_claims S)" "i \<in> set (s_claims S) \<Longrightarrow> begun True (s_db S) i"
    "a \<in> set (d_artifacts (s_db S)) \<Longrightarrow> made_by (set (s_started S)) (s_db S) a"
  using assms unfolding sys_inv_def Let_def by simp_all

text \<open>What an evolution of the tables keeps.\<close>

lemma evolves_run:
  assumes "jobs_inv db" "evolves A db db'" "r \<in> set (d_runs db)"
  shows "\<exists>r' \<in> set (d_runs db'). run_moves A (is_gated db r) r r' \<and> is_gated db' r' = is_gated db r"
proof -
  obtain f ext where f: "jobs_inv db'" "keys_kept db db'" "d_runs db' = map f (d_runs db) @ ext"
    "\<forall>r \<in> set (d_runs db). run_moves A (is_gated db r) r (f r)"
    using assms(2) by (auto simp: evolves_def)
  have m: "run_moves A (is_gated db r) r (f r)" using f(4) assms(3) by blast
  show ?thesis
    using m kept_gated [OF assms(1) f(1,2) assms(3) run_moves_frame(2) [OF m]] assms(3) by (auto simp: f(3))
qed

lemma evolves_back:
  assumes "jobs_inv db" "evolves A db db'" "r' \<in> set (d_runs db')"
  obtains r where "r \<in> set (d_runs db)" "run_moves A (is_gated db r) r r'" "is_gated db' r' = is_gated db r"
  | "born A (is_gated db' r') r'"
proof -
  obtain f ext where f: "jobs_inv db'" "keys_kept db db'" "d_runs db' = map f (d_runs db) @ ext"
    "\<forall>r \<in> set (d_runs db). run_moves A (is_gated db r) r (f r)" "\<forall>r \<in> set ext. born A (is_gated db' r) r"
    using assms(2) by (auto simp: evolves_def)
  consider r where "r \<in> set (d_runs db)" "r' = f r" | "r' \<in> set ext" using assms(3) by (auto simp: f(3))
  then show ?thesis
  proof cases
    case (1 r)
    then have m: "run_moves A (is_gated db r) r r'" using f(4) by blast
    show ?thesis
      by (rule that(1) [OF 1(1) m kept_gated [OF assms(1) f(1,2) 1(1) run_moves_frame(2) [OF m]]])
  qed (use f(5) that(2) in blast)
qed

lemma evolves_inv: "evolves A db db' \<Longrightarrow> jobs_inv db'"
  by (simp add: evolves_def)

lemma evolves_begun: "jobs_inv db \<Longrightarrow> evolves A db db' \<Longrightarrow> begun g db i \<Longrightarrow> begun g db' i"
proof -
  assume a: "jobs_inv db" "evolves A db db'" "begun g db i"
  then obtain r where r: "r \<in> set (d_runs db)" "r_id r = i" "is_gated db r = g" "stage_no r \<noteq> 0"
    "g \<longrightarrow> r_claimable_at r \<noteq> None"
    by (auto simp: begun_def)
  obtain r' where r': "r' \<in> set (d_runs db')" "run_moves A (is_gated db r) r r'" "is_gated db' r' = is_gated db r"
    using evolves_run [OF a(1,2) r(1)] by blast
  show "begun g db' i"
    unfolding begun_def
    by (rule bexI [OF _ r'(1)]) (use r r' run_moves_frame(1) [OF r'(2)] run_moves_forward [OF r'(2)] run_moves_approved [OF r'(2)] in auto)
qed

lemma evolves_key: "jobs_inv db \<Longrightarrow> evolves A db db' \<Longrightarrow> key_of db i = Some k \<Longrightarrow> key_of db' i = Some k"
  by (rule kept_key [of db db']) (auto simp: evolves_def)

lemma evolves_msg: "jobs_inv db \<Longrightarrow> evolves A db db' \<Longrightarrow> msg_ok db m \<Longrightarrow> msg_ok db' m"
proof -
  assume a: "jobs_inv db" "evolves A db db'" "msg_ok db m"
  then obtain r where r: "r \<in> set (d_runs db)" "r_id r = q_run m" "key_of db (r_job r) = Some (q_type m)"
    "\<not> ack_gated (q_type m)" by (auto simp: msg_ok_def)
  obtain r' where r': "r' \<in> set (d_runs db')" "run_moves A (is_gated db r) r r'"
    using evolves_run [OF a(1,2) r(1)] by blast
  show "msg_ok db' m"
    unfolding msg_ok_def
    by (rule bexI [OF _ r'(1)])
      (use r(2,4) run_moves_frame(1,2) [OF r'(2)] evolves_key [OF a(1,2) r(3)] in simp)
qed

definition step_ok :: "sys \<Rightarrow> sys \<Rightarrow> bool" where
  "step_ok S S' \<longleftrightarrow> evolves (set (s_acks S')) (s_db S) (s_db S') \<and> sys_inv S'"

lemma sys_inv_step:
  assumes "sys_inv S" "evolves (set (s_acks S')) (s_db S) (s_db S')" "set (s_acks S) \<subseteq> set (s_acks S')"
    and "\<And>m. m \<in> set (d_queue (s_db S')) \<Longrightarrow> m \<in> set (d_queue (s_db S)) \<or> msg_ok (s_db S') m"
    and "\<And>a. a \<in> set (d_artifacts (s_db S')) \<Longrightarrow>
      (\<exists>b \<in> set (d_artifacts (s_db S)). a_produced_by a = a_produced_by b \<and> a_job a = a_job b) \<or>
      made_by (set (s_started S')) (s_db S') a"
    and "distinct (s_started S')" "set (s_started S) \<subseteq> set (s_started S')"
    and "\<And>i. i \<in> set (s_started S') \<Longrightarrow> i \<in> set (s_started S) \<or> begun False (s_db S') i"
    and "distinct (s_claims S')" "\<And>i. i \<in> set (s_claims S') \<Longrightarrow> i \<in> set (s_claims S) \<or> begun True (s_db S') i"
  shows "step_ok S S'"
proof -
  note inv = sys_invD [OF assms(1)]
  have row: "row_ok (is_gated (s_db S') r') r' \<and> (r_claimable_at r' \<noteq> None \<longrightarrow> r_id r' \<in> set (s_acks S'))" if "r' \<in> set (d_runs (s_db S'))" for r'
  proof (cases rule: evolves_back [OF inv(1) assms(2) that])
    case (1 r)
    have "r_id r' \<in> set (s_acks S')" if "r_claimable_at r' \<noteq> None"
      using run_moves_claimable [OF 1(2) that] inv(3) [OF 1(1)] assms(3) run_moves_frame(1) [OF 1(2)] by auto
    then show ?thesis using run_moves_ok [OF 1(2) inv(2) [OF 1(1)]] 1(3) by simp
  next
    case 2
    then obtain r0 where r0: "initial (is_gated (s_db S') r') r0" "run_moves (set (s_acks S')) (is_gated (s_db S') r') r0 r'" by (auto simp: born_def)
    have "r_id r' \<in> set (s_acks S')" if "r_claimable_at r' \<noteq> None"
      using run_moves_claimable [OF r0(2) that] r0(1) run_moves_frame(1) [OF r0(2)] by (simp add: initial_def)
    then show ?thesis using born_ok [OF 2] by blast
  qed
  have msg: "msg_ok (s_db S') m" if "m \<in> set (d_queue (s_db S'))" for m
    using assms(4) [OF that] evolves_msg [OF inv(1) assms(2) inv(4)] by blast
  have art: "made_by (set (s_started S')) (s_db S') a" if a: "a \<in> set (d_artifacts (s_db S'))" for a
    using assms(5) [OF a]
  proof
    assume "\<exists>b \<in> set (d_artifacts (s_db S)). a_produced_by a = a_produced_by b \<and> a_job a = a_job b"
    then obtain b where b: "b \<in> set (d_artifacts (s_db S))" "a_produced_by a = a_produced_by b" "a_job a = a_job b" by blast
    show ?thesis
      using inv(9) [OF b(1)] b(2,3) assms(7) evolves_key [OF inv(1) assms(2)] by (auto simp: made_by_def)
  qed
  have "begun False (s_db S') i" if "i \<in> set (s_started S')" for i
    using assms(8) [OF that] evolves_begun [OF inv(1) assms(2) inv(6)] by blast
  moreover have "begun True (s_db S') i" if "i \<in> set (s_claims S')" for i
    using assms(10) [OF that] evolves_begun [OF inv(1) assms(2) inv(8)] by blast
  ultimately show ?thesis
    unfolding step_ok_def sys_inv_def using assms(2) evolves_inv [OF assms(2)] row msg art assms(6,9) by simp
qed

section \<open>Every step keeps the invariant\<close>

lemma evolves_rows:
  assumes "jobs_inv db" "evolves A db db'" "\<And>r. r \<in> set (d_runs db) \<Longrightarrow> row_ok (is_gated db r) r" "r' \<in> set (d_runs db')"
  shows "row_ok (is_gated db' r') r'"
proof (cases rule: evolves_back [OF assms(1,2,4)])
  case (1 r)
  then show ?thesis using run_moves_ok [OF 1(2) assms(3) [OF 1(1)]] by simp
qed (rule born_ok)

text \<open>A message that names a queued run names one of an ordinary kind.\<close>

lemma names_run_msg:
  assumes "jobs_inv db" "\<And>r. r \<in> set (d_runs db) \<Longrightarrow> row_ok (is_gated db r) r"
    "names_run (d_runs db) (d_jobs db) m"
  shows "msg_ok db m"
proof -
  obtain r j where rj: "r \<in> set (d_runs db)" "j \<in> set (d_jobs db)" "r_id r = q_run m" "r_status r = Queued"
    "r_job r = j_id j" "j_key j = q_type m" using assms(3) by (auto simp: names_run_def)
  have k: "key_of db (r_job r) = Some (q_type m)" using key_of_job [OF assms(1) rj(2)] rj(5,6) by simp
  have "\<not> is_gated db r" using assms(2) [OF rj(1)] rj(4) by (auto simp: row_ok_def split: if_splits)
  then have "\<not> ack_gated (q_type m)" by (simp add: is_gated_def k)
  with rj k show ?thesis unfolding msg_ok_def by blast
qed

lemma tick_queue_ok:
  assumes "jobs_inv db" "\<And>r. r \<in> set (d_runs db) \<Longrightarrow> row_ok (is_gated db r) r" "m \<in> set (d_queue (tick e now db))"
  shows "m \<in> set (d_queue db) \<or> msg_ok (tick e now db) m"
proof (cases "e_configured e")
  case True
  have "m \<in> set (d_queue db) \<or> names_run (d_runs (tick e now db)) (d_jobs (tick e now db)) m"
    using tick_messages [OF assms(1) True, of now] assms(3) by auto
  then show ?thesis
    using names_run_msg [OF tick_inv [OF assms(1)] evolves_rows [OF assms(1) tick_evolves [OF assms(1)] assms(2)]] by blast
qed (use assms(3) in \<open>simp add: tick_def\<close>)

lemma recover_queue_ok:
  assumes "jobs_inv db" "\<And>r. r \<in> set (d_runs db) \<Longrightarrow> row_ok (is_gated db r) r" "m \<in> set (d_queue (RecoverOnce e db))"
  shows "m \<in> set (d_queue db) \<or> msg_ok db m"
proof (cases "e_configured e")
  case True
  then have "d_queue (RecoverOnce e db) = d_queue (redriveQueued e (e_wall e) db)"
    by (simp add: RecoverOnce_def maintenance_def)
  then have "m \<in> set (d_queue db) \<or> names_run (d_runs db) (d_jobs db) m"
    using redrive_queue [of e "e_wall e" db] assms(3) by auto
  then show ?thesis using names_run_msg [OF assms(1,2)] by blast
qed (use assms(3) in \<open>simp add: RecoverOnce_def\<close>)

lemma sweep_artifacts_kept:
  "a \<in> set (d_artifacts (maintenance e now db)) \<Longrightarrow>
     \<exists>b \<in> set (d_artifacts db). a_produced_by a = a_produced_by b \<and> a_job a = a_job b"
  by (auto simp: maintenance_def sweepArtifacts_def update_where_def)

lemma tick_artifacts_kept:
  "a \<in> set (d_artifacts (tick e now db)) \<Longrightarrow>
     \<exists>b \<in> set (d_artifacts db). a_produced_by a = a_produced_by b \<and> a_job a = a_job b"
  by (cases "e_configured e") (simp add: tick_artifacts, fastforce, auto simp: tick_def)

lemma recover_artifacts_kept:
  "a \<in> set (d_artifacts (RecoverOnce e db)) \<Longrightarrow>
     \<exists>b \<in> set (d_artifacts db). a_produced_by a = a_produced_by b \<and> a_job a = a_job b"
  unfolding RecoverOnce_def using sweep_artifacts_kept by (auto split: if_splits)

lemma mark_consumed_fields [simp]:
  "d_runs (MarkConsumed ids i db) = d_runs db" "d_jobs (MarkConsumed ids i db) = d_jobs db"
  "d_queue (MarkConsumed ids i db) = d_queue db"
  by (simp_all add: MarkConsumed_def)

lemma mark_consumed_kept:
  "a \<in> set (d_artifacts (MarkConsumed ids i db)) \<Longrightarrow>
     \<exists>b \<in> set (d_artifacts db). a_produced_by a = a_produced_by b \<and> a_job a = a_job b"
  by (auto simp: MarkConsumed_def update_where_def split: if_splits)

lemma llm_db:
  assumes "handleDigestLlm g mode task i now (db, ds) = (err, (db', ds'))"
  shows "\<exists>ids. db' = MarkConsumed ids i db"
proof -
  have none: "\<exists>ids. db = MarkConsumed ids i db" by (rule exI [of _ "[]"]) (simp add: MarkConsumed_def)
  have l: "\<exists>ids. fst (snd (LlmLocal g i now day (db, ds))) = MarkConsumed ids i db" for day
    using none by (auto simp: LlmLocal_def split: sum.split prod.split option.split)
  have f: "\<exists>ids. fst (snd (runDigestLlmFargate g task i now (db, ds))) = MarkConsumed ids i db"
    using none by (auto simp: runDigestLlmFargate_def split: sum.split prod.split option.split)
  have "\<exists>ids. fst (snd (handleDigestLlm g mode task i now (db, ds))) = MarkConsumed ids i db"
    using none l f by (auto simp: handleDigestLlm_def ack_unconfigured_def Let_def split: option.split)
  with assms show ?thesis by simp
qed

lemma scrape_db:
  assumes "handleDigestScrape g i now srcs db = (err, db')"
  shows "d_runs db' = d_runs db \<and> d_jobs db' = d_jobs db \<and> d_queue db' = d_queue db \<and>
    (\<forall>a \<in> set (d_artifacts db'). a \<in> set (d_artifacts db) \<or>
       a_produced_by a = i \<and> (\<exists>job. run_job db i = Some job \<and> a_job a = j_id job))"
proof (cases "i = 0")
  case False
  then have s: "ScrapeStage g i now srcs db = (err, db')" using assms by (simp add: handleDigestScrape_def)
  show ?thesis
  proof (cases rule: scrape_cases [OF s])
    case (3 job as)
    obtain ext where ext: "as = filter (\<lambda>a. \<not> superseded i a) (d_artifacts db) @ ext"
      "list_all2 (scraped_as (j_id job) i (now + artifactTTL)) (scrape_sections g (ActiveSourceInputs srcs)) ext"
      using write_artifacts_rows [OF 3(5)] by blast
    have "a_produced_by a = i \<and> a_job a = j_id job" if "a \<in> set ext" for a
      using list_all2_in' [OF ext(2) that] by (auto simp: scraped_as_def)
    then show ?thesis using 3(3) by (auto simp: 3(6) ext(1))
  qed simp_all
qed (use assms in \<open>simp add: handleDigestScrape_def\<close>)

lemma run_job_key:
  assumes "jobs_inv db" "msg_ok db m" "run_job db (q_run m) = Some job"
  shows "key_of db (j_id job) = Some (q_type m)"
proof -
  obtain r where r: "r \<in> set (d_runs db)" "r_id r = q_run m" "key_of db (r_job r) = Some (q_type m)"
    using assms(2) by (auto simp: msg_ok_def)
  have "job_of db (r_job r) = Some job" using assms(3) find_run [OF assms(1) r(1)] r(2) by (simp add: run_job_def)
  then show ?thesis using r(3) job_of_SomeD by (auto simp: key_of_def)
qed

lemma start_frame:
  assumes "jobs_inv db" "startJobRun e ctx i now db = (res, db')"
  shows "d_artifacts db' = d_artifacts db" "m \<in> set (d_queue db') \<Longrightarrow> m \<in> set (d_queue db) \<or> msg_ok db' m"
proof -
  show "d_artifacts db' = d_artifacts db" by (cases rule: start_cases [OF assms(2)]) simp_all
  assume m: "m \<in> set (d_queue db')"
  show "m \<in> set (d_queue db) \<or> msg_ok db' m"
  proof (cases rule: start_cases [OF assms(2)])
    case (4 job msg)
    have "key_of db' i = Some (j_key job)" using 4(2) key_of_cong [OF 4(7)] by (simp add: key_of_def)
    then have "msg_ok db' msg" using 4 by (simp add: msg_ok_def)
    then show ?thesis using m 4(9) by auto
  qed (use m in simp_all)
qed

text \<open>The artifact of an executed run belongs to an ordinary kind.\<close>

lemma producer_ok:
  assumes "sys_inv S" "a \<in> set (d_artifacts (s_db S))" "r \<in> set (d_runs (s_db S))" "r_id r = a_produced_by a"
  shows "\<not> is_gated (s_db S) r \<and> row_ok False r \<and> stage_no r \<noteq> 0"
proof -
  note inv = sys_invD [OF assms(1)]
  obtain x where x: "x \<in> set (d_runs (s_db S))" "r_id x = a_produced_by a" "is_gated (s_db S) x = False" "stage_no x \<noteq> 0"
    using inv(6) inv(9) [OF assms(2)] by (auto simp: made_by_def begun_def)
  then have "x = r" using unique_run [OF inv(1) assms(3) x(1)] assms(4) by simp
  with x inv(2) [OF assms(3)] show ?thesis by simp
qed

lemma started_ok:
  assumes "sys_inv S" "i \<in> set (s_started S)" "r \<in> set (d_runs (s_db S))" "r_id r = i"
  shows "\<not> is_gated (s_db S) r \<and> row_ok False r \<and> stage_no r \<noteq> 0"
proof -
  note inv = sys_invD [OF assms(1)]
  obtain x where x: "x \<in> set (d_runs (s_db S))" "r_id x = i" "is_gated (s_db S) x = False" "stage_no x \<noteq> 0"
    using inv(6) [OF assms(2)] by (auto simp: begun_def)
  then have "x = r" using unique_run [OF inv(1) assms(3) x(1)] assms(4) by simp
  with x inv(2) [OF assms(3)] show ?thesis by simp
qed

text \<open>A pick-up: the run was queued and is picked up for the first time.\<close>

lemma pick_up_begun:
  assumes "sys_inv S" "worker_claim i now (s_db S) = (db', True)"
  shows "i \<notin> set (s_started S)" "begun False db' i"
proof -
  note inv = sys_invD [OF assms(1)]
  have "count_where (\<lambda>r. r_id r = i \<and> r_status r = Queued) (d_runs (s_db S)) \<noteq> 0"
    using assms(2) by (simp add: worker_claim_def Let_def)
  then obtain r where r: "r \<in> set (d_runs (s_db S))" "r_id r = i" "r_status r = Queued" by (auto simp: count_where_0)
  have g: "\<not> is_gated (s_db S) r" using inv(2) [OF r(1)] r(3) by (auto simp: row_ok_def split: if_splits)
  show "i \<notin> set (s_started S)" using started_ok [OF assms(1) _ r(1,2)] r(3) by (auto simp: stage_no_def)
  have db': "d_jobs db' = d_jobs (s_db S)" "d_runs db' = update_where (\<lambda>r. r_id r = i \<and> r_status r = Queued)
      (\<lambda>r. r\<lparr>r_status := Running, r_started_at := Some now\<rparr>) (d_runs (s_db S))"
    using assms(2) by (auto simp: worker_claim_def Let_def)
  let ?r = "r\<lparr>r_status := Running, r_started_at := Some now\<rparr>"
  have "?r \<in> set (d_runs db')" using r unfolding db'(2) in_update_where by (intro bexI [of _ r]) simp_all
  moreover have "is_gated db' ?r = False" using g key_of_cong [OF db'(1)] by (simp add: is_gated_def)
  ultimately show "begun False db' i" unfolding begun_def by (rule_tac bexI) (use r in \<open>auto simp: stage_no_def\<close>)
qed

text \<open>A lease: the run was waiting, approved, and is leased for the first time.\<close>

lemma claim_begun:
  assumes "sys_inv S" "claimFinanceSync e ctx src now accts (s_db S) = (Inr out, db')" "co_claimed out"
  shows "co_run_id out \<notin> set (s_claims S)" "begun True db' (co_run_id out)"
proof -
  note inv = sys_invD [OF assms(1)]
  have "\<exists>r b. r \<in> set (d_runs (s_db S)) \<and> claimable_run (s_db S) r \<and> co_run_id out = r_id r \<and>
    d_runs db' = update_where (\<lambda>x. r_id x = r_id r \<and> r_status x = AwaitingAck) (lease_run now b) (d_runs (s_db S)) \<and>
    d_jobs db' = d_jobs (s_db S)"
  proof (cases rule: claim_cases [OF assms(2)])
    case (3 r b)
    show ?thesis by (rule exI [of _ r], rule exI [of _ "br_runner b"]) (use 3 in simp)
  qed (use assms(3) in \<open>auto simp: no_claim_def\<close>)
  then obtain r b where r: "r \<in> set (d_runs (s_db S))" "claimable_run (s_db S) r" "co_run_id out = r_id r"
    and db': "d_runs db' = update_where (\<lambda>x. r_id x = r_id r \<and> r_status x = AwaitingAck) (lease_run now b) (d_runs (s_db S))"
      "d_jobs db' = d_jobs (s_db S)" by blast
  have g: "is_gated (s_db S) r" "r_status r = AwaitingAck" "r_claimable_at r \<noteq> None"
    using r(2) has_sync_gated by (auto simp: claimable_run_def)
  show "co_run_id out \<notin> set (s_claims S)"
  proof
    assume "co_run_id out \<in> set (s_claims S)"
    then obtain x where x: "x \<in> set (d_runs (s_db S))" "r_id x = r_id r" "stage_no x \<noteq> 0"
      using inv(8) r(3) by (auto simp: begun_def)
    then have "x = r" using unique_run [OF inv(1) r(1)] by blast
    with x(3) g(2) show False by (simp add: stage_no_def)
  qed
  have "lease_run now b r \<in> set (d_runs db')"
    using r(1) g(2) unfolding db'(1) in_update_where by (intro bexI [of _ r]) simp_all
  moreover have "is_gated db' (lease_run now b r) = True"
    using g(1) key_of_cong [OF db'(2)] by (simp add: is_gated_def)
  ultimately show "begun True db' (co_run_id out)"
    unfolding begun_def by (rule_tac bexI) (use r(3) g(3) in \<open>auto simp: stage_no_def\<close>)
qed

lemma updated_artifact:
  "a \<in> set (update_where p f as) \<Longrightarrow> (\<And>x. a_produced_by (f x) = a_produced_by x \<and> a_job (f x) = a_job x) \<Longrightarrow>
     \<exists>b \<in> set as. a_produced_by a = a_produced_by b \<and> a_job a = a_job b"
  unfolding in_update_where by (metis (full_types))

text \<open>A step that logs nothing.\<close>

lemma step_tables:
  assumes "sys_inv S" "evolves (set (s_acks S)) (s_db S) (s_db S')"
    "\<And>m. m \<in> set (d_queue (s_db S')) \<Longrightarrow> m \<in> set (d_queue (s_db S)) \<or> msg_ok (s_db S') m"
    "\<And>a. a \<in> set (d_artifacts (s_db S')) \<Longrightarrow>
      (\<exists>b \<in> set (d_artifacts (s_db S)). a_produced_by a = a_produced_by b \<and> a_job a = a_job b) \<or>
      made_by (set (s_started S)) (s_db S') a"
    "s_started S' = s_started S" "s_claims S' = s_claims S" "s_acks S' = s_acks S"
  shows "step_ok S S'"
  by (rule sys_inv_step [OF assms(1)]) (use assms(2-7) sys_invD(5,7) [OF assms(1)] in auto)

lemma runs_same: "jobs_inv db \<Longrightarrow> d_jobs db' = d_jobs db \<Longrightarrow> d_runs db' = d_runs db \<Longrightarrow> evolves A db db'"
  by (rule evolves_same) (simp_all add: keys_kept_refl jobs_inv_def row_ids_def)

lemma scrape_step:
  assumes "sys_inv S" "m \<in> set (d_queue (s_db S))" "q_run m \<in> set (s_started S)" "q_type m = ''digest.scrape''"
    "handleDigestScrape g (q_run m) now srcs (s_db S) = (err, db')"
  shows "step_ok S (S\<lparr>s_db := db'\<rparr>)"
proof -
  note inv = sys_invD [OF assms(1)] and f = scrape_db [OF assms(5)]
  have ev: "evolves (set (s_acks S)) (s_db S) db'" using runs_same [OF inv(1)] f by blast
  have new: "made_by (set (s_started S)) db' a"
    if "a_produced_by a = q_run m" "run_job (s_db S) (q_run m) = Some job" "a_job a = j_id job" for a job
    using run_job_key [OF inv(1) inv(4) [OF assms(2)] that(2)] that(1,3) assms(3,4) key_of_cong [of db' "s_db S"] f
    by (simp add: made_by_def)
  show ?thesis by (rule step_tables [OF assms(1)]) (use ev f new in auto)
qed

lemma claim_step:
  assumes "sys_inv S" "claimFinanceSync y ctx src now accts (s_db S) = (cres, db')"
  shows "step_ok S (S\<lparr>s_db := db', s_claims := (case cres of Inl _ \<Rightarrow> s_claims S
      | Inr out \<Rightarrow> if co_claimed out then co_run_id out # s_claims S else s_claims S)\<rparr>)"
proof -
  note inv = sys_invD [OF assms(1)]
  let ?c = "case cres of Inl _ \<Rightarrow> s_claims S | Inr out \<Rightarrow> if co_claimed out then co_run_id out # s_claims S else s_claims S"
  have ev: "evolves (set (s_acks S)) (s_db S) db'" by (rule claim_evolves [OF inv(1) assms(2)])
  have fr: "d_artifacts db' = d_artifacts (s_db S)" "d_queue db' = d_queue (s_db S)"
    by (cases rule: claim_cases [OF assms(2)]; simp)+
  have c: "?c = s_claims S \<or> (\<exists>i. ?c = i # s_claims S \<and> i \<notin> set (s_claims S) \<and> begun True db' i)"
    using claim_begun [OF assms(1), of y ctx src now accts _ db'] assms(2) by (auto split: sum.splits)
  show ?thesis by (rule sys_inv_step [OF assms(1)]) (use ev fr c inv(5,7) in auto)
qed

lemma pick_up_step:
  assumes "sys_inv S" "worker_claim i now (s_db S) = (db', True)"
  shows "step_ok S (S\<lparr>s_db := db', s_started := i # s_started S\<rparr>)"
proof -
  note inv = sys_invD [OF assms(1)] and new = pick_up_begun [OF assms]
  have ev: "evolves (set (s_acks S)) (s_db S) db'"
    using worker_claim_evolves [OF inv(1,2), of "set (s_acks S)" i now] assms(2) by simp
  have fr: "d_artifacts db' = d_artifacts (s_db S)" "d_queue db' = d_queue (s_db S)"
    using assms(2) by (auto simp: worker_claim_def Let_def)
  show ?thesis by (rule sys_inv_step [OF assms(1)]) (use ev fr new inv(5,7) in auto)
qed

lemma ack_step:
  assumes "sys_inv S" "ackFinanceSync y i token now (s_db S) = (res, db')"
  shows "step_ok S (S\<lparr>s_db := db', s_acks := (if res = Inr True then i # s_acks S else s_acks S)\<rparr>)"
proof -
  note inv = sys_invD [OF assms(1)]
  let ?a = "if res = Inr True then i # s_acks S else s_acks S"
  have a: "set ?a = (if res = Inr True then insert i (set (s_acks S)) else set (s_acks S))" by simp
  have ev: "evolves (set ?a) (s_db S) db'" unfolding a by (rule ack_evolves [OF inv(1) assms(2)])
  have fr: "d_artifacts db' = d_artifacts (s_db S)" "d_queue db' = d_queue (s_db S)"
    by (cases rule: ack_cases [OF assms(2)]; simp)+
  show ?thesis by (rule sys_inv_step [OF assms(1)]) (use ev fr inv(5,7) in auto)
qed

theorem step_keeps:
  assumes "sys_inv S" "sys_step lib S S'"
  shows "step_ok S S'"
proof -
  note inv = sys_invD [OF assms(1)]
  have same: "step_ok S (S\<lparr>s_db := db', s_digests := ds\<rparr>)"
    if "evolves (set (s_acks S)) (s_db S) db'" "d_queue db' = d_queue (s_db S)"
      "\<And>a. a \<in> set (d_artifacts db') \<Longrightarrow>
         \<exists>b \<in> set (d_artifacts (s_db S)). a_produced_by a = a_produced_by b \<and> a_job a = a_job b" for db' ds
    by (rule step_tables [OF assms(1)]) (use that in auto)
  have digests: "S\<lparr>s_db := db'\<rparr> = S\<lparr>s_db := db', s_digests := s_digests S\<rparr>" for db' by simp
  from assms(2) show ?thesis
  proof cases
    case (ticks e w q now)
    show ?thesis unfolding ticks(1)
      by (rule step_tables [OF assms(1)])
        (simp_all add: tick_evolves [OF inv(1)] tick_queue_ok [OF inv(1,2)] tick_artifacts_kept)
  next
    case (recovers e w q)
    have ev: "evolves (set (s_acks S)) (s_db S) (RecoverOnce e (s_db S))" by (rule recover_evolves [OF inv(1)])
    show ?thesis unfolding recovers
      by (rule step_tables [OF assms(1)])
        (use ev recover_queue_ok [OF inv(1,2)] evolves_msg [OF inv(1) ev] recover_artifacts_kept in \<open>auto simp: recovers\<close>)
  next
    case (creates ctx cinp now res db')
    have "d_queue db' = d_queue (s_db S)" "d_artifacts db' = d_artifacts (s_db S)"
      by (cases rule: create_cases [OF creates(2)]; simp)+
    then show ?thesis unfolding creates(1) by (subst digests, intro same create_evolves [OF inv(1) creates(2)]) auto
  next
    case (updates ctx uinp now res db')
    have "d_queue db' = d_queue (s_db S)" "d_artifacts db' = d_artifacts (s_db S)"
      by (cases rule: update_cases [OF updates(2)]; simp)+
    then show ?thesis unfolding updates(1) by (subst digests, intro same update_evolves [OF inv(1) updates(2)]) auto
  next
    case (starts e w q ctx i now sres db')
    show ?thesis unfolding starts(1)
      by (rule step_tables [OF assms(1)])
        (use start_evolves [OF inv(1) starts(3)] start_frame [OF inv(1) starts(3)] in auto)
  next
    case (acks y i token now ares db')
    show ?thesis unfolding acks(1) by (rule ack_step [OF assms(1) acks(2)])
  next
    case (claims y ctx src now accts cres db')
    show ?thesis unfolding claims(1) by (rule claim_step [OF assms(1) claims(2)])
  next
    case (completes y ctx i status err now ares db')
    have "d_queue db' = d_queue (s_db S)" "d_artifacts db' = d_artifacts (s_db S)"
      by (cases rule: complete_cases [OF completes(2)]; simp)+
    then show ?thesis unfolding completes(1) by (subst digests, intro same complete_evolves [OF inv(1) completes(2)]) auto
  next
    case (claims_work k ctx key now wres db')
    have "d_queue db' = d_queue (s_db S)" by (cases rule: claimWork_cases [OF claims_work(2)]) simp_all
    moreover have "\<exists>b \<in> set (d_artifacts (s_db S)). a_produced_by a = a_produced_by b \<and> a_job a = a_job b"
      if a: "a \<in> set (d_artifacts db')" for a
    proof (cases rule: claimWork_cases [OF claims_work(2)])
      case (3 x run b)
      from a [unfolded 3(7)] show ?thesis by simp (rule updated_artifact, assumption, simp)
    qed (use a in auto)
    ultimately show ?thesis unfolding claims_work(1)
      by (subst digests, intro same claim_work_evolves [OF inv(1) claims_work(2)]) auto
  next
    case (completes_work k ctx winp keyID now ores db' ds')
    have "d_queue db' = d_queue (s_db S)" "\<And>a. a \<in> set (d_artifacts db') \<Longrightarrow>
        \<exists>b \<in> set (d_artifacts (s_db S)). a_produced_by a = a_produced_by b \<and> a_job a = a_job b"
      by (cases rule: complete_work_cases [OF completes_work(2)]; auto simp: close_work_def update_where_def)+
    then show ?thesis unfolding completes_work(1)
      by (intro same complete_work_evolves [OF inv(1) completes_work(2)] producer_ok [OF assms(1)])
  next
    case (picks_up m now db')
    show ?thesis unfolding picks_up(1) by (rule pick_up_step [OF assms(1) picks_up(4)])
  next
    case (scrapes m g now srcs derr db')
    show ?thesis unfolding scrapes(1) by (rule scrape_step [OF assms(1) scrapes(2-5)])
  next
    case (summarizes m g mode task now derr db' ds')
    obtain ids where d: "db' = MarkConsumed ids (q_run m) (s_db S)" using llm_db [OF summarizes(5)] by blast
    show ?thesis unfolding summarizes(1) d
      by (rule same [OF runs_same [OF inv(1)]]) (simp_all add: mark_consumed_kept)
  next
    case (builds g mode btask payload now srcs derr ds')
    show ?thesis unfolding builds(1)
      by (rule step_tables [OF assms(1)]) (use evolves_refl [OF inv(1)] in auto)
  next
    case (collects g now)
    show ?thesis unfolding collects
      by (rule step_tables [OF assms(1)]) (use evolves_refl [OF inv(1)] in auto)
  next
    case (finishes i st m now)
    have "evolves (set (s_acks S)) (s_db S) (finishRun i st m now (s_db S))"
      by (rule finish_evolves [OF inv(1) finishes(3)]) (rule started_ok [OF assms(1) finishes(2)])
    then show ?thesis unfolding finishes(1) by (subst digests, intro same) (auto simp: finishRun_def)
  qed
qed

lemma reachable_inv: "reachable lib S \<Longrightarrow> sys_inv S"
proof (induction rule: reachable.induct)
  case (boot db ds)
  then show ?case by (simp add: sys_inv_def)
next
  case (step S S')
  show ?case using step_keeps [OF step.IH step.hyps(2)] by (simp add: step_ok_def)
qed

lemma reachable_steps: "(sys_step lib)\<^sup>*\<^sup>* S S' \<Longrightarrow> reachable lib S \<Longrightarrow> reachable lib S'"
  by (induction rule: rtranclp_induct) (auto intro: reachable.step)

lemma step_acks: "sys_step lib S S' \<Longrightarrow> set (s_acks S) \<subseteq> set (s_acks S')"
  by (induction rule: sys_step.induct) auto

lemma steps_evolve:
  assumes "(sys_step lib)\<^sup>*\<^sup>* S S'" "reachable lib S"
  shows "evolves (set (s_acks S')) (s_db S) (s_db S')"
  using assms(1)
proof (induction rule: rtranclp_induct)
  case base
  show ?case by (rule evolves_refl [OF sys_invD(1) [OF reachable_inv [OF assms(2)]]])
next
  case (step S1 S2)
  have inv: "sys_inv S" "sys_inv S1"
    using reachable_inv assms(2) reachable_steps [OF step.hyps(1) assms(2)] by blast+
  have "evolves (set (s_acks S2)) (s_db S1) (s_db S2)"
    using step_keeps [OF inv(2) step.hyps(2)] by (simp add: step_ok_def)
  then show ?case
    by (rule evolves_trans [OF sys_invD(1) [OF inv(1)] evolves_mono [OF step.IH step_acks [OF step.hyps(2)]]])
qed

section \<open>What follows for the system\<close>

text \<open>C17: The whole system in any interleaving, every reachable state.  A run is picked up by
  the worker at most once, whatever messages are redelivered, and leased to a runner at most once.  No run of
  an ack-gated kind is ever handed to the worker, and one that was leased, is running or ended as
  succeeded or failed had its approval accepted; no run of another kind ever waits for an approval or is leased.  Every message in the queue
  names a run of its own job, and every stored artifact was made by a run the worker executed.\<close>

theorem lifecycle_safety:
  assumes "reachable lib S"
  shows "distinct (s_started S) \<and> distinct (s_claims S) \<and> set (s_claims S) \<subseteq> set (s_acks S) \<and>
    (\<forall>r \<in> set (d_runs (s_db S)).
       if is_gated (s_db S) r
       then r_id r \<notin> set (s_started S) \<and> r_status r \<noteq> Queued \<and>
            (r_status r \<in> {Running, Succeeded, Failed} \<longrightarrow> r_id r \<in> set (s_acks S))
       else r_id r \<notin> set (s_claims S) \<and> r_status r \<notin> {AwaitingAck, Cancelled}) \<and>
    (\<forall>m \<in> set (d_queue (s_db S)). \<exists>r \<in> set (d_runs (s_db S)). \<exists>j \<in> set (d_jobs (s_db S)).
       r_id r = q_run m \<and> r_job r = j_id j \<and> j_key j = q_type m \<and> \<not> ack_gated (j_key j)) \<and>
    (\<forall>a \<in> set (d_artifacts (s_db S)). a_produced_by a \<in> set (s_started S))"
proof -
  note inv = sys_invD [OF reachable_inv [OF assms]]
  have unique: "is_gated (s_db S) x = is_gated (s_db S) r"
    if "r \<in> set (d_runs (s_db S))" "x \<in> set (d_runs (s_db S))" "r_id x = r_id r" for r x
    using unique_run [OF inv(1) that] by simp
  have ack: "r_id r \<in> set (s_acks S)"
    if "r \<in> set (d_runs (s_db S))" "is_gated (s_db S) r" "r_status r \<in> {Running, Succeeded, Failed}" for r
    using inv(2,3) [OF that(1)] that(2,3) by (auto simp: row_ok_def)
  have run: "if is_gated (s_db S) r
       then r_id r \<notin> set (s_started S) \<and> r_status r \<noteq> Queued \<and>
            (r_status r \<in> {Running, Succeeded, Failed} \<longrightarrow> r_id r \<in> set (s_acks S))
       else r_id r \<notin> set (s_claims S) \<and> r_status r \<notin> {AwaitingAck, Cancelled}"
    if r: "r \<in> set (d_runs (s_db S))" for r
  proof (cases "is_gated (s_db S) r")
    case True
    have "r_id r \<notin> set (s_started S)" using inv(6) unique [OF r] True by (auto simp: begun_def)
    then show ?thesis using ack [OF r True] inv(2) [OF r] True by (simp add: row_ok_def)
  next
    case False
    have "r_id r \<notin> set (s_claims S)" using inv(8) unique [OF r] False by (auto simp: begun_def)
    then show ?thesis using inv(2) [OF r] False by (simp add: row_ok_def)
  qed
  have msg: "\<exists>r \<in> set (d_runs (s_db S)). \<exists>j \<in> set (d_jobs (s_db S)).
       r_id r = q_run m \<and> r_job r = j_id j \<and> j_key j = q_type m \<and> \<not> ack_gated (j_key j)"
    if m: "m \<in> set (d_queue (s_db S))" for m
  proof -
    obtain r j where r: "r \<in> set (d_runs (s_db S))" "r_id r = q_run m" "\<not> ack_gated (q_type m)"
      "job_of (s_db S) (r_job r) = Some j" "j_key j = q_type m"
      using inv(4) [OF m] by (auto simp: msg_ok_def key_of_def)
    then show ?thesis using job_of_SomeD [OF r(4)] by (intro bexI [of _ r] bexI [of _ j]) auto
  qed
  have claimed: "i \<in> set (s_acks S)" if "i \<in> set (s_claims S)" for i
    using inv(3) inv(8) [OF that] by (auto simp: begun_def)
  have made: "a_produced_by a \<in> set (s_started S)" if "a \<in> set (d_artifacts (s_db S))" for a
    using inv(9) [OF that] by (simp add: made_by_def)
  show ?thesis by (intro conjI ballI subsetI inv(5,7) claimed run msg made)
qed

text \<open>C18: The detailed operations implement the abstract life of a run.  Every step of the system, from every
  reachable state, moves each run of the table along the abstract machine's transitions only, with
  the approvals accepted so far; adds runs in their initial state, or moved on from it in the same
  way; and removes none.\<close>

theorem lifecycle_refinement:
  assumes "reachable lib S" "sys_step lib S S'"
  shows "\<exists>f ext. d_runs (s_db S') = map f (d_runs (s_db S)) @ ext \<and>
    (\<forall>r \<in> set (d_runs (s_db S)).
       (run_move (set (s_acks S')) (is_gated (s_db S) r))\<^sup>*\<^sup>* r (f r) \<and> is_gated (s_db S') (f r) = is_gated (s_db S) r) \<and>
    (\<forall>r \<in> set ext. \<exists>r0. initial (is_gated (s_db S') r) r0 \<and>
       (run_move (set (s_acks S')) (is_gated (s_db S') r))\<^sup>*\<^sup>* r0 r)"
proof -
  have inv: "jobs_inv (s_db S)" by (rule sys_invD(1) [OF reachable_inv [OF assms(1)]])
  have "evolves (set (s_acks S')) (s_db S) (s_db S')"
    using step_keeps [OF reachable_inv [OF assms(1)] assms(2)] by (simp add: step_ok_def)
  then obtain f ext where f: "jobs_inv (s_db S')" "keys_kept (s_db S) (s_db S')" "d_runs (s_db S') = map f (d_runs (s_db S)) @ ext"
    "\<forall>r \<in> set (d_runs (s_db S)). run_moves (set (s_acks S')) (is_gated (s_db S) r) r (f r)"
    "\<forall>r \<in> set ext. born (set (s_acks S')) (is_gated (s_db S') r) r"
    by (auto simp: evolves_def)
  have "is_gated (s_db S') (f r) = is_gated (s_db S) r" if "r \<in> set (d_runs (s_db S))" for r
    by (rule kept_gated [OF inv f(1,2) that]) (use run_moves_frame(2) f(4) that in blast)
  then show ?thesis using f(3-5) unfolding run_moves_def born_def by blast
qed

text \<open>No run comes back.  Along any sequence of steps no run goes back behind a stage it reached, in
  particular a run that started is never queued or up for approval again; and a run of an ack-gated
  kind that ended, whether succeeded, failed or cancelled, stays exactly as it is for good.\<close>

theorem no_run_comes_back:
  assumes "reachable lib S" "(sys_step lib)\<^sup>*\<^sup>* S S'" "r \<in> set (d_runs (s_db S))"
  shows "\<exists>r' \<in> set (d_runs (s_db S')). r_id r' = r_id r \<and> run_key r' = run_key r \<and> stage_no r \<le> stage_no r' \<and>
    (is_gated (s_db S) r \<and> r_status r \<in> {Succeeded, Failed, Cancelled} \<longrightarrow> r' = r)"
proof -
  have inv: "jobs_inv (s_db S)" by (rule sys_invD(1) [OF reachable_inv [OF assms(1)]])
  obtain r' where r': "r' \<in> set (d_runs (s_db S'))" "run_moves (set (s_acks S')) (is_gated (s_db S) r) r r'"
    using evolves_run [OF inv steps_evolve [OF assms(2,1)] assms(3)] by blast
  have "r' = r" if "is_gated (s_db S) r" "r_status r \<in> {Succeeded, Failed, Cancelled}"
    by (rule run_moves_final) (use r'(2) that in \<open>auto simp: stage_no_def\<close>)
  then show ?thesis
    using r'(1) run_moves_frame [OF r'(2)] run_moves_forward [OF r'(2)] by (intro bexI [of _ r'] conjI impI) auto
qed

text \<open>A stranded run executes.  In every reachable state, a scheduler-driven run left \<open>queued\<close> past the
  re-drive threshold has, after one tick with a queue that accepts, a message of its job's type; and
  handling that message takes the run up, whatever the job's handler then does, and acknowledges.\<close>

theorem stranded_run_executes:
  assumes "reachable lib S" "e_configured lib" "\<And>m. q m"
    and "r \<in> set (d_runs (s_db S))" "stranded now r" "r_id r \<noteq> 0"
  shows "\<exists>m \<in> set (d_queue (tick (lib\<lparr>e_wall := w, e_enqueue_ok := q\<rparr>) now (s_db S))).
    q_run m = r_id r \<and> key_of (s_db S) (r_job r) = Some (q_type m) \<and>
    (\<forall>hs t later. snd (process_message hs m t later (tick (lib\<lparr>e_wall := w, e_enqueue_ok := q\<rparr>) now (s_db S))) = (True, True))"
proof -
  let ?e = "lib\<lparr>e_wall := w, e_enqueue_ok := q\<rparr>"
  let ?t = "tick ?e now (s_db S)"
  note inv = sys_invD [OF reachable_inv [OF assms(1)]]
  have conf: "e_configured ?e" by (simp add: assms(2))
  have acc: "e_enqueue_ok ?e m" for m by (simp add: assms(3))
  have queued: "r_status r = Queued" using assms(5) by (simp add: stranded_def)
  have runs: "d_runs ?t = map (sweep_run now (evaluated ?e now (s_db S))) (d_runs (evaluated ?e now (s_db S)))"
    unfolding tick_configured [OF conf] by (rule maintenance_runs [OF evaluated_ids [OF inv(1)]])
  obtain ext where ext: "d_runs (evaluated ?e now (s_db S)) = d_runs (s_db S) @ ext"
    using evaluated_runs [OF inv(1)] by blast
  have "sweep_run now (evaluated ?e now (s_db S)) r = r" by (rule sweep_run_id) (simp_all add: queued)
  then have r: "r \<in> set (d_runs ?t)" using assms(4) unfolding runs ext by (metis UnI1 image_eqI set_append set_map)
  obtain ms where ms: "d_queue ?t = d_queue (s_db S) @ ms" "\<forall>m \<in> set ms. names_run (d_runs ?t) (d_jobs ?t) m"
    "r_id r \<in> q_run ` set ms"
    using tick_messages [OF inv(1) conf, of now] acc r queued assms(5) by blast
  then obtain m where m: "m \<in> set ms" "q_run m = r_id r" by auto
  have tinv: "jobs_inv ?t" by (rule tick_inv [OF inv(1)])
  obtain x j where x: "x \<in> set (d_runs ?t)" "j \<in> set (d_jobs ?t)" "r_id x = q_run m" "r_job x = j_id j" "j_key j = q_type m"
    using ms(2) m(1) by (auto simp: names_run_def)
  have "x = r" using unique_run [OF tinv r x(1)] x(3) m(2) by simp
  then have kt: "key_of ?t (r_job r) = Some (q_type m)" using key_of_job [OF tinv x(2)] x(4,5) by simp
  obtain k where k: "key_of (s_db S) (r_job r) = Some k" using run_key_of [OF inv(1) assms(4)] by blast
  have "key_of ?t (r_job r) = Some k" by (rule evolves_key [OF inv(1) tick_evolves [OF inv(1)] k])
  then have key: "key_of (s_db S) (r_job r) = Some (q_type m)" using k kt by simp
  have "snd (worker_claim (q_run m) t ?t)" for t
    unfolding worker_claim_def Let_def using r m(2) queued by (auto simp: count_where_0)
  then have "snd (process_message hs m t later ?t) = (True, True)" for hs t later
    using m(2) assms(6) by (auto simp: process_message_def processScheduled_def Let_def split: option.split)
  with ms(1) m key show ?thesis by (intro bexI [of _ m]) auto
qed

text \<open>Stored artifacts always belong to the scraping job, so a runner asking for the work of any other job
  is never given anything.\<close>

lemma only_scrape_work:
  assumes "reachable lib S" "key \<noteq> ''digest.scrape''" "claimWork k ctx key now (s_db S) = (res, db')"
  shows "db' = s_db S \<and> (\<exists>x. res = Inl x) \<or> res = Inr no_work"
proof -
  note inv = sys_invD [OF reachable_inv [OF assms(1)]]
  have none: "\<not> claimableArtifacts (s_db S) key now a" if "a \<in> set (d_artifacts (s_db S))" for a
    using inv(9) [OF that] assms(2) by (auto simp: made_by_def claimableArtifacts_def has_job_find key_of_def)
  show ?thesis
  proof (cases rule: claimWork_cases [OF assms(3)])
    case (3 a run b)
    then show ?thesis using none by blast
  qed simp_all
qed

section \<open>A concrete history\<close>

text \<open>At boot the three jobs of the catalog are there and nothing else.  One tick makes a queued scrape and a
  sync that awaits approval; the sync is approved and leased while the worker picks up the scrape.\<close>

definition ex_boot :: jobs_db where
  "ex_boot = ex_db\<lparr>d_runs := [], d_artifacts := []\<rparr>"

definition ex_tick1 :: jobs_db where "ex_tick1 = tick ex_env ex_now ex_boot"
definition ex_acked :: jobs_db where "ex_acked = snd (ackFinanceSync ex_sync 2 ''tap'' (ex_now + 5) ex_tick1)"
definition ex_leased :: jobs_db where "ex_leased = snd (claimFinanceSync ex_sync ex_ctx '''' (ex_now + 6) [] ex_acked)"
definition ex_running :: jobs_db where "ex_running = fst (worker_claim 1 (ex_now + 7) ex_leased)"

definition ex_sys :: "jobs_db \<Rightarrow> nat list \<Rightarrow> nat list \<Rightarrow> nat list \<Rightarrow> sys" where
  "ex_sys db started claims as = \<lparr>s_db = db, s_digests = [], s_started = started, s_claims = claims, s_acks = as\<rparr>"

lemma ex_boot_inv: "jobs_inv ex_boot" "d_runs ex_boot = []" "d_artifacts ex_boot = []" "d_queue ex_boot = []"
  by (code_simp, simp_all add: ex_boot_def ex_db_def)

lemma ex_answers:
  "fst (ackFinanceSync ex_sync 2 ''tap'' (ex_now + 5) ex_tick1) = Inr True"
  "map_sum id co_run_id (fst (claimFinanceSync ex_sync ex_ctx '''' (ex_now + 6) [] ex_acked)) = Inr 2"
  "map_sum id co_claimed (fst (claimFinanceSync ex_sync ex_ctx '''' (ex_now + 6) [] ex_acked)) = Inr True"
  "snd (worker_claim 1 (ex_now + 7) ex_leased) = True"
  "map (\<lambda>m. (q_run m, q_type m)) (d_queue ex_leased) = [(1, ''digest.scrape'')]"
  "map (\<lambda>r. (r_id r, r_job r, r_status r)) (d_runs ex_running) = [(1, 1, Running), (2, 3, Running)]"
  "map (\<lambda>r. (r_id r, r_status r)) (d_runs ex_tick1) = [(1, Queued), (2, AwaitingAck)]"
  by code_simp+

lemma ex_lib: "ex_env = ex_env\<lparr>e_wall := e_wall ex_env, e_enqueue_ok := e_enqueue_ok ex_env\<rparr>"
  by simp

lemma ex_reach1: "reachable ex_env (ex_sys ex_tick1 [] [] [])"
proof -
  have "sys_step ex_env (ex_sys ex_boot [] [] []) ((ex_sys ex_boot [] [] [])\<lparr>s_db := tick ex_env ex_now (s_db (ex_sys ex_boot [] [] []))\<rparr>)"
    by (rule sys_step.ticks [OF ex_lib])
  then have "sys_step ex_env (ex_sys ex_boot [] [] []) (ex_sys ex_tick1 [] [] [])"
    by (simp add: ex_sys_def ex_tick1_def)
  with reachable.boot [OF ex_boot_inv] show ?thesis by (metis ex_sys_def reachable.step)
qed

lemma ex_ack_step: "sys_step ex_env (ex_sys ex_tick1 [] [] []) (ex_sys ex_acked [] [] [2])"
proof -
  have "ackFinanceSync ex_sync 2 ''tap'' (ex_now + 5) (s_db (ex_sys ex_tick1 [] [] [])) = (Inr True, ex_acked)"
    using ex_answers(1) by (simp add: prod_eq_iff ex_acked_def ex_sys_def)
  from sys_step.acks [OF this] show ?thesis by (simp add: ex_sys_def)
qed

lemma ex_claim_step: "sys_step ex_env (ex_sys ex_acked [] [] [2]) (ex_sys ex_leased [] [2] [2])"
proof -
  obtain out where out: "fst (claimFinanceSync ex_sync ex_ctx '''' (ex_now + 6) [] ex_acked) = Inr out"
    "co_run_id out = 2" "co_claimed out"
    using ex_answers(2,3) by (cases "fst (claimFinanceSync ex_sync ex_ctx '''' (ex_now + 6) [] ex_acked)") auto
  then have "claimFinanceSync ex_sync ex_ctx '''' (ex_now + 6) [] (s_db (ex_sys ex_acked [] [] [2])) = (Inr out, ex_leased)"
    by (simp add: prod_eq_iff ex_leased_def ex_sys_def)
  from sys_step.claims [OF this] out(2,3) show ?thesis by (simp add: ex_sys_def)
qed

lemma ex_pick_step: "sys_step ex_env (ex_sys ex_leased [] [2] [2]) (ex_sys ex_running [1] [2] [2])"
proof -
  have "(1, ''digest.scrape'') \<in> set (map (\<lambda>m. (q_run m, q_type m)) (d_queue ex_leased))"
    by (simp add: ex_answers(5))
  then obtain m where m: "m \<in> set (d_queue (s_db (ex_sys ex_leased [] [2] [2])))" "q_run m = 1" by (auto simp: ex_sys_def)
  have "worker_claim (q_run m) (ex_now + 7) (s_db (ex_sys ex_leased [] [2] [2])) = (ex_running, True)"
    using ex_answers(4) m(2) by (simp add: prod_eq_iff ex_running_def ex_sys_def)
  from sys_step.picks_up [OF m(1) _ this] m(2) show ?thesis by (simp add: ex_sys_def)
qed

lemma ex_steps: "(sys_step ex_env)\<^sup>*\<^sup>* (ex_sys ex_tick1 [] [] []) (ex_sys ex_running [1] [2] [2])"
  by (meson ex_ack_step ex_claim_step ex_pick_step rtranclp.rtrancl_into_rtrancl rtranclp.rtrancl_refl)

lemma ex_row1: "\<exists>r \<in> set (d_runs ex_tick1). r_id r = 1 \<and> r_status r = Queued"
proof -
  have "(1, Queued) \<in> set (map (\<lambda>r. (r_id r, r_status r)) (d_runs ex_tick1))" by (simp add: ex_answers(7))
  then show ?thesis by auto
qed

theorem lifecycle_safety_witness:
  "reachable ex_env (ex_sys ex_running [1] [2] [2]) \<and>
     (\<exists>r \<in> set (d_runs ex_running). \<exists>m \<in> set (d_queue ex_running). r_id r = q_run m \<and> q_type m = ''digest.scrape'')"
proof -
  have "(1, ''digest.scrape'') \<in> set (map (\<lambda>m. (q_run m, q_type m)) (d_queue ex_running))"
    using ex_answers(5) by (simp add: ex_running_def worker_claim_def Let_def)
  then obtain m where "m \<in> set (d_queue ex_running)" "q_type m = ''digest.scrape''" by auto
  then show ?thesis
    using lifecycle_safety [OF reachable_steps [OF ex_steps ex_reach1]] reachable_steps [OF ex_steps ex_reach1]
    by (fastforce simp: ex_sys_def)
qed

theorem lifecycle_refinement_witness:
  "\<exists>f ext. d_runs ex_acked = map f (d_runs ex_tick1) @ ext \<and>
     (\<exists>r \<in> set (d_runs ex_tick1). r_id r = 1 \<and> (run_move {2} (is_gated ex_tick1 r))\<^sup>*\<^sup>* r (f r))"
  using lifecycle_refinement [OF ex_reach1 ex_ack_step] ex_row1 by (fastforce simp: ex_sys_def)

theorem no_run_comes_back_witness:
  "\<exists>r \<in> set (d_runs ex_tick1). \<exists>r' \<in> set (d_runs ex_running). r_status r = Queued \<and> r_id r' = r_id r \<and> run_key r' = run_key r"
proof -
  obtain r where "r \<in> set (d_runs ex_tick1)" "r_status r = Queued" using ex_row1 by blast
  then show ?thesis
    using no_run_comes_back [OF ex_reach1 ex_steps, of r] by (auto simp: ex_sys_def)
qed

lemma ex_stranded: "\<forall>r \<in> set (d_runs ex_tick1). r_id r = 1 \<longrightarrow> stranded (ex_now + hour_ns) r"
  by code_simp

theorem stranded_run_executes_witness:
  "\<exists>m \<in> set (d_queue (tick (ex_env\<lparr>e_wall := ex_now + hour_ns, e_enqueue_ok := \<lambda>_. True\<rparr>) (ex_now + hour_ns) ex_tick1)). q_run m = 1"
proof -
  obtain r where r: "r \<in> set (d_runs ex_tick1)" "r_id r = 1" using ex_row1 by blast
  have "e_configured ex_env" by (simp add: ex_env_def)
  then show ?thesis
    using stranded_run_executes [OF ex_reach1, of "\<lambda>_. True" r "ex_now + hour_ns" "ex_now + hour_ns"] r ex_stranded
    by (auto simp: ex_sys_def)
qed

end
