(* ===== verification/HashExample.thy ===== *)
theory HashExample
  imports Auth
begin

text \<open>Two tokens of the concrete runs below have different hashes, by evaluation.\<close>

lemma ex_hashes_differ: "hashToken ''a1'' \<noteq> hashToken ''a2''"
  by code_simp

end
