(* ===== verification/OAuth.thy ===== *)
theory OAuth
  imports HashExample
begin

text \<open>
  The self-hosted OAuth 2.1 server of \<open>internal/oauth\<close>: PKCE authorization codes (\<open>store.go\<close>), the
  token endpoint with refresh rotation (\<open>token.go\<close>), the consent-gated authorize endpoint
  (\<open>authorize.go\<close>), and the resource server's check of a bearer (\<open>oauth.go\<close>, \<open>internal/mcp/server.go\<close>).

  Random tokens are arguments of the operations that mint them.  A request is given by its parsed
  form or query; of a response the status, the texts, the redirect and the cookie are kept, its
  rendering as HTML, JSON or an escaped URL is not.  A failing database is not modelled, a violated
  unique index is.
\<close>

section \<open>Configuration\<close>

definition publicClientID :: string where "publicClientID = ''aliflabs-finance-mcp''"
definition financeReadScope :: string where "financeReadScope = ''finance.read''"
definition offlineAccessScope :: string where "offlineAccessScope = ''offline_access''"
definition authCodeTTL :: duration where "authCodeTTL = 60 * second_ns"
definition accessTokenTTL :: duration where "accessTokenTTL = hour_ns"
definition refreshTokenTTL :: duration where "refreshTokenTTL = 90 * 24 * hour_ns"
definition defaultBaseURL :: string where "defaultBaseURL = ''https://api.aliflabs.dev''"
definition claudeRedirectURI :: string where "claudeRedirectURI = ''https://claude.ai/api/mcp/auth_callback''"

record oauth_service =
  os_enabled :: bool
  os_base :: string
  os_resource :: string
  os_secure :: bool

definition trim_slashes :: "string \<Rightarrow> string" where
  "trim_slashes s = rev (dropWhile (\<lambda>c. c = CHR ''/'') (rev s))"

definition oauth_New :: "bool \<Rightarrow> string \<Rightarrow> oauth_service" where
  "oauth_New enabled baseURL =
     (let base = (if trim_slashes (trim_space baseURL) = '''' then defaultBaseURL
                  else trim_slashes (trim_space baseURL))
      in \<lparr>os_enabled = enabled, os_base = base, os_resource = base @ ''/mcp'',
          os_secure = prefix ''https://'' base\<rparr>)"

section \<open>Redirect targets\<close>

text \<open>What \<open>url.Parse\<close> makes of a string, as far as the check reads it: the scheme in lower case, the
  host name, and whether there is a fragment.  \<open>None\<close> is a parse error.  A bracketed host other than
  the loopback literal is either an error or a name that matches nothing, and is left out here; so
  is a host with a percent sign, whose decoded form keeps a byte no loopback name has.\<close>

definition url_letter :: "char \<Rightarrow> bool" where
  "url_letter c \<longleftrightarrow> (let n = (of_char (lower_char c) :: nat) in 97 \<le> n \<and> n \<le> 122)"

definition scheme_tail :: "char \<Rightarrow> bool" where
  "scheme_tail c \<longleftrightarrow> url_letter c \<or> is_digit c \<or> c \<in> set ''+-.''"

definition getScheme :: "string \<Rightarrow> (string \<times> string) option" where
  "getScheme u =
     (let s = takeWhile scheme_tail u; rest = dropWhile scheme_tail u
      in if u = '''' then Some ('''', u)
         else if hd u = CHR '':'' then None
         else if url_letter (hd u) \<and> rest \<noteq> '''' \<and> hd rest = CHR '':'' then Some (s, tl rest)
         else Some ('''', u))"

definition before :: "char \<Rightarrow> string \<Rightarrow> string" where
  "before c s = takeWhile (\<lambda>x. x \<noteq> c) s"

definition after_last :: "char \<Rightarrow> string \<Rightarrow> string" where
  "after_last c s = rev (takeWhile (\<lambda>x. x \<noteq> c) (rev s))"

definition before_last :: "char \<Rightarrow> string \<Rightarrow> string" where
  "before_last c s = rev (tl (dropWhile (\<lambda>x. x \<noteq> c) (rev s)))"

definition userinfo_ok :: "string \<Rightarrow> bool" where
  "userinfo_ok s \<longleftrightarrow>
     list_all (\<lambda>c. url_letter c \<or> is_digit c \<or> c \<in> set ''-._:~!$&()*+,;=%@'' \<or> c = CHR 0x27) s \<and> percent_ok s"

definition port_ok :: "string \<Rightarrow> bool" where
  "port_ok p \<longleftrightarrow> p = '''' \<or> hd p = CHR '':'' \<and> list_all is_digit (tl p)"

definition loopback_names :: "string list" where
  "loopback_names = [''127.0.0.1'', ''localhost'', ''::1'']"

text \<open>The host's name without its port, when the host is one the check can accept.\<close>

definition hostname :: "string \<Rightarrow> string option" where
  "hostname h =
     (if prefix ''['' h
      then (if prefix ''[::1]'' h \<and> port_ok (drop 5 h) then Some ''::1'' else None)
      else if CHR '':'' \<in> set h
      then (if port_ok (CHR '':'' # after_last CHR '':'' h) then Some (before_last CHR '':'' h) else None)
      else Some h)"

definition redirectURIAllowed :: "string \<Rightarrow> bool" where
  "redirectURIAllowed raw =
     (if raw = claudeRedirectURI then True
      else
       (let u = before CHR ''#'' raw; frag = drop (Suc (length u)) raw
        in if \<not> list_all (\<lambda>c. \<not> is_ctl c) u \<or> frag \<noteq> '''' then False
           else
            (case getScheme u of None \<Rightarrow> False
             | Some (scheme, rest) \<Rightarrow>
                (let noquery = before CHR ''?'' rest; authority = before CHR ''/'' (drop 2 noquery);
                     path = drop (length authority) (drop 2 noquery);
                     host = after_last CHR ''@'' authority
                 in to_lower scheme = ''http'' \<and> prefix ''//'' noquery \<and> percent_ok path \<and>
                    (CHR ''@'' \<in> set authority \<longrightarrow> userinfo_ok (before_last CHR ''@'' authority)) \<and>
                    (case hostname host of None \<Rightarrow> False | Some n \<Rightarrow> n \<in> set loopback_names)))))"

section \<open>Rows and PKCE\<close>

record auth_code =
  oc_id :: nat
  oc_hash :: string
  oc_client :: string
  oc_redirect :: string
  oc_challenge :: string
  oc_resource :: string
  oc_scope :: string
  oc_expires_at :: instant
  oc_used_at :: "instant option"
  oc_owner :: nat

record oauth_token =
  ot_id :: nat
  ot_access_hash :: string
  ot_refresh_hash :: "string option"
  ot_family :: string
  ot_client :: string
  ot_resource :: string
  ot_scope :: string
  ot_access_expires_at :: instant
  ot_refresh_expires_at :: "instant option"
  ot_rotated_at :: "instant option"
  ot_revoked_at :: "instant option"
  ot_owner :: nat

record oauth_db =
  o_auth :: auth_db
  o_codes :: "auth_code list"
  o_tokens :: "oauth_token list"

text \<open>\<open>encoding/base64\<close>, URL alphabet, no padding.\<close>

definition b64_char :: "int \<Rightarrow> char" where
  "b64_char n =
     (if n < 26 then char_of (65 + n) else if n < 52 then char_of (71 + n) else if n < 62 then char_of (n - 4)
      else if n = 62 then CHR ''-'' else CHR ''_'')"

fun base64url :: "int list \<Rightarrow> string" where
  "base64url [] = []"
| "base64url [a] = [b64_char (a div 4), b64_char (a mod 4 * 16)]"
| "base64url [a, b] = [b64_char (a div 4), b64_char (a mod 4 * 16 + b div 16), b64_char (b mod 16 * 4)]"
| "base64url (a # b # c # bs) =
     [b64_char (a div 4), b64_char (a mod 4 * 16 + b div 16), b64_char (b mod 16 * 4 + c div 64), b64_char (c mod 64)]
     @ base64url bs"

definition sha256_sum :: "string \<Rightarrow> int list" where
  "sha256_sum s =
     (let bs = sha_pad (map of_char s)
      in concat (map (\<lambda>w. be_bytes 4 (uint w)) (sha_blocks (length bs div 64) sha_h0 (be_words bs))))"

definition verifyPKCE :: "string \<Rightarrow> string \<Rightarrow> bool" where
  "verifyPKCE verifier challenge =
     (if verifier = '''' \<or> challenge = '''' then False else base64url (sha256_sum verifier) = challenge)"

definition scopeContains :: "string \<Rightarrow> string \<Rightarrow> bool" where
  "scopeContains scope want \<longleftrightarrow> want \<in> set (str_fields scope)"

definition grantedScope :: "string \<Rightarrow> string" where
  "grantedScope requested =
     join '' '' ([financeReadScope] @ (if offlineAccessScope \<in> set (str_fields requested) then [offlineAccessScope] else []))"

section \<open>Codes and tokens\<close>

datatype grant_error = BadGrant | ServerError

record code_grant =
  cg_user :: nat
  cg_client :: string
  cg_redirect :: string
  cg_challenge :: string
  cg_resource :: string
  cg_scope :: string

definition mintAuthCode :: "string \<Rightarrow> code_grant \<Rightarrow> instant \<Rightarrow> oauth_db \<Rightarrow> auth_code option \<times> oauth_db" where
  "mintAuthCode raw g now db =
     (if hashToken raw \<in> oc_hash ` set (o_codes db) \<or> user_by_id (o_auth db) (cg_user g) = None \<or>
         cg_client g = '''' \<or> cg_redirect g = '''' \<or> cg_challenge g = '''' \<or> cg_resource g = ''''
      then (None, db)
      else
       (let c = \<lparr>oc_id = fresh_id (map oc_id (o_codes db)), oc_hash = hashToken raw, oc_client = cg_client g,
                 oc_redirect = cg_redirect g, oc_challenge = cg_challenge g, oc_resource = cg_resource g,
                 oc_scope = cg_scope g, oc_expires_at = now + authCodeTTL, oc_used_at = None, oc_owner = cg_user g\<rparr>
        in (Some c, db\<lparr>o_codes := o_codes db @ [c]\<rparr>)))"

record token_pair =
  tp_access :: string
  tp_refresh :: string
  tp_expires_in :: int
  tp_scope :: string

text \<open>The raw access and refresh tokens are what \<open>randomToken\<close> returns.\<close>

definition new_token ::
  "string \<Rightarrow> string \<Rightarrow> nat \<Rightarrow> string \<Rightarrow> string \<Rightarrow> string \<Rightarrow> string \<Rightarrow> instant \<Rightarrow> oauth_token list \<Rightarrow> oauth_token" where
  "new_token access refresh user client resource scope family now ts =
     \<lparr>ot_id = fresh_id (map ot_id ts), ot_access_hash = hashToken access,
      ot_refresh_hash = (if scopeContains scope offlineAccessScope then Some (hashToken refresh) else None),
      ot_family = family, ot_client = client, ot_resource = resource, ot_scope = scope,
      ot_access_expires_at = now + accessTokenTTL,
      ot_refresh_expires_at = (if scopeContains scope offlineAccessScope then Some (now + refreshTokenTTL) else None),
      ot_rotated_at = None, ot_revoked_at = None, ot_owner = user\<rparr>"

definition token_clash :: "oauth_token \<Rightarrow> oauth_token list \<Rightarrow> bool" where
  "token_clash t ts \<longleftrightarrow>
     ot_access_hash t \<in> ot_access_hash ` set ts \<or>
     ot_refresh_hash t \<noteq> None \<and> ot_refresh_hash t \<in> ot_refresh_hash ` set ts"

definition issueTokens ::
  "string \<Rightarrow> string \<Rightarrow> nat \<Rightarrow> string \<Rightarrow> string \<Rightarrow> string \<Rightarrow> string \<Rightarrow> instant \<Rightarrow> oauth_db
     \<Rightarrow> (grant_error + token_pair) \<times> oauth_db" where
  "issueTokens access refresh user client resource scope family now db =
     (let t = new_token access refresh user client resource scope family now (o_tokens db)
      in if token_clash t (o_tokens db) \<or> family = '''' \<or> client = '''' \<or> resource = '''' then (Inl ServerError, db)
         else (Inr \<lparr>tp_access = access, tp_refresh = (if scopeContains scope offlineAccessScope then refresh else ''''),
                    tp_expires_in = accessTokenTTL div second_ns, tp_scope = scope\<rparr>,
               db\<lparr>o_tokens := o_tokens db @ [t]\<rparr>))"

text \<open>A redemption in its three steps: read and check the code, claim it by the conditional update, issue.\<close>

record code_request =
  cr_code :: string
  cr_verifier :: string
  cr_redirect :: string
  cr_client :: string
  cr_resource :: string

definition check_code :: "code_request \<Rightarrow> instant \<Rightarrow> oauth_db \<Rightarrow> auth_code option" where
  "check_code q now db =
     (case find (\<lambda>c. oc_hash c = hashToken (cr_code q)) (o_codes db) of None \<Rightarrow> None
      | Some c \<Rightarrow>
          if oc_used_at c \<noteq> None \<or> \<not> now < oc_expires_at c then None
          else if oc_client c \<noteq> cr_client q \<or> oc_redirect c \<noteq> cr_redirect q \<or>
                  (cr_resource q \<noteq> '''' \<and> oc_resource c \<noteq> cr_resource q) \<or>
                  \<not> verifyPKCE (cr_verifier q) (oc_challenge c) then None
          else if user_by_id (o_auth db) (oc_owner c) = None then None
          else Some c)"

definition claim_code :: "nat \<Rightarrow> instant \<Rightarrow> oauth_db \<Rightarrow> oauth_db \<times> bool" where
  "claim_code i now db =
     (let p = (\<lambda>c. oc_id c = i \<and> oc_used_at c = None)
      in (db\<lparr>o_codes := update_where p (\<lambda>c. c\<lparr>oc_used_at := Some now\<rparr>) (o_codes db)\<rparr>,
          count_where p (o_codes db) = 1))"

definition issue_for_code ::
  "auth_code \<Rightarrow> string \<Rightarrow> string \<Rightarrow> string \<Rightarrow> string \<Rightarrow> instant \<Rightarrow> oauth_db \<Rightarrow> (grant_error + token_pair) \<times> oauth_db" where
  "issue_for_code c client family access refresh now db =
     issueTokens access refresh (oc_owner c) client (oc_resource c) (oc_scope c) family now db"

definition redeemAuthCode ::
  "code_request \<Rightarrow> string \<Rightarrow> string \<Rightarrow> string \<Rightarrow> instant \<Rightarrow> oauth_db \<Rightarrow> (grant_error + token_pair) \<times> oauth_db" where
  "redeemAuthCode q family access refresh now db =
     (case check_code q now db of None \<Rightarrow> (Inl BadGrant, db)
      | Some c \<Rightarrow>
         (let cl = claim_code (oc_id c) now db
          in if \<not> snd cl then (Inl BadGrant, fst cl)
             else issue_for_code c (cr_client q) family access refresh now (fst cl)))"

text \<open>The rotation is one transaction behind a lock on the family; a failed issue rolls it back.\<close>

definition revoke_family :: "string \<Rightarrow> instant \<Rightarrow> oauth_db \<Rightarrow> oauth_db" where
  "revoke_family family now db =
     db\<lparr>o_tokens := update_where (\<lambda>t. ot_family t = family \<and> ot_revoked_at t = None)
          (\<lambda>t. t\<lparr>ot_revoked_at := Some now\<rparr>) (o_tokens db)\<rparr>"

definition rotateRefresh ::
  "string \<Rightarrow> string \<Rightarrow> string \<Rightarrow> string \<Rightarrow> instant \<Rightarrow> oauth_db \<Rightarrow> (grant_error + token_pair) \<times> oauth_db" where
  "rotateRefresh rawRefresh clientID access refresh now db =
     (case find (\<lambda>t. ot_refresh_hash t = Some (hashToken rawRefresh)) (o_tokens db) of
        None \<Rightarrow> (Inl BadGrant, db)
      | Some presented \<Rightarrow>
         (let family = filter (\<lambda>t. ot_family t = ot_family presented) (o_tokens db)
          in case find (\<lambda>t. ot_id t = ot_id presented) family of
               None \<Rightarrow> (Inl BadGrant, db)
             | Some row \<Rightarrow>
                 if ot_rotated_at row \<noteq> None then (Inl BadGrant, revoke_family (ot_family row) now db)
                 else if ot_revoked_at row \<noteq> None \<or>
                         (case ot_refresh_expires_at row of None \<Rightarrow> True | Some e \<Rightarrow> \<not> now < e) \<or>
                         ot_client row \<noteq> clientID then (Inl BadGrant, db)
                 else if user_by_id (o_auth db) (ot_owner row) = None then (Inl BadGrant, db)
                 else
                  (let db1 = db\<lparr>o_tokens := update_where (\<lambda>t. ot_id t = ot_id row)
                               (\<lambda>t. t\<lparr>ot_rotated_at := Some now\<rparr>) (o_tokens db)\<rparr>
                   in case issueTokens access refresh (ot_owner row) clientID (ot_resource row) (ot_scope row)
                             (ot_family row) now db1 of
                        (Inl err, _) \<Rightarrow> (Inl err, db)
                      | (Inr pair, db2) \<Rightarrow> (Inr pair, db2))))"

definition VerifyMCPAccess :: "oauth_service \<Rightarrow> string \<Rightarrow> instant \<Rightarrow> oauth_db \<Rightarrow> bool" where
  "VerifyMCPAccess s raw now db =
     (if \<not> os_enabled s \<or> raw = '''' then False
      else (case find (\<lambda>t. ot_access_hash t = hashToken raw) (o_tokens db) of None \<Rightarrow> False
            | Some row \<Rightarrow>
                if ot_revoked_at row \<noteq> None \<or> \<not> now < ot_access_expires_at row then False
                else if ot_resource row \<noteq> os_resource s then False
                else scopeContains (ot_scope row) financeReadScope))"

text \<open>The finance endpoint takes a static token with the scope, or a token of this server.\<close>

definition mcp_authorize :: "oauth_service \<Rightarrow> string \<Rightarrow> instant \<Rightarrow> oauth_db \<Rightarrow> bool" where
  "mcp_authorize s header now db =
     (let raw = readBearer header
      in if raw = '''' then False
         else if (case AuthenticateBearer raw now (o_auth db) of None \<Rightarrow> False | Some b \<Rightarrow> Allows b financeReadScope)
         then True
         else if os_enabled s then VerifyMCPAccess s raw now db else False)"

definition mcp_challenge :: "oauth_service \<Rightarrow> string" where
  "mcp_challenge s =
     (let q = [CHR 0x22]
      in if os_enabled s
         then ''Bearer resource_metadata='' @ q @ os_base s @ ''/.well-known/oauth-protected-resource'' @ q @
              '', scope='' @ q @ financeReadScope @ q
         else ''Bearer realm='' @ q @ ''mcp'' @ q @ '', scope='' @ q @ financeReadScope @ q)"

section \<open>The token endpoint\<close>

datatype token_response = TNotFound | TError int string string | TTokens token_pair

record token_request =
  tq_content_type :: string
  tq_form :: "(string \<Rightarrow> string) option"

text \<open>The random strings a grant may draw.\<close>

record draws =
  dw_family :: string
  dw_access :: string
  dw_refresh :: string

definition grant_response :: "string \<Rightarrow> (grant_error + token_pair) \<Rightarrow> token_response" where
  "grant_response msg r =
     (case r of Inr pair \<Rightarrow> TTokens pair
      | Inl BadGrant \<Rightarrow> TError 400 ''invalid_grant'' msg
      | Inl ServerError \<Rightarrow> TError 500 ''server_error'' ''could not issue token'')"

definition grantAuthorizationCode ::
  "(string \<Rightarrow> string) \<Rightarrow> draws \<Rightarrow> instant \<Rightarrow> oauth_db \<Rightarrow> token_response \<times> oauth_db" where
  "grantAuthorizationCode form d now db =
     (if form ''code'' = '''' \<or> form ''code_verifier'' = ''''
      then (TError 400 ''invalid_request'' ''code and code_verifier are required'', db)
      else map_prod (grant_response ''the authorization code is invalid, expired, or already used'') id
             (redeemAuthCode \<lparr>cr_code = form ''code'', cr_verifier = form ''code_verifier'',
                cr_redirect = form ''redirect_uri'', cr_client = form ''client_id'', cr_resource = form ''resource''\<rparr>
                (dw_family d) (dw_access d) (dw_refresh d) now db))"

definition grantRefreshToken ::
  "(string \<Rightarrow> string) \<Rightarrow> draws \<Rightarrow> instant \<Rightarrow> oauth_db \<Rightarrow> token_response \<times> oauth_db" where
  "grantRefreshToken form d now db =
     (if form ''refresh_token'' = ''''
      then (TError 400 ''invalid_request'' ''refresh_token is required'', db)
      else map_prod (grant_response ''the refresh token is invalid, expired, revoked, or already used'') id
             (rotateRefresh (form ''refresh_token'') (form ''client_id'') (dw_access d) (dw_refresh d) now db))"

definition handleToken ::
  "oauth_service \<Rightarrow> token_request \<Rightarrow> draws \<Rightarrow> instant \<Rightarrow> oauth_db \<Rightarrow> token_response \<times> oauth_db" where
  "handleToken s rq d now db =
     (if \<not> os_enabled s then (TNotFound, db)
      else if \<not> prefix ''application/x-www-form-urlencoded'' (tq_content_type rq)
      then (TError 400 ''invalid_request'' ''token endpoint requires application/x-www-form-urlencoded'', db)
      else (case tq_form rq of
              None \<Rightarrow> (TError 400 ''invalid_request'' ''malformed form body'', db)
            | Some form \<Rightarrow>
                if form ''client_id'' \<noteq> publicClientID then (TError 400 ''invalid_client'' ''unknown client'', db)
                else if form ''grant_type'' = ''authorization_code'' then grantAuthorizationCode form d now db
                else if form ''grant_type'' = ''refresh_token'' then grantRefreshToken form d now db
                else (TError 400 ''unsupported_grant_type'' ''grant_type must be authorization_code or refresh_token'', db)))"

section \<open>The authorize endpoint\<close>

record authz_params =
  ap_response_type :: string
  ap_client :: string
  ap_redirect :: string
  ap_scope :: string
  ap_state :: string
  ap_challenge :: string
  ap_method :: string
  ap_resource :: string

record consent_view =
  cv_client :: string
  cv_redirect :: string
  cv_scope :: string
  cv_scope_label :: string
  cv_state :: string
  cv_challenge :: string
  cv_resource :: string
  cv_email :: string
  cv_csrf :: string

datatype authz_response =
    ANotFound
  | AErrorPage int string
  | ALogin string
  | AConsent consent_view
  | ARedirectError string string string string
  | ARedirectCode string string string

definition authz_params_of :: "(string \<Rightarrow> string) \<Rightarrow> authz_params" where
  "authz_params_of get =
     \<lparr>ap_response_type = get ''response_type'', ap_client = get ''client_id'', ap_redirect = get ''redirect_uri'',
      ap_scope = get ''scope'', ap_state = get ''state'', ap_challenge = get ''code_challenge'',
      ap_method = get ''code_challenge_method'', ap_resource = get ''resource''\<rparr>"

definition redirectError :: "authz_params \<Rightarrow> string \<Rightarrow> string \<Rightarrow> authz_response" where
  "redirectError p code desc = ARedirectError (ap_redirect p) code desc (ap_state p)"

definition validateAuthz :: "oauth_service \<Rightarrow> (string \<Rightarrow> string) \<Rightarrow> authz_response + authz_params" where
  "validateAuthz s get =
     (let p = authz_params_of get
      in if ap_client p \<noteq> publicClientID then Inl (AErrorPage 400 ''Unknown client.'')
         else if \<not> redirectURIAllowed (ap_redirect p) then Inl (AErrorPage 400 ''Invalid redirect_uri.'')
         else if ap_response_type p \<noteq> ''code''
         then Inl (redirectError p ''unsupported_response_type'' ''only response_type=code is supported'')
         else if ap_challenge p = '''' \<or> ap_method p \<noteq> ''S256''
         then Inl (redirectError p ''invalid_request'' ''PKCE with code_challenge_method=S256 is required'')
         else if ap_resource p \<noteq> os_resource s
         then Inl (redirectError p ''invalid_target'' ''resource must be the MCP URL'')
         else Inr p)"

definition AuthenticateRequest :: "string \<Rightarrow> instant \<Rightarrow> auth_db \<Rightarrow> user option \<times> auth_db" where
  "AuthenticateRequest cookie now db =
     (if cookie = '''' then (None, db)
      else (fst (fst (Authenticate cookie now db)), snd (Authenticate cookie now db)))"

definition csrfCookie :: "oauth_service \<Rightarrow> string \<Rightarrow> cookie" where
  "csrfCookie s v =
     \<lparr>k_cookie = ''oauth_consent_csrf'', k_value = v, k_domain = '''', k_secure = os_secure s, k_max_age = 600\<rparr>"

definition clearCSRFCookie :: "oauth_service \<Rightarrow> cookie" where
  "clearCSRFCookie s = (csrfCookie s '''')\<lparr>k_max_age := - 1\<rparr>"

definition handleAuthorize ::
  "oauth_service \<Rightarrow> (string \<Rightarrow> string) \<Rightarrow> string \<Rightarrow> string \<Rightarrow> string \<Rightarrow> instant \<Rightarrow> oauth_db
     \<Rightarrow> (authz_response \<times> cookie list) \<times> oauth_db" where
  "handleAuthorize s get uri sess csrf now db =
     (if \<not> os_enabled s then ((ANotFound, []), db)
      else (case validateAuthz s get of Inl r \<Rightarrow> ((r, []), db)
            | Inr p \<Rightarrow>
               (let a = AuthenticateRequest sess now (o_auth db); db1 = db\<lparr>o_auth := snd a\<rparr>
                in case fst a of
                     None \<Rightarrow> ((ALogin uri, []), db1)
                   | Some u \<Rightarrow>
                       if u_role u \<noteq> Admin
                       then ((AErrorPage 403 ''Only the site owner may authorize this connection.'', []), db1)
                       else ((AConsent \<lparr>cv_client = ap_client p, cv_redirect = ap_redirect p, cv_scope = ap_scope p,
                                cv_scope_label = grantedScope (ap_scope p), cv_state = ap_state p,
                                cv_challenge = ap_challenge p, cv_resource = ap_resource p, cv_email = u_email u,
                                cv_csrf = csrf\<rparr>, [csrfCookie s csrf]), db1))))"

text \<open>\<open>cookie\<close> is the value of the CSRF cookie of the request, if it has one.\<close>

definition handleConsent ::
  "oauth_service \<Rightarrow> (string \<Rightarrow> string) option \<Rightarrow> string \<Rightarrow> string option \<Rightarrow> string \<Rightarrow> instant \<Rightarrow> oauth_db
     \<Rightarrow> (authz_response \<times> cookie list) \<times> oauth_db" where
  "handleConsent s form sess cookie raw now db =
     (if \<not> os_enabled s then ((ANotFound, []), db)
      else (case form of None \<Rightarrow> ((AErrorPage 400 ''Malformed form.'', []), db)
      | Some get \<Rightarrow>
       (case validateAuthz s get of Inl r \<Rightarrow> ((r, []), db)
        | Inr p \<Rightarrow>
         (let a = AuthenticateRequest sess now (o_auth db); db1 = db\<lparr>o_auth := snd a\<rparr>
          in case fst a of
               None \<Rightarrow> ((AErrorPage 401 ''Sign in required.'', []), db1)
             | Some u \<Rightarrow>
                 if u_role u \<noteq> Admin
                 then ((AErrorPage 403 ''Only the site owner may authorize this connection.'', []), db1)
                 else if cookie = None \<or> the cookie = '''' \<or> get ''csrf'' = '''' \<or> the cookie \<noteq> get ''csrf''
                 then ((AErrorPage 403 ''Invalid or missing CSRF token.'', []), db1)
                 else if get ''action'' \<noteq> ''approve''
                 then ((redirectError p ''access_denied'' ''the request was not approved'', [clearCSRFCookie s]), db1)
                 else
                  (case mintAuthCode raw \<lparr>cg_user = u_id u, cg_client = ap_client p, cg_redirect = ap_redirect p,
                          cg_challenge = ap_challenge p, cg_resource = ap_resource p,
                          cg_scope = grantedScope (ap_scope p)\<rparr> now db1 of
                     (None, db2) \<Rightarrow> ((AErrorPage 500 ''Something went wrong.'', [clearCSRFCookie s]), db2)
                   | (Some c, db2) \<Rightarrow> ((ARedirectCode (ap_redirect p) raw (ap_state p), [clearCSRFCookie s]), db2))))))"

section \<open>PKCE\<close>

lemma b64_char_inj: "0 \<le> m \<Longrightarrow> m < 64 \<Longrightarrow> 0 \<le> n \<Longrightarrow> n < 64 \<Longrightarrow> b64_char m = b64_char n \<Longrightarrow> m = n"
proof -
  have "\<forall>m \<in> set [0..63]. \<forall>n \<in> set [0..63]. b64_char m = b64_char n \<longrightarrow> m = n" by code_simp
  then show "0 \<le> m \<Longrightarrow> m < 64 \<Longrightarrow> 0 \<le> n \<Longrightarrow> n < 64 \<Longrightarrow> b64_char m = b64_char n \<Longrightarrow> m = n" by simp
qed

definition byte :: "int \<Rightarrow> bool" where "byte b \<longleftrightarrow> 0 \<le> b \<and> b < 256"

lemma split_k:
  assumes "0 \<le> y" "y < k" "0 \<le> y'" "y' < k" "x * k + y = x' * k + (y' :: int)"
  shows "x = x' \<and> y = y'"
proof -
  have "(x * k + y) div k = x" "(x' * k + y') div k = x'" using assms(1-4) by simp_all
  with assms(5) show ?thesis by simp
qed

lemma byte_div: "byte b \<Longrightarrow> 0 \<le> b div 4 \<and> b div 4 < 64 \<and> 0 \<le> b div 16 \<and> b div 16 < 16 \<and> 0 \<le> b div 64 \<and> b div 64 < 4"
  unfolding byte_def by linarith

lemma sextet_bounds:
  "byte b \<Longrightarrow> 0 \<le> a mod 4 * 16 + b div 16 \<and> a mod 4 * 16 + b div 16 < 64"
  "byte c \<Longrightarrow> 0 \<le> b mod 16 * 4 + c div 64 \<and> b mod 16 * 4 + c div 64 < 64"
  unfolding byte_def by linarith+

lemma sextet_mod: "0 \<le> a mod 4 * (16::int)" "a mod 4 * 16 < (64::int)" "0 \<le> a mod 16 * (4::int)" "a mod 16 * 4 < (64::int)" 
  "0 \<le> a mod (64::int)" "a mod 64 < (64::int)" by linarith+

lemma div_mod_eq: "a div k = a' div k \<Longrightarrow> a mod k = a' mod k \<Longrightarrow> a = (a' :: int)"
  by (metis div_mult_mod_eq)

lemma base64url_inj:
  "list_all byte xs \<Longrightarrow> list_all byte ys \<Longrightarrow> length xs = length ys \<Longrightarrow> base64url xs = base64url ys \<Longrightarrow> xs = ys"
proof (induction xs arbitrary: ys rule: base64url.induct)
  case (2 a)
  then obtain a' where ys: "ys = [a']" by (cases ys rule: base64url.cases) auto
  have d: "a div 4 = a' div 4" by (rule b64_char_inj) (use 2 in \<open>auto simp: byte_def ys\<close>)
  have m: "b64_char (a mod 4 * 16) = b64_char (a' mod 4 * 16)" using 2 by (simp add: ys)
  have "a mod 4 * 16 = a' mod 4 * 16" by (rule b64_char_inj [OF _ _ _ _ m]) (rule sextet_mod)+
  with d have "a = a'" by presburger
  then show ?case by (simp add: ys)
next
  case (3 a b)
  then obtain a' b' where ys: "ys = [a', b']" by (cases ys rule: base64url.cases) auto
  have m: "b64_char (a div 4) = b64_char (a' div 4)"
    "b64_char (a mod 4 * 16 + b div 16) = b64_char (a' mod 4 * 16 + b' div 16)"
    "b64_char (b mod 16 * 4) = b64_char (b' mod 16 * 4)" and r: "byte a" "byte b" "byte a'" "byte b'"
    using 3 by (simp_all add: ys)
  have "a div 4 = a' div 4" by (rule b64_char_inj [OF _ _ _ _ m(1)]) (use byte_div r in blast)+
  moreover have e: "a mod 4 * 16 + b div 16 = a' mod 4 * 16 + b' div 16"
    by (rule b64_char_inj [OF _ _ _ _ m(2)]) (use sextet_bounds r in blast)+
  have "a mod 4 = a' mod 4 \<and> b div 16 = b' div 16" by (rule split_k [OF _ _ _ _ e]) (use byte_div r in blast)+
  moreover have "b mod 16 * 4 = b' mod 16 * 4" by (rule b64_char_inj [OF _ _ _ _ m(3)]) (rule sextet_mod)+
  ultimately have "a = a'" "b = b'" by (auto intro: div_mod_eq)
  then show ?case by (simp add: ys)
next
  case (4 a b c bs)
  then obtain a' b' c' bs' where ys: "ys = a' # b' # c' # bs'" "length bs' = length bs"
    by (cases ys rule: base64url.cases) auto
  have r: "byte a" "byte b" "byte c" "byte a'" "byte b'" "byte c'" "list_all byte bs" "list_all byte bs'"
    using 4(2,3) by (auto simp: ys)
  have m: "b64_char (a div 4) = b64_char (a' div 4)"
    "b64_char (a mod 4 * 16 + b div 16) = b64_char (a' mod 4 * 16 + b' div 16)"
    "b64_char (b mod 16 * 4 + c div 64) = b64_char (b' mod 16 * 4 + c' div 64)"
    "b64_char (c mod 64) = b64_char (c' mod 64)" and t: "base64url bs = base64url bs'"
    using 4(5) by (simp_all add: ys)
  have "a div 4 = a' div 4" by (rule b64_char_inj [OF _ _ _ _ m(1)]) (use byte_div r in blast)+
  moreover have e: "a mod 4 * 16 + b div 16 = a' mod 4 * 16 + b' div 16"
    by (rule b64_char_inj [OF _ _ _ _ m(2)]) (use sextet_bounds r in blast)+
  have "a mod 4 = a' mod 4 \<and> b div 16 = b' div 16" by (rule split_k [OF _ _ _ _ e]) (use byte_div r in blast)+
  moreover have f: "b mod 16 * 4 + c div 64 = b' mod 16 * 4 + c' div 64"
    by (rule b64_char_inj [OF _ _ _ _ m(3)]) (use sextet_bounds r in blast)+
  have "b mod 16 = b' mod 16 \<and> c div 64 = c' div 64" by (rule split_k [OF _ _ _ _ f]) (use byte_div r in blast)+
  moreover have "c mod 64 = c' mod 64" by (rule b64_char_inj [OF _ _ _ _ m(4)]) (rule sextet_mod)+
  ultimately have "a = a'" "b = b'" "c = c'" by (auto intro: div_mod_eq)
  moreover have "bs = bs'" using 4(1) [OF r(7,8)] t ys(2) by simp
  ultimately show ?case by (simp add: ys)
qed simp

lemma be_bytes_byte: "list_all byte (be_bytes k n)"
  by (induction k n rule: be_bytes.induct) (auto simp: byte_def)

lemma be_bytes_length [simp]: "length (be_bytes k n) = k"
  by (induction k n rule: be_bytes.induct) auto

lemma sum_byte: "list_all byte (sha256_sum s)"
  by (auto simp: sha256_sum_def Let_def list_all_iff dest!: be_bytes_byte [unfolded list_all_iff, rule_format])

section \<open>The operations by cases\<close>

lemma issue_cases:
  assumes "issueTokens access refresh u cl res sc fam now db = (r, db')"
  obtains "r = Inl ServerError" "db' = db"
  | pair where "r = Inr pair" "tp_access pair = access" "tp_scope pair = sc"
    "tp_refresh pair = (if scopeContains sc offlineAccessScope then refresh else '''')"
    "\<not> token_clash (new_token access refresh u cl res sc fam now (o_tokens db)) (o_tokens db)"
    "db' = db\<lparr>o_tokens := o_tokens db @ [new_token access refresh u cl res sc fam now (o_tokens db)]\<rparr>"
proof (cases "token_clash (new_token access refresh u cl res sc fam now (o_tokens db)) (o_tokens db) \<or>
    fam = '''' \<or> cl = '''' \<or> res = ''''")
  case True
  then show ?thesis using assms that(1) unfolding issueTokens_def Let_def if_P [OF True] by simp
next
  case False
  show ?thesis
    by (rule that(2) [of "\<lparr>tp_access = access, tp_refresh = (if scopeContains sc offlineAccessScope then refresh else ''''),
        tp_expires_in = accessTokenTTL div second_ns, tp_scope = sc\<rparr>"])
      (use assms False in \<open>simp_all add: issueTokens_def Let_def\<close>)
qed

lemma new_token_simps [simp]:
  "ot_id (new_token access refresh u cl res sc fam now ts) = fresh_id (map ot_id ts)"
  "ot_access_hash (new_token access refresh u cl res sc fam now ts) = hashToken access"
  "ot_family (new_token access refresh u cl res sc fam now ts) = fam"
  "ot_client (new_token access refresh u cl res sc fam now ts) = cl"
  "ot_resource (new_token access refresh u cl res sc fam now ts) = res"
  "ot_scope (new_token access refresh u cl res sc fam now ts) = sc"
  "ot_owner (new_token access refresh u cl res sc fam now ts) = u"
  "ot_access_expires_at (new_token access refresh u cl res sc fam now ts) = now + accessTokenTTL"
  "ot_rotated_at (new_token access refresh u cl res sc fam now ts) = None"
  "ot_revoked_at (new_token access refresh u cl res sc fam now ts) = None"
  "ot_refresh_hash (new_token access refresh u cl res sc fam now ts) =
     (if scopeContains sc offlineAccessScope then Some (hashToken refresh) else None)"
  by (simp_all add: new_token_def)

lemma check_code_Some:
  assumes "check_code q now db = Some c"
  shows "c \<in> set (o_codes db)" "oc_hash c = hashToken (cr_code q)" "oc_used_at c = None" "now < oc_expires_at c"
    "oc_client c = cr_client q" "oc_redirect c = cr_redirect q" "cr_resource q = '''' \<or> cr_resource q = oc_resource c"
    "verifyPKCE (cr_verifier q) (oc_challenge c)" "user_by_id (o_auth db) (oc_owner c) \<noteq> None"
  using assms by (auto simp: check_code_def dest!: find_SomeD split: option.splits if_splits)

definition oauth_inv :: "oauth_db \<Rightarrow> bool" where
  "oauth_inv db \<longleftrightarrow>
     distinct (map oc_id (o_codes db)) \<and> distinct (map oc_hash (o_codes db)) \<and>
     distinct (map ot_id (o_tokens db)) \<and> distinct (map ot_access_hash (o_tokens db)) \<and>
     distinct (filter (\<lambda>h. h \<noteq> None) (map ot_refresh_hash (o_tokens db)))"

lemma distinct_filter_map:
  "distinct (filter P (map f xs)) \<Longrightarrow> x \<in> set xs \<Longrightarrow> y \<in> set xs \<Longrightarrow> f x = f y \<Longrightarrow> P (f x) \<Longrightarrow> x = y"
proof (induction xs)
  case (Cons a xs)
  show ?case
  proof (cases "P (f a)")
    case True
    then have "f a \<notin> f ` set xs" using Cons.prems(1) by auto
    then have new: "f z \<noteq> f a" if "z \<in> set xs" for z using that by (metis imageI)
    have tail: "distinct (filter P (map f xs))" using Cons.prems(1) True by simp
    show ?thesis using Cons.prems(2-5) new Cons.IH [OF tail] by (metis set_ConsD)
  qed (use Cons in auto)
qed simp

lemma token_unique:
  "oauth_inv db \<Longrightarrow> t \<in> set (o_tokens db) \<Longrightarrow> t' \<in> set (o_tokens db) \<Longrightarrow> ot_id t' = ot_id t \<Longrightarrow> t' = t"
  unfolding oauth_inv_def by (metis distinct_map inj_onD)

lemma code_unique:
  "oauth_inv db \<Longrightarrow> c \<in> set (o_codes db) \<Longrightarrow> c' \<in> set (o_codes db) \<Longrightarrow> oc_id c' = oc_id c \<Longrightarrow> c' = c"
  unfolding oauth_inv_def by (metis distinct_map inj_onD)

lemma find_access:
  "oauth_inv db \<Longrightarrow> t \<in> set (o_tokens db) \<Longrightarrow>
     find (\<lambda>x. ot_access_hash x = ot_access_hash t) (o_tokens db) = Some t"
  by (rule distinct_find) (simp_all add: oauth_inv_def)

lemma find_refresh:
  assumes "oauth_inv db" "t \<in> set (o_tokens db)" "ot_refresh_hash t = Some h"
  shows "find (\<lambda>x. ot_refresh_hash x = Some h) (o_tokens db) = Some t"
proof (cases "find (\<lambda>x. ot_refresh_hash x = Some h) (o_tokens db)")
  case None
  then show ?thesis using assms by (auto simp: find_None_iff')
next
  case (Some x)
  then have "x \<in> set (o_tokens db)" "ot_refresh_hash x = ot_refresh_hash t"
    using find_SomeD [OF Some] assms(3) by simp_all
  then have "x = t"
    using distinct_filter_map [of "\<lambda>h. h \<noteq> None" ot_refresh_hash "o_tokens db" x t] assms by (simp add: oauth_inv_def)
  with Some show ?thesis by simp
qed

text \<open>A token can be refreshed while it is the live head of its line.\<close>

definition refreshable :: "instant \<Rightarrow> string \<Rightarrow> oauth_db \<Rightarrow> oauth_token \<Rightarrow> bool" where
  "refreshable now client db t \<longleftrightarrow>
     ot_rotated_at t = None \<and> ot_revoked_at t = None \<and>
     (case ot_refresh_expires_at t of None \<Rightarrow> False | Some e \<Rightarrow> now < e) \<and> ot_client t = client \<and>
     user_by_id (o_auth db) (ot_owner t) \<noteq> None"

definition retire :: "nat \<Rightarrow> instant \<Rightarrow> oauth_token list \<Rightarrow> oauth_token list" where
  "retire i now ts = update_where (\<lambda>t. ot_id t = i) (\<lambda>t. t\<lparr>ot_rotated_at := Some now\<rparr>) ts"

lemma retire_ids [simp]: "map ot_id (retire i now ts) = map ot_id ts"
  "map ot_access_hash (retire i now ts) = map ot_access_hash ts" "map ot_refresh_hash (retire i now ts) = map ot_refresh_hash ts"
  by (simp_all add: retire_def map_update_where)

lemma rotate_cases:
  assumes "oauth_inv db" "rotateRefresh raw client access refresh now db = (r, db')"
  obtains (unknown) "r = Inl BadGrant" "db' = db" "\<not> (\<exists>t \<in> set (o_tokens db). ot_refresh_hash t = Some (hashToken raw))"
  | (replay) t where "t \<in> set (o_tokens db)" "ot_refresh_hash t = Some (hashToken raw)" "ot_rotated_at t \<noteq> None"
    "r = Inl BadGrant" "db' = revoke_family (ot_family t) now db"
  | (refused) t where "t \<in> set (o_tokens db)" "ot_refresh_hash t = Some (hashToken raw)" "ot_rotated_at t = None"
    "\<not> refreshable now client db t" "r = Inl BadGrant" "db' = db"
  | (failed) t where "t \<in> set (o_tokens db)" "ot_refresh_hash t = Some (hashToken raw)" "refreshable now client db t"
    "r = Inl ServerError" "db' = db"
  | (rotated) t pair where "t \<in> set (o_tokens db)" "ot_refresh_hash t = Some (hashToken raw)" "refreshable now client db t"
    "r = Inr pair" "tp_access pair = access" "tp_scope pair = ot_scope t"
    "tp_refresh pair = (if scopeContains (ot_scope t) offlineAccessScope then refresh else '''')"
    "\<not> token_clash (new_token access refresh (ot_owner t) client (ot_resource t) (ot_scope t) (ot_family t) now (o_tokens db)) (o_tokens db)"
    "db' = db\<lparr>o_tokens := retire (ot_id t) now (o_tokens db) @
       [new_token access refresh (ot_owner t) client (ot_resource t) (ot_scope t) (ot_family t) now (o_tokens db)]\<rparr>"
proof (cases "find (\<lambda>t. ot_refresh_hash t = Some (hashToken raw)) (o_tokens db)")
  case None
  then have "r = Inl BadGrant" "db' = db" using assms(2) by (simp_all add: rotateRefresh_def)
  with None show ?thesis by (intro unknown) (auto simp: find_None_iff')
next
  case (Some t)
  have t: "t \<in> set (o_tokens db)" "ot_refresh_hash t = Some (hashToken raw)" using find_SomeD [OF Some] by auto
  have fam: "find (\<lambda>x. ot_id x = ot_id t) (filter (\<lambda>x. ot_family x = ot_family t) (o_tokens db)) = Some t"
  proof -
    have "distinct (map ot_id (filter (\<lambda>x. ot_family x = ot_family t) (o_tokens db)))"
      using assms(1) by (intro distinct_map_filter) (simp add: oauth_inv_def)
    then show ?thesis using t(1) by (intro distinct_find) simp_all
  qed
  let ?n = "new_token access refresh (ot_owner t) client (ot_resource t) (ot_scope t) (ot_family t) now"
  let ?i = "issueTokens access refresh (ot_owner t) client (ot_resource t) (ot_scope t) (ot_family t) now
     (db\<lparr>o_tokens := retire (ot_id t) now (o_tokens db)\<rparr>)"
  have rot: "rotateRefresh raw client access refresh now db =
      (if ot_rotated_at t \<noteq> None then (Inl BadGrant, revoke_family (ot_family t) now db)
       else if \<not> refreshable now client db t then (Inl BadGrant, db)
       else (case ?i of (Inl err, _) \<Rightarrow> (Inl err, db) | (Inr pair, db2) \<Rightarrow> (Inr pair, db2)))"
    unfolding rotateRefresh_def Some option.case Let_def fam refreshable_def retire_def
    by (auto split: option.splits)
  have n: "?n (retire (ot_id t) now (o_tokens db)) = ?n (o_tokens db)" by (simp add: new_token_def)
  have clash: "token_clash x (retire (ot_id t) now (o_tokens db)) = token_clash x (o_tokens db)" for x
    unfolding token_clash_def by (simp flip: set_map)
  consider "ot_rotated_at t \<noteq> None" | "ot_rotated_at t = None" "\<not> refreshable now client db t" | "refreshable now client db t"
    by blast
  then show ?thesis
  proof cases
    case 1
    then show ?thesis using assms(2) rot replay [OF t 1] by simp
  next
    case 2
    then show ?thesis using assms(2) rot refused [OF t 2] by simp
  next
    case 3
    then have none: "ot_rotated_at t = None" by (simp add: refreshable_def)
    obtain r1 d1 where i: "?i = (r1, d1)" by (cases ?i)
    show ?thesis
    proof (cases rule: issue_cases [OF i])
      case 1
      then show ?thesis using assms(2) rot none 3 i failed [OF t 3] by simp
    next
      case (2 pair)
      then have "r = Inr pair" "db' = d1" using assms(2) rot none 3 i by simp_all
      with 2 show ?thesis by (intro rotated [OF t 3, of pair]) (simp_all add: n clash)
    qed
  qed
qed

section \<open>The system\<close>

text \<open>Concurrent requests: a redemption is split at its database operations, so any number of them may
  be in flight.  \<open>z_checked\<close> holds codes that were read and passed every check, \<open>z_claimed\<close> codes
  whose claim succeeded, \<open>z_lines\<close> which code founded which family.  Everything else happens in one
  transaction or touches no code and no token.\<close>

record osys =
  z_db :: oauth_db
  z_checked :: "auth_code list"
  z_claimed :: "auth_code list"
  z_lines :: "(string \<times> nat) list"

inductive osys_step :: "oauth_service \<Rightarrow> osys \<Rightarrow> osys \<Rightarrow> bool" for s where
  signs: "osys_step s S (S\<lparr>z_db := (z_db S)\<lparr>o_auth := a\<rparr>\<rparr>)"
| authorizes: "handleAuthorize s get uri sess csrf now (z_db S) = (r, db') \<Longrightarrow> osys_step s S (S\<lparr>z_db := db'\<rparr>)"
| consents: "handleConsent s form sess cookie raw now (z_db S) = (r, db') \<Longrightarrow> osys_step s S (S\<lparr>z_db := db'\<rparr>)"
| checks: "os_enabled s \<Longrightarrow> check_code q now (z_db S) = Some c \<Longrightarrow> osys_step s S (S\<lparr>z_checked := c # z_checked S\<rparr>)"
| claims: "c \<in> set (z_checked S) \<Longrightarrow> claim_code (oc_id c) now (z_db S) = (db', won) \<Longrightarrow>
    osys_step s S (S\<lparr>z_db := db', z_checked := remove1 c (z_checked S),
      z_claimed := (if won then c # z_claimed S else z_claimed S)\<rparr>)"
| issues: "c \<in> set (z_claimed S) \<Longrightarrow> fam \<notin> fst ` set (z_lines S) \<Longrightarrow>
    issue_for_code c (oc_client c) fam access refresh now (z_db S) = (r2, db') \<Longrightarrow>
    osys_step s S (S\<lparr>z_db := db', z_claimed := remove1 c (z_claimed S), z_lines := (fam, oc_id c) # z_lines S\<rparr>)"
| refreshes: "os_enabled s \<Longrightarrow> rotateRefresh raw client access refresh now (z_db S) = (r2, db') \<Longrightarrow>
    osys_step s S (S\<lparr>z_db := db'\<rparr>)"

inductive oreachable :: "oauth_service \<Rightarrow> osys \<Rightarrow> bool" for s where
  boot: "o_codes db = [] \<Longrightarrow> o_tokens db = [] \<Longrightarrow>
    oreachable s \<lparr>z_db = db, z_checked = [], z_claimed = [], z_lines = []\<rparr>"
| step: "oreachable s S \<Longrightarrow> osys_step s S S' \<Longrightarrow> oreachable s S'"

text \<open>The fields of a code that never change.\<close>

definition same_code :: "auth_code \<Rightarrow> auth_code \<Rightarrow> bool" where
  "same_code c c' \<longleftrightarrow> c'\<lparr>oc_used_at := None\<rparr> = c\<lparr>oc_used_at := None\<rparr>"

definition code_ok :: "oauth_service \<Rightarrow> auth_code \<Rightarrow> bool" where
  "code_ok s c \<longleftrightarrow>
     oc_client c = publicClientID \<and> redirectURIAllowed (oc_redirect c) \<and> oc_resource c = os_resource s \<and>
     oc_challenge c \<noteq> '''' \<and> (\<exists>req. oc_scope c = grantedScope req)"

definition descends :: "auth_code \<Rightarrow> oauth_token \<Rightarrow> bool" where
  "descends c t \<longleftrightarrow>
     ot_client t = oc_client c \<and> ot_resource t = oc_resource c \<and> ot_scope t = oc_scope c \<and> ot_owner t = oc_owner c"

definition used_code :: "oauth_db \<Rightarrow> auth_code \<Rightarrow> bool" where
  "used_code db c \<longleftrightarrow> (\<exists>c' \<in> set (o_codes db). same_code c c' \<and> oc_used_at c' \<noteq> None)"

text \<open>A family is one line: at most one head, and revoked as a whole or not at all.\<close>

definition head :: "oauth_token \<Rightarrow> bool" where
  "head t \<longleftrightarrow> ot_rotated_at t = None"

definition line_ok :: "oauth_token list \<Rightarrow> bool" where
  "line_ok ts \<longleftrightarrow>
     distinct (map ot_family (filter head ts)) \<and>
     (\<forall>t \<in> set ts. \<forall>t' \<in> set ts. ot_family t' = ot_family t \<longrightarrow> (ot_revoked_at t = None \<longleftrightarrow> ot_revoked_at t' = None))"

definition osys_inv :: "oauth_service \<Rightarrow> osys \<Rightarrow> bool" where
  "osys_inv s S \<longleftrightarrow>
     oauth_inv (z_db S) \<and> (\<forall>c \<in> set (o_codes (z_db S)). code_ok s c) \<and>
     (\<forall>c \<in> set (z_checked S). \<exists>c' \<in> set (o_codes (z_db S)). same_code c c') \<and>
     (\<forall>c \<in> set (z_claimed S). used_code (z_db S) c) \<and>
     distinct (map oc_id (z_claimed S) @ map snd (z_lines S)) \<and> distinct (map fst (z_lines S)) \<and>
     (\<forall>(f, i) \<in> set (z_lines S). \<exists>c \<in> set (o_codes (z_db S)). oc_id c = i \<and> oc_used_at c \<noteq> None) \<and>
     (\<forall>t \<in> set (o_tokens (z_db S)). \<exists>c \<in> set (o_codes (z_db S)).
        (ot_family t, oc_id c) \<in> set (z_lines S) \<and> descends c t) \<and>
     line_ok (o_tokens (z_db S))"

lemma osys_invD:
  assumes "osys_inv s S"
  shows "oauth_inv (z_db S)" "c \<in> set (o_codes (z_db S)) \<Longrightarrow> code_ok s c"
    "c \<in> set (z_checked S) \<Longrightarrow> \<exists>c' \<in> set (o_codes (z_db S)). same_code c c'"
    "c \<in> set (z_claimed S) \<Longrightarrow> used_code (z_db S) c"
    "distinct (map oc_id (z_claimed S) @ map snd (z_lines S))" "distinct (map fst (z_lines S))"
    "(f, i) \<in> set (z_lines S) \<Longrightarrow> \<exists>c \<in> set (o_codes (z_db S)). oc_id c = i \<and> oc_used_at c \<noteq> None"
    "t \<in> set (o_tokens (z_db S)) \<Longrightarrow> \<exists>c \<in> set (o_codes (z_db S)). (ot_family t, oc_id c) \<in> set (z_lines S) \<and> descends c t"
    "line_ok (o_tokens (z_db S))"
  using assms unfolding osys_inv_def by auto

section \<open>The operations keep the invariant\<close>

lemma validate_ok:
  "validateAuthz s get = Inr p \<Longrightarrow>
     ap_client p = publicClientID \<and> redirectURIAllowed (ap_redirect p) \<and> ap_challenge p \<noteq> '''' \<and>
     ap_resource p = os_resource s \<and> ap_response_type p = ''code'' \<and> ap_method p = ''S256''"
  by (auto simp: validateAuthz_def Let_def split: if_splits)

lemma validate_redirects:
  "validateAuthz s get = Inl r \<Longrightarrow>
     (\<exists>st m. r = AErrorPage st m) \<or> (\<exists>u c d st. r = ARedirectError u c d st \<and> redirectURIAllowed u)"
  by (auto simp: validateAuthz_def redirectError_def Let_def split: if_splits)

text \<open>Who may get a code: what holds when a consent is granted.\<close>

definition granted ::
  "oauth_service \<Rightarrow> (string \<Rightarrow> string) \<Rightarrow> string \<Rightarrow> string option \<Rightarrow> instant \<Rightarrow> oauth_db \<Rightarrow> user \<Rightarrow> bool" where
  "granted s get sess cookie now db u \<longleftrightarrow>
     os_enabled s \<and> fst (AuthenticateRequest sess now (o_auth db)) = Some u \<and> u_role u = Admin \<and>
     get ''csrf'' \<noteq> '''' \<and> cookie = Some (get ''csrf'') \<and> get ''action'' = ''approve'' \<and>
     (\<exists>p. validateAuthz s get = Inr p)"

definition grant_of :: "(string \<Rightarrow> string) \<Rightarrow> user \<Rightarrow> code_grant" where
  "grant_of get u =
     (let p = authz_params_of get
      in \<lparr>cg_user = u_id u, cg_client = ap_client p, cg_redirect = ap_redirect p, cg_challenge = ap_challenge p,
          cg_resource = ap_resource p, cg_scope = grantedScope (ap_scope p)\<rparr>)"

lemma validate_params: "validateAuthz s get = Inr p \<Longrightarrow> p = authz_params_of get"
  by (auto simp: validateAuthz_def Let_def split: if_splits)

lemma mint_cases:
  assumes "mintAuthCode raw g now db = (c, db')"
  obtains "c = None" "db' = db"
  | c' where "c = Some c'" "db' = db\<lparr>o_codes := o_codes db @ [c']\<rparr>" "oc_id c' = fresh_id (map oc_id (o_codes db))"
    "oc_hash c' = hashToken raw" "oc_hash c' \<notin> oc_hash ` set (o_codes db)" "oc_client c' = cg_client g"
    "oc_redirect c' = cg_redirect g" "oc_challenge c' = cg_challenge g" "oc_resource c' = cg_resource g"
    "oc_scope c' = cg_scope g" "oc_owner c' = cg_user g" "oc_used_at c' = None" "oc_expires_at c' = now + authCodeTTL"
  using assms that by (simp add: mintAuthCode_def Let_def split: if_splits) fastforce+

lemma consent_cases:
  assumes "handleConsent s form sess cookie raw now db = ((r, cs), db')"
  obtains (refused) "o_codes db' = o_codes db" "o_tokens db' = o_tokens db"
    "\<not> (\<exists>u c st. r = ARedirectCode u c st)" "\<forall>u c d st. r = ARedirectError u c d st \<longrightarrow> redirectURIAllowed u"
  | (minted) get u c where "form = Some get" "granted s get sess cookie now db u"
    "r = ARedirectCode (oc_redirect c) raw (get ''state'')"
    "mintAuthCode raw (grant_of get u) now (db\<lparr>o_auth := o_auth db'\<rparr>) = (Some c, db')" "code_ok s c"
    "o_codes db' = o_codes db @ [c]" "o_tokens db' = o_tokens db"
proof (cases "os_enabled s \<and> form \<noteq> None")
  case False
  then show ?thesis using assms refused by (auto simp: handleConsent_def split: if_splits)
next
  case True
  then obtain get where en: "os_enabled s" and form: "form = Some get" by auto
  show ?thesis
  proof (cases "validateAuthz s get")
    case (Inl x)
    then show ?thesis
      using assms en form refused validate_redirects [OF Inl] by (auto simp: handleConsent_def)
  next
    case (Inr p)
    note p = validate_ok [OF Inr] validate_params [OF Inr]
    define a where "a = AuthenticateRequest sess now (o_auth db)"
    let ?db1 = "db\<lparr>o_auth := snd a\<rparr>"
    show ?thesis
    proof (cases "fst a")
      case None
      then show ?thesis using assms en form refused Inr by (auto simp: handleConsent_def a_def Let_def)
    next
      case (Some u)
      show ?thesis
      proof (cases "u_role u = Admin \<and> get ''csrf'' \<noteq> '''' \<and> cookie = Some (get ''csrf'') \<and> get ''action'' = ''approve''")
        case False
        then show ?thesis
          using assms en form refused Inr Some p
          by (auto simp: handleConsent_def a_def Let_def redirectError_def split: if_splits)
      next
        case ok: True
        have g: "granted s get sess cookie now db u"
          using en Some ok Inr by (simp add: granted_def a_def)
        have gr: "grant_of get u = \<lparr>cg_user = u_id u, cg_client = ap_client p, cg_redirect = ap_redirect p,
              cg_challenge = ap_challenge p, cg_resource = ap_resource p, cg_scope = grantedScope (ap_scope p)\<rparr>"
          using p(2) by (simp add: grant_of_def Let_def)
        obtain c1 db2 where m: "mintAuthCode raw (grant_of get u) now ?db1 = (c1, db2)"
          by (cases "mintAuthCode raw (grant_of get u) now ?db1")
        have h: "handleConsent s form sess cookie raw now db =
            (case c1 of None \<Rightarrow> ((AErrorPage 500 ''Something went wrong.'', [clearCSRFCookie s]), db2)
             | Some c \<Rightarrow> ((ARedirectCode (ap_redirect p) raw (ap_state p), [clearCSRFCookie s]), db2))"
          using m en form Inr Some ok unfolding gr by (simp add: handleConsent_def a_def Let_def)
        show ?thesis
        proof (cases rule: mint_cases [OF m])
          case 1
          then show ?thesis using assms h by (intro refused) auto
        next
          case (2 c)
          have st: "ap_state p = get ''state''" using p(2) by (simp add: authz_params_of_def)
          have d: "db' = db2" "r = ARedirectCode (oc_redirect c) raw (get ''state'')"
            using assms h 2 st by (simp_all add: gr)
          have "code_ok s c" using 2 p by (auto simp: code_ok_def gr)
          with d 2 m g form show ?thesis by (intro minted) simp_all
        qed
      qed
    qed
  qed
qed

lemma authorize_frame:
  assumes "handleAuthorize s get uri sess csrf now db = (r, db')"
  shows "o_codes db' = o_codes db \<and> o_tokens db' = o_tokens db"
  using assms by (auto simp: handleAuthorize_def Let_def split: if_splits sum.splits option.splits)

text \<open>Adding a code, claiming one, adding a token, retiring and revoking.\<close>

lemma same_code_refl [simp]: "same_code c c"
  by (simp add: same_code_def)

lemma same_code_fields:
  "same_code c c' \<Longrightarrow> oc_id c' = oc_id c \<and> oc_hash c' = oc_hash c \<and> oc_client c' = oc_client c \<and>
     oc_redirect c' = oc_redirect c \<and> oc_challenge c' = oc_challenge c \<and> oc_resource c' = oc_resource c \<and>
     oc_scope c' = oc_scope c \<and> oc_owner c' = oc_owner c \<and> oc_expires_at c' = oc_expires_at c"
  unfolding same_code_def by (cases c; cases c') simp

lemma same_code_ok: "same_code c c' \<Longrightarrow> code_ok s c' = code_ok s c"
  using same_code_fields [of c c'] by (simp add: code_ok_def)

lemma same_code_trans: "same_code a b \<Longrightarrow> same_code b c \<Longrightarrow> same_code a c"
  by (simp add: same_code_def)

text \<open>A change of the codes that keeps what is bound to them and never unuses one.\<close>

definition codes_kept :: "oauth_db \<Rightarrow> oauth_db \<Rightarrow> bool" where
  "codes_kept db db' \<longleftrightarrow>
     (\<forall>c \<in> set (o_codes db). \<exists>c' \<in> set (o_codes db'). same_code c c' \<and> (oc_used_at c \<noteq> None \<longrightarrow> oc_used_at c' \<noteq> None))"

lemma codes_kept_same: "o_codes db' = o_codes db \<Longrightarrow> codes_kept db db'"
  unfolding codes_kept_def by (auto intro: same_code_refl)

lemma kept_used: "codes_kept db db' \<Longrightarrow> used_code db c \<Longrightarrow> used_code db' c"
  unfolding codes_kept_def used_code_def by (blast intro: same_code_trans)

lemma claim_kept:
  assumes "claim_code i now db = (db', won)"
  shows "codes_kept db db'" "o_tokens db' = o_tokens db" "o_auth db' = o_auth db"
    "map oc_id (o_codes db') = map oc_id (o_codes db)" "map oc_hash (o_codes db') = map oc_hash (o_codes db)"
    "c' \<in> set (o_codes db') \<Longrightarrow> \<exists>c \<in> set (o_codes db). same_code c c'"
proof -
  let ?p = "\<lambda>c. oc_id c = i \<and> oc_used_at c = None"
  have d: "db' = db\<lparr>o_codes := update_where ?p (\<lambda>c. c\<lparr>oc_used_at := Some now\<rparr>) (o_codes db)\<rparr>"
    using assms by (simp add: claim_code_def Let_def)
  have s: "same_code c (c\<lparr>oc_used_at := u\<rparr>)" for c u by (simp add: same_code_def)
  show "codes_kept db db'"
    unfolding codes_kept_def
  proof
    fix c assume c: "c \<in> set (o_codes db)"
    show "\<exists>c' \<in> set (o_codes db'). same_code c c' \<and> (oc_used_at c \<noteq> None \<longrightarrow> oc_used_at c' \<noteq> None)"
      by (rule bexI [of _ "if ?p c then c\<lparr>oc_used_at := Some now\<rparr> else c"]) (use c s in \<open>auto simp: d update_where_def\<close>)
  qed
  assume "c' \<in> set (o_codes db')"
  then obtain c where "c \<in> set (o_codes db)" "c' = (if ?p c then c\<lparr>oc_used_at := Some now\<rparr> else c)"
    by (auto simp: d update_where_def)
  with s show "\<exists>c \<in> set (o_codes db). same_code c c'" by (intro bexI [of _ c]) simp_all
qed (use assms in \<open>auto simp: claim_code_def Let_def map_update_where\<close>)

lemma claim_won:
  assumes "oauth_inv db" "claim_code i now db = (db', True)"
  obtains c where "c \<in> set (o_codes db)" "oc_id c = i" "oc_used_at c = None" "c\<lparr>oc_used_at := Some now\<rparr> \<in> set (o_codes db')"
proof -
  let ?p = "\<lambda>c. oc_id c = i \<and> oc_used_at c = None"
  have "count_where ?p (o_codes db) \<noteq> 0" using assms(2) by (auto simp: claim_code_def Let_def)
  then obtain c where c: "c \<in> set (o_codes db)" "?p c" by (auto simp: count_where_0)
  have "c\<lparr>oc_used_at := Some now\<rparr> \<in> set (o_codes db')"
    using assms(2) c by (auto simp: claim_code_def Let_def update_where_def intro!: image_eqI [of _ _ c])
  with that c show ?thesis by blast
qed

lemma retire_same [simp]: "ot_refresh_hash (t\<lparr>ot_rotated_at := u\<rparr>) = ot_refresh_hash t"
  by simp

lemma oauth_inv_token:
  assumes "oauth_inv db" "\<not> token_clash t (o_tokens db)" "ot_id t \<notin> set (map ot_id (o_tokens db))"
    and "o_codes db' = o_codes db" "map ot_id ts = map ot_id (o_tokens db)"
    "map ot_access_hash ts = map ot_access_hash (o_tokens db)" "map ot_refresh_hash ts = map ot_refresh_hash (o_tokens db)"
    "o_tokens db' = ts @ [t]"
  shows "oauth_inv db'"
proof -
  have "ot_access_hash t \<notin> set (map ot_access_hash (o_tokens db))" using assms(2) by (simp add: token_clash_def)
  moreover have "ot_refresh_hash t \<noteq> None \<Longrightarrow> ot_refresh_hash t \<notin> set (map ot_refresh_hash (o_tokens db))"
    using assms(2) by (auto simp: token_clash_def)
  ultimately show ?thesis
    using assms(1,3) unfolding oauth_inv_def assms(4,8) map_append assms(5-7) by (auto simp: image_iff)
qed

lemma issue_line:
  assumes "line_ok ts" "\<And>x. x \<in> set ts \<Longrightarrow> ot_family x \<noteq> ot_family t"
  shows "line_ok (ts @ [t])"
proof -
  have "ot_family t \<notin> ot_family ` set (filter head ts)" using assms(2) by (auto simp: image_iff) metis
  then have "distinct (map ot_family (filter head (ts @ [t])))" using assms(1) by (auto simp: line_ok_def)
  moreover have "ot_revoked_at a = None \<longleftrightarrow> ot_revoked_at b = None"
    if "a \<in> set (ts @ [t])" "b \<in> set (ts @ [t])" "ot_family b = ot_family a" for a b
    using that assms unfolding line_ok_def by (metis Un_iff empty_iff insert_iff list.set(1,2) set_append)
  ultimately show ?thesis unfolding line_ok_def by blast
qed

lemma map_line:
  assumes "\<And>t. t \<in> set ts \<Longrightarrow> ot_family (f t) = ot_family t"
    "\<And>t. t \<in> set ts \<Longrightarrow> head (f t) \<Longrightarrow> head t" "line_ok ts"
    "\<And>t t'. t \<in> set ts \<Longrightarrow> t' \<in> set ts \<Longrightarrow> ot_family t' = ot_family t \<Longrightarrow> (ot_revoked_at t = None \<longleftrightarrow> ot_revoked_at t' = None) \<Longrightarrow>
       ot_revoked_at (f t) = None \<longleftrightarrow> ot_revoked_at (f t') = None"
  shows "line_ok (map f ts)"
proof -
  have "distinct (map ot_family (filter head (map f ts)))"
    using assms(1,2) assms(3) [unfolded line_ok_def, THEN conjunct1]
  proof (induction ts)
    case (Cons a ts)
    have d: "distinct (map ot_family (filter head ts))" using Cons.prems(3) by (cases "head a") auto
    have ih: "distinct (map ot_family (filter head (map f ts)))" by (rule Cons.IH) (use Cons.prems d in auto)
    have "ot_family (f a) \<notin> ot_family ` set (filter head (map f ts))" if h: "head (f a)"
    proof
      assume "ot_family (f a) \<in> ot_family ` set (filter head (map f ts))"
      then obtain t where t: "t \<in> set ts" "head (f t)" "ot_family (f t) = ot_family (f a)" by auto
      then have "head t" "ot_family t = ot_family a" using Cons.prems(1,2) by auto
      moreover have "head a" using Cons.prems(2) h by simp
      ultimately show False using Cons.prems(3) t(1) by (auto simp: image_iff)
    qed
    with ih show ?case by simp
  qed simp
  moreover have "ot_revoked_at a = None \<longleftrightarrow> ot_revoked_at b = None"
    if a: "a \<in> set (map f ts)" and b: "b \<in> set (map f ts)" and fam: "ot_family b = ot_family a" for a b
  proof -
    obtain t where t: "t \<in> set ts" "a = f t" using a by auto
    obtain t' where t': "t' \<in> set ts" "b = f t'" using b by auto
    have "ot_family t' = ot_family t" using assms(1) t t' fam by simp
    with assms(3) t(1) t'(1) show ?thesis unfolding t(2) t'(2) line_ok_def by (intro assms(4)) blast+
  qed
  ultimately show ?thesis unfolding line_ok_def by blast
qed

lemma head_unique:
  "line_ok ts \<Longrightarrow> x \<in> set ts \<Longrightarrow> y \<in> set ts \<Longrightarrow> head x \<Longrightarrow> head y \<Longrightarrow> ot_family x = ot_family y \<Longrightarrow> x = y"
  unfolding line_ok_def distinct_map by (auto dest!: inj_onD)

lemma revoke_line:
  "line_ok ts \<Longrightarrow> line_ok (update_where (\<lambda>t. ot_family t = f \<and> ot_revoked_at t = None) (\<lambda>t. t\<lparr>ot_revoked_at := Some now\<rparr>) ts)"
  unfolding update_where_def by (rule map_line) (simp_all add: head_def split: if_splits)

lemma rotate_line:
  assumes "line_ok ts" "t \<in> set ts" "ot_rotated_at t = None" "ot_revoked_at t = None"
    and "ot_family n = ot_family t" "ot_rotated_at n = None" "ot_revoked_at n = None"
  shows "line_ok (retire (ot_id t) now ts @ [n])"
proof -
  let ?ts = "retire (ot_id t) now ts"
  have l: "line_ok ?ts"
    unfolding retire_def update_where_def by (rule map_line [OF _ _ assms(1)]) (simp_all add: head_def split: if_splits)
  have none: "\<not> head x" if x: "x \<in> set ?ts" "ot_family x = ot_family t" for x
  proof
    assume h: "head x"
    obtain y where y: "y \<in> set ts" "x = (if ot_id y = ot_id t then y\<lparr>ot_rotated_at := Some now\<rparr> else y)"
      using x(1) by (auto simp: retire_def update_where_def)
    then have "x = y" "ot_id y \<noteq> ot_id t" using h by (auto simp: head_def split: if_splits)
    with head_unique [OF assms(1) y(1) assms(2)] h x(2) assms(3) show False by (simp add: head_def)
  qed
  have rev: "ot_revoked_at x = None" if x: "x \<in> set ?ts" "ot_family x = ot_family t" for x
  proof -
    obtain y where y: "y \<in> set ts" "ot_family y = ot_family x" "ot_revoked_at x = ot_revoked_at y"
      using x(1) by (auto simp: retire_def update_where_def)
    with assms(1,2,4) x(2) show ?thesis unfolding line_ok_def by metis
  qed
  have "distinct (map ot_family (filter head (?ts @ [n])))"
    using l none assms(5) by (auto simp: line_ok_def)
  moreover have "ot_revoked_at a = None \<longleftrightarrow> ot_revoked_at b = None"
    if a: "a \<in> set (?ts @ [n])" and b: "b \<in> set (?ts @ [n])" and fam: "ot_family b = ot_family a" for a b
  proof -
    have "a = n \<or> a \<in> set ?ts" "b = n \<or> b \<in> set ?ts" using a b by auto
    then show ?thesis using l fam rev assms(5,7) unfolding line_ok_def by metis
  qed
  ultimately show ?thesis unfolding line_ok_def by blast
qed

lemma osys_invI:
  assumes "oauth_inv (z_db S)" "\<And>c. c \<in> set (o_codes (z_db S)) \<Longrightarrow> code_ok s c"
    "\<And>c. c \<in> set (z_checked S) \<Longrightarrow> \<exists>c' \<in> set (o_codes (z_db S)). same_code c c'"
    "\<And>c. c \<in> set (z_claimed S) \<Longrightarrow> used_code (z_db S) c"
    "distinct (map oc_id (z_claimed S) @ map snd (z_lines S))" "distinct (map fst (z_lines S))"
    "\<And>f i. (f, i) \<in> set (z_lines S) \<Longrightarrow> \<exists>c \<in> set (o_codes (z_db S)). oc_id c = i \<and> oc_used_at c \<noteq> None"
    "\<And>t. t \<in> set (o_tokens (z_db S)) \<Longrightarrow> \<exists>c \<in> set (o_codes (z_db S)). (ot_family t, oc_id c) \<in> set (z_lines S) \<and> descends c t"
    "line_ok (o_tokens (z_db S))"
  shows "osys_inv s S"
  unfolding osys_inv_def using assms by blast

text \<open>A step that keeps the codes and their use, and what is in flight.\<close>

lemma kept_inv:
  assumes "osys_inv s S" "codes_kept (z_db S) (z_db S')" "\<And>c. c \<in> set (o_codes (z_db S')) \<Longrightarrow> code_ok s c"
    "oauth_inv (z_db S')" "line_ok (o_tokens (z_db S'))"
    "\<And>t. t \<in> set (o_tokens (z_db S')) \<Longrightarrow> \<exists>y \<in> set (o_tokens (z_db S)). ot_family y = ot_family t \<and> (\<forall>c. descends c y \<longrightarrow> descends c t)"
    "z_checked S' = z_checked S" "z_claimed S' = z_claimed S" "z_lines S' = z_lines S"
  shows "osys_inv s S'"
proof -
  note inv = osys_invD [OF assms(1)]
  have kept: "\<exists>c' \<in> set (o_codes (z_db S')). same_code c c' \<and> (oc_used_at c \<noteq> None \<longrightarrow> oc_used_at c' \<noteq> None)"
    if "c \<in> set (o_codes (z_db S))" for c using assms(2) that unfolding codes_kept_def by blast
  have tok: "\<exists>c \<in> set (o_codes (z_db S')). (ot_family t, oc_id c) \<in> set (z_lines S') \<and> descends c t"
    if t: "t \<in> set (o_tokens (z_db S'))" for t
  proof -
    obtain y where y: "y \<in> set (o_tokens (z_db S))" "ot_family y = ot_family t" "\<And>c. descends c y \<Longrightarrow> descends c t"
      using assms(6) [OF t] by blast
    obtain c where c: "c \<in> set (o_codes (z_db S))" "(ot_family y, oc_id c) \<in> set (z_lines S)" "descends c y"
      using inv(8) [OF y(1)] by blast
    obtain c' where c': "c' \<in> set (o_codes (z_db S'))" "same_code c c'" using kept [OF c(1)] by blast
    have "descends c' t" using y(3) [OF c(3)] same_code_fields [OF c'(2)] by (simp add: descends_def)
    then show ?thesis using c(2) y(2) c' same_code_fields [OF c'(2)] assms(9) by (intro bexI [of _ c']) auto
  qed
  show ?thesis
  proof (rule osys_invI [OF assms(4,3)])
    show "\<exists>c' \<in> set (o_codes (z_db S')). same_code c c'" if "c \<in> set (z_checked S')" for c
      using inv(3) [of c] that kept same_code_trans unfolding assms(7) by blast
    show "used_code (z_db S') c" if "c \<in> set (z_claimed S')" for c
      using kept_used [OF assms(2) inv(4)] that unfolding assms(8) by blast
    show "\<exists>c \<in> set (o_codes (z_db S')). oc_id c = i \<and> oc_used_at c \<noteq> None" if l: "(f, i) \<in> set (z_lines S')" for f i
    proof -
      obtain c where c: "c \<in> set (o_codes (z_db S))" "oc_id c = i" "oc_used_at c \<noteq> None" using inv(7) l unfolding assms(9) by blast
      obtain c' where "c' \<in> set (o_codes (z_db S'))" "same_code c c'" "oc_used_at c' \<noteq> None" using kept [OF c(1)] c(3) by blast
      then show ?thesis using same_code_fields [of c c'] c(2) by (intro bexI [of _ c']) auto
    qed
  qed (use inv(5,6) assms(5,8,9) tok in simp_all)
qed

lemma oauth_inv_same:
  "oauth_inv db \<Longrightarrow> map oc_id (o_codes db') = map oc_id (o_codes db) \<Longrightarrow> map oc_hash (o_codes db') = map oc_hash (o_codes db) \<Longrightarrow>
     map ot_id (o_tokens db') = map ot_id (o_tokens db) \<Longrightarrow> map ot_access_hash (o_tokens db') = map ot_access_hash (o_tokens db) \<Longrightarrow>
     map ot_refresh_hash (o_tokens db') = map ot_refresh_hash (o_tokens db) \<Longrightarrow> oauth_inv db'"
  by (simp only: oauth_inv_def)

lemma same_rows_inv:
  assumes "osys_inv s S" "o_codes (z_db S') = o_codes (z_db S)" "o_tokens (z_db S') = o_tokens (z_db S)"
    "z_checked S' = z_checked S" "z_claimed S' = z_claimed S" "z_lines S' = z_lines S"
  shows "osys_inv s S'"
  by (rule kept_inv [OF assms(1) codes_kept_same])
    (use osys_invD [OF assms(1)] assms oauth_inv_same [of "z_db S" "z_db S'"] in auto)

lemma rotate_step_inv:
  assumes "osys_inv s S" "rotateRefresh raw client access refresh now (z_db S) = (r, db')"
  shows "osys_inv s (S\<lparr>z_db := db'\<rparr>)"
proof -
  note inv = osys_invD [OF assms(1)]
  show ?thesis
  proof (cases rule: rotate_cases [OF inv(1) assms(2)])
    case (2 t)
    have "osys_inv s (S\<lparr>z_db := revoke_family (ot_family t) now (z_db S)\<rparr>)"
    proof (rule kept_inv [OF assms(1) codes_kept_same])
      show "oauth_inv (z_db (S\<lparr>z_db := revoke_family (ot_family t) now (z_db S)\<rparr>))"
        by (rule oauth_inv_same [OF inv(1)]) (simp_all add: revoke_family_def map_update_where)
      show "\<exists>y \<in> set (o_tokens (z_db S)). ot_family y = ot_family x \<and> (\<forall>c. descends c y \<longrightarrow> descends c x)"
        if "x \<in> set (o_tokens (z_db (S\<lparr>z_db := revoke_family (ot_family t) now (z_db S)\<rparr>)))" for x
        using that by (auto simp: revoke_family_def in_update_where descends_def)
    qed (use inv(2,9) revoke_line in \<open>simp_all add: revoke_family_def\<close>)
    then show ?thesis by (simp add: 2)
  next
    case (5 t pair)
    let ?n = "new_token access refresh (ot_owner t) client (ot_resource t) (ot_scope t) (ot_family t) now (o_tokens (z_db S))"
    have t: "ot_rotated_at t = None" "ot_revoked_at t = None" "ot_client t = client"
      using 5(3) by (simp_all add: refreshable_def)
    have "osys_inv s (S\<lparr>z_db := (z_db S)\<lparr>o_tokens := retire (ot_id t) now (o_tokens (z_db S)) @ [?n]\<rparr>\<rparr>)"
    proof (rule kept_inv [OF assms(1) codes_kept_same])
      show "oauth_inv (z_db (S\<lparr>z_db := (z_db S)\<lparr>o_tokens := retire (ot_id t) now (o_tokens (z_db S)) @ [?n]\<rparr>\<rparr>))"
        by (rule oauth_inv_token [OF inv(1) 5(8), of _ "retire (ot_id t) now (o_tokens (z_db S))"])
          (simp_all del: set_map)
      show "line_ok (o_tokens (z_db (S\<lparr>z_db := (z_db S)\<lparr>o_tokens := retire (ot_id t) now (o_tokens (z_db S)) @ [?n]\<rparr>\<rparr>)))"
        using rotate_line [OF inv(9) 5(1) t(1,2), of ?n now] by simp
      show "\<exists>y \<in> set (o_tokens (z_db S)). ot_family y = ot_family x \<and> (\<forall>c. descends c y \<longrightarrow> descends c x)"
        if "x \<in> set (o_tokens (z_db (S\<lparr>z_db := (z_db S)\<lparr>o_tokens := retire (ot_id t) now (o_tokens (z_db S)) @ [?n]\<rparr>\<rparr>)))" for x
      proof -
        have "x = ?n \<or> x \<in> set (retire (ot_id t) now (o_tokens (z_db S)))" using that by auto
        then show ?thesis
        proof
          assume "x = ?n"
          then show ?thesis using 5(1) t(3) by (intro bexI [of _ t]) (simp_all add: descends_def)
        next
          assume "x \<in> set (retire (ot_id t) now (o_tokens (z_db S)))"
          then show ?thesis by (auto simp: retire_def in_update_where descends_def)
        qed
      qed
    qed (use inv(2) in simp_all)
    then show ?thesis by (simp add: 5)
  qed (use assms(1) in simp_all)
qed

lemma mint_step_inv:
  assumes "osys_inv s S" "mintAuthCode raw g now db = (Some c, db')" "o_codes db = o_codes (z_db S)"
    "o_tokens db = o_tokens (z_db S)" "code_ok s c"
  shows "osys_inv s (S\<lparr>z_db := db'\<rparr>)"
proof (cases rule: mint_cases [OF assms(2)])
  case (2 c')
  note inv = osys_invD [OF assms(1)]
  have c: "c' = c" "o_codes db' = o_codes (z_db S) @ [c]" "o_tokens db' = o_tokens (z_db S)"
    using 2(1,2) assms(3,4) by simp_all
  have new: "oc_id c \<notin> oc_id ` set (o_codes (z_db S))" "oc_hash c \<notin> oc_hash ` set (o_codes (z_db S))"
    using 2(3,5) c(1) assms(3) fresh_id_new [of "map oc_id (o_codes (z_db S))"] by simp_all
  show ?thesis
  proof (rule kept_inv [OF assms(1)])
    show "codes_kept (z_db S) (z_db (S\<lparr>z_db := db'\<rparr>))" by (auto simp: codes_kept_def c intro: same_code_refl)
    show "oauth_inv (z_db (S\<lparr>z_db := db'\<rparr>))" using inv(1) new by (simp add: oauth_inv_def c)
  qed (use inv(2,9) assms(5) in \<open>auto simp: c\<close>)
qed simp

lemma check_step_inv:
  assumes "osys_inv s S" "check_code q now (z_db S) = Some c"
  shows "osys_inv s (S\<lparr>z_checked := c # z_checked S\<rparr>)"
  by (rule osys_invI)
    (use osys_invD [OF assms(1)] check_code_Some(1) [OF assms(2)] same_code_refl [of c] in \<open>auto simp del: same_code_refl\<close>)

lemma claim_step_inv:
  assumes "osys_inv s S" "c \<in> set (z_checked S)" "claim_code (oc_id c) now (z_db S) = (db', won)"
  shows "osys_inv s (S\<lparr>z_db := db', z_checked := remove1 c (z_checked S),
      z_claimed := (if won then c # z_claimed S else z_claimed S)\<rparr>)"
proof -
  note inv = osys_invD [OF assms(1)] and cl = claim_kept [OF assms(3)]
  have base: "osys_inv s (S\<lparr>z_db := db'\<rparr>)"
  proof (rule kept_inv [OF assms(1)])
    show "oauth_inv (z_db (S\<lparr>z_db := db'\<rparr>))" by (rule oauth_inv_same [OF inv(1)]) (simp_all add: cl(2,4,5))
    show "code_ok s c'" if "c' \<in> set (o_codes (z_db (S\<lparr>z_db := db'\<rparr>)))" for c'
      using cl(6) that inv(2) same_code_ok by fastforce
  qed (use inv(9) cl(1,2) in auto)
  note b = osys_invD [OF base, simplified]
  obtain c0 where c0: "c0 \<in> set (o_codes (z_db S))" "same_code c c0" using inv(3) [OF assms(2)] by blast
  have won: "used_code db' c \<and> oc_id c \<notin> oc_id ` set (z_claimed S) \<and> oc_id c \<notin> snd ` set (z_lines S)" if w: "won"
  proof -
    have "claim_code (oc_id c) now (z_db S) = (db', True)" using assms(3) w by simp
    then obtain x where x: "x \<in> set (o_codes (z_db S))" "oc_id x = oc_id c" "oc_used_at x = None" "x\<lparr>oc_used_at := Some now\<rparr> \<in> set (o_codes db')"
      by (rule claim_won [OF inv(1)])
    have xc: "x = c0" using code_unique [OF inv(1) c0(1) x(1)] x(2) same_code_fields [OF c0(2)] by simp
    have "same_code c (x\<lparr>oc_used_at := Some now\<rparr>)" using c0(2) xc by (simp add: same_code_def)
    then have "used_code db' c" using x(4) unfolding used_code_def by (intro bexI [OF _ x(4)]) simp
    moreover have "oc_id c \<noteq> oc_id y" if y: "y \<in> set (z_claimed S)" for y
    proof
      assume e: "oc_id c = oc_id y"
      obtain y' where y': "y' \<in> set (o_codes (z_db S))" "same_code y y'" "oc_used_at y' \<noteq> None"
        using inv(4) [OF y] by (auto simp: used_code_def)
      then have "y' = x" using code_unique [OF inv(1) x(1) y'(1)] x(2) e same_code_fields [OF y'(2)] by simp
      with x(3) y'(3) show False by simp
    qed
    moreover have "oc_id c \<noteq> snd l" if l: "l \<in> set (z_lines S)" for l
    proof
      assume e: "oc_id c = snd l"
      obtain y' where y': "y' \<in> set (o_codes (z_db S))" "oc_id y' = oc_id c" "oc_used_at y' \<noteq> None"
        using inv(7) [of "fst l" "snd l"] l e by auto
      then have "y' = x" using code_unique [OF inv(1) x(1) y'(1)] x(2) by simp
      with x(3) y'(3) show False by simp
    qed
    ultimately show ?thesis by blast
  qed
  show ?thesis
  proof (rule osys_invI)
    show "distinct (map oc_id (z_claimed (S\<lparr>z_db := db', z_checked := remove1 c (z_checked S),
      z_claimed := (if won then c # z_claimed S else z_claimed S)\<rparr>)) @ map snd (z_lines (S\<lparr>z_db := db', z_checked := remove1 c (z_checked S),
      z_claimed := (if won then c # z_claimed S else z_claimed S)\<rparr>)))"
      using inv(5) won by auto
    show "\<exists>c'' \<in> set (o_codes (z_db (S\<lparr>z_db := db', z_checked := remove1 c (z_checked S),
      z_claimed := (if won then c # z_claimed S else z_claimed S)\<rparr>))). same_code c' c''"
      if "c' \<in> set (z_checked (S\<lparr>z_db := db', z_checked := remove1 c (z_checked S),
      z_claimed := (if won then c # z_claimed S else z_claimed S)\<rparr>))" for c'
      using that b(3) by (auto dest: notin_set_remove1 [rotated] set_remove1_subset [THEN subsetD])
  qed (use b won in \<open>auto split: if_splits\<close>)
qed

lemma issue_step_inv:
  assumes "osys_inv s S" "c \<in> set (z_claimed S)" "fam \<notin> fst ` set (z_lines S)"
    "issue_for_code c (oc_client c) fam access refresh now (z_db S) = (r, db')"
  shows "osys_inv s (S\<lparr>z_db := db', z_claimed := remove1 c (z_claimed S), z_lines := (fam, oc_id c) # z_lines S\<rparr>)"
proof -
  note inv = osys_invD [OF assms(1)]
  let ?n = "new_token access refresh (oc_owner c) (oc_client c) (oc_resource c) (oc_scope c) fam now (o_tokens (z_db S))"
  obtain c0 where c0: "c0 \<in> set (o_codes (z_db S))" "same_code c c0" "oc_used_at c0 \<noteq> None"
    using inv(4) [OF assms(2)] by (auto simp: used_code_def)
  have id: "oc_id c0 = oc_id c" using same_code_fields [OF c0(2)] by simp
  have codes: "o_codes db' = o_codes (z_db S)" and db: "oauth_inv db' \<and> line_ok (o_tokens db') \<and> (\<forall>t \<in> set (o_tokens db').
      t \<in> set (o_tokens (z_db S)) \<or> t = ?n)"
  proof -
    have fam: "ot_family x \<noteq> fam" if "x \<in> set (o_tokens (z_db S))" for x
      using inv(8) [OF that] assms(3) by (force simp: image_iff)
    show "o_codes db' = o_codes (z_db S)"
      using assms(4) unfolding issue_for_code_def by (cases rule: issue_cases [of _ _ _ _ _ _ _ _ _ r db']) auto
    show "oauth_inv db' \<and> line_ok (o_tokens db') \<and> (\<forall>t \<in> set (o_tokens db'). t \<in> set (o_tokens (z_db S)) \<or> t = ?n)"
    proof (cases rule: issue_cases [OF assms(4) [unfolded issue_for_code_def]])
      case 1
      then show ?thesis using inv(1,9) by simp
    next
      case (2 pair)
      have "oauth_inv db'"
        by (rule oauth_inv_token [OF inv(1) 2(5), of _ "o_tokens (z_db S)"]) (simp_all add: 2(6) del: set_map)
      moreover have "line_ok (o_tokens db')" unfolding 2(6) using issue_line [OF inv(9), of ?n] fam by simp
      ultimately show ?thesis by (simp add: 2(6))
    qed
  qed
  let ?S = "S\<lparr>z_db := db', z_claimed := remove1 c (z_claimed S), z_lines := (fam, oc_id c) # z_lines S\<rparr>"
  have cl: "x \<in> set (z_claimed S)" if "x \<in> set (z_claimed ?S)" for x
    using that by (auto dest: set_remove1_subset [THEN subsetD])
  show ?thesis
  proof (rule osys_invI)
    show "distinct (map oc_id (z_claimed ?S) @ map snd (z_lines ?S))"
    proof -
      have d: "distinct (map oc_id (z_claimed S) @ map snd (z_lines S))" by (rule inv(5))
      have "oc_id c \<notin> oc_id ` set (remove1 c (z_claimed S))"
        using d assms(2) by (auto simp: distinct_map set_remove1_eq inj_on_def)
      moreover have "distinct (map oc_id (remove1 c (z_claimed S)))"
        using d by (auto simp: distinct_map distinct_remove1 intro: inj_on_subset set_remove1_subset)
      ultimately show ?thesis using d assms(2) by (auto dest: set_remove1_subset [THEN subsetD])
    qed
    show "\<exists>x \<in> set (o_codes (z_db ?S)). oc_id x = i \<and> oc_used_at x \<noteq> None" if "(f, i) \<in> set (z_lines ?S)" for f i
      using that c0 id inv(7) [of f i] by (auto simp: codes)
    show "\<exists>x \<in> set (o_codes (z_db ?S)). (ot_family t, oc_id x) \<in> set (z_lines ?S) \<and> descends x t"
      if "t \<in> set (o_tokens (z_db ?S))" for t
    proof -
      have "t \<in> set (o_tokens (z_db S)) \<or> t = ?n" using db that by simp
      then show ?thesis
      proof
        assume "t \<in> set (o_tokens (z_db S))"
        then show ?thesis using inv(8) by (fastforce simp: codes)
      next
        assume "t = ?n"
        then show ?thesis using c0 same_code_fields [OF c0(2)] by (intro bexI [of _ c0]) (simp_all add: codes descends_def)
      qed
    qed
    show "used_code (z_db ?S) x" if "x \<in> set (z_claimed ?S)" for x
      using inv(4) [OF cl [OF that]] by (simp add: used_code_def codes)
  qed (use inv(2,3,6) db assms(3) in \<open>auto simp: codes\<close>)
qed

lemma osys_step_inv:
  assumes "osys_inv s S" "osys_step s S S'"
  shows "osys_inv s S'"
  using assms(2)
proof cases
  case (signs a)
  show ?thesis unfolding signs by (rule same_rows_inv [OF assms(1)]) simp_all
next
  case (authorizes get uri sess csrf now r db')
  show ?thesis unfolding authorizes(1)
    by (rule same_rows_inv [OF assms(1)]) (simp_all add: authorize_frame [OF authorizes(2)])
next
  case (consents form sess cookie raw now r db')
  obtain resp cs where r: "r = (resp, cs)" by (cases r)
  show ?thesis
  proof (cases rule: consent_cases [OF consents(2) [unfolded r]])
    case 1
    then show ?thesis unfolding consents(1) by (intro same_rows_inv [OF assms(1)]) simp_all
  next
    case (2 get u c)
    show ?thesis unfolding consents(1) by (rule mint_step_inv [OF assms(1) 2(4) _ _ 2(5)]) simp_all
  qed
next
  case (checks q now c)
  show ?thesis unfolding checks(1) by (rule check_step_inv [OF assms(1) checks(3)])
next
  case (claims c now db' won)
  show ?thesis unfolding claims(1) by (rule claim_step_inv [OF assms(1) claims(2,3)])
next
  case (issues c fam access refresh now r db')
  show ?thesis unfolding issues(1) by (rule issue_step_inv [OF assms(1) issues(2-4)])
next
  case (refreshes raw client access refresh now r db')
  show ?thesis unfolding refreshes(1) by (rule rotate_step_inv [OF assms(1) refreshes(3)])
qed

lemma oreachable_inv: "oreachable s S \<Longrightarrow> osys_inv s S"
proof (induction rule: oreachable.induct)
  case (boot db)
  then show ?case by (simp add: osys_inv_def oauth_inv_def line_ok_def)
next
  case (step S S')
  then show ?case by (blast intro: osys_step_inv)
qed

lemma oreachable_steps: "(osys_step s)\<^sup>*\<^sup>* S S' \<Longrightarrow> oreachable s S \<Longrightarrow> oreachable s S'"
  by (induction rule: rtranclp_induct) (auto intro: oreachable.step)

section \<open>Consent, lineage, rotation\<close>

text \<open>C20: A code is minted only by an explicit consent.  The consent endpoint adds an authorization code
  only for a live session of an admin, on an approving form whose CSRF token is the one of the cookie, and
  only for the registered client, a redirect target that is allowed, an S256 challenge and this
  server's resource; the code is bound to exactly those, to the admin, and to the supported part of
  the requested scope, is unused, and goes to that redirect target alone.  Every other answer leaves codes and
  tokens as they are, and an error is sent to allowed targets only.\<close>

theorem consent_gate:
  assumes "handleConsent s form sess cookie raw now db = ((r, cs), db')"
  shows "o_tokens db' = o_tokens db \<and>
    (case r of
       ARedirectCode uri code st \<Rightarrow>
         (\<exists>get u c. form = Some get \<and> os_enabled s \<and>
            fst (AuthenticateRequest sess now (o_auth db)) = Some u \<and> u_role u = Admin \<and>
            get ''csrf'' \<noteq> '''' \<and> cookie = Some (get ''csrf'') \<and> get ''action'' = ''approve'' \<and>
            o_codes db' = o_codes db @ [c] \<and> code = raw \<and> oc_hash c = hashToken raw \<and> uri = oc_redirect c \<and>
            oc_redirect c = get ''redirect_uri'' \<and> redirectURIAllowed uri \<and>
            oc_client c = get ''client_id'' \<and> oc_client c = publicClientID \<and>
            oc_challenge c = get ''code_challenge'' \<and> oc_challenge c \<noteq> '''' \<and> get ''code_challenge_method'' = ''S256'' \<and>
            oc_resource c = os_resource s \<and> oc_owner c = u_id u \<and> oc_used_at c = None \<and>
            oc_scope c = grantedScope (get ''scope'') \<and> oc_expires_at c = now + authCodeTTL)
     | ARedirectError uri code desc st \<Rightarrow> o_codes db' = o_codes db \<and> redirectURIAllowed uri
     | _ \<Rightarrow> o_codes db' = o_codes db)"
proof (cases rule: consent_cases [OF assms])
  case 1
  then show ?thesis by (cases r) auto
next
  case (2 get u c)
  obtain p where p: "validateAuthz s get = Inr p" using 2(2) by (auto simp: granted_def)
  note v = validate_ok [OF p] validate_params [OF p]
  show ?thesis
  proof (cases rule: mint_cases [OF 2(4)])
    case (2 c')
    note mint = this
    show ?thesis
      using \<open>granted s get sess cookie now db u\<close> \<open>form = Some get\<close> \<open>r = _\<close> \<open>o_codes db' = o_codes db @ [c]\<close>
        \<open>o_tokens db' = o_tokens db\<close> mint v
      by (auto simp: granted_def grant_of_def authz_params_of_def Let_def intro!: exI [of _ get] exI [of _ u] exI [of _ c])
  qed simp
qed

text \<open>C19: Every token goes back to one consent.  In every state reachable by any interleaving of requests, each
  token belongs to a family that one authorization code founded; the code is used up, was minted for the
  registered client, an allowed redirect target, an S256 challenge and this resource, and the token
  carries that code's client, resource, scope and owner.  No code founds two families, however many
  redemptions of it are in flight, and no family has two founders; a family has at most one refresh
  token that is not yet rotated, and is revoked as a whole or not at all.\<close>

theorem oauth_lineage:
  assumes "oreachable s S"
  shows "(\<forall>t \<in> set (o_tokens (z_db S)). \<exists>c \<in> set (o_codes (z_db S)).
      (ot_family t, oc_id c) \<in> set (z_lines S) \<and> oc_used_at c \<noteq> None \<and>
      ot_client t = oc_client c \<and> ot_resource t = oc_resource c \<and> ot_scope t = oc_scope c \<and> ot_owner t = oc_owner c \<and>
      oc_client c = publicClientID \<and> redirectURIAllowed (oc_redirect c) \<and> oc_challenge c \<noteq> '''' \<and>
      oc_resource c = os_resource s \<and> (\<exists>req. oc_scope c = grantedScope req)) \<and>
    distinct (map oc_id (z_claimed S) @ map snd (z_lines S)) \<and> distinct (map fst (z_lines S)) \<and>
    distinct (map ot_family (filter (\<lambda>t. ot_rotated_at t = None) (o_tokens (z_db S)))) \<and>
    (\<forall>t \<in> set (o_tokens (z_db S)). \<forall>t' \<in> set (o_tokens (z_db S)).
       ot_family t' = ot_family t \<longrightarrow> (ot_revoked_at t = None \<longleftrightarrow> ot_revoked_at t' = None))"
proof -
  note inv = osys_invD [OF oreachable_inv [OF assms]]
  have "\<exists>c \<in> set (o_codes (z_db S)). (ot_family t, oc_id c) \<in> set (z_lines S) \<and> oc_used_at c \<noteq> None \<and>
      ot_client t = oc_client c \<and> ot_resource t = oc_resource c \<and> ot_scope t = oc_scope c \<and> ot_owner t = oc_owner c \<and>
      oc_client c = publicClientID \<and> redirectURIAllowed (oc_redirect c) \<and> oc_challenge c \<noteq> '''' \<and>
      oc_resource c = os_resource s \<and> (\<exists>req. oc_scope c = grantedScope req)"
    if t: "t \<in> set (o_tokens (z_db S))" for t
  proof -
    obtain c where c: "c \<in> set (o_codes (z_db S))" "(ot_family t, oc_id c) \<in> set (z_lines S)" "descends c t"
      using inv(8) [OF t] by blast
    obtain x where x: "x \<in> set (o_codes (z_db S))" "oc_id x = oc_id c" "oc_used_at x \<noteq> None" using inv(7) [OF c(2)] by blast
    have "x = c" by (rule code_unique [OF inv(1) c(1) x(1,2)])
    with c x(3) inv(2) [OF c(1)] show ?thesis by (intro bexI [OF _ c(1)]) (simp add: descends_def code_ok_def)
  qed
  then show ?thesis using inv(5,6,9) unfolding line_ok_def head_def by blast
qed

text \<open>Families that are revoked as a whole.\<close>

definition dead :: "string \<Rightarrow> osys \<Rightarrow> bool" where
  "dead f S \<longleftrightarrow> f \<in> fst ` set (z_lines S) \<and> (\<forall>t \<in> set (o_tokens (z_db S)). ot_family t = f \<longrightarrow> ot_revoked_at t \<noteq> None)"

lemma dead_frame: "dead f S \<Longrightarrow> o_tokens (z_db S') = o_tokens (z_db S) \<Longrightarrow> z_lines S' = z_lines S \<Longrightarrow> dead f S'"
  by (simp add: dead_def)

lemma dead_step:
  assumes "osys_inv s S" "osys_step s S S'" "dead f S"
  shows "dead f S'"
  using assms(2)
proof cases
  case (authorizes get uri sess csrf now r db')
  show ?thesis unfolding authorizes(1) by (rule dead_frame [OF assms(3)]) (simp_all add: authorize_frame [OF authorizes(2)])
next
  case (consents form sess cookie raw now r db')
  obtain resp cs where r: "r = (resp, cs)" by (cases r)
  have "o_tokens db' = o_tokens (z_db S)" by (cases rule: consent_cases [OF consents(2) [unfolded r]]) simp_all
  then show ?thesis unfolding consents(1) by (intro dead_frame [OF assms(3)]) simp_all
next
  case (claims c now db' won)
  show ?thesis unfolding claims(1) by (rule dead_frame [OF assms(3)]) (simp_all add: claim_kept(2) [OF claims(3)])
next
  case (issues c fam access refresh now r db')
  have "fam \<noteq> f" using issues(3) assms(3) by (auto simp: dead_def)
  then have "ot_revoked_at t \<noteq> None" if "t \<in> set (o_tokens db')" "ot_family t = f" for t
    by (cases rule: issue_cases [OF issues(4) [unfolded issue_for_code_def]]) (use that assms(3) in \<open>auto simp: dead_def\<close>)
  then show ?thesis using assms(3) unfolding issues(1) by (auto simp: dead_def)
next
  case (refreshes raw client access refresh now r db')
  have "ot_revoked_at x \<noteq> None" if x: "x \<in> set (o_tokens db')" "ot_family x = f" for x
  proof (cases rule: rotate_cases [OF osys_invD(1) [OF assms(1)] refreshes(3)])
    case (2 t)
    then show ?thesis using x assms(3) by (auto simp: dead_def revoke_family_def in_update_where)
  next
    case (5 t pair)
    have "ot_family t \<noteq> f" using 5(1,3) assms(3) by (auto simp: dead_def refreshable_def)
    then show ?thesis using x assms(3) by (auto simp: 5(9) dead_def retire_def in_update_where)
  qed (use x assms(3) in \<open>auto simp: dead_def\<close>)
  then show ?thesis using assms(3) unfolding refreshes(1) by (auto simp: dead_def)
qed (use assms(3) in \<open>auto simp: dead_def\<close>)

lemma dead_steps:
  assumes "(osys_step s)\<^sup>*\<^sup>* S S'" "oreachable s S" "dead f S"
  shows "dead f S'"
  using assms(1)
proof (induction rule: rtranclp_induct)
  case (step S1 S2)
  show ?case
    by (rule dead_step [OF oreachable_inv [OF oreachable_steps [OF step.hyps(1) assms(2)]] step.hyps(2) step.IH])
qed (rule assms(3))

lemma dead_access:
  assumes "oauth_inv (z_db S)" "dead f S" "t \<in> set (o_tokens (z_db S))" "ot_family t = f" "ot_access_hash t = hashToken raw"
  shows "\<not> VerifyMCPAccess s raw now (z_db S)"
proof -
  have "find (\<lambda>x. ot_access_hash x = hashToken raw) (o_tokens (z_db S)) = Some t"
    using find_access [OF assms(1,3)] assms(5) by simp
  then show ?thesis using assms(2-4) by (auto simp: VerifyMCPAccess_def dead_def)
qed

lemma dead_refresh:
  assumes "oauth_inv (z_db S)" "dead f S" "t \<in> set (o_tokens (z_db S))" "ot_family t = f" "ot_refresh_hash t = Some (hashToken raw)"
  shows "fst (rotateRefresh raw client access refresh now (z_db S)) = Inl BadGrant"
proof -
  obtain r db' where e: "rotateRefresh raw client access refresh now (z_db S) = (r, db')" by fastforce
  have same: "x = t" if "x \<in> set (o_tokens (z_db S))" "ot_refresh_hash x = Some (hashToken raw)" for x
    using find_refresh [OF assms(1) that] find_refresh [OF assms(1,3,5)] by simp
  have no: "\<not> refreshable now client (z_db S) t" using assms(2-4) by (auto simp: dead_def refreshable_def)
  show ?thesis
    by (cases rule: rotate_cases [OF assms(1) e]) (use e same no in auto)
qed

text \<open>C21: A replayed refresh token kills its line for good.  Presenting a refresh token that was already
  rotated is refused and revokes every token of its family, the live successor included.  From
  then on, whatever requests follow in whatever order, no access token of the family opens the
  finance endpoint and no refresh token of it is honoured.\<close>

theorem replay_kills_family:
  assumes "oreachable s S" "os_enabled s" "t \<in> set (o_tokens (z_db S))"
    and "ot_refresh_hash t = Some (hashToken raw)" "ot_rotated_at t \<noteq> None"
    and "rotateRefresh raw client access refresh now (z_db S) = (r, db')"
    and "(osys_step s)\<^sup>*\<^sup>* (S\<lparr>z_db := db'\<rparr>) S'"
  shows "r = Inl BadGrant \<and>
    (\<forall>x \<in> set (o_tokens (z_db S')). ot_family x = ot_family t \<longrightarrow>
       (\<forall>tok now'. ot_access_hash x = hashToken tok \<longrightarrow> \<not> VerifyMCPAccess s tok now' (z_db S')) \<and>
       (\<forall>tok cl a rf now'. ot_refresh_hash x = Some (hashToken tok) \<longrightarrow>
          fst (rotateRefresh tok cl a rf now' (z_db S')) = Inl BadGrant))"
proof -
  note inv = osys_invD [OF oreachable_inv [OF assms(1)]]
  have t: "x = t" if "x \<in> set (o_tokens (z_db S))" "ot_refresh_hash x = Some (hashToken raw)" for x
    using find_refresh [OF inv(1) that] find_refresh [OF inv(1) assms(3,4)] by simp
  have r: "r = Inl BadGrant \<and> db' = revoke_family (ot_family t) now (z_db S)"
    by (cases rule: rotate_cases [OF inv(1) assms(6)]) (use t assms(3-5) in \<open>auto simp: refreshable_def\<close>)
  have "ot_family t \<in> fst ` set (z_lines S)" using inv(8) [OF assms(3)] by force
  then have d: "dead (ot_family t) (S\<lparr>z_db := db'\<rparr>)"
    using r by (auto simp: dead_def revoke_family_def in_update_where)
  have reach: "oreachable s (S\<lparr>z_db := db'\<rparr>)"
    by (rule oreachable.step [OF assms(1) osys_step.refreshes [OF assms(2,6)]])
  have d': "dead (ot_family t) S'" by (rule dead_steps [OF assms(7) reach d])
  have inv': "oauth_inv (z_db S')" by (rule osys_invD(1) [OF oreachable_inv [OF oreachable_steps [OF assms(7) reach]]])
  show ?thesis using r dead_access [OF inv' d'] dead_refresh [OF inv' d'] by blast
qed

lemma filter_only:
  "distinct xs \<Longrightarrow> c \<in> set xs \<Longrightarrow> p c \<Longrightarrow> (\<And>x. x \<in> set xs \<Longrightarrow> p x \<Longrightarrow> x = c) \<Longrightarrow> filter p xs = [c]"
proof (induction xs)
  case (Cons a xs)
  show ?case
  proof (cases "a = c")
    case True
    have "c \<notin> set xs" using Cons.prems(1) True by simp
    then have "\<forall>x \<in> set xs. \<not> p x" using Cons.prems(4) by (metis list.set_intros(2))
    with True Cons.prems(3) show ?thesis by simp
  next
    case False
    then have "\<not> p a" using Cons.prems(4) [of a] by (metis list.set_intros(1))
    moreover have "filter p xs = [c]"
      by (rule Cons.IH) (use False Cons.prems in simp_all)
    ultimately show ?thesis by simp
  qed
qed simp

text \<open>Redeeming a code.  A redemption succeeds only for a stored code that is unused and unexpired, by the
  client and redirect target it is bound to, for no other resource, with a verifier whose SHA-256 is the stored
  challenge, and while its owner exists.  It then uses the code up, adds one token row with the code's rights,
  and the access token it returns opens the finance endpoint until it expires; the code is refused
  ever after.  A refusal changes nothing, so a mistyped verifier can be retried; when the issue itself
  fails the code is spent and no token exists.\<close>

theorem redeem_code:
  assumes "oauth_inv db" "redeemAuthCode q fam access refresh now db = (r, db')"
  shows "case r of
      Inl BadGrant \<Rightarrow> db' = db
    | Inl ServerError \<Rightarrow> o_tokens db' = o_tokens db \<and> check_code q now db \<noteq> None
    | Inr pair \<Rightarrow>
        (\<exists>c \<in> set (o_codes db). oc_hash c = hashToken (cr_code q) \<and> oc_used_at c = None \<and> now < oc_expires_at c \<and>
           oc_client c = cr_client q \<and> oc_redirect c = cr_redirect q \<and>
           (cr_resource q = '''' \<or> cr_resource q = oc_resource c) \<and>
           base64url (sha256_sum (cr_verifier q)) = oc_challenge c \<and> user_by_id (o_auth db) (oc_owner c) \<noteq> None \<and>
           c\<lparr>oc_used_at := Some now\<rparr> \<in> set (o_codes db') \<and>
           (\<exists>t. o_tokens db' = o_tokens db @ [t] \<and> ot_access_hash t = hashToken (tp_access pair) \<and> ot_family t = fam \<and>
              ot_owner t = oc_owner c \<and> ot_client t = oc_client c \<and> ot_resource t = oc_resource c \<and>
              ot_scope t = oc_scope c \<and> (ot_refresh_hash t \<noteq> None \<longleftrightarrow> scopeContains (oc_scope c) offlineAccessScope)) \<and>
           (\<forall>s now'. os_enabled s \<and> os_resource s = oc_resource c \<and> scopeContains (oc_scope c) financeReadScope \<and>
              tp_access pair \<noteq> '''' \<and> now' < now + accessTokenTTL \<longrightarrow> VerifyMCPAccess s (tp_access pair) now' db')) \<and>
        (\<forall>q' fam' a' r' now'. cr_code q' = cr_code q \<longrightarrow> redeemAuthCode q' fam' a' r' now' db' = (Inl BadGrant, db'))"
proof (cases "check_code q now db")
  case None
  then have "r = Inl BadGrant" "db' = db" using assms(2) by (simp_all add: redeemAuthCode_def)
  then show ?thesis by simp
next
  case (Some c)
  note c = check_code_Some [OF Some]
  obtain db1 won where cl: "claim_code (oc_id c) now db = (db1, won)" by fastforce
  note k = claim_kept [OF cl]
  have won: "won"
  proof -
    have "filter (\<lambda>x. oc_id x = oc_id c \<and> oc_used_at x = None) (o_codes db) = [c]"
    proof (rule filter_only)
      show "distinct (o_codes db)" using assms(1) by (simp add: oauth_inv_def distinct_map)
      show "x = c" if "x \<in> set (o_codes db)" "oc_id x = oc_id c \<and> oc_used_at x = None" for x
        using code_unique [OF assms(1) c(1) that(1)] that(2) by blast
    qed (use c in simp_all)
    then show ?thesis using cl by (auto simp: claim_code_def Let_def count_where_def)
  qed
  have inv1: "oauth_inv db1" by (rule oauth_inv_same [OF assms(1)]) (simp_all add: k(2,4,5))
  obtain x where x: "x \<in> set (o_codes db)" "oc_id x = oc_id c" "x\<lparr>oc_used_at := Some now\<rparr> \<in> set (o_codes db1)"
    using claim_won [OF assms(1), of "oc_id c" now db1] cl won by auto
  then have used: "c\<lparr>oc_used_at := Some now\<rparr> \<in> set (o_codes db1)" using code_unique [OF assms(1) c(1) x(1)] by simp
  have res: "issueTokens access refresh (oc_owner c) (cr_client q) (oc_resource c) (oc_scope c) fam now db1 = (r, db')"
    using assms(2) Some cl won by (simp add: redeemAuthCode_def issue_for_code_def Let_def)
  show ?thesis
  proof (cases rule: issue_cases [OF res])
    case 1
    then show ?thesis using k(2) Some by simp
  next
    case (2 pair)
    let ?t = "new_token access refresh (oc_owner c) (cr_client q) (oc_resource c) (oc_scope c) fam now (o_tokens db1)"
    have inv': "oauth_inv db'"
      by (rule oauth_inv_token [OF inv1 2(5), of _ "o_tokens db1"]) (simp_all add: 2(6) del: set_map)
    have fc: "find (\<lambda>x. oc_hash x = hashToken (cr_code q)) (o_codes db') = Some (c\<lparr>oc_used_at := Some now\<rparr>)"
      using distinct_find [of oc_hash "o_codes db'" "c\<lparr>oc_used_at := Some now\<rparr>"] inv' used c(2) by (simp add: oauth_inv_def 2(6))
    have again: "redeemAuthCode q' fam' a' r' now' db' = (Inl BadGrant, db')" if "cr_code q' = cr_code q" for q' fam' a' r' now'
      using fc that by (simp add: redeemAuthCode_def check_code_def)
    have "find (\<lambda>x. ot_access_hash x = hashToken access) (o_tokens db') = Some ?t"
      using find_access [OF inv', of ?t] by (simp add: 2(6))
    then have "VerifyMCPAccess s (tp_access pair) now' db'"
      if "os_enabled s" "os_resource s = oc_resource c" "scopeContains (oc_scope c) financeReadScope" "tp_access pair \<noteq> ''''"
        "now' < now + accessTokenTTL" for s now'
      using that 2(2) by (simp add: VerifyMCPAccess_def)
    moreover have "base64url (sha256_sum (cr_verifier q)) = oc_challenge c" using c(8) by (auto simp: verifyPKCE_def split: if_splits)
    moreover have "\<exists>t. o_tokens db' = o_tokens db @ [t] \<and> ot_access_hash t = hashToken (tp_access pair) \<and> ot_family t = fam \<and>
        ot_owner t = oc_owner c \<and> ot_client t = oc_client c \<and> ot_resource t = oc_resource c \<and>
        ot_scope t = oc_scope c \<and> (ot_refresh_hash t \<noteq> None \<longleftrightarrow> scopeContains (oc_scope c) offlineAccessScope)"
      by (rule exI [of _ ?t]) (use 2 k(2) c(5) in simp)
    ultimately show ?thesis
      using 2(1) again c used by (simp only: sum.case) (intro conjI allI impI bexI [OF _ c(1)]; simp add: 2(6))
  qed
qed

text \<open>Refreshing.  A refresh token is honoured only while it is the unrotated, unrevoked, unexpired head of its line, for
  its own client, and while its owner exists.  The rotation then retires exactly that row and adds one
  token of the same family with the same rights, and the new access token opens the finance endpoint until it
  expires; every other row is as before.  A refused request changes nothing unless the
  token had been rotated before, and a failed issue takes the rotation back.\<close>

theorem rotation_exact:
  assumes "oauth_inv db" "rotateRefresh raw client access refresh now db = (r, db')"
  shows "o_codes db' = o_codes db \<and>
    (case r of
      Inl err \<Rightarrow> db' = db \<or> (\<exists>t \<in> set (o_tokens db). ot_refresh_hash t = Some (hashToken raw) \<and> ot_rotated_at t \<noteq> None)
    | Inr pair \<Rightarrow>
        (\<exists>t \<in> set (o_tokens db). ot_refresh_hash t = Some (hashToken raw) \<and> refreshable now client db t \<and>
           (\<exists>n. o_tokens db' = map (\<lambda>x. if x = t then t\<lparr>ot_rotated_at := Some now\<rparr> else x) (o_tokens db) @ [n] \<and>
              ot_family n = ot_family t \<and> ot_owner n = ot_owner t \<and> ot_client n = ot_client t \<and>
              ot_resource n = ot_resource t \<and> ot_scope n = ot_scope t \<and>
              ot_rotated_at n = None \<and> ot_revoked_at n = None \<and> ot_access_hash n = hashToken (tp_access pair)) \<and>
           (\<forall>s now'. os_enabled s \<and> os_resource s = ot_resource t \<and> scopeContains (ot_scope t) financeReadScope \<and>
              tp_access pair \<noteq> '''' \<and> now' < now + accessTokenTTL \<longrightarrow> VerifyMCPAccess s (tp_access pair) now' db')))"
proof (cases rule: rotate_cases [OF assms])
  case (2 t)
  then show ?thesis by (auto simp: revoke_family_def)
next
  case (5 t pair)
  let ?n = "new_token access refresh (ot_owner t) client (ot_resource t) (ot_scope t) (ot_family t) now (o_tokens db)"
  have rows: "retire (ot_id t) now (o_tokens db) = map (\<lambda>x. if x = t then t\<lparr>ot_rotated_at := Some now\<rparr> else x) (o_tokens db)"
    unfolding retire_def update_where_def using token_unique [OF assms(1) 5(1)] by auto
  have inv': "oauth_inv db'"
    by (rule oauth_inv_token [OF assms(1) 5(8), of _ "retire (ot_id t) now (o_tokens db)"]) (simp_all add: 5(9) del: set_map)
  have "find (\<lambda>x. ot_access_hash x = hashToken access) (o_tokens db') = Some ?n"
    using find_access [OF inv', of ?n] by (simp add: 5(9))
  then have live: "VerifyMCPAccess s (tp_access pair) now' db'"
    if "os_enabled s" "os_resource s = ot_resource t" "scopeContains (ot_scope t) financeReadScope" "tp_access pair \<noteq> ''''"
      "now' < now + accessTokenTTL" for s now'
    using that 5(5) by (simp add: VerifyMCPAccess_def)
  have cl: "ot_client t = client" using 5(3) by (simp add: refreshable_def)
  show ?thesis
    unfolding 5(4) sum.case
    by (intro conjI bexI [OF _ 5(1)] exI [of _ ?n] allI impI) (use 5 cl live in \<open>simp_all add: rows\<close>)
qed simp_all

lemma granted_reads: "scopeContains (grantedScope x) financeReadScope"
  by (cases "offlineAccessScope \<in> set (str_fields x)"; simp add: grantedScope_def scopeContains_def; code_simp)

text \<open>C22: Who reads the finance data.  In every reachable state a request to the finance endpoint is let in exactly when
  it carries a live static token whose scope allows it, or, with the server enabled, an access token that is
  neither expired nor revoked and goes back to a used code of a consent; a cookie, or a token this
  server did not issue, never suffices.\<close>

theorem finance_access:
  assumes "oreachable s S"
  shows "mcp_authorize s header now (z_db S) \<longleftrightarrow>
    readBearer header \<noteq> '''' \<and>
    ((\<exists>b. AuthenticateBearer (readBearer header) now (o_auth (z_db S)) = Some b \<and> financeReadScope \<in> set (br_scope b)) \<or>
     os_enabled s \<and>
     (\<exists>t \<in> set (o_tokens (z_db S)). \<exists>c \<in> set (o_codes (z_db S)).
        ot_access_hash t = hashToken (readBearer header) \<and> now < ot_access_expires_at t \<and> ot_revoked_at t = None \<and>
        (ot_family t, oc_id c) \<in> set (z_lines S) \<and> oc_used_at c \<noteq> None \<and> ot_owner t = oc_owner c))"
proof -
  note inv = osys_invD [OF oreachable_inv [OF assms]]
  let ?raw = "readBearer header"
  have row: "\<exists>c \<in> set (o_codes (z_db S)). (ot_family t, oc_id c) \<in> set (z_lines S) \<and> oc_used_at c \<noteq> None \<and>
      ot_owner t = oc_owner c \<and> ot_resource t = os_resource s \<and> scopeContains (ot_scope t) financeReadScope"
    if t: "t \<in> set (o_tokens (z_db S))" for t
  proof -
    obtain c where c: "c \<in> set (o_codes (z_db S))" "(ot_family t, oc_id c) \<in> set (z_lines S)" "descends c t"
      using inv(8) [OF t] by blast
    obtain x where x: "x \<in> set (o_codes (z_db S))" "oc_id x = oc_id c" "oc_used_at x \<noteq> None" using inv(7) [OF c(2)] by blast
    have "x = c" by (rule code_unique [OF inv(1) c(1) x(1,2)])
    with c x(3) inv(2) [OF c(1)] granted_reads show ?thesis
      by (intro bexI [OF _ c(1)]) (auto simp: descends_def code_ok_def)
  qed
  have "VerifyMCPAccess s ?raw now (z_db S) \<longleftrightarrow> os_enabled s \<and> ?raw \<noteq> '''' \<and>
      (\<exists>t \<in> set (o_tokens (z_db S)). ot_access_hash t = hashToken ?raw \<and> now < ot_access_expires_at t \<and> ot_revoked_at t = None)"
  proof (cases "find (\<lambda>t. ot_access_hash t = hashToken ?raw) (o_tokens (z_db S))")
    case None
    then have "\<not> VerifyMCPAccess s ?raw now (z_db S)" by (simp add: VerifyMCPAccess_def)
    moreover have "\<forall>t \<in> set (o_tokens (z_db S)). ot_access_hash t \<noteq> hashToken ?raw"
      using None by (simp only: find_None_iff')
    ultimately show ?thesis by blast
  next
    case (Some t)
    then have t: "t \<in> set (o_tokens (z_db S))" "ot_access_hash t = hashToken ?raw" using find_SomeD [OF Some] by auto
    have same: "x = t" if "x \<in> set (o_tokens (z_db S))" "ot_access_hash x = hashToken ?raw" for x
      using find_access [OF inv(1) that(1)] that(2) Some by simp
    from row [OF t(1)] have "ot_resource t = os_resource s" "scopeContains (ot_scope t) financeReadScope" by blast+
    then have "VerifyMCPAccess s ?raw now (z_db S) \<longleftrightarrow> os_enabled s \<and> ?raw \<noteq> '''' \<and> ot_revoked_at t = None \<and> now < ot_access_expires_at t"
      by (auto simp: VerifyMCPAccess_def Some)
    then show ?thesis using t same by blast
  qed
  moreover have "mcp_authorize s header now (z_db S) \<longleftrightarrow> ?raw \<noteq> '''' \<and>
      ((case AuthenticateBearer ?raw now (o_auth (z_db S)) of None \<Rightarrow> False | Some b \<Rightarrow> Allows b financeReadScope) \<or>
       os_enabled s \<and> VerifyMCPAccess s ?raw now (z_db S))"
    by (simp add: mcp_authorize_def Let_def)
  moreover have "(case AuthenticateBearer ?raw now (o_auth (z_db S)) of None \<Rightarrow> False | Some b \<Rightarrow> Allows b financeReadScope) \<longleftrightarrow>
      (\<exists>b. AuthenticateBearer ?raw now (o_auth (z_db S)) = Some b \<and> financeReadScope \<in> set (br_scope b))"
    by (auto simp: Allows_def list_ex_iff financeReadScope_def split: option.splits)
  ultimately have "mcp_authorize s header now (z_db S) \<longleftrightarrow> ?raw \<noteq> '''' \<and>
    ((\<exists>b. AuthenticateBearer ?raw now (o_auth (z_db S)) = Some b \<and> financeReadScope \<in> set (br_scope b)) \<or>
     os_enabled s \<and> (\<exists>t \<in> set (o_tokens (z_db S)). ot_access_hash t = hashToken ?raw \<and> now < ot_access_expires_at t \<and> ot_revoked_at t = None))"
    by blast
  also have "(\<exists>t \<in> set (o_tokens (z_db S)). ot_access_hash t = hashToken ?raw \<and> now < ot_access_expires_at t \<and> ot_revoked_at t = None) \<longleftrightarrow>
     (\<exists>t \<in> set (o_tokens (z_db S)). \<exists>c \<in> set (o_codes (z_db S)).
        ot_access_hash t = hashToken ?raw \<and> now < ot_access_expires_at t \<and> ot_revoked_at t = None \<and>
        (ot_family t, oc_id c) \<in> set (z_lines S) \<and> oc_used_at c \<noteq> None \<and> ot_owner t = oc_owner c)"
    using row by blast
  finally show ?thesis .
qed

section \<open>A concrete connection\<close>

text \<open>The owner approves, the client redeems the code and refreshes once.\<close>

definition ex_os :: oauth_service where
  "ex_os = oauth_New True ''https://api.aliflabs.dev/''"

definition ex_challenge :: string where
  "ex_challenge = base64url (sha256_sum ''a-verifier'')"

definition ex_form :: "string \<Rightarrow> string" where
  "ex_form k =
     (if k = ''response_type'' then ''code'' else if k = ''client_id'' then publicClientID
      else if k = ''redirect_uri'' then claudeRedirectURI else if k = ''scope'' then ''finance.read offline_access admin''
      else if k = ''state'' then ''xyz'' else if k = ''code_challenge'' then ex_challenge
      else if k = ''code_challenge_method'' then ''S256'' else if k = ''resource'' then ''https://api.aliflabs.dev/mcp''
      else if k = ''csrf'' then ''tok'' else if k = ''action'' then ''approve'' else '''')"

definition ex_t0 :: instant where "ex_t0 = 10 * day_ns"

definition ex_odb :: oauth_db where "ex_odb = \<lparr>o_auth = ex_auth, o_codes = [], o_tokens = []\<rparr>"

definition ex_scope :: string where "ex_scope = ''finance.read offline_access''"

definition ex_code :: auth_code where
  "ex_code = \<lparr>oc_id = 1, oc_hash = hashToken ''a1'', oc_client = publicClientID, oc_redirect = claudeRedirectURI,
     oc_challenge = ex_challenge, oc_resource = ''https://api.aliflabs.dev/mcp'', oc_scope = ex_scope,
     oc_expires_at = ex_t0 + authCodeTTL, oc_used_at = None, oc_owner = 1\<rparr>"

definition ex_request :: code_request where
  "ex_request = \<lparr>cr_code = ''a1'', cr_verifier = ''a-verifier'', cr_redirect = claudeRedirectURI,
     cr_client = publicClientID, cr_resource = ''''\<rparr>"

definition ex_tok :: "nat \<Rightarrow> string \<Rightarrow> instant \<Rightarrow> oauth_token" where
  "ex_tok i raw now = \<lparr>ot_id = i, ot_access_hash = hashToken raw, ot_refresh_hash = Some (hashToken raw), ot_family = ''fam'',
     ot_client = publicClientID, ot_resource = ''https://api.aliflabs.dev/mcp'', ot_scope = ex_scope,
     ot_access_expires_at = now + accessTokenTTL, ot_refresh_expires_at = Some (now + refreshTokenTTL),
     ot_rotated_at = None, ot_revoked_at = None, ot_owner = 1\<rparr>"

definition ex_used :: auth_code where "ex_used = ex_code\<lparr>oc_used_at := Some (ex_t0 + 1)\<rparr>"
definition ex_pair :: "string \<Rightarrow> token_pair" where
  "ex_pair raw = \<lparr>tp_access = raw, tp_refresh = raw, tp_expires_in = 3600, tp_scope = ex_scope\<rparr>"
definition ex_first :: oauth_db where
  "ex_first = \<lparr>o_auth = ex_auth, o_codes = [ex_used], o_tokens = [ex_tok 1 ''a1'' (ex_t0 + 1)]\<rparr>"
definition ex_second :: oauth_db where
  "ex_second = \<lparr>o_auth = ex_auth, o_codes = [ex_used],
     o_tokens = [(ex_tok 1 ''a1'' (ex_t0 + 1))\<lparr>ot_rotated_at := Some (ex_t0 + 2)\<rparr>, ex_tok 2 ''a2'' (ex_t0 + 2)]\<rparr>"

lemma sha_round_length: "length (sha_round k w hs) = length hs"
  by (induction k w hs rule: sha_round.induct) (simp_all add: Let_def)

lemma sha_rounds_length: "length (sha_rounds ks ws hs) = length hs"
  by (induction ks ws hs rule: sha_rounds.induct) (simp_all add: sha_round_length)

lemma sha_blocks_length: "length (sha_blocks n hs ws) = length hs"
  by (induction n hs ws rule: sha_blocks.induct) (simp_all add: sha_block_def sha_rounds_length)

lemma sum_length: "length (sha256_sum s) = 32"
proof -
  have c: "length (concat (map (\<lambda>w. be_bytes 4 (uint w)) ws)) = 4 * length ws" for ws :: "u32 list"
    by (induction ws) simp_all
  show ?thesis by (simp add: sha256_sum_def Let_def c sha_blocks_length sha_h0_def)
qed

lemma challenge_nonempty: "base64url (sha256_sum v) \<noteq> ''''"
  using sum_length [of v] by (cases "sha256_sum v" rule: base64url.cases) simp_all

lemma ex_service_simps:
  "os_enabled ex_os" "os_resource ex_os = ''https://api.aliflabs.dev/mcp''"
  by code_simp+

lemma ex_scopes:
  "grantedScope ''finance.read offline_access admin'' = ex_scope" "scopeContains ex_scope offlineAccessScope"
  "scopeContains ex_scope financeReadScope" "redirectURIAllowed claudeRedirectURI"
  by code_simp+

lemma ex_session_live: "AuthenticateRequest ''cookie'' ex_t0 ex_auth = (Some (ex_user 1 ''a@x.org'' Admin), ex_auth)"
proof -
  have "ex_t0 < 100 * day_ns" "\<not> shouldBump (100 * day_ns) ex_t0"
    by (simp_all add: ex_t0_def shouldBump_def time_sub_def max_duration_def min_duration_def sessionDuration_def
        bumpThreshold_def hour_ns_def second_ns_def day_ns_def)
  then show ?thesis
    by (simp add: AuthenticateRequest_def Authenticate_def ex_auth_def ex_session_def user_by_id_def ex_user_def)
qed

lemma ex_consent:
  "handleConsent ex_os (Some ex_form) ''cookie'' (Some ''tok'') ''a1'' ex_t0 ex_odb =
     ((ARedirectCode claudeRedirectURI ''a1'' ''xyz'', [clearCSRFCookie ex_os]), ex_odb\<lparr>o_codes := [ex_code]\<rparr>)"
proof -
  have v: "validateAuthz ex_os ex_form = Inr (authz_params_of ex_form)"
    using ex_scopes(4) ex_service_simps challenge_nonempty
    by (simp add: validateAuthz_def authz_params_of_def ex_form_def ex_challenge_def Let_def)
  have o: "o_auth ex_odb = ex_auth" "o_codes ex_odb = []" by (simp_all add: ex_odb_def)
  have u: "user_by_id ex_auth 1 \<noteq> None" by (simp add: user_by_id_def ex_auth_def ex_user_def)
  have c: "mintAuthCode ''a1'' \<lparr>cg_user = 1, cg_client = publicClientID, cg_redirect = claudeRedirectURI,
      cg_challenge = ex_challenge, cg_resource = ''https://api.aliflabs.dev/mcp'', cg_scope = ex_scope\<rparr> ex_t0 ex_odb =
    (Some ex_code, ex_odb\<lparr>o_codes := [ex_code]\<rparr>)"
    using u challenge_nonempty
    by (simp add: mintAuthCode_def o fresh_id_def ex_code_def Let_def publicClientID_def claudeRedirectURI_def ex_challenge_def)
  have d: "ex_odb\<lparr>o_auth := ex_auth\<rparr> = ex_odb" by (simp add: ex_odb_def)
  show ?thesis
    using c ex_service_simps(1) ex_scopes(1)
    by (simp add: handleConsent_def v o d ex_session_live Let_def ex_user_def authz_params_of_def ex_form_def
        One_nat_def [symmetric] del: One_nat_def)
qed

lemma ex_redeem_parts:
  "check_code ex_request (ex_t0 + 1) (ex_odb\<lparr>o_codes := [ex_code]\<rparr>) = Some ex_code"
  "claim_code 1 (ex_t0 + 1) (ex_odb\<lparr>o_codes := [ex_code]\<rparr>) = (ex_odb\<lparr>o_codes := [ex_used]\<rparr>, True)"
  "issue_for_code ex_code publicClientID ''fam'' ''a1'' ''a1'' (ex_t0 + 1) (ex_odb\<lparr>o_codes := [ex_used]\<rparr>) =
     (Inr (ex_pair ''a1''), ex_first)"
proof -
  show "check_code ex_request (ex_t0 + 1) (ex_odb\<lparr>o_codes := [ex_code]\<rparr>) = Some ex_code"
    using challenge_nonempty
    by (simp add: check_code_def ex_code_def ex_request_def verifyPKCE_def ex_challenge_def ex_odb_def user_by_id_def
        ex_auth_def ex_user_def authCodeTTL_def second_ns_def)
  show "claim_code 1 (ex_t0 + 1) (ex_odb\<lparr>o_codes := [ex_code]\<rparr>) = (ex_odb\<lparr>o_codes := [ex_used]\<rparr>, True)"
    by (simp add: claim_code_def ex_code_def ex_used_def update_where_def count_where_def Let_def)
  show "issue_for_code ex_code publicClientID ''fam'' ''a1'' ''a1'' (ex_t0 + 1) (ex_odb\<lparr>o_codes := [ex_used]\<rparr>) =
     (Inr (ex_pair ''a1''), ex_first)"
    using ex_scopes(2)
    by (simp add: issue_for_code_def issueTokens_def new_token_def token_clash_def ex_odb_def ex_first_def ex_code_def ex_tok_def
        ex_pair_def fresh_id_def Let_def publicClientID_def accessTokenTTL_def hour_ns_def second_ns_def)
qed

lemma ex_rotate: "rotateRefresh ''a1'' publicClientID ''a2'' ''a2'' (ex_t0 + 2) ex_first = (Inr (ex_pair ''a2''), ex_second)"
  using ex_scopes(2) ex_hashes_differ
  by (simp add: rotateRefresh_def ex_first_def ex_tok_def ex_second_def Let_def user_by_id_def ex_auth_def ex_user_def
      issueTokens_def new_token_def token_clash_def update_where_def fresh_id_def publicClientID_def ex_pair_def
      refreshTokenTTL_def accessTokenTTL_def hour_ns_def second_ns_def)

lemma ex_inv: "oauth_inv (ex_odb\<lparr>o_codes := [ex_code]\<rparr>)" "oauth_inv ex_first"
  by (simp_all add: oauth_inv_def ex_odb_def ex_first_def)

definition ex_end :: "oauth_db \<Rightarrow> osys" where
  "ex_end db = \<lparr>z_db = db, z_checked = [], z_claimed = [], z_lines = [(''fam'', 1)]\<rparr>"

lemma ex_reachable_first: "oreachable ex_os (ex_end ex_first)"
proof -
  let ?s = "\<lambda>db ch cl ls. \<lparr>z_db = db, z_checked = ch, z_claimed = cl, z_lines = ls\<rparr>"
  let ?minted = "ex_odb\<lparr>o_codes := [ex_code]\<rparr>" and ?used = "ex_odb\<lparr>o_codes := [ex_used]\<rparr>"
  have id: "oc_id ex_code = 1" "oc_client ex_code = publicClientID" by (simp_all add: ex_code_def)
  have "oreachable ex_os (?s ex_odb [] [] [])" by (rule oreachable.boot) (simp_all add: ex_odb_def)
  then have "oreachable ex_os (?s ?minted [] [] [])"
    by (rule oreachable.step) (use osys_step.consents [of ex_os "Some ex_form" "''cookie''" _ "''a1''" ex_t0 "?s ex_odb [] [] []"] ex_consent in simp)
  then have "oreachable ex_os (?s ?minted [ex_code] [] [])"
    by (rule oreachable.step)
      (use osys_step.checks [of ex_os ex_request "ex_t0 + 1" "?s ?minted [] [] []" ex_code] ex_service_simps(1) ex_redeem_parts(1) in simp)
  then have "oreachable ex_os (?s ?used [] [ex_code] [])"
    by (rule oreachable.step)
      (use osys_step.claims [of ex_code "?s ?minted [ex_code] [] []" "ex_t0 + 1" ?used True ex_os] ex_redeem_parts(2) id in simp)
  then have "oreachable ex_os (?s ex_first [] [] [(''fam'', 1)])"
    by (rule oreachable.step)
      (use osys_step.issues [of ex_code "?s ?used [] [ex_code] []" "''fam''" "''a1''" "''a1''" "ex_t0 + 1" "Inr (ex_pair ''a1'')" ex_first ex_os]
        ex_redeem_parts(3) id in simp)
  then show ?thesis by (simp add: ex_end_def)
qed

lemma ex_reachable: "oreachable ex_os (ex_end ex_second)"
  by (rule oreachable.step [OF ex_reachable_first])
    (use osys_step.refreshes [OF ex_service_simps(1), of "''a1''" publicClientID "''a2''" "''a2''" "ex_t0 + 2" "ex_end ex_first"] ex_rotate
      in \<open>simp add: ex_end_def\<close>)

lemma consent_gate_witness:
  "\<exists>cs c. handleConsent ex_os (Some ex_form) ''cookie'' (Some ''tok'') ''a1'' ex_t0 ex_odb =
     ((ARedirectCode claudeRedirectURI ''a1'' ''xyz'', cs), ex_odb\<lparr>o_codes := [c]\<rparr>) \<and>
   oc_client c = publicClientID \<and> oc_owner c = 1 \<and> redirectURIAllowed (oc_redirect c)"
  using consent_gate [OF ex_consent] ex_consent by (auto simp: ex_odb_def ex_code_def)

lemma oauth_lineage_witness:
  "oreachable ex_os (ex_end ex_second) \<and>
   (\<exists>c \<in> set (o_codes ex_second). oc_used_at c \<noteq> None \<and> oc_client c = publicClientID \<and> redirectURIAllowed (oc_redirect c)) \<and>
   distinct (map ot_family (filter (\<lambda>t. ot_rotated_at t = None) (o_tokens ex_second)))"
proof -
  have t: "ex_tok 2 ''a2'' (ex_t0 + 2) \<in> set (o_tokens (z_db (ex_end ex_second)))" by (simp add: ex_end_def ex_second_def)
  have db: "z_db (ex_end ex_second) = ex_second" by (simp add: ex_end_def)
  note l = oauth_lineage [OF ex_reachable]
  from bspec [OF conjunct1 [OF l] t] l ex_reachable show ?thesis unfolding db by blast
qed

lemma replay_kills_family_witness:
  "\<exists>db. rotateRefresh ''a1'' publicClientID ''a3'' ''a3'' (ex_t0 + 3) ex_second = (Inl BadGrant, db) \<and>
     \<not> VerifyMCPAccess ex_os ''a2'' (ex_t0 + 3) db \<and> VerifyMCPAccess ex_os ''a2'' (ex_t0 + 3) ex_second"
proof -
  let ?t = "(ex_tok 1 ''a1'' (ex_t0 + 1))\<lparr>ot_rotated_at := Some (ex_t0 + 2)\<rparr>"
  let ?r = "rotateRefresh ''a1'' publicClientID ''a3'' ''a3'' (ex_t0 + 3) ex_second"
  have s: "z_db (ex_end ex_second) = ex_second" by (simp add: ex_end_def)
  have t: "?t \<in> set (o_tokens ex_second)" "ot_refresh_hash ?t = Some (hashToken ''a1'')" "ot_rotated_at ?t \<noteq> None"
    by (simp_all add: ex_second_def ex_tok_def)
  have k: "fst ?r = Inl BadGrant \<and>
    (\<forall>x \<in> set (o_tokens (snd ?r)). ot_family x = ot_family ?t \<longrightarrow>
       (\<forall>tok now'. ot_access_hash x = hashToken tok \<longrightarrow> \<not> VerifyMCPAccess ex_os tok now' (snd ?r)) \<and>
       (\<forall>tok cl a rf now'. ot_refresh_hash x = Some (hashToken tok) \<longrightarrow> fst (rotateRefresh tok cl a rf now' (snd ?r)) = Inl BadGrant))"
    using replay_kills_family [of ex_os "ex_end ex_second" ?t "''a1''" publicClientID "''a3''" "''a3''" "ex_t0 + 3" "fst ?r" "snd ?r"
        "(ex_end ex_second)\<lparr>z_db := snd ?r\<rparr>"] ex_reachable ex_service_simps(1) t s
    by (simp add: ex_tok_def)
  have r: "snd ?r = revoke_family ''fam'' (ex_t0 + 3) ex_second"
    by (simp add: rotateRefresh_def ex_second_def ex_tok_def Let_def)
  have "\<exists>x \<in> set (o_tokens (snd ?r)). ot_family x = ot_family ?t \<and> ot_access_hash x = hashToken ''a2''"
    unfolding r by (simp add: ex_second_def ex_tok_def revoke_family_def update_where_def)
  with k have dead: "\<not> VerifyMCPAccess ex_os ''a2'' (ex_t0 + 3) (snd ?r)" by blast
  have "VerifyMCPAccess ex_os ''a2'' (ex_t0 + 3) ex_second"
    using ex_service_simps ex_scopes(3) ex_hashes_differ
    by (simp add: VerifyMCPAccess_def ex_second_def ex_tok_def accessTokenTTL_def hour_ns_def second_ns_def)
  with dead k show ?thesis by (intro exI [of _ "snd ?r"]) (simp add: prod_eq_iff)
qed

lemma redeem_code_witness:
  "redeemAuthCode ex_request ''fam'' ''a1'' ''a1'' (ex_t0 + 1) (ex_odb\<lparr>o_codes := [ex_code]\<rparr>) = (Inr (ex_pair ''a1''), ex_first) \<and>
   redeemAuthCode ex_request ''fam'' ''a9'' ''a9'' (ex_t0 + 5) ex_first = (Inl BadGrant, ex_first)"
proof -
  have r: "redeemAuthCode ex_request ''fam'' ''a1'' ''a1'' (ex_t0 + 1) (ex_odb\<lparr>o_codes := [ex_code]\<rparr>) = (Inr (ex_pair ''a1''), ex_first)"
    using ex_redeem_parts by (simp add: redeemAuthCode_def) (simp add: ex_code_def ex_request_def)
  from redeem_code [OF ex_inv(1) r] r show ?thesis by simp
qed

lemma rotation_exact_witness:
  "rotateRefresh ''a1'' publicClientID ''a2'' ''a2'' (ex_t0 + 2) ex_first = (Inr (ex_pair ''a2''), ex_second) \<and>
   o_codes ex_second = o_codes ex_first \<and> VerifyMCPAccess ex_os ''a2'' (ex_t0 + 3) ex_second"
proof -
  have "(\<exists>t \<in> set (o_tokens ex_first). \<forall>s now'. os_enabled s \<and> os_resource s = ot_resource t \<and>
      scopeContains (ot_scope t) financeReadScope \<and> ''a2'' \<noteq> '''' \<and> now' < ex_t0 + 2 + accessTokenTTL \<longrightarrow>
      VerifyMCPAccess s ''a2'' now' ex_second) \<and> o_codes ex_second = o_codes ex_first"
    using rotation_exact [OF ex_inv(2) ex_rotate] by (auto simp: ex_pair_def)
  then show ?thesis using ex_service_simps ex_scopes(3) ex_rotate
    by (auto simp: ex_first_def ex_tok_def accessTokenTTL_def hour_ns_def second_ns_def)
qed

lemma finance_access_witness:
  "oreachable ex_os (ex_end ex_second) \<and> mcp_authorize ex_os ''Bearer a2'' (ex_t0 + 3) ex_second \<and>
   \<not> mcp_authorize ex_os '''' (ex_t0 + 3) ex_second"
proof -
  let ?S = "ex_end ex_second"
  have b: "readBearer ''Bearer a2'' = ''a2''" "readBearer '''' = ''''" by code_simp+
  have s: "z_db ?S = ex_second" "z_lines ?S = [(''fam'', 1)]" by (simp_all add: ex_end_def)
  have "mcp_authorize ex_os ''Bearer a2'' (ex_t0 + 3) (z_db ?S)"
    by (rule iffD2 [OF finance_access [OF ex_reachable]])
      (use ex_service_simps(1) in \<open>simp add: b ex_end_def ex_second_def ex_tok_def ex_used_def ex_code_def accessTokenTTL_def hour_ns_def second_ns_def\<close>)
  moreover have "\<not> mcp_authorize ex_os '''' (ex_t0 + 3) (z_db ?S)"
    using finance_access [OF ex_reachable, of "''''"] by (simp add: b)
  ultimately show ?thesis using ex_reachable by (simp add: s)
qed

end
