(* ===== verification/FinanceRead.thy ===== *)
theory FinanceRead
  imports Ledger "HOL-Library.Product_Lexorder"
begin

text \<open>
  The read side of the ledger, \<open>internal/finance/read.go\<close>: the internal-transfer classifier and the
  tally that rests on it, net worth, account and transaction lists, the monthly and windowed spending
  roll-ups.  Nothing here writes.

  A query without an order returns the rows in table order.  The case-insensitive text search of
  the database is a parameter of \<open>SearchMerchant\<close>; the case folding of the classifier's regular
  expressions is that of ASCII.
\<close>

section \<open>Internal transfers\<close>

definition word_char :: "char \<Rightarrow> bool" where
  "word_char c \<longleftrightarrow> is_digit c \<or> (let n = (of_char (lower_char c) :: nat) in 97 \<le> n \<and> n \<le> 122) \<or> c = CHR ''_''"

text \<open>\<open>s\<close> without the literal \<open>p\<close> in front, in any case.\<close>

fun strip_fold :: "string \<Rightarrow> string \<Rightarrow> string option" where
  "strip_fold [] s = Some s"
| "strip_fold (p # ps) [] = None"
| "strip_fold (p # ps) (c # s) = (if lower_char c = p then strip_fold ps s else None)"

definition four_digits :: "string \<Rightarrow> bool" where
  "four_digits s \<longleftrightarrow> length s = 4 \<and> list_all is_digit s"

text \<open>\<open>(?i)\btransfer (?:to|from) x+(\d{4})\b\<close>: the captured digits of a match at the front, and of the
  leftmost match; the flag says that a word character precedes.\<close>

definition transfer_at :: "string \<Rightarrow> string option" where
  "transfer_at s =
     (case strip_fold ''transfer '' s of None \<Rightarrow> None
      | Some r \<Rightarrow>
         (case (case strip_fold ''to '' r of Some q \<Rightarrow> Some q | None \<Rightarrow> strip_fold ''from '' r) of None \<Rightarrow> None
          | Some q \<Rightarrow>
             (let d = dropWhile (\<lambda>c. lower_char c = CHR ''x'') q
              in if length d < length q \<and> four_digits (take 4 d) \<and> (drop 4 d = [] \<or> \<not> word_char (hd (drop 4 d)))
                 then Some (take 4 d) else None)))"

fun internalTransferRe :: "bool \<Rightarrow> string \<Rightarrow> string option" where
  "internalTransferRe w [] = None"
| "internalTransferRe w (c # s) =
     (case (if w then None else transfer_at (c # s)) of
        Some d \<Rightarrow> Some d
      | None \<Rightarrow> internalTransferRe (word_char c) s)"

text \<open>\<open>(?i)steppay (?:pymt|repayment)\<close>\<close>

fun steppayRepaymentRe :: "string \<Rightarrow> bool" where
  "steppayRepaymentRe [] = False"
| "steppayRepaymentRe (c # s) =
     (strip_fold ''steppay pymt'' (c # s) \<noteq> None \<or> strip_fold ''steppay repayment'' (c # s) \<noteq> None \<or> steppayRepaymentRe s)"

text \<open>\<open>(\d{4})\D*$\<close>\<close>

definition trailingDigitsRe :: "string \<Rightarrow> string option" where
  "trailingDigitsRe s =
     (let d = take 4 (dropWhile (\<lambda>c. \<not> is_digit c) (rev s)) in if four_digits d then Some (rev d) else None)"

definition ownAccountLast4 :: "account list \<Rightarrow> string set" where
  "ownAccountLast4 accs = set (List.map_filter (\<lambda>a. trailingDigitsRe (acc_masked a)) accs)"

definition isInternalTransfer :: "string \<Rightarrow> string set \<Rightarrow> bool" where
  "isInternalTransfer desc own4 =
     (if contains (to_lower desc) ''payment received'' then True
      else if steppayRepaymentRe desc then True
      else (case internalTransferRe False desc of Some d \<Rightarrow> d \<in> own4 | None \<Rightarrow> False))"

definition loadOwnLast4 :: "fin_db \<Rightarrow> string set" where
  "loadOwnLast4 db = ownAccountLast4 (accounts db)"

record spend_tally =
  st_income :: float64
  st_spend :: float64
  st_transfers :: float64
  st_count :: int

definition zero_tally :: spend_tally where
  "zero_tally = \<lparr>st_income = 0, st_spend = 0, st_transfers = 0, st_count = 0\<rparr>"

definition tally_add :: "string set \<Rightarrow> txn \<Rightarrow> spend_tally \<Rightarrow> spend_tally" where
  "tally_add own4 t s =
     (let s1 = s\<lparr>st_count := st_count s + 1\<rparr>
      in if isInternalTransfer (txn_desc t) own4
         then (if txn_amount t < 0 then s1\<lparr>st_transfers := st_transfers s1 + - txn_amount t\<rparr> else s1)
         else if 0 \<le> txn_amount t then s1\<lparr>st_income := st_income s1 + txn_amount t\<rparr>
         else s1\<lparr>st_spend := st_spend s1 + - txn_amount t\<rparr>)"

section \<open>Accounts and net worth\<close>

definition latestSnapshot :: "fin_db \<Rightarrow> nat \<Rightarrow> snapshot option" where
  "latestSnapshot db a =
     last_by (\<lambda>s. (snap_as_of s, snap_id s)) (filter (\<lambda>s. snap_account s = a) (snapshots db))"

definition reportCurrency :: string where "reportCurrency = ''AUD''"

record summary_view =
  sv_net :: float64
  sv_assets :: float64
  sv_liabilities :: float64
  sv_currency :: string
  sv_count :: nat
  sv_as_of :: "instant option"

definition add_reading :: "fin_db \<Rightarrow> account \<Rightarrow> summary_view \<Rightarrow> summary_view" where
  "add_reading db acc v =
     (case latestSnapshot db (acc_id acc) of None \<Rightarrow> v
      | Some s \<Rightarrow>
         (let v1 = (case acc_class acc of
                      Asset \<Rightarrow> v\<lparr>sv_assets := sv_assets v + snap_balance s\<rparr>
                    | Liability \<Rightarrow> v\<lparr>sv_liabilities := sv_liabilities v + - snap_balance s\<rparr>)
          in if (case sv_as_of v of None \<Rightarrow> True | Some m \<Rightarrow> m < snap_as_of s)
             then v1\<lparr>sv_as_of := Some (snap_as_of s)\<rparr> else v1))"

definition NetWorthSummary :: "fin_db \<Rightarrow> summary_view" where
  "NetWorthSummary db =
     (let v = fold (add_reading db) (accounts db)
                \<lparr>sv_net = 0, sv_assets = 0, sv_liabilities = 0, sv_currency = reportCurrency,
                 sv_count = length (accounts db), sv_as_of = None\<rparr>
      in v\<lparr>sv_net := sv_assets v - sv_liabilities v\<rparr>)"

record account_view =
  av_id :: nat
  av_name :: string
  av_masked :: string
  av_type :: acct_type
  av_class :: acct_class
  av_currency :: string
  av_description :: string
  av_drawdown :: drawdown
  av_balance :: "float64 option"
  av_available :: "float64 option"
  av_limit :: "float64 option"
  av_balance_as_of :: "instant option"
  av_watermark :: "instant option"

definition accountView :: "fin_db \<Rightarrow> account \<Rightarrow> account_view" where
  "accountView db acc =
     (let s = latestSnapshot db (acc_id acc)
      in \<lparr>av_id = acc_id acc, av_name = acc_name acc, av_masked = acc_masked acc, av_type = acc_type acc,
          av_class = acc_class acc, av_currency = acc_currency acc, av_description = acc_description acc,
          av_drawdown = acc_drawdown acc,
          av_balance = map_option snap_balance s,
          av_available = (case s of None \<Rightarrow> None | Some x \<Rightarrow> snap_available x),
          av_limit = (case s of None \<Rightarrow> None | Some x \<Rightarrow> snap_limit x),
          av_balance_as_of = map_option snap_as_of s,
          av_watermark = acc_watermark acc\<rparr>)"

definition Accounts :: "fin_db \<Rightarrow> account_view list" where
  "Accounts db = map (accountView db) (sort_key acc_name (accounts db))"

definition AccountByID :: "fin_db \<Rightarrow> nat \<Rightarrow> account_view option" where
  "AccountByID db i = map_option (accountView db) (find (\<lambda>a. acc_id a = i) (accounts db))"

text \<open>A point of a balance line; a raw reading fills the first two fields only.\<close>

record balance_point =
  bp_as_of :: instant
  bp_balance :: float64
  bp_carried :: bool
  bp_open :: "float64 option"
  bp_close :: "float64 option"
  bp_in :: "float64 option"
  bp_out :: "float64 option"
  bp_net :: "float64 option"
  bp_ext_in :: "float64 option"
  bp_ext_out :: "float64 option"
  bp_txns :: "int option"
  bp_source :: string
  bp_drift :: "float64 option"
  bp_mismatch :: bool

definition raw_point :: "instant \<Rightarrow> float64 \<Rightarrow> balance_point" where
  "raw_point t x =
     \<lparr>bp_as_of = t, bp_balance = x, bp_carried = False, bp_open = None, bp_close = None, bp_in = None, bp_out = None,
      bp_net = None, bp_ext_in = None, bp_ext_out = None, bp_txns = None, bp_source = '''', bp_drift = None, bp_mismatch = False\<rparr>"

definition BalanceHistory :: "fin_db \<Rightarrow> nat \<Rightarrow> instant option \<Rightarrow> balance_point list" where
  "BalanceHistory db a from =
     map (\<lambda>s. raw_point (snap_as_of s) (snap_balance s))
       (sort_key (\<lambda>s. (snap_as_of s, snap_id s))
         (filter (\<lambda>s. snap_account s = a \<and> (case from of None \<Rightarrow> True | Some f \<Rightarrow> f \<le> snap_as_of s)) (snapshots db)))"

section \<open>Transaction lists\<close>

definition defaultTxnLimit :: int where "defaultTxnLimit = 50"
definition maxTxnLimit :: int where "maxTxnLimit = 500"
definition externalScanCap :: nat where "externalScanCap = 20000"

record txn_filter =
  tf_account :: nat
  tf_from :: "instant option"
  tf_to :: "instant option"
  tf_limit :: int
  tf_offset :: int
  tf_external :: bool

record txn_view =
  tv_id :: nat
  tv_account :: nat
  tv_account_name :: string
  tv_date :: instant
  tv_amount :: float64
  tv_desc :: string
  tv_merchant :: string
  tv_after :: "float64 option"

definition joined_account :: "fin_db \<Rightarrow> nat \<Rightarrow> nat \<times> string" where
  "joined_account db i =
     (case find (\<lambda>a. acc_id a = i) (accounts db) of None \<Rightarrow> (0, '''') | Some a \<Rightarrow> (acc_id a, acc_name a))"

definition toTxnViews :: "fin_db \<Rightarrow> txn list \<Rightarrow> txn_view list" where
  "toTxnViews db rows =
     map (\<lambda>t. let a = joined_account db (txn_account t)
              in \<lparr>tv_id = txn_id t, tv_account = fst a, tv_account_name = snd a, tv_date = txn_date t,
                  tv_amount = txn_amount t, tv_desc = txn_desc t, tv_merchant = txn_merchant t, tv_after = txn_after t\<rparr>) rows"

definition txnPredicates :: "txn_filter \<Rightarrow> txn \<Rightarrow> bool" where
  "txnPredicates f t \<longleftrightarrow>
     (tf_account f \<noteq> 0 \<longrightarrow> txn_account t = tf_account f) \<and>
     (case tf_from f of None \<Rightarrow> True | Some x \<Rightarrow> x \<le> txn_date t) \<and>
     (case tf_to f of None \<Rightarrow> True | Some x \<Rightarrow> txn_date t \<le> x)"

text \<open>\<open>ORDER BY posted_date DESC, id DESC\<close>\<close>

definition newest_first :: "txn list \<Rightarrow> txn list" where
  "newest_first rows = rev (sort_key (\<lambda>t. (txn_date t, txn_id t)) rows)"

definition txn_limit :: "int \<Rightarrow> int" where
  "txn_limit n = (let l = (if n \<le> 0 then defaultTxnLimit else n) in if l > maxTxnLimit then maxTxnLimit else l)"

definition listExternalOnly :: "fin_db \<Rightarrow> txn_filter \<Rightarrow> txn_view list \<times> int \<times> bool" where
  "listExternalOnly db f =
     (let own4 = loadOwnLast4 db;
          all = newest_first (filter (txnPredicates f) (txns db));
          rows = (if tf_from f = None then take (externalScanCap + 1) all else all);
          truncated = (tf_from f = None \<and> length rows > externalScanCap);
          kept = (if truncated then take externalScanCap rows else rows);
          external = filter (\<lambda>t. \<not> isInternalTransfer (txn_desc t) own4) kept;
          total = int (length external);
          limit = txn_limit (tf_limit f);
          off0 = (if tf_offset f < 0 then 0 else tf_offset f);
          off = (if off0 > total then total else off0);
          end0 = off + limit;
          stop = (if end0 > total then total else end0)
      in (toTxnViews db (take (nat (stop - off)) (drop (nat off) external)), total, truncated))"

definition ListTransactions :: "fin_db \<Rightarrow> txn_filter \<Rightarrow> txn_view list \<times> int \<times> bool" where
  "ListTransactions db f =
     (if tf_external f then listExternalOnly db f
      else
       (let sel = filter (txnPredicates f) (txns db);
            limit = txn_limit (tf_limit f);
            off = (if tf_offset f < 0 then 0 else tf_offset f)
        in (toTxnViews db (take (nat limit) (drop (nat off) (newest_first sel))), int (length sel), False)))"

record pending_view =
  pv_id :: nat
  pv_account :: nat
  pv_account_name :: string
  pv_date :: instant
  pv_amount :: float64
  pv_desc :: string
  pv_merchant :: string

definition Pending :: "fin_db \<Rightarrow> nat \<Rightarrow> pending_view list" where
  "Pending db a =
     map (\<lambda>p. let j = joined_account db (pend_account p)
              in \<lparr>pv_id = pend_id p, pv_account = fst j, pv_account_name = snd j, pv_date = pend_date p,
                  pv_amount = pend_amount p, pv_desc = pend_desc p, pv_merchant = pend_merchant p\<rparr>)
       (rev (sort_key (\<lambda>p. (pend_date p, pend_id p)) (filter (\<lambda>p. a \<noteq> 0 \<longrightarrow> pend_account p = a) (pendings db))))"

text \<open>\<open>like s q\<close> is the database's case-insensitive "s contains q".\<close>

definition SearchMerchant ::
  "(string \<Rightarrow> string \<Rightarrow> bool) \<Rightarrow> fin_db \<Rightarrow> string \<Rightarrow> int \<Rightarrow> instant option \<Rightarrow> instant option \<Rightarrow> txn_view list" where
  "SearchMerchant like db query limit from to =
     (let q = trim_space query
      in if q = '''' then []
         else toTxnViews db (take (nat (txn_limit limit))
               (newest_first (filter (\<lambda>t. (like (txn_merchant t) q \<or> like (txn_desc t) q) \<and>
                    (case from of None \<Rightarrow> True | Some x \<Rightarrow> x \<le> txn_date t) \<and>
                    (case to of None \<Rightarrow> True | Some x \<Rightarrow> txn_date t \<le> x)) (txns db)))))"

section \<open>Spending\<close>

record month_bucket =
  mb_month :: string
  mb_income :: float64
  mb_spend :: float64
  mb_net :: float64
  mb_transfers :: float64

text \<open>\<open>t.Format("2006-01")\<close>\<close>

definition format_month :: "instant \<Rightarrow> string" where
  "format_month t = pad 4 (itoa (year_of (day_of t))) @ ''-'' @ pad 2 (itoa (month_of (day_of t)))"

definition on_account :: "nat \<Rightarrow> txn \<Rightarrow> bool" where
  "on_account a t \<longleftrightarrow> (a \<noteq> 0 \<longrightarrow> txn_account t = a)"

text \<open>The tallies of the months, keyed by name: a row of a month without a tally is skipped.\<close>

definition month_step :: "string set \<Rightarrow> txn \<Rightarrow> (string \<Rightarrow> spend_tally option) \<Rightarrow> string \<Rightarrow> spend_tally option" where
  "month_step own4 t idx =
     (case idx (format_month (txn_date t)) of None \<Rightarrow> idx
      | Some ty \<Rightarrow> idx(format_month (txn_date t) \<mapsto> tally_add own4 t ty))"

definition clamp_months :: "int \<Rightarrow> int" where
  "clamp_months months = (let m = (if months \<le> 0 then 6 else months) in if m > 60 then 60 else m)"

definition MonthlySummary :: "instant \<Rightarrow> fin_db \<Rightarrow> nat \<Rightarrow> int \<Rightarrow> month_bucket list" where
  "MonthlySummary now db a months0 =
     (let months = clamp_months months0;
          cur = at_day (go_date (year_of (day_of now)) (month_of (day_of now)) 1);
          start = add_date cur 0 (- (months - 1)) 0;
          rows = filter (\<lambda>t. start \<le> txn_date t \<and> on_account a t) (txns db);
          order = map (\<lambda>i. format_month (add_date start 0 i 0)) [0..months - 1];
          idx = fold (month_step (loadOwnLast4 db)) rows (\<lambda>k. if k \<in> set order then Some zero_tally else None)
      in map (\<lambda>k. let ty = the (idx k)
                  in \<lparr>mb_month = k, mb_income = st_income ty, mb_spend = st_spend ty,
                      mb_net = st_income ty - st_spend ty, mb_transfers = st_transfers ty\<rparr>) order)"

record spend_bucket =
  sb_from :: instant
  sb_to :: instant
  sb_income :: float64
  sb_spend :: float64
  sb_net :: float64
  sb_transfers :: float64
  sb_count :: int

definition SpendingSummary :: "fin_db \<Rightarrow> nat \<Rightarrow> instant \<Rightarrow> instant \<Rightarrow> spend_bucket" where
  "SpendingSummary db a from to =
     (let ty = fold (tally_add (loadOwnLast4 db))
                 (filter (\<lambda>t. from \<le> txn_date t \<and> txn_date t \<le> to \<and> on_account a t) (txns db)) zero_tally
      in \<lparr>sb_from = from, sb_to = to, sb_income = st_income ty, sb_spend = st_spend ty,
          sb_net = st_income ty - st_spend ty, sb_transfers = st_transfers ty, sb_count = st_count ty\<rparr>)"

section \<open>Months\<close>

lemma itoa_nat_hd: "0 < n \<Longrightarrow> hd (itoa_nat n) \<noteq> CHR ''0''"
proof (induction n rule: itoa_nat.induct)
  case (1 n)
  show ?case
  proof (cases "n < 10")
    case True
    then have "hd (itoa_nat n) = digit_char n" by (simp add: itoa_nat_small)
    moreover have "digit_char n \<noteq> digit_char 0" using True "1.prems" by (simp add: digit_char_inj)
    ultimately show ?thesis by (simp add: digit_char_0)
  next
    case False
    then show ?thesis using "1.IH" by (simp add: itoa_nat_step)
  qed
qed

lemma itoa_nat_0: "itoa_nat 0 = ''0''"
  by code_simp

lemma pad_value: "dropWhile (\<lambda>c. c = CHR ''0'') (pad k (itoa_nat n)) = (if n = 0 then [] else itoa_nat n)"
proof -
  have z: "dropWhile (\<lambda>c. c = CHR ''0'') (replicate j (CHR ''0'') @ s) = dropWhile (\<lambda>c. c = CHR ''0'') s" for j s
    by (induction j) simp_all
  show ?thesis
  proof (cases "n = 0")
    case False
    then show ?thesis using itoa_nat_hd [of n] itoa_nat_nonempty [of n]
      by (cases "itoa_nat n") (simp_all add: pad_def z)
  qed (simp add: pad_def z itoa_nat_0)
qed

lemma pad_inj:
  assumes "0 \<le> m" "0 \<le> n" "pad k (itoa m) = pad k (itoa n)"
  shows "m = n"
proof -
  have "(if nat m = 0 then [] else itoa_nat (nat m)) = (if nat n = 0 then [] else itoa_nat (nat n))"
    using assms unfolding pad_value [of k, symmetric] by (simp add: itoa_def)
  then have "nat m = nat n" by (metis itoa_nat_inj itoa_nat_nonempty)
  with assms show ?thesis by simp
qed

lemma month_two: "1 \<le> m \<Longrightarrow> m \<le> 12 \<Longrightarrow> length (pad 2 (itoa m)) = 2"
  using pad2_digits [of "nat m"] by simp

lemma month_of_bounds: "1 \<le> month_of n \<and> month_of n \<le> 12"
  using civil_valid [of n] by (simp add: valid_civil_def)

lemma month_fields: "year_of n = month_number n div 12" "month_of n = month_number n mod 12 + 1"
  using month_of_bounds [of n] by (simp_all add: month_number_def)

lemma format_month_eq:
  assumes "0 \<le> month_number m" "0 \<le> month_number n"
  shows "format_month (at_day m) = format_month (at_day n) \<longleftrightarrow> month_number m = month_number n"
proof
  assume "format_month (at_day m) = format_month (at_day n)"
  then have "(pad 4 (itoa (year_of m)) @ ''-'') @ pad 2 (itoa (month_of m)) =
      (pad 4 (itoa (year_of n)) @ ''-'') @ pad 2 (itoa (month_of n))"
    by (simp add: format_month_def)
  then have "pad 4 (itoa (year_of m)) = pad 4 (itoa (year_of n))" "pad 2 (itoa (month_of m)) = pad 2 (itoa (month_of n))"
    using month_two [of "month_of m"] month_two [of "month_of n"] month_of_bounds by (simp_all add: append_eq_append_conv)
  then have "year_of m = year_of n" "month_of m = month_of n"
    using pad_inj [of "year_of m" "year_of n" 4] pad_inj [of "month_of m" "month_of n" 2]
      month_of_bounds [of m] month_of_bounds [of n] assms by (simp_all add: month_fields pos_imp_zdiv_nonneg_iff)
  then show "month_number m = month_number n" by (simp add: month_number_def)
next
  assume "month_number m = month_number n"
  then show "format_month (at_day m) = format_month (at_day n)" by (simp add: format_month_def month_fields)
qed

lemma month_number_range: "month_number n = k \<longleftrightarrow> month_first k \<le> n \<and> n < month_first (k + 1)"
proof
  assume "month_number n = k"
  then show "month_first k \<le> n \<and> n < month_first (k + 1)"
    using month_first_number [of n] mday_bounds [of n] by (simp add: month_first_Suc)
qed (auto intro: month_number_unique simp: month_first_Suc)

lemma first_day [simp]: "month_number (month_first k) = k" "mday_of (month_first k) = 1"
proof -
  show k: "month_number (month_first k) = k"
    using month_length_bounds(1) [of k] by (simp add: month_number_range month_first_Suc)
  show "mday_of (month_first k) = 1" using month_first_number [of "month_first k"] by (simp add: k)
qed

lemma add_months_first: "add_date (at_day (month_first k)) 0 i 0 = at_day (month_first (k + i))"
proof -
  have "go_date (year_of (month_first k)) (month_of (month_first k) + i) 1 =
      month_first (12 * (month_number (month_first k) div 12) + (month_number (month_first k) mod 12 + 1 + i - 1))"
    by (simp add: go_date_month_first month_fields)
  also have "12 * (month_number (month_first k) div 12) + (month_number (month_first k) mod 12 + 1 + i - 1) = k + i"
    by simp
  finally show ?thesis by (simp add: add_date_def)
qed

lemma month_first_mono: "i \<le> j \<Longrightarrow> month_first i \<le> month_first j"
  using month_first_strict [of i j] month_length_bounds(1) [of i] by (cases "i = j") auto

lemma epoch_month: "0 \<le> n \<Longrightarrow> 23640 \<le> month_number n"
proof -
  assume n: "0 \<le> n"
  have "\<not> year_of n < 1970"
  proof
    assume "year_of n < 1970"
    then have "year_start (year_of n + 1) \<le> year_start 1970" by (intro year_start_mono) simp
    moreover have "year_start 1970 = 0" by (simp add: year_start_def year_base_def)
    ultimately show False using year_of_bounds [of n] n by simp
  qed
  then show ?thesis using month_of_bounds [of n] by (simp add: month_number_def)
qed

section \<open>Spending, by month and by window\<close>

lemma month_fold:
  "idx k = Some z \<Longrightarrow>
     fold (month_step own4) rows idx k =
       Some (fold (tally_add own4) (filter (\<lambda>t. format_month (txn_date t) = k) rows) z)"
proof (induction rows arbitrary: idx z)
  case (Cons t rows)
  show ?case
  proof (cases "format_month (txn_date t) = k")
    case True
    then have "month_step own4 t idx k = Some (tally_add own4 t z)" using Cons.prems by (simp add: month_step_def)
    with Cons.IH [of "month_step own4 t idx" "tally_add own4 t z"] True show ?thesis by simp
  next
    case False
    then have "month_step own4 t idx k = Some z" using Cons.prems by (simp add: month_step_def split: option.split)
    with Cons.IH [of "month_step own4 t idx" z] False show ?thesis by simp
  qed
qed simp

lemma in_month:
  assumes "0 \<le> s" "s \<le> k"
  shows "month_first s \<le> n \<and> format_month (at_day n) = format_month (at_day (month_first k)) \<longleftrightarrow>
    month_first k \<le> n \<and> n \<le> month_first (k + 1) - 1"
proof -
  have "0 \<le> month_number n" if "month_first s \<le> n"
  proof (rule ccontr)
    assume "\<not> 0 \<le> month_number n"
    then have "month_first (month_number n + 1) \<le> month_first s" using assms(1) by (intro month_first_mono) simp
    with that month_number_range [of n "month_number n"] show False by simp
  qed
  moreover have "month_first s \<le> month_first k" by (rule month_first_mono [OF assms(2)])
  ultimately show ?thesis
    using format_month_eq [of n "month_first k"] assms month_number_range [of n k] by auto
qed

text \<open>C23: The monthly and the windowed roll-up never disagree.  The monthly summary has one bucket per calendar
  month, between 1 and 60 of them, oldest first and ending with the current month; each bucket
  shows exactly what the spending summary of the same account shows for the window from that
  month's first to its last day, so a month without rows is a zero bucket and no row is counted
  twice or lost.\<close>

theorem monthly_matches_spending:
  assumes "0 \<le> now" "\<forall>t \<in> set (txns db). normalizeDate (txn_date t) = txn_date t"
  shows "let cur = month_number (day_of now); n = clamp_months months
    in 1 \<le> n \<and> n \<le> 60 \<and> (0 < months \<and> months \<le> 60 \<longrightarrow> n = months) \<and>
       MonthlySummary now db a months =
         map (\<lambda>k. let s = SpendingSummary db a (at_day (month_first k)) (at_day (month_first (k + 1) - 1))
                  in \<lparr>mb_month = format_month (at_day (month_first k)), mb_income = sb_income s, mb_spend = sb_spend s,
                      mb_net = sb_net s, mb_transfers = sb_transfers s\<rparr>) [cur - (n - 1)..cur]"
proof -
  define c where "c = month_number (day_of now)"
  define n where "n = clamp_months months"
  define s where "s = c - (n - 1)"
  define own where "own = loadOwnLast4 db"
  have n: "1 \<le> n" "n \<le> 60" "0 < months \<and> months \<le> 60 \<longrightarrow> n = months" by (simp_all add: n_def clamp_months_def)
  have "0 \<le> day_of now" using assms(1) by (simp add: day_of_def pos_imp_zdiv_nonneg_iff)
  then have s0: "0 \<le> s" using epoch_month [of "day_of now"] n(2) by (simp add: s_def c_def)
  have cur: "at_day (go_date (year_of (day_of now)) (month_of (day_of now)) 1) = at_day (month_first c)"
    by (simp add: go_date_month_first c_def month_number_def)
  have start: "add_date (at_day (month_first c)) 0 (- (n - 1)) 0 = at_day (month_first s)"
    using add_months_first [of c "- (n - 1)"] unfolding s_def by (simp only: diff_conv_add_uminus)
  define rows where "rows = filter (\<lambda>t. at_day (month_first s) \<le> txn_date t \<and> on_account a t) (txns db)"
  define order where "order = map (\<lambda>i. format_month (add_date (at_day (month_first s)) 0 i 0)) [0..n - 1]"
  have range: "map ((+) s) [0..n - 1] = [s..c]"
    by (intro nth_equalityI) (simp_all add: s_def)
  have order: "order = map (\<lambda>k. format_month (at_day (month_first k))) [s..c]"
    unfolding order_def range [symmetric] by (simp add: add_months_first)
  define idx where "idx = fold (month_step own) rows (\<lambda>k. if k \<in> set order then Some zero_tally else None)"
  have tally: "idx (format_month (at_day (month_first k))) =
      Some (fold (tally_add own) (filter (\<lambda>t. at_day (month_first k) \<le> txn_date t \<and> txn_date t \<le> at_day (month_first (k + 1) - 1)
        \<and> on_account a t) (txns db)) zero_tally)" if k: "k \<in> set [s..c]" for k
  proof -
    have "filter (\<lambda>t. format_month (txn_date t) = format_month (at_day (month_first k))) rows =
        filter (\<lambda>t. at_day (month_first k) \<le> txn_date t \<and> txn_date t \<le> at_day (month_first (k + 1) - 1) \<and> on_account a t) (txns db)"
      unfolding rows_def filter_filter
    proof (rule filter_cong [OF refl])
      fix t assume "t \<in> set (txns db)"
      then obtain d where d: "txn_date t = at_day d" using assms(2) normalizeDate_eq by metis
      show "(at_day (month_first s) \<le> txn_date t \<and> on_account a t) \<and>
          format_month (txn_date t) = format_month (at_day (month_first k)) \<longleftrightarrow>
          at_day (month_first k) \<le> txn_date t \<and> txn_date t \<le> at_day (month_first (k + 1) - 1) \<and> on_account a t"
        using in_month [of s k d] s0 k by (auto simp: d)
    qed
    then show ?thesis unfolding idx_def using k by (subst month_fold [of _ _ zero_tally]) (auto simp: order)
  qed
  have "MonthlySummary now db a months =
      map (\<lambda>k. let ty = the (idx k) in \<lparr>mb_month = k, mb_income = st_income ty, mb_spend = st_spend ty,
          mb_net = st_income ty - st_spend ty, mb_transfers = st_transfers ty\<rparr>) order"
    unfolding MonthlySummary_def Let_def cur n_def [symmetric] start idx_def rows_def order_def own_def ..
  also have "\<dots> = map (\<lambda>k. let s = SpendingSummary db a (at_day (month_first k)) (at_day (month_first (k + 1) - 1))
                  in \<lparr>mb_month = format_month (at_day (month_first k)), mb_income = sb_income s, mb_spend = sb_spend s,
                      mb_net = sb_net s, mb_transfers = sb_transfers s\<rparr>) [s..c]"
    unfolding order map_map
    by (rule map_cong [OF refl]) (simp add: tally SpendingSummary_def Let_def own_def del: set_upto)
  finally show ?thesis using n by (simp add: Let_def c_def n_def s_def)
qed

section \<open>Paging\<close>

text \<open>What a listing is a page of.\<close>

definition visible_rows :: "fin_db \<Rightarrow> txn_filter \<Rightarrow> txn list" where
  "visible_rows db f =
     (let all = newest_first (filter (txnPredicates f) (txns db))
      in if tf_external f
         then filter (\<lambda>t. \<not> isInternalTransfer (txn_desc t) (loadOwnLast4 db))
                (if tf_from f = None then take externalScanCap all else all)
         else all)"

definition cut_short :: "fin_db \<Rightarrow> txn_filter \<Rightarrow> bool" where
  "cut_short db f \<longleftrightarrow>
     tf_external f \<and> tf_from f = None \<and> externalScanCap < length (filter (txnPredicates f) (txns db))"

lemma newest_first_simps [simp]:
  "set (newest_first rows) = set rows" "length (newest_first rows) = length rows"
  by (simp_all add: newest_first_def)

lemma newest_first_sorted:
  assumes "distinct (map txn_id rows)"
  shows "sorted_wrt (\<lambda>x y. (txn_date y, txn_id y) < (txn_date x, txn_id x)) (newest_first rows)"
proof -
  let ?k = "\<lambda>t. (txn_date t, txn_id t)"
  have "distinct (map ?k rows)" using assms by (auto simp: distinct_map inj_on_def)
  then have "distinct (map ?k (sort_key ?k rows))" by (simp add: distinct_map)
  moreover have "sorted (map ?k (sort_key ?k rows))" by simp
  ultimately have "sorted_wrt (<) (map ?k (sort_key ?k rows))" unfolding strict_sorted_iff by blast
  then show ?thesis by (simp add: newest_first_def sorted_wrt_rev sorted_wrt_map)
qed

lemma view_page:
  "toTxnViews db (take n xs) = take n (toTxnViews db xs)" "toTxnViews db (drop n xs) = drop n (toTxnViews db xs)"
  by (simp_all add: toTxnViews_def take_map drop_map)

lemma clamped_page:
  assumes "0 \<le> off" "0 \<le> limit"
  shows "(let total = int (length xs); off1 = (if off > total then total else off); end0 = off1 + limit;
      stop = (if end0 > total then total else end0)
    in take (nat (stop - off1)) (drop (nat off1) xs)) = take (nat limit) (drop (nat off) xs)"
proof (cases "off > int (length xs)")
  case True
  then have "length xs \<le> nat off" by simp
  with True show ?thesis by (simp add: Let_def)
next
  case False
  show ?thesis
  proof (cases "off + limit > int (length xs)")
    case True
    then have "length (drop (nat off) xs) \<le> nat limit" "length (drop (nat off) xs) \<le> nat (int (length xs) - off)"
      using False assms by simp_all
    with True False show ?thesis by (simp add: Let_def)
  next
    case no: False
    with False show ?thesis by (simp add: Let_def)
  qed
qed

lemma list_page:
  assumes "0 \<le> tf_offset f" "1 \<le> tf_limit f" "tf_limit f \<le> 500"
  shows "ListTransactions db f =
    (take (nat (tf_limit f)) (drop (nat (tf_offset f)) (toTxnViews db (visible_rows db f))),
     int (length (visible_rows db f)), cut_short db f)"
proof -
  have lim: "txn_limit (tf_limit f) = tf_limit f" using assms by (simp add: txn_limit_def maxTxnLimit_def)
  show ?thesis
  proof (cases "tf_external f")
    case False
    then show ?thesis using assms
      by (simp add: ListTransactions_def visible_rows_def cut_short_def lim Let_def view_page)
  next
    case True
    let ?all = "newest_first (filter (txnPredicates f) (txns db))"
    let ?rows = "if tf_from f = None then take (externalScanCap + 1) ?all else ?all"
    have trunc: "tf_from f = None \<and> length ?rows > externalScanCap \<longleftrightarrow> cut_short db f"
      using True by (auto simp: cut_short_def)
    have kept: "(if cut_short db f then take externalScanCap ?rows else ?rows) =
        (if tf_from f = None then take externalScanCap ?all else ?all)"
      using True by (auto simp: cut_short_def)
    let ?ext = "filter (\<lambda>t. \<not> isInternalTransfer (txn_desc t) (loadOwnLast4 db))
      (if tf_from f = None then take externalScanCap ?all else ?all)"
    have vis: "visible_rows db f = ?ext" using True by (simp add: visible_rows_def Let_def)
    have off: "(if tf_offset f < 0 then 0 else tf_offset f) = tf_offset f" "0 \<le> tf_limit f" using assms by simp_all
    have "listExternalOnly db f =
        (toTxnViews db (take (nat (tf_limit f)) (drop (nat (tf_offset f)) ?ext)), int (length ?ext), cut_short db f)"
      unfolding listExternalOnly_def Let_def trunc kept lim off(1) clamped_page [OF assms(1) off(2), unfolded Let_def] ..
    with vis have "listExternalOnly db f =
        (toTxnViews db (take (nat (tf_limit f)) (drop (nat (tf_offset f)) (visible_rows db f))), int (length (visible_rows db f)),
         cut_short db f)" by (simp only:)
    then show ?thesis using True by (simp add: ListTransactions_def view_page)
  qed
qed

lemma concat_pages: "concat (map (\<lambda>i. take l (drop (i * l) xs)) [0..<k]) = take (k * l) xs"
proof (induction k)
  case (Suc k)
  have "take (k * l + l) xs = take (k * l) xs @ take l (drop (k * l) xs)" by (rule take_add)
  with Suc show ?case by (simp add: add.commute)
qed simp

lemma tf_offset_other:
  "visible_rows db (f\<lparr>tf_offset := o1\<rparr>) = visible_rows db f" "cut_short db (f\<lparr>tf_offset := o1\<rparr>) = cut_short db f"
proof -
  have "txnPredicates (f\<lparr>tf_offset := o1\<rparr>) = txnPredicates f" by (intro ext) (simp add: txnPredicates_def)
  then show "visible_rows db (f\<lparr>tf_offset := o1\<rparr>) = visible_rows db f" "cut_short db (f\<lparr>tf_offset := o1\<rparr>) = cut_short db f"
    by (simp_all add: visible_rows_def cut_short_def Let_def)
qed

text \<open>C24: Paging loses and repeats nothing.  For any page size the service allows, the successive pages of a
  listing, put together, are the matching rows, strictly newest first; every page reports their
  number.  With \<open>external_only\<close> no internal transfer appears, and the rows are all the matching
  external ones unless the answer says it was cut short, which happens exactly for a scan without a
  lower date bound of more than 20000 rows.\<close>

theorem paging_exact:
  assumes "distinct (map txn_id (txns db))" "1 \<le> tf_limit f" "tf_limit f \<le> 500"
  shows "\<exists>rows.
    (\<forall>k. length rows \<le> k * nat (tf_limit f) \<longrightarrow>
       concat (map (\<lambda>i. fst (ListTransactions db (f\<lparr>tf_offset := int i * tf_limit f\<rparr>))) [0..<k]) = toTxnViews db rows) \<and>
    (\<forall>off \<ge> 0. snd (ListTransactions db (f\<lparr>tf_offset := off\<rparr>)) =
       (int (length rows), tf_external f \<and> tf_from f = None \<and> 20000 < length (filter (txnPredicates f) (txns db)))) \<and>
    sorted_wrt (\<lambda>x y. (txn_date y, txn_id y) < (txn_date x, txn_id x)) rows \<and>
    (let wanted = {t \<in> set (txns db). txnPredicates f t \<and>
                     (tf_external f \<longrightarrow> \<not> isInternalTransfer (txn_desc t) (loadOwnLast4 db))}
     in set rows \<subseteq> wanted \<and> (\<not> snd (snd (ListTransactions db (f\<lparr>tf_offset := 0\<rparr>))) \<longrightarrow> set rows = wanted))"
proof (intro exI conjI allI impI)
  let ?rows = "visible_rows db f" and ?l = "nat (tf_limit f)"
  let ?all = "newest_first (filter (txnPredicates f) (txns db))"
  have page: "ListTransactions db (f\<lparr>tf_offset := off\<rparr>) =
      (take ?l (drop (nat off) (toTxnViews db ?rows)), int (length ?rows), cut_short db f)" if "0 \<le> off" for off
    using list_page [of "f\<lparr>tf_offset := off\<rparr>" db] assms(2,3) that by (simp add: tf_offset_other)
  show "concat (map (\<lambda>i. fst (ListTransactions db (f\<lparr>tf_offset := int i * tf_limit f\<rparr>))) [0..<k]) = toTxnViews db ?rows"
    if k: "length ?rows \<le> k * ?l" for k
  proof -
    have "fst (ListTransactions db (f\<lparr>tf_offset := int i * tf_limit f\<rparr>)) = take ?l (drop (i * ?l) (toTxnViews db ?rows))" for i
      using page [of "int i * tf_limit f"] assms(2) by (simp add: nat_mult_distrib)
    then show ?thesis using k by (simp add: concat_pages toTxnViews_def)
  qed
  show "snd (ListTransactions db (f\<lparr>tf_offset := off\<rparr>)) =
       (int (length ?rows), tf_external f \<and> tf_from f = None \<and> 20000 < length (filter (txnPredicates f) (txns db)))"
    if "0 \<le> off" for off
    using page [OF that] by (simp add: cut_short_def externalScanCap_def)
  have "distinct (map txn_id (filter (txnPredicates f) (txns db)))" by (rule distinct_map_filter [OF assms(1)])
  from newest_first_sorted [OF this]
  show "sorted_wrt (\<lambda>x y. (txn_date y, txn_id y) < (txn_date x, txn_id x)) ?rows"
    by (auto simp: visible_rows_def Let_def intro!: sorted_wrt_filter sorted_wrt_take)
  have sub: "set (if tf_from f = None then take externalScanCap ?all else ?all) \<subseteq> set ?all" by (auto dest: in_set_takeD)
  have full: "\<not> cut_short db f \<Longrightarrow> tf_external f \<Longrightarrow> (if tf_from f = None then take externalScanCap ?all else ?all) = ?all"
    by (auto simp: cut_short_def)
  show "let wanted = {t \<in> set (txns db). txnPredicates f t \<and>
                     (tf_external f \<longrightarrow> \<not> isInternalTransfer (txn_desc t) (loadOwnLast4 db))}
     in set ?rows \<subseteq> wanted \<and> (\<not> snd (snd (ListTransactions db (f\<lparr>tf_offset := 0\<rparr>))) \<longrightarrow> set ?rows = wanted)"
    using page [of 0] sub full by (auto simp: visible_rows_def Let_def)
qed

section \<open>A concrete ledger\<close>

definition ex_row :: "nat \<Rightarrow> day \<Rightarrow> rat \<Rightarrow> string \<Rightarrow> txn" where
  "ex_row i d x desc = \<lparr>txn_id = i, txn_account = 1, txn_hash = itoa (int i), txn_date = at_day d, txn_amount = F64 x,
     txn_raw = desc, txn_desc = desc, txn_merchant = '''', txn_after = None\<rparr>"

definition ex_everyday :: account where
  "ex_everyday = \<lparr>acc_id = 1, acc_source = ''bank'', acc_name = ''Everyday'', acc_masked = ''xxxx 4242'', acc_type = Everyday,
     acc_class = Asset, acc_currency = ''AUD'', acc_product = '''', acc_guessed = False, acc_description = '''',
     acc_drawdown = Unset, acc_created = 0, acc_updated = 0, acc_watermark = None\<rparr>"

definition ex_fin :: fin_db where
  "ex_fin = \<lparr>accounts = [ex_everyday], snapshots = [],
     txns = [ex_row 1 32 (-80) ''WOOLWORTHS 1234'', ex_row 2 33 (-500) ''Transfer to xx4242 CommBank app'',
             ex_row 3 34 (-20) ''Transfer to xx9999 CommBank app''], pendings = []\<rparr>"

lemma ex_own: "loadOwnLast4 ex_fin = {''4242''}"
  by code_simp

lemma ex_classes:
  "isInternalTransfer ''Transfer to xx9999 CommBank app'' {''4242''} = False"
  "isInternalTransfer ''Transfer to xx4242 CommBank app'' {''4242''} = True"
  "isInternalTransfer ''WOOLWORTHS 1234'' {''4242''} = False"
  by code_simp+

text \<open>The move between own accounts is not spending, the payment to somebody else is.\<close>

lemma monthly_matches_spending_witness:
  "\<exists>b. MonthlySummary (40 * day_ns) ex_fin 0 1 = [b] \<and> mb_month b = ''1970-02'' \<and>
     mb_spend b = 0 + - F64 (-80) + - F64 (-20) \<and> mb_transfers b = 0 + - F64 (-500)"
proof -
  have v: "month_number (day_of (40 * day_ns)) = 23641" "clamp_months 1 = 1"
    "month_first 23641 = 31" "month_first 23642 = 59" "format_month (at_day 31) = ''1970-02''"
    by code_simp+
  have n: "\<forall>t \<in> set (txns ex_fin). normalizeDate (txn_date t) = txn_date t"
    by (simp add: ex_fin_def ex_row_def)
  have rows: "filter (\<lambda>t. at_day 31 \<le> txn_date t \<and> txn_date t \<le> at_day 58 \<and> on_account 0 t) (txns ex_fin) = txns ex_fin"
    by (simp add: ex_fin_def ex_row_def on_account_def)
  have "sb_spend (SpendingSummary ex_fin 0 (at_day 31) (at_day 58)) = 0 + - F64 (-80) + - F64 (-20)"
    "sb_transfers (SpendingSummary ex_fin 0 (at_day 31) (at_day 58)) = 0 + - F64 (-500)"
    unfolding SpendingSummary_def rows ex_own Let_def
    by (simp_all add: ex_fin_def ex_row_def tally_add_def zero_tally_def ex_classes Let_def less_float64_def less_eq_float64_def
        zero_float64_def)
  then show ?thesis
    using monthly_matches_spending [OF _ n, of "40 * day_ns" 1 0] by (simp add: v Let_def)
qed

definition ex_external :: txn_filter where
  "ex_external = \<lparr>tf_account = 0, tf_from = None, tf_to = None, tf_limit = 1, tf_offset = 0, tf_external = True\<rparr>"

lemma ex_visible: "visible_rows ex_fin ex_external = [ex_row 3 34 (-20) ''Transfer to xx9999 CommBank app'', ex_row 1 32 (-80) ''WOOLWORTHS 1234'']"
proof -
  have all: "newest_first (filter (txnPredicates ex_external) (txns ex_fin)) =
      [ex_row 3 34 (-20) ''Transfer to xx9999 CommBank app'', ex_row 2 33 (-500) ''Transfer to xx4242 CommBank app'',
       ex_row 1 32 (-80) ''WOOLWORTHS 1234'']"
    by code_simp
  have desc: "txn_desc (ex_row i d x t) = t" for i d x t by (simp add: ex_row_def)
  show ?thesis unfolding visible_rows_def Let_def all
    by (simp add: ex_external_def externalScanCap_def desc ex_own ex_classes)
qed

lemma paging_exact_witness:
  "map tv_id (concat (map (\<lambda>i. fst (ListTransactions ex_fin (ex_external\<lparr>tf_offset := int i\<rparr>))) [0..<2])) = [3, 1] \<and>
   snd (ListTransactions ex_fin (ex_external\<lparr>tf_offset := 1\<rparr>)) = (2, False)"
proof -
  have d: "distinct (map txn_id (txns ex_fin))" by (simp add: ex_fin_def ex_row_def)
  have l: "1 \<le> tf_limit ex_external" "tf_limit ex_external \<le> 500" "tf_limit ex_external = 1" by (simp_all add: ex_external_def)
  have c: "cut_short ex_fin ex_external = False"
    by (simp add: cut_short_def externalScanCap_def ex_fin_def txnPredicates_def ex_external_def)
  have page: "ListTransactions ex_fin (ex_external\<lparr>tf_offset := off\<rparr>) =
      (take 1 (drop (nat off) (toTxnViews ex_fin (visible_rows ex_fin ex_external))), 2, False)" if "0 \<le> off" for off
    using list_page [of "ex_external\<lparr>tf_offset := off\<rparr>" ex_fin] l that
    by (simp add: tf_offset_other c) (simp add: ex_visible)
  obtain rows where rows: "\<forall>k. length rows \<le> k * nat (tf_limit ex_external) \<longrightarrow>
        concat (map (\<lambda>i. fst (ListTransactions ex_fin (ex_external\<lparr>tf_offset := int i * tf_limit ex_external\<rparr>))) [0..<k]) =
        toTxnViews ex_fin rows"
      "\<forall>off \<ge> 0. snd (ListTransactions ex_fin (ex_external\<lparr>tf_offset := off\<rparr>)) = (int (length rows),
        tf_external ex_external \<and> tf_from ex_external = None \<and> 20000 < length (filter (txnPredicates ex_external) (txns ex_fin)))"
    using paging_exact [OF d l(1,2)] by blast
  have "length rows = 2" using rows(2) page [of 1] by (auto dest: spec [of _ 1])
  then have "concat (map (\<lambda>i. fst (ListTransactions ex_fin (ex_external\<lparr>tf_offset := int i\<rparr>))) [0..<2]) = toTxnViews ex_fin rows"
    using rows(1) l(3) by simp
  moreover have "map tv_id (concat (map (\<lambda>i. fst (ListTransactions ex_fin (ex_external\<lparr>tf_offset := int i\<rparr>))) [0..<2])) = [3, 1]"
    by (simp add: page ex_visible toTxnViews_def ex_row_def Let_def numeral_2_eq_2)
  ultimately show ?thesis using page [of 1] by simp
qed

end
