(* ===== verification/Wishlist.thy ===== *)
theory Wishlist
  imports FinanceRead FinanceSync "HOL-Library.Multiset"
begin

text \<open>
  The wishlist: the ordered read of \<open>internal/finance/read.go\<close> with its roll-up, and the management
  operations of \<open>internal/api/admin_wishlist.go\<close>.  An input is what the framework has decoded and
  validated: an enum is a value of its datatype, a missing field is \<open>None\<close>.
\<close>

section \<open>Reading\<close>

datatype priority = Low | Medium | High
datatype wish_status = Wanted | Bought | Abandoned

record wish_item =
  w_id :: nat
  w_name :: string
  w_description :: string
  w_amount :: "float64 option"
  w_estimate :: bool
  w_currency :: string
  w_priority :: priority
  w_status :: wish_status
  w_deadline :: "instant option"
  w_resolved_at :: "instant option"
  w_link :: string
  w_image :: string
  w_created :: instant
  w_updated :: instant

record wish_totals =
  wt_count :: nat
  wt_known :: float64
  wt_unknown :: nat
  wt_mismatch :: nat
  wt_currency :: string

definition defaultWishlistLimit :: int where "defaultWishlistLimit = 100"
definition maxWishlistLimit :: int where "maxWishlistLimit = 500"

fun wishlistPriorityRank :: "priority \<Rightarrow> int" where
  "wishlistPriorityRank High = 3"
| "wishlistPriorityRank Medium = 2"
| "wishlistPriorityRank Low = 1"

definition lessWishlistItem :: "wish_item \<Rightarrow> wish_item \<Rightarrow> bool" where
  "lessWishlistItem a b =
     (let ra = wishlistPriorityRank (w_priority a); rb = wishlistPriorityRank (w_priority b);
          rest = (if w_created a \<noteq> w_created b then w_created b < w_created a else w_id b < w_id a)
      in if ra \<noteq> rb then rb < ra
         else (case (w_deadline a, w_deadline b) of
                 (None, None) \<Rightarrow> rest
               | (None, Some _) \<Rightarrow> False
               | (Some _, None) \<Rightarrow> True
               | (Some x, Some y) \<Rightarrow> if x \<noteq> y then x < y else rest))"

text \<open>\<open>sort.SliceStable\<close> by a comparison: every row goes behind the rows that are not after it.\<close>

fun insert_less :: "('r \<Rightarrow> 'r \<Rightarrow> bool) \<Rightarrow> 'r \<Rightarrow> 'r list \<Rightarrow> 'r list" where
  "insert_less lt x [] = [x]"
| "insert_less lt x (y # ys) = (if lt y x then y # insert_less lt x ys else x # y # ys)"

definition slice_stable :: "('r \<Rightarrow> 'r \<Rightarrow> bool) \<Rightarrow> 'r list \<Rightarrow> 'r list" where
  "slice_stable lt xs = foldr (insert_less lt) xs []"

definition parse_wish_status :: "string \<Rightarrow> (string + (wish_item \<Rightarrow> bool))" where
  "parse_wish_status s =
     (let st = to_lower (trim_space s)
      in if st = '''' then Inr (\<lambda>w. w_status w = Wanted)
         else if st = ''all'' then Inr (\<lambda>w. True)
         else if st = ''wanted'' then Inr (\<lambda>w. w_status w = Wanted)
         else if st = ''bought'' then Inr (\<lambda>w. w_status w = Bought)
         else if st = ''abandoned'' then Inr (\<lambda>w. w_status w = Abandoned)
         else Inl s)"

definition add_wish :: "wish_item \<Rightarrow> wish_totals \<Rightarrow> wish_totals" where
  "add_wish w tot =
     (case w_amount w of
        None \<Rightarrow> tot\<lparr>wt_unknown := wt_unknown tot + 1\<rparr>
      | Some x \<Rightarrow>
          if w_currency w \<noteq> wt_currency tot then tot\<lparr>wt_mismatch := wt_mismatch tot + 1\<rparr>
          else tot\<lparr>wt_known := wt_known tot + x\<rparr>)"

definition Wishlist :: "wish_item list \<Rightarrow> string \<Rightarrow> int \<Rightarrow> string + (wish_item list \<times> wish_totals \<times> bool)" where
  "Wishlist items status limit0 =
     (case parse_wish_status status of Inl e \<Rightarrow> Inl e
      | Inr sel \<Rightarrow>
         (let rows = slice_stable lessWishlistItem (filter sel items);
              l = (if limit0 \<le> 0 then defaultWishlistLimit else limit0);
              limit = (if l > maxWishlistLimit then maxWishlistLimit else l);
              truncated = (int (length rows) > limit);
              kept = (if truncated then take (nat limit) rows else rows)
          in Inr (kept,
                  fold add_wish kept \<lparr>wt_count = length kept, wt_known = 0, wt_unknown = 0, wt_mismatch = 0,
                    wt_currency = reportCurrency\<rparr>,
                  truncated)))"

section \<open>Writing\<close>

definition to_upper :: "string \<Rightarrow> string" where
  "to_upper s = map (\<lambda>c. if 97 \<le> (of_char c :: nat) \<and> (of_char c :: nat) \<le> 122 then char_of ((of_char c :: nat) - 32) else c) s"

definition normalizeWishlistCurrency :: "string \<Rightarrow> string" where
  "normalizeWishlistCurrency s = (let c = to_upper (trim_space s) in if c = '''' then ''AUD'' else c)"

definition validateWishlistName :: "string \<Rightarrow> http_error + string" where
  "validateWishlistName s =
     (let n = trim_space s in if n = '''' then Inl (Http 422 ''name must not be blank'') else Inr n)"

definition validateWishlistAmount :: "float64 option \<Rightarrow> http_error option" where
  "validateWishlistAmount a =
     (case a of None \<Rightarrow> None
      | Some x \<Rightarrow> if x \<le> 0 then Some (Http 422 ''amount must be a positive cost; omit it (or set amount_unknown) when the price is unknown'')
                 else None)"

definition parseQueryDate :: "string \<Rightarrow> http_error + instant option" where
  "parseQueryDate s0 =
     (let s = trim_space s0
      in if s = '''' then Inr None
         else (case parse_dateonly s of None \<Rightarrow> Inl (Http 422 (''invalid date '' @ s @ '' (want YYYY-MM-DD)''))
               | Some t \<Rightarrow> Inr (Some t)))"

record create_wish =
  cw_name :: string
  cw_description :: string
  cw_amount :: "float64 option"
  cw_estimate :: "bool option"
  cw_currency :: string
  cw_priority :: "priority option"
  cw_status :: "wish_status option"
  cw_deadline :: string
  cw_link :: string
  cw_image :: string

record update_wish =
  uw_name :: "string option"
  uw_description :: "string option"
  uw_amount :: "float64 option"
  uw_unknown :: "bool option"
  uw_estimate :: "bool option"
  uw_currency :: "string option"
  uw_priority :: "priority option"
  uw_status :: "wish_status option"
  uw_deadline :: "string option"
  uw_link :: "string option"
  uw_image :: "string option"

text \<open>The schema's validator of a name that is written: not empty and at most 200 bytes.  That an amount is
  positive is checked before.\<close>

definition name_valid :: "string \<Rightarrow> bool" where
  "name_valid n \<longleftrightarrow> n \<noteq> '''' \<and> length n \<le> 200"

definition new_wish :: "create_wish \<Rightarrow> string \<Rightarrow> instant option \<Rightarrow> instant \<Rightarrow> nat \<Rightarrow> wish_item" where
  "new_wish inp name deadline now i =
     \<lparr>w_id = i, w_name = name, w_description = cw_description inp,
      w_amount = cw_amount inp, w_estimate = (case cw_estimate inp of None \<Rightarrow> True | Some b \<Rightarrow> b),
      w_currency = normalizeWishlistCurrency (cw_currency inp),
      w_priority = (case cw_priority inp of None \<Rightarrow> Medium | Some p \<Rightarrow> p),
      w_status = (case cw_status inp of None \<Rightarrow> Wanted | Some s \<Rightarrow> s), w_deadline = deadline,
      w_resolved_at = (case cw_status inp of None \<Rightarrow> None | Some s \<Rightarrow> if s \<noteq> Wanted then Some now else None),
      w_link = cw_link inp, w_image = cw_image inp, w_created = now, w_updated = now\<rparr>"

definition createWishlistItem ::
  "request_ctx \<Rightarrow> create_wish \<Rightarrow> instant \<Rightarrow> wish_item list \<Rightarrow> (http_error + wish_item) \<times> wish_item list" where
  "createWishlistItem ctx inp now ws =
     (case requireAdmin ctx of Inl err \<Rightarrow> (Inl err, ws)
      | Inr _ \<Rightarrow>
       (case validateWishlistName (cw_name inp) of Inl err \<Rightarrow> (Inl err, ws)
        | Inr name \<Rightarrow>
         (case validateWishlistAmount (cw_amount inp) of Some err \<Rightarrow> (Inl err, ws)
          | None \<Rightarrow>
           (case parseQueryDate (cw_deadline inp) of Inl err \<Rightarrow> (Inl err, ws)
            | Inr deadline \<Rightarrow>
               (let w = new_wish inp name deadline now (fresh_id (map w_id ws))
                in if name_valid name then (Inr w, ws @ [w])
                   else (Inl (Http 500 ''failed to create wishlist item''), ws))))))"

text \<open>The row an edit leaves; \<open>deadline\<close> is the parsed one.\<close>

definition edited_wish :: "update_wish \<Rightarrow> string \<Rightarrow> instant option \<Rightarrow> instant \<Rightarrow> wish_item \<Rightarrow> wish_item" where
  "edited_wish inp name deadline now cur =
     cur\<lparr>w_name := (if uw_name inp \<noteq> None then name else w_name cur),
         w_description := (case uw_description inp of Some d \<Rightarrow> d | None \<Rightarrow> w_description cur),
         w_amount := (if uw_unknown inp = Some True then None
                      else (case uw_amount inp of Some x \<Rightarrow> Some x | None \<Rightarrow> w_amount cur)),
         w_estimate := (case uw_estimate inp of Some b \<Rightarrow> b | None \<Rightarrow> w_estimate cur),
         w_currency := (case uw_currency inp of Some c \<Rightarrow> normalizeWishlistCurrency c | None \<Rightarrow> w_currency cur),
         w_priority := (case uw_priority inp of Some p \<Rightarrow> p | None \<Rightarrow> w_priority cur),
         w_deadline := (if uw_deadline inp \<noteq> None then deadline else w_deadline cur),
         w_link := (case uw_link inp of Some l \<Rightarrow> l | None \<Rightarrow> w_link cur),
         w_image := (case uw_image inp of Some l \<Rightarrow> l | None \<Rightarrow> w_image cur),
         w_status := (case uw_status inp of Some s \<Rightarrow> s | None \<Rightarrow> w_status cur),
         w_resolved_at := (case uw_status inp of
                             Some s \<Rightarrow> if s \<noteq> w_status cur then (if s = Wanted then None else Some now) else w_resolved_at cur
                           | None \<Rightarrow> w_resolved_at cur),
         w_updated := now\<rparr>"

definition updateWishlistItem ::
  "request_ctx \<Rightarrow> nat \<Rightarrow> update_wish \<Rightarrow> instant \<Rightarrow> wish_item list \<Rightarrow> (http_error + wish_item) \<times> wish_item list" where
  "updateWishlistItem ctx i inp now ws =
     (case requireAdmin ctx of Inl err \<Rightarrow> (Inl err, ws)
      | Inr _ \<Rightarrow>
       (case (case uw_name inp of None \<Rightarrow> Inr '''' | Some n \<Rightarrow> validateWishlistName n) of Inl err \<Rightarrow> (Inl err, ws)
        | Inr name \<Rightarrow>
         (case (if uw_unknown inp = Some True then None else validateWishlistAmount (uw_amount inp)) of
            Some err \<Rightarrow> (Inl err, ws)
          | None \<Rightarrow>
           (case find (\<lambda>w. w_id w = i) ws of None \<Rightarrow> (Inl (Http 404 ''wishlist item not found''), ws)
            | Some cur \<Rightarrow>
             (case (case uw_deadline inp of None \<Rightarrow> Inr None
                    | Some d \<Rightarrow> if trim_space d = '''' then Inr None else parseQueryDate d) of Inl err \<Rightarrow> (Inl err, ws)
              | Inr deadline \<Rightarrow>
                 (let w = edited_wish inp name deadline now cur
                  in if uw_name inp = None \<or> name_valid name then (Inr w, update_where (\<lambda>x. w_id x = i) (\<lambda>_. w) ws)
                     else (Inl (Http 500 ''failed to update wishlist item''), ws)))))))"

definition deleteWishlistItem :: "request_ctx \<Rightarrow> nat \<Rightarrow> wish_item list \<Rightarrow> http_error option \<times> wish_item list" where
  "deleteWishlistItem ctx i ws =
     (case requireAdmin ctx of Inl err \<Rightarrow> (Some err, ws)
      | Inr _ \<Rightarrow>
          if \<exists>w \<in> set ws. w_id w = i then (None, filter (\<lambda>w. w_id w \<noteq> i) ws)
          else (Some (Http 404 ''wishlist item not found''), ws))"

section \<open>The order of the wishlist\<close>

text \<open>Sorting by a strict order that separates the rows.\<close>

locale separating_order =
  fixes lt :: "'r \<Rightarrow> 'r \<Rightarrow> bool" and key :: "'r \<Rightarrow> 'k"
  assumes trans: "lt x y \<Longrightarrow> lt y z \<Longrightarrow> lt x z"
    and total: "key x \<noteq> key y \<Longrightarrow> lt x y \<or> lt y x"
begin

lemma insert_mset: "mset (insert_less lt x ys) = add_mset x (mset ys)"
  by (induction ys) auto

lemma sort_mset: "mset (slice_stable lt xs) = mset xs"
  by (induction xs) (simp_all add: slice_stable_def insert_mset)

lemma insert_sorted:
  "sorted_wrt lt ys \<Longrightarrow> (\<And>y. y \<in> set ys \<Longrightarrow> key x \<noteq> key y) \<Longrightarrow> sorted_wrt lt (insert_less lt x ys)"
proof (induction ys)
  case (Cons y ys)
  have set: "set (insert_less lt x ys) = insert x (set ys)" using insert_mset [of x ys] by (metis set_mset_add_mset_insert set_mset_mset)
  show ?case
  proof (cases "lt y x")
    case True
    then show ?thesis using Cons by (simp add: set)
  next
    case False
    then have "lt x y" using total [of x y] Cons.prems(2) by auto
    with False show ?thesis using Cons.prems(1) trans by auto
  qed
qed simp

lemma sort_sorted: "distinct (map key xs) \<Longrightarrow> sorted_wrt lt (slice_stable lt xs)"
proof (induction xs)
  case (Cons x xs)
  have "set (slice_stable lt xs) = set xs" using sort_mset [of xs] by (metis set_mset_mset)
  then have "sorted_wrt lt (insert_less lt x (slice_stable lt xs))"
    using Cons by (intro insert_sorted) (auto simp: image_iff)
  then show ?case by (simp add: slice_stable_def)
qed (simp add: slice_stable_def)

end

definition wish_key :: "wish_item \<Rightarrow> int \<times> (int \<times> int) \<times> int \<times> int" where
  "wish_key w =
     (- wishlistPriorityRank (w_priority w), (case w_deadline w of None \<Rightarrow> (1, 0) | Some d \<Rightarrow> (0, d)), - w_created w, - int (w_id w))"

lemma less_wish_key: "lessWishlistItem a b \<longleftrightarrow> wish_key a < wish_key b"
  by (auto simp: lessWishlistItem_def wish_key_def Let_def less_prod_def' split: option.splits)

interpretation wish: separating_order lessWishlistItem w_id
proof
  show "lessWishlistItem x y \<Longrightarrow> lessWishlistItem y z \<Longrightarrow> lessWishlistItem x z" for x y z by (simp add: less_wish_key)
  show "w_id x \<noteq> w_id y \<Longrightarrow> lessWishlistItem x y \<or> lessWishlistItem y x" for x y
    by (auto simp: less_wish_key wish_key_def neq_iff [symmetric])
qed

lemma fold_wish:
  "fold add_wish ws tot =
     tot\<lparr>wt_unknown := wt_unknown tot + length (filter (\<lambda>w. w_amount w = None) ws),
         wt_mismatch := wt_mismatch tot + length (filter (\<lambda>w. w_amount w \<noteq> None \<and> w_currency w \<noteq> wt_currency tot) ws),
         wt_known := foldl (+) (wt_known tot) (List.map_filter w_amount (filter (\<lambda>w. w_currency w = wt_currency tot) ws))\<rparr>"
proof (induction ws arbitrary: tot)
  case (Cons w ws)
  have "fold add_wish (w # ws) tot = fold add_wish ws (add_wish w tot)" by simp
  also have "\<dots> = tot\<lparr>wt_unknown := wt_unknown tot + length (filter (\<lambda>w. w_amount w = None) (w # ws)),
         wt_mismatch := wt_mismatch tot + length (filter (\<lambda>w. w_amount w \<noteq> None \<and> w_currency w \<noteq> wt_currency tot) (w # ws)),
         wt_known := foldl (+) (wt_known tot) (List.map_filter w_amount (filter (\<lambda>w. w_currency w = wt_currency tot) (w # ws)))\<rparr>"
    unfolding Cons.IH by (cases "w_amount w") (simp_all add: add_wish_def)
  finally show ?case .
qed simp

lemma wishlist_parts:
  assumes "Wishlist items status limit = Inr (kept, tot, truncated)"
  obtains sel lim where "parse_wish_status status = Inr sel" "1 \<le> lim" "lim \<le> 500" "1 \<le> limit \<and> limit \<le> 500 \<longrightarrow> lim = limit"
    "kept = take (nat lim) (slice_stable lessWishlistItem (filter sel items))"
    "truncated \<longleftrightarrow> lim < int (length (slice_stable lessWishlistItem (filter sel items)))"
    "tot = fold add_wish kept \<lparr>wt_count = length kept, wt_known = 0, wt_unknown = 0, wt_mismatch = 0, wt_currency = reportCurrency\<rparr>"
proof -
  obtain sel where sel: "parse_wish_status status = Inr sel" using assms by (auto simp: Wishlist_def split: sum.splits)
  define lim where "lim = (let l = (if limit \<le> 0 then defaultWishlistLimit else limit) in if l > maxWishlistLimit then maxWishlistLimit else l)"
  have lim: "1 \<le> lim" "lim \<le> 500" "1 \<le> limit \<and> limit \<le> 500 \<longrightarrow> lim = limit"
    by (auto simp: lim_def Let_def defaultWishlistLimit_def maxWishlistLimit_def)
  show ?thesis
    by (rule that [OF sel lim])
      (use assms lim(1,2) in \<open>auto simp: Wishlist_def sel Let_def lim_def [unfolded Let_def, symmetric]\<close>)
qed

text \<open>What the wishlist shows.  The rows shown are the matching ones in the order priority, then nearest
  deadline with dateless rows last, then newest; when the limit cuts some off the answer says so,
  and every row left out comes after every row shown.  The roll-up describes exactly the rows
  shown: how many, how many without a price, how many priced in another currency, and the sum of
  the rest.\<close>

theorem wishlist_exact:
  assumes "distinct (map w_id items)" "Wishlist items status limit = Inr (kept, tot, truncated)"
  shows "\<exists>sel rest. parse_wish_status status = Inr sel \<and>
    sorted_wrt lessWishlistItem kept \<and> mset (kept @ rest) = mset (filter sel items) \<and>
    (\<forall>x \<in> set kept. \<forall>y \<in> set rest. lessWishlistItem x y) \<and> (truncated \<longleftrightarrow> rest \<noteq> []) \<and>
    int (length kept) \<le> 500 \<and>
    (1 \<le> limit \<and> limit \<le> 500 \<longrightarrow> length kept = min (nat limit) (length (filter sel items))) \<and>
    wt_count tot = length kept \<and>
    wt_unknown tot = length (filter (\<lambda>w. w_amount w = None) kept) \<and>
    wt_mismatch tot = length (filter (\<lambda>w. w_amount w \<noteq> None \<and> w_currency w \<noteq> ''AUD'') kept) \<and>
    wt_known tot = foldl (+) 0 (List.map_filter w_amount (filter (\<lambda>w. w_currency w = ''AUD'') kept))"
proof -
  obtain sel lim where sel: "parse_wish_status status = Inr sel"
    and lim: "1 \<le> lim" "lim \<le> 500" "1 \<le> limit \<and> limit \<le> 500 \<longrightarrow> lim = limit"
    and kept: "kept = take (nat lim) (slice_stable lessWishlistItem (filter sel items))"
    and trunc: "truncated \<longleftrightarrow> lim < int (length (slice_stable lessWishlistItem (filter sel items)))"
    and tot: "tot = fold add_wish kept \<lparr>wt_count = length kept, wt_known = 0, wt_unknown = 0, wt_mismatch = 0,
                    wt_currency = reportCurrency\<rparr>"
    by (rule wishlist_parts [OF assms(2)])
  define rows where "rows = slice_stable lessWishlistItem (filter sel items)"
  note kept = kept [folded rows_def] and trunc = trunc [folded rows_def]
  have "distinct (map w_id (filter sel items))" by (rule distinct_map_filter [OF assms(1)])
  then have sorted: "sorted_wrt lessWishlistItem rows" unfolding rows_def by (rule wish.sort_sorted)
  have mset: "mset rows = mset (filter sel items)" by (simp add: rows_def wish.sort_mset)
  then have len: "length rows = length (filter sel items)" by (rule mset_eq_length)
  have split: "rows = kept @ drop (nat lim) rows" by (simp add: kept)
  show ?thesis
  proof (intro exI conjI)
    show "parse_wish_status status = Inr sel" by (rule sel)
    show "sorted_wrt lessWishlistItem kept" using sorted by (simp add: kept sorted_wrt_take)
    show "mset (kept @ drop (nat lim) rows) = mset (filter sel items)" using mset split by simp
    show "\<forall>x \<in> set kept. \<forall>y \<in> set (drop (nat lim) rows). lessWishlistItem x y"
      using sorted split by (metis sorted_wrt_append)
    show "truncated \<longleftrightarrow> drop (nat lim) rows \<noteq> []" using trunc lim(1) by auto
    show "int (length kept) \<le> 500" using lim by (simp add: kept)
    show "1 \<le> limit \<and> limit \<le> 500 \<longrightarrow> length kept = min (nat limit) (length (filter sel items))"
      using lim(3) len by (simp add: kept min.commute)
  qed (simp_all add: tot fold_wish reportCurrency_def)
qed

section \<open>The life of a wish\<close>

inductive wish_step :: "wish_item list \<Rightarrow> wish_item list \<Rightarrow> bool" where
  creates: "createWishlistItem ctx inp now ws = (r, ws') \<Longrightarrow> wish_step ws ws'"
| updates: "updateWishlistItem ctx i upd now ws = (r, ws') \<Longrightarrow> wish_step ws ws'"
| deletes: "deleteWishlistItem ctx i ws = (e, ws') \<Longrightarrow> wish_step ws ws'"

definition wish_ok :: "wish_item \<Rightarrow> bool" where
  "wish_ok w \<longleftrightarrow>
     name_valid (w_name w) \<and> w_currency w \<noteq> '''' \<and> (case w_amount w of None \<Rightarrow> True | Some x \<Rightarrow> 0 < x) \<and>
     (w_resolved_at w = None \<longleftrightarrow> w_status w = Wanted)"

definition wishes_ok :: "wish_item list \<Rightarrow> bool" where
  "wishes_ok ws \<longleftrightarrow> distinct (map w_id ws) \<and> list_all wish_ok ws"

lemma currency_nonempty: "normalizeWishlistCurrency s \<noteq> ''''"
  by (simp add: normalizeWishlistCurrency_def Let_def)

lemma amount_checked [simp]: "validateWishlistAmount (Some x) = None \<longleftrightarrow> 0 < x" "validateWishlistAmount None = None"
  by (auto simp: validateWishlistAmount_def)

lemma new_wish_ok:
  "name_valid name \<Longrightarrow> validateWishlistAmount (cw_amount inp) = None \<Longrightarrow> wish_ok (new_wish inp name deadline now i)"
  using currency_nonempty by (auto simp: wish_ok_def new_wish_def split: option.splits)

lemma wish_create_cases:
  assumes "createWishlistItem ctx inp now ws = (r, ws')"
  obtains (refused) e where "r = Inl e" "ws' = ws"
  | (created) name deadline where "r = Inr (new_wish inp name deadline now (fresh_id (map w_id ws)))"
      "ws' = ws @ [new_wish inp name deadline now (fresh_id (map w_id ws))]"
      "name_valid name" "validateWishlistAmount (cw_amount inp) = None"
proof (cases r)
  case (Inl e)
  then show ?thesis using assms refused by (auto simp: createWishlistItem_def Let_def split: sum.splits option.splits if_splits)
next
  case (Inr w)
  show ?thesis using assms Inr created by (auto simp: createWishlistItem_def Let_def split: sum.splits option.splits if_splits)
qed

lemma wish_update_cases:
  assumes "updateWishlistItem ctx i inp now ws = (r, ws')"
  obtains (refused) e where "r = Inl e" "ws' = ws"
  | (updated) cur name deadline where "find (\<lambda>w. w_id w = i) ws = Some cur" "r = Inr (edited_wish inp name deadline now cur)"
      "ws' = update_where (\<lambda>x. w_id x = i) (\<lambda>_. edited_wish inp name deadline now cur) ws"
      "uw_name inp = None \<or> name_valid name" "uw_unknown inp = Some True \<or> validateWishlistAmount (uw_amount inp) = None"
proof (cases r)
  case (Inl e)
  then show ?thesis using assms refused by (auto simp: updateWishlistItem_def Let_def split: sum.splits option.splits if_splits)
next
  case (Inr w)
  show ?thesis
    using assms Inr updated
    by (auto simp: updateWishlistItem_def Let_def split: sum.splits option.splits if_splits)
qed

lemma edited_ok:
  assumes "wish_ok cur" "uw_name inp = None \<or> name_valid name" "uw_unknown inp = Some True \<or> validateWishlistAmount (uw_amount inp) = None"
  shows "wish_ok (edited_wish inp name deadline now cur)"
proof -
  have "case w_amount (edited_wish inp name deadline now cur) of None \<Rightarrow> True | Some x \<Rightarrow> 0 < x"
    using assms(1,3) by (cases "uw_amount inp") (auto simp: edited_wish_def wish_ok_def)
  moreover have "name_valid (w_name (edited_wish inp name deadline now cur))"
    using assms(1,2) by (auto simp: edited_wish_def wish_ok_def)
  moreover have "w_currency (edited_wish inp name deadline now cur) \<noteq> ''''"
    using assms(1) currency_nonempty by (cases "uw_currency inp") (auto simp: edited_wish_def wish_ok_def)
  moreover have "w_resolved_at (edited_wish inp name deadline now cur) = None \<longleftrightarrow> w_status (edited_wish inp name deadline now cur) = Wanted"
    using assms(1) by (cases "uw_status inp") (auto simp: edited_wish_def wish_ok_def)
  ultimately show ?thesis by (simp add: wish_ok_def)
qed

lemma wish_step_ok: "wish_step ws ws' \<Longrightarrow> wishes_ok ws \<Longrightarrow> wishes_ok ws'"
proof (induction rule: wish_step.induct)
  case (creates ctx inp now ws r ws')
  show ?case
  proof (cases rule: wish_create_cases [OF creates(1)])
    case (2 name deadline)
    have "w_id (new_wish inp name deadline now (fresh_id (map w_id ws))) = fresh_id (map w_id ws)" by (simp add: new_wish_def)
    moreover have "fresh_id (map w_id ws) \<notin> w_id ` set ws" using fresh_id_new [of "map w_id ws"] by simp
    ultimately show ?thesis using 2 creates(2) new_wish_ok [OF 2(3,4)] by (simp add: wishes_ok_def)
  qed (use creates in simp)
next
  case (updates ctx i upd now ws r ws')
  show ?case
  proof (cases rule: wish_update_cases [OF updates(1)])
    case (2 cur name deadline)
    have cur: "cur \<in> set ws" "w_id cur = i" using find_SomeD [OF 2(1)] by auto
    have "wish_ok (edited_wish upd name deadline now cur)"
      using updates(2) cur(1) by (intro edited_ok [OF _ 2(4,5)]) (simp add: wishes_ok_def list_all_iff)
    moreover have "w_id (edited_wish upd name deadline now cur) = i" using cur(2) by (simp add: edited_wish_def)
    moreover have "map w_id ws' = map w_id ws" unfolding 2(3) by (rule map_update_where) (simp add: calculation(2))
    ultimately show ?thesis using updates(2) 2(3) by (auto simp: wishes_ok_def list_all_iff in_update_where)
  qed (use updates in simp)
next
  case (deletes ctx i ws e ws')
  then show ?case
    by (auto simp: deleteWishlistItem_def wishes_ok_def list_all_iff distinct_map_filter split: sum.splits if_splits)
qed

lemma wish_steps_ok: "wish_step\<^sup>*\<^sup>* [] ws \<Longrightarrow> wishes_ok ws"
proof (induction rule: rtranclp_induct)
  case base
  show ?case by (simp add: wishes_ok_def)
next
  case (step ws ws')
  show ?case by (rule wish_step_ok [OF step.hyps(2) step.IH])
qed

lemma sum_nonneg: "list_all (\<lambda>x. 0 \<le> x) xs \<Longrightarrow> 0 \<le> z \<Longrightarrow> 0 \<le> foldl (+) z (xs :: float64 list)"
  by (induction xs arbitrary: z) (simp_all add: float_add_nonneg)

text \<open>The list stays consistent.  Whatever is created, edited and deleted, and by whoever, ids are unique,
  names have 1 to 200 bytes, a price is positive or unknown, a currency is never blank, and
  \<open>resolved_at\<close> is set exactly on the items that have left \<open>wanted\<close>; the cost total of a read is never
  negative.\<close>

theorem wish_life:
  assumes "wish_step\<^sup>*\<^sup>* [] ws"
  shows "distinct (map w_id ws) \<and>
    (\<forall>w \<in> set ws. 1 \<le> length (w_name w) \<and> length (w_name w) \<le> 200 \<and> w_currency w \<noteq> '''' \<and>
       (\<forall>x. w_amount w = Some x \<longrightarrow> 0 < x) \<and> (w_resolved_at w \<noteq> None \<longleftrightarrow> w_status w \<noteq> Wanted)) \<and>
    (\<forall>status limit kept tot truncated. Wishlist ws status limit = Inr (kept, tot, truncated) \<longrightarrow> 0 \<le> wt_known tot)"
proof (intro conjI ballI allI impI)
  note ok = wish_steps_ok [OF assms]
  show "distinct (map w_id ws)" using ok by (simp add: wishes_ok_def)
  fix w assume "w \<in> set ws"
  then have w: "wish_ok w" using ok by (simp add: wishes_ok_def list_all_iff)
  show "1 \<le> length (w_name w)" "length (w_name w) \<le> 200"
    using w by (cases "w_name w"; simp add: wish_ok_def name_valid_def)+
  show "w_currency w \<noteq> ''''" "w_resolved_at w \<noteq> None \<longleftrightarrow> w_status w \<noteq> Wanted" using w by (simp_all add: wish_ok_def)
  show "0 < x" if "w_amount w = Some x" for x using w that by (simp add: wish_ok_def)
next
  fix status limit kept tot truncated
  assume read: "Wishlist ws status limit = Inr (kept, tot, truncated)"
  then obtain sel lim where k: "kept = take (nat lim) (slice_stable lessWishlistItem (filter sel ws))"
      "tot = fold add_wish kept \<lparr>wt_count = length kept, wt_known = 0, wt_unknown = 0, wt_mismatch = 0, wt_currency = reportCurrency\<rparr>"
    by (rule wishlist_parts)
  have "set (slice_stable lessWishlistItem (filter sel ws)) = set (filter sel ws)"
    using wish.sort_mset [of "filter sel ws"] by (metis set_mset_mset)
  then have "\<forall>w \<in> set kept. wish_ok w" using set_take_subset [of "nat lim" "slice_stable lessWishlistItem (filter sel ws)"] k(1) wish_steps_ok [OF assms] by (auto simp: wishes_ok_def list_all_iff)
  then have "list_all (\<lambda>x. 0 \<le> x) (List.map_filter w_amount (filter (\<lambda>w. w_currency w = reportCurrency) kept))"
    by (force simp: list_all_iff map_filter_def wish_ok_def)
  then show "0 \<le> wt_known tot" unfolding k(2) fold_wish by (simp add: sum_nonneg)
qed

text \<open>Editing a wish.  An accepted edit changes the addressed row only, keeps its id and creation time,
  and leaves every field the request omits; \<open>resolved_at\<close> is stamped when the status moves out of
  \<open>wanted\<close> or between the two outcomes, cleared when it moves back, and kept when the request repeats
  the status; an unknown price takes precedence over a given one.  A refused edit changes nothing.\<close>

theorem wish_edit:
  assumes "distinct (map w_id ws)" "updateWishlistItem ctx i inp now ws = (r, ws')"
  shows "case r of
      Inl _ \<Rightarrow> ws' = ws
    | Inr w \<Rightarrow> \<exists>u cur. x_user ctx = Some u \<and> u_role u = Admin \<and> cur \<in> set ws \<and> w_id cur = i \<and>
        ws' = map (\<lambda>x. if x = cur then w else x) ws \<and>
        w_id w = i \<and> w_created w = w_created cur \<and> w_updated w = now \<and>
        (uw_name inp = None \<longrightarrow> w_name w = w_name cur) \<and> (uw_currency inp = None \<longrightarrow> w_currency w = w_currency cur) \<and>
        (uw_priority inp = None \<longrightarrow> w_priority w = w_priority cur) \<and> (uw_deadline inp = None \<longrightarrow> w_deadline w = w_deadline cur) \<and>
        w_amount w = (if uw_unknown inp = Some True then None
                      else if uw_amount inp \<noteq> None then uw_amount inp else w_amount cur) \<and>
        w_status w = (case uw_status inp of None \<Rightarrow> w_status cur | Some s \<Rightarrow> s) \<and>
        w_resolved_at w = (if w_status w = w_status cur then w_resolved_at cur
                           else if w_status w = Wanted then None else Some now)"
proof (cases rule: wish_update_cases [OF assms(2)])
  case (2 cur name deadline)
  have cur: "cur \<in> set ws" "w_id cur = i" using find_SomeD [OF 2(1)] by auto
  obtain u where u: "x_user ctx = Some u" "u_role u = Admin"
    using assms(2) 2(2) by (auto simp: updateWishlistItem_def requireAdmin_def split: sum.splits option.splits if_splits)
  have one: "w_id x = i \<longleftrightarrow> x = cur" if "x \<in> set ws" for x
    using assms(1) cur that by (auto simp: distinct_map inj_on_def)
  have rows: "ws' = map (\<lambda>x. if x = cur then edited_wish inp name deadline now cur else x) ws"
    using one by (auto simp: 2(3) update_where_def)
  show ?thesis
    unfolding 2(2) sum.case
    by (intro exI [of _ u] exI [of _ cur] conjI u cur rows)
      (use cur in \<open>auto simp: edited_wish_def split: option.splits\<close>)
qed simp

section \<open>A concrete list\<close>

definition ex_admin :: request_ctx where
  "ex_admin = \<lparr>x_user = Some (ex_user 1 ''a@x.org'' Admin), x_token = '''', x_bearer = None\<rparr>"

definition ex_wish_input :: "string \<Rightarrow> float64 option \<Rightarrow> create_wish" where
  "ex_wish_input name amount =
     \<lparr>cw_name = name, cw_description = '''', cw_amount = amount, cw_estimate = None, cw_currency = '' aud '',
      cw_priority = Some High, cw_status = None, cw_deadline = '''', cw_link = '''', cw_image = ''''\<rparr>"

definition ex_no_change :: update_wish where
  "ex_no_change = \<lparr>uw_name = None, uw_description = None, uw_amount = None, uw_unknown = None, uw_estimate = None,
     uw_currency = None, uw_priority = None, uw_status = None, uw_deadline = None, uw_link = None, uw_image = None\<rparr>"

definition ex_glasses :: wish_item where
  "ex_glasses = \<lparr>w_id = 1, w_name = ''glasses'', w_description = '''', w_amount = Some (F64 250), w_estimate = True,
     w_currency = ''AUD'', w_priority = High, w_status = Wanted, w_deadline = None, w_resolved_at = None,
     w_link = '''', w_image = '''', w_created = 5, w_updated = 5\<rparr>"

lemma ex_create: "createWishlistItem ex_admin (ex_wish_input '' glasses'' (Some (F64 250))) 5 [] = (Inr ex_glasses, [ex_glasses])"
  by code_simp

lemma ex_buy:
  "updateWishlistItem ex_admin 1 (ex_no_change\<lparr>uw_status := Some Bought\<rparr>) 9 [ex_glasses] =
     (Inr (ex_glasses\<lparr>w_status := Bought, w_resolved_at := Some 9, w_updated := 9\<rparr>),
      [ex_glasses\<lparr>w_status := Bought, w_resolved_at := Some 9, w_updated := 9\<rparr>])"
  by code_simp

lemma ex_read:
  "Wishlist [ex_glasses] '' Wanted '' 0 =
     Inr ([ex_glasses], \<lparr>wt_count = 1, wt_known = F64 250, wt_unknown = 0, wt_mismatch = 0, wt_currency = ''AUD''\<rparr>, False)"
  by code_simp

lemma wishlist_exact_witness:
  "\<exists>sel. parse_wish_status '' Wanted '' = Inr sel \<and> mset (filter sel [ex_glasses]) = mset [ex_glasses]"
  using wishlist_exact [OF _ ex_read] by fastforce

lemma wish_life_witness:
  "wish_step\<^sup>*\<^sup>* [] [ex_glasses] \<and> w_resolved_at ex_glasses = None \<and> length (w_name ex_glasses) \<le> 200"
proof -
  have "wish_step\<^sup>*\<^sup>* [] [ex_glasses]" by (rule r_into_rtranclp) (rule wish_step.creates [OF ex_create])
  from wish_life [OF this] this show ?thesis by (auto simp: ex_glasses_def)
qed

lemma wish_edit_witness:
  "\<exists>ws w. updateWishlistItem ex_admin 1 (ex_no_change\<lparr>uw_status := Some Bought\<rparr>) 9 [ex_glasses] = (Inr w, ws) \<and>
     w_resolved_at w = Some 9 \<and> w_created w = 5"
  using wish_edit [OF _ ex_buy] ex_buy by (auto simp: ex_glasses_def)

text \<open>A name the framework accepts, because it counts characters, and the schema refuses, because it counts
  bytes: the answer is a server error, not the promised validation error.\<close>

lemma long_name_is_server_error:
  "rune_count (concat (replicate 101 [CHR 0xC3, CHR 0xA9])) = 101 \<and>
   fst (createWishlistItem ex_admin (ex_wish_input (concat (replicate 101 [CHR 0xC3, CHR 0xA9])) None) 5 []) =
     Inl (Http 500 ''failed to create wishlist item'')"
  by code_simp

end
