(* ===== verification/BalanceSeries.thy ===== *)
theory BalanceSeries
  imports FinanceRead Bills
begin

text \<open>
  The bucketed balance series of \<open>internal/finance/balance_series.go\<close>: day, week and month buckets on
  local midnights, closes from the bank's readings (carried forward, never back), and closes derived
  from the posted rows, with the reconciliation flags.

  The time zone is a parameter, the offset from UTC at an instant.  The two loops over bucket starts
  end only if the calendar moves forward, so they are partial functions and a series is \<open>None\<close> when
  a loop does not return; \<open>zone_ok\<close> is what is asked of a zone.
\<close>

section \<open>Buckets\<close>

datatype step = StepRaw | StepDay | StepWeek | StepMonth
datatype basis = BasisSnapshot | BasisLedger

definition ParseBalanceStep :: "string \<Rightarrow> string + step" where
  "ParseBalanceStep s =
     (if s = '''' then Inr StepRaw else if s = ''day'' then Inr StepDay else if s = ''week'' then Inr StepWeek
      else if s = ''month'' then Inr StepMonth else Inl s)"

definition ParseBalanceBasis :: "string \<Rightarrow> string + basis" where
  "ParseBalanceBasis s =
     (if s = '''' \<or> s = ''snapshot'' then Inr BasisSnapshot else if s = ''ledger'' then Inr BasisLedger else Inl s)"

text \<open>\<open>time.Date(y, m, d, 0, 0, 0, 0, loc)\<close>: the offset is looked up at the wall clock read as UTC, and
  again at the instant that gives.\<close>

definition zone_date :: "zone \<Rightarrow> int \<Rightarrow> int \<Rightarrow> int \<Rightarrow> instant" where
  "zone_date z y m d = (let u = at_day (go_date y m d) in u - z (u - z u))"

definition local_day :: "zone \<Rightarrow> instant \<Rightarrow> day" where
  "local_day z t = day_of (t + z t)"

definition LocalToday :: "zone \<Rightarrow> instant \<Rightarrow> instant" where
  "LocalToday z now = (let n = local_day z now in at_day (go_date (year_of n) (month_of n) (mday_of n)))"

definition bucketStart :: "zone \<Rightarrow> step \<Rightarrow> instant \<Rightarrow> instant" where
  "bucketStart z step t =
     (let n = local_day z t
      in case step of
           StepWeek \<Rightarrow> zone_date z (year_of n) (month_of n) (mday_of n - (weekday n + 6) mod 7)
         | StepMonth \<Rightarrow> zone_date z (year_of n) (month_of n) 1
         | _ \<Rightarrow> zone_date z (year_of n) (month_of n) (mday_of n))"

definition nextBucketStart :: "zone \<Rightarrow> step \<Rightarrow> instant \<Rightarrow> instant" where
  "nextBucketStart z step start =
     (let n = local_day z start
      in case step of
           StepWeek \<Rightarrow> zone_date z (year_of n) (month_of n) (mday_of n + 7)
         | StepMonth \<Rightarrow> zone_date z (year_of n) (month_of n + 1) 1
         | _ \<Rightarrow> zone_date z (year_of n) (month_of n) (mday_of n + 1))"

definition bucketKey :: "instant \<Rightarrow> int" where
  "bucketKey t = t div second_ns"

text \<open>\<open>for b := lo; !b.After(hi); b = nextBucketStart(b, step)\<close>: the starts the loop visits.\<close>

partial_function (option) bucket_loop :: "zone \<Rightarrow> step \<Rightarrow> instant \<Rightarrow> instant \<Rightarrow> instant list option" where
  "bucket_loop z step b hi =
     (if hi < b then Some []
      else Option.bind (bucket_loop z step (nextBucketStart z step b) hi) (\<lambda>bs. Some (b # bs)))"

section \<open>The series of an account\<close>

record series_filter =
  sf_account :: nat
  sf_from :: "instant option"
  sf_to :: "instant option"
  sf_step :: step
  sf_basis :: basis

record series_view =
  sr_account :: nat
  sr_name :: string
  sr_class :: acct_class
  sr_currency :: string
  sr_basis :: basis
  sr_step :: step
  sr_points :: "balance_point list"
  sr_first :: "float64 option"
  sr_last :: "float64 option"
  sr_change :: "float64 option"
  sr_change_pct :: "float64 option"
  sr_ledger_from :: "instant option"
  sr_unverified :: bool
  sr_drift_max :: float64
  sr_note :: string

definition newSeriesView :: "account \<Rightarrow> series_filter \<Rightarrow> series_view" where
  "newSeriesView acc f =
     \<lparr>sr_account = acc_id acc, sr_name = acc_name acc, sr_class = acc_class acc, sr_currency = acc_currency acc,
      sr_basis = sf_basis f, sr_step = sf_step f, sr_points = [], sr_first = None, sr_last = None, sr_change = None,
      sr_change_pct = None, sr_ledger_from = None, sr_unverified = False, sr_drift_max = 0, sr_note = ''''\<rparr>"

definition finalize :: "series_view \<Rightarrow> series_view" where
  "finalize v =
     (if sr_points v = [] then v
      else
       (let first = bp_balance (hd (sr_points v)); last = bp_balance (List.last (sr_points v)); change = last - first;
            v1 = v\<lparr>sr_first := Some first, sr_last := Some last, sr_change := Some change\<rparr>
        in if first \<noteq> 0 then v1\<lparr>sr_change_pct := Some (fdiv change \<bar>first\<bar> * f64 100)\<rparr> else v1))"

section \<open>Basis snapshot\<close>

text \<open>The last reading of each bucket, by the bucket's key.\<close>

definition bucket_closes :: "zone \<Rightarrow> step \<Rightarrow> balance_point list \<Rightarrow> int \<Rightarrow> float64 option" where
  "bucket_closes z step rs =
     fold (\<lambda>r m. m(bucketKey (bucketStart z step (bp_as_of r)) \<mapsto> bp_balance r)) rs (\<lambda>_. None)"

definition snapshot_step ::
  "(int \<Rightarrow> float64 option) \<Rightarrow> instant \<Rightarrow> balance_point list \<times> float64 option \<Rightarrow> balance_point list \<times> float64 option" where
  "snapshot_step closes b st =
     (case closes (bucketKey b) of
        Some c \<Rightarrow> (fst st @ [raw_point b c], Some c)
      | None \<Rightarrow>
          (case snd st of
             None \<Rightarrow> st
           | Some prev \<Rightarrow> (fst st @ [(raw_point b prev)\<lparr>bp_carried := True\<rparr>], snd st)))"

definition snapshotSeries :: "zone \<Rightarrow> fin_db \<Rightarrow> account \<Rightarrow> series_filter \<Rightarrow> series_view option" where
  "snapshotSeries z db acc f =
     (let v = newSeriesView acc f;
          step = sf_step f;
          qFrom = map_option (bucketStart z step) (sf_from f);
          all = BalanceHistory db (acc_id acc) qFrom;
          readings = (case sf_to f of None \<Rightarrow> all
                      | Some t \<Rightarrow> let stop = nextBucketStart z step (bucketStart z step t)
                                 in filter (\<lambda>r. bp_as_of r < stop) all);
          prime = (case qFrom of None \<Rightarrow> None
                   | Some q \<Rightarrow> map_option snap_balance
                       (last_by (\<lambda>s. (snap_as_of s, snap_id s))
                         (filter (\<lambda>s. snap_account s = acc_id acc \<and> snap_as_of s < q) (snapshots db))))
      in if readings = [] \<and> prime = None then Some v
         else
          (let closes = bucket_closes z step readings;
               lo0 = (case sf_from f of None \<Rightarrow> zero_time | Some t \<Rightarrow> bucketStart z step t);
               lo = (if prime = None \<and> readings \<noteq> []
                     then (let first = bucketStart z step (bp_as_of (hd readings))
                           in if lo0 = zero_time \<or> lo0 < first then first else lo0)
                     else lo0)
           in if lo = zero_time then Some v
              else
               (let hi = (case sf_to f of Some t \<Rightarrow> bucketStart z step t
                          | None \<Rightarrow> if readings \<noteq> [] then bucketStart z step (bp_as_of (List.last readings)) else lo)
                in if hi < lo then Some v
                   else map_option (\<lambda>bs. v\<lparr>sr_points := fst (fold (snapshot_step closes) bs ([], prime))\<rparr>)
                          (bucket_loop z step lo hi))))"

section \<open>Basis ledger\<close>

definition SourceBalanceAfter :: string where "SourceBalanceAfter = ''balance_after''"
definition SourceAccumulated :: string where "SourceAccumulated = ''accumulated''"
definition SourceCarried :: string where "SourceCarried = ''carried''"
definition flowEpsilon :: float64 where "flowEpsilon = f64 (5 / 1000)"

record ledger_bucket =
  lb_start :: instant
  lb_in :: float64
  lb_out :: float64
  lb_net :: float64
  lb_txns :: int
  lb_tally :: spend_tally
  lb_last_after :: "float64 option"
  lb_net_after :: float64
  lb_covered :: bool
  lb_first_after :: "float64 option"
  lb_net_first :: float64
  lb_close :: float64
  lb_has_close :: bool
  lb_source :: string
  lb_mismatch :: bool

definition new_bucket :: "instant \<Rightarrow> ledger_bucket" where
  "new_bucket b =
     \<lparr>lb_start = b, lb_in = 0, lb_out = 0, lb_net = 0, lb_txns = 0, lb_tally = zero_tally, lb_last_after = None, lb_net_after = 0,
      lb_covered = False, lb_first_after = None, lb_net_first = 0, lb_close = 0, lb_has_close = False, lb_source = '''',
      lb_mismatch = False\<rparr>"

text \<open>One row folded into its bucket.\<close>

definition bucket_add :: "string set \<Rightarrow> txn \<Rightarrow> ledger_bucket \<Rightarrow> ledger_bucket" where
  "bucket_add own4 t b0 =
     (let b1 = b0\<lparr>lb_txns := lb_txns b0 + 1, lb_net := lb_net b0 + txn_amount t\<rparr>;
          b2 = (if 0 \<le> txn_amount t then b1\<lparr>lb_in := lb_in b1 + txn_amount t\<rparr>
                else b1\<lparr>lb_out := lb_out b1 + - txn_amount t\<rparr>);
          b3 = b2\<lparr>lb_tally := tally_add own4 t (lb_tally b2)\<rparr>;
          b4 = (if lb_first_after b3 = None then b3\<lparr>lb_net_first := lb_net_first b3 + txn_amount t\<rparr> else b3)
      in case txn_after t of
           Some a \<Rightarrow>
             b4\<lparr>lb_last_after := Some a, lb_net_after := 0, lb_covered := True,
                lb_first_after := (if lb_first_after b4 = None then Some a else lb_first_after b4)\<rparr>
         | None \<Rightarrow> b4\<lparr>lb_covered := False, lb_net_after := lb_net_after b4 + txn_amount t\<rparr>)"

text \<open>The buckets are shared between the ordered list and the index by key: a change through the index is a
  change of the list's bucket with that key.\<close>

definition at_key :: "int \<Rightarrow> (ledger_bucket \<Rightarrow> ledger_bucket) \<Rightarrow> ledger_bucket list \<Rightarrow> ledger_bucket list" where
  "at_key k g bs = update_where (\<lambda>b. bucketKey (lb_start b) = k) g bs"

definition fold_row :: "zone \<Rightarrow> step \<Rightarrow> string set \<Rightarrow> txn \<Rightarrow> ledger_bucket list \<Rightarrow> ledger_bucket list" where
  "fold_row z step own4 t bs = at_key (bucketKey (bucketStart z step (txn_date t))) (bucket_add own4 t) bs"

definition covered_close :: "ledger_bucket \<Rightarrow> ledger_bucket" where
  "covered_close b =
     (case lb_last_after b of None \<Rightarrow> b
      | Some a \<Rightarrow> b\<lparr>lb_close := a + lb_net_after b, lb_has_close := True,
                    lb_source := (if lb_covered b then SourceBalanceAfter else SourceAccumulated)\<rparr>)"

text \<open>The previous row's running balance goes along; a break marks the bucket of the later row.\<close>

fun checkRunningBalance ::
  "zone \<Rightarrow> step \<Rightarrow> txn list \<Rightarrow> float64 option \<Rightarrow> ledger_bucket list \<Rightarrow> ledger_bucket list" where
  "checkRunningBalance z step [] prev bs = bs"
| "checkRunningBalance z step (t # ts) prev bs =
     (case txn_after t of
        None \<Rightarrow> checkRunningBalance z step ts None bs
      | Some a \<Rightarrow>
          checkRunningBalance z step ts (Some a)
            (case prev of
               None \<Rightarrow> bs
             | Some p \<Rightarrow> if \<bar>(a - p) - txn_amount t\<bar> > flowEpsilon
                        then at_key (bucketKey (bucketStart z step (txn_date t))) (\<lambda>b. b\<lparr>lb_mismatch := True\<rparr>) bs
                        else bs))"

text \<open>The two directions of the walk: \<open>next\<close> is the already closed neighbour.\<close>

definition closed_at :: "float64 \<Rightarrow> ledger_bucket \<Rightarrow> ledger_bucket" where
  "closed_at x b = b\<lparr>lb_close := x, lb_has_close := True, lb_source := SourceAccumulated\<rparr>"

fun walk_back :: "ledger_bucket \<Rightarrow> ledger_bucket list \<Rightarrow> ledger_bucket list" where
  "walk_back next [] = []"
| "walk_back next (b # bs) = (let c = closed_at (lb_close next - lb_net next) b in c # walk_back c bs)"

fun walk_forth :: "ledger_bucket \<Rightarrow> ledger_bucket list \<Rightarrow> ledger_bucket list" where
  "walk_forth prev [] = []"
| "walk_forth prev (b # bs) = (let c = closed_at (lb_close prev + lb_net b) b in c # walk_forth c bs)"

definition walkFromAnchor :: "zone \<Rightarrow> step \<Rightarrow> snapshot option \<Rightarrow> ledger_bucket list \<Rightarrow> string + ledger_bucket list" where
  "walkFromAnchor z step anchor order =
     (case anchor of None \<Rightarrow> Inl ''no balance snapshot to anchor a ledger walk on''
      | Some s \<Rightarrow>
         (let k = bucketKey (bucketStart z step (snap_as_of s));
              before = takeWhile (\<lambda>b. bucketKey (lb_start b) \<noteq> k) order
          in case drop (length before) order of
               [] \<Rightarrow> Inl ''the newest balance reading falls outside this account's derivable range, so there is no anchor to walk from''
             | b # after =>
                 (let c = closed_at (snap_balance s) b
                  in Inr (rev (walk_back c (rev before)) @ c # walk_forth c after))))"

definition bucketOpening :: "ledger_bucket \<Rightarrow> float64" where
  "bucketOpening b =
     (case lb_first_after b of Some a \<Rightarrow> a - lb_net_first b | None \<Rightarrow> lb_close b - lb_net b)"

text \<open>The positions of the first and the last bucket that starts in \<open>[lo, hi]\<close>, or -1.\<close>

fun emitted_range :: "ledger_bucket list \<Rightarrow> instant \<Rightarrow> instant \<Rightarrow> int \<Rightarrow> int \<times> int \<Rightarrow> int \<times> int" where
  "emitted_range [] lo hi i r = r"
| "emitted_range (b # bs) lo hi i r =
     emitted_range bs lo hi (i + 1)
       (if lb_start b < lo \<or> hi < lb_start b then r else (if fst r < 0 then i else fst r, i))"

definition emittedRange :: "ledger_bucket list \<Rightarrow> instant \<Rightarrow> instant \<Rightarrow> int \<times> int" where
  "emittedRange order lo hi = emitted_range order lo hi 0 (-1, -1)"

record series_state =
  ss_prev :: float64
  ss_have :: bool
  ss_level :: int
  ss_points :: "balance_point list"
  ss_drift :: float64

definition ledger_point :: "(int \<Rightarrow> float64 option) \<Rightarrow> ledger_bucket \<Rightarrow> float64 \<Rightarrow> float64 \<Rightarrow> bool \<Rightarrow> string \<Rightarrow> balance_point" where
  "ledger_point snaps b op close carried source =
     \<lparr>bp_as_of = lb_start b, bp_balance = close, bp_carried = carried, bp_open = Some op, bp_close = Some close,
      bp_in = Some (lb_in b), bp_out = Some (lb_out b), bp_net = Some (lb_net b),
      bp_ext_in = Some (st_income (lb_tally b)), bp_ext_out = Some (st_spend (lb_tally b)), bp_txns = Some (lb_txns b),
      bp_source = source,
      bp_drift = map_option (\<lambda>sb. close - sb) (snaps (bucketKey (lb_start b))),
      bp_mismatch = (\<bar>(close - op) - lb_net b\<bar> > flowEpsilon \<or> lb_mismatch b)\<rparr>"

text \<open>The close of a bucket, given its opening: whether it is carried, and from where it comes.\<close>

definition bucket_close :: "ledger_bucket \<Rightarrow> float64 \<Rightarrow> float64 \<times> bool \<times> string" where
  "bucket_close b op =
     (if lb_txns b = 0 then (op, True, SourceCarried)
      else if lb_has_close b then (lb_close b, False, lb_source b)
      else (op + lb_net b, False, SourceAccumulated))"

definition series_step ::
  "(int \<Rightarrow> float64 option) \<Rightarrow> int \<Rightarrow> int \<times> ledger_bucket \<Rightarrow> series_state \<Rightarrow> series_state" where
  "series_step snaps startIdx ib st =
     (let i = fst ib; b = snd ib
      in if \<not> ss_have st \<and> \<not> lb_has_close b then st
         else
          (let st1 = (if ss_have st then st
                      else st\<lparr>ss_have := True, ss_level := i, ss_prev := bucketOpening b\<rparr>);
               op = ss_prev st1;
               (cl, carried, source) = bucket_close b op;
               st2 = st1\<lparr>ss_prev := cl\<rparr>
           in if i < startIdx then st2
              else
               (let p = ledger_point snaps b op cl carried source
                in st2\<lparr>ss_drift := (case bp_drift p of None \<Rightarrow> ss_drift st2
                                     | Some d \<Rightarrow> if \<bar>d\<bar> > ss_drift st2 then \<bar>d\<bar> else ss_drift st2),
                       ss_points := ss_points st2 @ [p]\<rparr>)))"

definition emit_series ::
  "series_view \<Rightarrow> bool \<Rightarrow> (int \<Rightarrow> float64 option) \<Rightarrow> ledger_bucket list \<Rightarrow> int \<Rightarrow> int \<Rightarrow> series_view" where
  "emit_series v walked snaps order startIdx endIdx =
     (let st0 = (if walked
                 then \<lparr>ss_prev = lb_close (hd order) - lb_net (hd order), ss_have = True, ss_level = 0, ss_points = [], ss_drift = 0\<rparr>
                 else \<lparr>ss_prev = 0, ss_have = False, ss_level = -1, ss_points = [], ss_drift = 0\<rparr>);
          st = fold (series_step snaps startIdx) (zip [0..endIdx] order) st0
      in v\<lparr>sr_points := ss_points st, sr_drift_max := ss_drift st,
           sr_unverified := (ss_points st \<noteq> [] \<and> startIdx \<le> ss_level st)\<rparr>)"

definition note_investment :: string where
  "note_investment = ''ledger derivation is not available for an investment account: its balance moves with the market with no transaction behind it, so per-period cash flows do not describe it. Use basis=snapshot.''"
definition note_no_rows :: string where
  "note_no_rows = ''no posted transactions for this account, so there is no ledger to derive a series from. Use basis=snapshot.''"
definition note_no_anchor :: string where
  "note_no_anchor = ''this account's ledger carries no running balance and it has no balance snapshot to anchor a walk on, so no ledger series can be derived. Use basis=snapshot once a reading exists.''"

text \<open>The range that is emitted and the range that has to be derived for it.\<close>

definition emitted_bounds :: "zone \<Rightarrow> series_filter \<Rightarrow> instant \<Rightarrow> instant \<Rightarrow> snapshot option \<Rightarrow> instant \<times> instant" where
  "emitted_bounds z f ledgerFrom lastDate anchor =
     (let bs = bucketStart z (sf_step f);
          lo = (case sf_from f of None \<Rightarrow> bs ledgerFrom
                | Some t \<Rightarrow> if bs ledgerFrom < bs t then bs t else bs ledgerFrom);
          hi = (case sf_to f of Some t \<Rightarrow> bs t
                | None \<Rightarrow> (case anchor of None \<Rightarrow> bs lastDate
                           | Some s \<Rightarrow> if bs lastDate < bs (snap_as_of s) then bs (snap_as_of s) else bs lastDate))
      in (lo, hi))"

definition derived_bounds ::
  "zone \<Rightarrow> series_filter \<Rightarrow> instant \<Rightarrow> txn list \<Rightarrow> snapshot option \<Rightarrow> instant \<times> instant \<Rightarrow> instant \<times> instant" where
  "derived_bounds z f ledgerFrom rows anchor e =
     (let bs = bucketStart z (sf_step f);
          (lo1, hi1) = (case anchor of None \<Rightarrow> e
                        | Some s \<Rightarrow> (if bs (snap_as_of s) < fst e then bs (snap_as_of s) else fst e,
                                    if snd e < bs (snap_as_of s) then bs (snap_as_of s) else snd e));
          lo2 = (case last_by (\<lambda>t. (txn_date t, txn_id t)) (filter (\<lambda>t. txn_date t < lo1 \<and> txn_after t \<noteq> None) rows) of
                   None \<Rightarrow> lo1
                 | Some t \<Rightarrow> if bs (txn_date t) < lo1 then bs (txn_date t) else lo1);
          lo3 = (if lo2 < bs ledgerFrom then bs ledgerFrom else lo2)
      in (lo3, hi1))"

definition ledgerSeries :: "zone \<Rightarrow> string set \<Rightarrow> fin_db \<Rightarrow> account \<Rightarrow> series_filter \<Rightarrow> series_view option" where
  "ledgerSeries z own4 db acc f =
     (let v0 = newSeriesView acc f; step = sf_step f;
          mine = filter (\<lambda>t. txn_account t = acc_id acc) (txns db);
          key = (\<lambda>t. (txn_date t, txn_id t))
      in if acc_type acc = Investment then Some (v0\<lparr>sr_note := note_investment\<rparr>)
         else
          (case first_by key mine of None \<Rightarrow> Some (v0\<lparr>sr_note := note_no_rows\<rparr>)
           | Some firstRow \<Rightarrow>
              (let ledgerFrom = txn_date firstRow; v = v0\<lparr>sr_ledger_from := Some ledgerFrom\<rparr>;
                   lastDate = txn_date (the (last_by key mine));
                   anchor = latestSnapshot db (acc_id acc);
                   e = emitted_bounds z f ledgerFrom lastDate anchor
               in if snd e < fst e then Some v
                  else
                   (let d = derived_bounds z f ledgerFrom mine anchor e;
                        rows = sort_key key (filter (\<lambda>t. fst d \<le> txn_date t \<and> txn_date t < nextBucketStart z step (snd d)) mine);
                        covered = count_where (\<lambda>t. txn_after t \<noteq> None) rows
                    in if covered = 0 \<and> anchor = None then Some (v\<lparr>sr_note := note_no_anchor\<rparr>)
                       else
                        (case bucket_loop z step (fst d) (snd d) of None \<Rightarrow> None
                         | Some starts \<Rightarrow>
                            (let order0 = fold (fold_row z step own4) rows (map new_bucket starts);
                                 closed = (if covered > 0
                                           then Inr (checkRunningBalance z step rows None (map covered_close order0))
                                           else walkFromAnchor z step anchor order0)
                             in case closed of Inl note \<Rightarrow> Some (v\<lparr>sr_note := note\<rparr>)
                                | Inr order \<Rightarrow>
                                   (let snaps = bucket_closes z step
                                          (filter (\<lambda>r. bp_as_of r < nextBucketStart z step (snd e))
                                            (BalanceHistory db (acc_id acc) (Some (fst e))));
                                        r = emittedRange order (fst e) (snd e)
                                    in if fst r < 0 then Some v
                                       else Some (emit_series v (covered = 0) snaps order (fst r) (snd r)))))))))"

section \<open>All accounts\<close>

definition seriesAccounts :: "fin_db \<Rightarrow> nat \<Rightarrow> account list" where
  "seriesAccounts db i = sort_key acc_name (filter (\<lambda>a. i = 0 \<or> acc_id a = i) (accounts db))"

definition one_series :: "zone \<Rightarrow> fin_db \<Rightarrow> series_filter \<Rightarrow> account \<Rightarrow> series_view option" where
  "one_series z db f acc =
     map_option finalize
       (if sf_basis f = BasisLedger then ledgerSeries z (loadOwnLast4 db) db acc f else snapshotSeries z db acc f)"

definition BalanceSeries :: "zone \<Rightarrow> fin_db \<Rightarrow> series_filter \<Rightarrow> series_view list option" where
  "BalanceSeries z db f0 =
     (let f = (if sf_step f0 = StepRaw then f0\<lparr>sf_step := StepDay\<rparr> else f0)
      in those (map (one_series z db f) (seriesAccounts db (sf_account f))))"

section \<open>Buckets are numbered\<close>

text \<open>The instant of a local midnight, the number of a bucket and its first day.\<close>

definition midnight :: "zone \<Rightarrow> day \<Rightarrow> instant" where
  "midnight z d = (let u = at_day d in u - z (u - z u))"

definition bucket_no :: "step \<Rightarrow> day \<Rightarrow> int" where
  "bucket_no step n = (case step of StepWeek \<Rightarrow> (n + 3) div 7 | StepMonth \<Rightarrow> month_number n | _ \<Rightarrow> n)"

definition bucket_first :: "step \<Rightarrow> int \<Rightarrow> day" where
  "bucket_first step k = (case step of StepWeek \<Rightarrow> 7 * k - 3 | StepMonth \<Rightarrow> month_first k | _ \<Rightarrow> k)"

definition bindex :: "zone \<Rightarrow> step \<Rightarrow> instant \<Rightarrow> int" where
  "bindex z step t = bucket_no step (local_day z t)"

definition bstart :: "zone \<Rightarrow> step \<Rightarrow> int \<Rightarrow> instant" where
  "bstart z step k = midnight z (bucket_first step k)"

text \<open>What is asked of a time zone: offsets are whole seconds, every local midnight exists, and the local
  date of an instant is \<open>d\<close> or later exactly from the midnight of \<open>d\<close> on.\<close>

definition zone_ok :: "zone \<Rightarrow> bool" where
  "zone_ok z \<longleftrightarrow>
     (\<forall>t. z t mod second_ns = 0) \<and> (\<forall>d. midnight z d + z (midnight z d) = at_day d) \<and>
     (\<forall>d t. midnight z d \<le> t \<longleftrightarrow> d \<le> local_day z t)"

lemma zone_date_midnight: "zone_date z y m d = midnight z (go_date y m d)"
  by (simp add: zone_date_def midnight_def)

lemma zone_okD:
  assumes "zone_ok z"
  shows "z t mod second_ns = 0" "local_day z (midnight z d) = d" "midnight z d \<le> t \<longleftrightarrow> d \<le> local_day z t"
  using assms unfolding zone_ok_def local_day_def by (auto simp: at_day_simps)

lemma bucket_grid: "bucket_no step n = k \<longleftrightarrow> bucket_first step k \<le> n \<and> n < bucket_first step (k + 1)"
proof (cases step)
  case StepWeek
  have "(n + 3) div 7 = k \<longleftrightarrow> 7 * k \<le> n + 3 \<and> n + 3 < 7 * (k + 1)" by presburger
  with StepWeek show ?thesis by (auto simp: bucket_no_def bucket_first_def)
qed (auto simp: bucket_no_def bucket_first_def month_number_range)

lemma bucket_first_less: "bucket_first step k < bucket_first step (k + 1)"
  using month_length_bounds(1) [of k] by (cases step) (auto simp: bucket_first_def month_first_Suc)

lemma bucket_no_first [simp]: "bucket_no step (bucket_first step k) = k"
  using bucket_first_less [of step k] by (simp add: bucket_grid)

lemma bucket_first_mono: "k \<le> l \<Longrightarrow> bucket_first step k \<le> bucket_first step l"
proof (induction "nat (l - k)" arbitrary: l)
  case (Suc m)
  then have "bucket_first step k \<le> bucket_first step (l - 1)" by simp
  with bucket_first_less [of step "l - 1"] show ?case by simp
qed simp

lemma bucket_galois: "bucket_first step k \<le> n \<longleftrightarrow> k \<le> bucket_no step n"
proof
  assume "bucket_first step k \<le> n"
  show "k \<le> bucket_no step n"
  proof (rule ccontr)
    assume "\<not> k \<le> bucket_no step n"
    then have "bucket_first step (bucket_no step n + 1) \<le> bucket_first step k" by (intro bucket_first_mono) simp
    with \<open>bucket_first step k \<le> n\<close> bucket_grid [of step n "bucket_no step n"] show False by simp
  qed
next
  assume "k \<le> bucket_no step n"
  then have "bucket_first step k \<le> bucket_first step (bucket_no step n)" by (rule bucket_first_mono)
  with bucket_grid [of step n "bucket_no step n"] show "bucket_first step k \<le> n" by simp
qed

text \<open>The law everything else rests on.\<close>

lemma bstart_le: "zone_ok z \<Longrightarrow> bstart z step k \<le> t \<longleftrightarrow> k \<le> bindex z step t"
  by (simp add: bstart_def bindex_def zone_okD(3) bucket_galois)

lemma less_bstart: "zone_ok z \<Longrightarrow> t < bstart z step k \<longleftrightarrow> bindex z step t < k"
  using bstart_le [of z step k t] by auto

lemma bindex_bstart [simp]: "zone_ok z \<Longrightarrow> bindex z step (bstart z step k) = k"
  by (simp add: bstart_def bindex_def zone_okD(2))

lemma bstart_order:
  assumes "zone_ok z"
  shows "bstart z step k \<le> bstart z step l \<longleftrightarrow> k \<le> l" "bstart z step k < bstart z step l \<longleftrightarrow> k < l"
    "bstart z step k = bstart z step l \<longleftrightarrow> k = l"
  using bstart_le [OF assms, of step k "bstart z step l"] bstart_le [OF assms, of step l "bstart z step k"] assms by auto

lemma bindex_mono: "zone_ok z \<Longrightarrow> t \<le> u \<Longrightarrow> bindex z step t \<le> bindex z step u"
  using bstart_le [of z step "bindex z step t" t] bstart_le [of z step "bindex z step t" u] by simp

lemma week_back: "(weekday n + 6) mod 7 = (n + 3) mod 7"
proof -
  have "(weekday n + 6) mod 7 = (n + 4 + 6) mod 7" unfolding weekday_def by (rule mod_add_left_eq)
  also have "n + 4 + 6 = (n + 3) + 7" by arith
  also have "((n + 3) + 7) mod 7 = (n + 3) mod 7" by (rule mod_add_self2)
  finally show ?thesis .
qed

lemma civil_step: "go_date (year_of n) (month_of n) (mday_of n + k) = n + k"
  by (simp add: go_date_add_day go_date_civil)

lemma bucketStart_eq: "bucketStart z step t = bstart z step (bindex z step t)"
proof -
  have "go_date (year_of n) (month_of n) 1 = month_first (month_number n)" for n
    by (simp add: go_date_month_first month_number_def)
  moreover have "go_date (year_of n) (month_of n) (mday_of n - (n + 3) mod 7) = 7 * ((n + 3) div 7) - 3" for n
  proof -
    have "go_date (year_of n) (month_of n) (mday_of n - (n + 3) mod 7) = n - (n + 3) mod 7"
      using go_date_add_day [of "year_of n" "month_of n" "mday_of n" "- ((n + 3) mod 7)"] by (simp add: go_date_civil)
    also have "\<dots> = 7 * ((n + 3) div 7) - 3" using minus_mod_eq_mult_div [of "n + 3" 7] by linarith
    finally show ?thesis .
  qed
  ultimately show ?thesis
    by (cases step)
      (simp_all add: bucketStart_def bstart_def bindex_def bucket_no_def bucket_first_def zone_date_midnight Let_def week_back go_date_civil)
qed

lemma nextBucketStart_eq:
  assumes "zone_ok z"
  shows "nextBucketStart z step (bstart z step k) = bstart z step (k + 1)"
proof -
  have day: "local_day z (bstart z step k) = bucket_first step k" using assms by (simp add: bstart_def zone_okD(2))
  have "go_date (year_of (month_first k)) (month_of (month_first k) + 1) 1 = month_first (k + 1)"
    by (simp add: go_date_month_first month_fields)
  then show ?thesis
    unfolding nextBucketStart_def day Let_def
    by (cases step) (simp_all add: bucket_first_def bstart_def zone_date_midnight civil_step)
qed

lemma bucketKey_bstart:
  assumes "zone_ok z"
  shows "bucketKey (bstart z step k) = bucketKey (bstart z step l) \<longleftrightarrow> k = l"
proof -
  have m: "bstart z step k mod second_ns = 0" for k
  proof -
    have "at_day d mod second_ns = 0" for d
      by (simp add: at_day_def day_ns_def hour_ns_def)
    then show ?thesis
      using zone_okD(1) [OF assms] unfolding bstart_def midnight_def Let_def by (simp add: mod_eq_0_iff_dvd)
  qed
  have "bstart z step k = bucketKey (bstart z step k) * second_ns" for k
    using div_mult_mod_eq [of "bstart z step k" second_ns] m [of k] by (simp add: bucketKey_def)
  then show ?thesis using bstart_order(3) [OF assms] by metis
qed

lemma bucket_loop_eq:
  assumes "zone_ok z"
  shows "bucket_loop z step (bstart z step i) (bstart z step j) = Some (map (bstart z step) [i..j])"
proof (induction "nat (j + 1 - i)" arbitrary: i)
  case 0
  then show ?case by (subst bucket_loop.simps) (simp add: bstart_order [OF assms])
next
  case (Suc m)
  then have "m = nat (j + 1 - (i + 1))" "i \<le> j" by simp_all
  from Suc.hyps(1) [OF this(1)] this(2) show ?case
    by (subst bucket_loop.simps) (simp add: bstart_order [OF assms] nextBucketStart_eq [OF assms] upto_rec1)
qed

text \<open>C25: Buckets partition time.  For every step width an instant lies in the bucket that starts at its
  bucket start and ends before the next one, and in no other; taking the start of a bucket start
  changes nothing.  The loop over the buckets from one instant's to another's returns, and visits
  every bucket in between once, in order, each the successor of the one before it, so no day is
  dropped or repeated when the clocks change.\<close>

theorem buckets_partition:
  assumes "zone_ok z"
  shows "bucketStart z step t \<le> t \<and> t < nextBucketStart z step (bucketStart z step t) \<and>
    (\<forall>u. bucketStart z step u = bucketStart z step t \<longleftrightarrow>
       bucketStart z step t \<le> u \<and> u < nextBucketStart z step (bucketStart z step t)) \<and>
    bucketStart z step (bucketStart z step t) = bucketStart z step t \<and>
    (\<exists>bs. bucket_loop z step (bucketStart z step t) (bucketStart z step t') = Some bs \<and>
       sorted_wrt (<) bs \<and> (t \<le> t' \<longrightarrow> hd bs = bucketStart z step t \<and> List.last bs = bucketStart z step t') \<and>
       (\<forall>n. Suc n < length bs \<longrightarrow> bs ! Suc n = nextBucketStart z step (bs ! n)) \<and>
       (\<forall>u. t \<le> u \<and> u \<le> t' \<longrightarrow> bucketStart z step u \<in> set bs))"
proof (intro conjI exI allI)
  note z = assms
  let ?i = "bindex z step t" and ?j = "bindex z step t'"
  show "bucketStart z step t \<le> t" "t < nextBucketStart z step (bucketStart z step t)"
    "bucketStart z step (bucketStart z step t) = bucketStart z step t"
    using bstart_le [OF z, of step ?i t] less_bstart [OF z, of t step "?i + 1"]
    by (simp_all add: bucketStart_eq nextBucketStart_eq [OF z] z)
  show "bucketStart z step u = bucketStart z step t \<longleftrightarrow>
      bucketStart z step t \<le> u \<and> u < nextBucketStart z step (bucketStart z step t)" for u
    by (auto simp: bucketStart_eq nextBucketStart_eq [OF z] bstart_order [OF z] bstart_le [OF z] less_bstart [OF z])
  show "bucket_loop z step (bucketStart z step t) (bucketStart z step t') = Some (map (bstart z step) [?i..?j])"
    by (simp add: bucketStart_eq bucket_loop_eq [OF z])
  show "sorted_wrt (<) (map (bstart z step) [?i..?j])"
    by (simp add: sorted_wrt_map bstart_order [OF z])
  show "t \<le> t' \<longrightarrow> hd (map (bstart z step) [?i..?j]) = bucketStart z step t \<and>
      List.last (map (bstart z step) [?i..?j]) = bucketStart z step t'"
  proof
    assume "t \<le> t'"
    then have "?i \<le> ?j" by (rule bindex_mono [OF z])
    then show "hd (map (bstart z step) [?i..?j]) = bucketStart z step t \<and> List.last (map (bstart z step) [?i..?j]) = bucketStart z step t'"
      by (simp add: bucketStart_eq hd_map last_map upto_rec1 [of ?i ?j]) (simp add: upto_rec2 last_map flip: upto_rec1)
  qed
  show "Suc n < length (map (bstart z step) [?i..?j]) \<longrightarrow>
      map (bstart z step) [?i..?j] ! Suc n = nextBucketStart z step (map (bstart z step) [?i..?j] ! n)" for n
    by (simp add: nextBucketStart_eq [OF z] algebra_simps)
  show "t \<le> u \<and> u \<le> t' \<longrightarrow> bucketStart z step u \<in> set (map (bstart z step) [?i..?j])" for u
    using bindex_mono [OF z, of t u step] bindex_mono [OF z, of u t' step] by (auto simp: bucketStart_eq)
qed

section \<open>The snapshot series\<close>

definition reading_key :: "snapshot \<Rightarrow> instant \<times> nat" where
  "reading_key s = (snap_as_of s, snap_id s)"

text \<open>The readings of an account in order of time, and the newest one before an instant.\<close>

definition readings_of :: "fin_db \<Rightarrow> nat \<Rightarrow> snapshot list" where
  "readings_of db a = sort_key reading_key (filter (\<lambda>s. snap_account s = a) (snapshots db))"

definition level_before :: "fin_db \<Rightarrow> nat \<Rightarrow> instant \<Rightarrow> snapshot option" where
  "level_before db a t = last_by reading_key (filter (\<lambda>s. snap_account s = a \<and> snap_as_of s < t) (snapshots db))"

lemma sorted_last: "sorted ys \<Longrightarrow> y \<in> set ys \<Longrightarrow> y \<le> last ys"
  by (induction ys) auto

lemma last_by_sort:
  assumes "inj_on k (set xs)"
  shows "last_by k xs = (if xs = [] then None else Some (last (sort_key k xs)))"
proof (cases "last_by k xs")
  case None
  then show ?thesis by simp
next
  case (Some r)
  then have r: "r \<in> set xs" "\<forall>x \<in> set xs. k x \<le> k r" using last_by_Some by fast+
  then have ne: "sort_key k xs \<noteq> []" by (metis empty_iff list.set(1) set_sort)
  have "last (sort_key k xs) \<in> set xs" using last_in_set [OF ne] by simp
  moreover have "k r \<le> k (last (sort_key k xs))"
  proof -
    have "sorted (map k (sort_key k xs))" by simp
    moreover have "k r \<in> set (map k (sort_key k xs))" using r(1) by simp
    ultimately have "k r \<le> last (map k (sort_key k xs))" by (rule sorted_last)
    with ne show ?thesis by (simp add: last_map)
  qed
  ultimately have "k r = k (last (sort_key k xs))" using r(2) by (meson antisym)
  then have "r = last (sort_key k xs)" using assms r(1) \<open>last (sort_key k xs) \<in> set xs\<close> by (auto dest: inj_onD)
  with Some r(1) show ?thesis by auto
qed

lemma sort_filter: "filter P (sort_key k xs) = sort_key k (filter P xs)"
  by (rule filter_sort)

lemma keys_inj: "distinct (map snap_id ss) \<Longrightarrow> inj_on reading_key (set ss)"
  by (auto simp: inj_on_def reading_key_def distinct_map)

lemma sort_Nil: "sort_key k xs = [] \<longleftrightarrow> xs = []"
  using length_sort [of k xs] by (cases "sort_key k xs"; cases xs) simp_all

definition last_opt :: "'a list \<Rightarrow> 'a option" where
  "last_opt xs = (if xs = [] then None else Some (last xs))"

lemma level_readings:
  assumes "distinct (map snap_id (snapshots db))"
  shows "level_before db a t = last_opt (filter (\<lambda>s. snap_as_of s < t) (readings_of db a))"
proof -
  let ?xs = "filter (\<lambda>s. snap_account s = a \<and> snap_as_of s < t) (snapshots db)"
  have inj: "inj_on reading_key (set ?xs)" by (rule inj_on_subset [OF keys_inj [OF assms]]) auto
  have "filter (\<lambda>s. snap_as_of s < t) (readings_of db a) = sort_key reading_key ?xs"
    by (simp add: readings_of_def sort_filter conj_commute)
  moreover have "sort_key reading_key ?xs = [] \<longleftrightarrow> ?xs = []" by (rule sort_Nil)
  ultimately show ?thesis unfolding level_before_def last_by_sort [OF inj] last_opt_def by simp
qed

lemma fst_le: "(p :: instant \<times> nat) \<le> q \<Longrightarrow> fst p \<le> fst q"
  by (auto simp: less_eq_prod_def)

lemma readings_sorted: "sorted (map snap_as_of (readings_of db a))"
proof -
  have "sorted (map reading_key (readings_of db a))" by (simp add: readings_of_def)
  then have "sorted (map fst (map reading_key (readings_of db a)))"
    by (simp add: sorted_iff_nth_mono fst_le)
  then show ?thesis by (simp add: reading_key_def comp_def)
qed

lemma history_eq:
  "BalanceHistory db a from =
     map (\<lambda>s. raw_point (snap_as_of s) (snap_balance s))
       (filter (\<lambda>s. case from of None \<Rightarrow> True | Some f \<Rightarrow> f \<le> snap_as_of s) (readings_of db a))"
  unfolding BalanceHistory_def readings_of_def sort_filter filter_filter
  by (simp add: reading_key_def [abs_def] conj_commute)

text \<open>The close of bucket \<open>k\<close> over readings \<open>R\<close>, and the level at its end.\<close>

definition rs_at :: "zone \<Rightarrow> step \<Rightarrow> snapshot list \<Rightarrow> int \<Rightarrow> snapshot list" where
  "rs_at z step R k = filter (\<lambda>s. bindex z step (snap_as_of s) = k) R"

definition rs_upto :: "zone \<Rightarrow> step \<Rightarrow> snapshot list \<Rightarrow> int \<Rightarrow> snapshot list" where
  "rs_upto z step R k = filter (\<lambda>s. bindex z step (snap_as_of s) \<le> k) R"

lemma closes_fold:
  assumes "zone_ok z"
  shows "fold (\<lambda>r m. m(bucketKey (bucketStart z step (bp_as_of r)) \<mapsto> bp_balance r))
      (map (\<lambda>s. raw_point (snap_as_of s) (snap_balance s)) R) m0 (bucketKey (bstart z step k)) =
    (case last_opt (rs_at z step R k) of None \<Rightarrow> m0 (bucketKey (bstart z step k)) | Some s \<Rightarrow> Some (snap_balance s))"
proof (induction R arbitrary: m0)
  case (Cons s R)
  show ?case
  proof (cases "bindex z step (snap_as_of s) = k")
    case True
    then show ?thesis using Cons.IH
      by (simp add: rs_at_def last_opt_def raw_point_def bucketStart_eq bucketKey_bstart [OF assms])
  next
    case False
    then show ?thesis using Cons.IH
      by (simp add: rs_at_def last_opt_def raw_point_def bucketStart_eq bucketKey_bstart [OF assms])
  qed
qed (simp add: rs_at_def last_opt_def)

lemma closes_eq:
  "zone_ok z \<Longrightarrow>
     bucket_closes z step (map (\<lambda>s. raw_point (snap_as_of s) (snap_balance s)) R) (bucketKey (bstart z step k)) =
       map_option snap_balance (last_opt (rs_at z step R k))"
  by (simp add: bucket_closes_def closes_fold split: option.split)

lemma upto_split:
  assumes "zone_ok z" "sorted (map snap_as_of R)"
  shows "rs_upto z step R k = rs_upto z step R (k - 1) @ rs_at z step R k"
  using assms(2)
proof (induction R)
  case (Cons s R)
  let ?i = "\<lambda>s. bindex z step (snap_as_of s)"
  have later: "\<forall>x \<in> set R. ?i s \<le> ?i x" using Cons.prems by (auto intro: bindex_mono [OF assms(1)])
  show ?case
  proof (cases "?i s \<le> k - 1")
    case True
    then show ?thesis using Cons by (simp add: rs_upto_def rs_at_def)
  next
    case False
    then have "rs_upto z step R (k - 1) = []" using later by (force simp: rs_upto_def filter_empty_conv)
    with False show ?thesis using Cons by (auto simp: rs_upto_def rs_at_def)
  qed
qed (simp add: rs_upto_def rs_at_def)

lemma last_opt_append: "last_opt (xs @ ys) = (if ys = [] then last_opt xs else last_opt ys)"
  by (simp add: last_opt_def)

definition snapshot_point :: "zone \<Rightarrow> step \<Rightarrow> int \<Rightarrow> snapshot \<Rightarrow> balance_point" where
  "snapshot_point z step k s =
     (raw_point (bstart z step k) (snap_balance s))\<lparr>bp_carried := bindex z step (snap_as_of s) < k\<rparr>"

lemma snapshot_fold:
  assumes z: "zone_ok z" and R: "sorted (map snap_as_of R)"
    and closes: "\<And>k. i \<le> k \<Longrightarrow> k \<le> j \<Longrightarrow> closes (bucketKey (bstart z step k)) = map_option snap_balance (last_opt (rs_at z step R k))"
    and prime: "prime = map_option snap_balance (last_opt (rs_upto z step R (i - 1)))"
    and known: "rs_upto z step R i \<noteq> []"
  shows "fst (fold (snapshot_step closes) (map (bstart z step) [i..j]) (ps, prime)) =
    ps @ map (\<lambda>k. snapshot_point z step k (last (rs_upto z step R k))) [i..j]"
  using closes prime known
proof (induction "nat (j + 1 - i)" arbitrary: i ps prime)
  case (Suc m)
  then have ij: "i \<le> j" "m = nat (j + 1 - (i + 1))" by simp_all
  note split = upto_split [OF z R, of step i]
  have step: "snapshot_step closes (bstart z step i) (ps, prime) =
      (ps @ [snapshot_point z step i (last (rs_upto z step R i))], map_option snap_balance (last_opt (rs_upto z step R i)))"
  proof (cases "rs_at z step R i = []")
    case True
    then have u: "rs_upto z step R i = rs_upto z step R (i - 1)" using split by simp
    then have "last (rs_upto z step R i) \<in> set (rs_upto z step R (i - 1))" using Suc.prems(3) last_in_set by metis
    then have "bindex z step (snap_as_of (last (rs_upto z step R i))) < i" by (auto simp: rs_upto_def)
    with True u Suc.prems ij(1) show ?thesis
      by (simp add: snapshot_step_def last_opt_def snapshot_point_def)
  next
    case False
    then have "last (rs_upto z step R i) = last (rs_at z step R i)" using split by simp
    moreover have "last (rs_at z step R i) \<in> set (rs_at z step R i)" using False by simp
    then have "bindex z step (snap_as_of (last (rs_at z step R i))) = i" by (simp add: rs_at_def)
    ultimately show ?thesis using False Suc.prems ij(1)
      by (simp add: snapshot_step_def last_opt_def snapshot_point_def raw_point_def)
  qed
  have known': "rs_upto z step R (i + 1) \<noteq> []" using upto_split [OF z R, of step "i + 1"] Suc.prems(3) by simp
  have "fst (fold (snapshot_step closes) (map (bstart z step) [i + 1..j])
        (ps @ [snapshot_point z step i (last (rs_upto z step R i))], map_option snap_balance (last_opt (rs_upto z step R i)))) =
      (ps @ [snapshot_point z step i (last (rs_upto z step R i))]) @
      map (\<lambda>k. snapshot_point z step k (last (rs_upto z step R k))) [i + 1..j]"
    by (rule Suc.hyps(1) [OF ij(2)]) (use Suc.prems known' in auto)
  then show ?case using ij(1) step by (simp add: upto_rec1)
qed simp

lemma rs_upto_before: "zone_ok z \<Longrightarrow> rs_upto z step R k = filter (\<lambda>s. snap_as_of s < bstart z step (k + 1)) R"
  by (simp add: rs_upto_def less_bstart)

lemma level_upto:
  assumes "zone_ok z" "distinct (map snap_id (snapshots db))"
  shows "level_before db a (bstart z step (k + 1)) = last_opt (rs_upto z step (readings_of db a) k)"
  by (simp add: level_readings [OF assms(2)] rs_upto_before [OF assms(1)])

definition first_no :: "zone \<Rightarrow> series_filter \<Rightarrow> snapshot list \<Rightarrow> int" where
  "first_no z f R =
     (let k = bindex z (sf_step f) (snap_as_of (hd R))
      in case sf_from f of None \<Rightarrow> k | Some t \<Rightarrow> max (bindex z (sf_step f) t) k)"

definition last_no :: "zone \<Rightarrow> series_filter \<Rightarrow> snapshot list \<Rightarrow> int" where
  "last_no z f R =
     (case sf_to f of Some t \<Rightarrow> bindex z (sf_step f) t
      | None \<Rightarrow> max (first_no z f R) (bindex z (sf_step f) (snap_as_of (last R))))"

text \<open>The readings a query looks at, and the level that primes it.\<close>

definition in_window :: "zone \<Rightarrow> series_filter \<Rightarrow> snapshot \<Rightarrow> bool" where
  "in_window z f s \<longleftrightarrow>
     (case sf_from f of None \<Rightarrow> True | Some t \<Rightarrow> bindex z (sf_step f) t \<le> bindex z (sf_step f) (snap_as_of s)) \<and>
     (case sf_to f of None \<Rightarrow> True | Some t \<Rightarrow> bindex z (sf_step f) (snap_as_of s) \<le> bindex z (sf_step f) t)"

definition primer :: "zone \<Rightarrow> series_filter \<Rightarrow> snapshot list \<Rightarrow> float64 option" where
  "primer z f R =
     (case sf_from f of None \<Rightarrow> None
      | Some t \<Rightarrow> map_option snap_balance (last_opt (rs_upto z (sf_step f) R (bindex z (sf_step f) t - 1))))"

lemma window_eq:
  assumes "zone_ok z"
  shows "(let all = BalanceHistory db a (map_option (bucketStart z (sf_step f)) (sf_from f))
    in case sf_to f of None \<Rightarrow> all
       | Some t \<Rightarrow> filter (\<lambda>r. bp_as_of r < nextBucketStart z (sf_step f) (bucketStart z (sf_step f) t)) all) =
    map (\<lambda>s. raw_point (snap_as_of s) (snap_balance s)) (filter (in_window z f) (readings_of db a))"
  unfolding history_eq Let_def
  by (cases "sf_from f"; cases "sf_to f")
    (simp_all add: in_window_def [abs_def] filter_map comp_def raw_point_def bucketStart_eq nextBucketStart_eq [OF assms]
      less_bstart [OF assms] bstart_le [OF assms] zle_add1_eq_le conj_commute)

lemma prime_eq:
  assumes "zone_ok z" "distinct (map snap_id (snapshots db))"
  shows "(case map_option (bucketStart z (sf_step f)) (sf_from f) of None \<Rightarrow> None
    | Some q \<Rightarrow> map_option snap_balance
        (last_by (\<lambda>s. (snap_as_of s, snap_id s)) (filter (\<lambda>s. snap_account s = a \<and> snap_as_of s < q) (snapshots db)))) =
    primer z f (readings_of db a)"
proof -
  have "last_by (\<lambda>s. (snap_as_of s, snap_id s)) (filter (\<lambda>s. snap_account s = a \<and> snap_as_of s < bstart z (sf_step f) k) (snapshots db)) =
      last_opt (rs_upto z (sf_step f) (readings_of db a) (k - 1))" for k
    using level_upto [OF assms, of a "sf_step f" "k - 1"] by (simp add: level_before_def reading_key_def [abs_def])
  then show ?thesis by (simp add: primer_def bucketStart_eq split: option.split)
qed

lemma index_ends:
  assumes "zone_ok z" "sorted (map snap_as_of R)" "s \<in> set R"
  shows "bindex z step (snap_as_of (hd R)) \<le> bindex z step (snap_as_of s)"
    "bindex z step (snap_as_of s) \<le> bindex z step (snap_as_of (last R))"
proof -
  have "snap_as_of s \<le> last (map snap_as_of R)" using assms(2,3) by (intro sorted_last) auto
  moreover have "snap_as_of (hd R) \<le> snap_as_of s" using assms(2,3) by (cases R) auto
  ultimately show "bindex z step (snap_as_of (hd R)) \<le> bindex z step (snap_as_of s)"
    "bindex z step (snap_as_of s) \<le> bindex z step (snap_as_of (last R))"
    using assms(3) last_map [of R snap_as_of] by (cases "R = []"; auto intro!: bindex_mono [OF assms(1)])+
qed

lemma primer_None:
  assumes "zone_ok z" "sorted (map snap_as_of R)" "R \<noteq> []" "primer z f R = None"
  shows "first_no z f R = bindex z (sf_step f) (snap_as_of (hd R))"
    "rs_upto z (sf_step f) R (first_no z f R - 1) = []"
    "filter (in_window z f) R = filter (\<lambda>s. case sf_to f of None \<Rightarrow> True | Some t \<Rightarrow> bindex z (sf_step f) (snap_as_of s) \<le> bindex z (sf_step f) t) R"
proof -
  let ?i = "bindex z (sf_step f)"
  have low: "?i t \<le> ?i (snap_as_of s)" if "sf_from f = Some t" "s \<in> set R" for t s
  proof -
    have "rs_upto z (sf_step f) R (?i t - 1) = []" using assms(4) that(1) by (simp add: primer_def last_opt_def split: if_splits)
    then show ?thesis using that(2) by (force simp: rs_upto_def filter_empty_conv)
  qed
  show first: "first_no z f R = ?i (snap_as_of (hd R))"
    using low [of _ "hd R"] assms(3) by (auto simp: first_no_def Let_def split: option.split)
  show "rs_upto z (sf_step f) R (first_no z f R - 1) = []"
    unfolding first rs_upto_def filter_empty_conv using index_ends(1) [OF assms(1,2), of _ "sf_step f"] by fastforce
  show "filter (in_window z f) R = filter (\<lambda>s. case sf_to f of None \<Rightarrow> True | Some t \<Rightarrow> ?i (snap_as_of s) \<le> ?i t) R"
    by (rule filter_cong) (use low in \<open>auto simp: in_window_def split: option.split\<close>)
qed

lemma primer_Some:
  assumes "zone_ok z" "sorted (map snap_as_of R)" "primer z f R \<noteq> None"
  obtains t where "sf_from f = Some t" "first_no z f R = bindex z (sf_step f) t"
    "primer z f R = map_option snap_balance (last_opt (rs_upto z (sf_step f) R (first_no z f R - 1)))"
proof -
  obtain t where t: "sf_from f = Some t" "rs_upto z (sf_step f) R (bindex z (sf_step f) t - 1) \<noteq> []"
    using assms(3) by (auto simp: primer_def last_opt_def split: option.splits if_splits)
  then obtain s where "s \<in> set R" "bindex z (sf_step f) (snap_as_of s) \<le> bindex z (sf_step f) t - 1"
    by (auto simp: rs_upto_def filter_empty_conv)
  then have "bindex z (sf_step f) (snap_as_of (hd R)) < bindex z (sf_step f) t" using index_ends(1) [OF assms(1,2), of s "sf_step f"] by simp
  then have "first_no z f R = bindex z (sf_step f) t" by (simp add: first_no_def Let_def t(1))
  with t(1) show ?thesis by (intro that [of t]) (simp_all add: primer_def)
qed

lemma window_hd:
  assumes "sorted (map snap_as_of R)" "zone_ok z"
    and "filter (\<lambda>s. case b of None \<Rightarrow> True | Some t \<Rightarrow> bindex z step (snap_as_of s) \<le> bindex z step t) R \<noteq> []"
  shows "hd (filter (\<lambda>s. case b of None \<Rightarrow> True | Some t \<Rightarrow> bindex z step (snap_as_of s) \<le> bindex z step t) R) = hd R"
proof (cases R)
  case (Cons r rs)
  have "case b of None \<Rightarrow> True | Some t \<Rightarrow> bindex z step (snap_as_of r) \<le> bindex z step t"
  proof -
    obtain s where s: "s \<in> set R" "case b of None \<Rightarrow> True | Some t \<Rightarrow> bindex z step (snap_as_of s) \<le> bindex z step t"
      using assms(3) by (auto simp: filter_empty_conv)
    then show ?thesis using index_ends(1) [OF assms(2,1) s(1), of step] Cons by (auto split: option.splits)
  qed
  with Cons show ?thesis by simp
qed simp

lemma window_last:
  assumes "sorted (map snap_as_of R)" "zone_ok z" "sf_to f = None" "filter (in_window z f) R \<noteq> []"
  shows "last (filter (in_window z f) R) = last R"
proof -
  obtain s where s: "s \<in> set R" "in_window z f s" using assms(4) by (auto simp: filter_empty_conv)
  then have "in_window z f (last R)"
    using index_ends(2) [OF assms(2,1) s(1), of "sf_step f"] assms(3) by (auto simp: in_window_def split: option.splits)
  moreover have "R = butlast R @ [last R]" using s(1) by (cases R rule: rev_cases) auto
  ultimately show ?thesis by (metis filter.simps(1) filter.simps(2) filter_append last_snoc)
qed

definition first_bound :: "zone \<Rightarrow> series_filter \<Rightarrow> snapshot list \<Rightarrow> instant" where
  "first_bound z f R =
     (let lo0 = (case sf_from f of None \<Rightarrow> zero_time | Some t \<Rightarrow> bucketStart z (sf_step f) t);
          Q = filter (in_window z f) R
      in if primer z f R = None \<and> Q \<noteq> []
         then (let first = bucketStart z (sf_step f) (snap_as_of (hd Q)) in if lo0 = zero_time \<or> lo0 < first then first else lo0)
         else lo0)"

definition last_bound :: "zone \<Rightarrow> series_filter \<Rightarrow> snapshot list \<Rightarrow> instant" where
  "last_bound z f R =
     (let Q = filter (in_window z f) R
      in case sf_to f of Some t \<Rightarrow> bucketStart z (sf_step f) t
         | None \<Rightarrow> if Q \<noteq> [] then bucketStart z (sf_step f) (snap_as_of (last Q)) else first_bound z f R)"

lemma first_bound_eq:
  assumes "zone_ok z" "sorted (map snap_as_of R)" "R \<noteq> []" "filter (in_window z f) R \<noteq> [] \<or> primer z f R \<noteq> None"
    and "\<And>t. sf_from f = Some t \<Longrightarrow> bucketStart z (sf_step f) t \<noteq> zero_time"
  shows "first_bound z f R = bstart z (sf_step f) (first_no z f R)"
proof (cases "primer z f R")
  case None
  note p = primer_None [OF assms(1-3) None]
  have "hd (filter (in_window z f) R) = hd R"
    using window_hd [OF assms(2,1), where b = "sf_to f" and step = "sf_step f"] assms(4) None p(3) by simp
  moreover have "bindex z (sf_step f) t \<le> bindex z (sf_step f) (snap_as_of (hd R))" if "sf_from f = Some t" for t
    using p(1) that by (simp add: first_no_def Let_def)
  ultimately show ?thesis
    using assms(4,5) None unfolding p(1)
    by (cases "sf_from f") (auto simp: first_bound_def Let_def bucketStart_eq bstart_order [OF assms(1)])
next
  case (Some x)
  then obtain t where "sf_from f = Some t" "first_no z f R = bindex z (sf_step f) t"
    using primer_Some [OF assms(1,2)] by (metis option.distinct(1))
  then show ?thesis using Some by (simp add: first_bound_def bucketStart_eq)
qed

lemma last_bound_eq:
  assumes "zone_ok z" "sorted (map snap_as_of R)" "R \<noteq> []" "filter (in_window z f) R \<noteq> [] \<or> primer z f R \<noteq> None"
    and "\<And>t. sf_from f = Some t \<Longrightarrow> bucketStart z (sf_step f) t \<noteq> zero_time"
  shows "last_bound z f R = bstart z (sf_step f) (last_no z f R)"
proof (cases "sf_to f")
  case None
  let ?i = "\<lambda>s. bindex z (sf_step f) (snap_as_of s)"
  show ?thesis
  proof (cases "filter (in_window z f) R = []")
    case True
    then obtain t where t: "sf_from f = Some t" "first_no z f R = bindex z (sf_step f) t"
      using assms(4) primer_Some [OF assms(1,2)] by metis
    have "\<not> in_window z f (last R)" using True assms(3) by (auto simp: filter_empty_conv)
    then have "?i (last R) < bindex z (sf_step f) t" by (auto simp: in_window_def t(1) None)
    then show ?thesis using True None t(2)
      by (simp add: last_bound_def last_no_def first_bound_eq [OF assms])
  next
    case False
    then obtain s where s: "s \<in> set R" "in_window z f s" by (auto simp: filter_empty_conv)
    have "?i (hd R) \<le> ?i (last R)" "?i s \<le> ?i (last R)" using index_ends [OF assms(1,2)] s(1) assms(3) by auto
    then have "first_no z f R \<le> ?i (last R)" using s(2) by (auto simp: first_no_def Let_def in_window_def split: option.splits)
    then show ?thesis using False None window_last [OF assms(2,1) None False]
      by (simp add: last_bound_def last_no_def bucketStart_eq)
  qed
qed (simp add: last_bound_def last_no_def bucketStart_eq)

lemma snapshotSeries_eq:
  fixes acc :: account and f :: series_filter
  assumes "zone_ok z" "distinct (map snap_id (snapshots db))"
  defines "R \<equiv> readings_of db (acc_id acc)"
  defines "Q \<equiv> filter (in_window z f) R"
  shows "snapshotSeries z db acc f =
    (let v = newSeriesView acc f
     in if Q = [] \<and> primer z f R = None \<or> first_bound z f R = zero_time \<or> last_bound z f R < first_bound z f R then Some v
        else map_option (\<lambda>bs. v\<lparr>sr_points := fst (fold (snapshot_step
               (bucket_closes z (sf_step f) (map (\<lambda>s. raw_point (snap_as_of s) (snap_balance s)) Q))) bs ([], primer z f R))\<rparr>)
             (bucket_loop z (sf_step f) (first_bound z f R) (last_bound z f R)))"
proof -
  let ?pts = "map (\<lambda>s. raw_point (snap_as_of s) (snap_balance s)) Q"
  have w: "(case sf_to f of None \<Rightarrow> BalanceHistory db (acc_id acc) (map_option (bucketStart z (sf_step f)) (sf_from f))
       | Some t \<Rightarrow> filter (\<lambda>r. bp_as_of r < nextBucketStart z (sf_step f) (bucketStart z (sf_step f) t))
           (BalanceHistory db (acc_id acc) (map_option (bucketStart z (sf_step f)) (sf_from f)))) = ?pts"
    using window_eq [OF assms(1), of db "acc_id acc" f] by (simp add: Q_def R_def Let_def)
  have ends: "bp_as_of (hd ?pts) = snap_as_of (hd Q)" "bp_as_of (last ?pts) = snap_as_of (last Q)" if "Q \<noteq> []"
    using that by (simp_all add: hd_map last_map raw_point_def)
  have p: "(case map_option (bucketStart z (sf_step f)) (sf_from f) of None \<Rightarrow> None
    | Some q \<Rightarrow> map_option snap_balance
        (last_by (\<lambda>s. (snap_as_of s, snap_id s)) (filter (\<lambda>s. snap_account s = acc_id acc \<and> snap_as_of s < q) (snapshots db)))) =
    primer z f R" unfolding R_def by (rule prime_eq [OF assms(1,2)])
  have lo: "first_bound z f R =
      (let lo0 = (case sf_from f of None \<Rightarrow> zero_time | Some t \<Rightarrow> bucketStart z (sf_step f) t)
       in if primer z f R = None \<and> ?pts \<noteq> []
          then (let first = bucketStart z (sf_step f) (bp_as_of (hd ?pts)) in if lo0 = zero_time \<or> lo0 < first then first else lo0)
          else lo0)"
    using ends(1) by (cases "Q = []") (simp_all add: first_bound_def Q_def [symmetric] Let_def)
  have hi: "last_bound z f R =
      (case sf_to f of Some t \<Rightarrow> bucketStart z (sf_step f) t
       | None \<Rightarrow> if ?pts \<noteq> [] then bucketStart z (sf_step f) (bp_as_of (last ?pts)) else first_bound z f R)"
    using ends(2) by (cases "Q = []") (simp_all add: last_bound_def Q_def [symmetric] Let_def cong: option.case_cong)
  have nil: "Q = [] \<longleftrightarrow> ?pts = []" by simp
  show ?thesis unfolding snapshotSeries_def Let_def w p lo [unfolded Let_def, symmetric] hi [symmetric] nil by simp
qed

lemma levels_known:
  assumes "zone_ok z" "R = readings_of db a" "R \<noteq> []" "first_no z f R \<le> k"
  shows "rs_upto z (sf_step f) R k \<noteq> []"
proof -
  have "bindex z (sf_step f) (snap_as_of (hd R)) \<le> first_no z f R" by (auto simp: first_no_def Let_def split: option.split)
  with assms(3,4) show ?thesis by (auto simp: rs_upto_def filter_empty_conv intro!: bexI [of _ "hd R"])
qed

lemma snapshot_points:
  fixes z f db acc
  defines "R \<equiv> readings_of db (acc_id acc)"
  defines "i \<equiv> first_no z f R" and "j \<equiv> last_no z f R"
  assumes z: "zone_ok z" and ids: "distinct (map snap_id (snapshots db))"
    and nonzero: "\<forall>t \<in> set_option (sf_from f) \<union> snap_as_of ` set (snapshots db). bucketStart z (sf_step f) t \<noteq> zero_time"
  shows "snapshotSeries z db acc f = Some ((newSeriesView acc f)\<lparr>sr_points :=
     (if R = [] then [] else map (\<lambda>k. snapshot_point z (sf_step f) k (last (rs_upto z (sf_step f) R k))) [i..j])\<rparr>)"
proof -
  define Q where "Q = filter (in_window z f) R"
  have sorted: "sorted (map snap_as_of R)" unfolding R_def by (rule readings_sorted)
  have known: "rs_upto z (sf_step f) R k \<noteq> []" if "R \<noteq> []" "i \<le> k" for k
    using levels_known [OF z _ that(1)] that(2) by (simp add: i_def R_def)
  have eq: "snapshotSeries z db acc f =
    (let v = newSeriesView acc f
     in if Q = [] \<and> primer z f R = None \<or> first_bound z f R = zero_time \<or> last_bound z f R < first_bound z f R then Some v
        else map_option (\<lambda>bs. v\<lparr>sr_points := fst (fold (snapshot_step
               (bucket_closes z (sf_step f) (map (\<lambda>s. raw_point (snap_as_of s) (snap_balance s)) Q))) bs ([], primer z f R))\<rparr>)
             (bucket_loop z (sf_step f) (first_bound z f R) (last_bound z f R)))"
    unfolding R_def Q_def by (rule snapshotSeries_eq [OF z ids])
  have nopts: "(newSeriesView acc f)\<lparr>sr_points := []\<rparr> = newSeriesView acc f" by (simp add: newSeriesView_def)
  show ?thesis
  proof (cases "R = []")
    case True
    then have "Q = []" "primer z f R = None" by (simp_all add: Q_def primer_def last_opt_def rs_upto_def split: option.split)
    with True eq nopts show ?thesis by simp
  next
    case ne: False
    show ?thesis
    proof (cases "Q = [] \<and> primer z f R = None")
      case True
      note p = primer_None [OF z sorted ne conjunct2 [OF True]]
      have "hd R \<notin> set Q" using True by simp
      then have "j < i" using ne p(1,3) by (auto simp: Q_def i_def j_def last_no_def split: option.splits)
      with True eq ne nopts show ?thesis by (simp add: Let_def)
    next
      case False
      have nz: "bucketStart z (sf_step f) t \<noteq> zero_time" if "sf_from f = Some t" for t using nonzero that by simp
      have hd: "hd R \<in> set (snapshots db)" using ne hd_in_set [OF ne] by (simp add: R_def readings_of_def)
      have some: "filter (in_window z f) R \<noteq> [] \<or> primer z f R \<noteq> None" using False by (simp add: Q_def)
      have lo: "first_bound z f R = bstart z (sf_step f) i"
        unfolding i_def by (rule first_bound_eq [OF z sorted ne some]) (rule nz)
      have hi: "last_bound z f R = bstart z (sf_step f) j"
        unfolding j_def by (rule last_bound_eq [OF z sorted ne some]) (rule nz)
      have nzi: "bstart z (sf_step f) i \<noteq> zero_time"
        using nonzero hd by (auto simp: i_def first_no_def Let_def bucketStart_eq max_def split: option.splits)
      have prime: "primer z f R = map_option snap_balance (last_opt (rs_upto z (sf_step f) R (i - 1)))"
      proof (cases "primer z f R")
        case None
        then show ?thesis using primer_None(2) [OF z sorted ne None] by (simp add: i_def last_opt_def)
      next
        case (Some x)
        then show ?thesis using primer_Some [OF z sorted] unfolding i_def by (metis option.distinct(1))
      qed
      have at: "rs_at z (sf_step f) Q k = rs_at z (sf_step f) R k" if "i \<le> k" "k \<le> j" for k
        using that unfolding rs_at_def Q_def filter_filter
        by (intro filter_cong)
          (auto simp: in_window_def i_def j_def first_no_def last_no_def Let_def split: option.splits)
      have "fst (fold (snapshot_step (bucket_closes z (sf_step f) (map (\<lambda>s. raw_point (snap_as_of s) (snap_balance s)) Q)))
            (map (bstart z (sf_step f)) [i..j]) ([], primer z f R)) =
          [] @ map (\<lambda>k. snapshot_point z (sf_step f) k (last (rs_upto z (sf_step f) R k))) [i..j]"
        by (rule snapshot_fold [OF z sorted _ prime known [OF ne order_refl]]) (simp add: closes_eq [OF z] at)
      then show ?thesis
        using False ne nopts nzi unfolding eq lo hi
        by (cases "j < i") (auto simp: Let_def bucket_loop_eq [OF z] bstart_order [OF z])
    qed
  qed
qed

text \<open>C26: What a series of readings shows.  For an account with readings the series has one point for every
  bucket from the first to the last that is asked for, but never before its first reading's; each point
  shows the newest reading before the end of its bucket, by time and then by id, and is marked as carried
  exactly when that reading lies in an earlier bucket.  So no figure is invented, averaged or
  carried backwards, and the request returns.  An account without readings has no points.\<close>

theorem snapshot_series_exact:
  assumes "zone_ok z" "distinct (map snap_id (snapshots db))"
    and "\<forall>t \<in> set_option (sf_from f) \<union> snap_as_of ` set (snapshots db). bucketStart z (sf_step f) t \<noteq> zero_time"
  shows "let R = readings_of db (acc_id acc); step = sf_step f; no = bindex z step; start = bstart z step;
      i = (case sf_from f of None \<Rightarrow> no (snap_as_of (hd R)) | Some t \<Rightarrow> max (no t) (no (snap_as_of (hd R))));
      j = (case sf_to f of Some t \<Rightarrow> no t | None \<Rightarrow> max i (no (snap_as_of (List.last R))))
    in snapshotSeries z db acc f = Some ((newSeriesView acc f)\<lparr>sr_points :=
         (if R = [] then []
          else map (\<lambda>k. let s = the (level_before db (acc_id acc) (start (k + 1)))
                        in (raw_point (start k) (snap_balance s))\<lparr>bp_carried := no (snap_as_of s) < k\<rparr>) [i..j])\<rparr>) \<and>
       (R \<noteq> [] \<longrightarrow> (\<forall>k \<ge> i. level_before db (acc_id acc) (start (k + 1)) \<noteq> None))"
proof -
  note z = assms(1) and ids = assms(2)
  define R where "R = readings_of db (acc_id acc)"
  define i where "i = first_no z f R"
  define j where "j = last_no z f R"
  have known: "rs_upto z (sf_step f) R k \<noteq> []" if "R \<noteq> []" "i \<le> k" for k
    using levels_known [OF z _ that(1)] that(2) by (simp add: i_def R_def)
  have level: "level_before db (acc_id acc) (bstart z (sf_step f) (k + 1)) = last_opt (rs_upto z (sf_step f) R k)" for k
    unfolding R_def by (rule level_upto [OF z ids])
  have points: "snapshotSeries z db acc f = Some ((newSeriesView acc f)\<lparr>sr_points :=
         (if R = [] then [] else map (\<lambda>k. snapshot_point z (sf_step f) k (last (rs_upto z (sf_step f) R k))) [i..j])\<rparr>)"
    unfolding i_def j_def R_def by (rule snapshot_points [OF assms])
  have pt: "snapshot_point z (sf_step f) k (last (rs_upto z (sf_step f) R k)) =
      (let s = the (level_before db (acc_id acc) (bstart z (sf_step f) (k + 1)))
       in (raw_point (bstart z (sf_step f) k) (snap_balance s))\<lparr>bp_carried := bindex z (sf_step f) (snap_as_of s) < k\<rparr>)"
    if "R \<noteq> []" "i \<le> k" for k
    using known [OF that] by (simp add: level last_opt_def snapshot_point_def Let_def)
  show ?thesis
    unfolding Let_def R_def [symmetric] first_no_def [unfolded Let_def, symmetric] i_def [symmetric]
      last_no_def [symmetric, folded i_def] points
    using pt known by (auto simp: level last_opt_def j_def last_no_def i_def [symmetric] Let_def intro!: map_cong)
qed

section \<open>The buckets of the ledger\<close>

lemma bucket_add_start [simp]: "lb_start (bucket_add own4 t b) = lb_start b"
  by (simp add: bucket_add_def Let_def split: option.split)

lemma fold_start [simp]: "lb_start (fold (bucket_add own4) ts b) = lb_start b"
  by (induction ts arbitrary: b) simp_all

lemma at_key_map:
  assumes "zone_ok z" "\<And>k. lb_start (h k) = bstart z step k"
  shows "at_key (bucketKey (bstart z step l)) g (map h ks) = map (\<lambda>k. if k = l then g (h k) else h k) ks"
  by (simp add: at_key_def update_where_def assms bucketKey_bstart)

lemma fold_rows:
  assumes "zone_ok z" "\<And>k. lb_start (h k) = bstart z step k"
  shows "fold (fold_row z step own4) rows (map h ks) =
    map (\<lambda>k. fold (bucket_add own4) (filter (\<lambda>t. bindex z step (txn_date t) = k) rows) (h k)) ks"
  using assms(2)
proof (induction rows arbitrary: h)
  case (Cons t rows)
  let ?l = "bindex z step (txn_date t)"
  let ?h = "\<lambda>k. if k = ?l then bucket_add own4 t (h k) else h k"
  have "fold_row z step own4 t (map h ks) = map ?h ks"
    unfolding fold_row_def bucketStart_eq by (rule at_key_map [OF assms(1)]) (rule Cons.prems)
  moreover have "lb_start (?h k) = bstart z step k" for k using Cons.prems by simp
  ultimately show ?case using Cons.IH [of ?h] by (simp add: if_distrib cong: if_cong)
qed simp

text \<open>The later rows of the pairs whose running balances do not tie.\<close>

fun breaks :: "float64 option \<Rightarrow> txn list \<Rightarrow> txn list" where
  "breaks prev [] = []"
| "breaks prev (t # ts) =
     (case txn_after t of None \<Rightarrow> breaks None ts
      | Some a \<Rightarrow> (case prev of Some p \<Rightarrow> if \<bar>(a - p) - txn_amount t\<bar> > flowEpsilon then [t] else [] | None \<Rightarrow> []) @ breaks (Some a) ts)"

lemma running_check:
  assumes "zone_ok z" "\<And>k. lb_start (h k) = bstart z step k"
  shows "checkRunningBalance z step rows prev (map h ks) =
    map (\<lambda>k. (h k)\<lparr>lb_mismatch := lb_mismatch (h k) \<or> (\<exists>t \<in> set (breaks prev rows). bindex z step (txn_date t) = k)\<rparr>) ks"
  using assms(2)
proof (induction rows arbitrary: prev h)
  case (Cons t rows)
  let ?l = "bindex z step (txn_date t)"
  let ?mark = "\<lambda>b. b\<lparr>lb_mismatch := True\<rparr>"
  show ?case
  proof (cases "txn_after t")
    case None
    then show ?thesis using Cons.IH [OF Cons.prems] by simp
  next
    case (Some a)
    show ?thesis
    proof (cases "\<exists>p. prev = Some p \<and> \<bar>(a - p) - txn_amount t\<bar> > flowEpsilon")
      case True
      let ?h = "\<lambda>k. if k = ?l then ?mark (h k) else h k"
      have m: "at_key (bucketKey (bucketStart z step (txn_date t))) ?mark (map h ks) = map ?h ks"
        unfolding bucketStart_eq by (rule at_key_map [OF assms(1)]) (rule Cons.prems)
      have "lb_start (?h k) = bstart z step k" for k using Cons.prems by simp
      note IH = Cons.IH [of ?h "Some a", OF this]
      have l: "breaks prev (t # rows) = t # breaks (Some a) rows" using True Some by auto
      have "checkRunningBalance z step (t # rows) prev (map h ks) = checkRunningBalance z step rows (Some a) (map ?h ks)"
        using True Some m by auto
      then show ?thesis unfolding IH l by auto
    next
      case False
      then have "breaks prev (t # rows) = breaks (Some a) rows"
        "checkRunningBalance z step (t # rows) prev (map h ks) = checkRunningBalance z step rows (Some a) (map h ks)"
        using Some by (auto split: option.split)
      then show ?thesis using Cons.IH [OF Cons.prems] by (simp only:)
    qed
  qed
qed simp

lemma walk_back_shape: "list_all2 (\<lambda>b b'. \<exists>x. b' = closed_at x b) bs (walk_back next bs)"
  by (induction bs arbitrary: "next") (auto simp: Let_def)

lemma walk_forth_shape: "list_all2 (\<lambda>b b'. \<exists>x. b' = closed_at x b) bs (walk_forth prev bs)"
  by (induction bs arbitrary: prev) (auto simp: Let_def)

lemma anchor_split:
  assumes "walkFromAnchor z step (Some s) order = Inr os"
  obtains before b after where "order = before @ b # after"
    "bucketKey (lb_start b) = bucketKey (bucketStart z step (snap_as_of s))"
    "os = rev (walk_back (closed_at (snap_balance s) b) (rev before)) @ closed_at (snap_balance s) b #
       walk_forth (closed_at (snap_balance s) b) after"
proof -
  define q where "q b \<longleftrightarrow> bucketKey (lb_start b) \<noteq> bucketKey (bucketStart z step (snap_as_of s))" for b :: ledger_bucket
  define before where "before = takeWhile q order"
  have drop: "drop (length before) order = dropWhile q order" unfolding before_def by (rule dropWhile_eq_drop [symmetric])
  have w: "(case dropWhile q order of
       [] \<Rightarrow> Inl ''the newest balance reading falls outside this account's derivable range, so there is no anchor to walk from''
     | b # after \<Rightarrow> Inr (rev (walk_back (closed_at (snap_balance s) b) (rev before)) @ closed_at (snap_balance s) b #
         walk_forth (closed_at (snap_balance s) b) after)) = Inr os"
    using assms
    unfolding walkFromAnchor_def Let_def option.case q_def [abs_def, symmetric] before_def [symmetric] drop .
  then obtain b after where d: "dropWhile q order = b # after" by (auto split: list.splits)
  have order: "order = before @ b # after" unfolding d [symmetric] before_def by simp
  have "\<not> q b" using d by (metis hd_dropWhile list.distinct(1) list.sel(1))
  with order w d show ?thesis by (intro that) (auto simp: q_def)
qed

lemma walk_shape:
  assumes "walkFromAnchor z step anchor order = Inr os"
  shows "list_all2 (\<lambda>b b'. \<exists>x. b' = closed_at x b) order os"
proof -
  obtain s where s: "anchor = Some s" using assms by (auto simp: walkFromAnchor_def split: option.splits)
  obtain before b after where w: "order = before @ b # after"
      "os = rev (walk_back (closed_at (snap_balance s) b) (rev before)) @ closed_at (snap_balance s) b #
         walk_forth (closed_at (snap_balance s) b) after"
    by (rule anchor_split [OF assms [unfolded s]])
  have "list_all2 (\<lambda>b b'. \<exists>x. b' = closed_at x b) (rev (rev before)) (rev (walk_back (closed_at (snap_balance s) b) (rev before)))"
    unfolding list_all2_rev by (rule walk_back_shape)
  moreover have "list_all2 (\<lambda>b b'. \<exists>x. b' = closed_at x b) (b # after)
      (closed_at (snap_balance s) b # walk_forth (closed_at (snap_balance s) b) after)"
    using walk_forth_shape by auto
  ultimately show ?thesis unfolding w rev_rev_ident by (rule list_all2_appendI)
qed

section \<open>The running series\<close>

text \<open>Once a level is known, every bucket opens with the close before it.\<close>

fun emit :: "(int \<Rightarrow> float64 option) \<Rightarrow> float64 \<Rightarrow> ledger_bucket list \<Rightarrow> balance_point list" where
  "emit snaps op [] = []"
| "emit snaps op (b # bs) =
     (case bucket_close b op of (cl, carried, source) \<Rightarrow> ledger_point snaps b op cl carried source # emit snaps cl bs)"

definition max_drift :: "balance_point list \<Rightarrow> float64 \<Rightarrow> float64" where
  "max_drift ps m = fold (\<lambda>p m. case bp_drift p of None \<Rightarrow> m | Some d \<Rightarrow> if \<bar>d\<bar> > m then \<bar>d\<bar> else m) ps m"

lemma emit_length [simp]: "length (emit snaps op bs) = length bs"
  by (induction bs arbitrary: op) (auto split: prod.split)

lemma have_fold:
  assumes "ss_have st"
  shows "let st' = fold (series_step snaps s) (zip [i..i + int (length bs) - 1] bs) st; ps = drop (nat (s - i)) (emit snaps (ss_prev st) bs)
    in ss_points st' = ss_points st @ ps \<and> ss_drift st' = max_drift ps (ss_drift st) \<and> ss_level st' = ss_level st \<and> ss_have st'"
  using assms
proof (induction bs arbitrary: i st)
  case (Cons b bs)
  obtain cl carried source where c: "bucket_close b (ss_prev st) = (cl, carried, source)" by (cases "bucket_close b (ss_prev st)") auto
  let ?p = "ledger_point snaps b (ss_prev st) cl carried source"
  define st1 where "st1 = series_step snaps s (i, b) st"
  have st1: "ss_have st1" "ss_prev st1 = cl" "ss_level st1 = ss_level st"
      "ss_points st1 = ss_points st @ (if i < s then [] else [?p])" "ss_drift st1 = max_drift (if i < s then [] else [?p]) (ss_drift st)"
    using Cons.prems by (auto simp: st1_def series_step_def Let_def c max_drift_def split: option.split)
  have z: "zip [i..i + int (length (b # bs)) - 1] (b # bs) = (i, b) # zip [i + 1..(i + 1) + int (length bs) - 1] bs"
    by (simp add: upto_rec1)
  have d: "drop (nat (s - i)) (emit snaps (ss_prev st) (b # bs)) =
      (if i < s then [] else [?p]) @ drop (nat (s - (i + 1))) (emit snaps cl bs)"
    by (cases "nat (s - i)") (auto simp: c nat_diff_distrib' intro!: arg_cong2 [where f = drop])
  show ?case
    using Cons.IH [OF st1(1), of "i + 1"] unfolding z d Let_def
    by (simp add: st1_def [symmetric] st1 max_drift_def)
qed (simp add: max_drift_def)

lemma wait_fold:
  "\<not> ss_have st \<Longrightarrow> \<forall>b \<in> set bs. \<not> lb_has_close b \<Longrightarrow>
     fold (series_step snaps s) (zip [i..j] bs) st = st"
proof (induction bs arbitrary: i)
  case (Cons b bs)
  show ?case
  proof (cases "i \<le> j")
    case True
    have "series_step snaps s (i, b) st = st" using Cons.prems by (simp add: series_step_def)
    then show ?thesis using Cons.IH [of "i + 1"] Cons.prems True by (simp add: upto_rec1)
  qed simp
qed simp

lemma zip_take: "zip xs ys = zip xs (take (length xs) ys)"
  by (induction xs ys rule: list_induct2') simp_all

text \<open>The points that are emitted, in closed form: buckets without a level in front are skipped.\<close>

lemma emit_series_eq:
  assumes "0 \<le> s" "s \<le> e" "nat e < length order"
  shows "\<exists>n op. emit_series v walked snaps order s e =
      (let ps = drop (nat (s - int n)) (emit snaps op (drop n (take (nat (e + 1)) order)))
       in v\<lparr>sr_points := ps, sr_drift_max := max_drift ps 0, sr_unverified := (ps \<noteq> [] \<and> s \<le> int n)\<rparr>) \<and>
    (walked \<longrightarrow> n = 0 \<and> op = lb_close (hd order) - lb_net (hd order)) \<and>
    (\<not> walked \<longrightarrow> n = length (takeWhile (\<lambda>b. \<not> lb_has_close b) (take (nat (e + 1)) order)) \<and>
       (n < length (take (nat (e + 1)) order) \<longrightarrow> op = bucketOpening (order ! n)))"
proof -
  define B where "B = take (nat (e + 1)) order"
  have len: "length B = nat (e + 1)" using assms by (simp add: B_def)
  have z: "zip [0..e] order = zip [0..0 + int (length B) - 1] B"
    using zip_take [of "[0..e]" order] assms len by (simp add: B_def)
  show ?thesis
  proof (cases walked)
    case True
    let ?st = "\<lparr>ss_prev = lb_close (hd order) - lb_net (hd order), ss_have = True, ss_level = 0, ss_points = [], ss_drift = 0\<rparr>"
    show ?thesis
      using have_fold [of ?st snaps s 0 B] True z
      by (intro exI [of _ 0] exI [of _ "ss_prev ?st"]) (simp add: emit_series_def Let_def B_def)
  next
    case False
    let ?w = "\<lambda>b. \<not> lb_has_close b"
    let ?st = "\<lparr>ss_prev = 0, ss_have = False, ss_level = -1, ss_points = [], ss_drift = 0\<rparr>"
    define n where "n = length (takeWhile ?w B)"
    define i where "i = int n"
    show ?thesis
    proof (cases "n < length B")
      case no: False
      then have "\<forall>b \<in> set B. ?w b" unfolding n_def
        by (metis dropWhile_eq_Nil_conv dropWhile_eq_drop drop_eq_Nil not_less)
      then have "fold (series_step snaps s) (zip [0..e] order) ?st = ?st" unfolding z by (intro wait_fold) simp_all
      moreover have "drop n B = []" using no by simp
      ultimately show ?thesis using False no
        by (intro exI [of _ n] exI [of _ 0]) (simp add: emit_series_def Let_def B_def [symmetric] n_def [symmetric] max_drift_def)
    next
      case yes: True
      have split: "B = take n B @ B ! n # drop (Suc n) B" using yes by (simp add: id_take_nth_drop)
      have pre: "\<forall>b \<in> set (take n B). ?w b"
        using takeWhile_eq_take [of ?w B] set_takeWhileD [of _ ?w B] unfolding n_def by metis
      have at: "lb_has_close (B ! n)" using yes nth_length_takeWhile [of ?w B] unfolding n_def by auto
      let ?op = "bucketOpening (B ! n)"
      let ?st1 = "?st\<lparr>ss_have := True, ss_level := i, ss_prev := ?op\<rparr>"
      have zz: "zip [0..0 + int (length B) - 1] B =
          zip [0..i - 1] (take n B) @ zip [i..i + int (length (drop n B)) - 1] (drop n B)"
      proof -
        have "[0..0 + int (length B) - 1] = [0..i - 1] @ [i..i + int (length (drop n B)) - 1]"
          using yes upto_split2 [of 0 "i - 1" "int (length B) - 1"] by (cases "n = 0") (simp_all add: i_def)
        moreover have "B = take n B @ drop n B" by simp
        moreover have "length [0..i - 1] = length (take n B)" using yes by (simp add: i_def)
        ultimately show ?thesis by (metis zip_append)
      qed
      have first: "fold (series_step snaps s) (zip [0..i - 1] (take n B)) ?st = ?st"
        by (rule wait_fold) (use pre in simp_all)
      have start: "fold (series_step snaps s) (zip [i..i + int (length (drop n B)) - 1] (drop n B)) ?st =
          fold (series_step snaps s) (zip [i..i + int (length (drop n B)) - 1] (drop n B)) ?st1"
      proof -
        have "drop n B = B ! n # drop (Suc n) B" using yes by (simp add: Cons_nth_drop_Suc)
        moreover have "series_step snaps s (i, B ! n) ?st = series_step snaps s (i, B ! n) ?st1"
          using at by (simp add: series_step_def)
        ultimately show ?thesis by (simp add: upto_rec1)
      qed
      have run: "fold (series_step snaps s) (zip [0..e] order) ?st =
          fold (series_step snaps s) (zip [i..i + int (length (drop n B)) - 1] (drop n B)) ?st1"
        unfolding z zz fold_append o_apply first start ..
      have on: "order ! n = B ! n" using yes by (simp add: B_def)
      show ?thesis
        using have_fold [of ?st1 snaps s i "drop n B"] False run
        by (intro exI [of _ n] exI [of _ ?op])
          (simp add: emit_series_def Let_def B_def [symmetric] n_def [symmetric] i_def on)
    qed
  qed
qed

lemma emit_nth:
  "n < length bs \<Longrightarrow> \<exists>op'. emit snaps op bs ! n =
     (case bucket_close (bs ! n) op' of (cl, carried, source) \<Rightarrow> ledger_point snaps (bs ! n) op' cl carried source)"
proof (induction bs arbitrary: op n)
  case (Cons b bs)
  show ?case
  proof (cases n)
    case 0
    then show ?thesis by (intro exI [of _ op]) (auto split: prod.split)
  next
    case (Suc m)
    obtain cl carried source where "bucket_close b op = (cl, carried, source)" by (cases "bucket_close b op") auto
    with Cons.IH [of m cl] Cons.prems Suc show ?thesis by simp
  qed
qed simp

lemma emit_chain:
  "Suc n < length bs \<Longrightarrow> bp_open (emit snaps op bs ! Suc n) = bp_close (emit snaps op bs ! n)"
proof (induction bs arbitrary: op n)
  case (Cons b bs)
  obtain cl carried source where c: "bucket_close b op = (cl, carried, source)" by (cases "bucket_close b op") auto
  show ?case
  proof (cases n)
    case 0
    with Cons.prems c show ?thesis by (cases bs) (auto simp: ledger_point_def split: prod.split)
  next
    case (Suc m)
    with Cons.IH [of m cl] Cons.prems c show ?thesis by simp
  qed
qed simp

section \<open>What a bucket holds\<close>

text \<open>The figures of a bucket are the sums over its rows, in order; the classifier is that of the summaries.\<close>

definition holds_rows :: "string set \<Rightarrow> txn list \<Rightarrow> ledger_bucket \<Rightarrow> bool" where
  "holds_rows own4 ts b \<longleftrightarrow>
     lb_txns b = int (length ts) \<and> lb_net b = foldl (+) 0 (map txn_amount ts) \<and>
     lb_in b = foldl (+) 0 (map txn_amount (filter (\<lambda>t. 0 \<le> txn_amount t) ts)) \<and>
     lb_out b = foldl (+) 0 (map (\<lambda>t. - txn_amount t) (filter (\<lambda>t. \<not> 0 \<le> txn_amount t) ts)) \<and>
     lb_tally b = fold (tally_add own4) ts zero_tally"

text \<open>A close that claims to be the bank's own figure is the running balance of the bucket's last row.\<close>

definition close_sound :: "txn list \<Rightarrow> ledger_bucket \<Rightarrow> bool" where
  "close_sound ts b \<longleftrightarrow>
     (lb_has_close b \<longrightarrow> lb_source b \<in> {SourceBalanceAfter, SourceAccumulated} \<and>
        (lb_source b = SourceBalanceAfter \<longrightarrow> ts \<noteq> [] \<and> (\<exists>a. txn_after (last ts) = Some a \<and> lb_close b = a + 0)))"

lemma source_distinct [simp]:
  "SourceAccumulated \<noteq> SourceBalanceAfter" "SourceCarried \<noteq> SourceBalanceAfter" "SourceCarried \<noteq> SourceAccumulated"
  "SourceBalanceAfter \<noteq> SourceAccumulated" "SourceBalanceAfter \<noteq> SourceCarried" "SourceAccumulated \<noteq> SourceCarried"
  by (simp_all add: SourceAccumulated_def SourceBalanceAfter_def SourceCarried_def)

lemma covered_start [simp]: "lb_start (covered_close b) = lb_start b"
  by (simp add: covered_close_def split: option.split)

lemma fold_bucket:
  "let b = fold (bucket_add own4) ts (new_bucket s)
   in holds_rows own4 ts b \<and> \<not> lb_has_close b \<and> \<not> lb_mismatch b \<and>
      (lb_covered b \<longrightarrow> ts \<noteq> [] \<and> txn_after (last ts) \<noteq> None \<and> lb_last_after b = txn_after (last ts) \<and> lb_net_after b = 0)"
proof (induction ts rule: rev_induct)
  case (snoc t ts)
  then show ?case
    by (cases "txn_after t") (auto simp: Let_def bucket_add_def holds_rows_def)
qed (simp add: new_bucket_def holds_rows_def)

lemma covered_close_sound:
  assumes "holds_rows own4 ts b" "\<not> lb_has_close b"
    and "lb_covered b \<longrightarrow> ts \<noteq> [] \<and> txn_after (last ts) \<noteq> None \<and> lb_last_after b = txn_after (last ts) \<and> lb_net_after b = 0"
  shows "holds_rows own4 ts (covered_close b)" "close_sound ts (covered_close b)"
  using assms by (auto simp: covered_close_def holds_rows_def close_sound_def split: option.split)

definition fits :: "zone \<Rightarrow> step \<Rightarrow> string set \<Rightarrow> txn list \<Rightarrow> int \<Rightarrow> ledger_bucket \<Rightarrow> bool" where
  "fits z step own4 rows k b \<longleftrightarrow>
     lb_start b = bstart z step k \<and> holds_rows own4 (filter (\<lambda>t. bindex z step (txn_date t) = k) rows) b \<and>
     close_sound (filter (\<lambda>t. bindex z step (txn_date t) = k) rows) b"

lemma closed_fits: "lb_start b = bstart z step k \<Longrightarrow> holds_rows own4 (filter (\<lambda>t. bindex z step (txn_date t) = k) rows) b \<Longrightarrow>
    fits z step own4 rows k (closed_at x b)"
  by (simp add: fits_def closed_at_def holds_rows_def close_sound_def SourceAccumulated_def SourceBalanceAfter_def)

lemma marked_fits: "fits z step own4 rows k b \<Longrightarrow> fits z step own4 rows k (b\<lparr>lb_mismatch := m\<rparr>)"
  by (simp add: fits_def holds_rows_def close_sound_def)

lemma order_fits:
  assumes "zone_ok z"
    and "(if path then Inr (checkRunningBalance z step rows None (map covered_close order0))
          else walkFromAnchor z step anchor order0) = Inr order"
    and "order0 = fold (fold_row z step own4) rows (map new_bucket (map (bstart z step) [a..b]))"
  shows "length order = length [a..b] \<and> (\<forall>n < length order. fits z step own4 rows (a + int n) (order ! n))"
proof -
  let ?rows = "\<lambda>k. filter (\<lambda>t. bindex z step (txn_date t) = k) rows"
  define h where "h k = fold (bucket_add own4) (?rows k) (new_bucket (bstart z step k))" for k
  have h: "lb_start (h k) = bstart z step k" for k by (simp add: h_def new_bucket_def)
  note data = fold_bucket [of own4 "?rows k" "bstart z step k" for k, folded h_def, unfolded Let_def]
  have order0: "order0 = map h [a..b]"
    unfolding assms(3) map_map o_def
    by (subst fold_rows [OF assms(1)]) (simp_all add: h_def new_bucket_def)
  show ?thesis
  proof (cases path)
    case True
    have order: "order = map (\<lambda>k. (covered_close (h k))\<lparr>lb_mismatch := lb_mismatch (covered_close (h k)) \<or>
        (\<exists>t \<in> set (breaks None rows). bindex z step (txn_date t) = k)\<rparr>) [a..b]"
      using assms(2) True running_check [OF assms(1), of "\<lambda>k. covered_close (h k)" step rows None "[a..b]"] h
      by (simp add: order0 o_def)
    have "fits z step own4 rows k (covered_close (h k))" for k
      using covered_close_sound [of own4 "?rows k" "h k"] data [of k] h [of k] by (simp add: fits_def)
    then show ?thesis unfolding order by (simp add: marked_fits)
  next
    case False
    then have w: "list_all2 (\<lambda>b b'. \<exists>x. b' = closed_at x b) order0 order" using assms(2) by (intro walk_shape) simp
    then have len: "length order = length [a..b]" using list_all2_lengthD order0 by fastforce
    have "fits z step own4 rows (a + int n) (order ! n)" if n: "n < length order" for n
    proof -
      obtain x where "order ! n = closed_at x (order0 ! n)" using list_all2_nthD2 [OF w n] by blast
      then show ?thesis using n len data h by (simp add: order0 closed_fits)
    qed
    with len show ?thesis by blast
  qed
qed

lemma emitted_range_at:
  assumes "zone_ok z" "\<And>n. n < length bs \<Longrightarrow> lb_start (bs ! n) = bstart z step (c + int n)" "0 \<le> i"
  shows "emitted_range bs (bstart z step l) (bstart z step h) i r =
    (if max l c \<le> min h (c + int (length bs) - 1)
     then (if fst r < 0 then i + (max l c - c) else fst r, i + (min h (c + int (length bs) - 1) - c))
     else r)"
  using assms(2,3)
proof (induction bs arbitrary: c i r)
  case (Cons b bs)
  have b: "lb_start b = bstart z step c" using Cons.prems(1) [of 0] by simp
  have rest: "lb_start (bs ! n) = bstart z step (c + 1 + int n)" if "n < length bs" for n
    using Cons.prems(1) [of "Suc n"] that by (simp add: algebra_simps)
  have inb: "(lb_start b < bstart z step l \<or> bstart z step h < lb_start b) \<longleftrightarrow> c < l \<or> h < c"
    by (simp add: b bstart_order [OF assms(1)])
  show ?case
    using Cons.IH [of "c + 1" "i + 1" "if c < l \<or> h < c then r else (if fst r < 0 then i else fst r, i)", OF rest] Cons.prems(2)
    by (cases bs) (auto simp: inb max_def min_def)
qed auto

lemma emittedRange_at:
  assumes "zone_ok z" "\<And>n. n < length bs \<Longrightarrow> lb_start (bs ! n) = bstart z step (a + int n)"
    and "length bs = length [a..b]" "a \<le> l" "l \<le> h" "h \<le> b"
  shows "emittedRange bs (bstart z step l) (bstart z step h) = (l - a, h - a)"
proof -
  have "bs \<noteq> []" using assms(3-6) by auto
  then show ?thesis
    unfolding emittedRange_def using assms emitted_range_at [OF assms(1,2), of 0 l h "(-1, -1)"] by simp
qed

section \<open>The ledger series\<close>

text \<open>The rows of an account posted in a bucket, and its newest reading there.\<close>

definition rows_in :: "zone \<Rightarrow> step \<Rightarrow> fin_db \<Rightarrow> account \<Rightarrow> instant \<Rightarrow> txn list" where
  "rows_in z step db acc b =
     sort_key (\<lambda>t. (txn_date t, txn_id t))
       (filter (\<lambda>t. txn_account t = acc_id acc \<and> bucketStart z step (txn_date t) = b) (txns db))"

definition reading_in :: "zone \<Rightarrow> step \<Rightarrow> fin_db \<Rightarrow> account \<Rightarrow> instant \<Rightarrow> snapshot option" where
  "reading_in z step db acc b =
     last_by reading_key (filter (\<lambda>s. snap_account s = acc_id acc \<and> bucketStart z step (snap_as_of s) = b) (snapshots db))"

lemma emitted_bounds_at:
  assumes "zone_ok z"
  obtains l h where "emitted_bounds z f lf ld anchor = (bstart z (sf_step f) l, bstart z (sf_step f) h)" "bindex z (sf_step f) lf \<le> l"
proof -
  let ?i = "bindex z (sf_step f)"
  define l where "l = (case sf_from f of None \<Rightarrow> ?i lf | Some t \<Rightarrow> max (?i lf) (?i t))"
  define h where "h = (case sf_to f of Some t \<Rightarrow> ?i t
    | None \<Rightarrow> (case anchor of None \<Rightarrow> ?i ld | Some s \<Rightarrow> max (?i ld) (?i (snap_as_of s))))"
  have "emitted_bounds z f lf ld anchor = (bstart z (sf_step f) l, bstart z (sf_step f) h)"
    by (auto simp: emitted_bounds_def Let_def l_def h_def bucketStart_eq bstart_order [OF assms] max_def split: option.split)
  moreover have "?i lf \<le> l" by (simp add: l_def split: option.split)
  ultimately show ?thesis by (rule that)
qed

lemma derived_bounds_at:
  assumes "zone_ok z" "bindex z (sf_step f) lf \<le> l" "l \<le> h"
  obtains a b where "derived_bounds z f lf rows anchor (bstart z (sf_step f) l, bstart z (sf_step f) h) =
      (bstart z (sf_step f) a, bstart z (sf_step f) b)" "a \<le> l" "h \<le> b" "bindex z (sf_step f) lf \<le> a"
proof -
  let ?i = "bindex z (sf_step f)" and ?s = "bstart z (sf_step f)"
  define l1 where "l1 = (case anchor of None \<Rightarrow> l | Some s \<Rightarrow> min (?i (snap_as_of s)) l)"
  define h1 where "h1 = (case anchor of None \<Rightarrow> h | Some s \<Rightarrow> max (?i (snap_as_of s)) h)"
  define l2 where "l2 = (case last_by (\<lambda>t. (txn_date t, txn_id t)) (filter (\<lambda>t. txn_date t < ?s l1 \<and> txn_after t \<noteq> None) rows) of
    None \<Rightarrow> l1 | Some t \<Rightarrow> min (?i (txn_date t)) l1)"
  have one: "(case anchor of None \<Rightarrow> (?s l, ?s h)
      | Some s \<Rightarrow> (if bucketStart z (sf_step f) (snap_as_of s) < fst (?s l, ?s h) then bucketStart z (sf_step f) (snap_as_of s) else fst (?s l, ?s h),
          if snd (?s l, ?s h) < bucketStart z (sf_step f) (snap_as_of s) then bucketStart z (sf_step f) (snap_as_of s) else snd (?s l, ?s h))) =
      (?s l1, ?s h1)"
    by (auto simp: l1_def h1_def bucketStart_eq bstart_order [OF assms(1)] min_def max_def split: option.split)
  have two: "(case last_by (\<lambda>t. (txn_date t, txn_id t)) (filter (\<lambda>t. txn_date t < ?s l1 \<and> txn_after t \<noteq> None) rows) of None \<Rightarrow> ?s l1
      | Some t \<Rightarrow> if bucketStart z (sf_step f) (txn_date t) < ?s l1 then bucketStart z (sf_step f) (txn_date t) else ?s l1) = ?s l2"
    by (auto simp: l2_def bucketStart_eq bstart_order [OF assms(1)] min_def split: option.split)
  have "derived_bounds z f lf rows anchor (?s l, ?s h) = (?s (max l2 (?i lf)), ?s h1)"
    unfolding derived_bounds_def Let_def one prod.case two
    by (simp add: bucketStart_eq bstart_order [OF assms(1)] max_def)
  moreover have "l2 \<le> l" "h \<le> h1" by (auto simp: l2_def l1_def h1_def split: option.split)
  ultimately show ?thesis using assms(2) by (intro that [of "max l2 (?i lf)" h1]) auto
qed

lemma rows_at:
  assumes "zone_ok z" "a \<le> k" "k \<le> b"
  shows "filter (\<lambda>t. bindex z step (txn_date t) = k) (sort_key (\<lambda>t. (txn_date t, txn_id t))
      (filter (\<lambda>t. bstart z step a \<le> txn_date t \<and> txn_date t < nextBucketStart z step (bstart z step b))
        (filter (\<lambda>t. txn_account t = acc_id acc) (txns db)))) = rows_in z step db acc (bstart z step k)"
  unfolding rows_in_def sort_filter filter_filter nextBucketStart_eq [OF assms(1)] bstart_le [OF assms(1)] less_bstart [OF assms(1)]
  by (rule arg_cong [where f = "sort_key _"], rule filter_cong) (use assms in \<open>auto simp: bucketStart_eq bstart_order\<close>)

lemma snaps_at:
  assumes "zone_ok z" "distinct (map snap_id (snapshots db))" "l \<le> k" "k \<le> h"
  shows "bucket_closes z step
      (filter (\<lambda>r. bp_as_of r < nextBucketStart z step (bstart z step h)) (BalanceHistory db (acc_id acc) (Some (bstart z step l))))
      (bucketKey (bstart z step k)) =
    map_option snap_balance (reading_in z step db acc (bstart z step k))"
proof -
  let ?P = "\<lambda>s. l \<le> bindex z step (snap_as_of s) \<and> bindex z step (snap_as_of s) \<le> h"
  let ?xs = "filter (\<lambda>s. snap_account s = acc_id acc \<and> bindex z step (snap_as_of s) = k) (snapshots db)"
  have "filter (\<lambda>r. bp_as_of r < nextBucketStart z step (bstart z step h)) (BalanceHistory db (acc_id acc) (Some (bstart z step l))) =
      map (\<lambda>s. raw_point (snap_as_of s) (snap_balance s)) (filter ?P (readings_of db (acc_id acc)))"
    by (simp add: history_eq filter_map comp_def raw_point_def nextBucketStart_eq [OF assms(1)] bstart_le [OF assms(1)]
        less_bstart [OF assms(1)] zle_add1_eq_le conj_commute)
  moreover have "rs_at z step (filter ?P (readings_of db (acc_id acc))) k = sort_key reading_key ?xs"
    unfolding rs_at_def readings_of_def sort_filter filter_filter
    by (rule arg_cong [where f = "sort_key _"], rule filter_cong) (use assms(3,4) in auto)
  moreover have inj: "inj_on reading_key (set ?xs)" by (rule inj_on_subset [OF keys_inj [OF assms(2)]]) auto
  moreover have "reading_in z step db acc (bstart z step k) = last_opt (sort_key reading_key ?xs)"
    unfolding reading_in_def last_opt_def sort_Nil bucketStart_eq bstart_order(3) [OF assms(1)]
    by (rule last_by_sort [OF inj])
  ultimately show ?thesis by (simp add: closes_eq [OF assms(1)])
qed

lemma max_drift_bounds:
  "(\<forall>p \<in> set ps. \<forall>d. bp_drift p = Some d \<longrightarrow> \<bar>d\<bar> \<le> max_drift ps m) \<and> m \<le> max_drift ps m \<and>
   (max_drift ps m = m \<or> (\<exists>p \<in> set ps. \<exists>d. bp_drift p = Some d \<and> max_drift ps m = \<bar>d\<bar>))"
proof (induction ps arbitrary: m)
  case (Cons p ps)
  define m' where "m' = (case bp_drift p of None \<Rightarrow> m | Some d \<Rightarrow> if \<bar>d\<bar> > m then \<bar>d\<bar> else m)"
  have e: "max_drift (p # ps) m = max_drift ps m'" by (simp add: max_drift_def m'_def)
  have "m \<le> m'" "\<And>d. bp_drift p = Some d \<Longrightarrow> \<bar>d\<bar> \<le> m'" "m' = m \<or> (\<exists>d. bp_drift p = Some d \<and> m' = \<bar>d\<bar>)"
    by (auto simp: m'_def split: option.split)
  with Cons.IH [of m'] show ?case unfolding e by (auto intro: order_trans)
qed (simp add: max_drift_def)

text \<open>One point, against the rows and the reading of its bucket.\<close>

definition point_sound :: "zone \<Rightarrow> step \<Rightarrow> string set \<Rightarrow> fin_db \<Rightarrow> account \<Rightarrow> balance_point \<Rightarrow> bool" where
  "point_sound z step own4 db acc p \<longleftrightarrow>
     (let rows = rows_in z step db acc (bp_as_of p); tally = fold (tally_add own4) rows zero_tally
      in bucketStart z step (bp_as_of p) = bp_as_of p \<and> bp_close p = Some (bp_balance p) \<and>
         bp_txns p = Some (int (length rows)) \<and> bp_net p = Some (foldl (+) 0 (map txn_amount rows)) \<and>
         bp_in p = Some (foldl (+) 0 (map txn_amount (filter (\<lambda>t. 0 \<le> txn_amount t) rows))) \<and>
         bp_out p = Some (foldl (+) 0 (map (\<lambda>t. - txn_amount t) (filter (\<lambda>t. \<not> 0 \<le> txn_amount t) rows))) \<and>
         bp_ext_in p = Some (st_income tally) \<and> bp_ext_out p = Some (st_spend tally) \<and>
         (bp_carried p \<longleftrightarrow> rows = []) \<and> (bp_source p = SourceCarried \<longleftrightarrow> rows = []) \<and> (rows = [] \<longrightarrow> bp_open p = bp_close p) \<and>
         (bp_source p = SourceBalanceAfter \<longrightarrow> txn_after (List.last rows) = Some (bp_balance p)) \<and>
         bp_drift p = map_option (\<lambda>s. bp_balance p - snap_balance s) (reading_in z step db acc (bp_as_of p)))"

lemma point_from_bucket:
  assumes "zone_ok z" "fits z step own4 rows k b" "filter (\<lambda>t. bindex z step (txn_date t) = k) rows = rows_in z step db acc (bstart z step k)"
    and "snaps (bucketKey (bstart z step k)) = map_option snap_balance (reading_in z step db acc (bstart z step k))"
    and "\<forall>t \<in> set (txns db). \<forall>a. txn_after t = Some a \<longrightarrow> rnd64 (val a) = val a"
    and "p = (case bucket_close b op of (cl, carried, source) \<Rightarrow> ledger_point snaps b op cl carried source)"
  shows "point_sound z step own4 db acc p" "bp_as_of p = bstart z step k"
proof -
  define rows' where "rows' = rows_in z step db acc (bstart z step k)"
  have b: "lb_start b = bstart z step k" "holds_rows own4 rows' b" "close_sound rows' b"
    using assms(2,3) by (simp_all add: fits_def rows'_def)
  have sub: "set rows' \<subseteq> set (txns db)" by (auto simp: rows'_def rows_in_def)
  have exact: "a + 0 = a" if "rows' \<noteq> []" "txn_after (last rows') = Some a" for a
  proof -
    have "last rows' \<in> set (txns db)" using that(1) sub last_in_set by blast
    with assms(5) that(2) show ?thesis by (auto simp: float_eq_iff)
  qed
  obtain cl carried source where c: "bucket_close b op = (cl, carried, source)" by (cases "bucket_close b op") auto
  have p: "p = ledger_point snaps b op cl carried source" using assms(6) c by simp
  show at: "bp_as_of p = bstart z step k" by (simp add: p ledger_point_def b(1))
  have q: "lb_txns b = 0 \<longleftrightarrow> rows' = []" using b(2) by (simp add: holds_rows_def)
  have "(carried \<longleftrightarrow> rows' = []) \<and> (source = SourceCarried \<longleftrightarrow> rows' = []) \<and> (rows' = [] \<longrightarrow> cl = op) \<and>
      (source = SourceBalanceAfter \<longrightarrow> txn_after (last rows') = Some cl)"
    using c b(3) exact by (auto simp: bucket_close_def q close_sound_def split: if_splits)
  then show "point_sound z step own4 db acc p"
    using b(2) assms(4) unfolding point_sound_def at rows'_def [symmetric] Let_def holds_rows_def
    by (simp add: p ledger_point_def b(1) bucketStart_eq assms(1) option.map_comp comp_def)
qed

definition series_sound :: "zone \<Rightarrow> step \<Rightarrow> string set \<Rightarrow> fin_db \<Rightarrow> account \<Rightarrow> series_view \<Rightarrow> bool" where
  "series_sound z step own4 db acc v \<longleftrightarrow>
     (let ps = sr_points v
      in (\<forall>n. Suc n < length ps \<longrightarrow> bp_as_of (ps ! Suc n) = nextBucketStart z step (bp_as_of (ps ! n)) \<and>
            bp_open (ps ! Suc n) = bp_close (ps ! n)) \<and>
         list_all (point_sound z step own4 db acc) ps \<and>
         (\<forall>p \<in> set ps. \<exists>t \<in> set (txns db). txn_account t = acc_id acc \<and> bucketStart z step (txn_date t) \<le> bp_as_of p) \<and>
         (\<forall>p \<in> set ps. \<forall>d. bp_drift p = Some d \<longrightarrow> \<bar>d\<bar> \<le> sr_drift_max v) \<and>
         (sr_drift_max v = 0 \<or> (\<exists>p \<in> set ps. \<exists>d. bp_drift p = Some d \<and> sr_drift_max v = \<bar>d\<bar>)))"

lemma empty_sound: "sr_points v = [] \<Longrightarrow> sr_drift_max v = 0 \<Longrightarrow> series_sound z step own4 db acc v"
  by (simp add: series_sound_def)

lemma emitted_sound:
  assumes z: "zone_ok z" and ids: "distinct (map snap_id (snapshots db))"
    and exact: "\<forall>t \<in> set (txns db). \<forall>a. txn_after t = Some a \<longrightarrow> rnd64 (val a) = val a"
    and order: "length order = length [a..b]" "\<forall>n < length order. fits z step own4 rows (a + int n) (order ! n)"
    and range: "a \<le> l" "l \<le> h" "h \<le> b"
    and rows: "\<And>k. a \<le> k \<Longrightarrow> k \<le> b \<Longrightarrow> filter (\<lambda>t. bindex z step (txn_date t) = k) rows = rows_in z step db acc (bstart z step k)"
    and snaps: "\<And>k. l \<le> k \<Longrightarrow> k \<le> h \<Longrightarrow>
      snaps (bucketKey (bstart z step k)) = map_option snap_balance (reading_in z step db acc (bstart z step k))"
    and old: "\<exists>t \<in> set (txns db). txn_account t = acc_id acc \<and> bindex z step (txn_date t) \<le> a"
  shows "series_sound z step own4 db acc (emit_series v walked snaps order (l - a) (h - a))"
proof -
  define B where "B = take (nat (h - a + 1)) order"
  obtain n op where e: "emit_series v walked snaps order (l - a) (h - a) =
      (let ps = drop (nat (l - a - int n)) (emit snaps op (drop n B))
       in v\<lparr>sr_points := ps, sr_drift_max := max_drift ps 0, sr_unverified := (ps \<noteq> [] \<and> l - a \<le> int n)\<rparr>)"
    using emit_series_eq [of "l - a" "h - a" order v walked snaps] range order(1) unfolding B_def by auto
  define m where "m = nat (l - a - int n)"
  define ps where "ps = drop m (emit snaps op (drop n B))"
  have len: "length ps = length B - n - m" "length B = nat (h - a + 1)" using order(1) range by (simp_all add: ps_def B_def)
  have at: "point_sound z step own4 db acc (ps ! i) \<and> bp_as_of (ps ! i) = bstart z step (a + int (n + m + i)) \<and> a \<le> a + int (n + m + i)"
    if i: "i < length ps" for i
  proof -
    have ix: "n + m + i < length B" using i len by simp
    then have k: "l \<le> a + int (n + m + i)" "a + int (n + m + i) \<le> h" "a + int (n + m + i) \<le> b" "n + m + i < length order"
      using len(2) range by (auto simp: m_def B_def)
    have "ps ! i = emit snaps op (drop n B) ! (m + i)" using i by (simp add: ps_def)
    moreover have "m + i < length (drop n B)" using ix by simp
    from emit_nth [OF this] obtain op' where "emit snaps op (drop n B) ! (m + i) =
        (case bucket_close (drop n B ! (m + i)) op' of (cl, carried, source) \<Rightarrow> ledger_point snaps (drop n B ! (m + i)) op' cl carried source)"
      by blast
    moreover have "drop n B ! (m + i) = order ! (n + m + i)" using ix by (simp add: B_def add.assoc)
    ultimately have p: "ps ! i = (case bucket_close (order ! (n + m + i)) op' of (cl, carried, source) \<Rightarrow>
        ledger_point snaps (order ! (n + m + i)) op' cl carried source)" by simp
    have fit: "fits z step own4 rows (a + int (n + m + i)) (order ! (n + m + i))" using order(2) k(4) by blast
    have ge: "a \<le> a + int (n + m + i)" by simp
    show ?thesis
      using point_from_bucket [where snaps = snaps, OF z fit rows [OF ge k(3)] snaps [OF k(1,2)] exact p] ge by blast
  qed
  have chain: "bp_open (ps ! Suc i) = bp_close (ps ! i)" if "Suc i < length ps" for i
    using emit_chain [of "m + i" "drop n B" snaps op] that len by (simp add: ps_def)
  have v: "sr_points (emit_series v walked snaps order (l - a) (h - a)) = ps"
    "sr_drift_max (emit_series v walked snaps order (l - a) (h - a)) = max_drift ps 0"
    unfolding e by (simp_all add: Let_def ps_def m_def)
  show ?thesis
    unfolding series_sound_def v Let_def
  proof (intro conjI allI impI ballI)
    fix i assume i: "Suc i < length ps"
    show "bp_as_of (ps ! Suc i) = nextBucketStart z step (bp_as_of (ps ! i))"
      using at [of i] at [OF i] i by (simp add: nextBucketStart_eq [OF z] algebra_simps)
    show "bp_open (ps ! Suc i) = bp_close (ps ! i)" by (rule chain [OF i])
  next
    show "list_all (point_sound z step own4 db acc) ps" using at by (simp add: list_all_length)
  next
    fix p assume "p \<in> set ps"
    then obtain i where "i < length ps" "p = ps ! i" by (auto simp: in_set_conv_nth)
    moreover obtain t where "t \<in> set (txns db)" "txn_account t = acc_id acc" "bindex z step (txn_date t) \<le> a" using old by blast
    ultimately show "\<exists>t \<in> set (txns db). txn_account t = acc_id acc \<and> bucketStart z step (txn_date t) \<le> bp_as_of p"
      using at [of i] by (intro bexI [of _ t]) (auto simp: bucketStart_eq bstart_order [OF z])
  next
    fix p d assume "p \<in> set ps" "bp_drift p = Some d"
    then show "\<bar>d\<bar> \<le> max_drift ps 0" using max_drift_bounds [of ps 0] by blast
  next
    show "max_drift ps 0 = 0 \<or> (\<exists>p \<in> set ps. \<exists>d. bp_drift p = Some d \<and> max_drift ps 0 = \<bar>d\<bar>)"
      using max_drift_bounds [of ps 0] by blast
  qed
qed

lemma no_series:
  "acc_type acc = Investment \<Longrightarrow> ledgerSeries z own4 db acc f = Some (newSeriesView acc f\<lparr>sr_note := note_investment\<rparr>)"
  "acc_type acc \<noteq> Investment \<Longrightarrow> first_by (\<lambda>t. (txn_date t, txn_id t)) (filter (\<lambda>t. txn_account t = acc_id acc) (txns db)) = None \<Longrightarrow>
    ledgerSeries z own4 db acc f = Some (newSeriesView acc f\<lparr>sr_note := note_no_rows\<rparr>)"
  by (simp_all only: ledgerSeries_def Let_def if_True if_False option.case simp_thms)

lemma series_of_rows:
  fixes z f db acc
  defines "mine \<equiv> filter (\<lambda>t. txn_account t = acc_id acc) (txns db)"
    and "v \<equiv> newSeriesView acc f"
  assumes z: "zone_ok z" and ids: "distinct (map snap_id (snapshots db))"
    and exact: "\<forall>t \<in> set (txns db). \<forall>a. txn_after t = Some a \<longrightarrow> rnd64 (val a) = val a"
    and row: "acc_type acc \<noteq> Investment" "first_by (\<lambda>t. (txn_date t, txn_id t)) mine = Some r"
    and lh: "l \<le> h" "bindex z (sf_step f) (txn_date r) \<le> l"
    and e: "emitted_bounds z f (txn_date r) (txn_date (the (last_by (\<lambda>t. (txn_date t, txn_id t)) mine))) (latestSnapshot db (acc_id acc))
      = (bstart z (sf_step f) l, bstart z (sf_step f) h)"
    and none: "\<And>d n. series_sound z (sf_step f) own4 db acc (v\<lparr>sr_ledger_from := d, sr_note := n\<rparr>)"
      "\<And>d. series_sound z (sf_step f) own4 db acc (v\<lparr>sr_ledger_from := d\<rparr>)"
  shows "\<exists>w. ledgerSeries z own4 db acc f = Some w \<and> series_sound z (sf_step f) own4 db acc w"
proof -
  let ?step = "sf_step f" and ?key = "\<lambda>t. (txn_date t, txn_id t)"
  let ?lf = "txn_date r" and ?anchor = "latestSnapshot db (acc_id acc)" and ?v = "v\<lparr>sr_ledger_from := Some (txn_date r)\<rparr>"
  have r: "r \<in> set mine" using first_by_Some [OF row(2)] by simp
  obtain a b where d: "derived_bounds z f ?lf mine ?anchor (bstart z ?step l, bstart z ?step h) = (bstart z ?step a, bstart z ?step b)"
      "a \<le> l" "h \<le> b" "bindex z ?step ?lf \<le> a"
    by (rule derived_bounds_at [OF z lh(2,1)])
  define rows where "rows = sort_key ?key (filter (\<lambda>t. bstart z ?step a \<le> txn_date t \<and> txn_date t < nextBucketStart z ?step (bstart z ?step b)) mine)"
  define covered where "covered = count_where (\<lambda>t. txn_after t \<noteq> None) rows"
  define order0 where "order0 = fold (fold_row z ?step own4) rows (map new_bucket (map (bstart z ?step) [a..b]))"
  define closed where "closed = (if covered > 0 then Inr (checkRunningBalance z ?step rows None (map covered_close order0))
    else walkFromAnchor z ?step ?anchor order0)"
  define snaps where "snaps = bucket_closes z ?step (filter (\<lambda>r. bp_as_of r < nextBucketStart z ?step (bstart z ?step h))
    (BalanceHistory db (acc_id acc) (Some (bstart z ?step l))))"
  have nlt: "(bstart z ?step h < bstart z ?step l) = False" using lh(1) by (simp add: bstart_order [OF z])
  have run: "ledgerSeries z own4 db acc f =
      (if covered = 0 \<and> ?anchor = None then Some (?v\<lparr>sr_note := note_no_anchor\<rparr>)
       else (case closed of Inl n \<Rightarrow> Some (?v\<lparr>sr_note := n\<rparr>)
         | Inr order \<Rightarrow> (let x = emittedRange order (bstart z ?step l) (bstart z ?step h)
             in if fst x < 0 then Some ?v else Some (emit_series ?v (covered = 0) snaps order (fst x) (snd x)))))"
    unfolding ledgerSeries_def Let_def mine_def [symmetric] v_def [symmetric] row(2) option.case e fst_conv snd_conv d(1) rows_def [symmetric]
      covered_def [symmetric] bucket_loop_eq [OF z] order0_def [symmetric] closed_def [symmetric] snaps_def [symmetric]
    by (simp only: nlt row(1) if_False)
  show ?thesis
  proof (cases closed)
    case (Inl n)
    then have "ledgerSeries z own4 db acc f \<in> {Some (?v\<lparr>sr_note := note_no_anchor\<rparr>), Some (?v\<lparr>sr_note := n\<rparr>)}"
      unfolding run by simp
    then show ?thesis using none(1) by auto
  next
    case (Inr order)
    have o: "length order = length [a..b]" "\<forall>n < length order. fits z ?step own4 rows (a + int n) (order ! n)"
      using order_fits [OF z Inr [unfolded closed_def] order0_def] by auto
    have x: "emittedRange order (bstart z ?step l) (bstart z ?step h) = (l - a, h - a)"
      by (rule emittedRange_at [OF z _ o(1) d(2) lh(1) d(3)]) (use o(2) in \<open>simp add: fits_def\<close>)
    have s: "series_sound z ?step own4 db acc (emit_series ?v (covered = 0) snaps order (l - a) (h - a))"
    proof (rule emitted_sound [OF z ids exact o d(2) lh(1) d(3)])
      show "filter (\<lambda>t. bindex z ?step (txn_date t) = k) rows = rows_in z ?step db acc (bstart z ?step k)"
        if "a \<le> k" "k \<le> b" for k
        unfolding rows_def mine_def by (rule rows_at [OF z that])
      show "snaps (bucketKey (bstart z ?step k)) = map_option snap_balance (reading_in z ?step db acc (bstart z ?step k))"
        if "l \<le> k" "k \<le> h" for k
        unfolding snaps_def by (rule snaps_at [OF z ids that])
      show "\<exists>t \<in> set (txns db). txn_account t = acc_id acc \<and> bindex z ?step (txn_date t) \<le> a"
        using r d(4) by (auto simp: mine_def)
    qed
    have "ledgerSeries z own4 db acc f \<in> {Some (?v\<lparr>sr_note := note_no_anchor\<rparr>), Some (emit_series ?v (covered = 0) snaps order (l - a) (h - a))}"
      unfolding run Inr x using d(2) by (simp add: x)
    then show ?thesis using none(1) s by auto
  qed
qed


section \<open>Examples\<close>

text \<open>A zone whose clocks go forward an hour at two in the morning of day 100.\<close>

definition ex_zone :: zone where
  "ex_zone t = (if t < at_day 99 + 16 * hour_ns then 10 * hour_ns else 11 * hour_ns)"

lemma ex_midnight: "midnight ex_zone d = (if d \<le> 100 then at_day d - 10 * hour_ns else at_day d - 11 * hour_ns)"
  by (auto simp: midnight_def ex_zone_def Let_def at_day_def hour_ns_def day_ns_def second_ns_def)

lemma ex_zone_ok: "zone_ok ex_zone"
  unfolding zone_ok_def
proof (intro conjI allI)
  show "ex_zone t mod second_ns = 0" for t by (simp add: ex_zone_def hour_ns_def second_ns_def)
  show "midnight ex_zone d + ex_zone (midnight ex_zone d) = at_day d" for d
    by (auto simp: ex_midnight ex_zone_def at_day_def hour_ns_def day_ns_def second_ns_def)
  show "midnight ex_zone d \<le> t \<longleftrightarrow> d \<le> local_day ex_zone t" for d t
  proof -
    have "d \<le> local_day ex_zone t \<longleftrightarrow> at_day d \<le> t + ex_zone t"
      by (simp add: local_day_def day_of_def at_day_def day_ns_def hour_ns_def second_ns_def) linarith
    then show ?thesis by (auto simp: ex_midnight ex_zone_def at_day_def hour_ns_def day_ns_def second_ns_def)
  qed
qed

lemma buckets_partition_witness:
  "bucketStart ex_zone StepDay (at_day 100) \<le> at_day 100 \<and>
   at_day 100 < nextBucketStart ex_zone StepDay (bucketStart ex_zone StepDay (at_day 100))"
  using buckets_partition [OF ex_zone_ok, of StepDay "at_day 100" "at_day 100"] by simp


definition ex_read_db :: fin_db where
  "ex_read_db = ex_fin\<lparr>snapshots :=
     [\<lparr>snap_id = 1, snap_account = 1, snap_balance = F64 900, snap_available = None, snap_limit = None, snap_as_of = at_day 99\<rparr>,
      \<lparr>snap_id = 2, snap_account = 1, snap_balance = F64 950, snap_available = None, snap_limit = None, snap_as_of = at_day 101\<rparr>]\<rparr>"

definition ex_days :: "basis \<Rightarrow> series_filter" where
  "ex_days b = \<lparr>sf_account = 1, sf_from = None, sf_to = None, sf_step = StepDay, sf_basis = b\<rparr>"

lemma ex_local: "local_day ex_zone (at_day 99) = 99" "local_day ex_zone (at_day 100) = 100" "local_day ex_zone (at_day 101) = 101"
  by (simp_all add: local_day_def ex_zone_def day_of_def at_day_def day_ns_def hour_ns_def second_ns_def)

lemma ex_readings: "readings_of ex_read_db 1 = snapshots ex_read_db"
  by (simp add: readings_of_def ex_read_db_def reading_key_def at_day_def day_ns_def hour_ns_def second_ns_def less_eq_prod_def)

lemma ex_levels:
  "level_before ex_read_db 1 (midnight ex_zone 100) = Some (snapshots ex_read_db ! 0)"
  "level_before ex_read_db 1 (midnight ex_zone 101) = Some (snapshots ex_read_db ! 0)"
  "level_before ex_read_db 1 (midnight ex_zone 102) = Some (snapshots ex_read_db ! 1)"
  by (simp_all add: level_before_def ex_read_db_def ex_midnight reading_key_def less_eq_prod_def at_day_def hour_ns_def day_ns_def second_ns_def)

lemma snapshot_series_exact_witness:
  "snapshotSeries ex_zone ex_read_db ex_everyday (ex_days BasisSnapshot) =
     Some ((newSeriesView ex_everyday (ex_days BasisSnapshot))\<lparr>sr_points :=
       [raw_point (at_day 99 - 10 * hour_ns) (F64 900), (raw_point (at_day 100 - 10 * hour_ns) (F64 900))\<lparr>bp_carried := True\<rparr>,
        raw_point (at_day 101 - 11 * hour_ns) (F64 950)]\<rparr>)"
proof -
  have d: "distinct (map snap_id (snapshots ex_read_db))" by (simp add: ex_read_db_def)
  have b: "bstart ex_zone StepDay k = midnight ex_zone k" "bindex ex_zone StepDay t = local_day ex_zone t" for k t
    by (simp_all add: bstart_def bucket_first_def bindex_def bucket_no_def)
  have nz: "\<forall>t \<in> set_option (sf_from (ex_days BasisSnapshot)) \<union> snap_as_of ` set (snapshots ex_read_db).
      bucketStart ex_zone (sf_step (ex_days BasisSnapshot)) t \<noteq> zero_time"
    unfolding ex_days_def bucketStart_eq
    by (simp add: ex_read_db_def b ex_local) (simp add: ex_midnight zero_time_def at_day_def hour_ns_def day_ns_def second_ns_def, presburger)
  have l: "[99..101] = [99, 100, 101 :: int]" by (simp add: upto.simps)
  have id: "acc_id ex_everyday = 1" "sf_step (ex_days BasisSnapshot) = StepDay" "sf_from (ex_days BasisSnapshot) = None" "sf_to (ex_days BasisSnapshot) = None"
    by (simp_all add: ex_everyday_def ex_days_def)
  have ex_list: "snapshots ex_read_db = [snapshots ex_read_db ! 0, snapshots ex_read_db ! 1]"
    "snap_as_of (snapshots ex_read_db ! 0) = at_day 99" "snap_as_of (snapshots ex_read_db ! 1) = at_day 101"
    "snap_balance (snapshots ex_read_db ! 0) = F64 900" "snap_balance (snapshots ex_read_db ! 1) = F64 950"
    by (simp_all add: ex_read_db_def)
  have ends: "snapshots ex_read_db \<noteq> []" "hd (snapshots ex_read_db) = snapshots ex_read_db ! 0" "last (snapshots ex_read_db) = snapshots ex_read_db ! 1"
    by (simp_all add: ex_read_db_def)
  show ?thesis
    using snapshot_series_exact [OF ex_zone_ok d nz, of ex_everyday]
    unfolding Let_def id ex_readings b
    by (simp add: ex_list(2-) ends ex_local l ex_levels del: One_nat_def) (simp add: ex_midnight raw_point_def)
qed


end
