(* ===== verification/Access.thy ===== *)
theory Access
  imports Auth
begin

text \<open>
  Who may do what, over time: the grants an administrator gives and revokes
  (\<open>internal/api/admin_grants.go\<close>) and the account endpoints of a signed-in user
  (\<open>internal/api/auth.go\<close>).  The tables are those of \<open>Auth\<close>; an input is what the framework has
  decoded and validated.  Services are configured and the database does not fail.
\<close>

section \<open>The account endpoints\<close>

text \<open>\<open>unicode.IsControl\<close> on UTF-8: the ASCII controls, and the runes from U+0080 to U+009F.\<close>

fun strip_control :: "string \<Rightarrow> string" where
  "strip_control [] = []"
| "strip_control (c # cs) =
     (if (of_char c :: nat) < 32 \<or> (of_char c :: nat) = 127 then strip_control cs
      else case cs of
        [] \<Rightarrow> [c]
      | d # ds \<Rightarrow> if c = CHR 0xC2 \<and> 128 \<le> (of_char d :: nat) \<and> (of_char d :: nat) < 160 then strip_control ds
                  else c # strip_control cs)"

definition sanitizeNickname :: "string \<Rightarrow> string option" where
  "sanitizeNickname raw =
     (let cleaned = trim_space (strip_control raw); n = rune_count cleaned
      in if n < 1 \<or> 40 < n then None else Some cleaned)"

text \<open>A field of a patch: absent, null or a value.\<close>

datatype nullable = Absent | Null | Given string

record update_user =
  uu_country :: "string option"
  uu_nickname :: nullable
  uu_ack :: bool

definition getCurrentUser :: "request_ctx \<Rightarrow> http_error + user" where
  "getCurrentUser ctx =
     (case x_user ctx of None \<Rightarrow> Inl (Http 401 ''not authenticated'') | Some u \<Rightarrow> Inr u)"

definition nickname_error :: http_error where
  "nickname_error = Http 422 ''nickname must be 1-40 characters after trimming and contain no control characters''"

definition profile_of :: "update_user \<Rightarrow> http_error + profile_update" where
  "profile_of inp =
     (let upd = (\<lambda>is_set n. \<lparr>pu_country = uu_country inp, pu_nickname_set = is_set, pu_nickname = n, pu_ack_welcome = uu_ack inp\<rparr>)
      in case uu_nickname inp of
           Absent \<Rightarrow> Inr (upd False None)
         | Null \<Rightarrow> Inr (upd True None)
         | Given raw \<Rightarrow> (case sanitizeNickname raw of None \<Rightarrow> Inl nickname_error | Some clean \<Rightarrow> Inr (upd True (Some clean))))"

definition updateCurrentUser :: "request_ctx \<Rightarrow> update_user \<Rightarrow> auth_db \<Rightarrow> (http_error + user) \<times> auth_db" where
  "updateCurrentUser ctx inp db =
     (case x_user ctx of None \<Rightarrow> (Inl (Http 401 ''not authenticated''), db)
      | Some u \<Rightarrow>
         (case profile_of inp of Inl err \<Rightarrow> (Inl err, db)
          | Inr upd \<Rightarrow>
             (case UpdateProfile u upd db of
                (Inl _, db') \<Rightarrow> (Inl (Http 500 ''failed to update profile''), db')
              | (Inr row, db') \<Rightarrow> (Inr row, db'))))"

definition logout :: "service \<Rightarrow> request_ctx \<Rightarrow> auth_db \<Rightarrow> (http_error + cookie) \<times> auth_db" where
  "logout s ctx db = (Inr (ClearSessionCookie s), RevokeSession (x_token ctx) db)"

definition logoutAll :: "service \<Rightarrow> request_ctx \<Rightarrow> auth_db \<Rightarrow> (http_error + cookie) \<times> auth_db" where
  "logoutAll s ctx db =
     (case x_user ctx of None \<Rightarrow> (Inl (Http 401 ''not authenticated''), db)
      | Some u \<Rightarrow> (Inr (ClearSessionCookie s), RevokeAllForUser (u_id u) db))"

definition deleteAccount :: "service \<Rightarrow> request_ctx \<Rightarrow> auth_db \<Rightarrow> (http_error + cookie) \<times> auth_db" where
  "deleteAccount s ctx db =
     (case x_user ctx of None \<Rightarrow> (Inl (Http 401 ''not authenticated''), db)
      | Some u \<Rightarrow>
          if IsSoleAdmin u db then (Inl (Http 409 ''the sole admin cannot delete their own account''), db)
          else (case DeleteUser (u_id u) db of
                  (Inl _, db') \<Rightarrow> (Inl (Http 500 ''could not delete account''), db')
                | (Inr _, db') \<Rightarrow> (Inr (ClearSessionCookie s), db')))"

section \<open>Grants\<close>

definition listGrants :: "request_ctx \<Rightarrow> auth_db \<Rightarrow> http_error + grant list" where
  "listGrants ctx db =
     (case requireAdmin ctx of Inl err \<Rightarrow> Inl err | Inr _ \<Rightarrow> Inr (sort_key g_email (b_grants db)))"

definition put_grant :: "string \<Rightarrow> tier \<Rightarrow> grant list \<Rightarrow> grant list" where
  "put_grant email t gs =
     (if email \<in> g_email ` set gs then update_where (\<lambda>g. g_email g = email) (\<lambda>g. g\<lparr>g_tier := t\<rparr>) gs
      else gs @ [\<lparr>g_email = email, g_tier = t\<rparr>])"

definition createGrant :: "service \<Rightarrow> request_ctx \<Rightarrow> string \<Rightarrow> tier \<Rightarrow> auth_db \<Rightarrow> (http_error + grant) \<times> auth_db" where
  "createGrant s ctx address t db =
     (case requireAdmin ctx of Inl err \<Rightarrow> (Inl err, db)
      | Inr _ \<Rightarrow>
          (let email = to_lower (trim_space address)
           in if email = '''' then (Inl (Http 422 ''email is required''), db)
              else (Inr \<lparr>g_email = email, g_tier = t\<rparr>,
                    RecomputeUserRole s email (db\<lparr>b_grants := put_grant email t (b_grants db)\<rparr>))))"

definition deleteGrant :: "service \<Rightarrow> request_ctx \<Rightarrow> string \<Rightarrow> auth_db \<Rightarrow> http_error option \<times> auth_db" where
  "deleteGrant s ctx address db =
     (case requireAdmin ctx of Inl err \<Rightarrow> (Some err, db)
      | Inr _ \<Rightarrow>
          (let email = to_lower (trim_space address)
           in if email \<notin> g_email ` set (b_grants db) then (Some (Http 404 ''access grant not found''), db)
              else (None, RecomputeUserRole s email (db\<lparr>b_grants := filter (\<lambda>g. g_email g \<noteq> email) (b_grants db)\<rparr>))))"

section \<open>Roles over time\<close>

text \<open>A sign-in keeps the stored address when the one it comes with belongs to another user.  The ids of such
  users are remembered beside the tables: their stored address is not the one their role was taken from.\<close>

type_synonym access = "auth_db \<times> nat set"

definition address_kept :: "google_claims \<Rightarrow> auth_error + user \<Rightarrow> nat set \<Rightarrow> nat set" where
  "address_kept c res ids =
     (case res of Inl _ \<Rightarrow> ids | Inr u \<Rightarrow> if u_email u = gc_email c then ids - {u_id u} else insert (u_id u) ids)"

inductive access_step :: "service \<Rightarrow> access \<Rightarrow> access \<Rightarrow> bool" where
  signs_in: "normalizeEmail (gc_email c) = to_lower (gc_email c) \<Longrightarrow>
    access_step s (db, ids) (snd (upsertUser s c db), address_kept c (fst (upsertUser s c db)) ids)"
| grants: "access_step s (db, ids) (snd (createGrant s ctx address t db), ids)"
| revokes: "access_step s (db, ids) (snd (deleteGrant s ctx address db), ids)"
| edits: "x_user ctx = Some u \<Longrightarrow> access_step s (db, ids) (snd (updateCurrentUser ctx inp db), ids)"
| leaves: "access_step s (db, ids) (snd (deleteAccount s ctx db), ids)"
| sessions: "b_users db' = b_users db \<Longrightarrow> b_grants db' = b_grants db \<Longrightarrow> access_step s (db, ids) (db', ids)"

inductive access_reachable :: "service \<Rightarrow> access \<Rightarrow> bool" for s where
  start: "b_users db = [] \<Longrightarrow> access_reachable s (db, {})"
| step: "access_reachable s A \<Longrightarrow> access_step s A A' \<Longrightarrow> access_reachable s A'"

definition roles_ok :: "service \<Rightarrow> access \<Rightarrow> bool" where
  "roles_ok s A \<longleftrightarrow>
     distinct (map u_id (b_users (fst A))) \<and>
     (\<forall>u \<in> set (b_users (fst A)). normalizeEmail (u_email u) = to_lower (u_email u) \<and>
        (u_id u \<notin> snd A \<longrightarrow> u_role u = roleFor s (fst A) (u_email u)))"

lemma roles_okD:
  assumes "roles_ok s (db, ids)"
  shows "distinct (map u_id (b_users db))" "u \<in> set (b_users db) \<Longrightarrow> normalizeEmail (u_email u) = to_lower (u_email u)"
    "u \<in> set (b_users db) \<Longrightarrow> u_id u \<notin> ids \<Longrightarrow> u_role u = roleFor s db (u_email u)"
  using assms by (auto simp: roles_ok_def)

text \<open>Lowering and trimming do not disturb each other.\<close>

lemma space_lower [simp]: "is_space (lower_char c) = is_space c"
proof (cases "65 \<le> (of_char c :: nat) \<and> (of_char c :: nat) \<le> 90")
  case True
  have "(of_char (char_of ((of_char c :: nat) + 32)) :: nat) = of_char c + 32" using True by simp
  then show ?thesis using True by (auto simp: lower_char_def is_space_def)
qed (auto simp: lower_char_def)

lemma trim_lower: "trim_space (to_lower s) = to_lower (trim_space s)"
  by (simp add: trim_space_def trim_right_def to_lower_def rev_map dropWhile_map comp_def)

lemma trim_right_trimmed: "trim_right (trim_right s) = trim_right s"
  by (simp add: trim_right_def)

lemma drop_trim_right:
  assumes "dropWhile is_space s = s"
  shows "dropWhile is_space (trim_right s) = trim_right s"
proof (cases s)
  case (Cons c cs)
  have "s = [] \<or> \<not> is_space (hd s)" using assms by (simp add: dropWhile_eq_self_iff)
  then have c: "\<not> is_space c" using Cons by simp
  then have "trim_right (c # cs) = c # trim_right cs"
    by (auto simp: trim_right_def dropWhile_append)
  then show ?thesis using c Cons by simp
qed (simp add: trim_right_def)

lemma trim_trimmed [simp]: "trim_space (trim_space s) = trim_space s"
  by (simp add: trim_space_def drop_trim_right trim_right_trimmed)

lemma normal_normal [simp]: "normalizeEmail (normalizeEmail e) = normalizeEmail e" "to_lower (normalizeEmail e) = normalizeEmail e"
  by (simp_all add: normalizeEmail_def trim_lower)

lemma roleFor_normal: "roleFor s db (normalizeEmail e) = roleFor s db e"
  by (simp add: roleFor_def Let_def)

lemma roleFor_grants: "b_grants db' = b_grants db \<Longrightarrow> roleFor s db' e = roleFor s db e"
  by (simp add: roleFor_def dbGrantTier_def Let_def)

text \<open>A recomputation after a change of the grants for one address brings every stored address in step.\<close>

lemma recomputed_ok:
  assumes ok: "roles_ok s (db, ids)" and e: "e = normalizeEmail address"
    and other: "\<And>x. x \<noteq> e \<Longrightarrow> find (\<lambda>g. g_email g = x) gs = find (\<lambda>g. g_email g = x) (b_grants db)"
  shows "roles_ok s (RecomputeUserRole s e (db\<lparr>b_grants := gs\<rparr>), ids)"
proof -
  note d = roles_okD [OF ok]
  let ?db = "db\<lparr>b_grants := gs\<rparr>"
  let ?f = "\<lambda>u. if to_lower (u_email u) = e then u\<lparr>u_role := roleFor s ?db e\<rparr> else u"
  have users: "b_users (RecomputeUserRole s e ?db) = map ?f (b_users db)"
    by (simp add: RecomputeUserRole_def Let_def update_where_def e)
  have role: "roleFor s (RecomputeUserRole s e ?db) x = roleFor s ?db x" for x
    by (rule roleFor_grants) (simp add: RecomputeUserRole_def Let_def)
  have kept: "roleFor s ?db x = roleFor s db x" if "normalizeEmail x \<noteq> e" for x
    using that by (simp add: roleFor_def dbGrantTier_def other Let_def)
  have "normalizeEmail (u_email (?f u)) = to_lower (u_email (?f u)) \<and> (u_id (?f u) \<notin> ids \<longrightarrow> u_role (?f u) = roleFor s ?db (u_email (?f u)))"
    if u: "u \<in> set (b_users db)" for u
  proof (cases "to_lower (u_email u) = e")
    case True
    then have "roleFor s ?db e = roleFor s ?db (u_email u)" using d(2) [OF u] by (metis roleFor_normal)
    then show ?thesis using True d(2) [OF u] by simp
  next
    case False
    then show ?thesis using d(2,3) [OF u] kept [of "u_email u"] by simp
  qed
  note row = this
  have ids: "map u_id (map ?f (b_users db)) = map u_id (b_users db)" by simp
  show ?thesis unfolding roles_ok_def fst_conv snd_conv users role ids
  proof (intro conjI ballI d(1))
    fix v assume "v \<in> set (map ?f (b_users db))"
    then obtain u where u: "u \<in> set (b_users db)" "v = ?f u" by (auto simp only: set_map)
    show "normalizeEmail (u_email v) = to_lower (u_email v)" "u_id v \<notin> ids \<longrightarrow> u_role v = roleFor s ?db (u_email v)"
      using row [OF u(1)] unfolding u(2) by blast+
  qed
qed

lemma put_grant_other: "x \<noteq> e \<Longrightarrow> find (\<lambda>g. g_email g = x) (put_grant e t gs) = find (\<lambda>g. g_email g = x) gs"
proof -
  assume x: "x \<noteq> e"
  have "find (\<lambda>g. g_email g = x) (update_where (\<lambda>g. g_email g = e) (\<lambda>g. g\<lparr>g_tier := t\<rparr>) gs) = find (\<lambda>g. g_email g = x) gs"
    using x by (induction gs) (auto simp: update_where_def)
  moreover have "find (\<lambda>g. g_email g = x) (gs @ [\<lparr>g_email = e, g_tier = t\<rparr>]) = find (\<lambda>g. g_email g = x) gs"
    using x by (induction gs) auto
  ultimately show ?thesis by (simp add: put_grant_def)
qed

lemma drop_grant_other: "x \<noteq> e \<Longrightarrow> find (\<lambda>g. g_email g = x) (filter (\<lambda>g. g_email g \<noteq> e) gs) = find (\<lambda>g. g_email g = x) gs"
  by (induction gs) auto


lemma signed_in_ok:
  assumes ok: "roles_ok s (db, ids)" and plain: "normalizeEmail (gc_email c) = to_lower (gc_email c)"
  shows "roles_ok s (snd (upsertUser s c db), address_kept c (fst (upsertUser s c db)) ids)"
proof -
  note d = roles_okD [OF ok]
  let ?r = "roleFor s db (gc_email c)"
  show ?thesis
  proof (cases "find (is_login c) (b_identities db)")
    case None
    then have up: "upsertUser s c db = first_login ?r c db" by (simp add: upsertUser_def Let_def)
    show ?thesis
    proof (cases rule: first_login_cases [of ?r c db])
      case (1 e)
      then show ?thesis using ok by (simp add: up address_kept_def)
    next
      case (2 u i)
      let ?db = "db\<lparr>b_users := b_users db @ [u], b_identities := b_identities db @ [i]\<rparr>"
      have role: "roleFor s ?db x = roleFor s db x" for x by (rule roleFor_grants) simp
      have "\<forall>x \<in> set (b_users db). u_id x \<noteq> u_id u" using fresh_id_new [of "map u_id (b_users db)"] 2(2) by (metis imageI list.set_map)
      then show ?thesis using 2(1,3,4,6) d plain
        unfolding roles_ok_def up fst_conv snd_conv 2(6) role by (auto simp: address_kept_def)
    qed
  next
    case (Some i)
    show ?thesis
    proof (cases "user_by_id db (i_owner i)")
      case None
      then show ?thesis using ok Some by (simp add: upsertUser_def Let_def address_kept_def)
    next
      case owner: (Some u0)
      then have up: "upsertUser s c db = refresh_login ?r c i u0 db" using Some by (simp add: upsertUser_def Let_def)
      have u0: "u0 \<in> set (b_users db)" using owner by (auto simp: user_by_id_def dest: find_SomeD)
      show ?thesis
      proof (cases rule: refresh_login_cases [of ?r c i u0 db])
        case 1
        then show ?thesis using ok by (simp add: up address_kept_def)
      next
        case (2 u)
        have u: "u_id u = u_id u0" "u_role u = ?r" "u_email u = gc_email c \<or> u_email u = u_email u0"
          by (simp_all add: 2(1) refreshed_def Let_def)
        then have mail: "normalizeEmail (u_email u) = to_lower (u_email u)" using plain d(2) [OF u0] by auto
        have grants: "b_grants (snd (refresh_login ?r c i u0 db)) = b_grants db" by (simp add: refresh_login_def Let_def)
        have ids: "map u_id (b_users (snd (refresh_login ?r c i u0 db))) = map u_id (b_users db)"
          unfolding 2(3) by (rule map_update_where) (simp add: u)
        show ?thesis
          unfolding roles_ok_def fst_conv snd_conv up ids
        proof (intro conjI ballI impI)
          fix x assume "x \<in> set (b_users (snd (refresh_login ?r c i u0 db)))"
          then consider "x = u" | "x \<in> set (b_users db)" "u_id x \<noteq> u_id u" unfolding 2(3) u(1) by (auto simp: update_where_def split: if_splits)
          note cs = this
          show "normalizeEmail (u_email x) = to_lower (u_email x)" using cs mail d(2) by cases auto
          assume out: "u_id x \<notin> address_kept c (fst (refresh_login ?r c i u0 db)) ids"
          show "u_role x = roleFor s (snd (refresh_login ?r c i u0 db)) (u_email x)"
            using cs
          proof cases
            case 1
            then show ?thesis using out u(2) roleFor_grants [OF grants] by (auto simp: address_kept_def 2(2) split: if_splits)
          next
            case x: 2
            then show ?thesis using out d(3) [OF x(1)] roleFor_grants [OF grants] by (auto simp: address_kept_def 2(2) split: if_splits)
          qed
        qed (rule d(1))
      qed
    qed
  qed
qed

lemma profile_kept:
  assumes "roles_ok s (db, ids)"
  shows "roles_ok s (snd (UpdateProfile u upd db), ids)"
proof (cases "snd (UpdateProfile u upd db) = db")
  case False
  then obtain row where row: "user_by_id db (u_id u) = Some row"
    "snd (UpdateProfile u upd db) = db\<lparr>b_users := update_where (\<lambda>x. u_id x = u_id u) (\<lambda>_. profiled upd (u_role u) row) (b_users db)\<rparr>"
    by (auto simp: UpdateProfile_def Let_def split: if_splits option.splits)
  let ?p = "profiled upd (u_role u) row"
  have r: "row \<in> set (b_users db)" "u_id row = u_id u" using row(1) by (auto simp: user_by_id_def dest: find_SomeD)
  have p: "u_id ?p = u_id u" "u_email ?p = u_email row" "u_role ?p = u_role row" using r(2) by (simp_all add: profiled_def Let_def split: option.split)
  have ids: "map u_id (update_where (\<lambda>x. u_id x = u_id u) (\<lambda>_. ?p) (b_users db)) = map u_id (b_users db)" by (rule map_update_where) (simp add: p)
  have role: "roleFor s (db\<lparr>b_users := us\<rparr>) x = roleFor s db x" for us x by (rule roleFor_grants) simp
  show ?thesis using roles_okD [OF assms] r p unfolding row(2) roles_ok_def fst_conv snd_conv role
    by (auto simp: ids) (auto simp: update_where_def split: if_splits)
qed (use assms in simp)

lemma deleted_kept:
  assumes "roles_ok s (db, ids)"
  shows "roles_ok s (snd (DeleteUser i db), ids)"
proof -
  have "b_grants (snd (DeleteUser i db)) = b_grants db" "b_users (snd (DeleteUser i db)) = b_users db \<or>
      b_users (snd (DeleteUser i db)) = filter (\<lambda>u. u_id u \<noteq> i) (b_users db)"
    by (auto simp: DeleteUser_def)
  note grants = this(1) and users = this(2)
  have "set (b_users (snd (DeleteUser i db))) \<subseteq> set (b_users db)" "distinct (map u_id (b_users (snd (DeleteUser i db))))"
    using users roles_okD(1) [OF assms] by (auto intro: distinct_map_filter)
  then show ?thesis using roles_okD(2,3) [OF assms] unfolding roles_ok_def fst_conv snd_conv roleFor_grants [OF grants] by blast
qed

lemma access_step_ok:
  assumes "access_step s A A'" "roles_ok s A"
  shows "roles_ok s A'"
  using assms
proof cases
  case (signs_in c db ids)
  then show ?thesis using assms(2) by (simp add: signed_in_ok)
next
  case (grants db ids ctx address t)
  have "snd (createGrant s ctx address t db) = db \<or> snd (createGrant s ctx address t db) =
      RecomputeUserRole s (normalizeEmail address) (db\<lparr>b_grants := put_grant (normalizeEmail address) t (b_grants db)\<rparr>)"
    by (simp add: createGrant_def Let_def normalizeEmail_def split: sum.split)
  moreover have "roles_ok s (RecomputeUserRole s (normalizeEmail address) (db\<lparr>b_grants := put_grant (normalizeEmail address) t (b_grants db)\<rparr>), ids)"
    by (rule recomputed_ok [OF _ refl]) (use grants assms(2) in \<open>simp_all add: put_grant_other\<close>)
  ultimately show ?thesis using grants assms(2) by auto
next
  case (revokes db ids ctx address)
  have "snd (deleteGrant s ctx address db) = db \<or> snd (deleteGrant s ctx address db) =
      RecomputeUserRole s (normalizeEmail address) (db\<lparr>b_grants := filter (\<lambda>g. g_email g \<noteq> normalizeEmail address) (b_grants db)\<rparr>)"
    by (simp add: deleteGrant_def Let_def normalizeEmail_def split: sum.split)
  moreover have "roles_ok s (RecomputeUserRole s (normalizeEmail address)
      (db\<lparr>b_grants := filter (\<lambda>g. g_email g \<noteq> normalizeEmail address) (b_grants db)\<rparr>), ids)"
    by (rule recomputed_ok [OF _ refl]) (use revokes assms(2) in \<open>simp_all add: drop_grant_other\<close>)
  ultimately show ?thesis using revokes assms(2) by auto
next
  case (edits ctx u db ids inp)
  have "snd (updateCurrentUser ctx inp db) = db \<or> (\<exists>upd. snd (updateCurrentUser ctx inp db) = snd (UpdateProfile u upd db))"
  proof (cases "profile_of inp")
    case (Inr upd)
    then have "snd (updateCurrentUser ctx inp db) = snd (UpdateProfile u upd db)"
      by (simp add: updateCurrentUser_def edits split: sum.split prod.split)
    then show ?thesis by blast
  qed (simp add: updateCurrentUser_def edits)
  then show ?thesis using assms(2) profile_kept [of s db ids] unfolding edits by (elim disjE exE) simp_all
next
  case (leaves db ids ctx)
  have "snd (deleteAccount s ctx db) = db \<or> (\<exists>i. snd (deleteAccount s ctx db) = snd (DeleteUser i db))"
  proof (cases "x_user ctx")
    case (Some u)
    then have "snd (deleteAccount s ctx db) = db \<or> snd (deleteAccount s ctx db) = snd (DeleteUser (u_id u) db)"
      by (simp add: deleteAccount_def split: sum.split prod.split)
    then show ?thesis by blast
  qed (simp add: deleteAccount_def)
  then show ?thesis using assms(2) deleted_kept [of s db ids] unfolding leaves by (elim disjE exE) simp_all
next
  case (sessions db' db ids)
  have "roleFor s db' x = roleFor s db x" for x by (rule roleFor_grants) (rule sessions)
  then show ?thesis using assms(2) sessions(3) unfolding sessions(1,2) roles_ok_def fst_conv snd_conv by simp
qed

lemma reachable_roles: "access_reachable s A \<Longrightarrow> roles_ok s A"
proof (induction rule: access_reachable.induct)
  case (start db)
  then show ?case by (simp add: roles_ok_def)
qed (rule access_step_ok)


lemma put_grant_found:
  "\<exists>g. find (\<lambda>g. g_email g = e) (put_grant e t gs) = Some g \<and> g_tier g = t"
proof (cases "e \<in> g_email ` set gs")
  case True
  then have "\<exists>g. find (\<lambda>g. g_email g = e) (update_where (\<lambda>g. g_email g = e) (\<lambda>g. g\<lparr>g_tier := t\<rparr>) gs) = Some g \<and> g_tier g = t"
    by (induction gs) (auto simp: update_where_def)
  then show ?thesis using True by (simp add: put_grant_def)
next
  case False
  then have "find (\<lambda>g. g_email g = e) (gs @ [\<lparr>g_email = e, g_tier = t\<rparr>]) = Some \<lparr>g_email = e, g_tier = t\<rparr>"
    by (induction gs) auto
  then show ?thesis using False by (simp add: put_grant_def)
qed

lemma recomputed_grants [simp]: "b_grants (RecomputeUserRole s e db) = b_grants db"
  by (simp add: RecomputeUserRole_def Let_def)

lemma granted_tier:
  assumes "createGrant s ctx address t db = (Inr g, db')"
  shows "dbGrantTier db' (normalizeEmail address) = (case t of TierAdmin \<Rightarrow> Admin | TierFriend \<Rightarrow> Friend)"
proof -
  have e: "normalizeEmail address \<noteq> ''''" "b_grants db' = put_grant (normalizeEmail address) t (b_grants db)"
    using assms by (auto simp: createGrant_def Let_def normalizeEmail_def split: sum.splits if_splits)
  then show ?thesis using put_grant_found [of "normalizeEmail address" t "b_grants db"] by (auto simp: dbGrantTier_def)
qed

lemma revoked_tier:
  assumes "deleteGrant s ctx address db = (None, db')"
  shows "dbGrantTier db' (normalizeEmail address) = Member"
proof -
  have "b_grants db' = filter (\<lambda>g. g_email g \<noteq> normalizeEmail address) (b_grants db)"
    using assms by (auto simp: deleteGrant_def Let_def normalizeEmail_def split: sum.splits if_splits)
  then have "find (\<lambda>g. g_email g = normalizeEmail address) (b_grants db') = None" by (simp add: find_None_iff)
  then show ?thesis by (simp add: dbGrantTier_def)
qed

lemma role_of_state:
  assumes "roles_ok s (db, ids)" "u \<in> set (b_users db)" "u_id u \<notin> ids"
  shows "u_role u = max (envTier s (normalizeEmail (u_email u))) (dbGrantTier db (normalizeEmail (u_email u)))"
  using roles_okD(3) [OF assms] by (simp add: roleFor_def maxRole_max Let_def)

lemma role_after:
  assumes "roles_ok s (db', ids)" "v \<in> set (b_users db')" "u_id v \<notin> ids" "to_lower (u_email v) = normalizeEmail address"
  shows "u_role v = max (envTier s (normalizeEmail address)) (dbGrantTier db' (normalizeEmail address))"
  using role_of_state [OF assms(1-3)] roles_okD(2) [OF assms(1,2)] assms(4) by simp

text \<open>C38: the tier a request is gated on is the one its owner has now.  In every state that sign-ins, grants,
  revocations, profile edits, account deletions and changes of sessions lead to from an empty user table, a user
  whose stored address is the one it last signed in with has exactly the greater of the allowlist tier and
  the granted tier of that address; a grant that is answered with success gives its holder that tier at once
  (or the allowlist's, if that is higher), and a revocation takes it away at once.\<close>

theorem role_in_sync:
  assumes "access_reachable s (db, ids)"
  shows "(u \<in> set (b_users db) \<and> u_id u \<notin> ids \<longrightarrow>
      u_role u = max (envTier s (normalizeEmail (u_email u))) (dbGrantTier db (normalizeEmail (u_email u)))) \<and>
    (createGrant s ctx address t db = (Inr g, db') \<and> v \<in> set (b_users db') \<and> u_id v \<notin> ids \<and>
      to_lower (u_email v) = normalizeEmail address \<longrightarrow>
      u_role v = max (envTier s (normalizeEmail address)) (case t of TierAdmin \<Rightarrow> Admin | TierFriend \<Rightarrow> Friend)) \<and>
    (deleteGrant s ctx address db = (None, db') \<and> v \<in> set (b_users db') \<and> u_id v \<notin> ids \<and>
      to_lower (u_email v) = normalizeEmail address \<longrightarrow>
      u_role v = envTier s (normalizeEmail address))"
proof (intro conjI impI; (elim conjE)?)
  note ok = reachable_roles [OF assms]
  show "u_role u = max (envTier s (normalizeEmail (u_email u))) (dbGrantTier db (normalizeEmail (u_email u)))"
    if "u \<in> set (b_users db)" "u_id u \<notin> ids" by (rule role_of_state [OF ok that])
  show "u_role v = max (envTier s (normalizeEmail address)) (case t of TierAdmin \<Rightarrow> Admin | TierFriend \<Rightarrow> Friend)"
    if c: "createGrant s ctx address t db = (Inr g, db')" and v: "v \<in> set (b_users db')" "u_id v \<notin> ids"
      "to_lower (u_email v) = normalizeEmail address"
  proof -
    have "roles_ok s (db', ids)" using access_step_ok [OF access_step.grants ok, of ctx address t] c by simp
    from role_after [OF this v] granted_tier [OF c] show ?thesis by simp
  qed
  show "u_role v = envTier s (normalizeEmail address)"
    if c: "deleteGrant s ctx address db = (None, db')" and v: "v \<in> set (b_users db')" "u_id v \<notin> ids"
      "to_lower (u_email v) = normalizeEmail address"
  proof -
    have "roles_ok s (db', ids)" using access_step_ok [OF access_step.revokes ok, of ctx address] c by simp
    from role_after [OF this v] revoked_tier [OF c] show ?thesis by (simp add: max.absorb1)
  qed
qed

section \<open>Witnesses\<close>

definition ex_admin_ctx :: request_ctx where
  "ex_admin_ctx = no_ctx\<lparr>x_user := Some (ex_user 1 ''a@x.org'' Admin)\<rparr>"

definition ex_no_users :: auth_db where
  "ex_no_users = ex_auth\<lparr>b_users := [], b_identities := []\<rparr>"

definition ex_joined :: auth_db where
  "ex_joined = snd (upsertUser ex_service (ex_claims ''sub-3'' ''c@x.org'') ex_no_users)"

lemma ex_emails: "normalizeEmail ''c@x.org'' = ''c@x.org''" "to_lower ''c@x.org'' = ''c@x.org''"
  "normalizeEmail '' A@x.org'' = ''a@x.org''"
  by code_simp+

lemma ex_granted_roles: "roleFor ex_service ex_no_users ''c@x.org'' = Friend" "envTier ex_service ''c@x.org'' = Member"
  using ex_roles(2)
  by (simp_all add: roleFor_def dbGrantTier_def ex_no_users_def ex_auth_def envTier_def ex_service_def New_def email_set_def
      ex_emails maxRole_def Let_def)

lemma ex_joined_row: "ex_joined = ex_no_users\<lparr>b_users := [(ex_user 1 ''c@x.org'' Friend)\<lparr>u_name := ''N''\<rparr>],
    b_identities := [\<lparr>i_id = 1, i_provider = ''google'', i_sub = ''sub-3'', i_email = ''c@x.org'', i_owner = 1\<rparr>]\<rparr>"
  "fst (upsertUser ex_service (ex_claims ''sub-3'' ''c@x.org'') ex_no_users) = Inr ((ex_user 1 ''c@x.org'' Friend)\<lparr>u_name := ''N''\<rparr>)"
  using ex_granted_roles(1)
  by (simp_all add: ex_joined_def upsertUser_def first_login_def ex_no_users_def ex_auth_defs fresh_id_def Let_def)

lemma ex_joined_reachable: "access_reachable ex_service (ex_joined, {})"
proof -
  let ?c = "ex_claims ''sub-3'' ''c@x.org''"
  have "access_step ex_service (ex_no_users, {})
      (snd (upsertUser ex_service ?c ex_no_users), address_kept ?c (fst (upsertUser ex_service ?c ex_no_users)) {})"
    by (rule access_step.signs_in) (simp add: ex_claims_def ex_emails)
  moreover have "address_kept ?c (fst (upsertUser ex_service ?c ex_no_users)) {} = {}"
    unfolding address_kept_def ex_joined_row(2) by (simp add: ex_claims_def ex_user_def)
  ultimately have "access_step ex_service (ex_no_users, {}) (ex_joined, {})" by (simp add: ex_joined_def)
  with access_reachable.start [of ex_no_users ex_service] show ?thesis by (rule access_reachable.step) (simp add: ex_no_users_def)
qed

definition ex_promoted :: auth_db where
  "ex_promoted = snd (createGrant ex_service ex_admin_ctx ''c@x.org'' TierAdmin ex_joined)"

lemma ex_promotion:
  "createGrant ex_service ex_admin_ctx ''c@x.org'' TierAdmin ex_joined = (Inr \<lparr>g_email = ''c@x.org'', g_tier = TierAdmin\<rparr>, ex_promoted)"
  "\<exists>r. b_users ex_promoted = [(ex_user 1 ''c@x.org'' r)\<lparr>u_name := ''N''\<rparr>]"
  using ex_emails
  by (simp_all add: ex_promoted_def createGrant_def requireAdmin_def ex_admin_ctx_def ex_user_def normalizeEmail_def
      RecomputeUserRole_def update_where_def ex_joined_row(1) ex_no_users_def Let_def)

theorem role_in_sync_witness:
  "access_reachable ex_service (ex_joined, {}) \<and> u_role (hd (b_users ex_joined)) = Friend \<and>
   u_role (hd (b_users ex_promoted)) = Admin"
proof -
  note sync = role_in_sync [OF ex_joined_reachable, where ctx = ex_admin_ctx and address = "''c@x.org''"]
  have "u_role (hd (b_users ex_joined)) = max (envTier ex_service ''c@x.org'') (dbGrantTier ex_joined ''c@x.org'')"
    using sync [where u = "hd (b_users ex_joined)"] by (simp add: ex_joined_row(1) ex_user_def ex_emails)
  moreover have "dbGrantTier ex_joined ''c@x.org'' = Friend"
    by (simp add: dbGrantTier_def ex_joined_row(1) ex_no_users_def ex_auth_def)
  moreover obtain r where r: "b_users ex_promoted = [(ex_user 1 ''c@x.org'' r)\<lparr>u_name := ''N''\<rparr>]"
    using ex_promotion(2) by blast
  have "u_role (hd (b_users ex_promoted)) = max (envTier ex_service ''c@x.org'') Admin"
    using sync [where v = "hd (b_users ex_promoted)" and db' = ex_promoted and t = TierAdmin] ex_promotion(1)
    by (simp add: r ex_user_def ex_emails)
  ultimately show ?thesis using ex_joined_reachable by (simp add: ex_granted_roles(2) max_def less_eq_role_def)
qed

text \<open>A grant whose address is stored for nobody: user 1 signs in with the granted address of user 2, keeps its own
  stored address and is an administrator; the revocation leaves it one.\<close>

definition ex_floorless :: service where
  "ex_floorless = ex_service\<lparr>v_admin_emails := []\<rparr>"

definition ex_lent :: auth_db where
  "ex_lent = ex_auth\<lparr>b_grants := [\<lparr>g_email = ''b@x.org'', g_tier = TierAdmin\<rparr>]\<rparr>"

definition ex_revoked :: auth_db where
  "ex_revoked = snd (deleteGrant ex_floorless ex_admin_ctx ''b@x.org''
     (snd (upsertUser ex_floorless (ex_claims ''sub-1'' ''b@x.org'') ex_lent)))"

lemma revoked_grant_survives:
  "\<exists>u. user_by_id ex_revoked 1 = Some u \<and> u_role u = Admin \<and> b_grants ex_revoked = [] \<and>
     roleFor ex_floorless ex_revoked (u_email u) = Member \<and> roleFor ex_floorless ex_revoked ''b@x.org'' = Member"
proof -
  have n: "normalizeEmail ''b@x.org'' = ''b@x.org''" "normalizeEmail ''a@x.org'' = ''a@x.org''"
    "to_lower ''b@x.org'' = ''b@x.org''" "to_lower ''a@x.org'' = ''a@x.org''" by code_simp+
  have tier: "roleFor ex_floorless ex_lent ''b@x.org'' = Admin"
    by (simp add: roleFor_def n dbGrantTier_def ex_lent_def envTier_def ex_floorless_def ex_service_def New_def email_set_def
        maxRole_def Let_def)
  let ?db = "snd (upsertUser ex_floorless (ex_claims ''sub-1'' ''b@x.org'') ex_lent)"
  have up: "b_users ?db = [(ex_user 1 ''a@x.org'' Admin)\<lparr>u_name := ''N''\<rparr>, ex_user 2 ''b@x.org'' Member]"
    "b_grants ?db = b_grants ex_lent"
    using tier by (simp_all add: upsertUser_def refresh_login_def refreshed_def is_login_def user_by_id_def update_where_def
        ex_lent_def ex_auth_defs Let_def)
  have gs: "b_grants ex_revoked = []"
    using up n by (simp add: ex_revoked_def deleteGrant_def requireAdmin_def ex_admin_ctx_def ex_user_def normalizeEmail_def
        ex_lent_def Let_def)
  then have "roleFor ex_floorless ex_revoked x = Member" for x
    by (simp add: roleFor_def dbGrantTier_def envTier_def ex_floorless_def ex_service_def New_def email_set_def maxRole_def Let_def)
  moreover have "user_by_id ex_revoked 1 = Some ((ex_user 1 ''a@x.org'' Admin)\<lparr>u_name := ''N''\<rparr>)"
    using up n by (simp add: ex_revoked_def deleteGrant_def requireAdmin_def ex_admin_ctx_def ex_user_def normalizeEmail_def
        ex_lent_def RecomputeUserRole_def update_where_def user_by_id_def Let_def)
  ultimately show ?thesis using gs by (simp add: ex_user_def)
qed

end
