(* ===== verification/AdminBills.thy ===== *)
theory AdminBills
  imports Bills Wishlist
begin

text \<open>
  The management of recurring bills: the six handlers of \<open>internal/api/admin_finance_bills.go\<close> over the
  bills, their payment links and the ledger.  An input is what the framework has decoded and validated:
  an enum is a value of its datatype, an omitted field is \<open>None\<close>.  The schema's validators count bytes
  and refuse a write before the database sees it; then come the missing row and the constraints.  The
  database is configured (without one every handler answers 503) and does not fail otherwise.
\<close>

section \<open>State and inputs\<close>

record bills_db =
  bd_fin :: fin_db
  bd_bills :: "bill list"
  bd_pays :: "payment list"

record create_bill =
  cb_name :: string
  cb_payee :: string
  cb_amount :: float64
  cb_currency :: string
  cb_cadence :: "cadence option"
  cb_anchor :: string
  cb_variable :: bool
  cb_tolerance :: "float64 option"
  cb_pattern :: string
  cb_window :: "int option"
  cb_status :: "bill_status option"
  cb_ended :: string
  cb_notes :: string
  cb_account :: "nat option"

record update_bill =
  ub_name :: "string option"
  ub_payee :: "string option"
  ub_amount :: "float64 option"
  ub_currency :: "string option"
  ub_cadence :: "cadence option"
  ub_anchor :: "string option"
  ub_variable :: "bool option"
  ub_tolerance :: "float64 option"
  ub_pattern :: "string option"
  ub_window :: "int option"
  ub_status :: "bill_status option"
  ub_ended :: "string option"
  ub_notes :: "string option"
  ub_account :: "nat option"

definition parseBillDate :: "string \<Rightarrow> string \<Rightarrow> http_error + instant" where
  "parseBillDate fld s =
     (case parseQueryDate s of Inl err \<Rightarrow> Inl err
      | Inr None \<Rightarrow> Inl (Http 422 (fld @ '' is required (YYYY-MM-DD)''))
      | Inr (Some t) \<Rightarrow> Inr t)"

text \<open>The validators of the schema, field by field.\<close>

definition label_ok :: "string \<Rightarrow> bool" where "label_ok s \<longleftrightarrow> s \<noteq> '''' \<and> length s \<le> 120"
definition payee_ok :: "string \<Rightarrow> bool" where "payee_ok s \<longleftrightarrow> length s \<le> 120"
definition amount_ok :: "float64 \<Rightarrow> bool" where "amount_ok x \<longleftrightarrow> 0 < x"
definition tolerance_ok :: "float64 \<Rightarrow> bool" where "tolerance_ok x \<longleftrightarrow> 0 \<le> x"
definition pattern_ok :: "string \<Rightarrow> bool" where "pattern_ok s \<longleftrightarrow> length s \<le> 200"
definition window_ok :: "int \<Rightarrow> bool" where "window_ok n \<longleftrightarrow> 0 \<le> n"

definition bill_valid :: "bill \<Rightarrow> bool" where
  "bill_valid b \<longleftrightarrow> label_ok (bill_name b) \<and> payee_ok (bill_payee b) \<and> amount_ok (bill_amount b) \<and>
     tolerance_ok (bill_tolerance b) \<and> pattern_ok (bill_pattern b) \<and> window_ok (bill_window b)"

definition account_known :: "fin_db \<Rightarrow> nat \<Rightarrow> bool" where
  "account_known db i \<longleftrightarrow> i \<in> acc_id ` set (accounts db)"

section \<open>Handlers\<close>

text \<open>The reload after a write, through the read service.\<close>

definition billResponse :: "bills_db \<Rightarrow> nat \<Rightarrow> instant \<Rightarrow> http_error + bill_view" where
  "billResponse db i today =
     (case ListRecurringBills (bd_fin db) (bd_bills db) (bd_pays db) \<lparr>bf_status = ''all'', bf_within = 0, bf_account = 0\<rparr> today of
        Inl _ \<Rightarrow> Inl (Http 500 ''failed to load the recurring bill'')
      | Inr (views, totals) \<Rightarrow>
          (case find (\<lambda>v. bv_id v = i) views of
             None \<Rightarrow> Inl (Http 404 ''recurring bill not found'') | Some v \<Rightarrow> Inr v))"

definition listAdminBills :: "request_ctx \<Rightarrow> instant \<Rightarrow> bills_db \<Rightarrow> http_error + bill_view list \<times> bill_totals" where
  "listAdminBills ctx today db =
     (case requireAdmin ctx of Inl err \<Rightarrow> Inl err
      | Inr _ \<Rightarrow>
          (case ListRecurringBills (bd_fin db) (bd_bills db) (bd_pays db) \<lparr>bf_status = ''all'', bf_within = 0, bf_account = 0\<rparr> today of
             Inl _ \<Rightarrow> Inl (Http 500 ''failed to list recurring bills'') | Inr r \<Rightarrow> Inr r))"

definition new_bill :: "create_bill \<Rightarrow> instant \<Rightarrow> instant option \<Rightarrow> instant \<Rightarrow> nat \<Rightarrow> bill" where
  "new_bill inp anchor ended now i =
     \<lparr>bill_id = i, bill_name = cb_name inp, bill_payee = cb_payee inp, bill_amount = cb_amount inp,
      bill_currency = (if cb_currency inp = '''' then ''AUD'' else cb_currency inp),
      bill_cadence = (case cb_cadence inp of None \<Rightarrow> Monthly | Some c \<Rightarrow> c), bill_anchor = anchor, bill_variable = cb_variable inp,
      bill_tolerance = (case cb_tolerance inp of None \<Rightarrow> F64 10 | Some x \<Rightarrow> x), bill_pattern = cb_pattern inp,
      bill_window = (case cb_window inp of None \<Rightarrow> 5 | Some n \<Rightarrow> n),
      bill_state = (case cb_status inp of None \<Rightarrow> Active | Some s \<Rightarrow> s), bill_ended = ended, bill_notes = cb_notes inp,
      bill_account = (case cb_account inp of None \<Rightarrow> None | Some a \<Rightarrow> if a = 0 then None else Some a),
      bill_created = now, bill_updated = now\<rparr>"

definition createBill ::
  "request_ctx \<Rightarrow> create_bill \<Rightarrow> instant \<Rightarrow> instant \<Rightarrow> bills_db \<Rightarrow> (http_error + bill_view) \<times> bills_db" where
  "createBill ctx inp now today db =
     (case requireAdmin ctx of Inl err \<Rightarrow> (Inl err, db)
      | Inr _ \<Rightarrow>
       (case parseBillDate ''anchor_date'' (cb_anchor inp) of Inl err \<Rightarrow> (Inl err, db)
        | Inr anchor \<Rightarrow>
         (case parseQueryDate (cb_ended inp) of Inl err \<Rightarrow> (Inl err, db)
          | Inr ended \<Rightarrow>
             (let b = new_bill inp anchor ended now (fresh_id (map bill_id (bd_bills db)))
              in if \<not> bill_valid b then (Inl (Http 500 ''failed to create recurring bill''), db)
                 else if bill_name b \<in> bill_name ` set (bd_bills db) \<or>
                   (case bill_account b of None \<Rightarrow> False | Some a \<Rightarrow> \<not> account_known (bd_fin db) a)
                 then (Inl (Http 409 ''a recurring bill with that name already exists''), db)
                 else (let db' = db\<lparr>bd_bills := bd_bills db @ [b]\<rparr> in (billResponse db' (bill_id b) today, db'))))))"

text \<open>Only the fields that are given are validated.\<close>

definition given :: "('a \<Rightarrow> bool) \<Rightarrow> 'a option \<Rightarrow> bool" where
  "given p x = (case x of None \<Rightarrow> True | Some v \<Rightarrow> p v)"

definition patch_valid :: "update_bill \<Rightarrow> bool" where
  "patch_valid inp \<longleftrightarrow> given label_ok (ub_name inp) \<and> given payee_ok (ub_payee inp) \<and> given amount_ok (ub_amount inp) \<and>
     given tolerance_ok (ub_tolerance inp) \<and> given pattern_ok (ub_pattern inp) \<and> given window_ok (ub_window inp)"

definition or_keep :: "'a option \<Rightarrow> 'a \<Rightarrow> 'a" where
  "or_keep x old = (case x of None \<Rightarrow> old | Some v \<Rightarrow> v)"

definition edited_bill :: "update_bill \<Rightarrow> instant option \<Rightarrow> instant option option \<Rightarrow> instant \<Rightarrow> bill \<Rightarrow> bill" where
  "edited_bill inp anchor ended now b =
     b\<lparr>bill_name := or_keep (ub_name inp) (bill_name b), bill_payee := or_keep (ub_payee inp) (bill_payee b),
       bill_amount := or_keep (ub_amount inp) (bill_amount b), bill_currency := or_keep (ub_currency inp) (bill_currency b),
       bill_cadence := or_keep (ub_cadence inp) (bill_cadence b), bill_anchor := or_keep anchor (bill_anchor b),
       bill_variable := or_keep (ub_variable inp) (bill_variable b), bill_tolerance := or_keep (ub_tolerance inp) (bill_tolerance b),
       bill_pattern := or_keep (ub_pattern inp) (bill_pattern b), bill_window := or_keep (ub_window inp) (bill_window b),
       bill_state := or_keep (ub_status inp) (bill_state b), bill_ended := or_keep ended (bill_ended b),
       bill_notes := or_keep (ub_notes inp) (bill_notes b),
       bill_account := (case ub_account inp of None \<Rightarrow> bill_account b | Some a \<Rightarrow> if a = 0 then None else Some a),
       bill_updated := now\<rparr>"

definition parse_anchor :: "string option \<Rightarrow> http_error + instant option" where
  "parse_anchor s = (case s of None \<Rightarrow> Inr None
     | Some d \<Rightarrow> (case parseBillDate ''anchor_date'' d of Inl err \<Rightarrow> Inl err | Inr t \<Rightarrow> Inr (Some t)))"

definition parse_ended :: "string option \<Rightarrow> http_error + instant option option" where
  "parse_ended s = (case s of None \<Rightarrow> Inr None
     | Some d \<Rightarrow> if d = '''' then Inr (Some None)
                else (case parseBillDate ''ended_on'' d of Inl err \<Rightarrow> Inl err | Inr t \<Rightarrow> Inr (Some (Some t))))"

definition updateBill ::
  "request_ctx \<Rightarrow> nat \<Rightarrow> update_bill \<Rightarrow> instant \<Rightarrow> instant \<Rightarrow> bills_db \<Rightarrow> (http_error + bill_view) \<times> bills_db" where
  "updateBill ctx i inp now today db =
     (case requireAdmin ctx of Inl err \<Rightarrow> (Inl err, db)
      | Inr _ \<Rightarrow>
       (case parse_anchor (ub_anchor inp) of Inl err \<Rightarrow> (Inl err, db)
        | Inr anchor \<Rightarrow>
         (case parse_ended (ub_ended inp) of Inl err \<Rightarrow> (Inl err, db)
          | Inr ended \<Rightarrow>
             if \<not> patch_valid inp then (Inl (Http 500 ''failed to update recurring bill''), db)
             else if i \<notin> bill_id ` set (bd_bills db) then (Inl (Http 404 ''recurring bill not found''), db)
             else if (\<exists>b \<in> set (bd_bills db). bill_id b \<noteq> i \<and> ub_name inp = Some (bill_name b)) \<or>
               (case ub_account inp of None \<Rightarrow> False | Some a \<Rightarrow> a \<noteq> 0 \<and> \<not> account_known (bd_fin db) a)
             then (Inl (Http 409 ''a recurring bill with that name already exists''), db)
             else (let db' = db\<lparr>bd_bills := update_where (\<lambda>b. bill_id b = i) (edited_bill inp anchor ended now) (bd_bills db)\<rparr>
                   in (billResponse db' i today, db')))))"

definition deleteBill :: "request_ctx \<Rightarrow> nat \<Rightarrow> bills_db \<Rightarrow> http_error option \<times> bills_db" where
  "deleteBill ctx i db =
     (case requireAdmin ctx of Inl err \<Rightarrow> (Some err, db)
      | Inr _ \<Rightarrow>
          if i \<notin> bill_id ` set (bd_bills db) then (Some (Http 404 ''recurring bill not found''), db)
          else (None, db\<lparr>bd_pays := filter (\<lambda>p. pay_bill p \<noteq> i) (bd_pays db), bd_bills := filter (\<lambda>b. bill_id b \<noteq> i) (bd_bills db)\<rparr>))"

definition reconcileBillsHandler :: "request_ctx \<Rightarrow> instant \<Rightarrow> bills_db \<Rightarrow> (http_error + reconcile_summary) \<times> bills_db" where
  "reconcileBillsHandler ctx today db =
     (case requireAdmin ctx of Inl err \<Rightarrow> (Inl err, db)
      | Inr _ \<Rightarrow>
         (case ReconcileBills (bd_fin db) (bd_bills db) \<lparr>ro_from = None, ro_to = None\<rparr> today (bd_pays db) of
            (ps, tally) \<Rightarrow> (Inr tally, db\<lparr>bd_pays := ps\<rparr>)))"

definition link_error :: "bill_error \<Rightarrow> http_error" where
  "link_error e =
     (case e of BillNotFound \<Rightarrow> Http 404 ''recurring bill or transaction not found''
      | TxnNotFound \<Rightarrow> Http 404 ''recurring bill or transaction not found''
      | NotAnOccurrence \<Rightarrow> Http 422 (''finance: that date is not one of the bill'' @ [CHR 0x27] @ ''s due dates'')
      | CycleAlreadyLinked \<Rightarrow> Http 409 ''finance: that cycle already carries a manual payment link''
      | LinkConstraint \<Rightarrow> Http 409 ''that transaction is already linked to this bill'')"

definition createBillPayment ::
  "request_ctx \<Rightarrow> nat \<Rightarrow> nat \<Rightarrow> string \<Rightarrow> bills_db \<Rightarrow> (http_error + payment) \<times> bills_db" where
  "createBillPayment ctx i txn date db =
     (case requireAdmin ctx of Inl err \<Rightarrow> (Inl err, db)
      | Inr _ \<Rightarrow>
       (case parseQueryDate date of Inl err \<Rightarrow> (Inl err, db)
        | Inr occ \<Rightarrow>
         (case LinkBillPayment (bd_fin db) (bd_bills db) i txn occ (bd_pays db) of
            Inl e \<Rightarrow> (Inl (link_error e), db)
          | Inr (ps, p) \<Rightarrow> (Inr p, db\<lparr>bd_pays := ps\<rparr>))))"

section \<open>The state over time\<close>

definition bills_ok :: "bills_db \<Rightarrow> bool" where
  "bills_ok db \<longleftrightarrow>
     distinct (map bill_id (bd_bills db)) \<and> distinct (map bill_name (bd_bills db)) \<and>
     (\<forall>b \<in> set (bd_bills db). bill_valid b \<and> given (account_known (bd_fin db)) (bill_account b)) \<and>
     pays_ok (bd_pays db) \<and>
     (\<forall>p \<in> set (bd_pays db). pay_bill p \<in> bill_id ` set (bd_bills db) \<and> pay_txn p \<in> txn_id ` set (txns (bd_fin db)))"

text \<open>The requests, the matching pass after an ingest run, and the ledger, which only grows.\<close>

inductive bills_step :: "bills_db \<Rightarrow> bills_db \<Rightarrow> bool" where
  created: "bills_step db (snd (createBill ctx inp now today db))"
| updated: "bills_step db (snd (updateBill ctx i patch now today db))"
| deleted: "bills_step db (snd (deleteBill ctx i db))"
| reconciled: "bills_step db (snd (reconcileBillsHandler ctx today db))"
| linked: "bills_step db (snd (createBillPayment ctx i txn date db))"
| ingested: "acc_id ` set (accounts (bd_fin db)) \<subseteq> acc_id ` set (accounts fin) \<Longrightarrow> txn_id ` set (txns (bd_fin db)) \<subseteq> txn_id ` set (txns fin) \<Longrightarrow>
    bills_step db (db\<lparr>bd_fin := fin, bd_pays := fst (ReconcileBills fin (bd_bills db) opts today (bd_pays db))\<rparr>)"

inductive bills_reachable :: "bills_db \<Rightarrow> bool" where
  start: "bills_reachable \<lparr>bd_fin = fin, bd_bills = [], bd_pays = []\<rparr>"
| step: "bills_reachable db \<Longrightarrow> bills_step db db' \<Longrightarrow> bills_reachable db'"

lemma bills_okD:
  assumes "bills_ok db"
  shows "distinct (map bill_id (bd_bills db))" "distinct (map bill_name (bd_bills db))"
    "b \<in> set (bd_bills db) \<Longrightarrow> bill_valid b \<and> given (account_known (bd_fin db)) (bill_account b)" "pays_ok (bd_pays db)"
    "p \<in> set (bd_pays db) \<Longrightarrow> pay_bill p \<in> bill_id ` set (bd_bills db) \<and> pay_txn p \<in> txn_id ` set (txns (bd_fin db))"
  using assms unfolding bills_ok_def by blast+

lemma link_keeps:
  assumes "LinkBillPayment db bs i txn occ ps = Inr (ps', p)" "pays_ok ps"
  shows "pays_ok ps'" "set ps' \<subseteq> insert p (set ps)" "pay_bill p = i" "pay_txn p = txn" "i \<in> bill_id ` set bs" "txn \<in> txn_id ` set (txns db)"
proof -
  obtain b where b: "find (\<lambda>b. bill_id b = i) bs = Some b" using assms(1) by (auto simp: LinkBillPayment_def split: option.splits)
  obtain t where t: "find (\<lambda>t. txn_id t = txn) (txns db) = Some t" using assms(1) b by (auto simp: LinkBillPayment_def split: option.splits)
  obtain link qs where l: "insert_payment link qs = Some ps'" "p = List.last ps'" "set qs \<subseteq> set ps" "pays_ok qs" "pay_bill link = i" "pay_txn link = txn_id t"
  proof -
    have "pays_ok (filter P ps)" for P using assms(2) by (auto simp: pays_ok_def intro: distinct_map_filter)
    then show ?thesis
      using assms b t that by (auto simp: LinkBillPayment_def Let_def split: if_splits option.splits pay_method.splits)
  qed
  show "i \<in> bill_id ` set bs" "txn \<in> txn_id ` set (txns db)" using b t by (auto dest: find_SomeD)
  have "txn_id t = txn" using t by (auto dest: find_SomeD)
  with l insert_payment_Some [OF l(1)]
  show "pays_ok ps'" "set ps' \<subseteq> insert p (set ps)" "pay_bill p = i" "pay_txn p = txn" by auto
qed

lemma reconcile_keeps:
  assumes "pays_ok ps"
  shows "pays_ok (fst (ReconcileBills db bs opts today ps))"
    "p \<in> set (fst (ReconcileBills db bs opts today ps)) \<Longrightarrow> p \<in> set ps \<or> pay_bill p \<in> bill_id ` set bs \<and> pay_txn p \<in> txn_id ` set (txns db)"
proof -
  obtain ps' tally where r: "ReconcileBills db bs opts today ps = (ps', tally)" by fastforce
  have ok: "pays_ok ps'" using conjunct2 [OF reconcile_adds [OF r]] assms by simp
  obtain new where new: "ps' = ps @ new" "\<And>p. p \<in> set new \<Longrightarrow> pay_bill p \<in> bill_id ` set bs \<and> pay_txn p \<in> txn_id ` set (txns db)"
    using conjunct1 [OF reconcile_adds [OF r]] by (elim exE conjE) (rule that, assumption, drule bspec, assumption, auto)
  show "pays_ok (fst (ReconcileBills db bs opts today ps))" using r ok by simp
  show "p \<in> set (fst (ReconcileBills db bs opts today ps)) \<Longrightarrow> p \<in> set ps \<or> pay_bill p \<in> bill_id ` set bs \<and> pay_txn p \<in> txn_id ` set (txns db)"
    using r new by auto
qed

lemma create_cases_bill:
  assumes "createBill ctx inp now today db = (res, db')"
  obtains err where "db' = db" "res = Inl err"
  | u anchor ended b where "requireAdmin ctx = Inr u" "parseBillDate ''anchor_date'' (cb_anchor inp) = Inr anchor" "parseQueryDate (cb_ended inp) = Inr ended"
    "b = new_bill inp anchor ended now (fresh_id (map bill_id (bd_bills db)))" "bill_valid b" "bill_name b \<notin> bill_name ` set (bd_bills db)"
    "given (account_known (bd_fin db)) (bill_account b)" "db' = db\<lparr>bd_bills := bd_bills db @ [b]\<rparr>" "res = billResponse db' (bill_id b) today"
proof -
  note refusal = that(1) and success = that(2)
  have refused: thesis if "createBill ctx inp now today db = (Inl err, db)" for err
    by (rule refusal [of err]) (use assms that in simp_all)
  show thesis
  proof (cases "requireAdmin ctx")
    case (Inl err)
    show thesis by (rule refused [of err]) (simp only: createBill_def Inl sum.case)
  next
    case u: (Inr u)
    show thesis
    proof (cases "parseBillDate ''anchor_date'' (cb_anchor inp)")
      case (Inl err)
      show thesis by (rule refused [of err]) (simp only: createBill_def u Inl sum.case)
    next
      case a: (Inr anchor)
      show thesis
      proof (cases "parseQueryDate (cb_ended inp)")
        case (Inl err)
        show thesis by (rule refused [of err]) (simp only: createBill_def u a Inl sum.case)
      next
        case e: (Inr ended)
        define b where "b = new_bill inp anchor ended now (fresh_id (map bill_id (bd_bills db)))"
        let ?lost = "case bill_account b of None \<Rightarrow> False | Some a \<Rightarrow> \<not> account_known (bd_fin db) a"
        have run: "createBill ctx inp now today db =
            (if \<not> bill_valid b then (Inl (Http 500 ''failed to create recurring bill''), db)
             else if bill_name b \<in> bill_name ` set (bd_bills db) \<or> ?lost
             then (Inl (Http 409 ''a recurring bill with that name already exists''), db)
             else (billResponse (db\<lparr>bd_bills := bd_bills db @ [b]\<rparr>) (bill_id b) today, db\<lparr>bd_bills := bd_bills db @ [b]\<rparr>))"
          by (simp only: createBill_def u a e sum.case b_def [symmetric] Let_def)
        have g: "given (account_known (bd_fin db)) (bill_account b) \<longleftrightarrow> \<not> ?lost" by (simp add: given_def split: option.split)
        consider "\<not> bill_valid b" | "bill_valid b" "bill_name b \<in> bill_name ` set (bd_bills db) \<or> ?lost"
          | "bill_valid b" "bill_name b \<notin> bill_name ` set (bd_bills db)" "\<not> ?lost" by blast
        then show thesis
        proof cases
          case 1
          show thesis by (rule refused) (simp only: run 1 simp_thms if_True)
        next
          case 2
          show thesis by (rule refused) (simp only: run 2 simp_thms if_True if_False)
        next
          case 3
          have "createBill ctx inp now today db = (billResponse (db\<lparr>bd_bills := bd_bills db @ [b]\<rparr>) (bill_id b) today, db\<lparr>bd_bills := bd_bills db @ [b]\<rparr>)"
            by (simp only: run 3 simp_thms if_False)
          with assms have r: "db' = db\<lparr>bd_bills := bd_bills db @ [b]\<rparr>" "res = billResponse db' (bill_id b) today" by auto
          show thesis by (rule success [OF u a e b_def 3(1,2) _ r]) (simp only: g 3(3) simp_thms)
        qed
      qed
    qed
  qed
qed

lemma created_ok:
  assumes ok: "bills_ok db"
  shows "bills_ok (snd (createBill ctx inp now today db))"
proof -
  note d = bills_okD [OF ok]
  obtain res db' where c: "createBill ctx inp now today db = (res, db')" by fastforce
  from c have "bills_ok db'"
  proof (cases rule: create_cases_bill)
    case (2 u anchor ended b)
    have "bill_id b \<notin> bill_id ` set (bd_bills db)"
      using fresh_id_new [of "map bill_id (bd_bills db)"] 2(4) by (simp add: new_bill_def)
    with d 2(5-8) show ?thesis by (auto simp: bills_ok_def)
  next
    case (1 err)
    with ok show ?thesis by simp
  qed
  then show ?thesis by (simp add: c)
qed

lemma or_keep_given: "given p x \<Longrightarrow> p old \<Longrightarrow> p (or_keep x old)"
  by (auto simp: given_def or_keep_def split: option.splits)

lemma update_cases_bill:
  assumes "updateBill ctx i patch now today db = (res, db')"
  obtains err where "db' = db" "res = Inl err" "(\<exists>u. requireAdmin ctx = Inr u) \<longrightarrow>
      (\<exists>e. parse_anchor (ub_anchor patch) = Inl e) \<or> (\<exists>e. parse_ended (ub_ended patch) = Inl e) \<or> \<not> patch_valid patch \<or>
      err = Http 404 ''recurring bill not found'' \<and> (\<forall>b \<in> set (bd_bills db). bill_id b \<noteq> i) \<or>
      err = Http 409 ''a recurring bill with that name already exists'' \<and>
        ((\<exists>b \<in> set (bd_bills db). bill_id b \<noteq> i \<and> ub_name patch = Some (bill_name b)) \<or>
         (\<exists>a. ub_account patch = Some a \<and> a \<noteq> 0 \<and> \<not> account_known (bd_fin db) a))"
  | u anchor ended where "requireAdmin ctx = Inr u" "parse_anchor (ub_anchor patch) = Inr anchor" "parse_ended (ub_ended patch) = Inr ended"
    "patch_valid patch" "i \<in> bill_id ` set (bd_bills db)" "\<forall>b \<in> set (bd_bills db). bill_id b \<noteq> i \<longrightarrow> ub_name patch \<noteq> Some (bill_name b)"
    "\<forall>a. ub_account patch = Some a \<longrightarrow> a = 0 \<or> account_known (bd_fin db) a"
    "db' = db\<lparr>bd_bills := update_where (\<lambda>b. bill_id b = i) (edited_bill patch anchor ended now) (bd_bills db)\<rparr>"
    "res = billResponse db' i today"
proof -
  note refusal = that(1) and success = that(2)
  have refused: thesis if "updateBill ctx i patch now today db = (Inl err, db)"
    "(\<exists>u. requireAdmin ctx = Inr u) \<longrightarrow>
      (\<exists>e. parse_anchor (ub_anchor patch) = Inl e) \<or> (\<exists>e. parse_ended (ub_ended patch) = Inl e) \<or> \<not> patch_valid patch \<or>
      err = Http 404 ''recurring bill not found'' \<and> (\<forall>b \<in> set (bd_bills db). bill_id b \<noteq> i) \<or>
      err = Http 409 ''a recurring bill with that name already exists'' \<and>
        ((\<exists>b \<in> set (bd_bills db). bill_id b \<noteq> i \<and> ub_name patch = Some (bill_name b)) \<or>
         (\<exists>a. ub_account patch = Some a \<and> a \<noteq> 0 \<and> \<not> account_known (bd_fin db) a))" for err
    by (rule refusal [OF _ _ that(2)]) (use assms that(1) in simp_all)
  show thesis
  proof (cases "requireAdmin ctx")
    case (Inl err)
    show thesis by (rule refused [of err], simp only: updateBill_def Inl sum.case) (use Inl in simp)
  next
    case u: (Inr u)
    show thesis
    proof (cases "parse_anchor (ub_anchor patch)")
      case (Inl err)
      show thesis by (rule refused [of err], simp only: updateBill_def u Inl sum.case) (use Inl in simp)
    next
      case a: (Inr anchor)
      show thesis
      proof (cases "parse_ended (ub_ended patch)")
        case (Inl err)
        show thesis by (rule refused [of err], simp only: updateBill_def u a Inl sum.case) (use Inl in simp)
      next
        case e: (Inr ended)
        let ?taken = "\<exists>b \<in> set (bd_bills db). bill_id b \<noteq> i \<and> ub_name patch = Some (bill_name b)"
        let ?lost = "case ub_account patch of None \<Rightarrow> False | Some a \<Rightarrow> a \<noteq> 0 \<and> \<not> account_known (bd_fin db) a"
        let ?db = "db\<lparr>bd_bills := update_where (\<lambda>b. bill_id b = i) (edited_bill patch anchor ended now) (bd_bills db)\<rparr>"
        have run: "updateBill ctx i patch now today db =
            (if \<not> patch_valid patch then (Inl (Http 500 ''failed to update recurring bill''), db)
             else if i \<notin> bill_id ` set (bd_bills db) then (Inl (Http 404 ''recurring bill not found''), db)
             else if ?taken \<or> ?lost then (Inl (Http 409 ''a recurring bill with that name already exists''), db)
             else (billResponse ?db i today, ?db))"
          by (simp only: updateBill_def u a e sum.case Let_def)
        have lost: "?lost \<longleftrightarrow> (\<exists>a. ub_account patch = Some a \<and> a \<noteq> 0 \<and> \<not> account_known (bd_fin db) a)" by (simp split: option.split)
        consider "\<not> patch_valid patch" | "patch_valid patch" "i \<notin> bill_id ` set (bd_bills db)"
          | "patch_valid patch" "i \<in> bill_id ` set (bd_bills db)" "?taken \<or> ?lost"
          | "patch_valid patch" "i \<in> bill_id ` set (bd_bills db)" "\<not> (?taken \<or> ?lost)" by blast
        then show thesis
        proof cases
          case 1
          show thesis by (rule refused, simp only: run 1 simp_thms if_True) (use 1 in simp)
        next
          case 2
          show thesis by (rule refused, simp only: run 2 simp_thms if_True if_False) (use 2 in auto)
        next
          case 3
          show thesis by (rule refused, simp only: run 3 simp_thms if_True if_False) (use 3(3) lost in blast)
        next
          case 4
          have "updateBill ctx i patch now today db = (billResponse ?db i today, ?db)"
            by (simp only: run 4 simp_thms if_False)
          with assms have r: "db' = ?db" "res = billResponse db' i today" by auto
          show thesis by (rule success [OF u a e 4(1,2) _ _ r]) (use 4(3) lost in blast)+
        qed
      qed
    qed
  qed
qed

lemma updated_ok:
  assumes ok: "bills_ok db"
  shows "bills_ok (snd (updateBill ctx i patch now today db))"
proof -
  obtain res db' where c: "updateBill ctx i patch now today db = (res, db')" by fastforce
  from c have "bills_ok db'"
  proof (cases rule: update_cases_bill)
  case (2 u anchor ended)
  have valid: "patch_valid patch" and names: "\<And>b. b \<in> set (bd_bills db) \<Longrightarrow> bill_id b \<noteq> i \<Longrightarrow> ub_name patch \<noteq> Some (bill_name b)"
    and acc: "\<And>a. ub_account patch = Some a \<Longrightarrow> a \<noteq> 0 \<Longrightarrow> account_known (bd_fin db) a"
    using 2(4,6,7) by blast+
  note d = bills_okD [OF ok] and eq = 2(8)
  let ?f = "edited_bill patch anchor ended now" and ?bs = "update_where (\<lambda>b. bill_id b = i) (edited_bill patch anchor ended now) (bd_bills db)"
  have ids: "map bill_id ?bs = map bill_id (bd_bills db)" by (rule map_update_where) (simp add: edited_bill_def)
  have idset: "bill_id ` set ?bs = bill_id ` set (bd_bills db)" using ids by (metis list.set_map)
  have rows: "bill_valid b \<and> given (account_known (bd_fin db)) (bill_account b)" if b: "b \<in> set ?bs" for b
  proof -
    obtain b0 where b0: "b0 \<in> set (bd_bills db)" "b = (if bill_id b0 = i then ?f b0 else b0)" using b by (auto simp: update_where_def)
    have "bill_valid (?f b0)" using d(3) [OF b0(1)] valid
      by (simp add: bill_valid_def edited_bill_def patch_valid_def or_keep_given)
    moreover have "given (account_known (bd_fin db)) (bill_account (?f b0))"
      using d(3) [OF b0(1)] acc by (auto simp: given_def edited_bill_def split: option.splits)
    ultimately show ?thesis using d(3) [OF b0(1)] b0(2) by auto
  qed
  have "distinct (map bill_name ?bs)"
  proof (cases "ub_name patch")
    case None
    then have "map bill_name ?bs = map bill_name (bd_bills db)" by (intro map_update_where) (simp add: edited_bill_def or_keep_def)
    with d(2) show ?thesis by simp
  next
    case (Some n)
    have dist: "distinct (map (\<lambda>b. if bill_id b = i then n else bill_name b) bs)"
      if "distinct (map bill_id bs)" "distinct (map bill_name bs)" "set bs \<subseteq> set (bd_bills db)" for bs
      using that names Some by (induction bs) (auto simp: image_iff split: if_splits)
    have n: "bill_name (?f b) = n" for b using Some by (simp add: edited_bill_def or_keep_def)
    show ?thesis using dist [OF d(1,2) subset_refl] by (simp add: update_where_def comp_def if_distrib n cong: if_cong)
  qed
  then show ?thesis unfolding eq bills_ok_def using d rows by (simp add: ids idset)
  next
    case (1 err)
    with ok show ?thesis by simp
  qed
  then show ?thesis by (simp add: c)
qed

lemma bills_step_ok: "bills_step db db' \<Longrightarrow> bills_ok db \<Longrightarrow> bills_ok db'"
proof (induction rule: bills_step.induct)
  case (deleted db ctx i)
  note d = bills_okD [OF deleted.prems]
  show ?case
  proof (cases "requireAdmin ctx")
    case (Inr u)
    have "pays_ok (filter (\<lambda>p. pay_bill p \<noteq> i) (bd_pays db))" using d(4) by (simp add: pays_ok_def distinct_map_filter)
    then show ?thesis using d deleted.prems Inr by (force simp: deleteBill_def bills_ok_def distinct_map_filter)
  qed (use deleted.prems in \<open>simp add: deleteBill_def\<close>)
next
  case (reconciled db ctx today)
  note d = bills_okD [OF reconciled.prems]
  show ?case
    using d reconcile_keeps [OF d(4), where db = "bd_fin db" and bs = "bd_bills db"] reconciled.prems
    by (fastforce simp: reconcileBillsHandler_def bills_ok_def case_prod_beta split: sum.split)
next
  case (linked db ctx i txn date)
  note d = bills_okD [OF linked.prems]
  show ?case
  proof (cases "fst (createBillPayment ctx i txn date db)")
    case (Inl err)
    then have "snd (createBillPayment ctx i txn date db) = db"
      by (auto simp: createBillPayment_def split: sum.splits prod.splits)
    with linked.prems show ?thesis by simp
  next
    case (Inr p)
    then obtain occ ps where l: "LinkBillPayment (bd_fin db) (bd_bills db) i txn occ (bd_pays db) = Inr (ps, p)"
      "snd (createBillPayment ctx i txn date db) = db\<lparr>bd_pays := ps\<rparr>"
      by (auto simp: createBillPayment_def split: sum.splits prod.splits)
    note k = link_keeps [OF l(1) d(4)]
    have "pay_bill q \<in> bill_id ` set (bd_bills db) \<and> pay_txn q \<in> txn_id ` set (txns (bd_fin db))" if "q \<in> set ps" for q
    proof (cases "q = p")
      case True
      then show ?thesis using k(3-6) by simp
    next
      case False
      then show ?thesis using that k(2) d(5) [of q] by blast
    qed
    then show ?thesis unfolding l(2) using d k(1) by (simp add: bills_ok_def)
  qed
next
  case (ingested db fin opts today)
  note d = bills_okD [OF ingested.prems]
  have "given (account_known fin) a" if "given (account_known (bd_fin db)) a" for a
    using that ingested.hyps(1) by (auto simp: given_def account_known_def split: option.splits)
  moreover have "pay_bill p \<in> bill_id ` set (bd_bills db) \<and> pay_txn p \<in> txn_id ` set (txns fin)"
    if "p \<in> set (fst (ReconcileBills fin (bd_bills db) opts today (bd_pays db)))" for p
    using reconcile_keeps(2) [OF d(4) that] d(5) ingested.hyps(2) by blast
  ultimately show ?case using d reconcile_keeps(1) [OF d(4)] by (simp add: bills_ok_def)
qed (simp_all add: created_ok updated_ok)

lemma same_bill: "distinct (map bill_id bs) \<Longrightarrow> a \<in> set bs \<Longrightarrow> b \<in> set bs \<Longrightarrow> bill_id a = bill_id b \<Longrightarrow> a = b"
  by (auto simp: distinct_map inj_on_def)

lemma filter_update_kept:
  "(\<And>b. bill_id (f b) = bill_id b) \<Longrightarrow> filter (\<lambda>b. bill_id b \<noteq> i) (update_where (\<lambda>b. bill_id b = i) f bs) = filter (\<lambda>b. bill_id b \<noteq> i) bs"
  by (induction bs) (auto simp: update_where_def)

lemma reachable_bills: "bills_reachable db \<Longrightarrow> bills_ok db"
proof (induction rule: bills_reachable.induct)
  case (start fin)
  show ?case by (simp add: bills_ok_def pays_ok_def)
next
  case (step db db')
  then show ?case by (blast intro: bills_step_ok)
qed


text \<open>A reload finds the row: the list of all bills leaves nothing out.\<close>

lemma billResponse_found:
  assumes "b \<in> set (bd_bills db)" "distinct (map bill_id (bd_bills db))"
  shows "billResponse db (bill_id b) today = Inr (billView (bd_fin db) (bd_pays db) b (earliestPostedDate (txns (bd_fin db))) today)"
proof -
  let ?v = "\<lambda>b. billView (bd_fin db) (bd_pays db) b (earliestPostedDate (txns (bd_fin db))) today"
  have st: "parse_bill_status ''all'' = Some None" by code_simp
  have id: "bv_id (?v b) = bill_id b" for b by (simp add: billView_def Let_def)
  let ?vs = "sort_key (\<lambda>v. (bv_days v, bv_name v)) (map ?v (sort_key bill_name (bd_bills db)))"
  obtain v where v: "find (\<lambda>v. bv_id v = bill_id b) ?vs = Some v"
    using assms(1) id [of b] by (cases "find (\<lambda>v. bv_id v = bill_id b) ?vs") (auto simp: find_None_iff)
  then obtain b' where "b' \<in> set (bd_bills db)" "v = ?v b'" "bv_id v = bill_id b" by (auto dest!: find_SomeD)
  then have "v = ?v b" using same_bill [OF assms(2) _ assms(1)] id by metis
  with v show ?thesis by (simp add: billResponse_def ListRecurringBills_def st Let_def)
qed

text \<open>What an edit leaves of a bill, field by field.\<close>

definition takes :: "'a option \<Rightarrow> 'a \<Rightarrow> 'a \<Rightarrow> bool" where
  "takes x old new \<longleftrightarrow> (x = None \<longrightarrow> new = old) \<and> (\<forall>v. x = Some v \<longrightarrow> new = v)"

definition patched :: "update_bill \<Rightarrow> instant option \<Rightarrow> instant option option \<Rightarrow> bill \<Rightarrow> bill \<Rightarrow> bool" where
  "patched p anchor ended b b' \<longleftrightarrow>
     bill_id b' = bill_id b \<and> bill_created b' = bill_created b \<and>
     takes (ub_name p) (bill_name b) (bill_name b') \<and> takes (ub_payee p) (bill_payee b) (bill_payee b') \<and>
     takes (ub_amount p) (bill_amount b) (bill_amount b') \<and> takes (ub_currency p) (bill_currency b) (bill_currency b') \<and>
     takes (ub_cadence p) (bill_cadence b) (bill_cadence b') \<and> takes anchor (bill_anchor b) (bill_anchor b') \<and>
     takes (ub_variable p) (bill_variable b) (bill_variable b') \<and> takes (ub_tolerance p) (bill_tolerance b) (bill_tolerance b') \<and>
     takes (ub_pattern p) (bill_pattern b) (bill_pattern b') \<and> takes (ub_window p) (bill_window b) (bill_window b') \<and>
     takes (ub_status p) (bill_state b) (bill_state b') \<and> takes ended (bill_ended b) (bill_ended b') \<and>
     takes (ub_notes p) (bill_notes b) (bill_notes b') \<and>
     takes (map_option (\<lambda>a. if a = 0 then None else Some a) (ub_account p)) (bill_account b) (bill_account b')"

lemma edited_patched: "patched p anchor ended b (edited_bill p anchor ended now b)" "bill_updated (edited_bill p anchor ended now b) = now"
  by (auto simp: patched_def takes_def edited_bill_def or_keep_def split: option.splits)

text \<open>What an edit of a bill does.  A refused edit changes nothing.  An accepted one rewrites exactly the
  addressed row, in which a field that is not given keeps its value, an empty end date clears it and
  account 0 detaches the account; no other bill and no payment link is touched, and the answer is the
  row as the list of bills shows it.  It is refused exactly for a caller who is not an administrator,
  a date that does not parse, a value the schema refuses, a bill that is not there, and a name that
  another bill has or an account that does not exist, which are told as the same conflict.\<close>

theorem bill_edit:
  assumes "bills_reachable db"
  shows "case updateBill ctx i patch now today db of
      (Inl err, db') \<Rightarrow> db' = db \<and>
        ((\<exists>u. requireAdmin ctx = Inr u) \<longrightarrow>
          (\<exists>e. parse_anchor (ub_anchor patch) = Inl e) \<or> (\<exists>e. parse_ended (ub_ended patch) = Inl e) \<or> \<not> patch_valid patch \<or>
          err = Http 404 ''recurring bill not found'' \<and> (\<forall>b \<in> set (bd_bills db). bill_id b \<noteq> i) \<or>
          err = Http 409 ''a recurring bill with that name already exists'' \<and>
            ((\<exists>b \<in> set (bd_bills db). bill_id b \<noteq> i \<and> ub_name patch = Some (bill_name b)) \<or>
             (\<exists>a. ub_account patch = Some a \<and> a \<noteq> 0 \<and> a \<notin> acc_id ` set (accounts (bd_fin db)))))
    | (Inr v, db') \<Rightarrow>
        (\<exists>b b' anchor ended. b \<in> set (bd_bills db) \<and> bill_id b = i \<and> parse_anchor (ub_anchor patch) = Inr anchor \<and>
           parse_ended (ub_ended patch) = Inr ended \<and> b' \<in> set (bd_bills db') \<and> patched patch anchor ended b b' \<and> bill_updated b' = now \<and>
           v = billView (bd_fin db) (bd_pays db) b' (earliestPostedDate (txns (bd_fin db))) today) \<and>
        filter (\<lambda>b. bill_id b \<noteq> i) (bd_bills db') = filter (\<lambda>b. bill_id b \<noteq> i) (bd_bills db) \<and>
        map bill_id (bd_bills db') = map bill_id (bd_bills db) \<and> bd_pays db' = bd_pays db \<and> bd_fin db' = bd_fin db"
proof -
  note d = bills_okD [OF reachable_bills [OF assms]]
  obtain res db' where c: "updateBill ctx i patch now today db = (res, db')" by fastforce
  from c show ?thesis
  proof (cases rule: update_cases_bill)
    case (1 err)
    have "\<not> account_known (bd_fin db) a \<longleftrightarrow> a \<notin> acc_id ` set (accounts (bd_fin db))" for a by (simp add: account_known_def)
    with 1(3) show ?thesis unfolding c 1(1,2) prod.case sum.case by simp
  next
    case (2 u anchor ended)
    let ?f = "edited_bill patch anchor ended now" and ?bs = "update_where (\<lambda>b. bill_id b = i) (edited_bill patch anchor ended now) (bd_bills db)"
    obtain b where b: "b \<in> set (bd_bills db)" "bill_id b = i" using 2(5) by auto
    have ids: "map bill_id ?bs = map bill_id (bd_bills db)" by (rule map_update_where) (simp add: edited_bill_def)
    have f: "?f b \<in> set ?bs" "bill_id (?f b) = i" using b by (auto simp: update_where_def edited_bill_def)
    have keep: "filter (\<lambda>b. bill_id b \<noteq> i) ?bs = filter (\<lambda>b. bill_id b \<noteq> i) (bd_bills db)"
      by (rule filter_update_kept) (simp add: edited_bill_def)
    have "billResponse db' (bill_id (?f b)) today = Inr (billView (bd_fin db') (bd_pays db') (?f b) (earliestPostedDate (txns (bd_fin db'))) today)"
      by (rule billResponse_found) (use f(1) ids d(1) in \<open>simp_all add: 2(8)\<close>)
    then have res: "res = Inr (billView (bd_fin db) (bd_pays db) (?f b) (earliestPostedDate (txns (bd_fin db))) today)"
      unfolding 2(9) f(2) by (simp add: 2(8))
    show ?thesis unfolding c res prod.case sum.case
    proof (intro conjI exI)
      show "b \<in> set (bd_bills db)" "bill_id b = i" "parse_anchor (ub_anchor patch) = Inr anchor" "parse_ended (ub_ended patch) = Inr ended"
        by (rule b 2)+
      show "?f b \<in> set (bd_bills db')" using f(1) by (simp add: 2(8))
      show "patched patch anchor ended b (?f b)" "bill_updated (?f b) = now" by (rule edited_patched)+
    qed (simp_all add: 2(8) ids keep)
  qed
qed

text \<open>A bill that was matched and whose anchor is then moved: the link keeps its old cycle, which the bill no
  longer has, and it keeps the row, so the cycle the row now pays can be settled neither by the pass nor by
  hand.\<close>

definition ex_bills :: bills_db where
  "ex_bills = \<lparr>bd_fin = ex_rent_db, bd_bills = [ex_bill],
     bd_pays = [\<lparr>pay_id = 1, pay_bill = 1, pay_txn = 7, pay_occ = at_day (go_date 2026 2 28), pay_how = Auto\<rparr>]\<rparr>"

definition ex_patch :: update_bill where
  "ex_patch = \<lparr>ub_name = None, ub_payee = None, ub_amount = None, ub_currency = None, ub_cadence = None, ub_anchor = Some ''2026-02-01'',
     ub_variable = None, ub_tolerance = None, ub_pattern = None, ub_window = None, ub_status = None, ub_ended = None, ub_notes = None,
     ub_account = None\<rparr>"

definition ex_owner :: request_ctx where
  "ex_owner = no_ctx\<lparr>x_user := Some \<lparr>u_id = 1, u_email = ''a@b'', u_name = ''A'', u_avatar = '''', u_country = ''61'', u_role = Admin,
     u_nickname = None, u_greeted = None\<rparr>\<rparr>"

definition ex_moved :: bill where
  "ex_moved = edited_bill ex_patch (Some (at_day (go_date 2026 2 1))) None 0 ex_bill"

lemma ex_dates: "parseQueryDate ''2026-02-01'' = Inr (Some (at_day (go_date 2026 2 1)))"
  by code_simp

lemma ex_moved_parts:
  "bill_anchor ex_moved = at_day (go_date 2026 2 1)" "bill_cadence ex_moved = Monthly" "bill_id ex_moved = 1"
  by (simp_all add: ex_moved_def edited_bill_def or_keep_def ex_patch_def ex_bill_def)

lemma ex_move_runs:
  "bd_bills (snd (updateBill ex_owner 1 ex_patch 0 ex_today ex_bills)) = [ex_moved]"
  "bd_pays (snd (updateBill ex_owner 1 ex_patch 0 ex_today ex_bills)) = bd_pays ex_bills"
proof -
  have "requireAdmin ex_owner = Inr (the (x_user ex_owner))" by code_simp
  moreover have "parse_anchor (ub_anchor ex_patch) = Inr (Some (at_day (go_date 2026 2 1)))" "parse_ended (ub_ended ex_patch) = Inr None"
    by (simp_all add: ex_patch_def parse_anchor_def parse_ended_def parseBillDate_def ex_dates)
  moreover have "patch_valid ex_patch" by (simp add: patch_valid_def ex_patch_def given_def)
  ultimately show "bd_bills (snd (updateBill ex_owner 1 ex_patch 0 ex_today ex_bills)) = [ex_moved]"
    "bd_pays (snd (updateBill ex_owner 1 ex_patch 0 ex_today ex_bills)) = bd_pays ex_bills"
    by (simp_all add: updateBill_def ex_bills_def ex_bill_def Let_def update_where_def ex_moved_def)
     (simp_all add: ex_patch_def)
qed

lemma moved_anchor_strands:
  "\<not> isOccurrence (bill_anchor ex_moved) (bill_cadence ex_moved) (at_day (go_date 2026 2 28))"
  "isOccurrence (bill_anchor ex_moved) (bill_cadence ex_moved) (at_day (go_date 2026 3 1))"
  by (simp_all only: ex_moved_parts) code_simp+

text \<open>A bill created on an empty table, and the edit of it.\<close>

definition ex_new :: create_bill where
  "ex_new = \<lparr>cb_name = ''Rent'', cb_payee = [], cb_amount = F64 2000, cb_currency = [], cb_cadence = None, cb_anchor = ''2026-02-01'',
     cb_variable = False, cb_tolerance = None, cb_pattern = ''rent'', cb_window = Some 2, cb_status = None, cb_ended = [], cb_notes = [],
     cb_account = None\<rparr>"

definition ex_created :: bills_db where
  "ex_created = snd (createBill ex_owner ex_new 0 ex_today \<lparr>bd_fin = ex_rent_db, bd_bills = [], bd_pays = []\<rparr>)"

lemma ex_created_bills: "map bill_id (bd_bills ex_created) = [1]" "map bill_name (bd_bills ex_created) = [''Rent'']"
proof -
  have "requireAdmin ex_owner = Inr (the (x_user ex_owner))" by code_simp
  moreover have "parseQueryDate '''' = Inr None" by code_simp
  moreover have "0 \<le> F64 10 \<and> 0 < F64 2000" by code_simp
  ultimately show "map bill_id (bd_bills ex_created) = [1]" "map bill_name (bd_bills ex_created) = [''Rent'']"
    by (simp_all add: ex_created_def createBill_def ex_new_def parseBillDate_def ex_dates Let_def new_bill_def bill_valid_def
        label_ok_def payee_ok_def amount_ok_def tolerance_ok_def pattern_ok_def window_ok_def fresh_id_def)
qed

lemma ex_created_reachable: "bills_reachable ex_created"
  unfolding ex_created_def by (rule bills_reachable.step [OF bills_reachable.start bills_step.created])


theorem bill_edit_witness:
  "map bill_id (bd_bills ex_created) = [1] \<and> map bill_id (bd_bills (snd (updateBill ex_owner 1 ex_patch 0 ex_today ex_created))) = [1] \<and>
   bd_pays (snd (updateBill ex_owner 1 ex_patch 0 ex_today ex_created)) = bd_pays ex_created"
  using bill_edit [OF ex_created_reachable, where ctx = ex_owner and i = 1 and patch = ex_patch and now = 0 and today = ex_today] ex_created_bills(1)
  by (cases "updateBill ex_owner 1 ex_patch 0 ex_today ex_created") (auto split: sum.splits)

end
