(* ===== verification/FinanceHttp.thy ===== *)
theory FinanceHttp
  imports AdminBills BalanceSeries
begin

text \<open>
  The dashboard's read endpoints, \<open>internal/api/finance_read.go\<close>, and the owner's edit of an account,
  \<open>internal/api/admin_accounts.go\<close>.  A handler is a function of the caller, its decoded input, the clock and
  the tables; its answer is the wire object.  An enum column is the value of its datatype, and the text of a
  formatted error is its argument.  The database is configured and does not fail.  A balance history loops
  over buckets of the time zone, so it is an option: \<open>None\<close> is a loop that does not end.
\<close>

section \<open>Rendering\<close>

definition clock_text :: "instant \<Rightarrow> string" where
  "clock_text t =
     (let s = t mod day_ns div second_ns
      in pad 2 (itoa (s div 3600)) @ '':'' @ pad 2 (itoa (s div 60 mod 60)) @ '':'' @ pad 2 (itoa (s mod 60)))"

text \<open>\<open>t.In(z).Format(time.RFC3339)\<close>: the wall clock of the zone and its offset in minutes.\<close>

definition offset_text :: "duration \<Rightarrow> string" where
  "offset_text d =
     (if d = 0 then ''Z''
      else let m = quot (quot d second_ns) 60
           in (if m < 0 then ''-'' else ''+'') @ pad 2 (itoa (\<bar>m\<bar> div 60)) @ '':'' @ pad 2 (itoa (\<bar>m\<bar> mod 60)))"

definition format_rfc3339 :: "zone \<Rightarrow> instant \<Rightarrow> string" where
  "format_rfc3339 z t = format_date (t + z t) @ ''T'' @ clock_text (t + z t) @ offset_text (z t)"

definition utc :: zone where "utc t = 0"

definition rfc3339Ptr :: "instant option \<Rightarrow> string option" where
  "rfc3339Ptr t = map_option (format_rfc3339 utc) t"

definition dateOnlyPtr :: "instant option \<Rightarrow> string option" where
  "dateOnlyPtr t = map_option format_date t"

text \<open>\<open>http.TimeFormat\<close>.\<close>

definition weekday_names :: "string list" where
  "weekday_names = [''Sun'', ''Mon'', ''Tue'', ''Wed'', ''Thu'', ''Fri'', ''Sat'']"

definition month_names :: "string list" where
  "month_names = [''Jan'', ''Feb'', ''Mar'', ''Apr'', ''May'', ''Jun'', ''Jul'', ''Aug'', ''Sep'', ''Oct'', ''Nov'', ''Dec'']"

definition format_http :: "instant \<Rightarrow> string" where
  "format_http t =
     (let n = day_of t
      in weekday_names ! nat (weekday n) @ '', '' @ pad 2 (itoa (mday_of n)) @ '' '' @ month_names ! nat (month_of n - 1) @ '' '' @
         pad 4 (itoa (year_of n)) @ '' '' @ clock_text t @ '' GMT'')"

section \<open>Wire objects\<close>

record summary_dto =
  sd_net :: float64
  sd_assets :: float64
  sd_liabilities :: float64
  sd_currency :: string
  sd_count :: nat
  sd_as_of :: "string option"

record account_dto =
  ad_id :: nat
  ad_name :: string
  ad_masked :: string
  ad_type :: acct_type
  ad_class :: acct_class
  ad_currency :: string
  ad_description :: string
  ad_drawdown :: drawdown
  ad_balance :: "float64 option"
  ad_available :: "float64 option"
  ad_limit :: "float64 option"
  ad_balance_as_of :: "string option"
  ad_watermark :: "string option"

record point_dto =
  pd_as_of :: string
  pd_balance :: float64
  pd_carried :: "bool option"
  pd_open :: "float64 option"
  pd_close :: "float64 option"
  pd_in :: "float64 option"
  pd_out :: "float64 option"
  pd_net :: "float64 option"
  pd_ext_in :: "float64 option"
  pd_ext_out :: "float64 option"
  pd_txns :: "int option"
  pd_source :: "string option"
  pd_drift :: "float64 option"
  pd_mismatch :: "bool option"

record txn_dto =
  td_id :: nat
  td_account :: nat
  td_account_name :: string
  td_date :: string
  td_amount :: float64
  td_desc :: string
  td_merchant :: string
  td_after :: "float64 option"

record pending_dto =
  nd_id :: nat
  nd_account :: nat
  nd_account_name :: string
  nd_date :: string
  nd_amount :: float64
  nd_desc :: string
  nd_merchant :: string

record wish_dto =
  wd_id :: nat
  wd_name :: string
  wd_description :: string
  wd_amount :: "float64 option"
  wd_estimate :: bool
  wd_currency :: string
  wd_priority :: priority
  wd_status :: wish_status
  wd_deadline :: "string option"
  wd_resolved_at :: "string option"
  wd_link :: string
  wd_image :: string

record bill_dto =
  bd_id :: nat
  bd_name :: string
  bd_payee :: string
  bd_amount :: float64
  bd_currency :: string
  bd_cadence :: cadence
  bd_anchor :: string
  bd_variable :: bool
  bd_tolerance :: float64
  bd_pattern :: string
  bd_window :: int
  bd_status :: bill_status
  bd_ended :: "string option"
  bd_notes :: string
  bd_account :: "nat option"
  bd_account_name :: string
  bd_next_due :: string
  bd_days :: int
  bd_last_date :: "string option"
  bd_last_amount :: "float64 option"
  bd_overdue :: bool
  bd_auto :: bool
  bd_monthly :: float64
  bd_created :: string
  bd_updated :: string

definition toFinanceAccountDTO :: "account_view \<Rightarrow> account_dto" where
  "toFinanceAccountDTO a =
     \<lparr>ad_id = av_id a, ad_name = av_name a, ad_masked = av_masked a, ad_type = av_type a, ad_class = av_class a,
      ad_currency = av_currency a, ad_description = av_description a, ad_drawdown = av_drawdown a, ad_balance = av_balance a,
      ad_available = av_available a, ad_limit = av_limit a, ad_balance_as_of = rfc3339Ptr (av_balance_as_of a),
      ad_watermark = dateOnlyPtr (av_watermark a)\<rparr>"

definition present :: "bool \<Rightarrow> bool option" where
  "present b = (if b then Some True else None)"

definition toBalancePointDTO :: "zone \<Rightarrow> balance_point \<Rightarrow> point_dto" where
  "toBalancePointDTO z p =
     \<lparr>pd_as_of = format_rfc3339 z (bp_as_of p), pd_balance = bp_balance p, pd_carried = present (bp_carried p),
      pd_open = bp_open p, pd_close = bp_close p, pd_in = bp_in p, pd_out = bp_out p, pd_net = bp_net p,
      pd_ext_in = bp_ext_in p, pd_ext_out = bp_ext_out p, pd_txns = bp_txns p,
      pd_source = (if bp_source p \<noteq> '''' then Some (bp_source p) else None), pd_drift = bp_drift p,
      pd_mismatch = present (bp_mismatch p)\<rparr>"

definition toFinanceTxnDTO :: "txn_view \<Rightarrow> txn_dto" where
  "toFinanceTxnDTO t =
     \<lparr>td_id = tv_id t, td_account = tv_account t, td_account_name = tv_account_name t, td_date = format_date (tv_date t),
      td_amount = tv_amount t, td_desc = tv_desc t, td_merchant = tv_merchant t, td_after = tv_after t\<rparr>"

definition pending_dto_of :: "pending_view \<Rightarrow> pending_dto" where
  "pending_dto_of p =
     \<lparr>nd_id = pv_id p, nd_account = pv_account p, nd_account_name = pv_account_name p, nd_date = format_date (pv_date p),
      nd_amount = pv_amount p, nd_desc = pv_desc p, nd_merchant = pv_merchant p\<rparr>"

definition wish_dto_of :: "wish_item \<Rightarrow> wish_dto" where
  "wish_dto_of w =
     \<lparr>wd_id = w_id w, wd_name = w_name w, wd_description = w_description w, wd_amount = w_amount w, wd_estimate = w_estimate w,
      wd_currency = w_currency w, wd_priority = w_priority w, wd_status = w_status w, wd_deadline = dateOnlyPtr (w_deadline w),
      wd_resolved_at = rfc3339Ptr (w_resolved_at w), wd_link = w_link w, wd_image = w_image w\<rparr>"

definition toFinanceBillDTO :: "bill_view \<Rightarrow> bill_dto" where
  "toFinanceBillDTO b =
     \<lparr>bd_id = bv_id b, bd_name = bv_name b, bd_payee = bv_payee b, bd_amount = bv_amount b, bd_currency = bv_currency b,
      bd_cadence = bv_cadence b, bd_anchor = format_date (bv_anchor b), bd_variable = bv_variable b, bd_tolerance = bv_tolerance b,
      bd_pattern = bv_pattern b, bd_window = bv_window b, bd_status = bv_status b, bd_ended = dateOnlyPtr (bv_ended b),
      bd_notes = bv_notes b, bd_account = (if bv_account b \<noteq> 0 then Some (bv_account b) else None), bd_account_name = bv_account_name b,
      bd_next_due = format_date (bv_next_due b), bd_days = bv_days b, bd_last_date = dateOnlyPtr (bv_last_date b),
      bd_last_amount = bv_last_amount b, bd_overdue = bv_overdue b, bd_auto = bv_auto b, bd_monthly = bv_monthly b,
      bd_created = format_http (bv_created b), bd_updated = format_http (bv_updated b)\<rparr>"

definition toFinanceBillDTOs :: "bill_view list \<Rightarrow> bill_dto list" where
  "toFinanceBillDTOs bs = map toFinanceBillDTO bs"

section \<open>Handlers\<close>

text \<open>All the tables a read may touch.  A request names an account by any integer; ids are positive, 0 stands for
  all accounts, and a negative number is one that no row has.\<close>

record read_db =
  rd_fin :: fin_db
  rd_bills :: "bill list"
  rd_pays :: "payment list"
  rd_wishes :: "wish_item list"

definition account_arg :: "read_db \<Rightarrow> int \<Rightarrow> nat" where
  "account_arg db i =
     (if i < 0
      then fresh_id (map acc_id (accounts (rd_fin db)) @ map snap_account (snapshots (rd_fin db)) @ map txn_account (txns (rd_fin db)) @
                     map pend_account (pendings (rd_fin db)) @ List.map_filter bill_account (rd_bills db))
      else nat i)"

definition getFinanceSummary :: "request_ctx \<Rightarrow> read_db \<Rightarrow> http_error + summary_dto" where
  "getFinanceSummary ctx db =
     (case requireAdmin ctx of Inl err \<Rightarrow> Inl err
      | Inr _ \<Rightarrow>
          (let s = NetWorthSummary (rd_fin db)
           in Inr \<lparr>sd_net = sv_net s, sd_assets = sv_assets s, sd_liabilities = sv_liabilities s, sd_currency = sv_currency s,
                   sd_count = sv_count s, sd_as_of = rfc3339Ptr (sv_as_of s)\<rparr>))"

definition listFinanceAccounts :: "request_ctx \<Rightarrow> read_db \<Rightarrow> http_error + account_dto list" where
  "listFinanceAccounts ctx db =
     (case requireAdmin ctx of Inl err \<Rightarrow> Inl err
      | Inr _ \<Rightarrow> Inr (map toFinanceAccountDTO (Accounts (rd_fin db))))"

record txn_query =
  tq_account :: int
  tq_from :: string
  tq_to :: string
  tq_limit :: int
  tq_offset :: int

definition listFinanceTransactions :: "request_ctx \<Rightarrow> txn_query \<Rightarrow> read_db \<Rightarrow> http_error + txn_dto list \<times> int" where
  "listFinanceTransactions ctx q db =
     (case requireAdmin ctx of Inl err \<Rightarrow> Inl err
      | Inr _ \<Rightarrow>
       (case parseQueryDate (tq_from q) of Inl err \<Rightarrow> Inl err
        | Inr from \<Rightarrow>
         (case parseQueryDate (tq_to q) of Inl err \<Rightarrow> Inl err
          | Inr to \<Rightarrow>
             (case ListTransactions (rd_fin db)
                     \<lparr>tf_account = account_arg db (tq_account q), tf_from = from, tf_to = to, tf_limit = tq_limit q,
                      tf_offset = tq_offset q, tf_external = False\<rparr> of
                (ts, n, _) \<Rightarrow> Inr (map toFinanceTxnDTO ts, n)))))"

definition listFinancePending :: "request_ctx \<Rightarrow> int \<Rightarrow> read_db \<Rightarrow> http_error + pending_dto list" where
  "listFinancePending ctx a db =
     (case requireAdmin ctx of Inl err \<Rightarrow> Inl err
      | Inr _ \<Rightarrow> Inr (map pending_dto_of (FinanceRead.Pending (rd_fin db) (account_arg db a))))"

record wish_list_dto =
  wl_items :: "wish_dto list"
  wl_totals :: wish_totals
  wl_truncated :: bool

definition listFinanceWishlist :: "request_ctx \<Rightarrow> string \<Rightarrow> read_db \<Rightarrow> http_error + wish_list_dto" where
  "listFinanceWishlist ctx status db =
     (case requireAdmin ctx of Inl err \<Rightarrow> Inl err
      | Inr _ \<Rightarrow>
         (case Wishlist (rd_wishes db) status 0 of
            Inl _ \<Rightarrow> Inl (Http 500 ''failed to load wishlist'')
          | Inr (items, totals, truncated) \<Rightarrow>
              Inr \<lparr>wl_items = map wish_dto_of items, wl_totals = totals, wl_truncated = truncated\<rparr>))"

definition listFinanceBills ::
  "request_ctx \<Rightarrow> string \<Rightarrow> int \<Rightarrow> int \<Rightarrow> instant \<Rightarrow> read_db \<Rightarrow> http_error + bill_dto list \<times> bill_totals" where
  "listFinanceBills ctx status days a today db =
     (case requireAdmin ctx of Inl err \<Rightarrow> Inl err
      | Inr _ \<Rightarrow>
         (case ListRecurringBills (rd_fin db) (rd_bills db) (rd_pays db)
                 \<lparr>bf_status = status, bf_within = days, bf_account = account_arg db a\<rparr> today of
            Inl _ \<Rightarrow> Inl (Http 500 ''failed to load recurring bills'')
          | Inr (views, totals) \<Rightarrow> Inr (toFinanceBillDTOs views, totals)))"

record history_dto =
  hd_points :: "point_dto list"
  hd_basis :: "basis option"
  hd_ledger_from :: "string option"
  hd_unverified :: "bool option"
  hd_drift_max :: "float64 option"
  hd_note :: "string option"

definition points_only :: "point_dto list \<Rightarrow> history_dto" where
  "points_only ps =
     \<lparr>hd_points = ps, hd_basis = None, hd_ledger_from = None, hd_unverified = None, hd_drift_max = None, hd_note = None\<rparr>"

definition history_of :: "zone \<Rightarrow> basis \<Rightarrow> series_view list \<Rightarrow> history_dto" where
  "history_of z basis series =
     (case series of [] \<Rightarrow> points_only []
      | s # _ \<Rightarrow>
          (let out = points_only (map (toBalancePointDTO z) (sr_points s))
           in if basis = BasisLedger
              then out\<lparr>hd_basis := Some (sr_basis s), hd_ledger_from := dateOnlyPtr (sr_ledger_from s),
                       hd_unverified := present (sr_unverified s), hd_drift_max := Some (sr_drift_max s),
                       hd_note := (if sr_note s \<noteq> '''' then Some (sr_note s) else None)\<rparr>
              else out))"

definition getFinanceBalanceHistory ::
  "zone \<Rightarrow> request_ctx \<Rightarrow> int \<Rightarrow> int \<Rightarrow> string \<Rightarrow> string \<Rightarrow> instant \<Rightarrow> read_db \<Rightarrow> (http_error + history_dto) option" where
  "getFinanceBalanceHistory z ctx i days step_text basis_text now db =
     (case requireAdmin ctx of Inl err \<Rightarrow> Some (Inl err)
      | Inr _ \<Rightarrow>
       (case ParseBalanceStep (trim_space step_text) of Inl e \<Rightarrow> Some (Inl (Http 400 e))
        | Inr step \<Rightarrow>
         (case ParseBalanceBasis (trim_space basis_text) of Inl e \<Rightarrow> Some (Inl (Http 400 e))
          | Inr basis \<Rightarrow>
             (let from = (if 0 < days then Some (add_date now 0 0 (- days)) else None); a = account_arg db i
              in if step = StepRaw \<and> basis = BasisSnapshot
                 then Some (Inr (points_only (map (toBalancePointDTO utc) (BalanceHistory (rd_fin db) a from))))
                 else map_option (\<lambda>series. Inr (history_of z basis series))
                        (BalanceSeries z (rd_fin db)
                          \<lparr>sf_account = a, sf_from = from, sf_to = None, sf_step = step, sf_basis = basis\<rparr>)))))"

section \<open>The owner's columns of an account\<close>

record update_account =
  ua_description :: "string option"
  ua_drawdown :: "drawdown option"

definition descriptionMaxBytes :: nat where "descriptionMaxBytes = 2000"

definition edited_account :: "update_account \<Rightarrow> instant \<Rightarrow> account \<Rightarrow> account" where
  "edited_account inp now a =
     a\<lparr>acc_description := or_keep (ua_description inp) (acc_description a), acc_drawdown := or_keep (ua_drawdown inp) (acc_drawdown a),
       acc_updated := now\<rparr>"

definition updateAccount ::
  "request_ctx \<Rightarrow> nat \<Rightarrow> update_account \<Rightarrow> instant \<Rightarrow> fin_db \<Rightarrow> (http_error + account_dto) \<times> fin_db" where
  "updateAccount ctx i inp now db =
     (case requireAdmin ctx of Inl err \<Rightarrow> (Inl err, db)
      | Inr _ \<Rightarrow>
          if case ua_description inp of None \<Rightarrow> False | Some d \<Rightarrow> descriptionMaxBytes < length d
          then (Inl (Http 422 ''description is too long: at most 2000 bytes, and accented or emoji characters cost more than one byte each''), db)
          else if i \<notin> acc_id ` set (accounts db) then (Inl (Http 404 ''account not found''), db)
          else (let db' = db\<lparr>accounts := update_where (\<lambda>a. acc_id a = i) (edited_account inp now) (accounts db)\<rparr>
                in case AccountByID db' i of
                     None \<Rightarrow> (Inl (Http 500 ''failed to load account''), db')
                   | Some v \<Rightarrow> (Inr (toFinanceAccountDTO v), db')))"

section \<open>Balance histories are answered\<close>

lemma bucket_loop_returns:
  assumes "zone_ok z"
  shows "bucket_loop z step (bstart z step i) hi \<noteq> None"
proof (induction "nat (bindex z step hi + 1 - i)" arbitrary: i)
  case 0
  then have "hi < bstart z step i" by (simp add: less_bstart [OF assms])
  then show ?case by (subst bucket_loop.simps) simp
next
  case (Suc m)
  then have m: "m = nat (bindex z step hi + 1 - (i + 1))" by simp
  then show ?case using Suc.hyps(1) [OF m]
    by (subst bucket_loop.simps) (auto simp: nextBucketStart_eq [OF assms])
qed

lemma snapshotSeries_total:
  assumes "zone_ok z"
  shows "snapshotSeries z db acc f \<noteq> None"
proof -
  have loop: "\<exists>bs. bucket_loop z (sf_step f) (bucketStart z (sf_step f) t) hi = Some bs" for t hi
    using bucket_loop_returns [OF assms, where step = "sf_step f" and hi = hi] by (simp add: bucketStart_eq)
  show ?thesis
    by (auto simp: snapshotSeries_def Let_def loop split: option.split)
qed

lemma ledgerSeries_total:
  assumes "zone_ok z"
  shows "ledgerSeries z own4 db acc f \<noteq> None"
proof -
  define key :: "txn \<Rightarrow> instant \<times> nat" where "key = (\<lambda>t. (txn_date t, txn_id t))"
  define mine where "mine = filter (\<lambda>t. txn_account t = acc_id acc) (txns db)"
  show ?thesis
  proof (cases "acc_type acc = Investment \<or> first_by key mine = None")
    case True
    then show ?thesis by (auto simp: ledgerSeries_def Let_def key_def mine_def split: option.split)
  next
    case False
    then have inv: "acc_type acc \<noteq> Investment" and "first_by key mine \<noteq> None" by blast+
    then obtain r where r: "first_by key mine = Some r" by (cases "first_by key mine") blast+
    define e where "e = emitted_bounds z f (txn_date r) (txn_date (the (last_by key mine))) (latestSnapshot db (acc_id acc))"
    define d where "d = derived_bounds z f (txn_date r) mine (latestSnapshot db (acc_id acc)) e"
    have "bucket_loop z (sf_step f) (fst d) (snd d) \<noteq> None" if le: "\<not> snd e < fst e"
    proof -
      obtain l h where lh: "e = (bstart z (sf_step f) l, bstart z (sf_step f) h)" "bindex z (sf_step f) (txn_date r) \<le> l"
        unfolding e_def by (rule emitted_bounds_at [OF assms])
      with le have "l \<le> h" by (simp add: bstart_order [OF assms])
      then obtain a b where "d = (bstart z (sf_step f) a, bstart z (sf_step f) b)"
        unfolding d_def lh(1) by (rule derived_bounds_at [OF assms lh(2)])
      then show ?thesis by (simp add: bucket_loop_returns [OF assms])
    qed
    then consider "snd e < fst e" | starts where "\<not> snd e < fst e" "bucket_loop z (sf_step f) (fst d) (snd d) = Some starts"
      by (cases "bucket_loop z (sf_step f) (fst d) (snd d)") blast+
    then show ?thesis
    proof cases
      case 1
      then show ?thesis using inv r by (simp add: ledgerSeries_def Let_def e_def key_def mine_def)
    next
      case 2
      then show ?thesis using inv r
        by (simp add: ledgerSeries_def Let_def e_def d_def key_def mine_def split: sum.split)
    qed
  qed
qed

lemma those_total: "(\<And>x. x \<in> set xs \<Longrightarrow> f x \<noteq> None) \<Longrightarrow> those (map f xs) \<noteq> None"
  by (induction xs) (auto split: option.split)

lemma BalanceSeries_total: "zone_ok z \<Longrightarrow> BalanceSeries z db f \<noteq> None"
  unfolding BalanceSeries_def Let_def
  by (rule those_total) (simp add: one_series_def snapshotSeries_total ledgerSeries_total del: not_None_eq)

section \<open>An edit keeps to its columns\<close>

lemma find_distinct: "distinct (map f xs) \<Longrightarrow> x \<in> set xs \<Longrightarrow> find (\<lambda>y. f y = f x) xs = Some x"
  by (induction xs) auto

lemma accounts_update_other:
  "(\<And>x. k (f x) = k x) \<Longrightarrow> filter (\<lambda>x. k x \<noteq> i) (update_where (\<lambda>x. k x = i) f xs) = filter (\<lambda>x. k x \<noteq> i) xs"
  by (induction xs) (auto simp: update_where_def)

lemma AccountByID_found: "distinct (map acc_id (accounts db)) \<Longrightarrow> a \<in> set (accounts db) \<Longrightarrow> AccountByID db (acc_id a) = Some (accountView db a)"
  by (simp add: AccountByID_def find_distinct)

text \<open>The owner's edit of an account.  A refused edit changes nothing, and an administrator is refused
  exactly for a description of more than 2000 bytes or an account that is not there.  An accepted edit
  rewrites the description, the drawdown policy and the update time of the addressed account, and
  nothing else in the ledger; a field that is not given keeps its value, and the answer is the entry
  that the list of accounts then shows for it.\<close>

theorem account_edit:
  assumes "distinct (map acc_id (accounts db))"
  shows "case updateAccount ctx i inp now db of
      (Inl err, db') \<Rightarrow> db' = db \<and> ((\<exists>u. requireAdmin ctx = Inr u) \<longrightarrow>
          (\<exists>d. ua_description inp = Some d \<and> 2000 < length d) \<or> err = Http 404 ''account not found'' \<and> i \<notin> acc_id ` set (accounts db))
    | (Inr dto, db') \<Rightarrow>
        map (\<lambda>a. a\<lparr>acc_description := '''', acc_drawdown := Unset, acc_updated := 0\<rparr>) (accounts db') =
          map (\<lambda>a. a\<lparr>acc_description := '''', acc_drawdown := Unset, acc_updated := 0\<rparr>) (accounts db) \<and>
        filter (\<lambda>a. acc_id a \<noteq> i) (accounts db') = filter (\<lambda>a. acc_id a \<noteq> i) (accounts db) \<and>
        db' = db\<lparr>accounts := accounts db'\<rparr> \<and>
        (\<exists>a b. a \<in> set (accounts db) \<and> acc_id a = i \<and> b \<in> set (accounts db') \<and> acc_id b = i \<and>
           takes (ua_description inp) (acc_description a) (acc_description b) \<and>
           takes (ua_drawdown inp) (acc_drawdown a) (acc_drawdown b) \<and> acc_updated b = now \<and>
           dto = toFinanceAccountDTO (accountView db' b)) \<and>
        (\<forall>rd. rd_fin rd = db' \<longrightarrow> (\<exists>list. listFinanceAccounts ctx rd = Inr list \<and> dto \<in> set list))"
proof -
  let ?long = "case ua_description inp of None \<Rightarrow> False | Some d \<Rightarrow> descriptionMaxBytes < length d"
  let ?as = "update_where (\<lambda>a. acc_id a = i) (edited_account inp now) (accounts db)"
  consider err where "requireAdmin ctx = Inl err" | u where "requireAdmin ctx = Inr u" "?long"
    | u where "requireAdmin ctx = Inr u" "\<not> ?long" "i \<notin> acc_id ` set (accounts db)"
    | u a where "requireAdmin ctx = Inr u" "\<not> ?long" "a \<in> set (accounts db)" "acc_id a = i"
    by (cases "requireAdmin ctx") auto
  then show ?thesis
  proof cases
    case 4
    let ?a = "edited_account inp now a" and ?db = "db\<lparr>accounts := ?as\<rparr>"
    have a: "?a \<in> set ?as" "acc_id ?a = i" using 4 by (auto simp: update_where_def edited_account_def)
    have ids: "map acc_id ?as = map acc_id (accounts db)" by (rule map_update_where) (simp add: edited_account_def)
    have "AccountByID ?db (acc_id ?a) = Some (accountView ?db ?a)" using assms a(1) ids by (intro AccountByID_found) simp_all
    then have run: "updateAccount ctx i inp now db = (Inr (toFinanceAccountDTO (accountView ?db ?a)), ?db)"
      using 4 a(2) by (auto simp: updateAccount_def Let_def)
    have others: "filter (\<lambda>a. acc_id a \<noteq> i) ?as = filter (\<lambda>a. acc_id a \<noteq> i) (accounts db)"
      by (rule accounts_update_other) (simp add: edited_account_def)
    have columns: "map (\<lambda>a. a\<lparr>acc_description := '''', acc_drawdown := Unset, acc_updated := 0\<rparr>) ?as =
        map (\<lambda>a. a\<lparr>acc_description := '''', acc_drawdown := Unset, acc_updated := 0\<rparr>) (accounts db)"
      by (rule map_update_where) (simp add: edited_account_def)
    have list: "\<exists>list. listFinanceAccounts ctx rd = Inr list \<and> toFinanceAccountDTO (accountView ?db ?a) \<in> set list" if "rd_fin rd = ?db" for rd
      using that 4(1) a(1) by (auto simp: listFinanceAccounts_def Accounts_def)
    have "takes (ua_description inp) (acc_description a) (acc_description ?a)" "takes (ua_drawdown inp) (acc_drawdown a) (acc_drawdown ?a)"
      "acc_updated ?a = now"
      by (auto simp: takes_def edited_account_def or_keep_def split: option.splits)
    then have row: "\<exists>a b. a \<in> set (accounts db) \<and> acc_id a = i \<and> b \<in> set (accounts ?db) \<and> acc_id b = i \<and>
        takes (ua_description inp) (acc_description a) (acc_description b) \<and> takes (ua_drawdown inp) (acc_drawdown a) (acc_drawdown b) \<and>
        acc_updated b = now \<and> toFinanceAccountDTO (accountView ?db ?a) = toFinanceAccountDTO (accountView ?db b)"
      using 4(3,4) a by (intro exI [of _ a] exI [of _ ?a]) simp
    show ?thesis unfolding run prod.case sum.case using row others columns list by simp
  qed (auto simp: updateAccount_def descriptionMaxBytes_def split: option.splits)
qed

definition ex_note :: update_account where
  "ex_note = \<lparr>ua_description = Some ''Rainy day'', ua_drawdown = None\<rparr>"

lemma account_edit_witness:
  "distinct (map acc_id (accounts ex_read_db)) \<and>
   snapshots (snd (updateAccount ex_owner 1 ex_note 5 ex_read_db)) = snapshots ex_read_db"
proof -
  have d: "distinct (map acc_id (accounts ex_read_db))" by code_simp
  then show ?thesis using account_edit [OF d, where ctx = ex_owner and i = 1 and inp = ex_note and now = 5]
    by (cases "updateAccount ex_owner 1 ex_note 5 ex_read_db") (auto dest: arg_cong [where f = snapshots] split: sum.splits)
qed

end
