(* ===== verification/Mcp.thy ===== *)
theory Mcp
  imports FinanceHttp OAuth
begin

text \<open>
  The finance tools of the model context protocol: \<open>internal/mcp/server.go\<close> (transport, authorization,
  JSON-RPC) and \<open>internal/mcp/tools.go\<close> (the ten tools over the read service).  A request body is a text; its
  syntax tree is what the parser of the standard library makes of it (a parameter), and the decoding of a
  tree into the fields of a struct is modelled.  A result is the value that is rendered as JSON.  The text
  of a formatted error is represented by its kind and argument.  As in \<open>FinanceHttp\<close>, a tool call is an option
  because the balance series loops over the buckets of a time zone.
\<close>

section \<open>Decoding\<close>

datatype json = JNull | JBool bool | JInt int | JNum string | JStr string | JArr "json list" | JObj "(string \<times> json) list"

text \<open>Names are matched case-insensitively; a long s and the Kelvin sign fold to their letters.\<close>

fun fold_name :: "string \<Rightarrow> string" where
  "fold_name [] = []"
| "fold_name (c # cs) =
     (if c = CHR 0xC5 \<and> take 1 cs = [CHR 0xBF] then CHR ''s'' # fold_name (drop 1 cs)
      else if c = CHR 0xE2 \<and> take 2 cs = [CHR 0x84, CHR 0xAA] then CHR ''k'' # fold_name (drop 2 cs)
      else lower_char c # fold_name cs)"

declare fold_name.simps [simp del]

text \<open>A setter stores a value in its field, or says that the value has the wrong type; null stores nothing.\<close>

definition set_int :: "(int \<Rightarrow> 'a \<Rightarrow> 'a) \<Rightarrow> json \<Rightarrow> 'a \<Rightarrow> 'a option" where
  "set_int upd j a =
     (case j of JNull \<Rightarrow> Some a
      | JInt i \<Rightarrow> if - (2 ^ 63) \<le> i \<and> i < 2 ^ 63 then Some (upd i a) else None
      | _ \<Rightarrow> None)"

definition set_str :: "(string \<Rightarrow> 'a \<Rightarrow> 'a) \<Rightarrow> json \<Rightarrow> 'a \<Rightarrow> 'a option" where
  "set_str upd j a = (case j of JNull \<Rightarrow> Some a | JStr s \<Rightarrow> Some (upd s a) | _ \<Rightarrow> None)"

definition set_bool :: "(bool \<Rightarrow> 'a \<Rightarrow> 'a) \<Rightarrow> json \<Rightarrow> 'a \<Rightarrow> 'a option" where
  "set_bool upd j a = (case j of JNull \<Rightarrow> Some a | JBool b \<Rightarrow> Some (upd b a) | _ \<Rightarrow> None)"

definition set_raw :: "(json \<Rightarrow> 'a \<Rightarrow> 'a) \<Rightarrow> json \<Rightarrow> 'a \<Rightarrow> 'a option" where
  "set_raw upd j a = Some (upd j a)"

type_synonym 'a fields = "(string \<times> (json \<Rightarrow> 'a \<Rightarrow> 'a option)) list"

text \<open>The members are stored in order; one of the wrong type fails the whole, an unknown name is passed over.\<close>

definition put_member :: "'a fields \<Rightarrow> string \<times> json \<Rightarrow> 'a \<times> bool \<Rightarrow> 'a \<times> bool" where
  "put_member fs kv st =
     (case map_of fs (fold_name (fst kv)) of None \<Rightarrow> st
      | Some put \<Rightarrow> (case put (snd kv) (fst st) of None \<Rightarrow> (fst st, False) | Some a \<Rightarrow> (a, snd st)))"

definition unmarshal :: "'a fields \<Rightarrow> json \<Rightarrow> 'a \<Rightarrow> 'a option" where
  "unmarshal fs j a =
     (case j of JNull \<Rightarrow> Some a
      | JObj ms \<Rightarrow> (let st = fold (put_member fs) ms (a, True) in if snd st then Some (fst st) else None)
      | _ \<Rightarrow> None)"

section \<open>Arguments\<close>

record list_txn_args =
  la_account :: int
  la_from :: string
  la_to :: string
  la_limit :: int
  la_external :: bool

record search_args =
  sa_query :: string
  sa_limit :: int
  sa_from :: string
  sa_to :: string

record monthly_args =
  ma_account :: int
  ma_months :: int

record spending_args =
  pa_from :: string
  pa_to :: string
  pa_account :: int

record wishlist_args =
  wa_status :: string
  wa_limit :: int

record bills_args =
  ba_status :: string
  ba_within :: int
  ba_account :: int

record balance_args =
  ha_account :: int
  ha_step :: string
  ha_from :: string
  ha_to :: string
  ha_basis :: string

definition list_txn_fields :: "list_txn_args fields" where
  "list_txn_fields =
     [(''account_id'', set_int (\<lambda>i a. a\<lparr>la_account := i\<rparr>)), (''from'', set_str (\<lambda>s a. a\<lparr>la_from := s\<rparr>)),
      (''to'', set_str (\<lambda>s a. a\<lparr>la_to := s\<rparr>)), (''limit'', set_int (\<lambda>i a. a\<lparr>la_limit := i\<rparr>)),
      (''external_only'', set_bool (\<lambda>b a. a\<lparr>la_external := b\<rparr>))]"

definition search_fields :: "search_args fields" where
  "search_fields =
     [(''query'', set_str (\<lambda>s a. a\<lparr>sa_query := s\<rparr>)), (''limit'', set_int (\<lambda>i a. a\<lparr>sa_limit := i\<rparr>)),
      (''from'', set_str (\<lambda>s a. a\<lparr>sa_from := s\<rparr>)), (''to'', set_str (\<lambda>s a. a\<lparr>sa_to := s\<rparr>))]"

definition monthly_fields :: "monthly_args fields" where
  "monthly_fields =
     [(''account_id'', set_int (\<lambda>i a. a\<lparr>ma_account := i\<rparr>)), (''months'', set_int (\<lambda>i a. a\<lparr>ma_months := i\<rparr>))]"

definition spending_fields :: "spending_args fields" where
  "spending_fields =
     [(''from'', set_str (\<lambda>s a. a\<lparr>pa_from := s\<rparr>)), (''to'', set_str (\<lambda>s a. a\<lparr>pa_to := s\<rparr>)),
      (''account_id'', set_int (\<lambda>i a. a\<lparr>pa_account := i\<rparr>))]"

definition wishlist_fields :: "wishlist_args fields" where
  "wishlist_fields =
     [(''status'', set_str (\<lambda>s a. a\<lparr>wa_status := s\<rparr>)), (''limit'', set_int (\<lambda>i a. a\<lparr>wa_limit := i\<rparr>))]"

definition bills_fields :: "bills_args fields" where
  "bills_fields =
     [(''status'', set_str (\<lambda>s a. a\<lparr>ba_status := s\<rparr>)), (''within_days'', set_int (\<lambda>i a. a\<lparr>ba_within := i\<rparr>)),
      (''account_id'', set_int (\<lambda>i a. a\<lparr>ba_account := i\<rparr>))]"

definition balance_fields :: "balance_args fields" where
  "balance_fields =
     [(''account_id'', set_int (\<lambda>i a. a\<lparr>ha_account := i\<rparr>)), (''step'', set_str (\<lambda>s a. a\<lparr>ha_step := s\<rparr>)),
      (''from'', set_str (\<lambda>s a. a\<lparr>ha_from := s\<rparr>)), (''to'', set_str (\<lambda>s a. a\<lparr>ha_to := s\<rparr>)),
      (''basis'', set_str (\<lambda>s a. a\<lparr>ha_basis := s\<rparr>))]"

datatype tool_error =
    UnknownTool string | BadArguments | BadDate string | EmptyQuery | BadStep string | BadBasis string
  | BadWishStatus string | BadBillStatus string

definition decodeArgs :: "'a fields \<Rightarrow> json option \<Rightarrow> 'a \<Rightarrow> tool_error + 'a" where
  "decodeArgs fs raw zero =
     (case raw of None \<Rightarrow> Inr zero
      | Some j \<Rightarrow> (case unmarshal fs j zero of None \<Rightarrow> Inl BadArguments | Some a \<Rightarrow> Inr a))"

definition parseToolDate :: "string \<Rightarrow> tool_error + instant option" where
  "parseToolDate s0 =
     (let s = trim_space s0
      in if s = '''' then Inr None
         else (case parse_dateonly s of None \<Rightarrow> Inl (BadDate s) | Some t \<Rightarrow> Inr (Some t)))"

definition parseToolStep :: "string \<Rightarrow> tool_error + step" where
  "parseToolStep s =
     (let x = trim_space s
      in if x = '''' then Inr StepMonth else if x = ''day'' then Inr StepDay else if x = ''week'' then Inr StepWeek
         else if x = ''month'' then Inr StepMonth else Inl (BadStep s))"

definition spendingWindow :: "instant \<Rightarrow> instant option \<Rightarrow> instant option \<Rightarrow> instant \<times> instant" where
  "spendingWindow now from to =
     (let n = day_of now;
          toT = (case to of None \<Rightarrow> at_day (go_date (year_of n) (month_of n) (mday_of n)) | Some t \<Rightarrow> t);
          fromT = (case from of None \<Rightarrow> add_date toT 0 0 (- 30) | Some f \<Rightarrow> f)
      in (fromT, toT))"

definition balanceWindow :: "zone \<Rightarrow> instant \<Rightarrow> instant option \<Rightarrow> instant option \<Rightarrow> instant \<times> instant" where
  "balanceWindow z now from to =
     (let toT = (case to of None \<Rightarrow> LocalToday z now | Some t \<Rightarrow> t);
          fromT = (case from of None \<Rightarrow> add_date toT 0 (- 12) 0 | Some f \<Rightarrow> f)
      in (fromT, toT))"

section \<open>Results\<close>

text \<open>The shapes that have the same fields as the dashboard's are its records; an empty description is left out.\<close>

type_synonym summary_result = summary_dto
type_synonym txn_result = txn_dto
type_synonym pending_tool_result = pending_dto
type_synonym wish_result = wish_dto
type_synonym month_result = month_bucket
type_synonym point_result = point_dto

record account_result =
  ar_id :: nat
  ar_name :: string
  ar_masked :: string
  ar_type :: acct_type
  ar_class :: acct_class
  ar_currency :: string
  ar_description :: "string option"
  ar_drawdown :: drawdown
  ar_balance :: "float64 option"
  ar_available :: "float64 option"
  ar_limit :: "float64 option"
  ar_balance_as_of :: "string option"
  ar_watermark :: "string option"

record spending_result =
  sp_from :: string
  sp_to :: string
  sp_external :: float64
  sp_income :: float64
  sp_net :: float64
  sp_transfers :: float64
  sp_count :: int

record bill_result =
  br_id :: nat
  br_name :: string
  br_payee :: "string option"
  br_status :: bill_status
  br_cadence :: cadence
  br_amount :: float64
  br_monthly :: float64
  br_currency :: string
  br_variable :: bool
  br_next_due :: string
  br_days :: int
  br_overdue :: bool
  br_auto :: bool
  br_last_date :: "string option"
  br_last_amount :: "float64 option"
  br_account :: "nat option"
  br_account_name :: "string option"

record series_result =
  rs_account :: nat
  rs_name :: string
  rs_class :: acct_class
  rs_currency :: string
  rs_first :: "float64 option"
  rs_last :: "float64 option"
  rs_change :: "float64 option"
  rs_change_pct :: "float64 option"
  rs_basis :: "basis option"
  rs_ledger_from :: "string option"
  rs_unverified :: "bool option"
  rs_drift_max :: "float64 option"
  rs_note :: "string option"
  rs_points :: "point_result list"

definition nonempty :: "string \<Rightarrow> string option" where
  "nonempty s = (if s = '''' then None else Some s)"

definition toSummaryResult :: "summary_view \<Rightarrow> summary_result" where
  "toSummaryResult s =
     \<lparr>sd_net = sv_net s, sd_assets = sv_assets s, sd_liabilities = sv_liabilities s, sd_currency = sv_currency s,
      sd_count = sv_count s, sd_as_of = rfc3339Ptr (sv_as_of s)\<rparr>"

definition account_result_of :: "account_view \<Rightarrow> account_result" where
  "account_result_of a =
     \<lparr>ar_id = av_id a, ar_name = av_name a, ar_masked = av_masked a, ar_type = av_type a, ar_class = av_class a,
      ar_currency = av_currency a, ar_description = nonempty (av_description a), ar_drawdown = av_drawdown a,
      ar_balance = av_balance a, ar_available = av_available a, ar_limit = av_limit a,
      ar_balance_as_of = rfc3339Ptr (av_balance_as_of a), ar_watermark = dateOnlyPtr (av_watermark a)\<rparr>"

definition toAccountResults :: "account_view list \<Rightarrow> account_result list" where
  "toAccountResults as = map account_result_of as"

definition toTxnResults :: "txn_view list \<Rightarrow> txn_result list" where
  "toTxnResults ts =
     map (\<lambda>t. \<lparr>td_id = tv_id t, td_account = tv_account t, td_account_name = tv_account_name t, td_date = format_date (tv_date t),
               td_amount = tv_amount t, td_desc = tv_desc t, td_merchant = tv_merchant t, td_after = tv_after t\<rparr>) ts"

definition toPendingResults :: "pending_view list \<Rightarrow> pending_tool_result list" where
  "toPendingResults ps =
     map (\<lambda>p. \<lparr>nd_id = pv_id p, nd_account = pv_account p, nd_account_name = pv_account_name p, nd_date = format_date (pv_date p),
               nd_amount = pv_amount p, nd_desc = pv_desc p, nd_merchant = pv_merchant p\<rparr>) ps"

definition toWishlistResults :: "wish_item list \<Rightarrow> wish_result list" where
  "toWishlistResults ws =
     map (\<lambda>w. \<lparr>wd_id = w_id w, wd_name = w_name w, wd_description = w_description w, wd_amount = w_amount w,
               wd_estimate = w_estimate w, wd_currency = w_currency w, wd_priority = w_priority w, wd_status = w_status w,
               wd_deadline = dateOnlyPtr (w_deadline w), wd_resolved_at = rfc3339Ptr (w_resolved_at w), wd_link = w_link w,
               wd_image = w_image w\<rparr>) ws"

definition toMonthResults :: "month_bucket list \<Rightarrow> month_result list" where
  "toMonthResults bs =
     map (\<lambda>b. \<lparr>mb_month = mb_month b, mb_income = mb_income b, mb_spend = mb_spend b, mb_net = mb_net b,
               mb_transfers = mb_transfers b\<rparr>) bs"

definition bill_result_of :: "bill_view \<Rightarrow> bill_result" where
  "bill_result_of b =
     \<lparr>br_id = bv_id b, br_name = bv_name b, br_payee = nonempty (bv_payee b), br_status = bv_status b, br_cadence = bv_cadence b,
      br_amount = bv_amount b, br_monthly = bv_monthly b, br_currency = bv_currency b, br_variable = bv_variable b,
      br_next_due = format_date (bv_next_due b), br_days = bv_days b, br_overdue = bv_overdue b, br_auto = bv_auto b,
      br_last_date = dateOnlyPtr (bv_last_date b), br_last_amount = bv_last_amount b,
      br_account = (if bv_account b \<noteq> 0 then Some (bv_account b) else None), br_account_name = nonempty (bv_account_name b)\<rparr>"

definition toBillResults :: "bill_view list \<Rightarrow> bill_result list" where
  "toBillResults bs = map bill_result_of bs"

definition toSpendingResult :: "spend_bucket \<Rightarrow> spending_result" where
  "toSpendingResult b =
     \<lparr>sp_from = format_date (sb_from b), sp_to = format_date (sb_to b), sp_external = sb_spend b, sp_income = sb_income b,
      sp_net = sb_net b, sp_transfers = sb_transfers b, sp_count = sb_count b\<rparr>"

definition toBalancePointResult :: "zone \<Rightarrow> balance_point \<Rightarrow> point_result" where
  "toBalancePointResult z p =
     \<lparr>pd_as_of = format_rfc3339 z (bp_as_of p), pd_balance = bp_balance p, pd_carried = present (bp_carried p),
      pd_open = bp_open p, pd_close = bp_close p, pd_in = bp_in p, pd_out = bp_out p, pd_net = bp_net p,
      pd_ext_in = bp_ext_in p, pd_ext_out = bp_ext_out p, pd_txns = bp_txns p, pd_source = nonempty (bp_source p),
      pd_drift = bp_drift p, pd_mismatch = present (bp_mismatch p)\<rparr>"

section \<open>The point budget\<close>

definition balanceSnapshotPointBudget :: int where "balanceSnapshotPointBudget = 400"
definition balanceLedgerPointBudget :: int where "balanceLedgerPointBudget = 150"

text \<open>The loop over the series in ascending order of size; an index out of range does not occur.\<close>

fun fill_points :: "int list \<Rightarrow> nat list \<Rightarrow> int \<Rightarrow> int \<Rightarrow> int list \<Rightarrow> int list" where
  "fill_points sizes [] remaining left allot = allot"
| "fill_points sizes (i # is) remaining left allot =
     (let share0 = quot remaining left;
          share1 = (if share0 < 1 then 1 else share0);
          share = (if sizes ! i < share1 then sizes ! i else share1);
          rest = remaining - share
      in fill_points sizes is (if rest < 0 then 0 else rest) (left - 1) (allot[i := share]))"

definition allotPoints :: "series_view list \<Rightarrow> int \<Rightarrow> int list" where
  "allotPoints series budget =
     (let sizes = map (\<lambda>s. int (length (sr_points s))) series
      in if sum_list sizes \<le> budget \<or> series = [] then sizes
         else (let idx = slice_stable (\<lambda>a b. sizes ! a < sizes ! b) [0..<length series]
               in fill_points sizes idx budget (int (length idx)) sizes))"

definition newest_points :: "int \<Rightarrow> balance_point list \<Rightarrow> balance_point list" where
  "newest_points n ps = (if n < int (length ps) then drop (length ps - nat n) ps else ps)"

definition series_result_of :: "zone \<Rightarrow> basis \<Rightarrow> series_view \<Rightarrow> balance_point list \<Rightarrow> series_result" where
  "series_result_of z basis s pts =
     \<lparr>rs_account = sr_account s, rs_name = sr_name s, rs_class = sr_class s, rs_currency = sr_currency s, rs_first = sr_first s,
      rs_last = sr_last s, rs_change = sr_change s, rs_change_pct = sr_change_pct s,
      rs_basis = (if basis = BasisLedger then Some (sr_basis s) else None),
      rs_ledger_from = (if basis = BasisLedger then dateOnlyPtr (sr_ledger_from s) else None),
      rs_unverified = (if basis = BasisLedger then present (sr_unverified s) else None),
      rs_drift_max = (if basis = BasisLedger then Some (sr_drift_max s) else None),
      rs_note = nonempty (sr_note s), rs_points = map (toBalancePointResult z) pts\<rparr>"

definition toBalanceSeriesResults :: "zone \<Rightarrow> series_view list \<Rightarrow> basis \<Rightarrow> series_result list \<times> bool" where
  "toBalanceSeriesResults z series basis =
     (let budget = (if basis = BasisLedger then balanceLedgerPointBudget else balanceSnapshotPointBudget);
          allot = allotPoints series budget
      in (map (\<lambda>(s, n). series_result_of z basis s (newest_points n (sr_points s))) (zip series allot),
          \<exists>(s, n) \<in> set (zip series allot). n < int (length (sr_points s))))"

section \<open>The tools\<close>

datatype tool_payload =
    NetWorth summary_result
  | AccountList "account_result list"
  | TxnPage "txn_result list" int bool
  | TxnMatches "txn_result list"
  | Spending spending_result
  | Months "month_result list"
  | Series step basis string string "series_result list" bool
  | PendingList "pending_tool_result list"
  | WishPage "wish_result list" nat float64 nat nat bool
  | BillPage "bill_result list" bill_totals

definition txn_tool :: "read_db \<Rightarrow> json option \<Rightarrow> tool_error + tool_payload" where
  "txn_tool db raw =
     (case decodeArgs list_txn_fields raw \<lparr>la_account = 0, la_from = '''', la_to = '''', la_limit = 0, la_external = False\<rparr> of
        Inl e \<Rightarrow> Inl e
      | Inr a \<Rightarrow>
       (case parseToolDate (la_from a) of Inl e \<Rightarrow> Inl e
        | Inr from \<Rightarrow>
         (case parseToolDate (la_to a) of Inl e \<Rightarrow> Inl e
          | Inr to \<Rightarrow>
             (case ListTransactions (rd_fin db)
                     \<lparr>tf_account = account_arg db (la_account a), tf_from = from, tf_to = to, tf_limit = la_limit a,
                      tf_offset = 0, tf_external = la_external a\<rparr> of
                (ts, n, truncated) \<Rightarrow> Inr (TxnPage (toTxnResults ts) n truncated)))))"

definition search_tool :: "(string \<Rightarrow> string \<Rightarrow> bool) \<Rightarrow> read_db \<Rightarrow> json option \<Rightarrow> tool_error + tool_payload" where
  "search_tool like db raw =
     (case decodeArgs search_fields raw \<lparr>sa_query = '''', sa_limit = 0, sa_from = '''', sa_to = ''''\<rparr> of
        Inl e \<Rightarrow> Inl e
      | Inr a \<Rightarrow>
          if trim_space (sa_query a) = '''' then Inl EmptyQuery
          else
           (case parseToolDate (sa_from a) of Inl e \<Rightarrow> Inl e
            | Inr from \<Rightarrow>
             (case parseToolDate (sa_to a) of Inl e \<Rightarrow> Inl e
              | Inr to \<Rightarrow> Inr (TxnMatches (toTxnResults (SearchMerchant like (rd_fin db) (sa_query a) (sa_limit a) from to))))))"

definition spending_tool :: "instant \<Rightarrow> read_db \<Rightarrow> json option \<Rightarrow> tool_error + tool_payload" where
  "spending_tool now db raw =
     (case decodeArgs spending_fields raw \<lparr>pa_from = '''', pa_to = '''', pa_account = 0\<rparr> of
        Inl e \<Rightarrow> Inl e
      | Inr a \<Rightarrow>
       (case parseToolDate (pa_from a) of Inl e \<Rightarrow> Inl e
        | Inr from \<Rightarrow>
         (case parseToolDate (pa_to a) of Inl e \<Rightarrow> Inl e
          | Inr to \<Rightarrow>
             (case spendingWindow now from to of
                (fromT, toT) \<Rightarrow>
                  Inr (Spending (toSpendingResult (SpendingSummary (rd_fin db) (account_arg db (pa_account a)) fromT toT)))))))"

definition monthly_tool :: "instant \<Rightarrow> read_db \<Rightarrow> json option \<Rightarrow> tool_error + tool_payload" where
  "monthly_tool now db raw =
     (case decodeArgs monthly_fields raw \<lparr>ma_account = 0, ma_months = 0\<rparr> of
        Inl e \<Rightarrow> Inl e
      | Inr a \<Rightarrow> Inr (Months (toMonthResults (MonthlySummary now (rd_fin db) (account_arg db (ma_account a)) (ma_months a)))))"

definition balance_tool :: "zone \<Rightarrow> instant \<Rightarrow> read_db \<Rightarrow> json option \<Rightarrow> (tool_error + tool_payload) option" where
  "balance_tool z now db raw =
     (case decodeArgs balance_fields raw \<lparr>ha_account = 0, ha_step = '''', ha_from = '''', ha_to = '''', ha_basis = ''''\<rparr> of
        Inl e \<Rightarrow> Some (Inl e)
      | Inr a \<Rightarrow>
       (case parseToolStep (ha_step a) of Inl e \<Rightarrow> Some (Inl e)
        | Inr step \<Rightarrow>
         (case ParseBalanceBasis (trim_space (ha_basis a)) of Inl e \<Rightarrow> Some (Inl (BadBasis e))
          | Inr basis \<Rightarrow>
           (case parseToolDate (ha_from a) of Inl e \<Rightarrow> Some (Inl e)
            | Inr from \<Rightarrow>
             (case parseToolDate (ha_to a) of Inl e \<Rightarrow> Some (Inl e)
              | Inr to \<Rightarrow>
                 (case balanceWindow z now from to of
                    (fromT, toT) \<Rightarrow>
                      map_option (\<lambda>series. case toBalanceSeriesResults z series basis of
                          (results, truncated) \<Rightarrow> Inr (Series step basis (format_date fromT) (format_date toT) results truncated))
                        (BalanceSeries z (rd_fin db)
                          \<lparr>sf_account = account_arg db (ha_account a), sf_from = Some fromT, sf_to = Some toT, sf_step = step,
                           sf_basis = basis\<rparr>)))))))"

definition wishlist_tool :: "read_db \<Rightarrow> json option \<Rightarrow> tool_error + tool_payload" where
  "wishlist_tool db raw =
     (case decodeArgs wishlist_fields raw \<lparr>wa_status = '''', wa_limit = 0\<rparr> of
        Inl e \<Rightarrow> Inl e
      | Inr a \<Rightarrow>
         (case Wishlist (rd_wishes db) (wa_status a) (wa_limit a) of
            Inl e \<Rightarrow> Inl (BadWishStatus e)
          | Inr (items, totals, truncated) \<Rightarrow>
              Inr (WishPage (toWishlistResults items) (wt_count totals) (wt_known totals) (wt_unknown totals) (wt_mismatch totals)
                     truncated)))"

definition bills_tool :: "zone \<Rightarrow> instant \<Rightarrow> read_db \<Rightarrow> json option \<Rightarrow> tool_error + tool_payload" where
  "bills_tool z now db raw =
     (case decodeArgs bills_fields raw \<lparr>ba_status = '''', ba_within = 0, ba_account = 0\<rparr> of
        Inl e \<Rightarrow> Inl e
      | Inr a \<Rightarrow>
         (let s0 = to_lower (trim_space (ba_status a)); status = (if s0 = '''' then ''active'' else s0)
          in if status \<notin> {''active'', ''paused'', ''ended'', ''all''} then Inl (BadBillStatus (ba_status a))
             else
              (case ListRecurringBills (rd_fin db) (rd_bills db) (rd_pays db)
                      \<lparr>bf_status = status, bf_within = ba_within a, bf_account = account_arg db (ba_account a)\<rparr> (localToday z now) of
                 Inl e \<Rightarrow> Inl (BadBillStatus e)
               | Inr (views, totals) \<Rightarrow> Inr (BillPage (toBillResults views) totals))))"

definition callTool ::
  "zone \<Rightarrow> (string \<Rightarrow> string \<Rightarrow> bool) \<Rightarrow> instant \<Rightarrow> read_db \<Rightarrow> string \<Rightarrow> json option \<Rightarrow> (tool_error + tool_payload) option" where
  "callTool z like now db name raw =
     (if name = ''get_net_worth'' then Some (Inr (NetWorth (toSummaryResult (NetWorthSummary (rd_fin db)))))
      else if name = ''list_accounts'' then Some (Inr (AccountList (toAccountResults (Accounts (rd_fin db)))))
      else if name = ''list_transactions'' then Some (txn_tool db raw)
      else if name = ''search_merchant'' then Some (search_tool like db raw)
      else if name = ''spending_summary'' then Some (spending_tool now db raw)
      else if name = ''monthly_summary'' then Some (monthly_tool now db raw)
      else if name = ''balance_history'' then balance_tool z now db raw
      else if name = ''list_pending'' then Some (Inr (PendingList (toPendingResults (FinanceRead.Pending (rd_fin db) 0))))
      else if name = ''list_wishlist'' then Some (wishlist_tool db raw)
      else if name = ''list_recurring_bills'' then Some (bills_tool z now db raw)
      else Some (Inl (UnknownTool name)))"

text \<open>What \<open>tools/list\<close> says of a tool: its name, its arguments with their JSON types and the required ones;
  the descriptions are left out.\<close>

datatype json_type = TInteger | TString | TBoolean

record tool_def =
  tool_name :: string
  tool_props :: "(string \<times> json_type) list"
  tool_required :: "string list"

definition tool :: "string \<Rightarrow> (string \<times> json_type) list \<Rightarrow> string list \<Rightarrow> tool_def" where
  "tool name props required = \<lparr>tool_name = name, tool_props = props, tool_required = required\<rparr>"

definition toolDefinitions :: "tool_def list" where
  "toolDefinitions =
     [tool ''get_net_worth'' [] [], tool ''list_accounts'' [] [],
      tool ''list_transactions''
        [(''account_id'', TInteger), (''from'', TString), (''to'', TString), (''limit'', TInteger), (''external_only'', TBoolean)] [],
      tool ''search_merchant'' [(''query'', TString), (''limit'', TInteger), (''from'', TString), (''to'', TString)] [''query''],
      tool ''monthly_summary'' [(''account_id'', TInteger), (''months'', TInteger)] [],
      tool ''spending_summary'' [(''from'', TString), (''to'', TString), (''account_id'', TInteger)] [],
      tool ''balance_history''
        [(''account_id'', TInteger), (''step'', TString), (''from'', TString), (''to'', TString), (''basis'', TString)] [],
      tool ''list_pending'' [] [],
      tool ''list_wishlist'' [(''status'', TString), (''limit'', TInteger)] [],
      tool ''list_recurring_bills'' [(''status'', TString), (''within_days'', TInteger), (''account_id'', TInteger)] []]"

section \<open>Requests\<close>

record rpc_request =
  rq_version :: string
  rq_id :: "json option"
  rq_method :: string
  rq_params :: "json option"

record tool_call =
  tc_name :: string
  tc_args :: "json option"

definition request_fields :: "rpc_request fields" where
  "request_fields =
     [(''jsonrpc'', set_str (\<lambda>s r. r\<lparr>rq_version := s\<rparr>)), (''id'', set_raw (\<lambda>j r. r\<lparr>rq_id := Some j\<rparr>)),
      (''method'', set_str (\<lambda>s r. r\<lparr>rq_method := s\<rparr>)), (''params'', set_raw (\<lambda>j r. r\<lparr>rq_params := Some j\<rparr>))]"

definition tool_call_fields :: "tool_call fields" where
  "tool_call_fields =
     [(''name'', set_str (\<lambda>s r. r\<lparr>tc_name := s\<rparr>)), (''arguments'', set_raw (\<lambda>j r. r\<lparr>tc_args := Some j\<rparr>))]"

definition codeParseError :: int where "codeParseError = - 32700"
definition codeInvalidRequest :: int where "codeInvalidRequest = - 32600"
definition codeMethodNotFound :: int where "codeMethodNotFound = - 32601"
definition codeInvalidParams :: int where "codeInvalidParams = - 32602"

datatype rpc_result =
    Initialize string | Pong | ToolList "tool_def list" | ToolText tool_payload | ToolError tool_error

datatype rpc_response = NoResponse | Result "json option" rpc_result | Failure "json option" int string

datatype mcp_answer = MethodNotAllowed | Unauthorized string | Accepted | Reply rpc_response

definition latestProtocolVersion :: string where "latestProtocolVersion = ''2025-06-18''"

definition supportedProtocolVersions :: "string list" where
  "supportedProtocolVersions = [''2025-06-18'', ''2025-03-26'', ''2024-11-05'']"

definition negotiateVersion :: "string \<Rightarrow> string" where
  "negotiateVersion requested =
     (case find (\<lambda>v. v = requested) supportedProtocolVersions of Some _ \<Rightarrow> requested | None \<Rightarrow> latestProtocolVersion)"

text \<open>The parameters of \<open>initialize\<close> are read as far as they can be: a wrong type leaves what was stored.\<close>

definition handleInitialize :: "rpc_request \<Rightarrow> rpc_response" where
  "handleInitialize req =
     (let v = (case rq_params req of
                 Some (JObj ms) \<Rightarrow> fst (fold (put_member [(''protocolversion'', set_str (\<lambda>s _. s))]) ms ('''', True))
               | _ \<Rightarrow> '''')
      in Result (rq_id req) (Initialize (negotiateVersion v)))"

definition tool_response :: "json option \<Rightarrow> tool_error + tool_payload \<Rightarrow> rpc_response" where
  "tool_response i r =
     (case r of
        Inr payload \<Rightarrow> Result i (ToolText payload)
      | Inl (UnknownTool name) \<Rightarrow> Failure i codeInvalidParams (''unknown tool: '' @ name)
      | Inl e \<Rightarrow> Result i (ToolError e))"

definition handleToolsCall ::
  "zone \<Rightarrow> (string \<Rightarrow> string \<Rightarrow> bool) \<Rightarrow> instant \<Rightarrow> read_db \<Rightarrow> rpc_request \<Rightarrow> rpc_response option" where
  "handleToolsCall z like now db req =
     (case Option.bind (rq_params req) (\<lambda>j. unmarshal tool_call_fields j \<lparr>tc_name = '''', tc_args = None\<rparr>) of
        None \<Rightarrow> Some (Failure (rq_id req) codeInvalidParams ''invalid params: expected {name, arguments}'')
      | Some p \<Rightarrow>
          map_option (tool_response (rq_id req)) (callTool z like now db (tc_name p) (tc_args p)))"

definition dispatch ::
  "zone \<Rightarrow> (string \<Rightarrow> string \<Rightarrow> bool) \<Rightarrow> instant \<Rightarrow> read_db \<Rightarrow> rpc_request \<Rightarrow> rpc_response option" where
  "dispatch z like now db req =
     (if rq_method req = ''initialize'' then Some (handleInitialize req)
      else if rq_method req = ''notifications/initialized'' then Some NoResponse
      else if rq_method req = ''ping'' then Some (Result (rq_id req) Pong)
      else if rq_method req = ''tools/list'' then Some (Result (rq_id req) (ToolList toolDefinitions))
      else if rq_method req = ''tools/call'' then handleToolsCall z like now db req
      else Some (Failure (rq_id req) codeMethodNotFound (''method not found: '' @ rq_method req)))"

definition maxRequestBytes :: nat where "maxRequestBytes = 1048576"

text \<open>The request that a body holds, or the answer to a body that holds none; \<open>None\<close> is a body that cannot
  be read.\<close>

definition read_request :: "(string \<Rightarrow> json option) \<Rightarrow> string option \<Rightarrow> rpc_response + rpc_request" where
  "read_request parse body =
     (case body of None \<Rightarrow> Inl (Failure None codeParseError ''failed to read request body'')
      | Some b \<Rightarrow>
         (case Option.bind (parse (take maxRequestBytes b))
                 (\<lambda>j. unmarshal request_fields j \<lparr>rq_version = '''', rq_id = None, rq_method = '''', rq_params = None\<rparr>) of
            None \<Rightarrow> Inl (Failure None codeParseError ''parse error: request is not valid JSON'')
          | Some req \<Rightarrow>
              if rq_version req \<noteq> ''2.0''
              then Inl (Failure (rq_id req) codeInvalidRequest
                          (''invalid request: '' @ [CHR 0x22] @ ''jsonrpc'' @ [CHR 0x22] @ '' must be '' @ [CHR 0x22] @ ''2.0'' @ [CHR 0x22]))
              else Inr req))"

record http_request =
  hr_method :: string
  hr_authorization :: string
  hr_body :: "string option"

definition ServeHTTP ::
  "oauth_service \<Rightarrow> (string \<Rightarrow> json option) \<Rightarrow> zone \<Rightarrow> (string \<Rightarrow> string \<Rightarrow> bool) \<Rightarrow> instant \<Rightarrow> oauth_db \<Rightarrow> read_db \<Rightarrow>
    http_request \<Rightarrow> mcp_answer option" where
  "ServeHTTP s parse z like now odb db r =
     (if hr_method r \<noteq> ''POST'' then Some MethodNotAllowed
      else if \<not> mcp_authorize s (hr_authorization r) now odb then Some (Unauthorized (mcp_challenge s))
      else
       (case read_request parse (hr_body r) of Inl answer \<Rightarrow> Some (Reply answer)
        | Inr req \<Rightarrow>
            map_option (\<lambda>resp. if rq_id req = None then Accepted else Reply resp) (dispatch z like now db req)))"

section \<open>Sharing the budget\<close>

text \<open>The shares of the series, smallest series first.\<close>

fun shares :: "int list \<Rightarrow> int \<Rightarrow> int list" where
  "shares [] r = []"
| "shares (n # ns) r =
     (let q = max 1 (r div int (Suc (length ns))); a = min n q in a # shares ns (max 0 (r - a)))"

lemma fill_points_shares:
  assumes "distinct is" "\<forall>i \<in> set is. i < length allot" "0 \<le> r"
  shows "length (fill_points sizes is r (int (length is)) allot) = length allot \<and>
    map ((!) (fill_points sizes is r (int (length is)) allot)) is = shares (map ((!) sizes) is) r \<and>
    (\<forall>j. j \<notin> set is \<longrightarrow> fill_points sizes is r (int (length is)) allot ! j = allot ! j)"
  using assms
proof (induction "is" arbitrary: r allot)
  case (Cons i "is")
  let ?a = "min (sizes ! i) (max 1 (r div int (Suc (length is))))"
  have "quot r (int (length (i # is))) = r div int (Suc (length is))" using Cons.prems(3) by (simp add: quot_pos)
  then have step: "fill_points sizes (i # is) r (int (length (i # is))) allot =
      fill_points sizes is (max 0 (r - ?a)) (int (length is)) (allot[i := ?a])"
    by (simp add: Let_def min_def max_def)
  define F where "F = fill_points sizes is (max 0 (r - ?a)) (int (length is)) (allot[i := ?a])"
  have IH: "length F = length allot" "map ((!) F) is = shares (map ((!) sizes) is) (max 0 (r - ?a))"
    "\<And>j. j \<notin> set is \<Longrightarrow> F ! j = allot[i := ?a] ! j"
    unfolding F_def using Cons.IH [of "allot[i := ?a]" "max 0 (r - ?a)"] Cons.prems by auto
  have "F ! i = ?a" using IH(3) [of i] Cons.prems by simp
  moreover have "F ! j = allot ! j" if "j \<notin> set (i # is)" for j using IH(3) [of j] that by simp
  moreover have "shares (map ((!) sizes) (i # is)) r = ?a # shares (map ((!) sizes) is) (max 0 (r - ?a))"
    by (simp only: list.map shares.simps Let_def length_map)
  ultimately show ?case unfolding step F_def [symmetric] using IH(1,2) by simp
qed simp

lemma shares_bounds:
  "i < length ns \<Longrightarrow> 0 \<le> ns ! i \<Longrightarrow> 0 \<le> shares ns r ! i \<and> shares ns r ! i \<le> ns ! i \<and> (0 < ns ! i \<longrightarrow> 0 < shares ns r ! i)"
proof (induction ns arbitrary: i r)
  case (Cons n ns)
  then show ?case by (cases i) (auto simp: Let_def)
qed simp

lemma shares_length [simp]: "length (shares ns r) = length ns"
  by (induction ns arbitrary: r) (simp_all add: Let_def)

text \<open>The quotient that is handed out leaves the others at least as much each.\<close>

lemma quotient_least: "0 < k \<Longrightarrow> q * k \<le> r \<Longrightarrow> (q::int) \<le> r div k"
  using zdiv_mono1 [of "q * k" r k] by simp

lemma quotient_less:
  fixes r k q :: int
  assumes "0 < k" "r < q * k"
  shows "r div k < q"
proof (rule ccontr)
  assume "\<not> r div k < q"
  then have "q * k \<le> (r div k) * k" using assms(1) by (simp add: mult_right_mono)
  moreover have "(r div k) * k + r mod k = r" "0 \<le> r mod k" using assms(1) by (simp_all add: div_mult_mod_eq)
  ultimately show False using assms(2) by linarith
qed

lemma rest_enough:
  fixes r q :: int
  assumes "q * (k + 1) \<le> r" "a \<le> r div (k + 1)" "0 \<le> k"
  shows "q * k \<le> r - a"
proof -
  have "q \<le> r div (k + 1)" using assms(1,3) by (intro quotient_least) simp_all
  then have "q * k \<le> (r div (k + 1)) * k" using assms(3) by (simp add: mult_right_mono)
  moreover have "(r div (k + 1)) * (k + 1) \<le> r" using assms(3) pos_mod_sign [of "k + 1" r] div_mult_mod_eq [of r "k + 1"] by linarith
  ultimately show ?thesis using assms(2) by (simp add: algebra_simps)
qed

lemma shares_two:
  assumes "\<forall>n \<in> set ns. q < n" "1 \<le> q" "q * int (length ns) \<le> r" "r \<le> (q + 1) * int (length ns)"
  shows "set (shares ns r) \<subseteq> {q, q + 1} \<and> sum_list (shares ns r) = r"
  using assms
proof (induction ns arbitrary: r)
  case (Cons n ns)
  let ?k = "int (length ns)"
  have k: "int (Suc (length ns)) = ?k + 1" by simp
  have b: "q * (?k + 1) \<le> r" "r \<le> (q + 1) * (?k + 1)" "q < n" using Cons.prems by (simp_all add: algebra_simps)
  have "q \<le> r div (?k + 1)" using b(1) by (intro quotient_least) simp_all
  show ?case
  proof (cases "r = (q + 1) * (?k + 1)")
    case True
    then have "r div (?k + 1) = q + 1" by simp
    then have s: "shares (n # ns) r = (q + 1) # shares ns ((q + 1) * ?k)"
      unfolding shares.simps k Let_def using b(3) Cons.prems(2) True by (simp add: algebra_simps)
    show ?thesis unfolding s using Cons.IH [of "(q + 1) * ?k"] Cons.prems True by (auto simp: algebra_simps)
  next
    case False
    then have less: "r < (q + 1) * (?k + 1)" using b(2) by simp
    then have "r div (?k + 1) < q + 1" by (intro quotient_less) simp_all
    then have "r div (?k + 1) = q" using \<open>q \<le> r div (?k + 1)\<close> by simp
    moreover have r': "q * ?k \<le> r - q" "r - q \<le> (q + 1) * ?k" using b(1) less by (simp_all add: algebra_simps)
    moreover have "0 \<le> r - q"
      by (rule order_trans [OF _ r'(1)]) (use Cons.prems(2) in simp)
    ultimately have s: "shares (n # ns) r = q # shares ns (r - q)"
      unfolding shares.simps k Let_def using b(3) Cons.prems(2) by simp
    show ?thesis unfolding s using Cons.IH [OF _ Cons.prems(2) r'] Cons.prems(1) by auto
  qed
qed simp

lemma shares_least: "q * int (length ns) \<le> r \<Longrightarrow> i < length ns \<Longrightarrow> min (ns ! i) q \<le> shares ns r ! i"
proof (induction ns arbitrary: r i)
  case (Cons n ns)
  let ?k = "int (length ns)"
  have k: "int (Suc (length ns)) = ?k + 1" by simp
  define a where "a = min n (max 1 (r div (?k + 1)))"
  have s: "shares (n # ns) r = a # shares ns (max 0 (r - a))" unfolding shares.simps k Let_def a_def ..
  have q: "q * (?k + 1) \<le> r" using Cons.prems(1) by (simp add: algebra_simps)
  then have le: "q \<le> r div (?k + 1)" by (intro quotient_least) simp_all
  have "q * ?k \<le> max 0 (r - a)"
  proof (cases "1 \<le> r div (?k + 1)")
    case True
    then have "a \<le> r div (?k + 1)" by (simp add: a_def)
    then have "q * ?k \<le> r - a" by (intro rest_enough [OF q]) simp_all
    then show ?thesis by simp
  next
    case False
    then have "q * ?k \<le> 0" using le by (simp add: mult_nonpos_nonneg)
    then show ?thesis by simp
  qed
  then show ?case unfolding s using Cons.IH [of "max 0 (r - a)" "i - 1"] Cons.prems(2) le by (cases i) (auto simp: a_def)
qed simp

lemma shares_head:
  assumes "int (length (n # ns)) \<le> r"
  obtains f where "1 \<le> f" "f * int (length (n # ns)) \<le> r" "r \<le> (f + 1) * int (length (n # ns))"
    "n \<le> f \<longrightarrow> shares (n # ns) r = n # shares ns (r - n) \<and> int (length ns) \<le> r - n \<and> f * int (length ns) \<le> r - n"
proof -
  let ?k = "int (length ns)"
  define f where "f = r div (?k + 1)"
  have k: "int (Suc (length ns)) = ?k + 1" by simp
  have le: "1 * (?k + 1) \<le> r" using assms by simp
  then have one: "1 \<le> f" unfolding f_def by (intro quotient_least) simp_all
  have "f * (?k + 1) + r mod (?k + 1) = r" "0 \<le> r mod (?k + 1)" "r mod (?k + 1) < ?k + 1"
    unfolding f_def by (rule div_mult_mod_eq, rule pos_mod_sign, simp, rule pos_mod_bound, simp)
  moreover have "(f + 1) * (?k + 1) = f * (?k + 1) + ?k + 1" by (simp add: algebra_simps)
  ultimately have b: "f * (?k + 1) \<le> r" "r \<le> (f + 1) * (?k + 1)" by linarith+
  have "n \<le> f \<longrightarrow> shares (n # ns) r = n # shares ns (r - n) \<and> ?k \<le> r - n \<and> f * ?k \<le> r - n"
  proof
    assume n: "n \<le> f"
    then have r': "?k \<le> r - n" "f * ?k \<le> r - n" using rest_enough [OF le, of n] rest_enough [OF b(1), of n] by (simp_all add: f_def)
    then show "shares (n # ns) r = n # shares ns (r - n) \<and> ?k \<le> r - n \<and> f * ?k \<le> r - n"
      unfolding shares.simps k Let_def f_def [symmetric] using n one by simp
  qed
  then show ?thesis using one b by (intro that [of f]) (simp_all add: algebra_simps)
qed

lemma shares_sum: "sorted ns \<Longrightarrow> int (length ns) \<le> r \<Longrightarrow> r \<le> sum_list ns \<Longrightarrow> sum_list (shares ns r) = r"
proof (induction ns arbitrary: r)
  case (Cons n ns)
  obtain f where f: "1 \<le> f" "f * int (length (n # ns)) \<le> r" "r \<le> (f + 1) * int (length (n # ns))"
    "n \<le> f \<longrightarrow> shares (n # ns) r = n # shares ns (r - n) \<and> int (length ns) \<le> r - n \<and> f * int (length ns) \<le> r - n"
    by (rule shares_head [OF Cons.prems(2)])
  show ?case
  proof (cases "n \<le> f")
    case True
    then show ?thesis using f(4) Cons.IH [of "r - n"] Cons.prems by simp
  next
    case False
    then have "\<forall>m \<in> set (n # ns). f < m" using Cons.prems(1) by auto
    from shares_two [OF this f(1-3)] show ?thesis by simp
  qed
qed simp

lemma shares_fair:
  "sorted ns \<Longrightarrow> int (length ns) \<le> r \<Longrightarrow> i < length ns \<Longrightarrow> j < length ns \<Longrightarrow> shares ns r ! i < ns ! i \<Longrightarrow> shares ns r ! j \<le> shares ns r ! i + 1"
proof (induction ns arbitrary: r i j)
  case (Cons n ns)
  obtain f where f: "1 \<le> f" "f * int (length (n # ns)) \<le> r" "r \<le> (f + 1) * int (length (n # ns))"
    "n \<le> f \<longrightarrow> shares (n # ns) r = n # shares ns (r - n) \<and> int (length ns) \<le> r - n \<and> f * int (length ns) \<le> r - n"
    by (rule shares_head [OF Cons.prems(2)])
  show ?case
  proof (cases "n \<le> f")
    case True
    note s = mp [OF f(4) True]
    from Cons.prems(5) s obtain i' where i: "i = Suc i'" by (cases i) auto
    with Cons.prems have i': "i' < length ns" "shares ns (r - n) ! i' < ns ! i'" "n \<le> ns ! i'" using s by auto
    have "min (ns ! i') f \<le> shares ns (r - n) ! i'" using s i'(1) by (intro shares_least) simp_all
    then have "n \<le> shares ns (r - n) ! i'" using i'(3) True by simp
    then have zero: "n \<le> shares ns (r - n) ! i' + 1" by simp
    have "sorted ns" using Cons.prems(1) by simp
    note tails = Cons.IH [OF this _ i'(1) _ i'(2)]
    show ?thesis
    proof (cases j)
      case 0
      then show ?thesis unfolding conjunct1 [OF s] i using zero by simp
    next
      case (Suc j')
      then have "shares ns (r - n) ! j' \<le> shares ns (r - n) ! i' + 1" using tails s Cons.prems(4) by simp
      then show ?thesis unfolding conjunct1 [OF s] i Suc by simp
    qed
  next
    case False
    then have "\<forall>m \<in> set (n # ns). f < m" using Cons.prems(1) by auto
    from conjunct1 [OF shares_two [OF this f(1-3)]] have "\<And>x. x \<in> set (shares (n # ns) r) \<Longrightarrow> x = f \<or> x = f + 1" by blast
    moreover have "shares (n # ns) r ! i \<in> set (shares (n # ns) r)" "shares (n # ns) r ! j \<in> set (shares (n # ns) r)"
      using Cons.prems(3,4) by (simp_all only: nth_mem shares_length)
    ultimately have "shares (n # ns) r ! i = f \<or> shares (n # ns) r ! i = f + 1" "shares (n # ns) r ! j = f \<or> shares (n # ns) r ! j = f + 1"
      by blast+
    then show ?thesis by linarith
  qed
qed simp

lemma insert_less_set [simp]: "set (insert_less lt x ys) = insert x (set ys)"
  by (induction ys) auto

lemma insert_less_distinct: "distinct (insert_less lt x ys) \<longleftrightarrow> distinct (x # ys)"
  by (induction ys) auto

lemma insert_less_sorted: "sorted (map k ys) \<Longrightarrow> sorted (map k (insert_less (\<lambda>a b. k a < (k b :: int)) x ys))"
  by (induction ys) (auto simp: not_less)

lemma ascending:
  fixes k :: "nat \<Rightarrow> int"
  shows "distinct xs \<Longrightarrow> distinct (slice_stable (\<lambda>a b. k a < k b) xs)" "set (slice_stable (\<lambda>a b. k a < k b) xs) = set xs"
    "sorted (map k (slice_stable (\<lambda>a b. k a < k b) xs))"
  by (induction xs) (auto simp: slice_stable_def insert_less_distinct intro: insert_less_sorted)

lemma sum_by_index: "distinct is \<Longrightarrow> set is = {0..<length xs} \<Longrightarrow> sum_list (map ((!) xs) is) = sum_list (xs :: int list)"
  using sum_list_distinct_conv_sum_set [of "is" "(!) xs"] sum_list_sum_nth [of xs] by (simp only:)

definition sizes_of :: "series_view list \<Rightarrow> int list" where
  "sizes_of series = map (\<lambda>s. int (length (sr_points s))) series"

lemma allot_spec:
  fixes series :: "series_view list" and budget :: int
  defines "out \<equiv> allotPoints series budget" and "ns \<equiv> sizes_of series"
  assumes "0 \<le> budget"
  shows "length out = length series"
    "sum_list ns \<le> budget \<Longrightarrow> out = ns"
    "i < length series \<Longrightarrow> 0 \<le> out ! i \<and> out ! i \<le> ns ! i \<and> (0 < ns ! i \<longrightarrow> 0 < out ! i)"
    "int (length series) \<le> budget \<Longrightarrow> budget < sum_list ns \<Longrightarrow> sum_list out = budget"
    "int (length series) \<le> budget \<Longrightarrow> i < length series \<Longrightarrow> j < length series \<Longrightarrow> out ! i < ns ! i \<Longrightarrow> out ! j \<le> out ! i + 1"
proof -
  have len: "length ns = length series" by (simp add: ns_def sizes_of_def)
  have small: "out = ns" if "sum_list ns \<le> budget" using that by (simp add: out_def allotPoints_def ns_def sizes_of_def Let_def)
  then show "sum_list ns \<le> budget \<Longrightarrow> out = ns" .
  have nn: "0 \<le> ns ! i" if "i < length series" for i using that by (simp add: ns_def sizes_of_def)
  define idx where "idx = slice_stable (\<lambda>a b. ns ! a < ns ! b) [0..<length series]"
  have idx: "distinct idx" "set idx = {0..<length series}" "sorted (map ((!) ns) idx)"
    unfolding idx_def by (simp_all add: ascending)
  then have lenidx: "length idx = length series" by (metis distinct_card card_atLeastLessThan diff_zero)
  have large: "length out = length series \<and> map ((!) out) idx = shares (map ((!) ns) idx) budget" if "\<not> sum_list ns \<le> budget"
  proof -
    have "series \<noteq> []" using that assms by (auto simp: ns_def sizes_of_def)
    then have "out = fill_points ns idx budget (int (length idx)) ns"
      using that by (simp add: out_def allotPoints_def ns_def sizes_of_def Let_def idx_def)
    then show ?thesis using fill_points_shares [OF idx(1), of ns budget ns] idx(2) assms len by simp
  qed
  show len_out: "length out = length series" using small large len by (cases "sum_list ns \<le> budget") auto
  have at: "\<exists>p < length idx. idx ! p = i \<and> out ! i = shares (map ((!) ns) idx) budget ! p" if "i < length series" "\<not> sum_list ns \<le> budget" for i
  proof -
    have "i \<in> set idx" using that(1) idx(2) by simp
    then obtain p where p: "p < length idx" "idx ! p = i" by (auto simp: in_set_conv_nth)
    then have "map ((!) out) idx ! p = out ! i" by simp
    then show ?thesis using p large [OF that(2)] by auto
  qed
  show "i < length series \<Longrightarrow> 0 \<le> out ! i \<and> out ! i \<le> ns ! i \<and> (0 < ns ! i \<longrightarrow> 0 < out ! i)"
  proof -
    assume i: "i < length series"
    show ?thesis
    proof (cases "sum_list ns \<le> budget")
      case False
      obtain p where p: "p < length idx" "idx ! p = i" "out ! i = shares (map ((!) ns) idx) budget ! p" using at [OF i False] by blast
      then show ?thesis using shares_bounds [of p "map ((!) ns) idx" budget] nn [OF i] by simp
    qed (use small nn [OF i] in simp)
  qed
  show "sum_list out = budget" if "int (length series) \<le> budget" "budget < sum_list ns"
  proof -
    have "sum_list out = sum_list (map ((!) out) idx)" using sum_by_index [OF idx(1), of out] idx(2) len_out by simp
    also have "\<dots> = sum_list (shares (map ((!) ns) idx) budget)" using large that by simp
    also have "\<dots> = budget"
      using shares_sum [OF idx(3), of budget] sum_by_index [OF idx(1), of ns] idx(2) len lenidx that by simp
    finally show ?thesis .
  qed
  show "out ! j \<le> out ! i + 1" if "int (length series) \<le> budget" and ij: "i < length series" "j < length series" and less: "out ! i < ns ! i"
  proof (cases "sum_list ns \<le> budget")
    case False
    obtain p q where "p < length idx" "idx ! p = i" "out ! i = shares (map ((!) ns) idx) budget ! p"
      "q < length idx" "idx ! q = j" "out ! j = shares (map ((!) ns) idx) budget ! q" using at [OF _ False] ij by metis
    then show ?thesis using shares_fair [OF idx(3), of budget p q] that(1) lenidx less by simp
  qed (use small less in simp)
qed

text \<open>C33: The point budget is shared fairly.  Every series gets at most the points it has, and at least one when it
  has any.  A request within the budget is not cut at all.  Otherwise, when there are no more series
  than points in the budget, the shares add up to the budget exactly, and a series is only cut when no
  series, longer or shorter, gets more than one point above it: no point is withheld that another series
  could not have spared.\<close>

theorem allot_points_fair:
  assumes "0 \<le> budget"
  shows "let out = allotPoints series budget; ns = map (\<lambda>s. int (length (sr_points s))) series
    in length out = length series \<and>
       (\<forall>i < length series. 0 \<le> out ! i \<and> out ! i \<le> ns ! i \<and> (0 < ns ! i \<longrightarrow> 0 < out ! i)) \<and>
       (sum_list ns \<le> budget \<longrightarrow> out = ns) \<and>
       (int (length series) \<le> budget \<and> budget < sum_list ns \<longrightarrow>
          sum_list out = budget \<and>
          (\<forall>i < length series. \<forall>j < length series. out ! i < ns ! i \<longrightarrow> out ! j \<le> out ! i + 1))"
  unfolding Let_def sizes_of_def [symmetric] using allot_spec [OF assms, where series = series] by blast

section \<open>The balance tool\<close>

lemma newest_drop: "\<exists>k. newest_points n ps = drop k ps"
  unfolding newest_points_def by (metis drop_0)

lemma newest_length: "0 \<le> n \<Longrightarrow> n \<le> int (length ps) \<Longrightarrow> int (length (newest_points n ps)) = n"
  by (auto simp: newest_points_def)

lemma balance_tool_cases:
  assumes "balance_tool z now db raw = Some (Inr payload)"
  shows "\<exists>f series a b. BalanceSeries z (rd_fin db) f = Some series \<and>
    payload = Series (sf_step f) (sf_basis f) a b (fst (toBalanceSeriesResults z series (sf_basis f))) (snd (toBalanceSeriesResults z series (sf_basis f)))"
proof -
  let ?a0 = "\<lparr>ha_account = 0, ha_step = '''', ha_from = '''', ha_to = '''', ha_basis = ''''\<rparr>"
  obtain a where a: "decodeArgs balance_fields raw ?a0 = Inr a"
    using assms by (cases "decodeArgs balance_fields raw ?a0") (simp_all add: balance_tool_def)
  obtain st where st: "parseToolStep (ha_step a) = Inr st" using assms a by (cases "parseToolStep (ha_step a)") (simp_all add: balance_tool_def)
  obtain bs where bs: "ParseBalanceBasis (trim_space (ha_basis a)) = Inr bs"
    using assms a st by (cases "ParseBalanceBasis (trim_space (ha_basis a))") (simp_all add: balance_tool_def)
  obtain x where x: "parseToolDate (ha_from a) = Inr x" using assms a st bs by (cases "parseToolDate (ha_from a)") (simp_all add: balance_tool_def)
  obtain y where y: "parseToolDate (ha_to a) = Inr y" using assms a st bs x by (cases "parseToolDate (ha_to a)") (simp_all add: balance_tool_def)
  define f where "f = \<lparr>sf_account = account_arg db (ha_account a), sf_from = Some (fst (balanceWindow z now x y)),
    sf_to = Some (snd (balanceWindow z now x y)), sf_step = st, sf_basis = bs\<rparr>"
  obtain series where series: "BalanceSeries z (rd_fin db) f = Some series"
    using assms a st bs x y by (cases "BalanceSeries z (rd_fin db) f") (simp_all add: balance_tool_def case_prod_beta f_def)
  have "payload = Series st bs (format_date (fst (balanceWindow z now x y))) (format_date (snd (balanceWindow z now x y)))
      (fst (toBalanceSeriesResults z series bs)) (snd (toBalanceSeriesResults z series bs))"
    using assms a st bs x y series by (simp add: balance_tool_def case_prod_beta f_def)
  with series show ?thesis by (intro exI [of _ f] exI conjI) (auto simp: f_def)
qed

lemma int_sum_map: "int (sum_list (map f xs)) = sum_list (map (\<lambda>x. int (f x)) xs)"
  by (induction xs) simp_all

text \<open>C34: A balance history says when it is cut.  The answer of the tool holds the series that the read service
  computes, in its order, with the totals of the whole window; of each series it shows the newest points,
  at least one of a series that has any, and it is marked as cut exactly when some point is missing.
  When the accounts do not outnumber the budget (150 points for the ledger, 400 for readings), the answer
  holds no more points than the budget.\<close>

theorem balance_history_cut:
  assumes "callTool z like now db ''balance_history'' raw = Some (Inr (Series step basis from to results truncated))"
  shows "\<exists>f series. BalanceSeries z (rd_fin db) f = Some series \<and> sf_step f = step \<and> sf_basis f = basis \<and>
    list_all2 (\<lambda>s r. rs_account r = sr_account s \<and> rs_first r = sr_first s \<and> rs_last r = sr_last s \<and> rs_change r = sr_change s \<and>
       rs_change_pct r = sr_change_pct s \<and>
       (\<exists>k. rs_points r = map (toBalancePointResult z) (drop k (sr_points s))) \<and> (sr_points s \<noteq> [] \<longrightarrow> rs_points r \<noteq> [])) series results \<and>
    (truncated \<longleftrightarrow> (\<exists>i < length series. length (rs_points (results ! i)) < length (sr_points (series ! i)))) \<and>
    (let budget = (if basis = BasisLedger then 150 else 400)
     in length series \<le> budget \<longrightarrow> (\<Sum>r\<leftarrow>results. length (rs_points r)) \<le> budget)"
proof -
  have "balance_tool z now db raw = Some (Inr (Series step basis from to results truncated))" using assms by (simp add: callTool_def)
  then obtain f series where S: "BalanceSeries z (rd_fin db) f = Some series" "sf_step f = step" "sf_basis f = basis"
    "results = fst (toBalanceSeriesResults z series basis)" "truncated = snd (toBalanceSeriesResults z series basis)"
    using balance_tool_cases by fastforce
  define budget :: int where "budget = (if basis = BasisLedger then balanceLedgerPointBudget else balanceSnapshotPointBudget)"
  have B: "0 \<le> budget" by (simp add: budget_def balanceLedgerPointBudget_def balanceSnapshotPointBudget_def)
  define out where "out = allotPoints series budget"
  note A = allot_spec [OF B, where series = series, folded out_def]
  let ?n = "length series"
  have size: "sizes_of series ! i = int (length (sr_points (series ! i)))" if "i < ?n" for i using that by (simp add: sizes_of_def)
  have R: "results = map (\<lambda>(s, n). series_result_of z basis s (newest_points n (sr_points s))) (zip series out)"
    "truncated \<longleftrightarrow> (\<exists>(s, n) \<in> set (zip series out). n < int (length (sr_points s)))"
    unfolding S(4,5) by (simp_all add: toBalanceSeriesResults_def Let_def budget_def out_def)
  have len: "length results = ?n" using A(1) by (simp add: R(1))
  have at: "results ! i = series_result_of z basis (series ! i) (newest_points (out ! i) (sr_points (series ! i)))" if "i < ?n" for i
    using that A(1) by (simp add: R(1))
  have points: "int (length (rs_points (results ! i))) = out ! i" if "i < ?n" for i
    using at [OF that] newest_length [of "out ! i" "sr_points (series ! i)"] A(3) [OF that] size [OF that] by (simp add: series_result_of_def)
  show ?thesis
  proof (intro exI conjI)
    show "list_all2 (\<lambda>s r. rs_account r = sr_account s \<and> rs_first r = sr_first s \<and> rs_last r = sr_last s \<and> rs_change r = sr_change s \<and>
       rs_change_pct r = sr_change_pct s \<and>
       (\<exists>k. rs_points r = map (toBalancePointResult z) (drop k (sr_points s))) \<and> (sr_points s \<noteq> [] \<longrightarrow> rs_points r \<noteq> [])) series results"
    proof (rule list_all2_all_nthI)
      fix i assume i: "i < length series"
      obtain k where "newest_points (out ! i) (sr_points (series ! i)) = drop k (sr_points (series ! i))" using newest_drop by blast
      moreover have "rs_points (results ! i) \<noteq> []" if "sr_points (series ! i) \<noteq> []"
        using points [OF i] A(3) [OF i] size [OF i] that by auto
      ultimately show "rs_account (results ! i) = sr_account (series ! i) \<and> rs_first (results ! i) = sr_first (series ! i) \<and>
          rs_last (results ! i) = sr_last (series ! i) \<and> rs_change (results ! i) = sr_change (series ! i) \<and>
          rs_change_pct (results ! i) = sr_change_pct (series ! i) \<and>
          (\<exists>k. rs_points (results ! i) = map (toBalancePointResult z) (drop k (sr_points (series ! i)))) \<and>
          (sr_points (series ! i) \<noteq> [] \<longrightarrow> rs_points (results ! i) \<noteq> [])"
        unfolding at [OF i] by (auto simp: series_result_of_def)
    qed (simp add: len)
    have "truncated \<longleftrightarrow> (\<exists>i < ?n. out ! i < int (length (sr_points (series ! i))))"
      unfolding R(2) using A(1) by (fastforce simp: set_zip)
    then show "truncated \<longleftrightarrow> (\<exists>i < ?n. length (rs_points (results ! i)) < length (sr_points (series ! i)))"
      using points by (metis of_nat_less_iff)
    have "map (\<lambda>r. int (length (rs_points r))) results = out"
      by (rule nth_equalityI) (use len A(1) points in simp_all)
    then have total: "int (\<Sum>r\<leftarrow>results. length (rs_points r)) = sum_list out"
      by (simp add: int_sum_map)
    have "sum_list out \<le> budget" if "int ?n \<le> budget" using A(2,4) that by (cases "sum_list (sizes_of series) \<le> budget") auto
    then show "let budget = (if basis = BasisLedger then 150 else 400)
        in ?n \<le> budget \<longrightarrow> (\<Sum>r\<leftarrow>results. length (rs_points r)) \<le> budget"
      using total by (auto simp: budget_def balanceLedgerPointBudget_def balanceSnapshotPointBudget_def)
  qed (rule S)+
qed

section \<open>The list of tools is true\<close>

text \<open>A JSON value of a type that the list of tools names.\<close>

fun has_type :: "json \<Rightarrow> json_type \<Rightarrow> bool" where
  "has_type (JInt i) TInteger \<longleftrightarrow> - (2 ^ 63) \<le> i \<and> i < 2 ^ 63"
| "has_type (JStr s) TString \<longleftrightarrow> True"
| "has_type (JBool b) TBoolean \<longleftrightarrow> True"
| "has_type _ _ \<longleftrightarrow> False"

text \<open>The fields of a tool read exactly the arguments that are announced, at their types.\<close>

definition reads :: "'a fields \<Rightarrow> (string \<times> json_type) list \<Rightarrow> bool" where
  "reads fs ps \<longleftrightarrow> map fst fs = map fst ps \<and> distinct (map fst ps) \<and>
     (\<forall>k put t v a. map_of fs k = Some put \<longrightarrow> (k, t) \<in> set ps \<longrightarrow> has_type v t \<longrightarrow> put v a \<noteq> None) \<and>
     (\<forall>k \<in> fst ` set ps. fold_name k = k)"

lemma typed_values:
  "has_type v TInteger \<longleftrightarrow> (\<exists>i. v = JInt i \<and> - (2 ^ 63) \<le> i \<and> i < 2 ^ 63)"
  "has_type v TString \<longleftrightarrow> (\<exists>s. v = JStr s)" "has_type v TBoolean \<longleftrightarrow> (\<exists>b. v = JBool b)"
  by (cases v; simp)+

lemma setters_take:
  "has_type v TInteger \<Longrightarrow> set_int f v a \<noteq> None" "has_type v TString \<Longrightarrow> set_str g v a \<noteq> None"
  "has_type v TBoolean \<Longrightarrow> set_bool h v a \<noteq> None"
  by (auto simp: typed_values set_int_def set_str_def set_bool_def)

lemma reads_Nil: "reads [] []"
  by (simp add: reads_def)

lemma reads_Cons:
  assumes "k \<notin> fst ` set ps" "fold_name k = k" "\<And>v a. has_type v t \<Longrightarrow> put v a \<noteq> None" "reads fs ps"
  shows "reads ((k, put) # fs) ((k, t) # ps)"
  unfolding reads_def
proof (intro conjI allI impI ballI)
  show "map fst ((k, put) # fs) = map fst ((k, t) # ps)" "distinct (map fst ((k, t) # ps))"
    using assms(1,4) by (simp_all add: reads_def)
  show "fold_name i = i" if "i \<in> fst ` set ((k, t) # ps)" for i using that assms(2,4) by (auto simp: reads_def)
  show "set v a \<noteq> None" if m: "map_of ((k, put) # fs) i = Some set" "(i, u) \<in> List.set ((k, t) # ps)" "has_type v u" for i set u v a
  proof (cases "i = k")
    case True
    then have "u = t" using m(2) assms(1) by (auto simp: image_iff)
    then show ?thesis using m True assms(3) by simp
  next
    case False
    then have "map_of fs i = Some set" "(i, u) \<in> List.set ps" using m by auto
    then show ?thesis using assms(4) m(3) unfolding reads_def by blast
  qed
qed

lemma reads_all:
  "reads list_txn_fields [(''account_id'', TInteger), (''from'', TString), (''to'', TString), (''limit'', TInteger), (''external_only'', TBoolean)]"
  "reads search_fields [(''query'', TString), (''limit'', TInteger), (''from'', TString), (''to'', TString)]"
  "reads monthly_fields [(''account_id'', TInteger), (''months'', TInteger)]"
  "reads spending_fields [(''from'', TString), (''to'', TString), (''account_id'', TInteger)]"
  "reads balance_fields [(''account_id'', TInteger), (''step'', TString), (''from'', TString), (''to'', TString), (''basis'', TString)]"
  "reads wishlist_fields [(''status'', TString), (''limit'', TInteger)]"
  "reads bills_fields [(''status'', TString), (''within_days'', TInteger), (''account_id'', TInteger)]"
  unfolding list_txn_fields_def search_fields_def monthly_fields_def spending_fields_def balance_fields_def wishlist_fields_def
    bills_fields_def
  by (intro reads_Cons reads_Nil; (erule setters_take | code_simp | simp))+

lemma put_all:
  assumes "reads fs ps" "\<forall>(k, v) \<in> set ms. \<exists>t. (k, t) \<in> set ps \<and> has_type v t"
  shows "snd (fold (put_member fs) ms (a, True))"
  using assms(2)
proof (induction ms arbitrary: a)
  case (Cons kv ms)
  obtain k v where kv: "kv = (k, v)" by fastforce
  then obtain t where t: "(k, t) \<in> set ps" "has_type v t" using Cons.prems by auto
  then have name: "fold_name k = k" using assms(1) by (force simp: reads_def)
  have "k \<in> set (map fst fs)" using assms(1) t(1) by (force simp: reads_def)
  then obtain put where put: "map_of fs k = Some put" by (cases "map_of fs k") (auto simp: map_of_eq_None_iff)
  then have "put v a \<noteq> None" using assms(1) t unfolding reads_def by blast
  then obtain a' where "put v a = Some a'" by blast
  then have "put_member fs kv (a, True) = (a', True)" by (simp add: put_member_def kv name put)
  then show ?case using Cons by simp
qed simp

lemma unmarshal_typed:
  assumes "reads fs ps" "\<forall>(k, v) \<in> set ms. \<exists>t. (k, t) \<in> set ps \<and> has_type v t"
  shows "decodeArgs fs (Some (JObj ms)) a \<noteq> Inl BadArguments"
  using put_all [OF assms, of a] by (simp add: decodeArgs_def unmarshal_def Let_def)

lemma unmarshal_other:
  assumes "reads fs ps" "fold_name k \<notin> fst ` set ps"
  shows "decodeArgs fs (Some (JObj (ms @ (k, v) # ns))) a = decodeArgs fs (Some (JObj (ms @ ns))) a"
proof -
  have "fold_name k \<notin> fst ` set fs" using assms by (metis reads_def list.set_map)
  then have "map_of fs (fold_name k) = None" by (simp add: map_of_eq_None_iff)
  then have "put_member fs (k, v) st = st" for st by (simp add: put_member_def)
  then show ?thesis by (simp add: decodeArgs_def unmarshal_def)
qed

lemma tool_errors:
  "decodeArgs list_txn_fields raw \<lparr>la_account = 0, la_from = '''', la_to = '''', la_limit = 0, la_external = False\<rparr> \<noteq> Inl BadArguments \<Longrightarrow>
     txn_tool db raw \<noteq> Inl BadArguments"
  "decodeArgs search_fields raw \<lparr>sa_query = '''', sa_limit = 0, sa_from = '''', sa_to = ''''\<rparr> \<noteq> Inl BadArguments \<Longrightarrow>
     search_tool like db raw \<noteq> Inl BadArguments"
  "decodeArgs spending_fields raw \<lparr>pa_from = '''', pa_to = '''', pa_account = 0\<rparr> \<noteq> Inl BadArguments \<Longrightarrow>
     spending_tool now db raw \<noteq> Inl BadArguments"
  "decodeArgs monthly_fields raw \<lparr>ma_account = 0, ma_months = 0\<rparr> \<noteq> Inl BadArguments \<Longrightarrow> monthly_tool now db raw \<noteq> Inl BadArguments"
  "decodeArgs balance_fields raw \<lparr>ha_account = 0, ha_step = '''', ha_from = '''', ha_to = '''', ha_basis = ''''\<rparr> \<noteq> Inl BadArguments \<Longrightarrow>
     balance_tool z now db raw \<noteq> Some (Inl BadArguments)"
  "decodeArgs wishlist_fields raw \<lparr>wa_status = '''', wa_limit = 0\<rparr> \<noteq> Inl BadArguments \<Longrightarrow> wishlist_tool db raw \<noteq> Inl BadArguments"
  "decodeArgs bills_fields raw \<lparr>ba_status = '''', ba_within = 0, ba_account = 0\<rparr> \<noteq> Inl BadArguments \<Longrightarrow> bills_tool z now db raw \<noteq> Inl BadArguments"
  by (auto simp: txn_tool_def search_tool_def spending_tool_def monthly_tool_def balance_tool_def wishlist_tool_def bills_tool_def Let_def
      parseToolDate_def parseToolStep_def case_prod_beta split: sum.splits option.splits if_splits)

lemma tool_cases:
  assumes "d \<in> set toolDefinitions"
  obtains "d = tool ''get_net_worth'' [] []" | "d = tool ''list_accounts'' [] []" | "d = tool ''list_pending'' [] []"
  | ps rs where "reads list_txn_fields ps" "d = tool ''list_transactions'' ps rs"
  | ps rs where "reads search_fields ps" "d = tool ''search_merchant'' ps rs"
  | ps rs where "reads monthly_fields ps" "d = tool ''monthly_summary'' ps rs"
  | ps rs where "reads spending_fields ps" "d = tool ''spending_summary'' ps rs"
  | ps rs where "reads balance_fields ps" "d = tool ''balance_history'' ps rs"
  | ps rs where "reads wishlist_fields ps" "d = tool ''list_wishlist'' ps rs"
  | ps rs where "reads bills_fields ps" "d = tool ''list_recurring_bills'' ps rs"
  using assms unfolding toolDefinitions_def list.set insert_iff empty_iff
  by (elim disjE FalseE)
    (erule that(1) that(2) that(3) that(4) [OF reads_all(1)] that(5) [OF reads_all(2)] that(6) [OF reads_all(3)]
      that(7) [OF reads_all(4)] that(8) [OF reads_all(5)] that(9) [OF reads_all(6)] that(10) [OF reads_all(7)])+

lemma called:
  "callTool z like now db ''get_net_worth'' raw = Some (Inr (NetWorth (toSummaryResult (NetWorthSummary (rd_fin db)))))"
  "callTool z like now db ''list_accounts'' raw = Some (Inr (AccountList (toAccountResults (Accounts (rd_fin db)))))"
  "callTool z like now db ''list_transactions'' raw = Some (txn_tool db raw)"
  "callTool z like now db ''search_merchant'' raw = Some (search_tool like db raw)"
  "callTool z like now db ''spending_summary'' raw = Some (spending_tool now db raw)"
  "callTool z like now db ''monthly_summary'' raw = Some (monthly_tool now db raw)"
  "callTool z like now db ''balance_history'' raw = balance_tool z now db raw"
  "callTool z like now db ''list_pending'' raw = Some (Inr (PendingList (toPendingResults (FinanceRead.Pending (rd_fin db) 0))))"
  "callTool z like now db ''list_wishlist'' raw = Some (wishlist_tool db raw)"
  "callTool z like now db ''list_recurring_bills'' raw = Some (bills_tool z now db raw)"
  by (simp_all add: callTool_def)

lemma tool_typed:
  assumes "d \<in> set toolDefinitions" "\<forall>(k, v) \<in> set ms. \<exists>t. (k, t) \<in> set (tool_props d) \<and> has_type v t"
  shows "callTool z like now db (tool_name d) (Some (JObj ms)) \<noteq> Some (Inl BadArguments)"
  by (rule tool_cases [OF assms(1)]) (use assms(2) in \<open>simp_all add: tool_def called unmarshal_typed tool_errors\<close>)

lemma tool_other:
  assumes "d \<in> set toolDefinitions" "fold_name k \<notin> fst ` set (tool_props d)"
  shows "callTool z like now db (tool_name d) (Some (JObj (ms @ (k, v) # ns))) = callTool z like now db (tool_name d) (Some (JObj (ms @ ns)))"
  by (rule tool_cases [OF assms(1)]) (use assms(2) in \<open>simp_all add: tool_def called unmarshal_other txn_tool_def search_tool_def spending_tool_def monthly_tool_def
    balance_tool_def wishlist_tool_def bills_tool_def\<close>)

lemma tool_unknown:
  "callTool z like now db name raw = Some (Inl (UnknownTool n)) \<longleftrightarrow> n = name \<and> name \<notin> tool_name ` set toolDefinitions"
proof -
  note defs = Let_def parseToolDate_def parseToolStep_def decodeArgs_def case_prod_beta
  have "txn_tool db raw \<noteq> Inl (UnknownTool n)"
    by (simp add: txn_tool_def defs split: sum.split option.split)
  moreover have "search_tool like db raw \<noteq> Inl (UnknownTool n)"
    by (simp add: search_tool_def defs split: sum.split option.split)
  moreover have "spending_tool now db raw \<noteq> Inl (UnknownTool n)" "monthly_tool now db raw \<noteq> Inl (UnknownTool n)"
    by (simp_all add: spending_tool_def monthly_tool_def defs split: sum.split option.split)
  moreover have "balance_tool z now db raw \<noteq> Some (Inl (UnknownTool n))"
    by (simp add: balance_tool_def defs split: sum.split option.split)
  moreover have "wishlist_tool db raw \<noteq> Inl (UnknownTool n)" "bills_tool z now db raw \<noteq> Inl (UnknownTool n)"
    by (simp_all add: wishlist_tool_def bills_tool_def defs split: sum.split option.split prod.split)
  ultimately show ?thesis by (auto simp: callTool_def toolDefinitions_def tool_def)
qed

text \<open>The list of tools is true.  A call is refused as unknown exactly when its name is not on the list; an
  object whose members are announced arguments of the announced JSON types is always decoded; and a
  member that is not announced is passed over, so it changes nothing in the answer.\<close>

theorem tool_list_true:
  "(callTool z like now db name raw = Some (Inl (UnknownTool name)) \<longleftrightarrow> name \<notin> tool_name ` set toolDefinitions) \<and>
   (\<forall>d \<in> set toolDefinitions. \<forall>ms. (\<forall>(k, v) \<in> set ms. \<exists>t. (k, t) \<in> set (tool_props d) \<and> has_type v t) \<longrightarrow>
      callTool z like now db (tool_name d) (Some (JObj ms)) \<noteq> Some (Inl BadArguments)) \<and>
   (\<forall>d \<in> set toolDefinitions. \<forall>ms k v ns. fold_name k \<notin> fst ` set (tool_props d) \<longrightarrow>
      callTool z like now db (tool_name d) (Some (JObj (ms @ (k, v) # ns))) = callTool z like now db (tool_name d) (Some (JObj (ms @ ns))))"
  by (intro conjI ballI allI impI tool_typed tool_other) (auto simp: tool_unknown)

section \<open>Every request is answered\<close>

lemma callTool_total: "zone_ok z \<Longrightarrow> callTool z like now db name raw \<noteq> None"
proof -
  assume z: "zone_ok z"
  have "balance_tool z now db raw \<noteq> None"
    using BalanceSeries_total [OF z] by (auto simp: balance_tool_def case_prod_beta split: sum.split)
  then show ?thesis by (simp add: callTool_def)
qed

lemma dispatch_total: "zone_ok z \<Longrightarrow> dispatch z like now db req \<noteq> None"
  using callTool_total by (auto simp: dispatch_def handleToolsCall_def split: option.split)


section \<open>Finance data is gated\<close>

text \<open>C36: Nothing of the ledger leaves without a credential.  For a caller who is not an administrator every
  dashboard endpoint answers with the refusal of the gate, whatever the tables hold.  The tool server
  answers a request that is not an authorized POST the same for any two ledgers, and even an authorized
  one depends on the ledger only when it calls a tool.\<close>

theorem finance_reads_gated:
  "(\<forall>err. requireAdmin ctx = Inl err \<longrightarrow>
      getFinanceSummary ctx db = Inl err \<and> listFinanceAccounts ctx db = Inl err \<and> listFinanceTransactions ctx q db = Inl err \<and>
      listFinancePending ctx a db = Inl err \<and> listFinanceWishlist ctx st db = Inl err \<and> listFinanceBills ctx st days a now db = Inl err \<and>
      getFinanceBalanceHistory z ctx a days st bt now db = Some (Inl err) \<and>
      updateAccount ctx i inp now (rd_fin db) = (Inl err, rd_fin db)) \<and>
   (ServeHTTP s parse z like now odb db r \<noteq> ServeHTTP s parse z like now odb db' r \<longrightarrow>
      hr_method r = ''POST'' \<and> mcp_authorize s (hr_authorization r) now odb \<and>
      (\<exists>req. read_request parse (hr_body r) = Inr req \<and> rq_method req = ''tools/call''))"
proof (intro conjI allI impI)
  assume "ServeHTTP s parse z like now odb db r \<noteq> ServeHTTP s parse z like now odb db' r"
  then show "hr_method r = ''POST''" "mcp_authorize s (hr_authorization r) now odb"
    "\<exists>req. read_request parse (hr_body r) = Inr req \<and> rq_method req = ''tools/call''"
    by (auto simp: ServeHTTP_def dispatch_def split: if_splits sum.splits)
qed (simp_all add: getFinanceSummary_def listFinanceAccounts_def listFinanceTransactions_def listFinancePending_def listFinanceWishlist_def
    listFinanceBills_def getFinanceBalanceHistory_def updateAccount_def)

section \<open>The tools and the dashboard agree\<close>

definition account_of_dto :: "account_dto \<Rightarrow> account_result" where
  "account_of_dto d =
     \<lparr>ar_id = ad_id d, ar_name = ad_name d, ar_masked = ad_masked d, ar_type = ad_type d, ar_class = ad_class d,
      ar_currency = ad_currency d, ar_description = nonempty (ad_description d), ar_drawdown = ad_drawdown d,
      ar_balance = ad_balance d, ar_available = ad_available d, ar_limit = ad_limit d,
      ar_balance_as_of = ad_balance_as_of d, ar_watermark = ad_watermark d\<rparr>"

definition bill_of_dto :: "bill_dto \<Rightarrow> bill_result" where
  "bill_of_dto d =
     \<lparr>br_id = bd_id d, br_name = bd_name d, br_payee = nonempty (bd_payee d), br_status = bd_status d, br_cadence = bd_cadence d,
      br_amount = bd_amount d, br_monthly = bd_monthly d, br_currency = bd_currency d, br_variable = bd_variable d,
      br_next_due = bd_next_due d, br_days = bd_days d, br_overdue = bd_overdue d, br_auto = bd_auto d,
      br_last_date = bd_last_date d, br_last_amount = bd_last_amount d, br_account = bd_account d,
      br_account_name = nonempty (bd_account_name d)\<rparr>"

definition int64 :: "int \<Rightarrow> bool" where
  "int64 i \<longleftrightarrow> - (2 ^ 63) \<le> i \<and> i < 2 ^ 63"

definition txn_arguments :: "txn_query \<Rightarrow> json option" where
  "txn_arguments q = Some (JObj [(''account_id'', JInt (tq_account q)), (''from'', JStr (tq_from q)), (''to'', JStr (tq_to q)),
     (''limit'', JInt (tq_limit q))])"

lemma fold_names [simp]:
  "fold_name ''account_id'' = ''account_id''" "fold_name ''from'' = ''from''" "fold_name ''to'' = ''to''" "fold_name ''limit'' = ''limit''"
  "fold_name ''status'' = ''status''" "fold_name ''within_days'' = ''within_days''"
  by code_simp+

lemma date_arguments:
  "parseToolDate s = (case parseQueryDate s of Inl _ \<Rightarrow> Inl (BadDate (trim_space s)) | Inr d \<Rightarrow> Inr d)"
  by (simp add: parseToolDate_def parseQueryDate_def Let_def split: option.split)

lemma txn_tool_query:
  assumes "int64 (tq_account q)" "int64 (tq_limit q)" "tq_offset q = 0" "requireAdmin ctx = Inr u"
  shows "case listFinanceTransactions ctx q db of
      Inr (ds, n) \<Rightarrow> txn_tool db (txn_arguments q) = Inr (TxnPage ds n False)
    | Inl _ \<Rightarrow> \<exists>s. txn_tool db (txn_arguments q) = Inl (BadDate s)"
proof -
  have args: "decodeArgs list_txn_fields (txn_arguments q) \<lparr>la_account = 0, la_from = '''', la_to = '''', la_limit = 0, la_external = False\<rparr> =
      Inr \<lparr>la_account = tq_account q, la_from = tq_from q, la_to = tq_to q, la_limit = tq_limit q, la_external = False\<rparr>"
    using assms(1,2) unfolding int64_def
    by (simp add: decodeArgs_def txn_arguments_def unmarshal_def put_member_def list_txn_fields_def set_int_def set_str_def)
  show ?thesis
    unfolding txn_tool_def args sum.case listFinanceTransactions_def assms(4)
    by (simp add: date_arguments assms(3) ListTransactions_def Let_def toTxnResults_def toFinanceTxnDTO_def [abs_def] split: sum.split)
qed

lemma wishlist_tool_query:
  assumes "requireAdmin ctx = Inr u"
  shows "case listFinanceWishlist ctx status db of
      Inr w \<Rightarrow> wishlist_tool db (Some (JObj [(''status'', JStr status)])) = Inr (WishPage (wl_items w) (wt_count (wl_totals w))
         (wt_known (wl_totals w)) (wt_unknown (wl_totals w)) (wt_mismatch (wl_totals w)) (wl_truncated w))
    | Inl _ \<Rightarrow> wishlist_tool db (Some (JObj [(''status'', JStr status)])) = Inl (BadWishStatus status)"
proof -
  have args: "decodeArgs wishlist_fields (Some (JObj [(''status'', JStr status)])) \<lparr>wa_status = '''', wa_limit = 0\<rparr> =
      Inr \<lparr>wa_status = status, wa_limit = 0\<rparr>"
    by (simp add: decodeArgs_def unmarshal_def put_member_def wishlist_fields_def set_str_def)
  have bad: "e = status" if "Wishlist (rd_wishes db) status 0 = Inl e" for e
    using that by (auto simp: Wishlist_def parse_wish_status_def Let_def split: if_splits)
  show ?thesis
    unfolding wishlist_tool_def args sum.case listFinanceWishlist_def assms
    using bad by (auto simp: toWishlistResults_def wish_dto_of_def [abs_def] split: sum.split)
qed

lemma statuses:
  "parse_bill_status ''active'' = Some (Some Active)" "parse_bill_status ''paused'' = Some (Some Paused)"
  "parse_bill_status ''ended'' = Some (Some Ended)" "parse_bill_status ''all'' = Some None"
  "to_lower (trim_space ''active'') = ''active''" "to_lower (trim_space ''paused'') = ''paused''"
  "to_lower (trim_space ''ended'') = ''ended''" "to_lower (trim_space ''all'') = ''all''"
  by code_simp+

lemma bills_tool_query:
  assumes "requireAdmin ctx = Inr u" "int64 days" "int64 a" "status \<in> {''active'', ''paused'', ''ended'', ''all''}"
  shows "\<exists>bs tots. listFinanceBills ctx status days a (localToday z now) db = Inr (bs, tots) \<and>
    bills_tool z now db (Some (JObj [(''status'', JStr status), (''within_days'', JInt days), (''account_id'', JInt a)])) =
      Inr (BillPage (map bill_of_dto bs) tots)"
proof -
  have args: "decodeArgs bills_fields (Some (JObj [(''status'', JStr status), (''within_days'', JInt days), (''account_id'', JInt a)]))
      \<lparr>ba_status = '''', ba_within = 0, ba_account = 0\<rparr> = Inr \<lparr>ba_status = status, ba_within = days, ba_account = a\<rparr>"
    using assms(2,3) unfolding int64_def
    by (simp add: decodeArgs_def unmarshal_def put_member_def bills_fields_def set_str_def set_int_def)
  have lower: "to_lower (trim_space status) = status" "status \<noteq> ''''" using assms(4) statuses(5-8) by auto
  obtain sel where sel: "parse_bill_status status = Some sel" using assms(4) statuses(1-4) by auto
  obtain views tots where L: "ListRecurringBills (rd_fin db) (rd_bills db) (rd_pays db)
      \<lparr>bf_status = status, bf_within = days, bf_account = account_arg db a\<rparr> (localToday z now) = Inr (views, tots)"
    by (simp add: ListRecurringBills_def sel Let_def)
  have "map bill_of_dto (toFinanceBillDTOs views) = toBillResults views"
    by (simp add: toFinanceBillDTOs_def toBillResults_def bill_of_dto_def bill_result_of_def toFinanceBillDTO_def)
  then show ?thesis
    unfolding bills_tool_def args sum.case listFinanceBills_def assms(1) Let_def using lower assms(4) by (simp add: L)
qed

text \<open>C37: The tools and the dashboard agree.  For an administrator, net worth, accounts and pending rows are the
  same in both, field by field (a tool leaves out an empty description); a page of transactions from the
  start is the same rows and the same total, and a date the dashboard refuses is refused by the tool; the
  wishlist is the same items and totals for every status; and a bill list is the same rows and totals
  when the server's day is the owner's.\<close>

theorem tools_match_dashboard:
  assumes "requireAdmin ctx = Inr u"
  shows
  "(\<exists>s. getFinanceSummary ctx db = Inr s \<and> callTool z like now db ''get_net_worth'' raw = Some (Inr (NetWorth s))) \<and>
   (\<exists>xs. listFinanceAccounts ctx db = Inr xs \<and> callTool z like now db ''list_accounts'' raw = Some (Inr (AccountList (map account_of_dto xs)))) \<and>
   (\<exists>ps. listFinancePending ctx 0 db = Inr ps \<and> callTool z like now db ''list_pending'' raw = Some (Inr (PendingList ps))) \<and>
   (int64 (tq_account q) \<and> int64 (tq_limit q) \<and> tq_offset q = 0 \<longrightarrow>
     (case listFinanceTransactions ctx q db of
        Inr (ds, n) \<Rightarrow> callTool z like now db ''list_transactions'' (txn_arguments q) = Some (Inr (TxnPage ds n False))
      | Inl _ \<Rightarrow> \<exists>s. callTool z like now db ''list_transactions'' (txn_arguments q) = Some (Inl (BadDate s)))) \<and>
   (case listFinanceWishlist ctx status db of
      Inr w \<Rightarrow> callTool z like now db ''list_wishlist'' (Some (JObj [(''status'', JStr status)])) = Some (Inr (WishPage (wl_items w)
         (wt_count (wl_totals w)) (wt_known (wl_totals w)) (wt_unknown (wl_totals w)) (wt_mismatch (wl_totals w)) (wl_truncated w)))
    | Inl _ \<Rightarrow> callTool z like now db ''list_wishlist'' (Some (JObj [(''status'', JStr status)])) = Some (Inl (BadWishStatus status))) \<and>
   (int64 days \<and> int64 a \<and> st \<in> {''active'', ''paused'', ''ended'', ''all''} \<longrightarrow>
     (\<exists>bs tots. listFinanceBills ctx st days a (localToday z now) db = Inr (bs, tots) \<and>
        callTool z like now db ''list_recurring_bills''
          (Some (JObj [(''status'', JStr st), (''within_days'', JInt days), (''account_id'', JInt a)])) =
          Some (Inr (BillPage (map bill_of_dto bs) tots))))"
  unfolding called
proof (intro conjI impI)
  show "\<exists>s. getFinanceSummary ctx db = Inr s \<and> Some (Inr (NetWorth (toSummaryResult (NetWorthSummary (rd_fin db))))) = Some (Inr (NetWorth s))"
    by (simp add: getFinanceSummary_def assms toSummaryResult_def Let_def)
  show "\<exists>xs. listFinanceAccounts ctx db = Inr xs \<and> Some (Inr (AccountList (toAccountResults (Accounts (rd_fin db))))) =
      Some (Inr (AccountList (map account_of_dto xs)))"
    by (simp add: listFinanceAccounts_def assms toAccountResults_def account_of_dto_def toFinanceAccountDTO_def account_result_of_def)
  show "\<exists>ps. listFinancePending ctx 0 db = Inr ps \<and> Some (Inr (PendingList (toPendingResults (FinanceRead.Pending (rd_fin db) 0)))) =
      Some (Inr (PendingList ps))"
    by (simp add: listFinancePending_def assms account_arg_def toPendingResults_def pending_dto_of_def [abs_def])
  show "case listFinanceTransactions ctx q db of
      Inr (ds, n) \<Rightarrow> Some (txn_tool db (txn_arguments q)) = Some (Inr (TxnPage ds n False))
    | Inl _ \<Rightarrow> \<exists>s. Some (txn_tool db (txn_arguments q)) = Some (Inl (BadDate s))"
    if "int64 (tq_account q) \<and> int64 (tq_limit q) \<and> tq_offset q = 0"
    using txn_tool_query [OF _ _ _ assms, where q = q and db = db] that by (simp split: sum.splits prod.splits)
  show "case listFinanceWishlist ctx status db of
      Inr w \<Rightarrow> Some (wishlist_tool db (Some (JObj [(''status'', JStr status)]))) = Some (Inr (WishPage (wl_items w)
         (wt_count (wl_totals w)) (wt_known (wl_totals w)) (wt_unknown (wl_totals w)) (wt_mismatch (wl_totals w)) (wl_truncated w)))
    | Inl _ \<Rightarrow> Some (wishlist_tool db (Some (JObj [(''status'', JStr status)]))) = Some (Inl (BadWishStatus status))"
    using wishlist_tool_query [OF assms, where status = status and db = db] by (simp split: sum.splits)
qed (use bills_tool_query [OF assms] in auto)

section \<open>Concrete requests\<close>

definition ex_rd :: read_db where
  "ex_rd = \<lparr>rd_fin = ex_read_db, rd_bills = [ex_bill], rd_pays = [], rd_wishes = []\<rparr>"

definition ex_many :: "series_view list" where
  "ex_many = map (\<lambda>n. (newSeriesView ex_everyday (ex_days BasisLedger))\<lparr>sr_points := replicate n (raw_point 0 0)\<rparr>) [5, 0, 2, 4]"

lemma ex_sizes: "map (\<lambda>s. int (length (sr_points s))) ex_many = [5, 0, 2, 4]" "length ex_many = 4"
  by (simp_all add: ex_many_def)

lemma allot_points_fair_witness: "sum_list (allotPoints ex_many 8) = 8 \<and> 0 < allotPoints ex_many 8 ! 2"
proof -
  have "\<forall>i < length ex_many. 0 < [5, 0, 2, 4 :: int] ! i \<longrightarrow> 0 < allotPoints ex_many 8 ! i" "sum_list (allotPoints ex_many 8) = 8"
    using allot_points_fair [of 8 ex_many] by (simp_all add: Let_def ex_sizes)
  then show ?thesis by (simp add: ex_sizes(2))
qed

lemma those_length: "those xs = Some ys \<Longrightarrow> length ys = length xs"
  by (induction xs arbitrary: ys) (auto split: option.splits)

lemma ex_history:
  "\<exists>step basis a b results truncated.
     callTool ex_zone like now ex_rd ''balance_history'' None = Some (Inr (Series step basis a b results truncated)) \<and> length results = 1"
proof -
  let ?w = "balanceWindow ex_zone now None None"
  let ?f = "\<lparr>sf_account = 0, sf_from = Some (fst ?w), sf_to = Some (snd ?w), sf_step = StepMonth, sf_basis = BasisSnapshot\<rparr>"
  obtain series where s: "BalanceSeries ex_zone ex_read_db ?f = Some series" using BalanceSeries_total [OF ex_zone_ok] by blast
  have one: "length (accounts ex_read_db) = 1" by (simp add: ex_read_db_def ex_fin_def)
  have "length series = 1"
    using s one by (auto simp: BalanceSeries_def Let_def seriesAccounts_def dest!: those_length)
  moreover have "length (allotPoints series b) = length series" if "0 \<le> b" for b by (rule allot_spec(1) [OF that])
  ultimately have "length (fst (toBalanceSeriesResults ex_zone series BasisSnapshot)) = 1"
    by (simp add: toBalanceSeriesResults_def Let_def balanceSnapshotPointBudget_def)
  moreover have "parseToolDate '''' = Inr None" "parseToolStep '''' = Inr StepMonth" "ParseBalanceBasis (trim_space '''') = Inr BasisSnapshot"
    by code_simp+
  ultimately show ?thesis
    using s by (simp add: called balance_tool_def decodeArgs_def case_prod_beta ex_rd_def account_arg_def)
qed

lemma balance_history_cut_witness:
  "\<exists>step basis a b results truncated.
     callTool ex_zone (\<lambda>_ _. False) ex_today ex_rd ''balance_history'' None = Some (Inr (Series step basis a b results truncated)) \<and>
     length results = 1 \<and> (\<Sum>r\<leftarrow>results. length (rs_points r)) \<le> 400"
proof -
  obtain step basis a b results truncated where
    r: "callTool ex_zone (\<lambda>_ _. False) ex_today ex_rd ''balance_history'' None = Some (Inr (Series step basis a b results truncated))"
    "length results = 1" using ex_history by blast
  from balance_history_cut [OF r(1)] obtain series :: "series_view list" where
    "length series = length results"
    "length series \<le> (if basis = BasisLedger then 150 else 400) \<longrightarrow>
       (\<Sum>r\<leftarrow>results. length (rs_points r)) \<le> (if basis = BasisLedger then 150 else 400)"
    unfolding Let_def by (elim exE conjE) (rule that, erule list_all2_lengthD, assumption)
  then have "(\<Sum>r\<leftarrow>results. length (rs_points r)) \<le> 400" using r(2) by (auto split: if_splits)
  with r show ?thesis by blast
qed

lemma tool_list_true_witness:
  "callTool ex_zone (\<lambda>_ _. False) ex_today ex_rd ''drop_tables'' None = Some (Inl (UnknownTool ''drop_tables'')) \<and>
   callTool ex_zone (\<lambda>_ _. False) ex_today ex_rd ''list_wishlist'' (Some (JObj [(''status'', JStr ''all'')])) \<noteq> Some (Inl BadArguments)"
proof -
  note T = tool_list_true [where z = ex_zone and like = "\<lambda>_ _. False" and now = ex_today and db = ex_rd]
  have "tool ''list_wishlist'' [(''status'', TString), (''limit'', TInteger)] [] \<in> set toolDefinitions" by (simp add: toolDefinitions_def)
  with T [THEN conjunct2, THEN conjunct1]
  have "callTool ex_zone (\<lambda>_ _. False) ex_today ex_rd ''list_wishlist'' (Some (JObj [(''status'', JStr ''all'')])) \<noteq> Some (Inl BadArguments)"
    by (fastforce simp: tool_def)
  moreover have "''drop_tables'' \<notin> tool_name ` set toolDefinitions" by (simp add: toolDefinitions_def tool_def)
  ultimately show ?thesis using T [THEN conjunct1] by blast
qed

text \<open>A ping with an id, and one without.\<close>

definition ex_ping :: "json option \<Rightarrow> string \<Rightarrow> json option" where
  "ex_ping i _ = Some (JObj ([(''jsonrpc'', JStr ''2.0''), (''method'', JStr ''ping'')] @ (case i of None \<Rightarrow> [] | Some j \<Rightarrow> [(''id'', j)])))"

definition ex_post :: http_request where
  "ex_post = \<lparr>hr_method = ''POST'', hr_authorization = ''Bearer a2'', hr_body = Some ''''\<rparr>"

lemma ex_authorized: "mcp_authorize ex_os ''Bearer a2'' (ex_t0 + 3) ex_second"
proof -
  have "readBearer ''Bearer a2'' = ''a2''" "os_resource ex_os = ''https://api.aliflabs.dev/mcp''" "scopeContains ex_scope financeReadScope"
    by code_simp+
  then show ?thesis
    using ex_service_simps(1)
    by (simp add: mcp_authorize_def VerifyMCPAccess_def Let_def ex_second_def ex_tok_def ex_used_def ex_code_def accessTokenTTL_def hour_ns_def second_ns_def)
qed

lemma ex_ping_read:
  "read_request (ex_ping i) (Some '''') = Inr \<lparr>rq_version = ''2.0'', rq_id = i, rq_method = ''ping'', rq_params = None\<rparr>"
proof -
  have "fold_name ''jsonrpc'' = ''jsonrpc''" "fold_name ''method'' = ''method''" "fold_name ''id'' = ''id''" by code_simp+
  then show ?thesis
    by (simp add: read_request_def ex_ping_def unmarshal_def put_member_def request_fields_def set_str_def set_raw_def Let_def split: option.split)
qed


lemma finance_reads_gated_witness:
  "getFinanceSummary no_ctx ex_rd = Inl (Http 401 ''authentication required'') \<and>
   listFinanceAccounts no_ctx ex_rd = Inl (Http 401 ''authentication required'')"
proof -
  have "requireAdmin no_ctx = Inl (Http 401 ''authentication required'')" by code_simp
  then show ?thesis using finance_reads_gated [where ctx = no_ctx and db = ex_rd, THEN conjunct1] by blast
qed

lemma tools_match_dashboard_witness:
  "\<exists>xs. listFinanceAccounts ex_owner ex_rd = Inr xs \<and>
     callTool ex_zone (\<lambda>_ _. False) ex_today ex_rd ''list_accounts'' None = Some (Inr (AccountList (map account_of_dto xs)))"
proof -
  have "requireAdmin ex_owner = Inr (the (x_user ex_owner))" by code_simp
  from tools_match_dashboard [OF this, THEN conjunct2, THEN conjunct1] show ?thesis .
qed

end
