(* ===== verification/Showcase.thy ===== *)
theory Showcase
  imports Auth
begin

text \<open>
  The public site: the projects and their management (\<open>internal/api/projects.go\<close>, \<open>admin_projects.go\<close>), image
  uploads (\<open>admin_uploads.go\<close>) and the contact form (\<open>contact.go\<close>).  An input is what the framework has decoded and
  validated.  The schema's validators count bytes and refuse a write before the database sees it.  Random bytes,
  the presigning of a URL and the queue's answer are inputs.

  Rows with an order of their own are reordered by the same loop for projects and playlists; its contract is
  the locale \<open>ordered_rows\<close>.
\<close>

section \<open>Reordering\<close>

text \<open>The loop of the transaction: \<open>None\<close> when an id is not found, and then nothing is kept.\<close>

fun reorder_by :: "('r \<Rightarrow> nat) \<Rightarrow> (int \<Rightarrow> 'r \<Rightarrow> 'r) \<Rightarrow> (nat \<times> int) list \<Rightarrow> 'r list \<Rightarrow> 'r list option" where
  "reorder_by key place [] rows = Some rows"
| "reorder_by key place ((i, n) # items) rows =
     (if i \<notin> key ` set rows then None
      else reorder_by key place items (update_where (\<lambda>r. key r = i) (place n) rows))"

locale ordered_rows =
  fixes key :: "'r \<Rightarrow> nat"
    and place :: "int \<Rightarrow> 'r \<Rightarrow> 'r"
  assumes key_kept: "key (place n r) = key r"
    and last_place: "place n (place k r) = place n r"
begin

lemma keys_kept: "key ` set (update_where (\<lambda>r. key r = i) (place n) rows) = key ` set rows"
proof -
  have "map key (update_where (\<lambda>r. key r = i) (place n) rows) = map key rows"
    by (rule map_update_where) (simp add: key_kept)
  then show ?thesis by (metis list.set_map)
qed

lemma reordered:
  "reorder_by key place items rows = Some rows' \<Longrightarrow>
     fst ` set items \<subseteq> key ` set rows \<and>
     rows' = map (\<lambda>r. case map_of (rev items) (key r) of None \<Rightarrow> r | Some n \<Rightarrow> place n r) rows"
proof (induction items arbitrary: rows)
  case (Cons it items)
  obtain i n where it: "it = (i, n)" by fastforce
  let ?rows = "update_where (\<lambda>r. key r = i) (place n) rows"
  have i: "i \<in> key ` set rows" and r: "reorder_by key place items ?rows = Some rows'"
    using Cons.prems by (simp_all add: it split: if_splits)
  show ?case using Cons.IH [OF r] i unfolding keys_kept
    by (auto simp: it update_where_def map_add_def key_kept last_place split: option.split)
qed simp

lemma refused: "reorder_by key place items rows = None \<longleftrightarrow> \<not> fst ` set items \<subseteq> key ` set rows"
proof (induction items arbitrary: rows)
  case (Cons it items)
  show ?case using Cons.IH by (cases it) (auto simp: keys_kept)
qed simp

end

section \<open>Projects\<close>

record project =
  pj_id :: nat
  pj_slug :: string
  pj_title :: string
  pj_summary :: string
  pj_description :: string
  pj_tags :: "string list"
  pj_repo_url :: string
  pj_live_url :: string
  pj_image_keys :: "string list"
  pj_featured :: bool
  pj_sort_order :: int

definition place_project :: "int \<Rightarrow> project \<Rightarrow> project" where
  "place_project n p = p\<lparr>pj_sort_order := n\<rparr>"

interpretation project_rows: ordered_rows pj_id place_project
  by unfold_locales (simp_all add: place_project_def)

text \<open>The validators of the schema.\<close>

definition project_valid :: "project \<Rightarrow> bool" where
  "project_valid p \<longleftrightarrow> pj_slug p \<noteq> '''' \<and> pj_title p \<noteq> '''' \<and> length (pj_summary p) \<le> 280"

definition listProjects :: "bool \<Rightarrow> project list \<Rightarrow> project list" where
  "listProjects featured ps = sort_key pj_sort_order (if featured then filter pj_featured ps else ps)"

definition getProject :: "string \<Rightarrow> project list \<Rightarrow> http_error + project" where
  "getProject slug ps =
     (case find (\<lambda>p. pj_slug p = slug) ps of None \<Rightarrow> Inl (Http 404 ''project not found'') | Some p \<Rightarrow> Inr p)"

definition listAdminProjects :: "request_ctx \<Rightarrow> project list \<Rightarrow> http_error + project list" where
  "listAdminProjects ctx ps =
     (case requireAdmin ctx of Inl err \<Rightarrow> Inl err | Inr _ \<Rightarrow> Inr (sort_key pj_sort_order ps))"

text \<open>The body of a creation is a project without an id.\<close>

definition createProject :: "request_ctx \<Rightarrow> project \<Rightarrow> project list \<Rightarrow> (http_error + project) \<times> project list" where
  "createProject ctx body ps =
     (case requireAdmin ctx of Inl err \<Rightarrow> (Inl err, ps)
      | Inr _ \<Rightarrow>
         (let p = body\<lparr>pj_id := fresh_id (map pj_id ps)\<rparr>
          in if \<not> project_valid p then (Inl (Http 500 ''failed to create project''), ps)
             else if pj_slug p \<in> pj_slug ` set ps then (Inl (Http 409 ''a project with that slug already exists''), ps)
             else (Inr p, ps @ [p])))"

record project_patch =
  pp_slug :: "string option"
  pp_title :: "string option"
  pp_summary :: "string option"
  pp_description :: "string option"
  pp_tags :: "string list option"
  pp_repo_url :: "string option"
  pp_live_url :: "string option"
  pp_image_keys :: "string list option"
  pp_featured :: "bool option"
  pp_sort_order :: "int option"

definition or_old :: "'a option \<Rightarrow> 'a \<Rightarrow> 'a" where
  "or_old new old = (case new of None \<Rightarrow> old | Some x \<Rightarrow> x)"

definition patched_project :: "project_patch \<Rightarrow> project \<Rightarrow> project" where
  "patched_project d p =
     \<lparr>pj_id = pj_id p, pj_slug = or_old (pp_slug d) (pj_slug p), pj_title = or_old (pp_title d) (pj_title p),
      pj_summary = or_old (pp_summary d) (pj_summary p), pj_description = or_old (pp_description d) (pj_description p),
      pj_tags = or_old (pp_tags d) (pj_tags p), pj_repo_url = or_old (pp_repo_url d) (pj_repo_url p),
      pj_live_url = or_old (pp_live_url d) (pj_live_url p), pj_image_keys = or_old (pp_image_keys d) (pj_image_keys p),
      pj_featured = or_old (pp_featured d) (pj_featured p), pj_sort_order = or_old (pp_sort_order d) (pj_sort_order p)\<rparr>"

definition project_patch_valid :: "project_patch \<Rightarrow> bool" where
  "project_patch_valid d \<longleftrightarrow> pp_slug d \<noteq> Some '''' \<and> pp_title d \<noteq> Some '''' \<and> length (or_old (pp_summary d) '''') \<le> 280"

definition updateProject ::
  "request_ctx \<Rightarrow> nat \<Rightarrow> project_patch \<Rightarrow> project list \<Rightarrow> (http_error + project) \<times> project list" where
  "updateProject ctx i d ps =
     (case requireAdmin ctx of Inl err \<Rightarrow> (Inl err, ps)
      | Inr _ \<Rightarrow>
         if \<not> project_patch_valid d then (Inl (Http 500 ''failed to update project''), ps)
         else case find (\<lambda>p. pj_id p = i) ps of
             None \<Rightarrow> (Inl (Http 404 ''project not found''), ps)
           | Some p \<Rightarrow>
               if \<exists>q \<in> set ps. pj_id q \<noteq> i \<and> pj_slug q = pj_slug (patched_project d p)
               then (Inl (Http 409 ''a project with that slug already exists''), ps)
               else (Inr (patched_project d p), update_where (\<lambda>q. pj_id q = i) (patched_project d) ps))"

definition deleteProject :: "request_ctx \<Rightarrow> nat \<Rightarrow> project list \<Rightarrow> http_error option \<times> project list" where
  "deleteProject ctx i ps =
     (case requireAdmin ctx of Inl err \<Rightarrow> (Some err, ps)
      | Inr _ \<Rightarrow> if i \<notin> pj_id ` set ps then (Some (Http 404 ''project not found''), ps)
                else (None, filter (\<lambda>p. pj_id p \<noteq> i) ps))"

definition reorderProjects ::
  "request_ctx \<Rightarrow> (nat \<times> int) list \<Rightarrow> project list \<Rightarrow> (http_error + project list) \<times> project list" where
  "reorderProjects ctx items ps =
     (case requireAdmin ctx of Inl err \<Rightarrow> (Inl err, ps)
      | Inr _ \<Rightarrow>
       (case reorder_by pj_id place_project items ps of
          None \<Rightarrow> (Inl (Http 404 ''project not found''), ps)
        | Some ps' \<Rightarrow> (Inr (sort_key pj_sort_order ps'), ps')))"

inductive projects_step :: "project list \<Rightarrow> project list \<Rightarrow> bool" where
  creates: "projects_step ps (snd (createProject ctx body ps))"
| updates: "projects_step ps (snd (updateProject ctx i d ps))"
| deletes: "projects_step ps (snd (deleteProject ctx i ps))"
| reorders: "projects_step ps (snd (reorderProjects ctx items ps))"

definition projects_ok :: "project list \<Rightarrow> bool" where
  "projects_ok ps \<longleftrightarrow> distinct (map pj_id ps) \<and> distinct (map pj_slug ps) \<and> (\<forall>p \<in> set ps. project_valid p)"

section \<open>Uploads\<close>

fun uploadExtByContentType :: "string \<Rightarrow> string option" where
  "uploadExtByContentType ct =
     (if ct = ''image/png'' then Some ''png'' else if ct = ''image/jpeg'' then Some ''jpg''
      else if ct = ''image/webp'' then Some ''webp'' else if ct = ''image/gif'' then Some ''gif'' else None)"

fun uploadPrefixByKind :: "string \<Rightarrow> string option" where
  "uploadPrefixByKind k =
     (if k = ''projects'' then Some ''projects'' else if k = ''wishlist'' then Some ''wishlist'' else None)"

definition safe_ext :: "string \<Rightarrow> bool" where
  "safe_ext e \<longleftrightarrow> 1 \<le> length e \<and> length e \<le> 5 \<and>
     list_all (\<lambda>c. is_digit c \<or> 97 \<le> (of_char (lower_char c) :: nat) \<and> (of_char (lower_char c) :: nat) \<le> 122) e"

record upload =
  up_url :: string
  up_key :: string
  up_content_type :: string

text \<open>\<open>rnd\<close> are the 16 random bytes in hex, \<open>presign\<close> the store's answer for a key and a content type (\<open>None\<close>: no
  store is configured, or it fails).\<close>

definition createUploadPresign ::
  "(string \<Rightarrow> string \<Rightarrow> string option) option \<Rightarrow> string \<Rightarrow> request_ctx \<Rightarrow> string \<Rightarrow> string \<Rightarrow> string \<Rightarrow> http_error + upload" where
  "createUploadPresign presign rnd ctx content_type kind ext =
     (case requireAdmin ctx of Inl err \<Rightarrow> Inl err
      | Inr _ \<Rightarrow>
       (case presign of None \<Rightarrow> Inl (Http 503 ''object storage is not available'')
        | Some sign \<Rightarrow>
          (let ct = to_lower (trim_space content_type)
           in case uploadExtByContentType ct of
                None \<Rightarrow> Inl (Http 422 ''content_type must be one of image/png, image/jpeg, image/webp, image/gif'')
              | Some derived \<Rightarrow>
                 (let k = to_lower (trim_space kind)
                  in case uploadPrefixByKind (if k = '''' then ''projects'' else k) of
                       None \<Rightarrow> Inl (Http 422 ''kind must be one of projects, wishlist'')
                     | Some folder \<Rightarrow>
                        (let x = trim_space ext; e = (if prefix ''.'' x then drop 1 x else x);
                             key = folder @ ''/'' @ rnd @ ''.'' @ (if e \<noteq> '''' \<and> safe_ext e then to_lower e else derived)
                         in case sign key ct of
                              None \<Rightarrow> Inl (Http 500 ''failed to presign upload'')
                            | Some url \<Rightarrow> Inr \<lparr>up_url = url, up_key = key, up_content_type = ct\<rparr>)))))"

section \<open>The contact form\<close>

record contact_input =
  ci_name :: string
  ci_email :: string
  ci_body :: string
  ci_website :: string

record contact_message =
  cm_id :: nat
  cm_name :: string
  cm_email :: string
  cm_body :: string

definition message_valid :: "contact_input \<Rightarrow> bool" where
  "message_valid inp \<longleftrightarrow> ci_name inp \<noteq> '''' \<and> length (ci_name inp) \<le> 120 \<and> ci_email inp \<noteq> '''' \<and>
     length (ci_email inp) \<le> 254 \<and> ci_body inp \<noteq> ''''"

text \<open>The answer is the id (0 for a dropped message); \<open>queue\<close> is whether the queue is configured and takes the
  message.  The third component is what was sent to the queue.\<close>

definition createContactMessage ::
  "bool \<Rightarrow> contact_input \<Rightarrow> contact_message list \<Rightarrow> (http_error + nat) \<times> contact_message list \<times> contact_message list" where
  "createContactMessage queue inp ms =
     (if ci_website inp \<noteq> '''' then (Inr 0, ms, [])
      else if \<not> message_valid inp then (Inl (Http 500 ''failed to save message''), ms, [])
      else
        (let msg = \<lparr>cm_id = fresh_id (map cm_id ms), cm_name = ci_name inp, cm_email = ci_email inp, cm_body = ci_body inp\<rparr>
         in (Inr (cm_id msg), ms @ [msg], if queue then [msg] else [])))"


section \<open>The projects stay consistent\<close>

lemma updateProject_cases:
  "snd (updateProject ctx i d ps) = ps \<or>
   (\<exists>p. project_patch_valid d \<and> find (\<lambda>p. pj_id p = i) ps = Some p \<and>
     (\<forall>q \<in> set ps. pj_id q \<noteq> i \<longrightarrow> pj_slug q \<noteq> pj_slug (patched_project d p)) \<and>
     snd (updateProject ctx i d ps) = update_where (\<lambda>q. pj_id q = i) (patched_project d) ps)"
  by (simp add: updateProject_def split: sum.split option.split) blast

lemma project_step_ok:
  assumes "projects_step ps ps'" "projects_ok ps"
  shows "projects_ok ps'"
  using assms(1)
proof cases
  case (creates ctx body)
  have "fresh_id (map pj_id ps) \<notin> pj_id ` set ps" using fresh_id_new [of "map pj_id ps"] by (simp del: fresh_id_new)
  then show ?thesis using assms(2) unfolding creates
    by (simp add: createProject_def projects_ok_def Let_def split: sum.split)
next
  case (updates ctx i d)
  from updateProject_cases [of ctx i d ps, folded updates] show ?thesis
  proof (elim disjE exE conjE)
    fix p assume p: "project_patch_valid d" "find (\<lambda>p. pj_id p = i) ps = Some p"
      "\<forall>q \<in> set ps. pj_id q \<noteq> i \<longrightarrow> pj_slug q \<noteq> pj_slug (patched_project d p)"
      and ps': "ps' = update_where (\<lambda>q. pj_id q = i) (patched_project d) ps"
    have pi: "p \<in> set ps" "pj_id p = i" using find_SomeD [OF p(2)] by auto
    have one: "q = p" if "q \<in> set ps" "pj_id q = i" for q
      using that pi assms(2) by (auto simp: projects_ok_def distinct_map inj_on_def)
    have ids: "map pj_id ps' = map pj_id ps" unfolding ps' by (rule map_update_where) (simp add: patched_project_def)
    have "inj_on (\<lambda>q. pj_slug (if pj_id q = i then patched_project d q else q)) (set ps)"
      using assms(2) p(3) one by (auto simp: inj_on_def projects_ok_def distinct_map) (metis+)?
    then have slugs: "distinct (map pj_slug ps')" using assms(2) unfolding ps' update_where_def
      by (auto simp: distinct_map projects_ok_def comp_def)
    have "project_valid (patched_project d q)" if "q \<in> set ps" for q
      using that assms(2) p(1) by (auto simp: projects_ok_def project_valid_def project_patch_valid_def patched_project_def or_old_def
          split: option.split)
    then show ?thesis using assms(2) ids slugs by (auto simp: projects_ok_def ps' in_update_where)
  qed (use assms(2) in simp)
next
  case (deletes ctx i)
  then show ?thesis using assms(2) by (auto simp: deleteProject_def projects_ok_def distinct_map_filter split: sum.split)
next
  case (reorders ctx items)
  have "ps' = ps \<or> reorder_by pj_id place_project items ps = Some ps'"
    unfolding reorders by (auto simp: reorderProjects_def split: sum.split option.split)
  then show ?thesis
  proof
    assume "reorder_by pj_id place_project items ps = Some ps'"
    from project_rows.reordered [OF this]
    have ps': "ps' = map (\<lambda>r. case map_of (rev items) (pj_id r) of None \<Rightarrow> r | Some n \<Rightarrow> place_project n r) ps" by simp
    have "map pj_id ps' = map pj_id ps" "map pj_slug ps' = map pj_slug ps"
      by (simp_all add: ps' place_project_def split: option.split)
    moreover have "\<forall>p \<in> set ps'. project_valid p"
      using assms(2) by (auto simp: ps' projects_ok_def project_valid_def place_project_def split: option.split)
    ultimately show ?thesis using assms(2) by (simp add: projects_ok_def)
  qed (use assms(2) in simp)
qed

text \<open>From a consistent table every sequence of operations leads to a consistent one: ids and slugs are unique, so a
  slug of a project is answered with that project, and every row satisfies the schema.\<close>

theorem projects_consistent:
  assumes "projects_step\<^sup>*\<^sup>* ps ps'" "projects_ok ps"
  shows "projects_ok ps' \<and> (\<forall>p \<in> set ps'. getProject (pj_slug p) ps' = Inr p)"
proof -
  have ok: "projects_ok ps'" using assms by (induction rule: rtranclp_induct) (auto intro: project_step_ok)
  moreover have "getProject (pj_slug p) ps' = Inr p" if "p \<in> set ps'" for p
    using distinct_find [of pj_slug ps' p] that ok by (simp add: getProject_def projects_ok_def)
  ultimately show ?thesis by blast
qed

section \<open>Uploads go where they belong\<close>

lemma safe_ext_chars: "safe_ext e \<Longrightarrow> c \<in> set (to_lower e) \<Longrightarrow> c \<noteq> CHR ''/'' \<and> c \<noteq> CHR ''.''"
proof -
  assume e: "safe_ext e" "c \<in> set (to_lower e)"
  then obtain x where x: "x \<in> set e" "c = lower_char x" by (auto simp: to_lower_def)
  then have "is_digit x \<or> 97 \<le> (of_char c :: nat) \<and> (of_char c :: nat) \<le> 122" using e(1) by (auto simp: safe_ext_def list_all_iff)
  then have "48 \<le> (of_char c :: nat)" by (auto simp: is_digit_def x(2) lower_char_def)
  then show "c \<noteq> CHR ''/'' \<and> c \<noteq> CHR ''.''" by auto
qed

text \<open>Whatever the client sends, the key is a name without a slash in one of the two folders.\<close>

theorem upload_key_safe:
  assumes "createUploadPresign presign rnd ctx content_type kind ext = Inr out" "CHR ''/'' \<notin> set rnd"
  shows "\<exists>folder name. up_key out = folder @ ''/'' @ name \<and> folder \<in> {''projects'', ''wishlist''} \<and> CHR ''/'' \<notin> set name \<and>
    prefix rnd name \<and> up_content_type out \<in> {''image/png'', ''image/jpeg'', ''image/webp'', ''image/gif''}"
proof -
  let ?ct = "to_lower (trim_space content_type)"
  let ?x = "trim_space ext"
  let ?e = "if prefix ''.'' ?x then drop 1 ?x else ?x"
  obtain derived folder where d: "uploadExtByContentType ?ct = Some derived" "folder \<in> {''projects'', ''wishlist''}"
    and k: "up_key out = folder @ ''/'' @ rnd @ ''.'' @ (if ?e \<noteq> '''' \<and> safe_ext ?e then to_lower ?e else derived)"
      "up_content_type out = ?ct"
    using assms(1) by (auto simp: createUploadPresign_def Let_def split: sum.splits option.splits if_splits)
  let ?name = "rnd @ ''.'' @ (if ?e \<noteq> '''' \<and> safe_ext ?e then to_lower ?e else derived)"
  have "CHR ''/'' \<notin> set derived" "?ct \<in> {''image/png'', ''image/jpeg'', ''image/webp'', ''image/gif''}"
    using d(1) by (auto split: if_splits)
  moreover have "CHR ''/'' \<notin> set (to_lower ?e)" if "safe_ext ?e" using safe_ext_chars [OF that] by blast
  then have "CHR ''/'' \<notin> set ?name" using assms(2) calculation(1) by simp
  ultimately show ?thesis using d(2) k by (intro exI [of _ folder] exI [of _ ?name]) simp
qed

section \<open>The contact form\<close>

text \<open>The framework counts the characters of a name and the schema its bytes: the form accepts this name of 61
  letters, and the message is lost.\<close>

definition ex_contact :: contact_input where
  "ex_contact = \<lparr>ci_name = concat (replicate 61 [CHR 0xC3, CHR 0xA9]), ci_email = ''a@x.org'', ci_body = ''Hi'', ci_website = ''''\<rparr>"

lemma long_name_is_lost:
  "rune_count (ci_name ex_contact) = 61" "createContactMessage queue ex_contact ms = (Inl (Http 500 ''failed to save message''), ms, [])"
proof -
  show "rune_count (ci_name ex_contact) = 61" by code_simp
  have "length (ci_name ex_contact) = 122" by code_simp
  then show "createContactMessage queue ex_contact ms = (Inl (Http 500 ''failed to save message''), ms, [])"
    by (simp add: createContactMessage_def message_valid_def) (simp add: ex_contact_def)
qed

end
