(* ===== verification/Spotify.thy ===== *)
theory Spotify
  imports OAuth Showcase
begin

text \<open>
  The music panel: the client of the Spotify web service (\<open>internal/spotify/spotify.go\<close>), the refresher that keeps
  the cache warm and honours the service's rate limit (\<open>internal/api/spotify_refresher.go\<close>), the visitors'
  endpoints, which only read the cache (\<open>internal/api/spotify.go\<close>), and the curated playlists
  (\<open>internal/api/admin_playlists.go\<close>).

  Parameters (\<open>spotify_env\<close>): the transport, as the reply to a request (\<open>None\<close> when it fails), and the decoders of
  the JSON bodies and of HTTP dates.  An operation reads the clock before it calls the service (\<open>now\<close>) and after
  (\<open>later\<close>).  A cache entry is a value and the instant it expires.  Cache and database do not fail.  The
  requests sent are returned in order.
\<close>

section \<open>The client\<close>

record raw_track =
  rt_name :: string
  rt_url :: string
  rt_artists :: "string list"
  rt_album :: string
  rt_images :: "string list"

record track =
  tk_is_playing :: bool
  tk_title :: string
  tk_artists :: "string list"
  tk_album :: string
  tk_album_image :: string
  tk_song_url :: string

text \<open>An artist or a playlist, as it is received and as it is shown.\<close>

record raw_card =
  rc_name :: string
  rc_url :: string
  rc_images :: "string list"

record card =
  cd_name :: string
  cd_image :: string
  cd_url :: string

definition first_image :: "string list \<Rightarrow> string" where
  "first_image is = (case is of [] \<Rightarrow> '''' | i # _ \<Rightarrow> i)"

definition toTrack :: "raw_track \<Rightarrow> bool \<Rightarrow> track" where
  "toTrack rt isPlaying =
     \<lparr>tk_is_playing = isPlaying, tk_title = rt_name rt, tk_artists = rt_artists rt, tk_album = rt_album rt,
      tk_album_image = first_image (rt_images rt), tk_song_url = rt_url rt\<rparr>"

definition to_card :: "raw_card \<Rightarrow> card" where
  "to_card r = \<lparr>cd_name = rc_name r, cd_image = first_image (rc_images r), cd_url = rc_url r\<rparr>"

datatype endpoint = CurrentlyPlaying | TopTracksOf int string | TopArtistsOf int string | PlaylistOf string
datatype api_request = TokenRequest | ApiGet endpoint string

record api_reply =
  ar_status :: int
  ar_retry_after :: string
  ar_body :: string

record spotify_env =
  net :: "api_request \<Rightarrow> api_reply option"
  dec_token :: "string \<Rightarrow> (string \<times> int) option"
  dec_playing :: "string \<Rightarrow> (bool \<times> raw_track) option"
  dec_tracks :: "string \<Rightarrow> raw_track list option"
  dec_artists :: "string \<Rightarrow> raw_card list option"
  dec_playlist :: "string \<Rightarrow> raw_card option"
  dec_date :: "string \<Rightarrow> instant option"

datatype api_error = NoCredentials | Transport | Undecodable | BadStatus string int | RateLimited string duration

record api_client =
  ac_id :: string
  ac_secret :: string
  ac_refresh_token :: string
  ac_access_token :: string
  ac_expires_at :: instant

definition api_configured :: "api_client \<Rightarrow> bool" where
  "api_configured c \<longleftrightarrow> ac_id c \<noteq> '''' \<and> ac_secret c \<noteq> '''' \<and> ac_refresh_token c \<noteq> ''''"

text \<open>\<open>time.Duration(n) * time.Second\<close> wraps at 64 bits.\<close>

definition seconds :: "int \<Rightarrow> duration" where
  "seconds n = sint (word_of_int (n * second_ns) :: 64 word)"

text \<open>\<open>strconv.Atoi\<close>: an optional sign and digits, within 64 bits.\<close>

definition atoi :: "string \<Rightarrow> int option" where
  "atoi s =
     (let ds = (case s of c # cs \<Rightarrow> if c = CHR ''-'' \<or> c = CHR ''+'' then cs else s | [] \<Rightarrow> []);
          n = foldl (\<lambda>a c. 10 * a + int (of_char c - 48)) 0 ds;
          v = (if prefix ''-'' s then - n else n)
      in if ds = [] \<or> \<not> list_all is_digit ds \<or> v < min_duration \<or> max_duration < v then None else Some v)"

definition parseRetryAfter :: "spotify_env \<Rightarrow> instant \<Rightarrow> api_reply \<Rightarrow> duration" where
  "parseRetryAfter e now resp =
     (let v = trim_space (ar_retry_after resp)
      in if v = '''' then 0
         else case atoi v of
             Some secs \<Rightarrow> if secs < 0 then 0 else seconds secs
           | None \<Rightarrow> (case dec_date e v of
                 Some t \<Rightarrow> if time_sub t now > 0 then time_sub t now else 0
               | None \<Rightarrow> 0))"

definition statusError :: "spotify_env \<Rightarrow> instant \<Rightarrow> api_reply \<Rightarrow> string \<Rightarrow> api_error" where
  "statusError e now resp label =
     (if ar_status resp = 429 then RateLimited label (parseRetryAfter e now resp) else BadStatus label (ar_status resp))"

definition access_token ::
  "spotify_env \<Rightarrow> instant \<Rightarrow> instant \<Rightarrow> api_client \<Rightarrow> (api_error + string) \<times> api_client \<times> api_request list" where
  "access_token e now later c =
     (if ac_access_token c \<noteq> '''' \<and> now < ac_expires_at c then (Inr (ac_access_token c), c, [])
      else case net e TokenRequest of
          None \<Rightarrow> (Inl Transport, c, [TokenRequest])
        | Some resp \<Rightarrow>
            if ar_status resp \<noteq> 200 then (Inl (BadStatus ''token'' (ar_status resp)), c, [TokenRequest])
            else case dec_token e (ar_body resp) of
                None \<Rightarrow> (Inl Undecodable, c, [TokenRequest])
              | Some (tok, expires_in) \<Rightarrow>
                  (Inr tok, c\<lparr>ac_access_token := tok, ac_expires_at := later + seconds (expires_in - 30)\<rparr>, [TokenRequest]))"

definition api_get ::
  "spotify_env \<Rightarrow> instant \<Rightarrow> instant \<Rightarrow> endpoint \<Rightarrow> api_client \<Rightarrow> (api_error + api_reply) \<times> api_client \<times> api_request list" where
  "api_get e now later ep c =
     (if \<not> api_configured c then (Inl NoCredentials, c, [])
      else case access_token e now later c of
          (Inl err, c, sent) \<Rightarrow> (Inl err, c, sent)
        | (Inr tok, c, sent) \<Rightarrow>
            ((case net e (ApiGet ep tok) of None \<Rightarrow> Inl Transport | Some resp \<Rightarrow> Inr resp), c, sent @ [ApiGet ep tok]))"

text \<open>A call that expects 200 and a body.\<close>

definition fetch_body ::
  "spotify_env \<Rightarrow> instant \<Rightarrow> instant \<Rightarrow> endpoint \<Rightarrow> string \<Rightarrow> (string \<Rightarrow> 'a option) \<Rightarrow> api_client
    \<Rightarrow> (api_error + 'a) \<times> api_client \<times> api_request list" where
  "fetch_body e now later ep label dec c =
     (case api_get e now later ep c of
        (Inl err, c, sent) \<Rightarrow> (Inl err, c, sent)
      | (Inr resp, c, sent) \<Rightarrow>
          ((if ar_status resp \<noteq> 200 then Inl (statusError e later resp label)
            else case dec (ar_body resp) of None \<Rightarrow> Inl Undecodable | Some x \<Rightarrow> Inr x), c, sent))"

definition NowPlaying ::
  "spotify_env \<Rightarrow> instant \<Rightarrow> instant \<Rightarrow> api_client \<Rightarrow> (api_error + track option) \<times> api_client \<times> api_request list" where
  "NowPlaying e now later c =
     (case api_get e now later CurrentlyPlaying c of
        (Inl err, c, sent) \<Rightarrow> (Inl err, c, sent)
      | (Inr resp, c, sent) \<Rightarrow>
          ((if ar_status resp = 204 then Inr None
            else if ar_status resp \<noteq> 200 then Inl (statusError e later resp ''now-playing'')
            else case dec_playing e (ar_body resp) of
                None \<Rightarrow> Inl Undecodable
              | Some (playing, item) \<Rightarrow> Inr (if playing then Some (toTrack item True) else None)), c, sent))"

definition TopTracks ::
  "spotify_env \<Rightarrow> instant \<Rightarrow> instant \<Rightarrow> int \<Rightarrow> string \<Rightarrow> api_client \<Rightarrow> (api_error + track list) \<times> api_client \<times> api_request list" where
  "TopTracks e now later limit period c =
     fetch_body e now later (TopTracksOf limit period) ''top-tracks''
       (\<lambda>b. map_option (map (\<lambda>rt. toTrack rt False)) (dec_tracks e b)) c"

definition TopArtists ::
  "spotify_env \<Rightarrow> instant \<Rightarrow> instant \<Rightarrow> int \<Rightarrow> string \<Rightarrow> api_client \<Rightarrow> (api_error + card list) \<times> api_client \<times> api_request list" where
  "TopArtists e now later limit period c =
     fetch_body e now later (TopArtistsOf limit period) ''top-artists'' (\<lambda>b. map_option (map to_card) (dec_artists e b)) c"

definition PlaylistByID ::
  "spotify_env \<Rightarrow> instant \<Rightarrow> instant \<Rightarrow> string \<Rightarrow> api_client \<Rightarrow> (api_error + card) \<times> api_client \<times> api_request list" where
  "PlaylistByID e now later i c =
     fetch_body e now later (PlaylistOf i) (''playlist '' @ i) (\<lambda>b. map_option to_card (dec_playlist e b)) c"


section \<open>The refresher\<close>

datatype panel_source = LiveNow | LastPlayed
record panel =
  pn_track :: track
  pn_source :: panel_source

definition nowPlayingCacheTTL :: duration where "nowPlayingCacheTTL = 10 * minute_ns"
definition slowCacheTTL :: duration where "slowCacheTTL = 48 * hour_ns"
definition nowPlayingRefreshInterval :: duration where "nowPlayingRefreshInterval = 60 * second_ns"
definition defaultBackoff :: duration where "defaultBackoff = 5 * minute_ns"
definition topTracksLimit :: int where "topTracksLimit = 5"
definition topArtistsLimit :: int where "topArtistsLimit = 12"
definition topTracksRange :: string where "topTracksRange = ''short_term''"

type_synonym 'a cached = "('a \<times> instant) option"

definition cache_get :: "instant \<Rightarrow> 'a cached \<Rightarrow> 'a option" where
  "cache_get now v = (case v of Some (x, expiry) \<Rightarrow> if now < expiry then Some x else None | None \<Rightarrow> None)"

record playlist_row =
  py_id :: nat
  py_spotify_id :: string
  py_sort_order :: int

text \<open>The process (client, last track seen live, end of the backoff), the cache and the table of playlists.\<close>

record music =
  mu_client :: api_client
  mu_last_track :: "track option"
  mu_backoff_until :: instant
  mu_now_playing :: "panel cached"
  mu_top_tracks :: "track list cached"
  mu_top_artists :: "card list cached"
  mu_playlists :: "card list cached"
  mu_rows :: "playlist_row list"

definition writeLastKnown :: "instant \<Rightarrow> music \<Rightarrow> music" where
  "writeLastKnown later m =
     (case mu_last_track m of None \<Rightarrow> m
      | Some t \<Rightarrow> m\<lparr>mu_now_playing :=
          Some (\<lparr>pn_track = t\<lparr>tk_is_playing := False\<rparr>, pn_source = LastPlayed\<rparr>, later + nowPlayingCacheTTL)\<rparr>)"

definition refreshNowPlaying :: "spotify_env \<Rightarrow> instant \<Rightarrow> instant \<Rightarrow> music \<Rightarrow> music \<times> api_request list" where
  "refreshNowPlaying e now later m =
     (if now < mu_backoff_until m then (writeLastKnown later m, [])
      else case NowPlaying e now later (mu_client m) of
          (res, c, sent) \<Rightarrow>
            let m = m\<lparr>mu_client := c\<rparr>
            in (case res of
                  Inl NoCredentials \<Rightarrow> m
                | Inl (RateLimited _ retryAfter) \<Rightarrow>
                    writeLastKnown later (m\<lparr>mu_backoff_until := later + (if retryAfter < defaultBackoff then defaultBackoff else retryAfter)\<rparr>)
                | Inl _ \<Rightarrow> writeLastKnown later m
                | Inr (Some t) \<Rightarrow> m\<lparr>mu_last_track := Some t,
                    mu_now_playing := Some (\<lparr>pn_track = t, pn_source = LiveNow\<rparr>, later + nowPlayingCacheTTL)\<rparr>
                | Inr None \<Rightarrow> writeLastKnown later m, sent))"

definition hydrateLastTrack :: "instant \<Rightarrow> music \<Rightarrow> music" where
  "hydrateLastTrack now m =
     (case cache_get now (mu_now_playing m) of None \<Rightarrow> m
      | Some p \<Rightarrow> m\<lparr>mu_last_track := Some ((pn_track p)\<lparr>tk_is_playing := False\<rparr>)\<rparr>)"

definition refreshTopTracks :: "spotify_env \<Rightarrow> instant \<Rightarrow> instant \<Rightarrow> music \<Rightarrow> music \<times> api_request list" where
  "refreshTopTracks e now later m =
     (case TopTracks e now later topTracksLimit topTracksRange (mu_client m) of
        (Inl _, c, sent) \<Rightarrow> (m\<lparr>mu_client := c\<rparr>, sent)
      | (Inr ts, c, sent) \<Rightarrow> (m\<lparr>mu_client := c, mu_top_tracks := Some (ts, later + slowCacheTTL)\<rparr>, sent))"

definition refreshTopArtists :: "spotify_env \<Rightarrow> instant \<Rightarrow> instant \<Rightarrow> music \<Rightarrow> music \<times> api_request list" where
  "refreshTopArtists e now later m =
     (case TopArtists e now later topArtistsLimit topTracksRange (mu_client m) of
        (Inl _, c, sent) \<Rightarrow> (m\<lparr>mu_client := c\<rparr>, sent)
      | (Inr as, c, sent) \<Rightarrow> (m\<lparr>mu_client := c, mu_top_artists := Some (as, later + slowCacheTTL)\<rparr>, sent))"

definition curatedPlaylistIDs :: "playlist_row list \<Rightarrow> string list" where
  "curatedPlaylistIDs rows = map py_spotify_id (sort_key py_sort_order rows)"

text \<open>The loop over the playlists ends at the first error, and then nothing is written.\<close>

fun fetch_playlists ::
  "spotify_env \<Rightarrow> instant \<Rightarrow> instant \<Rightarrow> string list \<Rightarrow> api_client \<Rightarrow> (api_error + card list) \<times> api_client \<times> api_request list" where
  "fetch_playlists e now later [] c = (Inr [], c, [])"
| "fetch_playlists e now later (i # is) c =
     (case PlaylistByID e now later i c of
        (Inl err, c, sent) \<Rightarrow> (Inl err, c, sent)
      | (Inr p, c, sent) \<Rightarrow>
          (case fetch_playlists e now later is c of
             (Inl err, c, sent') \<Rightarrow> (Inl err, c, sent @ sent')
           | (Inr ps, c, sent') \<Rightarrow> (Inr (p # ps), c, sent @ sent')))"

definition refreshPlaylists :: "spotify_env \<Rightarrow> instant \<Rightarrow> instant \<Rightarrow> music \<Rightarrow> music \<times> api_request list" where
  "refreshPlaylists e now later m =
     (case fetch_playlists e now later (curatedPlaylistIDs (mu_rows m)) (mu_client m) of
        (Inl _, c, sent) \<Rightarrow> (m\<lparr>mu_client := c\<rparr>, sent)
      | (Inr ps, c, sent) \<Rightarrow> (m\<lparr>mu_client := c, mu_playlists := Some (ps, later + slowCacheTTL)\<rparr>, sent))"

definition refreshSlow :: "spotify_env \<Rightarrow> instant \<Rightarrow> instant \<Rightarrow> music \<Rightarrow> music \<times> api_request list" where
  "refreshSlow e now later m =
     (case refreshTopTracks e now later m of (m, sent1) \<Rightarrow>
        case refreshTopArtists e now later m of (m, sent2) \<Rightarrow>
          case refreshPlaylists e now later m of (m, sent3) \<Rightarrow> (m, sent1 @ sent2 @ sent3))"

text \<open>A fresh process: \<open>New\<close> and \<open>NewSpotifyRefresher\<close>, then the start of \<open>Run\<close>.  The zero time is long past.\<close>

definition boot :: "music \<Rightarrow> music" where
  "boot m = m\<lparr>mu_client := (mu_client m)\<lparr>ac_access_token := '''', ac_expires_at := at_day (go_date 1 1 1)\<rparr>,
     mu_last_track := None, mu_backoff_until := at_day (go_date 1 1 1)\<rparr>"

definition run_start :: "spotify_env \<Rightarrow> instant \<Rightarrow> instant \<Rightarrow> music \<Rightarrow> music \<times> api_request list" where
  "run_start e now later m =
     (if \<not> api_configured (mu_client m) then (m, [])
      else case refreshNowPlaying e now later (hydrateLastTrack now m) of (m, sent1) \<Rightarrow>
        case refreshSlow e now later m of (m, sent2) \<Rightarrow> (m, sent1 @ sent2))"

section \<open>What visitors see\<close>

definition getNowPlaying :: "instant \<Rightarrow> music \<Rightarrow> panel option" where
  "getNowPlaying now m = cache_get now (mu_now_playing m)"

definition cached_list :: "instant \<Rightarrow> 'a list cached \<Rightarrow> 'a list" where
  "cached_list now v = (case cache_get now v of None \<Rightarrow> [] | Some xs \<Rightarrow> xs)"

definition getTopTracks :: "instant \<Rightarrow> music \<Rightarrow> track list" where
  "getTopTracks now m = cached_list now (mu_top_tracks m)"

definition getPlaylists :: "instant \<Rightarrow> music \<Rightarrow> card list" where
  "getPlaylists now m = cached_list now (mu_playlists m)"

definition getTopArtists :: "instant \<Rightarrow> music \<Rightarrow> card list" where
  "getTopArtists now m = cached_list now (mu_top_artists m)"


section \<open>Curated playlists\<close>

text \<open>The path \<open>url.Parse\<close> reads from a URL, \<open>None\<close> for one it refuses; the scheme and the authority are split as in
  \<open>OAuth\<close>.  A host in brackets (an IPv6 literal) is taken as refused.\<close>

fun hex_val :: "char \<Rightarrow> nat" where
  "hex_val c = (if is_digit c then of_char c - 48 else of_char (lower_char c) - 87)"

fun unescape :: "string \<Rightarrow> string" where
  "unescape (c # a # b # s) =
     (if c = CHR ''%'' then char_of (16 * hex_val a + hex_val b) # unescape s else c # unescape (a # b # s))"
| "unescape s = s"

fun host_chars_ok :: "string \<Rightarrow> bool" where
  "host_chars_ok [] = True"
| "host_chars_ok (c # s) =
     (if c = CHR ''%''
      then (case s of
          a # b # r \<Rightarrow> is_hex a \<and> is_hex b \<and> (8 \<le> hex_val a \<or> a = CHR ''2'' \<and> b = CHR ''5'') \<and> host_chars_ok r
        | _ \<Rightarrow> False)
      else (128 \<le> (of_char c :: nat) \<or> url_letter c \<or> is_digit c \<or> c \<in> set (CHR 0x22 # CHR 0x27 # ''!$&()*+,;=:[]<>-_.~'')) \<and> host_chars_ok s)"

definition authority_ok :: "string \<Rightarrow> bool" where
  "authority_ok a =
     (let host = after_last CHR ''@'' a
      in host_chars_ok host \<and> \<not> prefix ''['' host \<and>
         (CHR '':'' \<in> set host \<longrightarrow> port_ok (CHR '':'' # after_last CHR '':'' host)) \<and>
         (CHR ''@'' \<in> set a \<longrightarrow> userinfo_ok (before_last CHR ''@'' a)))"

definition url_path :: "string \<Rightarrow> string option" where
  "url_path s =
     (let u = before CHR ''#'' s; frag = drop (Suc (length u)) s
      in if list_ex is_ctl u \<or> \<not> percent_ok frag then None
         else case getScheme u of None \<Rightarrow> None
           | Some (scheme, rest) \<Rightarrow>
              (let p = before CHR ''?'' rest
               in if \<not> prefix ''/'' p then
                    (if scheme \<noteq> '''' then Some ''''
                     else if CHR '':'' \<in> set (before CHR ''/'' p) then None
                     else if percent_ok p then Some (unescape p) else None)
                  else if (scheme \<noteq> '''' \<or> \<not> prefix ''///'' p) \<and> prefix ''//'' p then
                    (let a = before CHR ''/'' (drop 2 p); q = drop (2 + length a) p
                     in if authority_ok a \<and> percent_ok q then Some (unescape q) else None)
                  else if percent_ok p then Some (unescape p) else None))"

text \<open>What follows the first occurrence of a word that occurs.\<close>

fun after_word :: "string \<Rightarrow> string \<Rightarrow> string" where
  "after_word w [] = ''''"
| "after_word w (c # s) = (if prefix w (c # s) then drop (length w) (c # s) else after_word w s)"

definition parseSpotifyPlaylistID :: "string \<Rightarrow> string option" where
  "parseSpotifyPlaylistID input =
     (let s = trim_space input
      in if s = '''' then None
         else
           (let s = (if prefix ''spotify:playlist:'' s then drop (length ''spotify:playlist:'') s
                     else if contains s ''/playlist/'' then
                       (case url_path s of
                          Some p \<Rightarrow> if contains p ''/playlist/'' then after_word ''/playlist/'' p else after_word ''/playlist/'' s
                        | None \<Rightarrow> after_word ''/playlist/'' s)
                     else s);
                s = trim_space (takeWhile (\<lambda>c. c \<notin> set ''?/#'') s)
            in if s = '''' \<or> \<not> list_all (\<lambda>c. url_letter c \<or> is_digit c) s then None else Some s))"

definition refreshPlaylistsCache :: "spotify_env \<Rightarrow> instant \<Rightarrow> instant \<Rightarrow> music \<Rightarrow> music \<times> api_request list" where
  "refreshPlaylistsCache e now later m =
     (if \<not> api_configured (mu_client m) then (m\<lparr>mu_playlists := None\<rparr>, []) else refreshPlaylists e now later m)"

definition listPlaylists :: "request_ctx \<Rightarrow> music \<Rightarrow> http_error + playlist_row list" where
  "listPlaylists ctx m =
     (case requireAdmin ctx of Inl err \<Rightarrow> Inl err | Inr _ \<Rightarrow> Inr (sort_key py_sort_order (mu_rows m)))"

definition next_order :: "playlist_row list \<Rightarrow> int" where
  "next_order rows = (if rows = [] then 0 else Max (py_sort_order ` set rows) + 1)"

definition createPlaylist ::
  "spotify_env \<Rightarrow> instant \<Rightarrow> instant \<Rightarrow> request_ctx \<Rightarrow> string \<Rightarrow> music
    \<Rightarrow> (http_error + playlist_row) \<times> music \<times> api_request list" where
  "createPlaylist e now later ctx input m =
     (case requireAdmin ctx of Inl err \<Rightarrow> (Inl err, m, [])
      | Inr _ \<Rightarrow>
       (case parseSpotifyPlaylistID input of
          None \<Rightarrow> (Inl (Http 422 ''could not parse a Spotify playlist ID from the input''), m, [])
        | Some i \<Rightarrow>
            if \<not> api_configured (mu_client m)
            then (Inl (Http 503 ''spotify is not configured; cannot validate the playlist''), m, [])
            else case PlaylistByID e now later i (mu_client m) of
              (Inl err, c, sent) \<Rightarrow>
                ((case err of RateLimited _ _ \<Rightarrow> Inl (Http 503 ''spotify is rate limited; try again shortly'')
                  | _ \<Rightarrow> Inl (Http 422 ''that Spotify playlist ID is not valid or not reachable'')), m\<lparr>mu_client := c\<rparr>, sent)
            | (Inr _, c, sent) \<Rightarrow>
                (let m = m\<lparr>mu_client := c\<rparr>;
                     p = \<lparr>py_id = fresh_id (map py_id (mu_rows m)), py_spotify_id = i, py_sort_order = next_order (mu_rows m)\<rparr>
                 in if i \<in> py_spotify_id ` set (mu_rows m)
                    then (Inl (Http 409 ''that playlist is already curated''), m, sent)
                    else case refreshPlaylistsCache e now later (m\<lparr>mu_rows := mu_rows m @ [p]\<rparr>) of
                      (m, sent') \<Rightarrow> (Inr p, m, sent @ sent'))))"

definition deletePlaylist ::
  "spotify_env \<Rightarrow> instant \<Rightarrow> instant \<Rightarrow> request_ctx \<Rightarrow> nat \<Rightarrow> music \<Rightarrow> http_error option \<times> music \<times> api_request list" where
  "deletePlaylist e now later ctx i m =
     (case requireAdmin ctx of Inl err \<Rightarrow> (Some err, m, [])
      | Inr _ \<Rightarrow>
         if i \<notin> py_id ` set (mu_rows m) then (Some (Http 404 ''playlist not found''), m, [])
         else case refreshPlaylistsCache e now later (m\<lparr>mu_rows := filter (\<lambda>p. py_id p \<noteq> i) (mu_rows m)\<rparr>) of
             (m, sent) \<Rightarrow> (None, m, sent))"

definition place_playlist :: "int \<Rightarrow> playlist_row \<Rightarrow> playlist_row" where
  "place_playlist n p = p\<lparr>py_sort_order := n\<rparr>"

interpretation playlist_rows: ordered_rows py_id place_playlist
  by unfold_locales (simp_all add: place_playlist_def)

definition reorderPlaylists ::
  "spotify_env \<Rightarrow> instant \<Rightarrow> instant \<Rightarrow> request_ctx \<Rightarrow> (nat \<times> int) list \<Rightarrow> music
    \<Rightarrow> (http_error + playlist_row list) \<times> music \<times> api_request list" where
  "reorderPlaylists e now later ctx items m =
     (case requireAdmin ctx of Inl err \<Rightarrow> (Inl err, m, [])
      | Inr _ \<Rightarrow>
       (case reorder_by py_id place_playlist items (mu_rows m) of
          None \<Rightarrow> (Inl (Http 404 ''playlist not found''), m, [])
        | Some rows \<Rightarrow>
            (case refreshPlaylistsCache e now later (m\<lparr>mu_rows := rows\<rparr>) of
               (m, sent) \<Rightarrow> (Inr (sort_key py_sort_order (mu_rows m)), m, sent))))"


section \<open>The backoff\<close>

lemma access_token_configured: "api_configured (fst (snd (access_token e now later c))) = api_configured c"
  by (auto simp: access_token_def api_configured_def split: option.split)

lemma api_get_configured: "api_configured (fst (snd (api_get e now later ep c))) = api_configured c"
  using access_token_configured [of e now later c] by (auto simp: api_get_def split: prod.split sum.split)

lemma fetch_body_configured: "api_configured (fst (snd (fetch_body e now later ep l dec c))) = api_configured c"
  using api_get_configured [of e now later ep c] by (auto simp: fetch_body_def split: prod.split sum.split)

lemma NowPlaying_configured: "api_configured (fst (snd (NowPlaying e now later c))) = api_configured c"
  using api_get_configured [of e now later CurrentlyPlaying c] by (auto simp: NowPlaying_def split: prod.split sum.split)

lemma PlaylistByID_configured: "api_configured (fst (snd (PlaylistByID e now later i c))) = api_configured c"
  by (simp add: PlaylistByID_def fetch_body_configured)

lemma fetch_playlists_configured: "api_configured (fst (snd (fetch_playlists e now later is c))) = api_configured c"
proof (induction "is" arbitrary: c)
  case (Cons i "is")
  obtain res c1 sent where p: "PlaylistByID e now later i c = (res, c1, sent)" by (metis prod.collapse)
  then have "api_configured c1 = api_configured c" using PlaylistByID_configured [of e now later i c] by simp
  then show ?case using Cons.IH [of c1] p by (cases res) (simp_all add: case_prod_beta split: sum.split)
qed simp

lemmas configured_kept = access_token_configured api_get_configured fetch_body_configured NowPlaying_configured
  fetch_playlists_configured

text \<open>A client with credentials is never told that they are missing.\<close>

lemma access_token_credentials: "fst (access_token e now later c) \<noteq> Inl NoCredentials"
  by (auto simp: access_token_def split: option.split)

lemma NowPlaying_credentials: "api_configured c \<Longrightarrow> fst (NowPlaying e now later c) \<noteq> Inl NoCredentials"
  using access_token_credentials [of e now later c]
  by (auto simp: NowPlaying_def api_get_def statusError_def split: prod.split sum.split option.split)

text \<open>The slow refresh and the curation leave what belongs to the now-playing panel alone.\<close>

definition now_part :: "music \<Rightarrow> bool \<times> track option \<times> instant \<times> panel cached" where
  "now_part m = (api_configured (mu_client m), mu_last_track m, mu_backoff_until m, mu_now_playing m)"

lemma TopTracks_configured: "api_configured (fst (snd (TopTracks e now later n period c))) = api_configured c"
  by (simp add: TopTracks_def fetch_body_configured)

lemma TopArtists_configured: "api_configured (fst (snd (TopArtists e now later n period c))) = api_configured c"
  by (simp add: TopArtists_def fetch_body_configured)

lemma refreshTopTracks_now: "now_part (fst (refreshTopTracks e now later m)) = now_part m"
  using TopTracks_configured [of e now later topTracksLimit topTracksRange "mu_client m"]
  by (auto simp: refreshTopTracks_def now_part_def split: prod.split sum.split)

lemma refreshTopArtists_now: "now_part (fst (refreshTopArtists e now later m)) = now_part m"
  using TopArtists_configured [of e now later topArtistsLimit topTracksRange "mu_client m"]
  by (auto simp: refreshTopArtists_def now_part_def split: prod.split sum.split)

lemma refreshPlaylists_now: "now_part (fst (refreshPlaylists e now later m)) = now_part m"
  using fetch_playlists_configured [of e now later "curatedPlaylistIDs (mu_rows m)" "mu_client m"]
  by (auto simp: refreshPlaylists_def now_part_def split: prod.split sum.split)

lemma refreshSlow_now: "now_part (fst (refreshSlow e now later m)) = now_part m"
  by (simp add: refreshSlow_def case_prod_beta refreshTopTracks_now refreshTopArtists_now refreshPlaylists_now)

lemma refreshPlaylistsCache_now: "now_part (fst (refreshPlaylistsCache e now later m)) = now_part m"
  using refreshPlaylists_now [of e now later m] by (simp add: refreshPlaylistsCache_def now_part_def)

lemma now_part_rows [simp]: "now_part (m\<lparr>mu_rows := rows\<rparr>) = now_part m"
  by (simp add: now_part_def)

lemma now_part_client: "api_configured c = api_configured (mu_client m) \<Longrightarrow> now_part (m\<lparr>mu_client := c\<rparr>) = now_part m"
  by (simp add: now_part_def)

lemma createPlaylist_now: "now_part (fst (snd (createPlaylist e now later ctx input m))) = now_part m"
proof -
  have c: "now_part (m\<lparr>mu_client := fst (snd (PlaylistByID e now later i (mu_client m)))\<rparr>) = now_part m" for i
    by (rule now_part_client) (rule PlaylistByID_configured)
  then have r: "now_part (m\<lparr>mu_client := fst (snd (PlaylistByID e now later i (mu_client m))), mu_rows := rows\<rparr>) = now_part m" for i rows
    by simp
  show ?thesis
    by (simp add: createPlaylist_def Let_def case_prod_beta c r refreshPlaylistsCache_now split: sum.split option.split)
qed

lemma deletePlaylist_now: "now_part (fst (snd (deletePlaylist e now later ctx i m))) = now_part m"
  by (simp add: deletePlaylist_def case_prod_beta refreshPlaylistsCache_now split: sum.split)

lemma reorderPlaylists_now: "now_part (fst (snd (reorderPlaylists e now later ctx items m))) = now_part m"
  by (simp add: reorderPlaylists_def case_prod_beta refreshPlaylistsCache_now split: sum.split option.split)

text \<open>One process: ticks of both timers and curation, in any order, against any answers of the service.\<close>

inductive music_step :: "instant \<times> music \<Rightarrow> instant \<times> music \<Rightarrow> bool" where
  ticks: "clock \<le> now \<Longrightarrow> now \<le> later \<Longrightarrow> api_configured (mu_client m) \<Longrightarrow>
    music_step (clock, m) (later, fst (refreshNowPlaying e now later m))"
| slow: "clock \<le> now \<Longrightarrow> now \<le> later \<Longrightarrow> music_step (clock, m) (later, fst (refreshSlow e now later m))"
| creates: "clock \<le> now \<Longrightarrow> now \<le> later \<Longrightarrow> music_step (clock, m) (later, fst (snd (createPlaylist e now later ctx input m)))"
| deletes: "clock \<le> now \<Longrightarrow> now \<le> later \<Longrightarrow> music_step (clock, m) (later, fst (snd (deletePlaylist e now later ctx i m)))"
| reorders: "clock \<le> now \<Longrightarrow> now \<le> later \<Longrightarrow> music_step (clock, m) (later, fst (snd (reorderPlaylists e now later ctx items m)))"

text \<open>A restart keeps the cache and the table.  Without credentials no refresher runs.\<close>

inductive music_reachable :: "instant \<times> music \<Rightarrow> bool" where
  fresh: "mu_now_playing m = None \<Longrightarrow> mu_last_track m = None \<Longrightarrow> music_reachable (clock, m)"
| step: "music_reachable s \<Longrightarrow> music_step s s' \<Longrightarrow> music_reachable s'"
| restart: "music_reachable (clock, m) \<Longrightarrow> clock \<le> now \<Longrightarrow> now \<le> later \<Longrightarrow> api_configured (mu_client m) \<Longrightarrow>
    music_reachable (later, fst (run_start e now later (boot m)))"

lemma music_step_cases:
  assumes "music_step (clock, m) (clock', m')"
  obtains (tick) e now where "clock \<le> now" "now \<le> clock'" "api_configured (mu_client m)" "m' = fst (refreshNowPlaying e now clock' m)"
  | (other) "clock \<le> clock'" "now_part m' = now_part m"
  using assms
proof cases
  case (ticks now e)
  then show ?thesis by (intro tick) simp_all
qed (intro other; simp add: refreshSlow_now createPlaylist_now deletePlaylist_now reorderPlaylists_now)+


lemma refreshNowPlaying_backoff:
  assumes "now \<le> later"
  shows "mu_backoff_until m \<le> mu_backoff_until (fst (refreshNowPlaying e now later m))"
proof (cases "now < mu_backoff_until m")
  case True
  then show ?thesis by (simp add: refreshNowPlaying_def writeLastKnown_def split: option.split)
next
  case False
  have "0 < defaultBackoff" by (simp add: defaultBackoff_def minute_ns_def second_ns_def)
  with False assms have "mu_backoff_until m \<le> later + defaultBackoff"
    "\<not> d < defaultBackoff \<Longrightarrow> mu_backoff_until m \<le> later + d" for d by simp_all
  with False show ?thesis
    by (auto simp: refreshNowPlaying_def writeLastKnown_def Let_def case_prod_beta split: sum.split api_error.split option.split)
qed

lemma music_step_backoff:
  assumes "music_step (clock, m) (clock', m')"
  shows "clock \<le> clock'" "mu_backoff_until m \<le> mu_backoff_until m'"
    "api_configured (mu_client m') = api_configured (mu_client m)"
proof -
  have "api_configured (mu_client (fst (refreshNowPlaying e now later m))) = api_configured (mu_client m)" for e now later
    using NowPlaying_configured [of e now later "mu_client m"]
    by (auto simp: refreshNowPlaying_def writeLastKnown_def Let_def case_prod_beta split: sum.split api_error.split option.split)
  note conf = this
  from assms have "clock \<le> clock' \<and> mu_backoff_until m \<le> mu_backoff_until m' \<and>
      api_configured (mu_client m') = api_configured (mu_client m)"
    by (cases rule: music_step_cases) (auto simp: refreshNowPlaying_backoff now_part_def conf)
  then show "clock \<le> clock'" "mu_backoff_until m \<le> mu_backoff_until m'"
    "api_configured (mu_client m') = api_configured (mu_client m)" by simp_all
qed

lemma music_steps_backoff:
  "music_step\<^sup>*\<^sup>* (clock, m) (clock', m') \<Longrightarrow> clock \<le> clock' \<and> mu_backoff_until m \<le> mu_backoff_until m'"
proof (induction rule: rtranclp_induct2)
  case (step clock1 m1 clock2 m2)
  with music_step_backoff [OF step(2)] show ?case by simp
qed simp

lemma limited_backoff:
  assumes "refreshNowPlaying e now later m = (m', sent)" "mu_backoff_until m \<le> now"
    and "fst (NowPlaying e now later (mu_client m)) = Inl (RateLimited l retryAfter)"
  shows "mu_backoff_until m' = later + max retryAfter defaultBackoff"
proof -
  obtain c sent' where "NowPlaying e now later (mu_client m) = (Inl (RateLimited l retryAfter), c, sent')"
    using assms(3) by (metis prod.collapse)
  then show ?thesis using assms(1,2) by (auto simp: refreshNowPlaying_def writeLastKnown_def Let_def max_def split: option.splits)
qed

text \<open>C39: A rate limit is honoured.  After the service refused a now-playing request with 429 and a wait (at least
  five minutes are taken), no tick of the same process asks for the track before the wait is over, whatever other
  ticks and edits happen in between and however the service answers them; such a tick only shows the
  last track again.\<close>

theorem backoff_respected:
  assumes "refreshNowPlaying e now later m = (m1, sent1)" "mu_backoff_until m \<le> now"
    and "fst (NowPlaying e now later (mu_client m)) = Inl (RateLimited l retryAfter)"
    and "music_step\<^sup>*\<^sup>* (later, m1) (clock, m2)" "refreshNowPlaying e' now' later' m2 = (m3, sent)"
    and "now' < later + max retryAfter defaultBackoff"
  shows "sent = [] \<and> mu_client m3 = mu_client m2 \<and> mu_last_track m3 = mu_last_track m2 \<and>
    mu_now_playing m3 = (case mu_last_track m2 of None \<Rightarrow> mu_now_playing m2
      | Some t \<Rightarrow> Some (\<lparr>pn_track = t\<lparr>tk_is_playing := False\<rparr>, pn_source = LastPlayed\<rparr>, later' + nowPlayingCacheTTL))"
proof -
  have "later + max retryAfter defaultBackoff \<le> mu_backoff_until m2"
    using limited_backoff [OF assms(1-3)] music_steps_backoff [OF assms(4)] by simp
  with assms(6) have "now' < mu_backoff_until m2" by simp
  then show ?thesis using assms(5) by (auto simp: refreshNowPlaying_def writeLastKnown_def split: option.splits)
qed

text \<open>The slow refresh does not look at the backoff: it calls the service in the middle of one, and a refusal of its
  own calls starts none.\<close>

lemma slow_refresh_ignores_backoff:
  assumes "api_configured (mu_client m)" "ac_access_token (mu_client m) \<noteq> ''''" "now < ac_expires_at (mu_client m)"
  shows "\<exists>rest. snd (refreshSlow e now later m) =
      ApiGet (TopTracksOf topTracksLimit topTracksRange) (ac_access_token (mu_client m)) # rest"
    and "mu_backoff_until (fst (refreshSlow e now later m)) = mu_backoff_until m"
proof -
  have "snd (refreshTopTracks e now later m) = [ApiGet (TopTracksOf topTracksLimit topTracksRange) (ac_access_token (mu_client m))]"
    using assms by (simp add: refreshTopTracks_def TopTracks_def fetch_body_def api_get_def access_token_def
        split: sum.split option.split)
  then show "\<exists>rest. snd (refreshSlow e now later m) =
      ApiGet (TopTracksOf topTracksLimit topTracksRange) (ac_access_token (mu_client m)) # rest"
    by (simp add: refreshSlow_def case_prod_beta)
  show "mu_backoff_until (fst (refreshSlow e now later m)) = mu_backoff_until m"
    using refreshSlow_now [of e now later m] by (simp add: now_part_def)
qed

section \<open>The panel\<close>

text \<open>Without a last track the cache has nothing that is still valid.\<close>

definition panel_ok :: "instant \<times> music \<Rightarrow> bool" where
  "panel_ok s \<longleftrightarrow> (mu_last_track (snd s) = None \<longrightarrow> cache_get (fst s) (mu_now_playing (snd s)) = None)"

lemma cache_stale: "cache_get now v = None \<Longrightarrow> now \<le> later \<Longrightarrow> cache_get later v = None"
  by (auto simp: cache_get_def split: option.splits if_splits)

lemma tick_panel:
  assumes "panel_ok (clock, m)" "clock \<le> now" "now \<le> later" "api_configured (mu_client m)"
    and "refreshNowPlaying e now later m = (m', sent)" "later \<le> t" "t < later + nowPlayingCacheTTL"
  shows "getNowPlaying t m' =
      (case (if now < mu_backoff_until m then Inr None else fst (NowPlaying e now later (mu_client m))) of
         Inr (Some tr) \<Rightarrow> Some \<lparr>pn_track = tr, pn_source = LiveNow\<rparr>
       | _ \<Rightarrow> map_option (\<lambda>tr. \<lparr>pn_track = tr\<lparr>tk_is_playing := False\<rparr>, pn_source = LastPlayed\<rparr>) (mu_last_track m))"
    and "mu_last_track m' =
      (case (if now < mu_backoff_until m then Inr None else fst (NowPlaying e now later (mu_client m))) of
         Inr (Some tr) \<Rightarrow> Some tr | _ \<Rightarrow> mu_last_track m)"
proof -
  obtain res c sent' where np: "NowPlaying e now later (mu_client m) = (res, c, sent')" by (metis prod.collapse)
  have res: "res \<noteq> Inl NoCredentials" using NowPlaying_credentials [OF assms(4), of e now later] np by simp
  have "mu_last_track m = None \<Longrightarrow> cache_get t (mu_now_playing m) = None"
    using assms(1-3,6) cache_stale [of clock _ t] by (simp add: panel_ok_def)
  then have same: "getNowPlaying t (writeLastKnown later m0) =
      map_option (\<lambda>tr. \<lparr>pn_track = tr\<lparr>tk_is_playing := False\<rparr>, pn_source = LastPlayed\<rparr>) (mu_last_track m)"
    if "mu_last_track m0 = mu_last_track m" "mu_now_playing m0 = mu_now_playing m" for m0
    using assms(7) that by (auto simp: getNowPlaying_def writeLastKnown_def cache_get_def split: option.splits)
  have shown: "getNowPlaying t (m\<lparr>mu_client := c, mu_last_track := Some tr,
      mu_now_playing := Some (\<lparr>pn_track = tr, pn_source = LiveNow\<rparr>, later + nowPlayingCacheTTL)\<rparr>) =
      Some \<lparr>pn_track = tr, pn_source = LiveNow\<rparr>" for tr
    using assms(7) by (simp add: getNowPlaying_def cache_get_def)
  have kept: "mu_last_track (writeLastKnown later m0) = mu_last_track m0" for m0
    by (simp add: writeLastKnown_def split: option.split)
  show "getNowPlaying t m' =
      (case (if now < mu_backoff_until m then Inr None else fst (NowPlaying e now later (mu_client m))) of
         Inr (Some tr) \<Rightarrow> Some \<lparr>pn_track = tr, pn_source = LiveNow\<rparr>
       | _ \<Rightarrow> map_option (\<lambda>tr. \<lparr>pn_track = tr\<lparr>tk_is_playing := False\<rparr>, pn_source = LastPlayed\<rparr>) (mu_last_track m))"
    and "mu_last_track m' =
      (case (if now < mu_backoff_until m then Inr None else fst (NowPlaying e now later (mu_client m))) of
         Inr (Some tr) \<Rightarrow> Some tr | _ \<Rightarrow> mu_last_track m)"
    using assms(5) np res same shown kept
    by (auto simp: refreshNowPlaying_def Let_def split: if_splits sum.splits option.splits api_error.splits)
qed


lemma ttl_pos: "0 < nowPlayingCacheTTL"
  by (simp add: nowPlayingCacheTTL_def minute_ns_def second_ns_def)

lemma tick_panel_ok:
  assumes "panel_ok (clock, m)" "clock \<le> now" "now \<le> later" "api_configured (mu_client m)"
  shows "panel_ok (later, fst (refreshNowPlaying e now later m))"
proof -
  let ?r = "refreshNowPlaying e now later m"
  have r: "?r = (fst ?r, snd ?r)" by simp
  show ?thesis using tick_panel [OF assms r order_refl] ttl_pos
    by (auto simp: panel_ok_def getNowPlaying_def split: sum.splits option.splits)
qed

lemma panel_ok_part: "panel_ok (clock, m) \<Longrightarrow> now_part m' = now_part m \<Longrightarrow> clock \<le> clock' \<Longrightarrow> panel_ok (clock', m')"
  by (auto simp: panel_ok_def now_part_def intro: cache_stale)

lemma reachable_panel: "music_reachable s \<Longrightarrow> panel_ok s"
proof (induction rule: music_reachable.induct)
  case (fresh m clock)
  then show ?case by (simp add: panel_ok_def cache_get_def)
next
  case (step s s')
  obtain clock m clock' m' where s: "s = (clock, m)" "s' = (clock', m')" by fastforce
  from step(2) [unfolded s] show ?case unfolding s
    by (cases rule: music_step_cases) (use step(3) s in \<open>auto intro: tick_panel_ok panel_ok_part\<close>)
next
  case (restart clock m now later e)
  let ?m = "hydrateLastTrack now (boot m)"
  have "panel_ok (now, ?m)"
    by (auto simp: panel_ok_def hydrateLastTrack_def boot_def split: option.split)
  moreover have conf: "api_configured (mu_client ?m)" "api_configured (mu_client (boot m))"
    using restart(4) by (auto simp: hydrateLastTrack_def boot_def api_configured_def split: option.split)
  ultimately have "panel_ok (later, fst (refreshNowPlaying e now later ?m))"
    using restart(3) by (intro tick_panel_ok [OF _ order_refl])
  then show ?case
    by (rule panel_ok_part) (simp_all add: run_start_def conf case_prod_beta refreshSlow_now)
qed


section \<open>Curation\<close>

lemma rows_kept: "mu_rows (fst (refreshPlaylistsCache e now later m)) = mu_rows m"
  by (simp add: refreshPlaylistsCache_def refreshPlaylists_def case_prod_beta split: sum.split)

text \<open>A reordering is all or nothing; the last item that names a playlist decides.\<close>

theorem reorder_exact:
  assumes "requireAdmin ctx = Inr u" "reorderPlaylists e now later ctx items m = (res, m', sent)"
  shows "case res of
      Inl err \<Rightarrow> m' = m \<and> sent = [] \<and> (\<exists>i \<in> fst ` set items. i \<notin> py_id ` set (mu_rows m))
    | Inr out \<Rightarrow> fst ` set items \<subseteq> py_id ` set (mu_rows m) \<and> out = sort_key py_sort_order (mu_rows m') \<and>
        mu_rows m' = map (\<lambda>p. case map_of (rev items) (py_id p) of None \<Rightarrow> p
          | Some n \<Rightarrow> p\<lparr>py_sort_order := n\<rparr>) (mu_rows m)"
proof (cases "reorder_by py_id place_playlist items (mu_rows m)")
  case None
  then have "\<exists>i \<in> fst ` set items. i \<notin> py_id ` set (mu_rows m)" using playlist_rows.refused [of items "mu_rows m"] by blast
  moreover have "res = Inl (Http 404 ''playlist not found'')" "m' = m" "sent = []"
    using assms None by (simp_all add: reorderPlaylists_def)
  ultimately show ?thesis by simp
next
  case (Some rows)
  note rows = playlist_rows.reordered [OF Some]
  have "mu_rows m' = rows" "res = Inr (sort_key py_sort_order (mu_rows m'))"
    using assms Some rows_kept [of e now later "m\<lparr>mu_rows := rows\<rparr>"] by (auto simp: reorderPlaylists_def split: prod.splits)
  then show ?thesis using rows by (simp add: place_playlist_def cong: option.case_cong)
qed

text \<open>The three forms of an identifier that an administrator may paste.\<close>

definition is_base62 :: "string \<Rightarrow> bool" where
  "is_base62 s \<longleftrightarrow> s \<noteq> '''' \<and> list_all (\<lambda>c. url_letter c \<or> is_digit c) s"

lemma base62_plain: "url_letter c \<or> is_digit c \<Longrightarrow> \<not> is_space c \<and> c \<notin> set ''?/#:%''"
  by (auto simp: url_letter_def is_digit_def lower_char_def is_space_def)

lemma parsed_id_ok: "parseSpotifyPlaylistID input = Some i \<Longrightarrow> is_base62 i"
  by (auto simp: parseSpotifyPlaylistID_def is_base62_def Let_def split: if_splits option.splits)


lemma base62_chars: "is_base62 i \<Longrightarrow> c \<in> set i \<Longrightarrow> \<not> is_space c \<and> c \<notin> set ''?/#:%''"
  using base62_plain by (auto simp: is_base62_def list_all_iff)

lemma trim_word: "\<forall>c \<in> set w. \<not> is_space c \<Longrightarrow> trim_space w = w"
proof -
  assume w: "\<forall>c \<in> set w. \<not> is_space c"
  have d: "dropWhile is_space v = v" if "\<forall>c \<in> set v. \<not> is_space c" for v
    using that by (cases v) simp_all
  show ?thesis by (simp add: trim_space_def trim_right_def d w)
qed

lemma percent_ok_plain: "CHR ''%'' \<notin> set s \<Longrightarrow> percent_ok s"
  by (induction s) auto

lemma unescape_plain: "CHR ''%'' \<notin> set s \<Longrightarrow> unescape s = s"
  by (induction s rule: unescape.induct) auto

lemma id_tail:
  assumes "is_base62 i"
  shows "trim_space (takeWhile (\<lambda>c. c \<noteq> CHR ''?'' \<and> c \<noteq> CHR ''/'' \<and> c \<noteq> CHR ''#'') i) = i"
proof -
  have i: "takeWhile (\<lambda>c. c \<noteq> CHR ''?'' \<and> c \<noteq> CHR ''/'' \<and> c \<noteq> CHR ''#'') i = i"
    using base62_chars [OF assms] by (auto simp: takeWhile_eq_all_conv)
  show ?thesis unfolding i by (rule trim_word) (use base62_chars [OF assms] in blast)
qed

lemma share_path:
  assumes "is_base62 i" "\<forall>c \<in> set w. \<not> is_ctl c \<and> c \<noteq> CHR ''#''"
  shows "url_path (''https://open.spotify.com/playlist/'' @ i @ ''?si='' @ w) = Some (''/playlist/'' @ i)"
proof -
  let ?s = "''https://open.spotify.com/playlist/'' @ i @ ''?si='' @ w"
  have i: "CHR ''#'' \<notin> set i" "CHR ''?'' \<notin> set i" "CHR ''%'' \<notin> set i" "CHR ''/'' \<notin> set i" using base62_chars [OF assms(1)] by auto
  have "\<not> is_ctl c" if "c \<in> set i" for c
    using that assms(1) by (auto simp: is_base62_def list_all_iff is_ctl_def url_letter_def is_digit_def lower_char_def)
  then have ctl: "\<not> list_ex is_ctl ?s" using assms(2) by (auto simp: list_ex_iff is_ctl_def)
  have u: "before CHR ''#'' ?s = ?s" using i(1) assms(2) by (auto simp: before_def takeWhile_eq_all_conv)
  have scheme: "getScheme ?s = Some (''https'', ''//open.spotify.com/playlist/'' @ i @ ''?si='' @ w)"
    by (simp add: getScheme_def Let_def scheme_tail_def url_letter_def is_digit_def lower_char_def)
  have p: "before CHR ''?'' (''//open.spotify.com/playlist/'' @ i @ ''?si='' @ w) = ''//open.spotify.com/playlist/'' @ i"
    using i(2) by (auto simp: before_def takeWhile_append)
  have a: "authority_ok ''open.spotify.com''" "before CHR ''/'' (''open.spotify.com/playlist/'' @ i) = ''open.spotify.com''"
    by code_simp (simp add: before_def)
  have q: "percent_ok (''/playlist/'' @ i)" "unescape (''/playlist/'' @ i) = ''/playlist/'' @ i"
    using i(3) by (auto intro!: percent_ok_plain unescape_plain)
  have f: "drop (Suc (length ?s)) ?s = ''''" by (rule drop_all) simp
  have cond: "\<not> (list_ex is_ctl ?s \<or> \<not> percent_ok (drop (Suc (length ?s)) ?s))" unfolding f using ctl by simp
  show ?thesis unfolding url_path_def Let_def u if_not_P [OF cond] scheme option.case prod.case p using a q by simp
qed

text \<open>C0: Every way of naming a playlist gives its identifier: the bare identifier, a URI, and a share link, whatever the
  link's query; and whatever is accepted is an identifier in base 62.\<close>

theorem playlist_id_forms:
  assumes "is_base62 i" "\<forall>c \<in> set w. \<not> is_ctl c \<and> \<not> is_space c \<and> c \<noteq> CHR ''#''"
  shows "parseSpotifyPlaylistID i = Some i \<and> parseSpotifyPlaylistID (''spotify:playlist:'' @ i) = Some i \<and>
    parseSpotifyPlaylistID (''https://open.spotify.com/playlist/'' @ i @ ''?si='' @ w) = Some i \<and>
    (\<forall>input j. parseSpotifyPlaylistID input = Some j \<longrightarrow> is_base62 j)"
proof (intro conjI allI impI)
  have ne: "i \<noteq> ''''" and plain: "\<forall>c \<in> set i. \<not> is_space c" "CHR '':'' \<notin> set i" "CHR ''/'' \<notin> set i"
    using assms(1) base62_chars [OF assms(1)] by (auto simp: is_base62_def)
  have not: "\<not> prefix ''spotify:playlist:'' i" "\<not> contains i ''/playlist/''"
    using plain(2,3) by (auto simp: prefix_def contains_iff)
  show "parseSpotifyPlaylistID i = Some i"
    using assms(1) by (simp add: parseSpotifyPlaylistID_def trim_word plain ne not id_tail) (simp add: is_base62_def)
  have t: "trim_space (''spotify:playlist:'' @ i) = ''spotify:playlist:'' @ i" using plain(1) by (intro trim_word) (auto simp: is_space_def)
  show "parseSpotifyPlaylistID (''spotify:playlist:'' @ i) = Some i"
    unfolding parseSpotifyPlaylistID_def t using assms(1) by (simp add: id_tail) (simp add: is_base62_def)
  let ?s = "''https://open.spotify.com/playlist/'' @ i @ ''?si='' @ w"
  have ts: "trim_space ?s = ?s" using plain(1) assms(2) by (intro trim_word) (auto simp: is_space_def)
  have c: "contains ?s ''/playlist/''" "contains (''/playlist/'' @ i) ''/playlist/''"
    using contains_append_mid [of "''https://open.spotify.com''" "''/playlist/''" "i @ ''?si='' @ w"]
      contains_append_mid [of "''''" "''/playlist/''" i] by simp_all
  have path: "url_path ?s = Some (''/playlist/'' @ i)" using share_path assms by blast
  have aft: "after_word ''/playlist/'' (''/playlist/'' @ i) = i" by simp
  show "parseSpotifyPlaylistID ?s = Some i"
    unfolding parseSpotifyPlaylistID_def ts Let_def path if_P [OF c(1)] option.case if_P [OF c(2)] aft
    using assms(1) by (simp add: id_tail) (simp add: is_base62_def)
qed (rule parsed_id_ok)


section \<open>Witnesses\<close>

definition ex_track :: "string \<Rightarrow> track" where
  "ex_track title = \<lparr>tk_is_playing = True, tk_title = title, tk_artists = [''A''], tk_album = '''', tk_album_image = '''', tk_song_url = ''''\<rparr>"

definition ex_raw :: raw_track where
  "ex_raw = \<lparr>rt_name = ''Song'', rt_url = '''', rt_artists = [''A''], rt_album = '''', rt_images = []\<rparr>"

text \<open>A service that answers every request for the track alike.\<close>

definition ex_net :: "int \<Rightarrow> string \<Rightarrow> spotify_env" where
  "ex_net status wait = \<lparr>net = (\<lambda>rq. case rq of
       TokenRequest \<Rightarrow> Some \<lparr>ar_status = 200, ar_retry_after = '''', ar_body = ''token''\<rparr>
     | ApiGet ep tok \<Rightarrow> Some \<lparr>ar_status = status, ar_retry_after = wait, ar_body = ''track''\<rparr>),
     dec_token = (\<lambda>b. Some (b, 3600)), dec_playing = (\<lambda>b. Some (True, ex_raw)), dec_tracks = (\<lambda>b. None),
     dec_artists = (\<lambda>b. None), dec_playlist = (\<lambda>b. None), dec_date = (\<lambda>v. None)\<rparr>"

definition ex_client :: api_client where
  "ex_client = \<lparr>ac_id = ''i'', ac_secret = ''s'', ac_refresh_token = ''r'', ac_access_token = ''t'', ac_expires_at = 10000 * second_ns\<rparr>"

definition ex_music :: music where
  "ex_music = \<lparr>mu_client = ex_client, mu_last_track = None, mu_backoff_until = 0, mu_now_playing = None,
     mu_top_tracks = None, mu_top_artists = None, mu_playlists = None, mu_rows = []\<rparr>"

lemma ex_client_configured: "api_configured ex_client"
  by (simp add: api_configured_def ex_client_def)

text \<open>The track is live at 0 s; at 60 s the service asks for ten minutes, and at 600 s nothing is sent.\<close>

definition ex_live :: music where
  "ex_live = ex_music\<lparr>mu_last_track := Some (ex_track ''Song''),
     mu_now_playing := Some (\<lparr>pn_track = ex_track ''Song'', pn_source = LiveNow\<rparr>, 600 * second_ns)\<rparr>"

definition ex_limited :: music where
  "ex_limited = ex_live\<lparr>mu_backoff_until := 660 * second_ns,
     mu_now_playing := Some (\<lparr>pn_track = (ex_track ''Song'')\<lparr>tk_is_playing := False\<rparr>, pn_source = LastPlayed\<rparr>, 660 * second_ns)\<rparr>"

lemma ex_wait: "parseRetryAfter (ex_net 429 ''600'') later \<lparr>ar_status = 429, ar_retry_after = ''600'', ar_body = b\<rparr> = 600 * second_ns"
proof -
  have "trim_space ''600'' = ''600''" "atoi ''600'' = Some 600" "seconds 600 = 600 * second_ns" by code_simp+
  then show ?thesis by (simp add: parseRetryAfter_def)
qed

lemma ex_spotify_answers:
  "NowPlaying (ex_net 200 '''') 0 0 ex_client = (Inr (Some (ex_track ''Song'')), ex_client, [ApiGet CurrentlyPlaying ''t''])"
  "NowPlaying (ex_net 429 ''600'') (60 * second_ns) (60 * second_ns) ex_client =
     (Inl (RateLimited ''now-playing'' (600 * second_ns)), ex_client, [ApiGet CurrentlyPlaying ''t''])"
  using ex_client_configured ex_wait
  by (simp_all add: NowPlaying_def api_get_def access_token_def statusError_def ex_net_def ex_client_def second_ns_def
      toTrack_def ex_raw_def ex_track_def first_image_def)

lemma ex_ticks:
  "refreshNowPlaying (ex_net 200 '''') 0 0 ex_music = (ex_live, [ApiGet CurrentlyPlaying ''t''])"
  "refreshNowPlaying (ex_net 429 ''600'') (60 * second_ns) (60 * second_ns) ex_live = (ex_limited, [ApiGet CurrentlyPlaying ''t''])"
  using ex_spotify_answers
  by (simp_all add: refreshNowPlaying_def writeLastKnown_def ex_music_def ex_live_def ex_limited_def
      nowPlayingCacheTTL_def defaultBackoff_def minute_ns_def second_ns_def Let_def)

theorem backoff_respected_witness:
  "snd (refreshNowPlaying (ex_net 200 '''') (600 * second_ns) (600 * second_ns) ex_limited) = [] \<and>
   snd (refreshNowPlaying (ex_net 429 ''600'') (60 * second_ns) (60 * second_ns) ex_live) = [ApiGet CurrentlyPlaying ''t'']"
proof -
  let ?r = "refreshNowPlaying (ex_net 200 '''') (600 * second_ns) (600 * second_ns) ex_limited"
  have "mu_backoff_until ex_live \<le> 60 * second_ns" by (simp add: ex_live_def ex_music_def second_ns_def)
  moreover have "fst (NowPlaying (ex_net 429 ''600'') (60 * second_ns) (60 * second_ns) (mu_client ex_live)) =
      Inl (RateLimited ''now-playing'' (600 * second_ns))"
    using ex_spotify_answers(2) by (simp add: ex_live_def ex_music_def)
  moreover have "music_step\<^sup>*\<^sup>* (60 * second_ns, ex_limited) (60 * second_ns, ex_limited)" by simp
  moreover have "?r = (fst ?r, snd ?r)" by simp
  moreover have "600 * second_ns < 60 * second_ns + max (600 * second_ns) defaultBackoff"
    by (simp add: second_ns_def defaultBackoff_def minute_ns_def)
  ultimately have "snd ?r = []" using backoff_respected [OF ex_ticks(2)] by blast
  then show ?thesis by (simp add: ex_ticks(2))
qed


theorem playlist_id_forms_witness:
  "parseSpotifyPlaylistID (''https://open.spotify.com/playlist/'' @ ''37i9dQ'' @ ''?si='' @ ''ab&pt=1'') = Some ''37i9dQ''"
proof -
  have i: "is_base62 ''37i9dQ''" by (simp add: is_base62_def url_letter_def is_digit_def lower_char_def)
  have w: "list_all (\<lambda>c. \<not> is_ctl c \<and> \<not> is_space c \<and> c \<noteq> CHR ''#'') ''ab&pt=1''" by (simp add: is_ctl_def is_space_def)
  show ?thesis by (rule conjunct1 [OF conjunct2 [OF conjunct2 [OF playlist_id_forms [OF i w [unfolded list_all_iff]]]]])
qed

end
