(* ===== verification/WhatsApp.thy ===== *)
theory WhatsApp
  imports Auth
begin

text \<open>
  The WhatsApp sender: phone normalization and bulk paste (\<open>internal/whatsapp/normalize.go\<close>), the
  owner-scoped templates, recipient lists and batches (\<open>internal/api/whatsapp.go\<close>,
  \<open>internal/api/whatsapp_batch.go\<close>), and the relay of one batch's event stream
  (\<open>internal/whatsapp/sidecar.go\<close>).

  The decoding of a stream line is a parameter (\<open>decode\<close>, \<open>None\<close> for a malformed line), and so are the
  sidecar's answer and what happens to the browser's connection: every line says whether writing it to the
  browser succeeded and whether the request was still live when its bookkeeping was written.  A
  bookkeeping write fails when its context is cancelled or a validator of the schema refuses it; other
  failures of the database are not modelled.
\<close>

section \<open>Phone numbers\<close>

definition DefaultCountryCode :: string where "DefaultCountryCode = ''61''"
definition minPhoneDigits :: nat where "minPhoneDigits = 8"
definition maxPhoneDigits :: nat where "maxPhoneDigits = 15"

definition NormalizePhone :: "string \<Rightarrow> string \<Rightarrow> string option" where
  "NormalizePhone raw code0 =
     (let code = (if code0 = '''' then DefaultCountryCode else code0);
          digits = filter is_digit raw
      in if digits = '''' then None
         else
          (let d = (if prefix ''00'' digits then drop 2 digits
                    else if prefix ''0'' digits then code @ drop 1 digits else digits)
           in if length d < minPhoneDigits \<or> maxPhoneDigits < length d then None else Some d))"

record parsed_recipient =
  pr_phone :: string
  pr_name :: string

record line_error =
  le_line :: nat
  le_raw :: string
  le_reason :: string

definition is_separator :: "char \<Rightarrow> bool" where
  "is_separator c \<longleftrightarrow> c = CHR '','' \<or> c = CHR 0x09"

definition splitPhoneName :: "string \<Rightarrow> string \<times> string" where
  "splitPhoneName line =
     (let p = takeWhile (\<lambda>c. \<not> is_separator c) line in (p, drop (Suc (length p)) line))"

text \<open>The lines with their numbers, as the loop takes them; \<open>seen\<close> holds the phones met before.\<close>

definition clean_line :: "string \<Rightarrow> string" where
  "clean_line line = trim_space (if suffix [CHR 0x0D] line then butlast line else line)"

fun parse_lines ::
  "string \<Rightarrow> nat \<Rightarrow> string set \<Rightarrow> string list \<Rightarrow> parsed_recipient list \<times> line_error list" where
  "parse_lines code i seen [] = ([], [])"
| "parse_lines code i seen (line # lines) =
     (let raw = clean_line line
      in if raw = '''' then parse_lines code (Suc i) seen lines
         else
          (case NormalizePhone (fst (splitPhoneName raw)) code of
             None \<Rightarrow>
               (let (rs, es) = parse_lines code (Suc i) seen lines
                in (rs, \<lparr>le_line = Suc i, le_raw = raw, le_reason = ''not a valid phone number''\<rparr> # es))
           | Some phone \<Rightarrow>
               if phone \<in> seen then parse_lines code (Suc i) seen lines
               else
                (let (rs, es) = parse_lines code (Suc i) (insert phone seen) lines
                 in (\<lparr>pr_phone = phone, pr_name = trim_space (snd (splitPhoneName raw))\<rparr> # rs, es))))"

definition text_lines :: "string \<Rightarrow> string list" where
  "text_lines s = split_at (\<lambda>c. c = CHR 0x0A) s"

definition ParseRecipients :: "string \<Rightarrow> string \<Rightarrow> parsed_recipient list \<times> line_error list" where
  "ParseRecipients s code = parse_lines code 0 {} (text_lines s)"

section \<open>Rows\<close>

record template =
  tp_id :: nat
  tp_owner :: nat
  tp_name :: string
  tp_body :: string
  tp_created :: instant
  tp_updated :: instant

record recipient_list =
  rl_id :: nat
  rl_owner :: nat
  rl_name :: string
  rl_code :: string
  rl_created :: instant
  rl_updated :: instant

record recipient =
  rc_id :: nat
  rc_list :: nat
  rc_phone :: string
  rc_name :: string

datatype wa_status = BatchPending | BatchLinking | BatchRunning | BatchCompleted | BatchFailed

text \<open>\<open>updated_at\<close> of a batch is read nowhere and left out.\<close>

record batch =
  wb_id :: nat
  wb_owner :: nat
  wb_template :: "nat option"
  wb_list :: "nat option"
  wb_status :: wa_status
  wb_total :: int
  wb_sent :: int
  wb_failed :: int
  wb_skipped :: int
  wb_error :: string
  wb_created :: instant

record wa_db =
  wa_templates :: "template list"
  wa_lists :: "recipient_list list"
  wa_recipients :: "recipient list"
  wa_batches :: "batch list"

text \<open>The validators of the schema; lengths are in bytes.\<close>

definition named_ok :: "string \<Rightarrow> bool" where
  "named_ok name \<longleftrightarrow> name \<noteq> '''' \<and> length name \<le> 120"

definition country_ok :: "string \<Rightarrow> bool" where
  "country_ok code \<longleftrightarrow> length code \<le> 4 \<and> list_all is_digit code"

text \<open>What the deployment configures: whether a sender exists, and the two caps.\<close>

record wa_conf =
  wc_configured :: bool
  wc_max_recipients :: int
  wc_max_per_day :: int

section \<open>Owner-scoped lookups\<close>

definition ownedTemplate :: "wa_db \<Rightarrow> nat \<Rightarrow> nat \<Rightarrow> http_error + template" where
  "ownedTemplate db uid i =
     (case find (\<lambda>t. tp_id t = i \<and> tp_owner t = uid) (wa_templates db) of
        None \<Rightarrow> Inl (Http 404 ''template not found'') | Some t \<Rightarrow> Inr t)"

definition ownedList :: "wa_db \<Rightarrow> nat \<Rightarrow> nat \<Rightarrow> http_error + recipient_list" where
  "ownedList db uid i =
     (case find (\<lambda>l. rl_id l = i \<and> rl_owner l = uid) (wa_lists db) of
        None \<Rightarrow> Inl (Http 404 ''recipient list not found'') | Some l \<Rightarrow> Inr l)"

section \<open>Templates\<close>

definition listTemplates :: "request_ctx \<Rightarrow> wa_db \<Rightarrow> http_error + template list" where
  "listTemplates ctx db =
     (case requireFriend ctx of Inl err \<Rightarrow> Inl err
      | Inr u \<Rightarrow> Inr (sort_key (\<lambda>t. - tp_updated t) (filter (\<lambda>t. tp_owner t = u_id u) (wa_templates db))))"

definition createTemplate ::
  "request_ctx \<Rightarrow> string \<Rightarrow> string \<Rightarrow> instant \<Rightarrow> wa_db \<Rightarrow> (http_error + template) \<times> wa_db" where
  "createTemplate ctx name body now db =
     (case requireFriend ctx of Inl err \<Rightarrow> (Inl err, db)
      | Inr u \<Rightarrow>
         (let t = \<lparr>tp_id = fresh_id (map tp_id (wa_templates db)), tp_owner = u_id u, tp_name = name, tp_body = body,
                   tp_created = now, tp_updated = now\<rparr>
          in if named_ok name \<and> body \<noteq> '''' then (Inr t, db\<lparr>wa_templates := wa_templates db @ [t]\<rparr>)
             else (Inl (Http 500 ''failed to create template''), db)))"

definition getTemplate :: "request_ctx \<Rightarrow> nat \<Rightarrow> wa_db \<Rightarrow> http_error + template" where
  "getTemplate ctx i db =
     (case requireFriend ctx of Inl err \<Rightarrow> Inl err | Inr u \<Rightarrow> ownedTemplate db (u_id u) i)"

definition updateTemplate ::
  "request_ctx \<Rightarrow> nat \<Rightarrow> string \<Rightarrow> string \<Rightarrow> instant \<Rightarrow> wa_db \<Rightarrow> (http_error + template) \<times> wa_db" where
  "updateTemplate ctx i name body now db =
     (case requireFriend ctx of Inl err \<Rightarrow> (Inl err, db)
      | Inr u \<Rightarrow>
       (case ownedTemplate db (u_id u) i of Inl err \<Rightarrow> (Inl err, db)
        | Inr t \<Rightarrow>
           (let f = (\<lambda>t. t\<lparr>tp_name := name, tp_body := body, tp_updated := now\<rparr>)
            in if named_ok name \<and> body \<noteq> ''''
               then (Inr (f t), db\<lparr>wa_templates := update_where (\<lambda>t. tp_id t = i) f (wa_templates db)\<rparr>)
               else (Inl (Http 500 ''failed to update template''), db))))"

definition detach_template :: "nat \<Rightarrow> batch list \<Rightarrow> batch list" where
  "detach_template i = update_where (\<lambda>b. wb_template b = Some i) (\<lambda>b. b\<lparr>wb_template := None\<rparr>)"

definition deleteTemplate :: "request_ctx \<Rightarrow> nat \<Rightarrow> wa_db \<Rightarrow> http_error option \<times> wa_db" where
  "deleteTemplate ctx i db =
     (case requireFriend ctx of Inl err \<Rightarrow> (Some err, db)
      | Inr u \<Rightarrow>
       (case ownedTemplate db (u_id u) i of Inl err \<Rightarrow> (Some err, db)
        | Inr _ \<Rightarrow>
           (None, db\<lparr>wa_batches := detach_template i (wa_batches db),
                     wa_templates := filter (\<lambda>t. tp_id t \<noteq> i) (wa_templates db)\<rparr>)))"

section \<open>Recipient lists\<close>

definition effectiveCountryCode :: "string \<Rightarrow> user \<Rightarrow> string" where
  "effectiveCountryCode listCode u = (if listCode \<noteq> '''' then listCode else u_country u)"

text \<open>Bulk insertion numbers the rows in the order of the paste.\<close>

fun bulkCreateRecipients :: "nat \<Rightarrow> parsed_recipient list \<Rightarrow> recipient list \<Rightarrow> recipient list" where
  "bulkCreateRecipients l [] rs = rs"
| "bulkCreateRecipients l (p # ps) rs =
     bulkCreateRecipients l ps
       (rs @ [\<lparr>rc_id = fresh_id (map rc_id rs), rc_list = l, rc_phone = pr_phone p, rc_name = pr_name p\<rparr>])"

definition members :: "wa_db \<Rightarrow> nat \<Rightarrow> recipient list" where
  "members db l = sort_key rc_id (filter (\<lambda>r. rc_list r = l) (wa_recipients db))"

definition listLists :: "request_ctx \<Rightarrow> wa_db \<Rightarrow> http_error + (recipient_list \<times> nat) list" where
  "listLists ctx db =
     (case requireFriend ctx of Inl err \<Rightarrow> Inl err
      | Inr u \<Rightarrow> Inr (map (\<lambda>l. (l, count_where (\<lambda>r. rc_list r = rl_id l) (wa_recipients db)))
                   (sort_key (\<lambda>l. - rl_updated l) (filter (\<lambda>l. rl_owner l = u_id u) (wa_lists db)))))"

definition getList :: "request_ctx \<Rightarrow> nat \<Rightarrow> wa_db \<Rightarrow> http_error + recipient_list \<times> recipient list" where
  "getList ctx i db =
     (case requireFriend ctx of Inl err \<Rightarrow> Inl err
      | Inr u \<Rightarrow> (case ownedList db (u_id u) i of Inl err \<Rightarrow> Inl err | Inr l \<Rightarrow> Inr (l, members db (rl_id l))))"

text \<open>The body of a create or update: name, country code and the pasted text.\<close>

record list_body =
  lb_name :: string
  lb_code :: string
  lb_text :: string

definition tooManyRecipientsMsg :: "int \<Rightarrow> int \<Rightarrow> string" where
  "tooManyRecipientsMsg n limit = ''a list may hold at most '' @ itoa limit @ '' recipients (got '' @ itoa n @ '')''"

definition too_many :: "wa_conf \<Rightarrow> 'a list \<Rightarrow> http_error" where
  "too_many conf xs = Http 422 (tooManyRecipientsMsg (int (length xs)) (wc_max_recipients conf))"

type_synonym list_answer = "recipient_list \<times> parsed_recipient list \<times> line_error list"

definition createList ::
  "wa_conf \<Rightarrow> request_ctx \<Rightarrow> list_body \<Rightarrow> instant \<Rightarrow> wa_db \<Rightarrow> (http_error + list_answer) \<times> wa_db" where
  "createList conf ctx inp now db =
     (case requireFriend ctx of Inl err \<Rightarrow> (Inl err, db)
      | Inr u \<Rightarrow>
         (let (parsed, invalid) = ParseRecipients (lb_text inp) (effectiveCountryCode (lb_code inp) u)
          in if wc_max_recipients conf < int (length parsed) then (Inl (too_many conf parsed), db)
             else
              (let l = \<lparr>rl_id = fresh_id (map rl_id (wa_lists db)), rl_owner = u_id u, rl_name = lb_name inp, rl_code = lb_code inp,
                        rl_created = now, rl_updated = now\<rparr>
               in if named_ok (lb_name inp) \<and> country_ok (lb_code inp)
                  then (Inr (l, parsed, invalid),
                        db\<lparr>wa_lists := wa_lists db @ [l],
                           wa_recipients := bulkCreateRecipients (rl_id l) parsed (wa_recipients db)\<rparr>)
                  else (Inl (Http 500 ''failed to create recipient list''), db))))"

definition updateList ::
  "wa_conf \<Rightarrow> request_ctx \<Rightarrow> nat \<Rightarrow> list_body \<Rightarrow> instant \<Rightarrow> wa_db \<Rightarrow> (http_error + list_answer) \<times> wa_db" where
  "updateList conf ctx i inp now db =
     (case requireFriend ctx of Inl err \<Rightarrow> (Inl err, db)
      | Inr u \<Rightarrow>
       (case ownedList db (u_id u) i of Inl err \<Rightarrow> (Inl err, db)
        | Inr l \<Rightarrow>
           (let (parsed, invalid) = ParseRecipients (lb_text inp) (effectiveCountryCode (lb_code inp) u);
                f = (\<lambda>l. l\<lparr>rl_name := lb_name inp, rl_code := lb_code inp, rl_updated := now\<rparr>)
            in if wc_max_recipients conf < int (length parsed) then (Inl (too_many conf parsed), db)
               else if named_ok (lb_name inp) \<and> country_ok (lb_code inp)
               then (Inr (f l, parsed, invalid),
                     db\<lparr>wa_lists := update_where (\<lambda>l. rl_id l = i) f (wa_lists db),
                        wa_recipients := bulkCreateRecipients i parsed (filter (\<lambda>r. rc_list r \<noteq> i) (wa_recipients db))\<rparr>)
               else (Inl (Http 500 ''failed to update recipient list''), db))))"

definition detach_list :: "nat \<Rightarrow> batch list \<Rightarrow> batch list" where
  "detach_list i = update_where (\<lambda>b. wb_list b = Some i) (\<lambda>b. b\<lparr>wb_list := None\<rparr>)"

definition deleteList :: "request_ctx \<Rightarrow> nat \<Rightarrow> wa_db \<Rightarrow> http_error option \<times> wa_db" where
  "deleteList ctx i db =
     (case requireFriend ctx of Inl err \<Rightarrow> (Some err, db)
      | Inr u \<Rightarrow>
       (case ownedList db (u_id u) i of Inl err \<Rightarrow> (Some err, db)
        | Inr _ \<Rightarrow>
           (None, db\<lparr>wa_batches := detach_list i (wa_batches db),
                     wa_recipients := filter (\<lambda>r. rc_list r \<noteq> i) (wa_recipients db),
                     wa_lists := filter (\<lambda>l. rl_id l \<noteq> i) (wa_lists db)\<rparr>)))"

section \<open>Batches\<close>

definition batchesUsedToday :: "wa_db \<Rightarrow> nat \<Rightarrow> instant \<Rightarrow> nat" where
  "batchesUsedToday db uid now =
     count_where (\<lambda>b. wb_owner b = uid \<and> now - day_ns < wb_created b \<and> (0 < wb_sent b \<or> 0 < wb_skipped b \<or> 0 < wb_failed b))
       (wa_batches db)"

definition listBatches :: "wa_conf \<Rightarrow> request_ctx \<Rightarrow> instant \<Rightarrow> wa_db \<Rightarrow> http_error + batch list \<times> int" where
  "listBatches conf ctx now db =
     (case requireFriend ctx of Inl err \<Rightarrow> Inl err
      | Inr u \<Rightarrow>
         Inr (take 20 (sort_key (\<lambda>b. - wb_created b) (filter (\<lambda>b. wb_owner b = u_id u) (wa_batches db))),
              max 0 (wc_max_per_day conf - int (batchesUsedToday db (u_id u) now))))"

record session_request =
  sq_batch :: nat
  sq_body :: string
  sq_recipients :: "(string \<times> string) list"

definition createBatchHandler ::
  "wa_conf \<Rightarrow> request_ctx \<Rightarrow> nat \<Rightarrow> nat \<Rightarrow> instant \<Rightarrow> wa_db \<Rightarrow> (http_error + session_request) \<times> wa_db" where
  "createBatchHandler conf ctx tid lid now db =
     (case requireFriend ctx of Inl err \<Rightarrow> (Inl err, db)
      | Inr u \<Rightarrow>
       if \<not> wc_configured conf then (Inl (Http 503 ''WhatsApp sending is not configured''), db)
       else
        (case ownedTemplate db (u_id u) tid of Inl err \<Rightarrow> (Inl err, db)
         | Inr tmpl \<Rightarrow>
          (case ownedList db (u_id u) lid of Inl err \<Rightarrow> (Inl err, db)
           | Inr l \<Rightarrow>
              (let recs = members db (rl_id l)
               in if recs = [] then (Inl (Http 422 ''the recipient list is empty''), db)
                  else if wc_max_recipients conf < int (length recs) then (Inl (too_many conf recs), db)
                  else if wc_max_per_day conf \<le> int (batchesUsedToday db (u_id u) now)
                  then (Inl (Http 429 (''daily limit reached: at most '' @ itoa (wc_max_per_day conf) @ '' batches per 24 hours'')), db)
                  else
                   (let b = \<lparr>wb_id = fresh_id (map wb_id (wa_batches db)), wb_owner = u_id u, wb_template = Some (tp_id tmpl),
                             wb_list = Some (rl_id l), wb_status = BatchPending, wb_total = int (length recs), wb_sent = 0,
                             wb_failed = 0, wb_skipped = 0, wb_error = '''', wb_created = now\<rparr>
                    in (Inr \<lparr>sq_batch = wb_id b, sq_body = tp_body tmpl, sq_recipients = map (\<lambda>r. (rc_phone r, rc_name r)) recs\<rparr>,
                        db\<lparr>wa_batches := wa_batches db @ [b]\<rparr>))))))"

section \<open>The relay of a batch\<close>

record event =
  ev_type :: string
  ev_status :: string
  ev_sent :: int
  ev_skipped :: int
  ev_failed :: int
  ev_message :: string
  ev_error :: string

definition EventQR :: string where "EventQR = ''qr''"
definition EventReady :: string where "EventReady = ''ready''"
definition EventProgress :: string where "EventProgress = ''progress''"
definition EventDone :: string where "EventDone = ''done''"
definition EventError :: string where "EventError = ''error''"
definition EventProvisioning :: string where "EventProvisioning = ''provisioning''"
definition StatusSent :: string where "StatusSent = ''sent''"
definition StatusSkipped :: string where "StatusSkipped = ''skipped''"
definition StatusFailed :: string where "StatusFailed = ''failed''"

text \<open>What the browser gets: a line of the sidecar as it came, or a type and message of the server's own.\<close>

datatype out_line = Relayed string | Told string string

record stream =
  st_batches :: "batch list"
  st_terminal :: bool
  st_qr :: bool
  st_out :: "out_line list"

definition write_line :: "bool \<Rightarrow> out_line \<Rightarrow> stream \<Rightarrow> stream" where
  "write_line ok l st = (if ok then st\<lparr>st_out := st_out st @ [l]\<rparr> else st)"

text \<open>A bookkeeping write; \<open>live\<close> is whether its context is not cancelled.\<close>

definition save_batch :: "bool \<Rightarrow> nat \<Rightarrow> (batch \<Rightarrow> batch) \<Rightarrow> stream \<Rightarrow> stream" where
  "save_batch live i f st =
     (if live then st\<lparr>st_batches := update_where (\<lambda>b. wb_id b = i) f (st_batches st)\<rparr> else st)"

definition setBatchStatus :: "bool \<Rightarrow> nat \<Rightarrow> wa_status \<Rightarrow> stream \<Rightarrow> stream" where
  "setBatchStatus live i s = save_batch live i (\<lambda>b. b\<lparr>wb_status := s\<rparr>)"

definition incrementBatch :: "bool \<Rightarrow> nat \<Rightarrow> string \<Rightarrow> stream \<Rightarrow> stream" where
  "incrementBatch live i s =
     (if s = StatusSent then save_batch live i (\<lambda>b. b\<lparr>wb_sent := wb_sent b + 1\<rparr>)
      else if s = StatusSkipped then save_batch live i (\<lambda>b. b\<lparr>wb_skipped := wb_skipped b + 1\<rparr>)
      else if s = StatusFailed then save_batch live i (\<lambda>b. b\<lparr>wb_failed := wb_failed b + 1\<rparr>)
      else (\<lambda>st. st))"

definition failBatch :: "bool \<Rightarrow> nat \<Rightarrow> string \<Rightarrow> stream \<Rightarrow> stream" where
  "failBatch live i msg = save_batch live i (\<lambda>b. b\<lparr>wb_status := BatchFailed, wb_error := msg\<rparr>)"

definition failBatchDetached :: "nat \<Rightarrow> string \<Rightarrow> stream \<Rightarrow> stream" where
  "failBatchDetached = failBatch True"

text \<open>The schema refuses negative counts.\<close>

definition completeBatch :: "bool \<Rightarrow> nat \<Rightarrow> int \<Rightarrow> int \<Rightarrow> int \<Rightarrow> stream \<Rightarrow> stream" where
  "completeBatch live i sent skipped failed =
     (if 0 \<le> sent \<and> 0 \<le> skipped \<and> 0 \<le> failed
      then save_batch live i (\<lambda>b. b\<lparr>wb_status := BatchCompleted, wb_sent := sent, wb_skipped := skipped, wb_failed := failed\<rparr>)
      else (\<lambda>st. st))"

definition completeBatchDetached :: "nat \<Rightarrow> int \<Rightarrow> int \<Rightarrow> int \<Rightarrow> stream \<Rightarrow> stream" where
  "completeBatchDetached = completeBatch True"

text \<open>A line of the stream, with what happens to the browser's connection at it.\<close>

record wire =
  wi_line :: string
  wi_relayed :: bool
  wi_live :: bool

definition onEvent :: "nat \<Rightarrow> wire \<Rightarrow> string \<Rightarrow> event \<Rightarrow> stream \<Rightarrow> stream" where
  "onEvent i w raw ev st0 =
     (let st = write_line (wi_relayed w) (Relayed raw) st0
      in if ev_type ev = EventQR then
           (if wi_relayed w \<and> \<not> st_qr st then setBatchStatus (wi_live w) i BatchLinking (st\<lparr>st_qr := True\<rparr>) else st)
         else if ev_type ev = EventReady then
           (if wi_relayed w then setBatchStatus (wi_live w) i BatchRunning st else st)
         else if ev_type ev = EventProgress then
           (if wi_relayed w then incrementBatch (wi_live w) i (ev_status ev) st else st)
         else if ev_type ev = EventDone then
           completeBatchDetached i (ev_sent ev) (ev_skipped ev) (ev_failed ev) (st\<lparr>st_terminal := True\<rparr>)
         else if ev_type ev = EventError then
           failBatchDetached i (if ev_message ev = '''' then ev_error ev else ev_message ev) (st\<lparr>st_terminal := True\<rparr>)
         else st)"

datatype session_end = SessionOk | ClientGone | SessionBusy | SessionFailed

text \<open>The loop over the lines of the stream; it stops when a line cannot be relayed.\<close>

fun read_stream :: "(string \<Rightarrow> event option) \<Rightarrow> nat \<Rightarrow> wire list \<Rightarrow> stream \<Rightarrow> bool \<times> stream" where
  "read_stream decode i [] st = (True, st)"
| "read_stream decode i (w # ws) st =
     (let line = trim_space (wi_line w)
      in if line = '''' then read_stream decode i ws st
         else
          (case decode line of
             None \<Rightarrow> read_stream decode i ws st
           | Some ev \<Rightarrow>
               (let st' = onEvent i w line ev st
                in if wi_relayed w then read_stream decode i ws st' else (False, st'))))"

text \<open>What the sidecar answers: nothing at all, or a status, the lines of its body, and whether reading
  them broke off.\<close>

datatype sidecar_answer = NoAnswer | Answer int "wire list" bool

definition StartSession ::
  "(string \<Rightarrow> event option) \<Rightarrow> nat \<Rightarrow> sidecar_answer \<Rightarrow> stream \<Rightarrow> session_end \<times> stream" where
  "StartSession decode i resp st =
     (case resp of
        NoAnswer \<Rightarrow> (SessionFailed, st)
      | Answer status lines broken \<Rightarrow>
          if status = 200
          then (let (through, st') = read_stream decode i lines st
                in (if \<not> through then ClientGone else if broken then SessionFailed else SessionOk, st'))
          else if status = 409 then (SessionBusy, st) else (SessionFailed, st))"

text \<open>Readying a sidecar: a client, or a failure and whether it was the browser that hung up.\<close>

datatype sidecar = Sidecar sidecar_answer | NoSidecar bool

record session_env =
  se_cold :: "(string \<times> bool) list"
  se_sidecar :: sidecar
  se_live :: bool
  se_told :: bool

definition streamBatch :: "(string \<Rightarrow> event option) \<Rightarrow> nat \<Rightarrow> session_env \<Rightarrow> stream \<Rightarrow> stream" where
  "streamBatch decode i env st0 =
     (let st1 = fold (\<lambda>m. write_line (snd m) (Told EventProvisioning (fst m))) (se_cold env) st0
      in case se_sidecar env of
           NoSidecar hungUp \<Rightarrow>
             if hungUp then failBatchDetached i ''the connection was closed'' st1
             else write_line (se_told env) (Told EventError ''the sender could not be started'')
                    (failBatch (se_live env) i ''the sender could not be started'' st1)
         | Sidecar resp \<Rightarrow>
            (let (ended, st) = StartSession decode i resp st1
             in if st_terminal st then st
                else if ended = SessionOk
                then write_line (se_told env) (Told EventError ''the send ended unexpectedly'')
                       (failBatch (se_live env) i ''the send ended unexpectedly'' st)
                else if ended = ClientGone then failBatchDetached i ''the connection was closed'' st
                else
                 (let msg = (if ended = SessionBusy then ''a send is already running; wait for it to finish'' else ''the send failed'')
                  in write_line (se_told env) (Told EventError msg) (failBatch (se_live env) i msg st))))"

text \<open>A stream begins with nothing told and nothing seen.\<close>

definition start_stream :: "wa_db \<Rightarrow> stream" where
  "start_stream db = \<lparr>st_batches = wa_batches db, st_terminal = False, st_qr = False, st_out = []\<rparr>"

section \<open>What a paste gives\<close>

definition line_phone :: "string \<Rightarrow> string \<Rightarrow> string option" where
  "line_phone code line =
     (if clean_line line = '''' then None else NormalizePhone (fst (splitPhoneName (clean_line line))) code)"

definition line_entry :: "string \<Rightarrow> string \<Rightarrow> parsed_recipient" where
  "line_entry code line =
     \<lparr>pr_phone = the (line_phone code line), pr_name = trim_space (snd (splitPhoneName (clean_line line)))\<rparr>"

definition line_refused :: "nat \<Rightarrow> string \<Rightarrow> line_error" where
  "line_refused n line = \<lparr>le_line = Suc n, le_raw = clean_line line, le_reason = ''not a valid phone number''\<rparr>"

text \<open>A line is the first to name its phone.\<close>

definition first_naming :: "string \<Rightarrow> string list \<Rightarrow> nat \<Rightarrow> bool" where
  "first_naming code lines n \<longleftrightarrow>
     line_phone code (lines ! n) \<noteq> None \<and> (\<forall>m < n. line_phone code (lines ! m) \<noteq> line_phone code (lines ! n))"

definition phone_ok :: "string \<Rightarrow> bool" where
  "phone_ok p \<longleftrightarrow> list_all is_digit p \<and> minPhoneDigits \<le> length p \<and> length p \<le> maxPhoneDigits"

lemma NormalizePhone_ok:
  assumes "NormalizePhone raw code = Some p" "list_all is_digit code"
  shows "phone_ok p"
proof -
  have "list_all is_digit DefaultCountryCode" by (simp add: DefaultCountryCode_def is_digit_def)
  moreover have "list_all is_digit (filter is_digit raw)" by (simp add: list_all_iff)
  moreover have "list_all is_digit (drop n xs)" if "list_all is_digit xs" for n xs
    using that by (auto simp: list_all_iff dest: in_set_dropD)
  ultimately show ?thesis
    using assms by (auto simp: NormalizePhone_def Let_def phone_ok_def split: if_splits)
qed

lemma upt_shift: "filter P [0..<Suc n] = (if P 0 then [0] else []) @ map Suc (filter (P \<circ> Suc) [0..<n])"
proof -
  have "[0..<Suc n] = 0 # map Suc [0..<n]" by (simp add: upt_conv_Cons map_Suc_upt del: upt_Suc)
  then show ?thesis by (simp add: filter_map del: upt_Suc)
qed

lemma parse_lines_eq:
  "parse_lines code i seen lines =
     (map (\<lambda>n. line_entry code (lines ! n))
        (filter (\<lambda>n. first_naming code lines n \<and> the (line_phone code (lines ! n)) \<notin> seen) [0..<length lines]),
      map (\<lambda>n. line_refused (i + n) (lines ! n))
        (filter (\<lambda>n. clean_line (lines ! n) \<noteq> '''' \<and> line_phone code (lines ! n) = None) [0..<length lines]))"
proof (induction lines arbitrary: i seen)
  case (Cons line lines)
  have all_Suc: "(\<forall>m < Suc n. P m) \<longleftrightarrow> P 0 \<and> (\<forall>m < n. P (Suc m))" for P n
    using less_Suc_eq_0_disj by auto
  have first: "first_naming code (line # lines) 0 \<longleftrightarrow> line_phone code line \<noteq> None"
    "first_naming code (line # lines) (Suc n) \<longleftrightarrow> first_naming code lines n \<and> line_phone code line \<noteq> line_phone code (lines ! n)" for n
    by (auto simp: first_naming_def all_Suc)
  show ?case
  proof (cases "line_phone code line")
    case None
    then have "first_naming code lines n \<and> line_phone code line \<noteq> line_phone code (lines ! n) \<longleftrightarrow> first_naming code lines n" for n
      by (auto simp: first_naming_def)
    with None Cons.IH show ?thesis
      by (simp add: upt_shift first comp_def line_phone_def [of code line] line_refused_def Let_def split: if_splits option.splits del: upt_Suc)
  next
    case (Some phone)
    then have p: "clean_line line \<noteq> ''''" "NormalizePhone (fst (splitPhoneName (clean_line line))) code = Some phone"
      by (auto simp: line_phone_def split: if_splits)
    have new: "first_naming code lines n \<and> Some phone \<noteq> line_phone code (lines ! n) \<and> the (line_phone code (lines ! n)) \<notin> seen \<longleftrightarrow>
        first_naming code lines n \<and> the (line_phone code (lines ! n)) \<notin> insert phone seen" for n
      by (auto simp: first_naming_def)
    have same: "first_naming code lines n \<and> the (line_phone code (lines ! n)) \<notin> insert phone seen \<longleftrightarrow>
        first_naming code lines n \<and> the (line_phone code (lines ! n)) \<notin> seen" if "phone \<in> seen" for n
      using that by (simp add: insert_absorb)
    show ?thesis
      using Some p Cons.IH
      by (cases "phone \<in> seen")
        (simp_all add: upt_shift first comp_def new same Let_def line_entry_def conj_assoc insert_absorb del: upt_Suc insert_iff)
  qed
qed simp



text \<open>A number written with three zeros keeps one in front.\<close>

lemma leading_zero_survives: "NormalizePhone ''00012345678'' ''61'' = Some ''012345678''"
  by code_simp


section \<open>What a stream leaves\<close>

text \<open>The lines the relay takes up: well formed ones, up to the first that cannot be relayed.\<close>

fun taken :: "(string \<Rightarrow> event option) \<Rightarrow> wire list \<Rightarrow> (wire \<times> event) list" where
  "taken decode [] = []"
| "taken decode (w # ws) =
     (if trim_space (wi_line w) = '''' then taken decode ws
      else (case decode (trim_space (wi_line w)) of
              None \<Rightarrow> taken decode ws
            | Some ev \<Rightarrow> (w, ev) # (if wi_relayed w then taken decode ws else [])))"

definition take_event :: "nat \<Rightarrow> wire \<times> event \<Rightarrow> stream \<Rightarrow> stream" where
  "take_event i x st = onEvent i (fst x) (trim_space (wi_line (fst x))) (snd x) st"

lemma read_stream_eq:
  "read_stream decode i ws st = (list_all (\<lambda>x. wi_relayed (fst x)) (taken decode ws), fold (take_event i) (taken decode ws) st)"
  by (induction decode i ws st rule: read_stream.induct) (auto simp: take_event_def Let_def split: option.split)

definition is_terminal :: "event \<Rightarrow> bool" where
  "is_terminal ev \<longleftrightarrow> ev_type ev = EventDone \<or> ev_type ev = EventError"

lemmas event_names = EventQR_def EventReady_def EventProgress_def EventDone_def EventError_def
lemmas batch_writes = setBatchStatus_def incrementBatch_def failBatch_def failBatchDetached_def completeBatch_def completeBatchDetached_def

lemma save_batch_other [simp]:
  "st_terminal (save_batch l i f st) = st_terminal st" "st_qr (save_batch l i f st) = st_qr st" "st_out (save_batch l i f st) = st_out st"
  "st_batches (write_line ok x st) = st_batches st" "st_terminal (write_line ok x st) = st_terminal st" "st_qr (write_line ok x st) = st_qr st"
  "st_out (write_line ok x st) = st_out st @ (if ok then [x] else [])"
  by (simp_all add: save_batch_def write_line_def)

text \<open>What an event does to a row.\<close>

definition bump :: "wire \<times> event \<Rightarrow> batch \<Rightarrow> batch" where
  "bump x b =
     (if ev_type (snd x) = EventProgress \<and> wi_relayed (fst x) \<and> wi_live (fst x)
      then (let s = ev_status (snd x)
            in if s = StatusSent then b\<lparr>wb_sent := wb_sent b + 1\<rparr>
               else if s = StatusSkipped then b\<lparr>wb_skipped := wb_skipped b + 1\<rparr>
               else if s = StatusFailed then b\<lparr>wb_failed := wb_failed b + 1\<rparr> else b)
      else b)"

definition counted :: "string \<Rightarrow> (wire \<times> event) list \<Rightarrow> int" where
  "counted s xs = int (count_where (\<lambda>x. ev_type (snd x) = EventProgress \<and> wi_relayed (fst x) \<and> wi_live (fst x) \<and> ev_status (snd x) = s) xs)"

text \<open>The row of a batch that is under way, after events none of which ends the stream.\<close>

definition under_way :: "(wire \<times> event) list \<Rightarrow> batch \<Rightarrow> batch \<Rightarrow> bool" where
  "under_way xs b0 b \<longleftrightarrow>
     (\<exists>s. b = b0\<lparr>wb_status := s, wb_sent := wb_sent b0 + counted StatusSent xs,
               wb_skipped := wb_skipped b0 + counted StatusSkipped xs, wb_failed := wb_failed b0 + counted StatusFailed xs\<rparr> \<and>
          s \<in> {wb_status b0, BatchLinking, BatchRunning})"

definition row_of :: "nat \<Rightarrow> stream \<Rightarrow> batch" where
  "row_of i st = the (find (\<lambda>b. wb_id b = i) (st_batches st))"

definition others :: "nat \<Rightarrow> batch list \<Rightarrow> batch list" where
  "others i bs = filter (\<lambda>b. wb_id b \<noteq> i) bs"

lemma others_update [simp]: "(\<And>b. wb_id (f b) = wb_id b) \<Longrightarrow> others i (update_where (\<lambda>b. wb_id b = i) f bs) = others i bs"
  by (induction bs) (auto simp: others_def update_where_def)

lemma row_save:
  assumes "\<exists>b \<in> set (st_batches st). wb_id b = i" "\<And>b. wb_id (f b) = wb_id b"
  shows "row_of i (save_batch l i f st) = (if l then f (row_of i st) else row_of i st)"
    "\<exists>b \<in> set (st_batches (save_batch l i f st)). wb_id b = i"
    "others i (st_batches (save_batch l i f st)) = others i (st_batches st)"
proof -
  have "find (\<lambda>b. wb_id b = i) (update_where (\<lambda>b. wb_id b = i) f bs) = map_option f (find (\<lambda>b. wb_id b = i) bs)" for bs
    using assms(2) by (induction bs) (auto simp: update_where_def)
  moreover have "find (\<lambda>b. wb_id b = i) (st_batches st) \<noteq> None" using assms(1) by (auto simp: find_None_iff)
  ultimately show "row_of i (save_batch l i f st) = (if l then f (row_of i st) else row_of i st)"
    by (auto simp: row_of_def save_batch_def)
  show "\<exists>b \<in> set (st_batches (save_batch l i f st)). wb_id b = i"
    using assms by (fastforce simp: save_batch_def in_update_where update_where_def)
  show "others i (st_batches (save_batch l i f st)) = others i (st_batches st)" using assms(2) by (simp add: save_batch_def)
qed

lemma counted_snoc:
  "counted s (xs @ [x]) = counted s xs +
     (if ev_type (snd x) = EventProgress \<and> wi_relayed (fst x) \<and> wi_live (fst x) \<and> ev_status (snd x) = s then 1 else 0)"
  by (simp add: counted_def count_where_def)

lemma handle_step:
  assumes "\<exists>b \<in> set (st_batches st). wb_id b = i" "\<not> is_terminal (snd x)"
  shows "\<exists>s. row_of i (take_event i x st) = (bump x (row_of i st))\<lparr>wb_status := s\<rparr> \<and> s \<in> {wb_status (row_of i st), BatchLinking, BatchRunning}"
    "others i (st_batches (take_event i x st)) = others i (st_batches st)" "\<exists>b \<in> set (st_batches (take_event i x st)). wb_id b = i"
    "st_terminal (take_event i x st) = st_terminal st"
proof -
  define st1 where "st1 = write_line (wi_relayed (fst x)) (Relayed (trim_space (wi_line (fst x)))) st"
  define st2 where "st2 = st1\<lparr>st_qr := True\<rparr>"
  have ex: "\<exists>b \<in> set (st_batches st1). wb_id b = i" "\<exists>b \<in> set (st_batches st2). wb_id b = i"
    and row: "row_of i st1 = row_of i st" "row_of i st2 = row_of i st" and bs: "st_batches st1 = st_batches st" "st_batches st2 = st_batches st"
    and tm: "st_terminal st1 = st_terminal st" "st_terminal st2 = st_terminal st"
    using assms(1) by (simp_all add: st1_def st2_def row_of_def)
  have same: "\<exists>s. b = b\<lparr>wb_status := s\<rparr> \<and> s \<in> {wb_status b, BatchLinking, BatchRunning}" for b
    by (rule exI [of _ "wb_status b"]) simp
  consider (qr) "ev_type (snd x) = EventQR" | (ready) "ev_type (snd x) = EventReady" | (progress) "ev_type (snd x) = EventProgress"
    | (other) "ev_type (snd x) \<notin> {EventQR, EventReady, EventProgress, EventDone, EventError}"
    using assms(2) by (auto simp: is_terminal_def)
  then have "(\<exists>s. row_of i (take_event i x st) = (bump x (row_of i st))\<lparr>wb_status := s\<rparr> \<and> s \<in> {wb_status (row_of i st), BatchLinking, BatchRunning}) \<and>
    others i (st_batches (take_event i x st)) = others i (st_batches st) \<and> (\<exists>b \<in> set (st_batches (take_event i x st)). wb_id b = i) \<and>
    st_terminal (take_event i x st) = st_terminal st"
  proof cases
    case qr
    then have "take_event i x st = (if wi_relayed (fst x) \<and> \<not> st_qr st1 then setBatchStatus (wi_live (fst x)) i BatchLinking st2 else st1)"
      by (simp add: take_event_def onEvent_def Let_def st1_def st2_def)
    moreover have "bump x b = b" for b using qr by (simp add: bump_def event_names)
    ultimately show ?thesis using ex row bs tm same [of "row_of i st"] by (auto simp: batch_writes row_save [OF ex(2)])
  next
    case ready
    then have "take_event i x st = (if wi_relayed (fst x) then setBatchStatus (wi_live (fst x)) i BatchRunning st1 else st1)"
      by (simp add: take_event_def onEvent_def Let_def st1_def event_names)
    moreover have "bump x b = b" for b using ready by (simp add: bump_def event_names)
    ultimately show ?thesis using ex row bs tm same [of "row_of i st"] by (auto simp: batch_writes row_save [OF ex(1)])
  next
    case progress
    then have h: "take_event i x st = (if wi_relayed (fst x) then incrementBatch (wi_live (fst x)) i (ev_status (snd x)) st1 else st1)"
      by (simp add: take_event_def onEvent_def Let_def st1_def event_names)
    have st: "wb_status (bump x b) = wb_status b" for b by (simp add: bump_def Let_def)
    have "row_of i (take_event i x st) = bump x (row_of i st)"
      unfolding h by (simp add: incrementBatch_def row_save [OF ex(1)] row bump_def progress Let_def)
    moreover have "others i (st_batches (take_event i x st)) = others i (st_batches st)" "\<exists>b \<in> set (st_batches (take_event i x st)). wb_id b = i"
        "st_terminal (take_event i x st) = st_terminal st"
      unfolding h using ex bs tm by (simp_all add: incrementBatch_def row_save [OF ex(1)])
    ultimately show ?thesis using same [of "bump x (row_of i st)"] st by simp
  next
    case other
    then have "take_event i x st = st1" by (simp add: take_event_def onEvent_def Let_def st1_def)
    moreover have "bump x b = b" for b using other by (simp add: bump_def)
    ultimately show ?thesis using ex row bs tm same [of "row_of i st"] by simp
  qed
  then show "\<exists>s. row_of i (take_event i x st) = (bump x (row_of i st))\<lparr>wb_status := s\<rparr> \<and> s \<in> {wb_status (row_of i st), BatchLinking, BatchRunning}"
    "others i (st_batches (take_event i x st)) = others i (st_batches st)" "\<exists>b \<in> set (st_batches (take_event i x st)). wb_id b = i"
    "st_terminal (take_event i x st) = st_terminal st" by blast+
qed

lemma under_way_bump:
  assumes "under_way xs b0 b" "s \<in> {wb_status b, BatchLinking, BatchRunning}"
  shows "under_way (xs @ [x]) b0 ((bump x b)\<lparr>wb_status := s\<rparr>)"
proof -
  obtain s0 where b: "b = b0\<lparr>wb_status := s0, wb_sent := wb_sent b0 + counted StatusSent xs,
      wb_skipped := wb_skipped b0 + counted StatusSkipped xs, wb_failed := wb_failed b0 + counted StatusFailed xs\<rparr>"
    "s0 \<in> {wb_status b0, BatchLinking, BatchRunning}" using assms(1) by (auto simp: under_way_def)
  have "(bump x b)\<lparr>wb_status := s\<rparr> = b0\<lparr>wb_status := s, wb_sent := wb_sent b0 + counted StatusSent (xs @ [x]),
      wb_skipped := wb_skipped b0 + counted StatusSkipped (xs @ [x]), wb_failed := wb_failed b0 + counted StatusFailed (xs @ [x])\<rparr>"
    unfolding b(1) counted_snoc bump_def
    by (cases "ev_type (snd x) = EventProgress \<and> wi_relayed (fst x) \<and> wi_live (fst x)")
      (auto simp: Let_def StatusSent_def StatusSkipped_def StatusFailed_def)
  moreover have "s \<in> {wb_status b0, BatchLinking, BatchRunning}" using assms(2) b by auto
  ultimately show ?thesis unfolding under_way_def by blast
qed

lemma under_way_fold:
  assumes "\<exists>b \<in> set (st_batches st). wb_id b = i" "list_all (\<lambda>x. \<not> is_terminal (snd x)) xs"
  shows "under_way xs (row_of i st) (row_of i (fold (take_event i) xs st)) \<and> others i (st_batches (fold (take_event i) xs st)) = others i (st_batches st) \<and>
    (\<exists>b \<in> set (st_batches (fold (take_event i) xs st)). wb_id b = i) \<and> st_terminal (fold (take_event i) xs st) = st_terminal st"
  using assms(2)
proof (induction xs rule: rev_induct)
  case Nil
  have "under_way [] (row_of i st) (row_of i st)"
    unfolding under_way_def by (rule exI [of _ "wb_status (row_of i st)"]) (simp add: counted_def count_where_def)
  then show ?case using assms(1) by simp
next
  case (snoc x xs)
  define st' where "st' = fold (take_event i) xs st"
  have IH: "under_way xs (row_of i st) (row_of i st')" "others i (st_batches st') = others i (st_batches st)"
    "\<exists>b \<in> set (st_batches st'). wb_id b = i" "st_terminal st' = st_terminal st" and nt: "\<not> is_terminal (snd x)"
    using snoc by (simp_all add: st'_def)
  note step = handle_step [OF IH(3) nt]
  obtain s where "row_of i (take_event i x st') = (bump x (row_of i st'))\<lparr>wb_status := s\<rparr>" "s \<in> {wb_status (row_of i st'), BatchLinking, BatchRunning}"
    using step(1) by blast
  then have "under_way (xs @ [x]) (row_of i st) (row_of i (take_event i x st'))" using under_way_bump [OF IH(1)] by simp
  with step(2-4) IH(2,4) show ?case by (simp add: st'_def)
qed

text \<open>What the contract asks of a sidecar: nothing follows the line that ends the stream, and no count is
  negative.\<close>

definition well_behaved :: "(wire \<times> event) list \<Rightarrow> bool" where
  "well_behaved xs \<longleftrightarrow>
     list_all (\<lambda>x. \<not> is_terminal (snd x)) (butlast xs) \<and>
     list_all (\<lambda>x. 0 \<le> ev_sent (snd x) \<and> 0 \<le> ev_skipped (snd x) \<and> 0 \<le> ev_failed (snd x)) xs"

definition stream_lines :: "session_env \<Rightarrow> wire list" where
  "stream_lines env = (case se_sidecar env of Sidecar (Answer status ws broken) \<Rightarrow> if status = 200 then ws else [] | _ \<Rightarrow> [])"

definition ending :: "(wire \<times> event) list \<Rightarrow> event option" where
  "ending xs = (if xs \<noteq> [] \<and> is_terminal (snd (last xs)) then Some (snd (last xs)) else None)"

text \<open>The request is dead when the stream ends by itself, with no event that ends the batch.\<close>

definition left_behind :: "(string \<Rightarrow> event option) \<Rightarrow> session_env \<Rightarrow> bool" where
  "left_behind decode env \<longleftrightarrow>
     \<not> se_live env \<and> ending (taken decode (stream_lines env)) = None \<and>
     list_all (\<lambda>x. wi_relayed (fst x)) (taken decode (stream_lines env)) \<and> se_sidecar env \<noteq> NoSidecar True"

lemma handle_end:
  assumes "\<exists>b \<in> set (st_batches st). wb_id b = i" "is_terminal (snd x)"
    and "0 \<le> ev_sent (snd x)" "0 \<le> ev_skipped (snd x)" "0 \<le> ev_failed (snd x)"
  shows "row_of i (take_event i x st) =
      (if ev_type (snd x) = EventDone
       then (row_of i st)\<lparr>wb_status := BatchCompleted, wb_sent := ev_sent (snd x), wb_skipped := ev_skipped (snd x), wb_failed := ev_failed (snd x)\<rparr>
       else (row_of i st)\<lparr>wb_status := BatchFailed, wb_error := (if ev_message (snd x) = '''' then ev_error (snd x) else ev_message (snd x))\<rparr>)"
    "others i (st_batches (take_event i x st)) = others i (st_batches st)" "st_terminal (take_event i x st)"
    "\<exists>b \<in> set (st_batches (take_event i x st)). wb_id b = i"
proof -
  define st1 where "st1 = (write_line (wi_relayed (fst x)) (Relayed (trim_space (wi_line (fst x)))) st)\<lparr>st_terminal := True\<rparr>"
  have ex: "\<exists>b \<in> set (st_batches st1). wb_id b = i" and row: "row_of i st1 = row_of i st" and st1: "st_terminal st1" "st_batches st1 = st_batches st"
    using assms(1) by (simp_all add: st1_def row_of_def)
  have h: "take_event i x st =
      (if ev_type (snd x) = EventDone then completeBatchDetached i (ev_sent (snd x)) (ev_skipped (snd x)) (ev_failed (snd x)) st1
       else failBatchDetached i (if ev_message (snd x) = '''' then ev_error (snd x) else ev_message (snd x)) st1)"
    using assms(2) by (auto simp: take_event_def onEvent_def Let_def is_terminal_def event_names st1_def)
  show "row_of i (take_event i x st) =
      (if ev_type (snd x) = EventDone
       then (row_of i st)\<lparr>wb_status := BatchCompleted, wb_sent := ev_sent (snd x), wb_skipped := ev_skipped (snd x), wb_failed := ev_failed (snd x)\<rparr>
       else (row_of i st)\<lparr>wb_status := BatchFailed, wb_error := (if ev_message (snd x) = '''' then ev_error (snd x) else ev_message (snd x))\<rparr>)"
    "others i (st_batches (take_event i x st)) = others i (st_batches st)" "st_terminal (take_event i x st)"
    "\<exists>b \<in> set (st_batches (take_event i x st)). wb_id b = i"
    unfolding h using assms(3-5) by (simp_all add: batch_writes row_save [OF ex] row st1)
qed

lemma terminal_fold:
  assumes "\<exists>b \<in> set (st_batches st). wb_id b = i" "well_behaved xs" "\<not> st_terminal st"
  defines "st' \<equiv> fold (take_event i) xs st"
  shows "others i (st_batches st') = others i (st_batches st)" "\<exists>b \<in> set (st_batches st'). wb_id b = i"
    "st_terminal st' \<longleftrightarrow> ending xs \<noteq> None"
    "\<exists>b. under_way xs (row_of i st) b \<and> row_of i st' =
       (case ending xs of None \<Rightarrow> b
        | Some ev \<Rightarrow> if ev_type ev = EventDone
            then b\<lparr>wb_status := BatchCompleted, wb_sent := ev_sent ev, wb_skipped := ev_skipped ev, wb_failed := ev_failed ev\<rparr>
            else b\<lparr>wb_status := BatchFailed, wb_error := (if ev_message ev = '''' then ev_error ev else ev_message ev)\<rparr>)"
proof -
  let ?g = "\<lambda>b. case ending xs of None \<Rightarrow> b
        | Some ev \<Rightarrow> if ev_type ev = EventDone
            then b\<lparr>wb_status := BatchCompleted, wb_sent := ev_sent ev, wb_skipped := ev_skipped ev, wb_failed := ev_failed ev\<rparr>
            else b\<lparr>wb_status := BatchFailed, wb_error := (if ev_message ev = '''' then ev_error ev else ev_message ev)\<rparr>"
  have "others i (st_batches st') = others i (st_batches st) \<and> (\<exists>b \<in> set (st_batches st'). wb_id b = i) \<and> (st_terminal st' \<longleftrightarrow> ending xs \<noteq> None) \<and>
      (\<exists>b. under_way xs (row_of i st) b \<and> row_of i st' = ?g b)"
  proof (cases "ending xs")
    case None
    have "list_all (\<lambda>x. \<not> is_terminal (snd x)) xs"
      using assms(2) None by (cases xs rule: rev_cases) (auto simp: well_behaved_def ending_def split: if_splits)
    from under_way_fold [OF assms(1) this] None assms(3) show ?thesis unfolding st'_def by auto
  next
    case (Some ev)
    then obtain ys x where xs: "xs = ys @ [x]" "snd x = ev" "is_terminal ev"
      by (cases xs rule: rev_cases) (auto simp: ending_def split: if_splits)
    have ys: "list_all (\<lambda>x. \<not> is_terminal (snd x)) ys" and nn: "0 \<le> ev_sent (snd x)" "0 \<le> ev_skipped (snd x)" "0 \<le> ev_failed (snd x)"
      using assms(2) xs by (simp_all add: well_behaved_def)
    note u = under_way_fold [OF assms(1) ys]
    have c: "counted s xs = counted s ys" for s
      using xs by (auto simp: counted_snoc is_terminal_def event_names)
    have "under_way xs (row_of i st) (row_of i (fold (take_event i) ys st))" using u by (simp add: under_way_def c)
    moreover note handle_end [OF conjunct1 [OF conjunct2 [OF conjunct2 [OF u]]] _ nn] xs
    ultimately show ?thesis using u Some by (auto simp: st'_def)
  qed
  then show "others i (st_batches st') = others i (st_batches st)" "\<exists>b \<in> set (st_batches st'). wb_id b = i" "st_terminal st' \<longleftrightarrow> ending xs \<noteq> None"
    "\<exists>b. under_way xs (row_of i st) b \<and> row_of i st' = ?g b" by blast+
qed


lemma cold_start:
  defines "cold env st \<equiv> fold (\<lambda>m. write_line (snd m) (Told EventProvisioning (fst m))) (se_cold env) st"
  shows "st_batches (cold env st) = st_batches st" "st_terminal (cold env st) = st_terminal st" "row_of i (cold env st) = row_of i st"
proof -
  have "st_batches (fold (\<lambda>m. write_line (snd m) (Told EventProvisioning (fst m))) ms st) = st_batches st \<and>
      st_terminal (fold (\<lambda>m. write_line (snd m) (Told EventProvisioning (fst m))) ms st) = st_terminal st" for ms
    by (induction ms arbitrary: st) simp_all
  then show "st_batches (cold env st) = st_batches st" "st_terminal (cold env st) = st_terminal st" "row_of i (cold env st) = row_of i st"
    by (simp_all add: cold_def row_of_def)
qed

text \<open>The end of a request, after the lines: either the stream had its ending, or the batch is failed by a
  write that lands unless the request is dead and the browser was not seen to leave.\<close>

definition finished :: "(string \<Rightarrow> event option) \<Rightarrow> nat \<Rightarrow> session_env \<Rightarrow> stream \<Rightarrow> stream \<Rightarrow> bool" where
  "finished decode i env st st' \<longleftrightarrow>
     (if st_terminal st then st' = st
      else \<exists>msg l. msg \<noteq> '''' \<and> row_of i st' = row_of i (failBatch l i msg st) \<and> others i (st_batches st') = others i (st_batches (failBatch l i msg st)) \<and>
        (l \<longleftrightarrow> se_live env \<or> \<not> list_all (\<lambda>x. wi_relayed (fst x)) (taken decode (stream_lines env)) \<or> se_sidecar env = NoSidecar True))"

lemma finishedI:
  assumes "\<not> st_terminal st" "st' = write_line ok x (failBatch l i msg st)" "msg \<noteq> ''''"
    and "l \<longleftrightarrow> se_live env \<or> \<not> list_all (\<lambda>x. wi_relayed (fst x)) (taken decode (stream_lines env)) \<or> se_sidecar env = NoSidecar True"
  shows "finished decode i env st st'"
proof -
  have "row_of i st' = row_of i (failBatch l i msg st)" "others i (st_batches st') = others i (st_batches (failBatch l i msg st))"
    by (simp_all add: assms(2) row_of_def)
  with assms show ?thesis unfolding finished_def by auto
qed

lemma streamBatch_end:
  assumes "\<not> st_terminal st0"
  shows "\<exists>st1. st_batches st1 = st_batches st0 \<and> \<not> st_terminal st1 \<and> row_of i st1 = row_of i st0 \<and>
    finished decode i env (fold (take_event i) (taken decode (stream_lines env)) st1) (streamBatch decode i env st0)"
proof -
  define st1 where "st1 = fold (\<lambda>m. write_line (snd m) (Told EventProvisioning (fst m))) (se_cold env) st0"
  have st1: "st_batches st1 = st_batches st0" "\<not> st_terminal st1" "row_of i st1 = row_of i st0"
    using assms by (simp_all add: st1_def cold_start)
  have told: "row_of i (write_line ok l st) = row_of i st" for ok l st by (simp add: row_of_def)
  have nt: "\<not> st_terminal st1" by (rule st1(2))
  let ?st = "fold (take_event i) (taken decode (stream_lines env)) st1" and ?all = "list_all (\<lambda>x. wi_relayed (fst x)) (taken decode (stream_lines env))"
  have "finished decode i env ?st (streamBatch decode i env st0)"
  proof (cases "se_sidecar env")
    case (NoSidecar hungUp)
    then have l: "stream_lines env = []" by (simp add: stream_lines_def)
    show ?thesis
    proof (cases hungUp)
      case True
      have "streamBatch decode i env st0 = failBatch True i ''the connection was closed'' st1"
        using NoSidecar True by (simp add: streamBatch_def st1_def failBatchDetached_def)
      then show ?thesis using nt l NoSidecar True
        by (intro finishedI [where ok = False and l = True and msg = "''the connection was closed''"]) (auto simp: write_line_def)
    next
      case False
      have "streamBatch decode i env st0 = write_line (se_told env) (Told EventError ''the sender could not be started'')
          (failBatch (se_live env) i ''the sender could not be started'' st1)"
        using NoSidecar False by (simp add: streamBatch_def st1_def)
      then show ?thesis using nt l NoSidecar False by (intro finishedI) auto
    qed
  next
    case (Sidecar resp)
    define e where "e = fst (StartSession decode i resp st1)"
    have s: "snd (StartSession decode i resp st1) = ?st" "e = ClientGone \<longleftrightarrow> \<not> ?all"
      using Sidecar by (auto simp: e_def StartSession_def stream_lines_def read_stream_eq split: sidecar_answer.split)
    have run: "streamBatch decode i env st0 =
        (if st_terminal ?st then ?st
         else if e = SessionOk then write_line (se_told env) (Told EventError ''the send ended unexpectedly'') (failBatch (se_live env) i ''the send ended unexpectedly'' ?st)
         else if e = ClientGone then failBatch True i ''the connection was closed'' ?st
         else (let msg = (if e = SessionBusy then ''a send is already running; wait for it to finish'' else ''the send failed'')
           in write_line (se_told env) (Told EventError msg) (failBatch (se_live env) i msg ?st)))"
      using Sidecar s(1) by (simp add: streamBatch_def st1_def [symmetric] e_def case_prod_beta failBatchDetached_def)
    show ?thesis
    proof (cases "st_terminal ?st")
      case True
      then show ?thesis by (simp add: run finished_def)
    next
      case False
      consider "e = SessionOk" | "e = ClientGone" | "e \<noteq> SessionOk" "e \<noteq> ClientGone" by blast
      then show ?thesis
      proof cases
        case 1
        then show ?thesis using False s(2) Sidecar by (intro finishedI [OF False, where l = "se_live env"]) (auto simp: run)
      next
        case 2
        then show ?thesis using False s(2) Sidecar
          by (intro finishedI [OF False, where ok = False and l = True and msg = "''the connection was closed''"]) (auto simp: run write_line_def)
      next
        case 3
        then show ?thesis using False s(2) Sidecar by (intro finishedI [OF False, where l = "se_live env"]) (auto simp: run Let_def split: if_splits)
      qed
    qed
  qed
  with st1 show ?thesis by blast
qed

text \<open>C29: What is left of a batch when its stream is over.  If the sidecar keeps its contract, the batch is
  completed exactly when the sidecar said so, with the sidecar's counts; otherwise the counts are
  those of the progress lines that reached the browser, and the batch is failed with a reason, with
  one exception: when the request was cancelled while no line was being relayed and the stream then broke
  off, the failing write is lost with the request and the batch stays linking, running or pending for
  good.  No other batch changes.\<close>

theorem batch_settles:
  fixes decode i env st
  defines "evs \<equiv> taken decode (stream_lines env)" and "st' \<equiv> streamBatch decode i env st"
  assumes "\<exists>b \<in> set (st_batches st). wb_id b = i" "row_of i st = b" "wb_status b = BatchPending" "\<not> st_terminal st"
    and "well_behaved evs"
  shows "let r = row_of i st'
    in others i (st_batches st') = others i (st_batches st) \<and>
       (wb_status r = BatchCompleted \<longleftrightarrow> (\<exists>ev. ending evs = Some ev \<and> ev_type ev = EventDone)) \<and>
       (\<forall>ev. ending evs = Some ev \<and> ev_type ev = EventDone \<longrightarrow>
          wb_sent r = ev_sent ev \<and> wb_skipped r = ev_skipped ev \<and> wb_failed r = ev_failed ev) \<and>
       (wb_status r \<noteq> BatchCompleted \<longrightarrow> wb_sent r = wb_sent b + counted StatusSent evs \<and>
          wb_skipped r = wb_skipped b + counted StatusSkipped evs \<and> wb_failed r = wb_failed b + counted StatusFailed evs) \<and>
       (wb_status r \<notin> {BatchCompleted, BatchFailed} \<longleftrightarrow> left_behind decode env) \<and>
       (wb_status r = BatchFailed \<longrightarrow> wb_error r = (case ending evs of Some ev \<Rightarrow> if ev_message ev = '''' then ev_error ev else ev_message ev | None \<Rightarrow> wb_error r) \<and>
          (ending evs = None \<longrightarrow> wb_error r \<noteq> '''')) \<and>
       wb_owner r = wb_owner b \<and> wb_total r = wb_total b \<and> wb_created r = wb_created b"
proof -
  obtain st1 where st1: "st_batches st1 = st_batches st" "\<not> st_terminal st1" "row_of i st1 = row_of i st"
    "finished decode i env (fold (take_event i) evs st1) st'"
    using streamBatch_end [OF assms(6), where decode = decode and i = i and env = env] unfolding evs_def st'_def by blast
  have ex: "\<exists>b \<in> set (st_batches st1). wb_id b = i" using assms(3) st1(1) by simp
  define st2 where "st2 = fold (take_event i) evs st1"
  note t = terminal_fold [OF ex assms(7) st1(2), folded st2_def]
  obtain b2 where b2: "under_way evs b b2" and r2: "row_of i st2 = (case ending evs of None \<Rightarrow> b2
        | Some ev \<Rightarrow> if ev_type ev = EventDone
            then b2\<lparr>wb_status := BatchCompleted, wb_sent := ev_sent ev, wb_skipped := ev_skipped ev, wb_failed := ev_failed ev\<rparr>
            else b2\<lparr>wb_status := BatchFailed, wb_error := (if ev_message ev = '''' then ev_error ev else ev_message ev)\<rparr>)"
    using t(4) st1(3) assms(4) by auto
  have u: "wb_status b2 \<in> {BatchPending, BatchLinking, BatchRunning}" "wb_sent b2 = wb_sent b + counted StatusSent evs"
    "wb_skipped b2 = wb_skipped b + counted StatusSkipped evs" "wb_failed b2 = wb_failed b + counted StatusFailed evs"
    "wb_owner b2 = wb_owner b" "wb_total b2 = wb_total b" "wb_created b2 = wb_created b"
    using b2 assms(5) by (auto simp: under_way_def)
  show ?thesis
  proof (cases "ending evs")
    case (Some ev)
    then have "st' = st2" using st1(4) t(3) by (simp add: finished_def st2_def)
    then show ?thesis
      using Some r2 u t(1) st1(1) by (auto simp: Let_def left_behind_def evs_def [symmetric])
  next
    case None
    obtain msg l where e: "msg \<noteq> ''''" "row_of i st' = row_of i (failBatch l i msg st2)" "others i (st_batches st') = others i (st_batches (failBatch l i msg st2))"
      "l \<longleftrightarrow> se_live env \<or> \<not> list_all (\<lambda>x. wi_relayed (fst x)) evs \<or> se_sidecar env = NoSidecar True"
      using st1(4) t(3) None by (auto simp: finished_def st2_def evs_def)
    have f: "row_of i st' = (if l then b2\<lparr>wb_status := BatchFailed, wb_error := msg\<rparr> else b2)" "others i (st_batches st') = others i (st_batches st)"
      using e(2,3) None r2 t(1) st1(1) by (simp_all add: failBatch_def row_save [OF t(2)])
    have lb: "left_behind decode env \<longleftrightarrow> \<not> l" using None e(4) by (auto simp: left_behind_def evs_def)
    show ?thesis using f u e(1) None lb by (cases l) (auto simp: Let_def)
  qed
qed

text \<open>A sidecar that links, sends to one recipient and then is waiting when the browser hangs up: the read of
  the stream breaks off, and so does the write that would have failed the batch.\<close>

definition ex_decode :: "string \<Rightarrow> event option" where
  "ex_decode s = Some \<lparr>ev_type = s, ev_status = StatusSent, ev_sent = 1, ev_skipped = 0, ev_failed = 0, ev_message = '''', ev_error = ''''\<rparr>"

definition ex_line :: "string \<Rightarrow> wire" where
  "ex_line s = \<lparr>wi_line = s, wi_relayed = True, wi_live = True\<rparr>"

definition ex_hung_up :: session_env where
  "ex_hung_up = \<lparr>se_cold = [], se_sidecar = Sidecar (Answer 200 [ex_line EventQR, ex_line EventReady, ex_line EventProgress] True),
     se_live = False, se_told = False\<rparr>"

definition ex_batch :: batch where
  "ex_batch = \<lparr>wb_id = 1, wb_owner = 7, wb_template = None, wb_list = None, wb_status = BatchPending, wb_total = 2, wb_sent = 0,
     wb_failed = 0, wb_skipped = 0, wb_error = '''', wb_created = 0\<rparr>"

definition ex_stream :: stream where
  "ex_stream = start_stream \<lparr>wa_templates = [], wa_lists = [], wa_recipients = [], wa_batches = [ex_batch]\<rparr>"

lemma ex_taken: "taken ex_decode (stream_lines ex_hung_up) =
    [(ex_line EventQR, the (ex_decode EventQR)), (ex_line EventReady, the (ex_decode EventReady)), (ex_line EventProgress, the (ex_decode EventProgress))]"
  by code_simp

lemma batch_settles_witness:
  "left_behind ex_decode ex_hung_up \<and> wb_status (row_of 1 (streamBatch ex_decode 1 ex_hung_up ex_stream)) \<notin> {BatchCompleted, BatchFailed} \<and>
   wb_sent (row_of 1 (streamBatch ex_decode 1 ex_hung_up ex_stream)) = 1"
proof -
  have wb: "well_behaved (taken ex_decode (stream_lines ex_hung_up))"
    unfolding ex_taken by (simp add: well_behaved_def is_terminal_def ex_decode_def event_names)
  have st: "st_batches ex_stream = [ex_batch]" "\<not> st_terminal ex_stream" by (simp_all add: ex_stream_def start_stream_def)
  have row: "\<exists>b \<in> set (st_batches ex_stream). wb_id b = 1" "row_of 1 ex_stream = ex_batch" "wb_status ex_batch = BatchPending"
    by (simp_all add: row_of_def st ex_batch_def)
  have lb: "left_behind ex_decode ex_hung_up"
    unfolding left_behind_def ex_taken
    by (simp add: ending_def is_terminal_def ex_decode_def event_names ex_line_def) (simp add: ex_hung_up_def)
  have one: "counted StatusSent (taken ex_decode (stream_lines ex_hung_up)) = 1"
    unfolding ex_taken counted_def count_where_def by (simp add: ex_decode_def ex_line_def event_names)
  show ?thesis
    using batch_settles [OF row st(2) wb, unfolded Let_def] lb one by (auto simp: ex_batch_def)
qed

section \<open>The tables\<close>

definition batch_ok :: "template list \<Rightarrow> recipient_list list \<Rightarrow> batch \<Rightarrow> bool" where
  "batch_ok ts ls b \<longleftrightarrow>
     (\<forall>i. wb_template b = Some i \<longrightarrow> (\<exists>t \<in> set ts. tp_id t = i \<and> tp_owner t = wb_owner b)) \<and>
     (\<forall>i. wb_list b = Some i \<longrightarrow> (\<exists>l \<in> set ls. rl_id l = i \<and> rl_owner l = wb_owner b)) \<and>
     1 \<le> wb_total b \<and> 0 \<le> wb_sent b \<and> 0 \<le> wb_skipped b \<and> 0 \<le> wb_failed b"

definition wa_ok :: "wa_db \<Rightarrow> bool" where
  "wa_ok db \<longleftrightarrow>
     distinct (map tp_id (wa_templates db)) \<and> distinct (map rl_id (wa_lists db)) \<and>
     distinct (map rc_id (wa_recipients db)) \<and> distinct (map wb_id (wa_batches db)) \<and>
     (\<forall>t \<in> set (wa_templates db). named_ok (tp_name t) \<and> tp_body t \<noteq> '''') \<and>
     (\<forall>l \<in> set (wa_lists db). named_ok (rl_name l) \<and> country_ok (rl_code l)) \<and>
     (\<forall>r \<in> set (wa_recipients db). rc_list r \<in> rl_id ` set (wa_lists db) \<and> phone_ok (rc_phone r)) \<and>
     distinct (map (\<lambda>r. (rc_list r, rc_phone r)) (wa_recipients db)) \<and>
     (\<forall>b \<in> set (wa_batches db). batch_ok (wa_templates db) (wa_lists db) b)"

text \<open>What one user has: templates, lists, their members and batches.\<close>

definition view_of :: "nat \<Rightarrow> wa_db \<Rightarrow> template list \<times> recipient_list list \<times> recipient list \<times> batch list" where
  "view_of v db =
     (filter (\<lambda>t. tp_owner t = v) (wa_templates db), filter (\<lambda>l. rl_owner l = v) (wa_lists db),
      filter (\<lambda>r. \<exists>l \<in> set (wa_lists db). rl_id l = rc_list r \<and> rl_owner l = v) (wa_recipients db),
      filter (\<lambda>b. wb_owner b = v) (wa_batches db))"

text \<open>The operations, each by an authenticated user, and the bookkeeping writes of that user's own streams.\<close>

inductive wa_step :: "wa_conf \<Rightarrow> nat \<Rightarrow> wa_db \<Rightarrow> wa_db \<Rightarrow> bool" for conf where
  template_created: "requireFriend ctx = Inr u \<Longrightarrow> wa_step conf (u_id u) db (snd (createTemplate ctx name body now db))"
| template_updated: "requireFriend ctx = Inr u \<Longrightarrow> wa_step conf (u_id u) db (snd (updateTemplate ctx i name body now db))"
| template_deleted: "requireFriend ctx = Inr u \<Longrightarrow> wa_step conf (u_id u) db (snd (deleteTemplate ctx i db))"
| list_created: "requireFriend ctx = Inr u \<Longrightarrow> list_all is_digit (u_country u) \<Longrightarrow>
    wa_step conf (u_id u) db (snd (createList conf ctx inp now db))"
| list_updated: "requireFriend ctx = Inr u \<Longrightarrow> list_all is_digit (u_country u) \<Longrightarrow>
    wa_step conf (u_id u) db (snd (updateList conf ctx i inp now db))"
| list_deleted: "requireFriend ctx = Inr u \<Longrightarrow> wa_step conf (u_id u) db (snd (deleteList ctx i db))"
| batch_created: "requireFriend ctx = Inr u \<Longrightarrow> wa_step conf (u_id u) db (snd (createBatchHandler conf ctx tid lid now db))"
| batch_written: "\<exists>b \<in> set (wa_batches db). wb_id b = i \<and> wb_owner b = v \<Longrightarrow> st_batches st = wa_batches db \<Longrightarrow>
    st' \<in> {setBatchStatus live i s st, incrementBatch live i what st, failBatch live i msg st, completeBatch live i x y n st} \<Longrightarrow>
    wa_step conf v db (db\<lparr>wa_batches := st_batches st'\<rparr>)"

text \<open>Who did what, from empty tables.\<close>

inductive wa_reachable :: "wa_conf \<Rightarrow> wa_db \<Rightarrow> bool" for conf where
  empty: "wa_reachable conf \<lparr>wa_templates = [], wa_lists = [], wa_recipients = [], wa_batches = []\<rparr>"
| step: "wa_reachable conf db \<Longrightarrow> wa_step conf v db db' \<Longrightarrow> wa_reachable conf db'"

lemma fresh_id_above: "i \<in> set ids \<Longrightarrow> i < fresh_id ids"
  using foldr_max_ge [of i ids] by (simp add: fresh_id_def)

lemma bulk_rows:
  "\<exists>new. bulkCreateRecipients l ps rs = rs @ new \<and> map rc_phone new = map pr_phone ps \<and> map rc_name new = map pr_name ps \<and>
     (\<forall>r \<in> set new. rc_list r = l) \<and> sorted_wrt (<) (map rc_id new) \<and> (\<forall>r \<in> set new. \<forall>q \<in> set rs. rc_id q < rc_id r)"
proof (induction ps arbitrary: rs)
  case (Cons p ps)
  define r where "r = \<lparr>rc_id = fresh_id (map rc_id rs), rc_list = l, rc_phone = pr_phone p, rc_name = pr_name p\<rparr>"
  have above: "rc_id q < rc_id r" if "q \<in> set rs" for q using that by (simp add: r_def fresh_id_above)
  obtain new where "bulkCreateRecipients l ps (rs @ [r]) = (rs @ [r]) @ new" "map rc_phone new = map pr_phone ps" "map rc_name new = map pr_name ps"
    "\<forall>r \<in> set new. rc_list r = l" "sorted_wrt (<) (map rc_id new)" "\<forall>x \<in> set new. \<forall>q \<in> set (rs @ [r]). rc_id q < rc_id x"
    using Cons.IH [of "rs @ [r]"] by blast
  with above show ?case
    by (intro exI [of _ "r # new"]) (auto simp: r_def [symmetric] simp del: map_eq_conv, auto simp: r_def)
qed simp

lemma ownedTemplate_Inr: "ownedTemplate db v i = Inr t \<Longrightarrow> t \<in> set (wa_templates db) \<and> tp_id t = i \<and> tp_owner t = v"
  by (auto simp: ownedTemplate_def split: option.splits dest: find_SomeD)

lemma ownedList_Inr: "ownedList db v i = Inr l \<Longrightarrow> l \<in> set (wa_lists db) \<and> rl_id l = i \<and> rl_owner l = v"
  by (auto simp: ownedList_def split: option.splits dest: find_SomeD)

definition wa_kept :: "nat \<Rightarrow> wa_db \<Rightarrow> wa_db \<Rightarrow> bool" where
  "wa_kept v db db' \<longleftrightarrow> wa_ok db' \<and> (\<forall>w. w \<noteq> v \<longrightarrow> view_of w db' = view_of w db)"

lemma wa_kept_refl: "wa_ok db \<Longrightarrow> wa_kept v db db" by (simp add: wa_kept_def)

lemma filter_update_other:
  "(\<And>x. x \<in> set xs \<Longrightarrow> p x \<Longrightarrow> \<not> Q x \<and> \<not> Q (f x)) \<Longrightarrow> filter Q (update_where p f xs) = filter Q xs"
  by (induction xs) (auto simp: update_where_def)

lemma batch_ok_more: "batch_ok ts ls b \<Longrightarrow> batch_ok (ts @ ts') (ls @ ls') b"
  unfolding batch_ok_def by auto

lemma same_row: "distinct (map k xs) \<Longrightarrow> x \<in> set xs \<Longrightarrow> y \<in> set xs \<Longrightarrow> k x = k y \<Longrightarrow> x = y"
  by (auto simp: distinct_map inj_on_def)

lemma ex_key:
  assumes "map k xs = map k ys"
  shows "(\<exists>x \<in> set xs. Q (k x)) \<longleftrightarrow> (\<exists>x \<in> set ys. Q (k x))"
proof -
  have "(\<exists>x \<in> set zs. Q (k x)) \<longleftrightarrow> (\<exists>y \<in> set (map k zs). Q y)" for zs by simp
  then show ?thesis by (simp only: assms)
qed

lemma wa_okD:
  assumes "wa_ok db"
  shows "distinct (map tp_id (wa_templates db))" "distinct (map rl_id (wa_lists db))"
    "distinct (map rc_id (wa_recipients db))" "distinct (map wb_id (wa_batches db))"
    "t \<in> set (wa_templates db) \<Longrightarrow> named_ok (tp_name t) \<and> tp_body t \<noteq> ''''"
    "l \<in> set (wa_lists db) \<Longrightarrow> named_ok (rl_name l) \<and> country_ok (rl_code l)"
    "r \<in> set (wa_recipients db) \<Longrightarrow> rc_list r \<in> rl_id ` set (wa_lists db) \<and> phone_ok (rc_phone r)"
    "distinct (map (\<lambda>r. (rc_list r, rc_phone r)) (wa_recipients db))"
    "b \<in> set (wa_batches db) \<Longrightarrow> batch_ok (wa_templates db) (wa_lists db) b"
  using assms unfolding wa_ok_def by blast+

lemma fresh_key [simp]: "fresh_id (map k xs) \<notin> k ` set xs"
  using fresh_id_new [of "map k xs"] by simp

lemma fresh_other: "x \<in> set xs \<Longrightarrow> k x \<noteq> fresh_id (map k xs)"
  using fresh_id_above [of "k x" "map k xs"] by auto

lemma template_created_kept:
  assumes ok: "wa_ok db" and u: "requireFriend ctx = Inr u"
  shows "wa_kept (u_id u) db (snd (createTemplate ctx name body now db))"
proof (cases "named_ok name \<and> body \<noteq> ''''")
  case True
  define t where "t = \<lparr>tp_id = fresh_id (map tp_id (wa_templates db)), tp_owner = u_id u, tp_name = name, tp_body = body, tp_created = now, tp_updated = now\<rparr>"
  have eq: "snd (createTemplate ctx name body now db) = db\<lparr>wa_templates := wa_templates db @ [t]\<rparr>"
    using True by (simp add: createTemplate_def u t_def Let_def)
  have "wa_ok (db\<lparr>wa_templates := wa_templates db @ [t]\<rparr>)"
    using wa_okD [OF ok] True batch_ok_more [of "wa_templates db" "wa_lists db" _ "[t]" "[]"]
    by (auto simp: wa_ok_def t_def)
  then show ?thesis unfolding eq by (simp add: wa_kept_def view_of_def t_def)
qed (use assms in \<open>auto simp: createTemplate_def wa_kept_refl\<close>)

lemma template_updated_kept:
  assumes ok: "wa_ok db" and u: "requireFriend ctx = Inr u"
  shows "wa_kept (u_id u) db (snd (updateTemplate ctx i name body now db))"
proof (cases "ownedTemplate db (u_id u) i")
  case (Inr t)
  let ?f = "\<lambda>t. t\<lparr>tp_name := name, tp_body := body, tp_updated := now\<rparr>"
  let ?ts = "update_where (\<lambda>t. tp_id t = i) ?f (wa_templates db)"
  note t = ownedTemplate_Inr [OF Inr] and d = wa_okD [OF ok]
  show ?thesis
  proof (cases "named_ok name \<and> body \<noteq> ''''")
    case True
    have eq: "snd (updateTemplate ctx i name body now db) = db\<lparr>wa_templates := ?ts\<rparr>"
      using True Inr by (simp add: updateTemplate_def u Let_def)
    have ids: "map tp_id ?ts = map tp_id (wa_templates db)" by (rule map_update_where) simp
    have one: "tp_owner x = u_id u" if "x \<in> set (wa_templates db)" "tp_id x = i" for x
      using same_row [OF d(1) that(1), of t] t that(2) by simp
    have "map (\<lambda>t. (tp_id t, tp_owner t)) ?ts = map (\<lambda>t. (tp_id t, tp_owner t)) (wa_templates db)" by (rule map_update_where) simp
    from ex_key [OF this, of "\<lambda>p. p = (k, w)" for k w]
    have "(\<exists>t \<in> set ?ts. tp_id t = k \<and> tp_owner t = w) \<longleftrightarrow> (\<exists>t \<in> set (wa_templates db). tp_id t = k \<and> tp_owner t = w)" for k w
      by simp
    then have batches: "batch_ok ?ts (wa_lists db) b \<longleftrightarrow> batch_ok (wa_templates db) (wa_lists db) b" for b by (simp add: batch_ok_def)
    have named: "named_ok (tp_name x) \<and> tp_body x \<noteq> ''''" if "x \<in> set ?ts" for x
      using d(5) True that by (auto simp: update_where_def)
    have others: "filter (\<lambda>t. tp_owner t = w) ?ts = filter (\<lambda>t. tp_owner t = w) (wa_templates db)" if "w \<noteq> u_id u" for w
      using one that by (intro filter_update_other) auto
    have "wa_ok (db\<lparr>wa_templates := ?ts\<rparr>)"
      unfolding wa_ok_def using d named by (simp add: ids batches)
    then show ?thesis unfolding eq by (simp add: wa_kept_def view_of_def others)
  qed (use assms Inr in \<open>auto simp: updateTemplate_def wa_kept_refl\<close>)
qed (use assms in \<open>simp add: updateTemplate_def wa_kept_refl\<close>)

lemma template_deleted_kept:
  assumes ok: "wa_ok db" and u: "requireFriend ctx = Inr u"
  shows "wa_kept (u_id u) db (snd (deleteTemplate ctx i db))"
proof (cases "ownedTemplate db (u_id u) i")
  case (Inr t)
  note t = ownedTemplate_Inr [OF Inr] and d = wa_okD [OF ok]
  let ?bs = "detach_template i (wa_batches db)" and ?ts = "filter (\<lambda>t. tp_id t \<noteq> i) (wa_templates db)"
  have eq: "snd (deleteTemplate ctx i db) = db\<lparr>wa_batches := ?bs, wa_templates := ?ts\<rparr>"
    using Inr by (simp add: deleteTemplate_def u)
  have ids: "map wb_id ?bs = map wb_id (wa_batches db)"
    unfolding detach_template_def by (rule map_update_where) simp
  have mine: "tp_owner x = u_id u" if "x \<in> set (wa_templates db)" "tp_id x = i" for x
    using same_row [OF d(1) that(1), of t] t that(2) by simp
  have owner: "wb_owner b = u_id u" if "b \<in> set (wa_batches db)" "wb_template b = Some i" for b
    using d(9) [OF that(1)] that(2) mine by (auto simp: batch_ok_def)
  have batches: "batch_ok ?ts (wa_lists db) b" if "b \<in> set ?bs" for b
  proof -
    obtain b0 where b0: "b0 \<in> set (wa_batches db)" "b = (if wb_template b0 = Some i then b0\<lparr>wb_template := None\<rparr> else b0)"
      using \<open>b \<in> set ?bs\<close> by (auto simp: detach_template_def update_where_def)
    from d(9) [OF b0(1)] show ?thesis unfolding b0(2) batch_ok_def by (cases "wb_template b0") auto
  qed
  have others: "filter (\<lambda>b. wb_owner b = w) ?bs = filter (\<lambda>b. wb_owner b = w) (wa_batches db)" if "w \<noteq> u_id u" for w
    unfolding detach_template_def using owner that by (intro filter_update_other) auto
  have ts: "filter (\<lambda>x. tp_id x \<noteq> i \<and> tp_owner x = w) (wa_templates db) = filter (\<lambda>t. tp_owner t = w) (wa_templates db)" if "w \<noteq> u_id u" for w
    using mine that by (auto intro!: filter_cong)
  have "wa_ok (db\<lparr>wa_batches := ?bs, wa_templates := ?ts\<rparr>)"
    unfolding wa_ok_def using d batches by (simp add: ids distinct_map_filter)
  then show ?thesis unfolding eq by (simp add: wa_kept_def view_of_def others ts)
qed (use assms in \<open>simp add: deleteTemplate_def wa_kept_refl\<close>)

lemma batch_created_kept:
  assumes ok: "wa_ok db" and u: "requireFriend ctx = Inr u"
  shows "wa_kept (u_id u) db (snd (createBatchHandler conf ctx tid lid now db))"
proof (cases "fst (createBatchHandler conf ctx tid lid now db)")
  case (Inl err)
  then have "snd (createBatchHandler conf ctx tid lid now db) = db"
    by (auto simp: createBatchHandler_def u Let_def split: sum.splits if_splits)
  then show ?thesis using ok by (simp add: wa_kept_refl)
next
  case (Inr sess)
  then obtain t l where t: "ownedTemplate db (u_id u) tid = Inr t" and l: "ownedList db (u_id u) lid = Inr l" and ne: "members db (rl_id l) \<noteq> []"
    by (auto simp: createBatchHandler_def u Let_def split: sum.splits if_splits)
  define b where "b = \<lparr>wb_id = fresh_id (map wb_id (wa_batches db)), wb_owner = u_id u, wb_template = Some (tp_id t),
      wb_list = Some (rl_id l), wb_status = BatchPending, wb_total = int (length (members db (rl_id l))), wb_sent = 0,
      wb_failed = 0, wb_skipped = 0, wb_error = '''', wb_created = now\<rparr>"
  have eq: "snd (createBatchHandler conf ctx tid lid now db) = db\<lparr>wa_batches := wa_batches db @ [b]\<rparr>"
    using Inr t l by (auto simp: createBatchHandler_def u Let_def b_def split: if_splits)
  have "0 < length (members db (rl_id l))" using ne by simp
  then have "1 \<le> wb_total b" by (cases "members db (rl_id l)") (simp_all add: b_def)
  then have "batch_ok (wa_templates db) (wa_lists db) b"
    using ownedTemplate_Inr [OF t] ownedList_Inr [OF l] by (auto simp: batch_ok_def b_def)
  then have "wa_ok (db\<lparr>wa_batches := wa_batches db @ [b]\<rparr>)"
    using wa_okD [OF ok] unfolding wa_ok_def by (auto simp: b_def)
  then show ?thesis unfolding eq by (simp add: wa_kept_def view_of_def b_def)
qed

lemma batch_written_kept:
  assumes ok: "wa_ok db" and own: "\<exists>b \<in> set (wa_batches db). wb_id b = i \<and> wb_owner b = v" and st: "st_batches st = wa_batches db"
    and w: "st' \<in> {setBatchStatus live i s st, incrementBatch live i what st, failBatch live i msg st, completeBatch live i x y n st}"
  shows "wa_kept v db (db\<lparr>wa_batches := st_batches st'\<rparr>)"
proof -
  note d = wa_okD [OF ok]
  obtain f where f: "st_batches st' = update_where (\<lambda>b. wb_id b = i) f (wa_batches db)"
    "\<And>b. wb_id (f b) = wb_id b \<and> wb_owner (f b) = wb_owner b"
    "\<And>b. batch_ok (wa_templates db) (wa_lists db) b \<Longrightarrow> batch_ok (wa_templates db) (wa_lists db) (f b)"
  proof -
    have id: "update_where p (\<lambda>b. b) bs = bs" for p and bs :: "batch list" by (simp add: update_where_def)
    have "\<exists>f. st_batches st' = update_where (\<lambda>b. wb_id b = i) f (wa_batches db) \<and> (\<forall>b. wb_id (f b) = wb_id b \<and> wb_owner (f b) = wb_owner b) \<and>
        (\<forall>b. batch_ok (wa_templates db) (wa_lists db) b \<longrightarrow> batch_ok (wa_templates db) (wa_lists db) (f b))"
    proof (cases "st_batches st' = wa_batches db")
      case True
      then show ?thesis by (intro exI [of _ "\<lambda>b. b"]) (simp add: id)
    next
      case False
      then obtain f where "st' = save_batch True i f st" "f \<in> {\<lambda>b. b\<lparr>wb_status := s\<rparr>, \<lambda>b. b\<lparr>wb_sent := wb_sent b + 1\<rparr>, \<lambda>b. b\<lparr>wb_skipped := wb_skipped b + 1\<rparr>,
          \<lambda>b. b\<lparr>wb_failed := wb_failed b + 1\<rparr>, \<lambda>b. b\<lparr>wb_status := BatchFailed, wb_error := msg\<rparr>} \<or>
          0 \<le> x \<and> 0 \<le> y \<and> 0 \<le> n \<and> f = (\<lambda>b. b\<lparr>wb_status := BatchCompleted, wb_sent := x, wb_skipped := y, wb_failed := n\<rparr>)"
        using w st by (cases live) (auto simp: batch_writes save_batch_def split: if_splits)
      then show ?thesis using st by (intro exI [of _ f]) (auto simp: save_batch_def batch_ok_def)
    qed
    then show ?thesis using that by blast
  qed
  let ?bs = "update_where (\<lambda>b. wb_id b = i) f (wa_batches db)"
  have ids: "map wb_id ?bs = map wb_id (wa_batches db)" using f(2) by (intro map_update_where) simp
  have batches: "batch_ok (wa_templates db) (wa_lists db) b" if "b \<in> set ?bs" for b
    using that d(9) f(3) by (auto simp: update_where_def)
  have mine: "wb_owner b = v" if "b \<in> set (wa_batches db)" "wb_id b = i" for b
    using own same_row [OF d(4) that(1)] that(2) by blast
  have others: "filter (\<lambda>b. wb_owner b = w) ?bs = filter (\<lambda>b. wb_owner b = w) (wa_batches db)" if "w \<noteq> v" for w
    using mine f(2) that by (intro filter_update_other) auto
  have "wa_ok (db\<lparr>wa_batches := ?bs\<rparr>)"
    unfolding wa_ok_def using d batches by (simp add: ids)
  then show ?thesis unfolding f(1) by (simp add: wa_kept_def view_of_def others)
qed

lemma parsed_ok:
  assumes "ParseRecipients s code = (parsed, invalid)" "list_all is_digit code"
  shows "distinct (map pr_phone parsed)" "\<forall>p \<in> set parsed. phone_ok (pr_phone p)"
proof -
  have r: "parsed = map (\<lambda>n. line_entry code (text_lines s ! n)) (filter (first_naming code (text_lines s)) [0..<length (text_lines s)])"
    using assms(1) by (simp add: ParseRecipients_def parse_lines_eq)
  show "\<forall>p \<in> set parsed. phone_ok (pr_phone p)"
    using NormalizePhone_ok [OF _ assms(2)] unfolding r
    by (auto simp: line_entry_def first_naming_def line_phone_def split: if_splits)
  have "inj_on (\<lambda>n. the (line_phone code (text_lines s ! n))) {n. first_naming code (text_lines s) n}"
  proof (rule inj_onI, simp only: mem_Collect_eq)
    fix m n assume a: "first_naming code (text_lines s) m" "first_naming code (text_lines s) n"
      "the (line_phone code (text_lines s ! m)) = the (line_phone code (text_lines s ! n))"
    then have "line_phone code (text_lines s ! m) = line_phone code (text_lines s ! n)" by (auto simp: first_naming_def)
    with a show "m = n" by (cases m n rule: linorder_cases) (auto simp: first_naming_def)
  qed
  then show "distinct (map pr_phone parsed)"
    unfolding r by (auto simp: comp_def line_entry_def distinct_map intro: inj_on_subset)
qed

text \<open>Recipients come and go with their list.\<close>

definition recipients_ok :: "recipient_list list \<Rightarrow> recipient list \<Rightarrow> bool" where
  "recipients_ok ls rs \<longleftrightarrow>
     distinct (map rc_id rs) \<and> distinct (map (\<lambda>r. (rc_list r, rc_phone r)) rs) \<and>
     (\<forall>r \<in> set rs. rc_list r \<in> rl_id ` set ls \<and> phone_ok (rc_phone r))"

lemma sorted_distinct: "sorted_wrt (<) (xs :: nat list) \<Longrightarrow> distinct xs"
  by (induction xs) auto

lemma bulk_ok:
  assumes rs: "recipients_ok ls rs" and fresh: "\<forall>r \<in> set rs. rc_list r \<noteq> l" and l: "l \<in> rl_id ` set ls"
    and ps: "distinct (map pr_phone ps)" "\<forall>p \<in> set ps. phone_ok (pr_phone p)"
  shows "recipients_ok ls (bulkCreateRecipients l ps rs)" "filter Q (bulkCreateRecipients l ps rs) = filter Q rs @ filter Q (drop (length rs) (bulkCreateRecipients l ps rs))"
    "r \<in> set (drop (length rs) (bulkCreateRecipients l ps rs)) \<Longrightarrow> rc_list r = l"
proof -
  obtain new where n: "bulkCreateRecipients l ps rs = rs @ new" "map rc_phone new = map pr_phone ps" "\<forall>r \<in> set new. rc_list r = l"
    "sorted_wrt (<) (map rc_id new)" "\<forall>r \<in> set new. \<forall>q \<in> set rs. rc_id q < rc_id r"
    using bulk_rows [of l ps rs] by blast
  have "distinct (map rc_phone new)" using n(2) ps(1) by simp
  then have pairs: "distinct (map (\<lambda>r. (rc_list r, rc_phone r)) new)" by (auto simp: distinct_map inj_on_def)
  have ok: "phone_ok (rc_phone r)" if "r \<in> set new" for r
  proof -
    have "rc_phone r \<in> set (map pr_phone ps)" using that n(2) by (metis imageI list.set_map)
    then show ?thesis using ps(2) by auto
  qed
  have "distinct (map rc_id (rs @ new))"
    using rs sorted_distinct [OF n(4)] n(5) by (fastforce simp: recipients_ok_def)
  moreover have "distinct (map (\<lambda>r. (rc_list r, rc_phone r)) (rs @ new))"
    using rs pairs fresh n(3) by (auto simp: recipients_ok_def)
  ultimately show "recipients_ok ls (bulkCreateRecipients l ps rs)"
    using rs n(1,3) ok l by (auto simp: recipients_ok_def)
  show "filter Q (bulkCreateRecipients l ps rs) = filter Q rs @ filter Q (drop (length rs) (bulkCreateRecipients l ps rs))"
    "r \<in> set (drop (length rs) (bulkCreateRecipients l ps rs)) \<Longrightarrow> rc_list r = l" using n(1,3) by auto
qed

lemma wa_ok_recipients: "wa_ok db \<Longrightarrow> recipients_ok (wa_lists db) (wa_recipients db)"
  by (simp add: wa_ok_def recipients_ok_def)

lemma recipients_ok_without: "recipients_ok ls rs \<Longrightarrow> recipients_ok ls (filter Q rs)"
  by (simp add: recipients_ok_def distinct_map_filter)

lemma recipients_ok_more: "recipients_ok ls rs \<Longrightarrow> recipients_ok (ls @ ls') rs"
  by (auto simp: recipients_ok_def)

lemma list_created_kept:
  assumes ok: "wa_ok db" and u: "requireFriend ctx = Inr u" and code: "list_all is_digit (u_country u)"
  shows "wa_kept (u_id u) db (snd (createList conf ctx inp now db))"
proof (cases "fst (createList conf ctx inp now db)")
  case (Inl err)
  then have "snd (createList conf ctx inp now db) = db"
    by (auto simp: createList_def u Let_def split: prod.splits if_splits)
  then show ?thesis using ok by (simp add: wa_kept_refl)
next
  case (Inr ans)
  note d = wa_okD [OF ok]
  obtain parsed invalid where p: "ParseRecipients (lb_text inp) (effectiveCountryCode (lb_code inp) u) = (parsed, invalid)" by fastforce
  define l where "l = \<lparr>rl_id = fresh_id (map rl_id (wa_lists db)), rl_owner = u_id u, rl_name = lb_name inp, rl_code = lb_code inp,
      rl_created = now, rl_updated = now\<rparr>"
  let ?rs = "bulkCreateRecipients (rl_id l) parsed (wa_recipients db)"
  have valid: "named_ok (lb_name inp)" "country_ok (lb_code inp)"
    and eq: "snd (createList conf ctx inp now db) = db\<lparr>wa_lists := wa_lists db @ [l], wa_recipients := ?rs\<rparr>"
    using Inr p by (auto simp: createList_def u Let_def l_def split: if_splits)
  have "list_all is_digit (effectiveCountryCode (lb_code inp) u)"
    using valid(2) code by (auto simp: effectiveCountryCode_def country_ok_def)
  note parsed = parsed_ok [OF p this]
  have new: "\<forall>r \<in> set (wa_recipients db). rc_list r \<noteq> rl_id l"
    using d(7) by (force simp: l_def dest: fresh_other)
  have rs: "recipients_ok (wa_lists db @ [l]) (wa_recipients db)" using wa_ok_recipients [OF ok] by (rule recipients_ok_more)
  have lin: "rl_id l \<in> rl_id ` set (wa_lists db @ [l])" by simp
  note b = bulk_ok [OF rs new lin parsed]
  have "recipients_ok (wa_lists db @ [l]) ?rs" by (rule b(1))
  moreover have "distinct (map rl_id (wa_lists db @ [l]))" using d(2) by (simp add: l_def)
  ultimately have "wa_ok (db\<lparr>wa_lists := wa_lists db @ [l], wa_recipients := ?rs\<rparr>)"
    using d valid batch_ok_more [of "wa_templates db" "wa_lists db" _ "[]" "[l]"]
    by (auto simp: wa_ok_def recipients_ok_def l_def)
  moreover have "filter (\<lambda>r. \<exists>x \<in> set (wa_lists db @ [l]). rl_id x = rc_list r \<and> rl_owner x = w) ?rs =
      filter (\<lambda>r. \<exists>x \<in> set (wa_lists db). rl_id x = rc_list r \<and> rl_owner x = w) (wa_recipients db)" if w: "w \<noteq> u_id u" for w
  proof -
    have "rl_owner x = u_id u" if "x \<in> set (wa_lists db @ [l])" "rl_id x = rl_id l" for x
      using that fresh_other [of x "wa_lists db" rl_id] by (auto simp: l_def)
    then have none: "\<not> (\<exists>x \<in> set (wa_lists db @ [l]). rl_id x = rl_id l \<and> rl_owner x = w)" using w by blast
    have "filter (\<lambda>r. \<exists>x \<in> set (wa_lists db @ [l]). rl_id x = rc_list r \<and> rl_owner x = w) (drop (length (wa_recipients db)) ?rs) = []"
      unfolding filter_empty_conv
    proof
      fix r assume "r \<in> set (drop (length (wa_recipients db)) ?rs)"
      from b(3) [OF this] none show "\<not> (\<exists>x \<in> set (wa_lists db @ [l]). rl_id x = rc_list r \<and> rl_owner x = w)" by simp
    qed
    moreover have "filter (\<lambda>r. \<exists>x \<in> set (wa_lists db @ [l]). rl_id x = rc_list r \<and> rl_owner x = w) (wa_recipients db) =
        filter (\<lambda>r. \<exists>x \<in> set (wa_lists db). rl_id x = rc_list r \<and> rl_owner x = w) (wa_recipients db)"
      using w by (auto simp: l_def intro!: filter_cong)
    ultimately show ?thesis using b(2) by simp
  qed
  ultimately show ?thesis unfolding eq wa_kept_def view_of_def by (simp add: l_def)
qed

lemma list_updated_kept:
  assumes ok: "wa_ok db" and u: "requireFriend ctx = Inr u" and code: "list_all is_digit (u_country u)"
  shows "wa_kept (u_id u) db (snd (updateList conf ctx i inp now db))"
proof (cases "fst (updateList conf ctx i inp now db)")
  case (Inl err)
  then have "snd (updateList conf ctx i inp now db) = db"
    by (auto simp: updateList_def u Let_def split: prod.splits if_splits sum.splits)
  then show ?thesis using ok by (simp add: wa_kept_refl)
next
  case (Inr ans)
  note d = wa_okD [OF ok]
  obtain parsed invalid where p: "ParseRecipients (lb_text inp) (effectiveCountryCode (lb_code inp) u) = (parsed, invalid)" by fastforce
  obtain l where owned: "ownedList db (u_id u) i = Inr l" using Inr by (cases "ownedList db (u_id u) i") (auto simp: updateList_def u)
  note l = ownedList_Inr [OF owned]
  let ?f = "\<lambda>l. l\<lparr>rl_name := lb_name inp, rl_code := lb_code inp, rl_updated := now\<rparr>"
  let ?ls = "update_where (\<lambda>l. rl_id l = i) ?f (wa_lists db)" and ?stay = "filter (\<lambda>r. rc_list r \<noteq> i) (wa_recipients db)"
  let ?rs = "bulkCreateRecipients i parsed ?stay"
  have valid: "named_ok (lb_name inp)" "country_ok (lb_code inp)"
    and eq: "snd (updateList conf ctx i inp now db) = db\<lparr>wa_lists := ?ls, wa_recipients := ?rs\<rparr>"
    using Inr p owned by (auto simp: updateList_def u Let_def split: if_splits)
  have "list_all is_digit (effectiveCountryCode (lb_code inp) u)"
    using valid(2) code by (auto simp: effectiveCountryCode_def country_ok_def)
  note parsed = parsed_ok [OF p this]
  have ids: "map rl_id ?ls = map rl_id (wa_lists db)" "map (\<lambda>l. (rl_id l, rl_owner l)) ?ls = map (\<lambda>l. (rl_id l, rl_owner l)) (wa_lists db)"
    by (rule map_update_where, simp)+
  have idset: "rl_id ` set ?ls = rl_id ` set (wa_lists db)" using ids(1) by (metis list.set_map)
  have exl: "(\<exists>l \<in> set ?ls. rl_id l = k \<and> rl_owner l = w) \<longleftrightarrow> (\<exists>l \<in> set (wa_lists db). rl_id l = k \<and> rl_owner l = w)" for k w
    using ex_key [OF ids(2), of "\<lambda>p. p = (k, w)"] by simp
  have rs0: "recipients_ok ?ls ?stay"
    using recipients_ok_without [OF wa_ok_recipients [OF ok], of "\<lambda>r. rc_list r \<noteq> i"] by (simp add: recipients_ok_def idset)
  have fresh: "\<forall>r \<in> set ?stay. rc_list r \<noteq> i" and lin: "i \<in> rl_id ` set ?ls" using l idset by auto
  note b = bulk_ok [OF rs0 fresh lin parsed]
  have mine: "rl_owner x = u_id u" if "x \<in> set (wa_lists db)" "rl_id x = i" for x
    using same_row [OF d(2) that(1), of l] l that(2) by simp
  have "wa_ok (db\<lparr>wa_lists := ?ls, wa_recipients := ?rs\<rparr>)"
  proof -
    have "batch_ok (wa_templates db) ?ls b" if "b \<in> set (wa_batches db)" for b using d(9) [OF that] by (simp add: batch_ok_def exl)
    moreover have "named_ok (rl_name x) \<and> country_ok (rl_code x)" if "x \<in> set ?ls" for x using d(6) valid that by (auto simp: update_where_def)
    ultimately show ?thesis using d(1,2,4,5) b(1) unfolding wa_ok_def recipients_ok_def by (simp add: ids(1))
  qed
  moreover have "filter (\<lambda>l. rl_owner l = w) ?ls = filter (\<lambda>l. rl_owner l = w) (wa_lists db)" if "w \<noteq> u_id u" for w
    using mine that by (intro filter_update_other) auto
  moreover have "filter (\<lambda>r. \<exists>l \<in> set ?ls. rl_id l = rc_list r \<and> rl_owner l = w) ?rs =
      filter (\<lambda>r. \<exists>l \<in> set (wa_lists db). rl_id l = rc_list r \<and> rl_owner l = w) (wa_recipients db)" if w: "w \<noteq> u_id u" for w
  proof -
    have none: "\<not> (\<exists>l \<in> set (wa_lists db). rl_id l = i \<and> rl_owner l = w)" using mine w by blast
    have "filter (\<lambda>r. \<exists>l \<in> set (wa_lists db). rl_id l = rc_list r \<and> rl_owner l = w) (drop (length ?stay) ?rs) = []"
      unfolding filter_empty_conv
    proof
      fix r assume "r \<in> set (drop (length ?stay) ?rs)"
      from b(3) [OF this] none show "\<not> (\<exists>l \<in> set (wa_lists db). rl_id l = rc_list r \<and> rl_owner l = w)" by simp
    qed
    moreover have "filter (\<lambda>r. \<exists>l \<in> set (wa_lists db). rl_id l = rc_list r \<and> rl_owner l = w) ?stay =
        filter (\<lambda>r. \<exists>l \<in> set (wa_lists db). rl_id l = rc_list r \<and> rl_owner l = w) (wa_recipients db)"
      unfolding filter_filter using none by (intro filter_cong) auto
    ultimately show ?thesis unfolding exl using b(2) by simp
  qed
  ultimately show ?thesis unfolding eq wa_kept_def view_of_def by simp
qed

lemma list_deleted_kept:
  assumes ok: "wa_ok db" and u: "requireFriend ctx = Inr u"
  shows "wa_kept (u_id u) db (snd (deleteList ctx i db))"
proof (cases "ownedList db (u_id u) i")
  case (Inr l)
  note l = ownedList_Inr [OF Inr] and d = wa_okD [OF ok]
  let ?bs = "detach_list i (wa_batches db)" and ?ls = "filter (\<lambda>l. rl_id l \<noteq> i) (wa_lists db)"
    and ?rs = "filter (\<lambda>r. rc_list r \<noteq> i) (wa_recipients db)"
  have eq: "snd (deleteList ctx i db) = db\<lparr>wa_batches := ?bs, wa_recipients := ?rs, wa_lists := ?ls\<rparr>"
    using Inr by (simp add: deleteList_def u)
  have ids: "map wb_id ?bs = map wb_id (wa_batches db)"
    unfolding detach_list_def by (rule map_update_where) simp
  have mine: "rl_owner x = u_id u" if "x \<in> set (wa_lists db)" "rl_id x = i" for x
    using same_row [OF d(2) that(1), of l] l that(2) by simp
  have owner: "wb_owner b = u_id u" if "b \<in> set (wa_batches db)" "wb_list b = Some i" for b
    using d(9) [OF that(1)] that(2) mine by (auto simp: batch_ok_def)
  have batches: "batch_ok (wa_templates db) ?ls b" if "b \<in> set ?bs" for b
  proof -
    obtain b0 where b0: "b0 \<in> set (wa_batches db)" "b = (if wb_list b0 = Some i then b0\<lparr>wb_list := None\<rparr> else b0)"
      using \<open>b \<in> set ?bs\<close> by (auto simp: detach_list_def update_where_def)
    from d(9) [OF b0(1)] show ?thesis unfolding b0(2) batch_ok_def by (cases "wb_list b0") auto
  qed
  have "recipients_ok ?ls ?rs" using wa_ok_recipients [OF ok] by (force simp: recipients_ok_def distinct_map_filter)
  then have "wa_ok (db\<lparr>wa_batches := ?bs, wa_recipients := ?rs, wa_lists := ?ls\<rparr>)"
    unfolding wa_ok_def recipients_ok_def using d batches by (simp add: ids distinct_map_filter)
  moreover have "filter (\<lambda>b. wb_owner b = w) ?bs = filter (\<lambda>b. wb_owner b = w) (wa_batches db)" if "w \<noteq> u_id u" for w
    unfolding detach_list_def using owner that by (intro filter_update_other) auto
  moreover have "filter (\<lambda>x. rl_id x \<noteq> i \<and> rl_owner x = w) (wa_lists db) = filter (\<lambda>l. rl_owner l = w) (wa_lists db)" if "w \<noteq> u_id u" for w
    using mine that by (auto intro!: filter_cong)
  moreover have "filter (\<lambda>r. rc_list r \<noteq> i \<and> (\<exists>l \<in> set ?ls. rl_id l = rc_list r \<and> rl_owner l = w)) (wa_recipients db) =
      filter (\<lambda>r. \<exists>l \<in> set (wa_lists db). rl_id l = rc_list r \<and> rl_owner l = w) (wa_recipients db)" if "w \<noteq> u_id u" for w
    using mine that by (intro filter_cong) auto
  ultimately show ?thesis unfolding eq wa_kept_def view_of_def by (simp add: conj_commute)
qed (use assms in \<open>simp add: deleteList_def wa_kept_refl\<close>)

lemma wa_step_kept: "wa_step conf v db db' \<Longrightarrow> wa_ok db \<Longrightarrow> wa_kept v db db'"
  by (induction rule: wa_step.induct)
    (blast intro: template_created_kept template_updated_kept template_deleted_kept list_created_kept list_updated_kept
      list_deleted_kept batch_created_kept batch_written_kept)+

lemma reachable_ok: "wa_reachable conf db \<Longrightarrow> wa_ok db"
proof (induction rule: wa_reachable.induct)
  case empty
  show ?case by (simp add: wa_ok_def)
next
  case (step db v db')
  then show ?case using wa_step_kept by (simp add: wa_kept_def)
qed

text \<open>C30: The tables of the sender, in any state that requests and streams can lead to: rows are keyed, every
  member belongs to a list, is a usable number and is on its list once, and a batch refers to
  templates and lists of its own owner only, that exist.  And whatever one user does, the templates,
  lists, members and batches of every other user stay as they are.\<close>

theorem wa_isolation:
  assumes "wa_reachable conf db" "wa_step conf v db db'"
  shows "wa_ok db' \<and> (\<forall>w. w \<noteq> v \<longrightarrow> view_of w db' = view_of w db)"
  using wa_step_kept [OF assms(2) reachable_ok [OF assms(1)]] by (simp add: wa_kept_def)

lemma members_created:
  assumes ok: "wa_ok db" and u: "requireFriend ctx = Inr u" and created: "createList conf ctx inp now db = (Inr (l, parsed, invalid), db1)"
  shows "map (\<lambda>r. (rc_phone r, rc_name r)) (members db1 (rl_id l)) = map (\<lambda>p. (pr_phone p, pr_name p)) parsed"
    "ownedList db1 (u_id u) (rl_id l) = Inr l" "int (length parsed) \<le> wc_max_recipients conf"
proof -
  note d = wa_okD [OF ok]
  have l: "l = \<lparr>rl_id = fresh_id (map rl_id (wa_lists db)), rl_owner = u_id u, rl_name = lb_name inp, rl_code = lb_code inp, rl_created = now, rl_updated = now\<rparr>"
    and db1: "db1 = db\<lparr>wa_lists := wa_lists db @ [l], wa_recipients := bulkCreateRecipients (rl_id l) parsed (wa_recipients db)\<rparr>"
    and le: "int (length parsed) \<le> wc_max_recipients conf"
    using created by (auto simp: createList_def u Let_def split: prod.splits if_splits)
  show "int (length parsed) \<le> wc_max_recipients conf" by (rule le)
  obtain new where n: "bulkCreateRecipients (rl_id l) parsed (wa_recipients db) = wa_recipients db @ new" "map rc_phone new = map pr_phone parsed"
    "map rc_name new = map pr_name parsed" "\<forall>r \<in> set new. rc_list r = rl_id l" "sorted_wrt (<) (map rc_id new)"
    using bulk_rows [of "rl_id l" parsed "wa_recipients db"] by blast
  have "rc_list r \<noteq> rl_id l" if "r \<in> set (wa_recipients db)" for r
    using d(7) [OF that] fresh_other [of _ "wa_lists db" rl_id] by (force simp: l)
  then have "filter (\<lambda>r. rc_list r = rl_id l) (wa_recipients db) = []" by (simp add: filter_empty_conv)
  moreover have "filter (\<lambda>r. rc_list r = rl_id l) new = new" using n(4) by simp
  ultimately have "members db1 (rl_id l) = sort_key rc_id new" by (simp add: members_def db1 n(1))
  moreover have "sorted (map rc_id new)" using n(5) by (rule strict_sorted_imp_sorted)
  ultimately have m: "members db1 (rl_id l) = new" by (simp add: sorted_sort_id sort_key_id_if_sorted)
  have z1: "map (\<lambda>r. (rc_phone r, rc_name r)) xs = zip (map rc_phone xs) (map rc_name xs)" for xs by (induction xs) auto
  have z2: "map (\<lambda>p. (pr_phone p, pr_name p)) ps = zip (map pr_phone ps) (map pr_name ps)" for ps :: "parsed_recipient list" by (induction ps) auto
  show "map (\<lambda>r. (rc_phone r, rc_name r)) (members db1 (rl_id l)) = map (\<lambda>p. (pr_phone p, pr_name p)) parsed"
    by (simp only: m z1 z2 n(2,3))
  have "find (\<lambda>x. rl_id x = rl_id l \<and> rl_owner x = u_id u) (wa_lists db) = None"
    unfolding find_None_iff using fresh_other [of _ "wa_lists db" rl_id] by (auto simp: l)
  then show "ownedList db1 (u_id u) (rl_id l) = Inr l" by (simp add: ownedList_def db1 find_append) (simp add: l)
qed

text \<open>C31: What is pasted is what is sent.  A batch over a list that was just created from a paste is admitted
  exactly when a sender is configured, the template is the user's, the paste named somebody and the
  user has a send left in the last twenty-four hours; the sidecar is then given the recipients of the
  paste, each with its name, in the order of the paste, with the template's text; and the row records
  how many they are.  A refusal changes nothing.\<close>

theorem paste_is_sent:
  assumes "wa_reachable conf db" "requireFriend ctx = Inr u"
    and "createList conf ctx inp now db = (Inr (l, parsed, invalid), db1)"
  shows "let (res, db2) = createBatchHandler conf ctx tid (rl_id l) now' db1
    in ((\<exists>sess. res = Inr sess) \<longleftrightarrow> wc_configured conf \<and> (\<exists>t. ownedTemplate db1 (u_id u) tid = Inr t) \<and> parsed \<noteq> [] \<and>
          int (batchesUsedToday db1 (u_id u) now') < wc_max_per_day conf) \<and>
       (case res of
          Inl err \<Rightarrow> db2 = db1
        | Inr sess \<Rightarrow> sq_recipients sess = map (\<lambda>p. (pr_phone p, pr_name p)) parsed \<and>
            (\<exists>t. ownedTemplate db1 (u_id u) tid = Inr t \<and> sq_body sess = tp_body t) \<and>
            (let b = List.last (wa_batches db2)
             in db2 = db1\<lparr>wa_batches := wa_batches db1 @ [b]\<rparr> \<and> wb_id b = sq_batch sess \<and> wb_id b \<notin> wb_id ` set (wa_batches db1) \<and>
               wb_owner b = u_id u \<and> wb_status b = BatchPending \<and> wb_total b = int (length parsed)))"
proof -
  note m = members_created [OF reachable_ok [OF assms(1)] assms(2,3)]
  have len: "length (members db1 (rl_id l)) = length parsed" using arg_cong [OF m(1), of length] by simp
  have none: "members db1 (rl_id l) = [] \<longleftrightarrow> parsed = []" using len by (metis length_0_conv)
  show ?thesis
    using m(1,3) len none
    by (cases "ownedTemplate db1 (u_id u) tid") (auto simp: createBatchHandler_def assms(2) m(2) Let_def)
qed

definition ex_friend :: user where
  "ex_friend = \<lparr>u_id = 7, u_email = ''a@b'', u_name = ''A'', u_avatar = '''', u_country = ''61'', u_role = Friend, u_nickname = None, u_greeted = None\<rparr>"

definition ex_conf :: wa_conf where
  "ex_conf = \<lparr>wc_configured = True, wc_max_recipients = 250, wc_max_per_day = 3\<rparr>"

definition ex_wa :: wa_db where
  "ex_wa = snd (createTemplate (no_ctx\<lparr>x_user := Some ex_friend\<rparr>) ''Hello'' ''Hi {name}'' 0
     \<lparr>wa_templates = [], wa_lists = [], wa_recipients = [], wa_batches = []\<rparr>)"

definition ex_paste :: list_body where
  "ex_paste = \<lparr>lb_name = ''Family'', lb_code = '''', lb_text = ''0412345678, Budi'' @ [CHR 0x0A] @ ''+62 812345678''\<rparr>"

lemma ex_ctx: "requireFriend (no_ctx\<lparr>x_user := Some ex_friend\<rparr>) = Inr ex_friend"
  by (simp add: requireFriend_def ex_friend_def no_ctx_def)

lemma ex_wa_reachable: "wa_reachable ex_conf ex_wa"
  unfolding ex_wa_def by (rule wa_reachable.step [OF wa_reachable.empty]) (rule wa_step.template_created [OF ex_ctx])

lemma wa_isolation_witness:
  "wa_ok (snd (deleteTemplate (no_ctx\<lparr>x_user := Some ex_friend\<rparr>) 1 ex_wa)) \<and>
   view_of 8 (snd (deleteTemplate (no_ctx\<lparr>x_user := Some ex_friend\<rparr>) 1 ex_wa)) = view_of 8 ex_wa"
  using wa_isolation [OF ex_wa_reachable wa_step.template_deleted [OF ex_ctx, where i = 1]] by (simp add: ex_friend_def)

lemma paste_is_sent_witness:
  "\<exists>sess. fst (createBatchHandler ex_conf (no_ctx\<lparr>x_user := Some ex_friend\<rparr>) 1 1 9
       (snd (createList ex_conf (no_ctx\<lparr>x_user := Some ex_friend\<rparr>) ex_paste 5 ex_wa))) = Inr sess \<and>
     sq_recipients sess = [(''61412345678'', ''Budi''), (''62812345678'', '''')] \<and> sq_body sess = ''Hi {name}''"
proof -
  let ?ctx = "no_ctx\<lparr>x_user := Some ex_friend\<rparr>"
  define l where "l = \<lparr>rl_id = 1, rl_owner = 7, rl_name = ''Family'', rl_code = '''', rl_created = 5, rl_updated = 5\<rparr>"
  let ?ps = "[\<lparr>pr_phone = ''61412345678'', pr_name = ''Budi''\<rparr>, \<lparr>pr_phone = ''62812345678'', pr_name = ''''\<rparr>]"
  have parsed: "ParseRecipients (lb_text ex_paste) ''61'' = (?ps, [])" by code_simp
  have db: "ex_wa = \<lparr>wa_templates = [\<lparr>tp_id = 1, tp_owner = 7, tp_name = ''Hello'', tp_body = ''Hi {name}'', tp_created = 0, tp_updated = 0\<rparr>],
      wa_lists = [], wa_recipients = [], wa_batches = []\<rparr>"
    by (simp add: ex_wa_def createTemplate_def ex_ctx named_ok_def fresh_id_def Let_def) (simp add: ex_friend_def)
  obtain db1 where c: "createList ex_conf ?ctx ex_paste 5 ex_wa = (Inr (l, ?ps, []), db1)" "wa_templates db1 = wa_templates ex_wa" "wa_batches db1 = []"
    using parsed by (simp add: createList_def ex_ctx effectiveCountryCode_def) (simp add: db ex_conf_def ex_paste_def ex_friend_def named_ok_def country_ok_def fresh_id_def l_def Let_def)
  have own: "ownedTemplate db1 (u_id ex_friend) 1 = Inr \<lparr>tp_id = 1, tp_owner = 7, tp_name = ''Hello'', tp_body = ''Hi {name}'', tp_created = 0, tp_updated = 0\<rparr>"
    by (simp add: ownedTemplate_def c(2)) (simp add: db ex_friend_def)
  have "rl_id l = 1" by (simp add: l_def)
  then show ?thesis
    using paste_is_sent [OF ex_wa_reachable ex_ctx c(1), of 1 9] own c(1)
    by (auto simp: case_prod_beta Let_def batchesUsedToday_def c(3) count_where_def ex_conf_def split: sum.splits)
qed

end
