(* ===== verification/Spec2Isabelle.thy ===== *)
theory Spec2Isabelle
  imports Ingest Bills Lifecycle OAuth Wishlist BalanceSeries Access AdminBills Mcp Spotify WhatsApp
begin

text \<open>
  A model of the Go backend of the portfolio site (\<open>backend/\<close>), and the theorems that make it correct.

  \<^bold>\<open>The program.\<close>  One HTTP server and one worker share a relational database, a message queue and an
  object store.  A ticker starts jobs on cron schedules; the worker, or a runner outside, carries them out.  One
  job fetches the day's articles and lets a language model summarise them; another asks the owner's own machine to
  scrape the bank, and what it delivers is landed in a ledger.  The owner reads the ledger on a dashboard and
  through tools for a language model, the latter behind an OAuth server of its own.  Beside that: sign-in with
  Google and tiers of access, a wishlist, and a sender of WhatsApp batches.

  \<^bold>\<open>The theories, from the bottom.\<close>

  \<^item> \<open>Prelude\<close>, \<open>GoTime\<close>, \<open>Float64\<close>, \<open>Sha256\<close>: what the code uses of Go's standard library.  Strings are
    bytes; an instant is a number of nanoseconds; money is the 53-bit float of the code, so sums round as they do
    there; SHA-256 is computed on 32-bit words.  \<open>Prelude\<close> has tables as lists of rows, guarded updates, and the
    locale \<open>insert_or_skip\<close>, an insert that a unique index may turn into nothing.
  \<^item> \<open>FinanceDates\<close> (\<open>finance/date.go\<close>, \<open>window.go\<close>), \<open>DedupHash\<close> (\<open>hash.go\<close>), \<open>Ledger\<close> (the finance
    tables and \<open>payload.go\<close>) and \<open>Ingest\<close> (\<open>ingest.go\<close>): the landing of one delivery in the ledger.
  \<^item> \<open>Cadence\<close> and \<open>Bills\<close> (\<open>bills.go\<close>), \<open>AdminBills\<close> (\<open>api/admin_finance_bills.go\<close>): occurrences of recurring
    bills, the matching of payments against them, and their management.
  \<^item> \<open>FinanceRead\<close> (\<open>read.go\<close>), \<open>BalanceSeries\<close> (\<open>balance_series.go\<close>), \<open>FinanceHttp\<close> (\<open>api/finance_read.go\<close>,
    \<open>admin_accounts.go\<close>), \<open>Mcp\<close> (\<open>internal/mcp\<close>), \<open>Wishlist\<close>: what is read from the ledger, and by whom.
  \<^item> \<open>Jobs\<close> and \<open>Scheduler\<close> (\<open>internal/jobs\<close>), \<open>FinanceSync\<close> (\<open>api/finance_sync.go\<close>), \<open>WorkApi\<close>
    (\<open>api/work.go\<close>), \<open>AdminJobs\<close> (\<open>api/admin_jobs.go\<close>, \<open>cmd/worker\<close>), \<open>DigestBuild\<close> (\<open>internal/digest\<close>,
    \<open>cmd/digest\<close>): jobs, runs, artifacts and everything that moves them.
  \<^item> \<open>Lifecycle\<close>: all of these interleaved on the tables they share.
  \<^item> \<open>Auth\<close> (\<open>internal/auth\<close>), \<open>Access\<close> (\<open>api/auth.go\<close>, \<open>admin_grants.go\<close>), \<open>OAuth\<close> (\<open>internal/oauth\<close>): who is
    asking, and what they may.  \<open>HashExample\<close> holds one evaluation the examples of \<open>OAuth\<close> use.
  \<^item> \<open>WhatsApp\<close> (\<open>internal/whatsapp\<close>, \<open>api/whatsapp.go\<close>, \<open>whatsapp_batch.go\<close>) and \<open>Spotify\<close>
    (\<open>internal/spotify\<close>, \<open>api/spotify.go\<close>, \<open>spotify_refresher.go\<close>, \<open>admin_playlists.go\<close>): the two outside services the
    site talks to.
  \<^item> \<open>Showcase\<close> (\<open>api/projects.go\<close>, \<open>admin_projects.go\<close>, \<open>admin_uploads.go\<close>, \<open>contact.go\<close>): the public site.

  \<^bold>\<open>How the code is rendered.\<close>  A table is a record field holding the list of its rows in insertion order, a row
  is a record with the columns of \<open>ent/schema\<close>, and a nullable column is an option.  A handler or operation is one
  function from its input, the clock and the tables to its answer and the tables it leaves: an error is the left
  side of a sum with its HTTP status and text, an error inside a transaction leaves the tables as they were, and
  writes outside one stay.  A \<^emph>\<open>fresh id\<close> is one above the ids in the table.  Concurrency is interleaving: a
  handler's transaction is one step, so a racing claimer sees the row already taken; the step relations of
  \<open>Lifecycle\<close>, \<open>OAuth\<close>, \<open>Access\<close>, \<open>WhatsApp\<close>, \<open>Spotify\<close>, \<open>AdminBills\<close> and \<open>Wishlist\<close> take whole operations in any order, and their
  invariants hold in every reachable state.
\<close>

text \<open>
  \<^bold>\<open>What the theorems say.\<close>

  \<^item> \<^emph>\<open>Ledger\<close> (\<open>Ingest\<close>).  A delivery is all or nothing; delivering it again changes no ledger row and no
    balance reading; identical rows of one statement are both kept; every unique index survives.
  \<^item> \<^emph>\<open>Bills\<close> (\<open>Cadence\<close>, \<open>Bills\<close>, \<open>AdminBills\<close>).  Occurrences form a strictly increasing grid around the anchor;
    the matching pass only adds links that its rule allows and is idempotent; a hand-made link is described on
    every branch; bills and links stay consistent under all six handlers, and an edit writes what was asked for.
  \<^item> \<^emph>\<open>Reading\<close> (\<open>FinanceRead\<close>, \<open>BalanceSeries\<close>, \<open>FinanceHttp\<close>, \<open>Mcp\<close>, \<open>Wishlist\<close>).  Pages put together are exactly
    the matching rows; two summaries that should agree do; buckets partition time and their loop returns; closes
    are the newest readings carried forward; the tools answer every request, are closed without authorization,
    and report the dashboard's figures; a cut series keeps the newest points and says it was cut.
  \<^item> \<^emph>\<open>Jobs\<close> (\<open>Scheduler\<close>, \<open>FinanceSync\<close>, \<open>WorkApi\<close>, \<open>DigestBuild\<close>, \<open>Lifecycle\<close>).  A tick fires every due job once
    and recovers what is stuck; claims and leases are exclusive; the staged digest equals the monolithic
    one; in every interleaving a run is executed at most once, and moves only along an abstract machine
    (\<open>run_move\<close>), of which the operations are a refinement.
  \<^item> \<^emph>\<open>Access\<close> (\<open>Auth\<close>, \<open>Access\<close>, \<open>OAuth\<close>).  Sign-in follows the provider's subject and not the address; sessions
    expire; roles are in step with the grants; every OAuth token goes back to one used code of one consent,
    and replay of a rotated token ends its family.
  \<^item> \<^emph>\<open>WhatsApp\<close>.  Pasted lists are read exactly and sent as read; a batch whose stream is over is settled, but
    for one case; users do not touch each other's rows.
  \<^item> \<^emph>\<open>Spotify\<close>.  A rate limit is waited out; the panel shows as live only what was live, and does not go blank;
    an identifier is read from every form it is pasted in.
  \<^item> \<^emph>\<open>Showcase\<close>.  Ids and slugs stay unique, a reordering is all or nothing, and an upload lands in its folder.

  \<^bold>\<open>Interfaces.\<close>  A contract that several parts share is a locale, interpreted on the code's own operations:
  \<open>insert_or_skip\<close> (the ledger, the balance readings, the runs and the digests), \<open>grid\<close> (the occurrences of a
  bill), \<open>exclusive_lease\<close> (sync runs and work artifacts), \<open>ordered_rows\<close> (projects and playlists) and \<open>separating_order\<close> (the order of the wishlist).

  \<^bold>\<open>Parameters.\<close>  What is not in the repository is an argument: the clock, random tokens, the time zone (its
  offset at an instant; \<open>zone_ok\<close> says that every local day has a midnight, in order, and that offsets are whole seconds),
  the cron library, the decoders of JSON replies, the HTTP transport and the language model, the object store, the
  container service, the identity provider, the database's text search, and the state of a browser's connection.
  Theorems that need something of a parameter name it as a hypothesis, and a witness instantiates it.

  \<^bold>\<open>Loops and bounds.\<close>  Loops over lists are structural.  The walk over the buckets of a series ends only if the
  calendar moves forward, so it is a partial function (\<open>bucket_loop\<close>), and for every \<open>zone_ok\<close> zone it is proved to
  return.  The generator of occurrences stops at 10000, as in the code.  The point budgets of the tools are those
  of the code.  Durations saturate at the 64-bit range as \<open>time.Time.Sub\<close> does; where that range (292 years) matters
  a theorem says so.  Row ids, counts and instants are unbounded, floats have no infinities.

  \<^bold>\<open>What modelling showed.\<close>  Each point is a lemma or a theorem of the theory named: a batch whose browser hangs up
  in a pause stays running (\<open>WhatsApp\<close>); a failed day of the batched digest is not repaired by a pending result
  (\<open>DigestBuild\<close>); work is filed under the job of the scrape, so a runner scoped to the summary gets none
  (\<open>Lifecycle\<close>); a user who owns tokens cannot be deleted (\<open>Auth\<close>); an administrator by a grant on an address that
  belongs to another user survives its revocation (\<open>Access\<close>); an unknown account of a bill is reported as a taken
  name, and moving a bill's anchor strands its links (\<open>AdminBills\<close>); a name of many two-byte characters is a server
  error (\<open>Wishlist\<close>); a repeated completion can turn success into failure (\<open>WorkApi\<close>); the slow refresh calls a
  rate-limited service in the middle of its backoff (\<open>Spotify\<close>); a long
  name on the contact form loses the message (\<open>Showcase\<close>).

  \<^bold>\<open>Not modelled.\<close>  Push notifications and mail (one service call each); configuration, wiring, routing and process start; the clients of cloud
  services; generated code; the frontend and the deployment.  Failures of the database other than violated
  constraints, log lines, and the rendering of answers as JSON or HTML are left out everywhere.
\<close>

end
